(* ===== verification/Prelude.thy ===== *)
theory Prelude
  imports Main "HOL-Library.Word"
begin

text \<open>
  Shared vocabulary of the development.

  \<^item> Machine integers. A \<open>u8\<close> is an \<open>8 word\<close>. A \<open>u64\<close> (and a \<open>usize\<close>, on the
    64-bit targets of the engine) is a \<open>nat\<close> below \<open>2 ^ 64\<close>; where the source adds, subtracts
    or multiplies values that come off a block, the release build's wrap-around is written out
    with \<open>wadd\<close>, \<open>wsub\<close> and \<open>wmul\<close>.
  \<^item> Errors. \<open>error\<close> is \<open>Error\<close> of \<open>error.rs\<close> with one constructor more, \<open>Panic\<close>, for
    the places where the Rust program panics (an index out of range, an \<open>unwrap\<close>).
    \<open>Corrupt\<close> carries the constant part of the message.
  \<^item> Effects. \<open>('s, 'a) op\<close> is a fallible operation on a state: the state is returned on the
    error path too, because a Rust method that returns \<open>Err\<close> keeps every mutation it made.
\<close>

section \<open>Collections of facts\<close>

named_theorems run_simps \<open>equations that run one step of a monadic operation\<close>
named_theorems wf_intros \<open>introduction rules for the well-formedness invariants\<close>

section \<open>Machine integers\<close>

type_synonym u8 = "8 word"

abbreviation U64 :: nat where
  "U64 \<equiv> 18446744073709551616"

definition wadd :: "nat \<Rightarrow> nat \<Rightarrow> nat" where
  "wadd a b = (a + b) mod U64"

definition wsub :: "nat \<Rightarrow> nat \<Rightarrow> nat" where
  "wsub a b = (a + (U64 - b mod U64)) mod U64"

definition wmul :: "nat \<Rightarrow> nat \<Rightarrow> nat" where
  "wmul a b = (a * b) mod U64"

definition checked_add :: "nat \<Rightarrow> nat \<Rightarrow> nat option" where
  "checked_add a b = (if a + b < U64 then Some (a + b) else None)"

text \<open>\<open>u64::div_ceil\<close> and \<open>usize::div_ceil\<close>.\<close>

definition div_ceil :: "nat \<Rightarrow> nat \<Rightarrow> nat" where
  "div_ceil a b = (if a mod b = 0 then a div b else a div b + 1)"

lemma U64_pow: "U64 = 2 ^ 64"
  by simp

lemma wadd_eq [simp]: "a + b < U64 \<Longrightarrow> wadd a b = a + b"
  by (simp add: wadd_def)

lemma wadd_less: "wadd a b < U64"
  by (simp add: wadd_def)

lemma wsub_eq [simp]: "b \<le> a \<Longrightarrow> a < U64 \<Longrightarrow> wsub a b = a - b"
proof -
  assume le: "b \<le> a" and lt: "a < U64"
  then have "a + (U64 - b mod U64) = (a - b) + U64" by simp
  then have "wsub a b = ((a - b) + U64) mod U64" by (simp only: wsub_def)
  also have "\<dots> = (a - b) mod U64" by (rule mod_add_self2)
  also have "\<dots> = a - b" using lt by (intro mod_less) simp
  finally show ?thesis .
qed

lemma wmul_eq [simp]: "a * b < U64 \<Longrightarrow> wmul a b = a * b"
  by (simp add: wmul_def)

lemma checked_add_Some [simp]: "checked_add a b = Some c \<longleftrightarrow> c = a + b \<and> a + b < U64"
  by (auto simp: checked_add_def)

lemma checked_add_None [simp]: "checked_add a b = None \<longleftrightarrow> U64 \<le> a + b"
  by (auto simp: checked_add_def)

lemma div_ceil_eq: "0 < b \<Longrightarrow> div_ceil a b = (a + b - 1) div b"
proof -
  assume b: "0 < b"
  define q r where "q = a div b" and "r = a mod b"
  have a: "a = q * b + r" and r: "r < b" using b by (auto simp: q_def r_def)
  show ?thesis
  proof (cases "r = 0")
    case True
    with a b have "(a + b - 1) div b = q"
      by (simp add: div_nat_eqI mult.commute)
    with True show ?thesis by (simp add: div_ceil_def q_def r_def)
  next
    case False
    with a r have "(a + b - 1) div b = Suc q"
      by (intro div_nat_eqI) (auto simp: algebra_simps)
    with False show ?thesis by (simp add: div_ceil_def q_def r_def)
  qed
qed

lemma div_ceil_le: "0 < b \<Longrightarrow> a \<le> div_ceil a b * b"
proof -
  assume b: "0 < b"
  define q r where "q = a div b" and "r = a mod b"
  have "a = q * b + r" and "r < b" using b by (auto simp: q_def r_def)
  then show ?thesis by (auto simp: div_ceil_def simp flip: q_def r_def)
qed

section \<open>Errors\<close>

datatype error =
    Io
  | BadMagic
  | Seal
  | Corrupt string
  | Verify nat
  | Bounds nat
  | Fenced nat
  | TractFull
  | Busy string
  | Panic string

type_synonym 'a result = "error + 'a"

section \<open>Fallible operations on a state\<close>

type_synonym ('s, 'a) op = "'s \<Rightarrow> 'a result \<times> 's"

definition retE :: "'a \<Rightarrow> ('s, 'a) op" where
  "retE x = (\<lambda>s. (Inr x, s))"

definition raiseE :: "error \<Rightarrow> ('s, 'a) op" where
  "raiseE e = (\<lambda>s. (Inl e, s))"

definition liftE :: "'a result \<Rightarrow> ('s, 'a) op" where
  "liftE r = (\<lambda>s. (r, s))"

definition getE :: "('s \<Rightarrow> 'a) \<Rightarrow> ('s, 'a) op" where
  "getE f = (\<lambda>s. (Inr (f s), s))"

definition modE :: "('s \<Rightarrow> 's) \<Rightarrow> ('s, unit) op" where
  "modE f = (\<lambda>s. (Inr (), f s))"

text \<open>The \<open>?\<close> operator: stop at the first error.\<close>

definition bindE :: "('s, 'a) op \<Rightarrow> ('a \<Rightarrow> ('s, 'b) op) \<Rightarrow> ('s, 'b) op" where
  "bindE m f = (\<lambda>s. case m s of (Inl e, s') \<Rightarrow> (Inl e, s') | (Inr x, s') \<Rightarrow> f x s')"

text \<open>A call whose \<open>Result\<close> is inspected instead of propagated.\<close>

definition tryE :: "('s, 'a) op \<Rightarrow> ('s, 'a result) op" where
  "tryE m = (\<lambda>s. case m s of (r, s') \<Rightarrow> (Inr r, s'))"

primrec forE :: "'x list \<Rightarrow> ('x \<Rightarrow> ('s, unit) op) \<Rightarrow> ('s, unit) op" where
  "forE [] f = retE ()"
| "forE (x # xs) f = bindE (f x) (\<lambda>_. forE xs f)"

primrec mapE :: "('x \<Rightarrow> ('s, 'a) op) \<Rightarrow> 'x list \<Rightarrow> ('s, 'a list) op" where
  "mapE f [] = retE []"
| "mapE f (x # xs) = bindE (f x) (\<lambda>y. bindE (mapE f xs) (\<lambda>ys. retE (y # ys)))"

text \<open>\<open>Option::ok_or_else\<close>.\<close>

definition ok_or :: "error \<Rightarrow> 'a option \<Rightarrow> 'a result" where
  "ok_or e x = (case x of None \<Rightarrow> Inl e | Some y \<Rightarrow> Inr y)"

definition bindR :: "'a result \<Rightarrow> ('a \<Rightarrow> 'b result) \<Rightarrow> 'b result" where
  "bindR r f = (case r of Inl e \<Rightarrow> Inl e | Inr x \<Rightarrow> f x)"

lemma retE_run [run_simps]: "retE x s = (Inr x, s)"
  by (simp add: retE_def)

lemma raiseE_run [run_simps]: "raiseE e s = (Inl e, s)"
  by (simp add: raiseE_def)

lemma liftE_run [run_simps]: "liftE r s = (r, s)"
  by (simp add: liftE_def)

lemma getE_run [run_simps]: "getE f s = (Inr (f s), s)"
  by (simp add: getE_def)

lemma modE_run [run_simps]: "modE f s = (Inr (), f s)"
  by (simp add: modE_def)

lemma bindE_ok [run_simps]: "m s = (Inr x, s') \<Longrightarrow> bindE m f s = f x s'"
  by (simp add: bindE_def)

lemma bindE_err [run_simps]: "m s = (Inl e, s') \<Longrightarrow> bindE m f s = (Inl e, s')"
  by (simp add: bindE_def)

lemma tryE_run [run_simps]: "m s = (r, s') \<Longrightarrow> tryE m s = (Inr r, s')"
  by (simp add: tryE_def)

lemma bindE_cases:
  assumes "bindE m f s = (r, s'')"
  obtains (err) e where "m s = (Inl e, s'')" "r = Inl e"
        | (ok) x s' where "m s = (Inr x, s')" "f x s' = (r, s'')"
proof (cases "m s")
  case (Pair q s1)
  then show thesis using assms err ok by (cases q) (auto simp: bindE_def)
qed

lemma bindE_InrE:
  assumes "bindE m f s = (Inr y, s'')"
  obtains x s' where "m s = (Inr x, s')" "f x s' = (Inr y, s'')"
  using assms by (cases rule: bindE_cases) auto

lemma bindE_assoc: "bindE (bindE m f) g = bindE m (\<lambda>x. bindE (f x) g)"
  by (auto simp: bindE_def fun_eq_iff split: prod.splits sum.splits)

lemma bindE_retE: "bindE (retE x) f = f x"
  by (simp add: bindE_def retE_def fun_eq_iff)

lemma liftE_Inr: "liftE (Inr x) = retE x"
  by (simp add: liftE_def retE_def)

lemma bindE_raiseE: "bindE (raiseE e) f = raiseE e"
  by (simp add: bindE_def raiseE_def fun_eq_iff)

lemma bindE_cong [fundef_cong]:
  assumes "m s = m' s'" and "\<And>x s''. m' s' = (Inr x, s'') \<Longrightarrow> f x s'' = f' x s''" and "s = s'"
  shows "bindE m f s = bindE m' f' s'"
  using assms by (auto simp: bindE_def split: prod.splits sum.splits)

text \<open>Loops: an invariant that every iteration keeps, and the two ways a loop's result is known.\<close>

lemma forE_invariant:
  assumes "forE xs f s = (r, s')" and "P s"
    and "\<And>x s r s'. x \<in> set xs \<Longrightarrow> P s \<Longrightarrow> f x s = (r, s') \<Longrightarrow> P s'"
  shows "P s'"
  using assms
proof (induction xs arbitrary: s)
  case Nil
  then show ?case by (simp add: run_simps)
next
  case (Cons x xs)
  from Cons.prems(1) have "bindE (f x) (\<lambda>_. forE xs f) s = (r, s')" by simp
  then show ?case
  proof (cases rule: bindE_cases)
    case (err e)
    with Cons.prems(2,3) show ?thesis by (metis list.set_intros(1))
  next
    case (ok y t)
    with Cons.prems(2,3) have "P t" by (metis list.set_intros(1))
    show ?thesis by (rule Cons.IH [OF ok(2) \<open>P t\<close>]) (rule Cons.prems(3), auto)
  qed
qed

text \<open>A loop that ran to its end: what each iteration establishes and no later one destroys.\<close>

lemma forE_ok_all:
  assumes "forE xs f s = (Inr u, s')" and "P s"
    and step: "\<And>x s s'. x \<in> set xs \<Longrightarrow> P s \<Longrightarrow> f x s = (Inr (), s') \<Longrightarrow> P s' \<and> Q x s'"
    and keep: "\<And>x y s s'. x \<in> set xs \<Longrightarrow> y \<in> set xs \<Longrightarrow> P s \<Longrightarrow> Q y s \<Longrightarrow>
        f x s = (Inr (), s') \<Longrightarrow> Q y s'"
  shows "P s' \<and> (\<forall>x \<in> set xs. Q x s')"
proof -
  have "P s' \<and> (\<forall>x \<in> set ys \<union> set zs. Q x s')"
    if "forE zs f s = (Inr u, s')" "P s" "\<forall>y \<in> set ys. Q y s" "set ys \<union> set zs \<subseteq> set xs" for ys zs s
    using that
  proof (induction zs arbitrary: s ys)
    case Nil
    then show ?case by (auto simp: run_simps)
  next
    case (Cons z zs)
    from Cons.prems(1) obtain t where t: "f z s = (Inr (), t)" "forE zs f t = (Inr u, s')"
      by (auto elim: bindE_InrE)
    have z: "z \<in> set xs" using Cons.prems(4) by simp
    have "P t \<and> (\<forall>x \<in> set (z # ys) \<union> set zs. Q x s') \<and> P s'"
      using Cons.IH [OF t(2), of "z # ys"] step [OF z Cons.prems(2) t(1)]
        keep [OF z _ Cons.prems(2) _ t(1)] Cons.prems(3,4)
      by (simp add: subset_eq)
    then show ?case by auto
  qed
  from this [of xs s "[]"] assms(1,2) show ?thesis by simp
qed

text \<open>A loop none of whose iterations can fail.\<close>

lemma forE_progress:
  assumes "P s" and "\<And>x s. x \<in> set xs \<Longrightarrow> P s \<Longrightarrow> \<exists>s'. f x s = (Inr (), s') \<and> P s'"
  shows "\<exists>s'. forE xs f s = (Inr (), s') \<and> P s'"
  using assms
proof (induction xs arbitrary: s)
  case Nil
  then show ?case by (simp add: run_simps)
next
  case (Cons x xs)
  then obtain t where t: "f x s = (Inr (), t)" "P t" by (meson list.set_intros(1))
  from Cons.IH [OF t(2)] Cons.prems(2) obtain s' where "forE xs f t = (Inr (), s') \<and> P s'"
    by (meson list.set_intros(2))
  with t(1) show ?case by (auto simp: run_simps)
qed

text \<open>Two loop bodies that agree wherever the loop can be.\<close>

lemma forE_agree:
  assumes "P s" and "\<And>x s. x \<in> set xs \<Longrightarrow> P s \<Longrightarrow> f x s = g x s \<and> P (snd (g x s))"
  shows "forE xs f s = forE xs g s"
  using assms
proof (induction xs arbitrary: s)
  case (Cons x xs)
  have "f x s = g x s" "P (snd (g x s))" using Cons.prems by auto
  moreover have "forE xs f t = forE xs g t" if "P t" for t using Cons.IH [OF that] Cons.prems(2) by simp
  ultimately show ?case by (cases "g x s") (auto simp: bindE_def split: sum.splits)
qed simp

lemma mapE_invariant:
  assumes "mapE f xs s = (r, s')" and "P s"
    and "\<And>x s r s'. x \<in> set xs \<Longrightarrow> P s \<Longrightarrow> f x s = (r, s') \<Longrightarrow> P s'"
  shows "P s'"
  using assms
proof (induction xs arbitrary: s r)
  case Nil
  then show ?case by (simp add: run_simps)
next
  case (Cons x xs)
  have step: "P t" if "f x s = (q, t)" for q t
    using that Cons.prems(2,3) by (metis list.set_intros(1))
  from Cons.prems(1) have
    "bindE (f x) (\<lambda>y. bindE (mapE f xs) (\<lambda>ys. retE (y # ys))) s = (r, s')" by simp
  then show ?case
  proof (cases rule: bindE_cases)
    case (err e)
    then show ?thesis using step by blast
  next
    case (ok y t)
    then have "P t" using step by blast
    from ok(2) obtain q where "mapE f xs t = (q, s')"
      by (cases rule: bindE_cases) (auto simp: run_simps)
    then show ?thesis by (rule Cons.IH [OF _ \<open>P t\<close>]) (rule Cons.prems(3), auto)
  qed
qed

lemma mapE_ok:
  assumes "mapE f xs s = (Inr ys, s')" and "P s"
    and "\<And>x s r s'. x \<in> set xs \<Longrightarrow> P s \<Longrightarrow> f x s = (r, s') \<Longrightarrow> P s'"
    and "\<And>x y s s'. x \<in> set xs \<Longrightarrow> P s \<Longrightarrow> f x s = (Inr y, s') \<Longrightarrow> y = g x"
  shows "ys = map g xs"
  using assms
proof (induction xs arbitrary: s ys)
  case Nil
  then show ?case by (simp add: run_simps)
next
  case (Cons x xs)
  from Cons.prems(1) obtain y t where y: "f x s = (Inr y, t)"
    and rest: "bindE (mapE f xs) (\<lambda>ys. retE (y # ys)) t = (Inr ys, s')"
    by (auto elim: bindE_InrE)
  from rest obtain zs where zs: "mapE f xs t = (Inr zs, s')" and ys: "ys = y # zs"
    by (auto elim!: bindE_InrE simp: run_simps)
  have "P t" using Cons.prems(2,3) y by (metis list.set_intros(1))
  with zs Cons.prems(3,4) have "zs = map g xs" by (intro Cons.IH) auto
  moreover have "y = g x" using Cons.prems(2,4) y by (metis list.set_intros(1))
  ultimately show ?case using ys by simp
qed

lemma mapE_pure: "(\<And>x. x \<in> set xs \<Longrightarrow> f x s = (Inr (g x), s)) \<Longrightarrow> mapE f xs s = (Inr (map g xs), s)"
  by (induction xs) (auto simp: run_simps)

lemma forE_pure: "(\<And>x. x \<in> set xs \<Longrightarrow> f x s = (Inr (), s)) \<Longrightarrow> forE xs f s = (Inr (), s)"
  by (induction xs) (auto simp: run_simps)

lemma forE_append: "forE (xs @ ys) f s = bindE (forE xs f) (\<lambda>_. forE ys f) s"
  by (induction xs arbitrary: s) (auto simp: bindE_def retE_def split: prod.splits sum.splits)

lemma mapE_cong: "(\<And>x s. x \<in> set xs \<Longrightarrow> f x s = g x s) \<Longrightarrow> mapE f xs s = mapE g xs s"
  by (induction xs arbitrary: s) (auto intro!: bindE_cong)

lemma mapE_map: "mapE f (map g xs) = mapE (f \<circ> g) xs"
  by (induction xs) auto

lemma mapE_lift:
  assumes "mapE (\<lambda>x. liftE (g x)) xs s = (r, s')"
  shows "s' = s \<and> (\<forall>ys. r = Inr ys \<longrightarrow> list_all2 (\<lambda>x y. g x = Inr y) xs ys)"
  using assms
proof (induction xs arbitrary: r s')
  case Nil
  then show ?case by (auto simp: run_simps)
next
  case (Cons x xs)
  obtain q t where q: "mapE (\<lambda>x. liftE (g x)) xs s = (q, t)" by (cases "mapE (\<lambda>x. liftE (g x)) xs s")
  show ?case using Cons.IH [OF q] Cons.prems q
    by (cases "g x"; cases q) (auto simp: bindE_def liftE_def retE_def)
qed

lemma bindR_Inr [simp]: "bindR (Inr x) f = f x"
  by (simp add: bindR_def)

lemma bindR_Inl [simp]: "bindR (Inl e) f = Inl e"
  by (simp add: bindR_def)

lemma bindR_eq_Inr: "bindR r f = Inr y \<longleftrightarrow> (\<exists>x. r = Inr x \<and> f x = Inr y)"
  by (cases r) auto

lemma ok_or_Some [simp]: "ok_or e (Some x) = Inr x"
  by (simp add: ok_or_def)

lemma ok_or_None [simp]: "ok_or e None = Inl e"
  by (simp add: ok_or_def)

lemma ok_or_eq_Inr [simp]: "ok_or e x = Inr y \<longleftrightarrow> x = Some y"
  by (cases x) auto

section \<open>Lists\<close>

text \<open>The sub-slice \<open>xs[i..i + n]\<close> and the overwrite \<open>xs[i..i + ys.len()].copy_from_slice(ys)\<close>.\<close>

definition sub_slice :: "'a list \<Rightarrow> nat \<Rightarrow> nat \<Rightarrow> 'a list" where
  "sub_slice xs i n = take n (drop i xs)"

definition overwrite :: "'a list \<Rightarrow> nat \<Rightarrow> 'a list \<Rightarrow> 'a list" where
  "overwrite xs i ys = take i xs @ ys @ drop (i + length ys) xs"

lemma length_overwrite [simp]:
  "i + length ys \<le> length xs \<Longrightarrow> length (overwrite xs i ys) = length xs"
  by (simp add: overwrite_def)

lemma nth_overwrite:
  assumes "l + length bs \<le> length xs"
  shows "overwrite xs l bs ! k = (if l \<le> k \<and> k < l + length bs then bs ! (k - l) else xs ! k)"
proof -
  have l: "min (length xs) l = l" using assms by simp
  consider "k < l" | "l \<le> k" "k - l < length bs" | "l + length bs \<le> k" by linarith
  then show ?thesis
    by cases (use assms l in \<open>auto simp: overwrite_def nth_append\<close>)
qed

lemma find_rev_map_of:
  "find (\<lambda>p. fst p = k) (rev xs) = map_option (Pair k) (map_of (rev xs) k)"
proof (induction xs rule: rev_induct)
  case Nil
  then show ?case by simp
next
  case (snoc x xs)
  then show ?case by (cases x) auto
qed

end
