(* ===== verification/Block_Dev.thy ===== *)
theory Block_Dev
  imports Prelude
begin

text \<open>
  The block device: \<open>src/block.rs\<close> (the trait \<open>BlockDev\<close> and its default methods) and
  \<open>src/host.rs\<close> (\<open>FileDev\<close>, the device every host vault runs on).

  A file is its content in blocks plus a fault script: what the medium will do to the coming
  block transfers. A \<open>Fine\<close> transfer succeeds, an \<open>IoFail\<close> one makes the system call return an
  error, and a \<open>Torn b\<close> write reports success while the medium holds \<open>b\<close> instead of what was
  written. An exhausted script is a healthy medium. Threads, alignment and the choice between
  cached and direct I/O have no counterpart: they change when bytes move, not which bytes.
\<close>

section \<open>Blocks\<close>

type_synonym block = "u8 list"

definition BLOCK :: nat where
  "BLOCK = 2 ^ 12"

definition ZERO_BLOCK :: block where
  "ZERO_BLOCK = replicate BLOCK 0"

lemma BLOCK_pos [simp]: "0 < BLOCK"
  by (simp add: BLOCK_def)

lemma length_ZERO_BLOCK [simp]: "length ZERO_BLOCK = BLOCK"
  by (simp add: ZERO_BLOCK_def)

section \<open>The file-backed device\<close>

datatype fault = Fine | IoFail | Torn block

record filedev =
  fd_file :: "block list"
  fd_blocks :: nat
  fd_faults :: "fault list"

text \<open>The next block transfer's fate; the script is consumed.\<close>

definition next_fault :: "filedev \<Rightarrow> fault \<times> filedev" where
  "next_fault d =
     (case fd_faults d of [] \<Rightarrow> (Fine, d) | f # fs \<Rightarrow> (f, d\<lparr>fd_faults := fs\<rparr>))"

definition healthy :: "filedev \<Rightarrow> bool" where
  "healthy d \<longleftrightarrow> fd_faults d = []"

text \<open>The device's type invariant: the file holds at least the blocks the device claims, in
  whole blocks.\<close>

definition wf_dev :: "filedev \<Rightarrow> bool" where
  "wf_dev d \<longleftrightarrow> fd_blocks d \<le> length (fd_file d) \<and> fd_blocks d < U64
     \<and> (\<forall>b \<in> set (fd_file d). length b = BLOCK)"

text \<open>\<open>FileDev::open\<close> on a file of \<open>len\<close> bytes: the length must be block-aligned.\<close>

definition filedev_open :: "nat \<Rightarrow> block list \<Rightarrow> fault list \<Rightarrow> filedev result" where
  "filedev_open len file faults =
     (if len mod BLOCK \<noteq> 0 then Inl (Corrupt ''file length is not 4KB-aligned'')
      else Inr \<lparr>fd_file = file, fd_blocks = len div BLOCK, fd_faults = faults\<rparr>)"

definition dev_bounds :: "nat \<Rightarrow> (filedev, unit) op" where
  "dev_bounds lba = (\<lambda>d. if lba \<ge> fd_blocks d then (Inl (Bounds lba), d) else (Inr (), d))"

definition dev_bounds_run :: "nat \<Rightarrow> nat \<Rightarrow> (filedev, unit) op" where
  "dev_bounds_run lba n =
     (\<lambda>d. if lba \<ge> fd_blocks d \<or> n > wsub (fd_blocks d) lba then (Inl (Bounds lba), d)
          else (Inr (), d))"

text \<open>\<open>read_block_at\<close> and \<open>write_block_at\<close> for one block: the positioned transfer itself.
  Reading past the file's end is the end-of-file error of \<open>read_exact_at\<close>.\<close>

definition read_block_at :: "nat \<Rightarrow> (filedev, block) op" where
  "read_block_at lba =
     (\<lambda>d. case next_fault d of (f, d') \<Rightarrow>
        (if f = IoFail \<or> lba \<ge> length (fd_file d') then (Inl Io, d')
         else (Inr (fd_file d' ! lba), d')))"

definition write_block_at :: "nat \<Rightarrow> block \<Rightarrow> (filedev, unit) op" where
  "write_block_at lba b =
     (\<lambda>d. case next_fault d of (f, d') \<Rightarrow>
        (case f of
           IoFail \<Rightarrow> (Inl Io, d')
         | Fine \<Rightarrow> (Inr (), d'\<lparr>fd_file := (fd_file d')[lba := b]\<rparr>)
         | Torn c \<Rightarrow> (Inr (), d'\<lparr>fd_file := (fd_file d')[lba := take BLOCK (c @ ZERO_BLOCK)]\<rparr>)))"

definition dev_read :: "nat \<Rightarrow> (filedev, block) op" where
  "dev_read lba = bindE (dev_bounds lba) (\<lambda>_. read_block_at lba)"

definition dev_write :: "nat \<Rightarrow> block \<Rightarrow> (filedev, unit) op" where
  "dev_write lba b = bindE (dev_bounds lba) (\<lambda>_. write_block_at lba b)"

text \<open>\<open>sync_data\<close>: the call can fail; a block that it lets through is on the medium.\<close>

definition dev_flush :: "(filedev, unit) op" where
  "dev_flush = (\<lambda>d. case next_fault d of (f, d') \<Rightarrow>
     (if f = IoFail then (Inl Io, d') else (Inr (), d')))"

definition dev_write_run :: "nat \<Rightarrow> block list \<Rightarrow> (filedev, unit) op" where
  "dev_write_run lba bs =
     (if bs = [] then retE ()
      else bindE (dev_bounds_run lba (length bs))
             (\<lambda>_. forE (enumerate lba bs) (\<lambda>(i, b). write_block_at i b)))"

definition dev_read_run :: "nat \<Rightarrow> nat \<Rightarrow> (filedev, block list) op" where
  "dev_read_run lba n =
     (if n = 0 then retE []
      else bindE (dev_bounds_run lba n) (\<lambda>_. mapE read_block_at [lba ..< lba + n]))"

definition READERS :: nat where
  "READERS = 8"

text \<open>Every position is checked before any is read; the reader threads of a long list each take
  a stretch of it, in this model one after another.\<close>

definition dev_read_many :: "nat list \<Rightarrow> (filedev, block list) op" where
  "dev_read_many lbas =
     bindE (forE lbas dev_bounds) (\<lambda>_.
       if length lbas < 2 * READERS then mapE dev_read lbas
       else mapE read_block_at lbas)"

text \<open>A call on the file that moves no block, \<open>fallocate\<close>, \<open>set_len\<close> or \<open>sync_all\<close>: it succeeds or fails.\<close>

definition file_call :: "(filedev, unit) op" where
  "file_call = (\<lambda>d. case next_fault d of (f, d') \<Rightarrow> (if f = IoFail then (Inl Io, d') else (Inr (), d')))"

text \<open>\<open>preallocate\<close> on an open device: \<open>fallocate\<close> extends the file by zeros and keeps what it already
  holds beyond the device's claim; where it is refused, \<open>set_len\<close> gives the file exactly that length.\<close>

definition dev_preallocate :: "nat \<Rightarrow> (filedev, unit) op" where
  "dev_preallocate n =
     bindE (tryE file_call) (\<lambda>fallocated. case fallocated of
       Inr _ \<Rightarrow> modE (\<lambda>d. d\<lparr>fd_file := fd_file d @ replicate (n - length (fd_file d)) ZERO_BLOCK\<rparr>)
     | Inl _ \<Rightarrow> bindE file_call (\<lambda>_.
         modE (\<lambda>d. d\<lparr>fd_file := take n (fd_file d @ replicate (n - length (fd_file d)) ZERO_BLOCK)\<rparr>)))"

text \<open>\<open>FileDev::grow\<close>: at or below the current size is a no-op. A \<open>sync_all\<close> that fails leaves the file
  extended and the device with its old count.\<close>

definition dev_grow :: "nat \<Rightarrow> (filedev, unit) op" where
  "dev_grow new_blocks =
     (\<lambda>d. if new_blocks \<le> fd_blocks d then (Inr (), d)
          else bindE (dev_preallocate new_blocks) (\<lambda>_.
               bindE file_call (\<lambda>_.
               modE (\<lambda>d. d\<lparr>fd_blocks := new_blocks\<rparr>))) d)"

section \<open>The trait's default methods\<close>

definition default_write_run :: "nat \<Rightarrow> block list \<Rightarrow> (filedev, unit) op" where
  "default_write_run lba bs = forE (enumerate lba bs) (\<lambda>(i, b). dev_write i b)"

definition default_read_run :: "nat \<Rightarrow> nat \<Rightarrow> (filedev, block list) op" where
  "default_read_run lba n = mapE dev_read [lba ..< lba + n]"

definition default_discard :: "nat \<Rightarrow> nat \<Rightarrow> (filedev, unit) op" where
  "default_discard _ _ = retE ()"

definition default_grow :: "nat \<Rightarrow> (filedev, unit) op" where
  "default_grow _ = raiseE (Corrupt ''device does not support grow'')"

definition default_read_many :: "nat list \<Rightarrow> (filedev, block list) op" where
  "default_read_many lbas = mapE dev_read lbas"

section \<open>What a device promises\<close>

text \<open>
  The contract of the trait, as a client of the device sees it. \<open>content d l\<close> is what the medium
  holds at \<open>l\<close>, \<open>quiet d\<close> says that no fault is to come, \<open>inv\<close> is the device's invariant.
  A read returns the content and changes none; a write touches its own position only (whatever
  lands there); a flush changes no content.
\<close>

locale block_device =
  fixes rd :: "nat \<Rightarrow> ('d, block) op"
    and wr :: "nat \<Rightarrow> block \<Rightarrow> ('d, unit) op"
    and fl :: "('d, unit) op"
    and cnt :: "'d \<Rightarrow> nat"
    and content :: "'d \<Rightarrow> nat \<Rightarrow> block"
    and quiet :: "'d \<Rightarrow> bool"
    and inv :: "'d \<Rightarrow> bool"
  assumes rd_inv: "inv d \<Longrightarrow> rd l d = (rb, d') \<Longrightarrow> inv d' \<and> cnt d' = cnt d \<and> content d' = content d"
    and rd_ok: "inv d \<Longrightarrow> rd l d = (Inr b, d') \<Longrightarrow> b = content d l \<and> l < cnt d"
    and rd_quiet: "inv d \<Longrightarrow> quiet d \<Longrightarrow> l < cnt d \<Longrightarrow> rd l d = (Inr (content d l), d)"
    and wr_inv: "inv d \<Longrightarrow> length b = BLOCK \<Longrightarrow> wr l b d = (r, d') \<Longrightarrow> inv d' \<and> cnt d' = cnt d"
    and wr_frame: "wr l b d = (r, d') \<Longrightarrow> k \<noteq> l \<Longrightarrow> content d' k = content d k"
    and wr_bound: "wr l b d = (Inr u, d') \<Longrightarrow> l < cnt d"
    and wr_quiet: "inv d \<Longrightarrow> quiet d \<Longrightarrow> l < cnt d \<Longrightarrow>
        \<exists>d'. wr l b d = (Inr (), d') \<and> quiet d' \<and> content d' = (content d)(l := b)"
    and fl_inv: "inv d \<Longrightarrow> fl d = (r, d') \<Longrightarrow> inv d' \<and> cnt d' = cnt d \<and> content d' = content d"
    and fl_quiet: "quiet d \<Longrightarrow> fl d = (Inr (), d)"

text \<open>The run transfers, as the batched writer uses them.\<close>

locale block_device_runs = block_device rd wr fl cnt content quiet inv
  for rd :: "nat \<Rightarrow> ('d, block) op"
    and wr :: "nat \<Rightarrow> block \<Rightarrow> ('d, unit) op"
    and fl :: "('d, unit) op"
    and cnt :: "'d \<Rightarrow> nat"
    and content :: "'d \<Rightarrow> nat \<Rightarrow> block"
    and quiet :: "'d \<Rightarrow> bool"
    and inv :: "'d \<Rightarrow> bool" +
  fixes wrun :: "nat \<Rightarrow> block list \<Rightarrow> ('d, unit) op"
    and rrun :: "nat \<Rightarrow> nat \<Rightarrow> ('d, block list) op"
  assumes wrun_inv: "inv d \<Longrightarrow> \<forall>b \<in> set bs. length b = BLOCK \<Longrightarrow> wrun l bs d = (r, d') \<Longrightarrow>
        inv d' \<and> cnt d' = cnt d"
    and wrun_frame: "wrun l bs d = (r, d') \<Longrightarrow> k < l \<or> l + length bs \<le> k \<Longrightarrow>
        content d' k = content d k"
    and wrun_quiet: "inv d \<Longrightarrow> quiet d \<Longrightarrow> l + length bs \<le> cnt d \<Longrightarrow>
        \<exists>d'. wrun l bs d = (Inr (), d') \<and> quiet d' \<and>
          content d' = (\<lambda>k. if l \<le> k \<and> k < l + length bs then bs ! (k - l) else content d k)"
    and rrun_inv: "inv d \<Longrightarrow> rrun l n d = (rl, d') \<Longrightarrow>
        inv d' \<and> cnt d' = cnt d \<and> content d' = content d"
    and rrun_ok: "inv d \<Longrightarrow> rrun l n d = (Inr bs, d') \<Longrightarrow> bs = map (content d) [l ..< l + n]"
    and rrun_quiet: "inv d \<Longrightarrow> quiet d \<Longrightarrow> l + n \<le> cnt d \<Longrightarrow>
        rrun l n d = (Inr (map (content d) [l ..< l + n]), d)"

section \<open>\<open>FileDev\<close> keeps the contract\<close>

definition dev_content :: "filedev \<Rightarrow> nat \<Rightarrow> block" where
  "dev_content d l = fd_file d ! l"

lemma next_fault_fields [simp]:
  assumes "next_fault d = (f, d')"
  shows "fd_file d' = fd_file d" and "fd_blocks d' = fd_blocks d"
  using assms by (auto simp: next_fault_def split: list.splits)

lemma next_fault_healthy [simp]: "healthy d \<Longrightarrow> next_fault d = (Fine, d)"
  by (simp add: next_fault_def healthy_def)

lemma wf_dev_next_fault [simp]: "next_fault d = (f, d') \<Longrightarrow> wf_dev d' \<longleftrightarrow> wf_dev d"
  by (simp add: wf_dev_def)

lemma wf_dev_update [intro]:
  "wf_dev d \<Longrightarrow> fd_blocks e = fd_blocks d \<Longrightarrow> length b = BLOCK \<Longrightarrow>
   wf_dev (e\<lparr>fd_file := (fd_file d)[l := b]\<rparr>)"
  by (auto simp: wf_dev_def dest: set_update_subset_insert [THEN subsetD])

lemma length_pad_block [simp]: "length (take BLOCK (c @ ZERO_BLOCK)) = BLOCK"
  by simp

lemma read_block_at_inv:
  assumes "read_block_at l d = (r, d')"
  shows "fd_file d' = fd_file d \<and> fd_blocks d' = fd_blocks d \<and> (wf_dev d' \<longleftrightarrow> wf_dev d)"
  using assms by (cases "next_fault d") (auto simp: read_block_at_def split: if_splits)

lemma read_block_at_ok:
  assumes "read_block_at l d = (Inr b, d')"
  shows "b = fd_file d ! l \<and> l < length (fd_file d)"
  using assms by (cases "next_fault d") (auto simp: read_block_at_def split: if_splits)

lemma read_block_at_healthy [simp]:
  "healthy d \<Longrightarrow> l < length (fd_file d) \<Longrightarrow> read_block_at l d = (Inr (fd_file d ! l), d)"
  by (simp add: read_block_at_def)

lemma write_block_at_fields:
  assumes "write_block_at l b d = (r, d')"
  shows "length (fd_file d') = length (fd_file d) \<and> fd_blocks d' = fd_blocks d
    \<and> (\<forall>k. k \<noteq> l \<longrightarrow> fd_file d' ! k = fd_file d ! k)
    \<and> (wf_dev d \<longrightarrow> length b = BLOCK \<longrightarrow> wf_dev d')"
  using assms by (cases "next_fault d") (auto simp: write_block_at_def split: fault.splits)

lemma write_block_at_healthy:
  "healthy d \<Longrightarrow> write_block_at l b d = (Inr (), d\<lparr>fd_file := (fd_file d)[l := b]\<rparr>)"
  by (simp add: write_block_at_def)

lemma healthy_update [simp]: "healthy (d\<lparr>fd_file := f\<rparr>) \<longleftrightarrow> healthy d"
  by (simp add: healthy_def)

lemma dev_read_inv:
  assumes "dev_read l d = (r, d')"
  shows "fd_file d' = fd_file d \<and> fd_blocks d' = fd_blocks d \<and> (wf_dev d' \<longleftrightarrow> wf_dev d)"
proof (cases "l < fd_blocks d")
  case True
  then show ?thesis using assms
    by (auto simp: dev_read_def dev_bounds_def bindE_def dest: read_block_at_inv)
next
  case False
  then show ?thesis using assms by (auto simp: dev_read_def dev_bounds_def bindE_def)
qed

lemma dev_read_ok:
  assumes "dev_read l d = (Inr b, d')"
  shows "b = dev_content d l \<and> l < fd_blocks d"
  using assms
  by (auto simp: dev_read_def dev_bounds_def bindE_def dev_content_def
      dest: read_block_at_ok split: if_splits)

lemma dev_read_healthy:
  assumes "wf_dev d" and "healthy d" and "l < fd_blocks d"
  shows "dev_read l d = (Inr (dev_content d l), d)"
  using assms by (simp add: dev_read_def dev_bounds_def bindE_def dev_content_def wf_dev_def)

lemma dev_read_still: "healthy d \<Longrightarrow> dev_read l d = (r, d') \<Longrightarrow> d' = d"
  by (auto simp: dev_read_def dev_bounds_def read_block_at_def bindE_def split: if_splits)

lemma dev_write_fields:
  assumes "dev_write l b d = (r, d')"
  shows "length (fd_file d') = length (fd_file d) \<and> fd_blocks d' = fd_blocks d
    \<and> (\<forall>k. k \<noteq> l \<longrightarrow> fd_file d' ! k = fd_file d ! k)
    \<and> (wf_dev d \<longrightarrow> length b = BLOCK \<longrightarrow> wf_dev d')"
  using assms
  by (auto simp: dev_write_def dev_bounds_def bindE_def dest: write_block_at_fields split: if_splits)

lemma dev_write_bound: "dev_write l b d = (Inr u, d') \<Longrightarrow> l < fd_blocks d"
  by (auto simp: dev_write_def dev_bounds_def bindE_def split: if_splits)

lemma dev_write_healthy:
  assumes "healthy d" and "l < fd_blocks d"
  shows "dev_write l b d = (Inr (), d\<lparr>fd_file := (fd_file d)[l := b]\<rparr>)"
  using assms by (simp add: dev_write_def dev_bounds_def bindE_def write_block_at_healthy)

lemma dev_flush_inv:
  assumes "dev_flush d = (r, d')"
  shows "fd_file d' = fd_file d \<and> fd_blocks d' = fd_blocks d \<and> (wf_dev d' \<longleftrightarrow> wf_dev d)"
  using assms by (cases "next_fault d") (auto simp: dev_flush_def split: if_splits)

lemma dev_flush_healthy: "healthy d \<Longrightarrow> dev_flush d = (Inr (), d)"
  by (simp add: dev_flush_def)

lemma file_call_fields:
  assumes "file_call d = (r, d')"
  shows "fd_file d' = fd_file d \<and> fd_blocks d' = fd_blocks d"
  using assms by (cases "next_fault d") (auto simp: file_call_def split: if_splits)

lemma file_call_healthy: "healthy d \<Longrightarrow> file_call d = (Inr (), d)"
  by (simp add: file_call_def)

text \<open>A file that is preallocated beyond the claim keeps every block of it and holds whole blocks; one that
  is preallocated with success reaches the new end.\<close>

lemma dev_preallocate_spec:
  assumes run: "dev_preallocate n d = (r, d')" and wf: "wf_dev d" and n: "fd_blocks d < n"
  shows "wf_dev d' \<and> fd_blocks d' = fd_blocks d \<and> (\<forall>l < fd_blocks d. fd_file d' ! l = fd_file d ! l)
    \<and> (\<forall>u. r = Inr u \<longrightarrow> n \<le> length (fd_file d'))"
proof -
  obtain q d1 where q: "file_call d = (q, d1)" by (cases "file_call d")
  note f = file_call_fields [OF q]
  show ?thesis
  proof (cases q)
    case (Inr u)
    then show ?thesis using run q f wf by (auto simp: dev_preallocate_def bindE_def tryE_def modE_def wf_dev_def nth_append)
  next
    case (Inl e)
    obtain q2 d2 where q2: "file_call d1 = (q2, d2)" by (cases "file_call d1")
    note f2 = file_call_fields [OF q2]
    have "\<forall>b \<in> set (take n (fd_file d)). length b = BLOCK" using wf by (auto simp: wf_dev_def dest: in_set_takeD)
    then show ?thesis
      using run q q2 f f2 wf n Inl
      by (cases q2) (auto simp: dev_preallocate_def bindE_def tryE_def modE_def wf_dev_def nth_append)
  qed
qed

lemma dev_grow_spec:
  assumes run: "dev_grow n d = (r, d')" and wf: "wf_dev d" and n: "n < U64"
  shows "wf_dev d' \<and> fd_blocks d \<le> fd_blocks d' \<and> (\<forall>l < fd_blocks d. fd_file d' ! l = fd_file d ! l)
    \<and> (\<forall>u. r = Inr u \<longrightarrow> n \<le> fd_blocks d') \<and> (\<forall>e. r = Inl e \<longrightarrow> fd_blocks d' = fd_blocks d)"
proof (cases "n \<le> fd_blocks d")
  case True
  then show ?thesis using run wf by (auto simp: dev_grow_def)
next
  case False
  then have "bindE (dev_preallocate n) (\<lambda>_. bindE file_call (\<lambda>_. modE (\<lambda>d. d\<lparr>fd_blocks := n\<rparr>))) d = (r, d')"
    using run by (simp add: dev_grow_def)
  then show ?thesis
  proof (cases rule: bindE_cases)
    case (err e)
    then show ?thesis using dev_preallocate_spec [OF err(1) wf] False by simp
  next
    case (ok u d1)
    note pre = dev_preallocate_spec [OF ok(1) wf]
    obtain q d2 where q: "file_call d1 = (q, d2)" by (cases "file_call d1")
    show ?thesis using ok(2) q file_call_fields [OF q] pre False n
      by (cases q) (auto simp: bindE_def modE_def wf_dev_def)
  qed
qed

lemma dev_grow_healthy:
  assumes "healthy d" and "fd_blocks d < n"
  shows "dev_grow n d = (Inr (), d\<lparr>fd_file := fd_file d @ replicate (n - length (fd_file d)) ZERO_BLOCK, fd_blocks := n\<rparr>)"
  using assms by (simp add: dev_grow_def dev_preallocate_def bindE_def tryE_def modE_def file_call_healthy)

interpretation fdev: block_device dev_read dev_write dev_flush fd_blocks dev_content healthy wf_dev
proof unfold_locales
  fix d l b
  assume "wf_dev d" "healthy d" "l < fd_blocks d"
  then show "\<exists>d'. dev_write l b d = (Inr (), d') \<and> healthy d' \<and>
      dev_content d' = (dev_content d)(l := b)"
    by (auto simp: dev_write_healthy dev_content_def wf_dev_def fun_eq_iff)
qed (auto simp: dev_content_def fun_eq_iff dev_read_healthy dev_flush_healthy
      dest: dev_read_inv dev_read_ok dev_write_fields dev_write_bound dev_flush_inv)

subsection \<open>Runs\<close>

lemma dev_bounds_run_eq:
  assumes "wf_dev d"
  shows "dev_bounds_run l n d = (if l < fd_blocks d \<and> l + n \<le> fd_blocks d then (Inr (), d) else (Inl (Bounds l), d))"
proof (cases "l < fd_blocks d")
  case True
  then have "wsub (fd_blocks d) l = fd_blocks d - l" using assms by (simp add: wf_dev_def)
  with True show ?thesis by (simp add: dev_bounds_run_def) linarith
next
  case False
  then show ?thesis by (simp add: dev_bounds_run_def)
qed

lemma dev_bounds_run_ok:
  "wf_dev d \<Longrightarrow> 0 < n \<Longrightarrow> l + n \<le> fd_blocks d \<Longrightarrow> dev_bounds_run l n d = (Inr (), d)"
  by (simp add: dev_bounds_run_eq)

lemma in_enumerate: "(i, b) \<in> set (enumerate l bs) \<Longrightarrow> l \<le> i \<and> i < l + length bs \<and> b \<in> set bs"
  by (auto simp: in_set_enumerate_eq)

lemma write_blocks_inv:
  assumes "forE (enumerate l bs) (\<lambda>(i, b). write_block_at i b) d = (r, d')"
    and "wf_dev d" and "\<forall>b \<in> set bs. length b = BLOCK"
  shows "wf_dev d' \<and> fd_blocks d' = fd_blocks d"
  using assms(1)
  by (rule forE_invariant [where P = "\<lambda>e. wf_dev e \<and> fd_blocks e = fd_blocks d"])
     (use assms in \<open>auto dest!: write_block_at_fields in_enumerate\<close>)

lemma write_blocks_frame:
  assumes "forE (enumerate l bs) (\<lambda>(i, b). write_block_at i b) d = (r, d')"
    and "k < l \<or> l + length bs \<le> k"
  shows "fd_file d' ! k = fd_file d ! k"
  using assms(1)
  by (rule forE_invariant [where P = "\<lambda>e. fd_file e ! k = fd_file d ! k"])
     (use assms in \<open>auto dest!: write_block_at_fields in_enumerate\<close>)

lemma write_blocks_healthy:
  assumes "healthy d" and "l + length bs \<le> length (fd_file d)"
  shows "forE (enumerate l bs) (\<lambda>(i, b). write_block_at i b) d
    = (Inr (), d\<lparr>fd_file := overwrite (fd_file d) l bs\<rparr>)"
  using assms
proof (induction bs arbitrary: l d)
  case Nil
  then show ?case by (simp add: run_simps overwrite_def)
next
  case (Cons b bs)
  let ?d = "d\<lparr>fd_file := (fd_file d)[l := b]\<rparr>"
  have "forE (enumerate (Suc l) bs) (\<lambda>(i, b). write_block_at i b) ?d = (Inr (), ?d\<lparr>fd_file :=
      overwrite (fd_file ?d) (Suc l) bs\<rparr>)"
    using Cons.prems by (intro Cons.IH) auto
  then show ?case using Cons.prems
    by (simp add: bindE_ok [OF write_block_at_healthy] overwrite_def take_Suc_conv_app_nth)
qed

lemma dev_write_run_frame:
  assumes "dev_write_run l bs d = (r, d')" and "k < l \<or> l + length bs \<le> k"
  shows "dev_content d' k = dev_content d k"
proof (cases "bs = []")
  case True
  then show ?thesis using assms by (auto simp: dev_write_run_def run_simps)
next
  case False
  then show ?thesis using assms
    by (auto simp: dev_write_run_def dev_bounds_run_def bindE_def dev_content_def
        dest: write_blocks_frame split: if_splits)
qed

lemma dev_write_run_inv:
  assumes "dev_write_run l bs d = (r, d')" and "wf_dev d" and "\<forall>b \<in> set bs. length b = BLOCK"
  shows "wf_dev d' \<and> fd_blocks d' = fd_blocks d"
proof (cases "bs = []")
  case True
  then show ?thesis using assms by (auto simp: dev_write_run_def run_simps)
next
  case False
  then show ?thesis using assms
    by (auto simp: dev_write_run_def dev_bounds_run_eq bindE_def
        dest: write_blocks_inv split: if_splits)
qed

lemma dev_write_run_healthy:
  assumes "wf_dev d" and "healthy d" and "l + length bs \<le> fd_blocks d"
  shows "dev_write_run l bs d
    = (Inr (), d\<lparr>fd_file := overwrite (fd_file d) l bs\<rparr>)"
proof (cases "bs = []")
  case True
  then show ?thesis using assms by (simp add: dev_write_run_def run_simps overwrite_def)
next
  case False
  moreover have "l + length bs \<le> length (fd_file d)" using assms by (simp add: wf_dev_def)
  ultimately show ?thesis using assms
    by (simp add: dev_write_run_def bindE_ok [OF dev_bounds_run_ok] write_blocks_healthy)
qed

lemma read_blocks_inv:
  assumes "mapE read_block_at ls d = (r, d')"
  shows "fd_file d' = fd_file d \<and> fd_blocks d' = fd_blocks d \<and> (wf_dev d' \<longleftrightarrow> wf_dev d)"
  using assms
  by (rule mapE_invariant
      [where P = "\<lambda>e. fd_file e = fd_file d \<and> fd_blocks e = fd_blocks d \<and> (wf_dev e \<longleftrightarrow> wf_dev d)"])
     (auto dest: read_block_at_inv)

lemma read_blocks_ok:
  assumes "mapE read_block_at ls d = (Inr bs, d')"
  shows "bs = map (dev_content d) ls"
  using assms
  by (rule mapE_ok [where P = "\<lambda>e. fd_file e = fd_file d"])
     (auto simp: dev_content_def dest: read_block_at_inv read_block_at_ok)

lemma dev_read_run_inv:
  assumes "dev_read_run l n d = (r, d')"
  shows "fd_file d' = fd_file d \<and> fd_blocks d' = fd_blocks d \<and> (wf_dev d' \<longleftrightarrow> wf_dev d)"
proof (cases "n = 0")
  case True
  then show ?thesis using assms by (auto simp: dev_read_run_def run_simps)
next
  case False
  then show ?thesis using assms
    by (auto simp: dev_read_run_def dev_bounds_run_def bindE_def dest: read_blocks_inv split: if_splits)
qed

lemma dev_read_run_ok:
  assumes "dev_read_run l n d = (Inr bs, d')"
  shows "bs = map (dev_content d) [l ..< l + n]"
proof (cases "n = 0")
  case True
  then show ?thesis using assms by (auto simp: dev_read_run_def run_simps)
next
  case False
  then show ?thesis using assms
    by (auto simp: dev_read_run_def dev_bounds_run_def bindE_def dest: read_blocks_ok split: if_splits)
qed

lemma dev_read_run_healthy:
  assumes "wf_dev d" and "healthy d" and "l + n \<le> fd_blocks d"
  shows "dev_read_run l n d = (Inr (map (dev_content d) [l ..< l + n]), d)"
proof -
  have "mapE read_block_at [l ..< l + n] d = (Inr (map (dev_content d) [l ..< l + n]), d)"
    using assms by (intro mapE_pure) (auto simp: dev_content_def wf_dev_def)
  then show ?thesis using assms
    by (simp add: dev_read_run_def run_simps bindE_ok [OF dev_bounds_run_ok])
qed

interpretation fdev_runs: block_device_runs dev_read dev_write dev_flush fd_blocks dev_content
    healthy wf_dev dev_write_run dev_read_run
proof unfold_locales
  fix d :: filedev and l :: nat and bs :: "block list"
  assume a: "wf_dev d" "healthy d" "l + length bs \<le> fd_blocks d"
  then have "l + length bs \<le> length (fd_file d)" by (simp add: wf_dev_def)
  with a show "\<exists>d'. dev_write_run l bs d = (Inr (), d') \<and> healthy d' \<and> dev_content d' =
      (\<lambda>k. if l \<le> k \<and> k < l + length bs then bs ! (k - l) else dev_content d k)"
    by (simp add: dev_write_run_healthy dev_content_def fun_eq_iff nth_overwrite)
next
  fix d :: filedev and rl d' l n
  assume "dev_read_run l n d = (rl, d')" "wf_dev d"
  then show "wf_dev d' \<and> fd_blocks d' = fd_blocks d \<and> dev_content d' = dev_content d"
    by (auto simp: dev_content_def fun_eq_iff dest: dev_read_run_inv)
qed (auto simp: dev_read_run_healthy
      dest: dev_write_run_inv dev_read_run_ok dev_write_run_frame)

end
