(* ===== verification/Sealed_Block.thy ===== *)
theory Sealed_Block
  imports Block_Dev
begin

text \<open>
  Sealed blocks: the one document format of the engine. A block is the magic, an \<open>hp\<close> value, a
  \<open>'>'\<close>, a schema name and named fields, zero padding; the \<open>hp\<close> is the BLAKE3 hash of everything
  after the \<open>'>'\<close>. Modelled from the codec helpers of \<open>src/hamt.rs\<close> (\<open>begin_block\<close>,
  \<open>put_field\<close>, \<open>seal_block\<close>, which \<open>SpineEntry::encode\<close> and \<open>RootEntry::encode\<close> of
  \<open>src/ring.rs\<close> inline), the field loop every decoder shares, \<open>sealed_hp\<close> of \<open>src/tract.rs\<close> and
  \<open>block_is_sealed\<close> of \<open>src/ring.rs\<close>.

  The value encoding (crate \<open>vsf\<close>) and the hash (crate \<open>blake3\<close>) are not part of the repository:
  they are the fields of the parameter \<open>vsf_env\<close>, and \<open>vsf_ok\<close> names what the engine relies on:
  a flattened value parses back where it was put, an auto-sized integer as some sized one, with
  the encoding's documented size bounds.
\<close>

section \<open>The value encoding and the hash, as parameters\<close>

datatype VsfType =
    V_d string
  | V_hp "u8 list"
  | V_u nat bool
  | V_u0 bool
  | V_u3 nat
  | V_u4 nat
  | V_u5 nat
  | V_u6 nat
  | V_u7 nat
  | V_v u8 "u8 list"
  | V_e6 int
  | V_other

record vsf_env =
  vsf_flatten :: "VsfType \<Rightarrow> u8 list"
  vsf_parse :: "u8 list \<Rightarrow> nat \<Rightarrow> (VsfType \<times> nat) option"
  blake3 :: "u8 list \<Rightarrow> u8 list"

text \<open>The integer classes as one \<open>u64\<close>; only the 128-bit class can exceed it.\<close>

definition as_u64 :: "VsfType \<Rightarrow> nat option" where
  "as_u64 v = (case v of
     V_u x _ \<Rightarrow> Some (x mod U64)
   | V_u0 b \<Rightarrow> Some (if b then 1 else 0)
   | V_u3 x \<Rightarrow> Some (x mod U64)
   | V_u4 x \<Rightarrow> Some (x mod U64)
   | V_u5 x \<Rightarrow> Some (x mod U64)
   | V_u6 x \<Rightarrow> Some (x mod U64)
   | V_u7 x \<Rightarrow> (if x < U64 then Some x else None)
   | _ \<Rightarrow> None)"

lemma as_u64_less: "as_u64 v = Some n \<Longrightarrow> n < U64"
  by (cases v) (auto simp: as_u64_def split: if_splits)

text \<open>The values the engine writes.\<close>

definition vsf_wf :: "VsfType \<Rightarrow> bool" where
  "vsf_wf v = (case v of
     V_d s \<Rightarrow> length s \<le> 32
   | V_hp h \<Rightarrow> length h = 32
   | V_u n f \<Rightarrow> n < U64 \<and> \<not> f
   | V_v _ bs \<Rightarrow> length bs \<le> BLOCK
   | V_e6 t \<Rightarrow> - (2 ^ 63) \<le> t \<and> t < 2 ^ 63
   | _ \<Rightarrow> False)"

text \<open>What \<open>parse\<close> gives back for a written value: itself, or the sized form of an integer.\<close>

definition vsf_same :: "VsfType \<Rightarrow> VsfType \<Rightarrow> bool" where
  "vsf_same v w = (case v of V_u n _ \<Rightarrow> as_u64 w = Some n | _ \<Rightarrow> w = v)"

definition vsf_width :: "VsfType \<Rightarrow> nat" where
  "vsf_width v = (case v of
     V_d s \<Rightarrow> length s + 4
   | V_hp _ \<Rightarrow> 40
   | V_u _ _ \<Rightarrow> 10
   | V_v _ bs \<Rightarrow> length bs + 8
   | _ \<Rightarrow> 12)"

lemma vsf_width_simps:
  "vsf_width (V_d s) = length s + 4" "vsf_width (V_hp h) = 40" "vsf_width (V_u n f) = 10"
  "vsf_width (V_v t bs) = length bs + 8" "vsf_width (V_e6 i) = 12"
  by (simp_all add: vsf_width_def)

definition vsf_ok :: "vsf_env \<Rightarrow> bool" where
  "vsf_ok E \<longleftrightarrow>
     (\<forall>v xs ys. vsf_wf v \<longrightarrow> (\<exists>w. vsf_same v w \<and>
        vsf_parse E (xs @ vsf_flatten E v @ ys) (length xs) = Some (w, length xs + length (vsf_flatten E v))))
   \<and> (\<forall>b p v q. vsf_parse E b p = Some (v, q) \<longrightarrow> p < q \<and> q \<le> length b)
   \<and> (\<forall>s. length s \<le> 32 \<longrightarrow> (\<exists>bs. vsf_flatten E (V_d s) = 0x64 # bs))
   \<and> (\<forall>v. vsf_wf v \<longrightarrow> length (vsf_flatten E v) \<le> vsf_width v)
   \<and> (\<forall>h k. length h = 32 \<longrightarrow> length k = 32 \<longrightarrow> length (vsf_flatten E (V_hp h)) = length (vsf_flatten E (V_hp k)))
   \<and> (\<forall>bs. length (blake3 E bs) = 32)"

lemma vsf_okD:
  assumes "vsf_ok E"
  shows "vsf_wf v \<Longrightarrow> \<exists>w. vsf_same v w \<and>
      vsf_parse E (xs @ vsf_flatten E v @ ys) (length xs) = Some (w, length xs + length (vsf_flatten E v))"
    and "vsf_parse E b p = Some (v, q) \<Longrightarrow> p < q \<and> q \<le> length b"
    and "length s \<le> 32 \<Longrightarrow> \<exists>bs. vsf_flatten E (V_d s) = 0x64 # bs"
    and "vsf_wf v \<Longrightarrow> length (vsf_flatten E v) \<le> vsf_width v"
    and "length h = 32 \<Longrightarrow> length k = 32 \<Longrightarrow> length (vsf_flatten E (V_hp h)) = length (vsf_flatten E (V_hp k))"
    and "length (blake3 E bs) = 32"
  using assms unfolding vsf_ok_def by blast+

lemma vsf_same_as_u64: "vsf_same v w \<Longrightarrow> vsf_wf v \<Longrightarrow> as_u64 w = as_u64 v"
  by (cases v) (auto simp: vsf_same_def vsf_wf_def as_u64_def)

section \<open>Building a sealed block\<close>

definition MAGIC :: "u8 list" where
  "MAGIC = [0x52, 0xC3, 0x85, 0x3C]"

text \<open>\<open>buf[cursor..cursor + n].copy_from_slice(bytes)\<close>: a slice past the block panics.\<close>

definition put_bytes :: "u8 list \<Rightarrow> block \<times> nat \<Rightarrow> (block \<times> nat) result" where
  "put_bytes bytes = (\<lambda>(buf, cursor).
     if cursor + length bytes \<le> length buf then Inr (overwrite buf cursor bytes, cursor + length bytes)
     else Inl (Panic ''slice index out of range''))"

definition put_field :: "vsf_env \<Rightarrow> string \<Rightarrow> VsfType \<Rightarrow> block \<times> nat \<Rightarrow> (block \<times> nat) result" where
  "put_field E name value s =
     bindR (put_bytes (vsf_flatten E (V_d name)) s) (put_bytes (vsf_flatten E value))"

primrec put_fields :: "vsf_env \<Rightarrow> (string \<times> VsfType) list \<Rightarrow> block \<times> nat \<Rightarrow> (block \<times> nat) result" where
  "put_fields E [] s = Inr s"
| "put_fields E (f # fs) s = bindR (put_field E (fst f) (snd f) s) (put_fields E fs)"

definition body_start :: "vsf_env \<Rightarrow> nat" where
  "body_start E = 4 + length (vsf_flatten E (V_hp (replicate 32 0))) + 1"

definition begin_block :: "vsf_env \<Rightarrow> string \<Rightarrow> (block \<times> nat) result" where
  "begin_block E schema =
     bindR (put_bytes MAGIC (ZERO_BLOCK, 0)) (\<lambda>s.
     bindR (put_bytes (vsf_flatten E (V_hp (replicate 32 0))) s) (\<lambda>s.
     bindR (put_bytes [0x3E] s) (\<lambda>(buf, _).
     put_bytes (vsf_flatten E (V_d schema)) (buf, body_start E))))"

definition seal_block :: "vsf_env \<Rightarrow> block \<Rightarrow> nat \<Rightarrow> block result" where
  "seal_block E buf body =
     (let hp = vsf_flatten E (V_hp (blake3 E (drop body buf))) in
      bindR (put_bytes hp (buf, 4)) (\<lambda>(buf, _). Inr buf))"

text \<open>The steps every encoder takes: begin, the fields in order, seal.\<close>

definition sealed_block :: "vsf_env \<Rightarrow> string \<Rightarrow> (string \<times> VsfType) list \<Rightarrow> block result" where
  "sealed_block E schema fs =
     bindR (begin_block E schema) (\<lambda>s.
     bindR (put_fields E fs s) (\<lambda>(buf, _).
     seal_block E buf (body_start E)))"

section \<open>Reading a sealed block\<close>

text \<open>\<open>block.get(ptr) == Some(&c)\<close>.\<close>

definition byte_at :: "block \<Rightarrow> nat \<Rightarrow> u8 \<Rightarrow> bool" where
  "byte_at block ptr c \<longleftrightarrow> ptr < length block \<and> block ! ptr = c"

definition sealed_hp :: "vsf_env \<Rightarrow> block \<Rightarrow> (u8 list) option" where
  "sealed_hp E block =
     (if take 4 block \<noteq> MAGIC then None
      else case vsf_parse E block 4 of
        Some (V_hp stored, ptr) \<Rightarrow>
          (if \<not> byte_at block ptr 0x3E then None
           else if blake3 E (drop (ptr + 1) block) \<noteq> stored then None
           else if length stored = 32 then Some stored else None)
      | _ \<Rightarrow> None)"

definition block_is_sealed :: "vsf_env \<Rightarrow> block \<Rightarrow> bool" where
  "block_is_sealed E block =
     (if take 4 block \<noteq> MAGIC then False
      else case vsf_parse E block 4 of
        Some (V_hp stored, ptr) \<Rightarrow>
          (if \<not> byte_at block ptr 0x3E then False
           else blake3 E (drop (ptr + 1) block) = stored)
      | _ \<Rightarrow> False)"

text \<open>
  The decoders' loop over named pairs, until the padding. \<open>step\<close> is the decoder's match on
  \<open>(name, value)\<close>. Every turn moves \<open>ptr\<close> forward, so one turn per byte of the block is enough
  fuel (\<open>field_loop_fuel\<close>); the out-of-fuel value is never reached.
\<close>

primrec field_loop ::
  "vsf_env \<Rightarrow> (string \<Rightarrow> VsfType \<Rightarrow> 'a \<Rightarrow> 'a result) \<Rightarrow> nat \<Rightarrow> block \<Rightarrow> nat \<Rightarrow> 'a \<Rightarrow> 'a result" where
  "field_loop E step 0 block ptr acc = Inl (Panic ''out of fuel'')"
| "field_loop E step (Suc n) block ptr acc =
     (if \<not> byte_at block ptr 0x64 then Inr acc
      else case vsf_parse E block ptr of
        None \<Rightarrow> Inl (Corrupt ''vsf parse'')
      | Some (V_d name, ptr1) \<Rightarrow>
          (case vsf_parse E block ptr1 of
             None \<Rightarrow> Inl (Corrupt ''vsf parse'')
           | Some (value, ptr2) \<Rightarrow> bindR (step name value acc) (field_loop E step n block ptr2))
      | Some _ \<Rightarrow> Inl (Corrupt ''expected field name''))"

definition decode_fields ::
  "vsf_env \<Rightarrow> (string \<Rightarrow> VsfType \<Rightarrow> 'a \<Rightarrow> 'a result) \<Rightarrow> block \<Rightarrow> nat \<Rightarrow> 'a \<Rightarrow> 'a result" where
  "decode_fields E step block ptr acc = field_loop E step (length block + 1) block ptr acc"

definition to32 :: "u8 list \<Rightarrow> (u8 list) result" where
  "to32 h = (if length h = 32 then Inr h else Inl (Corrupt ''hash length''))"

section \<open>What a sealed block looks like\<close>

definition fields_bytes :: "vsf_env \<Rightarrow> (string \<times> VsfType) list \<Rightarrow> u8 list" where
  "fields_bytes E fs = concat (map (\<lambda>(n, v). vsf_flatten E (V_d n) @ vsf_flatten E v) fs)"

definition pad_body :: "vsf_env \<Rightarrow> u8 list \<Rightarrow> u8 list" where
  "pad_body E bs = bs @ replicate (BLOCK - body_start E - length bs) 0"

definition doc_body :: "vsf_env \<Rightarrow> string \<Rightarrow> (string \<times> VsfType) list \<Rightarrow> u8 list" where
  "doc_body E schema fs = pad_body E (vsf_flatten E (V_d schema) @ fields_bytes E fs)"

definition doc_block :: "vsf_env \<Rightarrow> string \<Rightarrow> (string \<times> VsfType) list \<Rightarrow> block" where
  "doc_block E schema fs =
     MAGIC @ vsf_flatten E (V_hp (blake3 E (doc_body E schema fs))) @ [0x3E] @ doc_body E schema fs"

definition doc_fits :: "vsf_env \<Rightarrow> string \<Rightarrow> (string \<times> VsfType) list \<Rightarrow> bool" where
  "doc_fits E schema fs \<longleftrightarrow>
     body_start E + length (vsf_flatten E (V_d schema)) + length (fields_bytes E fs) \<le> BLOCK"

definition doc_wf :: "string \<Rightarrow> (string \<times> VsfType) list \<Rightarrow> bool" where
  "doc_wf schema fs \<longleftrightarrow> length schema \<le> 32 \<and> (\<forall>(n, v) \<in> set fs. length n \<le> 32 \<and> vsf_wf v)"

text \<open>A buffer partly filled: what is written, zeros after it.\<close>

definition partial :: "u8 list \<Rightarrow> block \<times> nat" where
  "partial bs = (bs @ replicate (BLOCK - length bs) 0, length bs)"

lemma put_bytes_partial:
  assumes "length bs + length new \<le> BLOCK"
  shows "put_bytes new (partial bs) = Inr (partial (bs @ new))"
proof -
  have "length bs + length new \<le> length (fst (partial bs))" using assms by (simp add: partial_def)
  moreover have "BLOCK - (length bs + length new) = BLOCK - length bs - length new" by simp
  ultimately show ?thesis by (simp add: put_bytes_def partial_def overwrite_def)
qed

lemma fields_bytes_simps [simp]:
  "fields_bytes E [] = []"
  "fields_bytes E (f # fs) = vsf_flatten E (V_d (fst f)) @ vsf_flatten E (snd f) @ fields_bytes E fs"
  by (simp_all add: fields_bytes_def case_prod_beta)

lemma put_fields_partial:
  "length bs + length (fields_bytes E fs) \<le> BLOCK \<Longrightarrow>
   put_fields E fs (partial bs) = Inr (partial (bs @ fields_bytes E fs))"
proof (induction fs arbitrary: bs)
  case Nil
  then show ?case by simp
next
  case (Cons f fs)
  let ?n = "vsf_flatten E (V_d (fst f))" and ?v = "vsf_flatten E (snd f)"
  have "put_field E (fst f) (snd f) (partial bs) = Inr (partial (bs @ ?n @ ?v))"
    using Cons.prems by (simp add: put_field_def put_bytes_partial)
  then show ?case using Cons.IH [of "bs @ ?n @ ?v"] Cons.prems by simp
qed

lemma begin_block_partial:
  assumes "body_start E + length (vsf_flatten E (V_d schema)) \<le> BLOCK"
  shows "begin_block E schema
    = Inr (partial (MAGIC @ vsf_flatten E (V_hp (replicate 32 0)) @ [0x3E] @ vsf_flatten E (V_d schema)))"
proof -
  let ?hp = "vsf_flatten E (V_hp (replicate 32 0))"
  have len: "length (MAGIC @ ?hp @ [0x3E]) = body_start E" by (simp add: MAGIC_def body_start_def)
  have 0: "(ZERO_BLOCK, 0) = partial []" by (simp add: partial_def ZERO_BLOCK_def)
  have 1: "put_bytes MAGIC (partial []) = Inr (partial MAGIC)"
    using put_bytes_partial [of "[]" MAGIC] assms by (simp add: MAGIC_def body_start_def)
  have 2: "put_bytes ?hp (partial MAGIC) = Inr (partial (MAGIC @ ?hp))"
    using assms by (intro put_bytes_partial) (simp add: MAGIC_def body_start_def)
  have 3: "put_bytes [0x3E] (partial (MAGIC @ ?hp)) = Inr (partial (MAGIC @ ?hp @ [0x3E]))"
    using put_bytes_partial [of "MAGIC @ ?hp" "[0x3E]"] assms by (simp add: MAGIC_def body_start_def)
  have p: "partial (MAGIC @ ?hp @ [0x3E]) = (fst (partial (MAGIC @ ?hp @ [0x3E])), body_start E)"
    using len by (simp add: partial_def)
  have 4: "put_bytes (vsf_flatten E (V_d schema)) (fst (partial (MAGIC @ ?hp @ [0x3E])), body_start E)
      = Inr (partial (MAGIC @ ?hp @ [0x3E] @ vsf_flatten E (V_d schema)))"
    using put_bytes_partial [of "MAGIC @ ?hp @ [0x3E]" "vsf_flatten E (V_d schema)"] assms len
    unfolding p [symmetric] by simp
  show ?thesis unfolding begin_block_def 0 1 bindR_Inr 2 3 case_prod_beta by (rule 4)
qed

text \<open>Every encoder's result, in one equation.\<close>

lemma sealed_block_eq:
  assumes ok: "vsf_ok E" and fits: "doc_fits E schema fs"
  shows "sealed_block E schema fs = Inr (doc_block E schema fs)"
proof -
  let ?zs = "vsf_flatten E (V_hp (replicate 32 0))" and ?s = "vsf_flatten E (V_d schema)"
  let ?pre = "MAGIC @ ?zs @ [0x3E]" and ?f = "fields_bytes E fs"
  have len: "length ?pre = body_start E" by (simp add: MAGIC_def body_start_def)
  have fit: "length ?pre + length ?s + length ?f \<le> BLOCK" using fits len by (simp add: doc_fits_def)
  define buf where "buf = fst (partial (?pre @ ?s @ ?f))"
  have buf: "buf = ?pre @ doc_body E schema fs"
    using fit len by (simp add: buf_def partial_def doc_body_def pad_body_def)
  have b: "begin_block E schema = Inr (partial (?pre @ ?s))"
    using begin_block_partial [of E schema] fit len by simp
  have p: "put_fields E fs (partial (?pre @ ?s)) = Inr (partial (?pre @ ?s @ ?f))"
    using put_fields_partial [of "?pre @ ?s" E fs] fit by (simp add: add.assoc)
  have drop: "drop (body_start E) buf = doc_body E schema fs" unfolding buf len [symmetric] by simp
  let ?hp = "vsf_flatten E (V_hp (blake3 E (doc_body E schema fs)))"
  have hl: "length ?hp = length ?zs" using vsf_okD(5,6) [OF ok] by simp
  have "4 + length ?hp \<le> length buf" unfolding buf hl by (simp add: MAGIC_def)
  moreover have "overwrite buf 4 ?hp = doc_block E schema fs"
    unfolding buf overwrite_def hl by (simp add: doc_block_def MAGIC_def drop_Cons')
  ultimately have "seal_block E buf (body_start E) = Inr (doc_block E schema fs)"
    by (simp add: seal_block_def drop put_bytes_def)
  then show ?thesis using b p
    by (simp add: sealed_block_def buf_def) (simp add: partial_def case_prod_beta)
qed

lemma length_doc_block:
  assumes ok: "vsf_ok E" and fits: "doc_fits E schema fs"
  shows "length (doc_block E schema fs) = BLOCK"
proof -
  have "length (vsf_flatten E (V_hp (blake3 E (doc_body E schema fs)))) = length (vsf_flatten E (V_hp (replicate 32 0)))"
    using vsf_okD(5,6) [OF ok] by simp
  then show ?thesis using fits
    by (simp add: doc_block_def doc_body_def pad_body_def doc_fits_def MAGIC_def body_start_def)
qed

lemma doc_hp_len:
  "vsf_ok E \<Longrightarrow> length (vsf_flatten E (V_hp (blake3 E bs))) = body_start E - 5"
  using vsf_okD(5) [of E "blake3 E bs" "replicate 32 0"] vsf_okD(6) [of E bs] by (simp add: body_start_def)

lemma body_start_ge: "5 \<le> body_start E"
  by (simp add: body_start_def)

text \<open>The header of a document: its magic, its hash, where its body starts.\<close>

lemma doc_block_header:
  assumes ok: "vsf_ok E"
  shows "take 4 (doc_block E schema fs) = MAGIC"
    and "vsf_parse E (doc_block E schema fs) 4 = Some (V_hp (blake3 E (doc_body E schema fs)), body_start E - 1)"
    and "byte_at (doc_block E schema fs) (body_start E - 1) 0x3E"
    and "drop (body_start E) (doc_block E schema fs) = doc_body E schema fs"
    and "drop (body_start E - 1 + 1) (doc_block E schema fs) = doc_body E schema fs"
proof -
  let ?b = "doc_body E schema fs" and ?d = "doc_block E schema fs"
  let ?hp = "vsf_flatten E (V_hp (blake3 E ?b))"
  have l4: "length MAGIC = 4" by (simp add: MAGIC_def)
  have hl: "length ?hp = body_start E - 5" by (rule doc_hp_len [OF ok])
  have d: "?d = MAGIC @ ?hp @ [0x3E] @ ?b" by (simp add: doc_block_def)
  have pre: "?d = (MAGIC @ ?hp @ [0x3E]) @ ?b" "length (MAGIC @ ?hp @ [0x3E]) = body_start E"
    using l4 hl body_start_ge [of E] by (simp_all add: doc_block_def)
  show "take 4 ?d = MAGIC" unfolding d using l4 by simp
  have "vsf_wf (V_hp (blake3 E ?b))" using vsf_okD(6) [OF ok] by (simp add: vsf_wf_def)
  from vsf_okD(1) [OF ok this, of MAGIC "[0x3E] @ ?b"]
  show "vsf_parse E ?d 4 = Some (V_hp (blake3 E ?b), body_start E - 1)"
    using l4 hl body_start_ge [of E] unfolding d by (auto simp: vsf_same_def)
  show "byte_at ?d (body_start E - 1) 0x3E"
    using l4 hl body_start_ge [of E] unfolding d by (auto simp: byte_at_def nth_append)
  show *: "drop (body_start E) ?d = ?b"
    unfolding pre(1) pre(2) [symmetric] by simp
  show "drop (body_start E - 1 + 1) ?d = ?b" using * body_start_ge [of E] by simp
qed

lemma sealed_hp_doc_block:
  assumes "vsf_ok E"
  shows "sealed_hp E (doc_block E schema fs) = Some (blake3 E (doc_body E schema fs))"
  using doc_block_header [OF assms, of schema fs] vsf_okD(6) [OF assms]
  by (simp add: sealed_hp_def)

lemma doc_block_not_zero:
  assumes "vsf_ok E"
  shows "doc_block E schema fs \<noteq> ZERO_BLOCK"
proof
  assume "doc_block E schema fs = ZERO_BLOCK"
  then have "doc_block E schema fs ! 0 = ZERO_BLOCK ! 0" by simp
  then show False by (simp add: doc_block_def MAGIC_def ZERO_BLOCK_def)
qed

section \<open>The field loop reads back what was put\<close>

primrec fold_fields :: "(string \<Rightarrow> VsfType \<Rightarrow> 'a \<Rightarrow> 'a result) \<Rightarrow> (string \<times> VsfType) list \<Rightarrow> 'a \<Rightarrow> 'a result" where
  "fold_fields step [] acc = Inr acc"
| "fold_fields step (f # fs) acc = bindR (step (fst f) (snd f) acc) (fold_fields step fs)"

text \<open>A decoder's match looks at an integer through \<open>as_u64\<close> only.\<close>

definition step_ok :: "(string \<Rightarrow> VsfType \<Rightarrow> 'a \<Rightarrow> 'a result) \<Rightarrow> bool" where
  "step_ok step \<longleftrightarrow> (\<forall>n v w acc. vsf_wf v \<longrightarrow> vsf_same v w \<longrightarrow> step n w acc = step n v acc)"

lemma field_loop_reads:
  assumes ok: "vsf_ok E" and step: "step_ok step"
    and "\<forall>(n, v) \<in> set fs. length n \<le> 32 \<and> vsf_wf v"
    and "\<not> byte_at (pre @ fields_bytes E fs @ post) (length (pre @ fields_bytes E fs)) 0x64"
    and "length fs < fuel"
  shows "field_loop E step fuel (pre @ fields_bytes E fs @ post) (length pre) acc = fold_fields step fs acc"
  using assms(3-)
proof (induction fs arbitrary: pre acc fuel)
  case Nil
  then show ?case by (cases fuel) auto
next
  case (Cons f fs)
  obtain n v where f: "f = (n, v)" by (cases f)
  obtain k where fuel: "fuel = Suc k" using Cons.prems(3) by (cases fuel) auto
  let ?n = "vsf_flatten E (V_d n)" and ?v = "vsf_flatten E v" and ?r = "fields_bytes E fs"
  let ?b = "pre @ ?n @ ?v @ ?r @ post"
  have wf: "length n \<le> 32" "vsf_wf v" and wn: "vsf_wf (V_d n)" using Cons.prems(1) f by (auto simp: vsf_wf_def)
  obtain bs where bs: "?n = 0x64 # bs" using vsf_okD(3) [OF ok wf(1)] by blast
  then have at: "byte_at ?b (length pre) 0x64" by (simp add: byte_at_def nth_append)
  have pn: "vsf_parse E ?b (length pre) = Some (V_d n, length (pre @ ?n))"
    using vsf_okD(1) [OF ok wn, of pre "?v @ ?r @ post"] by (auto simp: vsf_same_def)
  obtain w where w: "vsf_same v w" and pv: "vsf_parse E ?b (length (pre @ ?n)) = Some (w, length (pre @ ?n @ ?v))"
    using vsf_okD(1) [OF ok wf(2), of "pre @ ?n" "?r @ post"] by auto
  have sw: "step n w acc = step n v acc" using step wf(2) w by (simp add: step_ok_def)
  have IH: "field_loop E step k ?b (length (pre @ ?n @ ?v)) a = fold_fields step fs a" for a
    using Cons.IH [of "pre @ ?n @ ?v" k a] Cons.prems f fuel by simp
  have b: "pre @ fields_bytes E (f # fs) @ post = ?b" using f by simp
  have "field_loop E step fuel ?b (length pre) acc
      = bindR (step n w acc) (field_loop E step k ?b (length (pre @ ?n @ ?v)))"
    unfolding fuel by (simp only: field_loop.simps at pn pv option.case prod.case VsfType.case not_True_eq_False if_False)
  also have "\<dots> = fold_fields step (f # fs) acc" using sw IH f by (cases "step n v acc") simp_all
  finally show ?case unfolding b .
qed

text \<open>What a decoder does after the header: the schema, then the fields.\<close>

lemma doc_block_schema:
  assumes ok: "vsf_ok E" and wf: "doc_wf schema fs"
  shows "vsf_parse E (doc_block E schema fs) (body_start E)
    = Some (V_d schema, body_start E + length (vsf_flatten E (V_d schema)))"
proof -
  let ?d = "doc_block E schema fs" and ?s = "vsf_flatten E (V_d schema)"
  define pre where "pre = take (body_start E) ?d"
  have d: "?d = pre @ doc_body E schema fs"
    using doc_block_header(4) [OF ok, of schema fs] unfolding pre_def by (metis append_take_drop_id)
  have "length ?d = body_start E + length (doc_body E schema fs)"
    using doc_hp_len [OF ok] body_start_ge [of E] by (simp add: doc_block_def MAGIC_def)
  then have len: "length pre = body_start E" by (simp add: pre_def)
  have "vsf_wf (V_d schema)" using wf by (simp add: vsf_wf_def doc_wf_def)
  from vsf_okD(1) [OF ok this, of pre "fields_bytes E fs @ replicate (BLOCK - body_start E - length (?s @ fields_bytes E fs)) 0"]
  show ?thesis unfolding d by (auto simp: vsf_same_def doc_body_def pad_body_def len)
qed

lemma fields_bytes_length:
  assumes ok: "vsf_ok E" and "\<forall>(n, v) \<in> set fs. length n \<le> 32 \<and> vsf_wf v"
  shows "length fs \<le> length (fields_bytes E fs)"
  using assms(2)
proof (induction fs)
  case Nil
  then show ?case by simp
next
  case (Cons f fs)
  then have "length (fst f) \<le> 32" by (auto simp: case_prod_beta)
  then obtain bs where "vsf_flatten E (V_d (fst f)) = 0x64 # bs" using vsf_okD(3) [OF ok] by blast
  then show ?case using Cons by simp
qed

lemma decode_fields_doc_block:
  assumes ok: "vsf_ok E" and wf: "doc_wf schema fs" and fits: "doc_fits E schema fs" and step: "step_ok step"
  shows "decode_fields E step (doc_block E schema fs) (body_start E + length (vsf_flatten E (V_d schema))) acc
    = fold_fields step fs acc"
proof -
  let ?d = "doc_block E schema fs" and ?s = "vsf_flatten E (V_d schema)" and ?f = "fields_bytes E fs"
  define z where "z = replicate (BLOCK - body_start E - length (?s @ ?f)) (0 :: u8)"
  define pre where "pre = take (body_start E) ?d @ ?s"
  have "take (body_start E) ?d @ doc_body E schema fs = ?d"
    using doc_block_header(4) [OF ok, of schema fs] by (metis append_take_drop_id)
  then have d: "?d = pre @ ?f @ z" by (simp add: pre_def z_def doc_body_def pad_body_def)
  have dl: "length ?d = BLOCK" by (rule length_doc_block [OF ok fits])
  then have len: "length pre = body_start E + length ?s"
    using fits by (simp add: pre_def doc_fits_def)
  have wfs: "\<forall>(n, v) \<in> set fs. length n \<le> 32 \<and> vsf_wf v" using wf by (simp add: doc_wf_def)
  have "\<not> byte_at (pre @ ?f @ z) (length (pre @ ?f)) 0x64"
    by (auto simp: byte_at_def z_def nth_append)
  moreover have "length fs < length ?d + 1"
    using fields_bytes_length [OF ok wfs] by (simp add: d)
  ultimately show ?thesis
    using field_loop_reads [OF ok step wfs, of pre z "length ?d + 1" acc]
    by (simp add: decode_fields_def len d [symmetric])
qed

text \<open>Any block: the loop ends before its fuel does.\<close>

lemma field_loop_fuel:
  assumes ok: "vsf_ok E" and step: "\<And>n v a e. step n v a = Inl e \<Longrightarrow> e \<noteq> Panic ''out of fuel''"
    and "length block < ptr + fuel" and "0 < fuel"
  shows "field_loop E step fuel block ptr acc \<noteq> Inl (Panic ''out of fuel'')"
  using assms(3,4)
proof (induction fuel arbitrary: ptr acc)
  case 0
  then show ?case by simp
next
  case (Suc n)
  have "field_loop E step n block p2 a \<noteq> Inl (Panic ''out of fuel'')"
    if "vsf_parse E block ptr = Some (v, p1)" "vsf_parse E block p1 = Some (w, p2)" for v w p1 p2 a
    using vsf_okD(2) [OF ok that(1)] vsf_okD(2) [OF ok that(2)] Suc by (intro Suc.IH) auto
  then show ?case using step
    by (auto simp: bindR_def split: option.splits VsfType.splits sum.splits)
qed

section \<open>Fitting in a block\<close>

lemma body_start_le: "vsf_ok E \<Longrightarrow> body_start E \<le> 45"
  using vsf_okD(4) [of E "V_hp (replicate 32 0)"] by (simp add: vsf_wf_def vsf_width_def body_start_def)

lemma fields_bytes_width:
  assumes ok: "vsf_ok E" and "\<forall>(n, v) \<in> set fs. length n \<le> 32 \<and> vsf_wf v"
  shows "length (fields_bytes E fs) \<le> sum_list (map (\<lambda>(n, v). length n + 4 + vsf_width v) fs)"
  using assms(2)
proof (induction fs)
  case Nil
  then show ?case by simp
next
  case (Cons f fs)
  then have f: "length (fst f) \<le> 32" "vsf_wf (snd f)" by (auto simp: case_prod_beta)
  have "length (vsf_flatten E (V_d (fst f))) \<le> length (fst f) + 4"
    using vsf_okD(4) [OF ok, of "V_d (fst f)"] f(1) by (simp add: vsf_wf_def vsf_width_def)
  moreover have "length (fields_bytes E fs) \<le> sum_list (map (\<lambda>(n, v). length n + 4 + vsf_width v) fs)"
    using Cons by simp
  ultimately show ?case using vsf_okD(4) [OF ok f(2)] by (cases f) simp
qed

lemma doc_fits_exact:
  assumes ok: "vsf_ok E" and wf: "doc_wf schema fs"
    and "body_start E + 4 + length schema + sum_list (map (\<lambda>(n, v). length n + 4 + vsf_width v) fs) \<le> BLOCK"
  shows "doc_fits E schema fs"
proof -
  have "length (vsf_flatten E (V_d schema)) \<le> length schema + 4"
    using vsf_okD(4) [OF ok, of "V_d schema"] wf by (simp add: vsf_wf_def vsf_width_def doc_wf_def)
  moreover have "\<forall>(n, v) \<in> set fs. length n \<le> 32 \<and> vsf_wf v" using wf by (simp add: doc_wf_def)
  ultimately show ?thesis using fields_bytes_width [OF ok, of fs] assms(3) by (simp add: doc_fits_def)
qed

lemma doc_fits_bound:
  assumes "vsf_ok E" and "doc_wf schema fs"
    and "49 + length schema + sum_list (map (\<lambda>(n, v). length n + 4 + vsf_width v) fs) \<le> BLOCK"
  shows "doc_fits E schema fs"
  using doc_fits_exact [OF assms(1,2)] body_start_le [OF assms(1)] assms(3) by linarith

end
