(* ===== verification/Spine.thy ===== *)
theory Spine
  imports Sealed_Block
begin

text \<open>
  The commit objects of \<open>src/ring.rs\<close>: \<open>SpineEntry\<close> and \<open>RootEntry\<close> with their codecs, the
  rollback fence's budget, and the three-way classification of a ring slot. What a decoded entry
  guarantees (\<open>spine_sane\<close>) is what every later piece of cursor arithmetic rests on.
\<close>

unbundle bit_operations_syntax

section \<open>Entries\<close>

definition SCHEMA :: string where
  "SCHEMA = ''manifestus.spine''"

definition SCHEMA_ROOT :: string where
  "SCHEMA_ROOT = ''manifestus.root''"

definition HOST_RING_LOG2 :: nat where
  "HOST_RING_LOG2 = 8"

definition FENCE_K :: nat where
  "FENCE_K = 2 ^ 2"

definition ROOT_SLOTS :: nat where
  "ROOT_SLOTS = 4"

record SpineEntry =
  se_gen :: nat
  se_prev_hash :: "u8 list"
  se_ring_log2 :: nat
  se_tract_blocks :: nat
  se_hamt_hash :: "u8 list"
  se_hamt_lba :: nat
  se_plow :: nat
  se_reap :: "nat option"
  se_live :: nat
  se_eagle_time :: int

record RootEntry =
  re_gen :: nat
  re_prev_hash :: "u8 list"
  re_ring_log2 :: nat
  re_at :: nat
  re_was :: nat
  re_since :: nat
  re_residences :: nat
  re_residency :: nat
  re_eagle_time :: int

section \<open>Encoding\<close>

definition spine_pairs :: "SpineEntry \<Rightarrow> (string \<times> VsfType) list" where
  "spine_pairs e =
     [(''gen'', V_u (se_gen e) False),
      (''prev'', V_hp (se_prev_hash e)),
      (''ring'', V_u (se_ring_log2 e) False),
      (''tract'', V_u (se_tract_blocks e) False),
      (''hamt'', V_hp (se_hamt_hash e)),
      (''hamtat'', V_u (se_hamt_lba e) False),
      (''plow'', V_u (se_plow e) False),
      (''live'', V_u (se_live e) False),
      (''time'', V_e6 (se_eagle_time e))]
     @ (case se_reap e of Some r \<Rightarrow> [(''reap'', V_u r False)] | None \<Rightarrow> [])"

definition spine_encode :: "vsf_env \<Rightarrow> SpineEntry \<Rightarrow> block result" where
  "spine_encode E e = sealed_block E SCHEMA (spine_pairs e)"

definition root_pairs :: "RootEntry \<Rightarrow> (string \<times> VsfType) list" where
  "root_pairs e =
     [(''gen'', V_u (re_gen e) False),
      (''prev'', V_hp (re_prev_hash e)),
      (''ring'', V_u (re_ring_log2 e) False),
      (''at'', V_u (re_at e) False),
      (''was'', V_u (re_was e) False),
      (''since'', V_u (re_since e) False),
      (''band'', V_u (re_residences e) False),
      (''stay'', V_u (re_residency e) False),
      (''time'', V_e6 (re_eagle_time e))]"

definition root_encode :: "vsf_env \<Rightarrow> RootEntry \<Rightarrow> block result" where
  "root_encode E e = sealed_block E SCHEMA_ROOT (root_pairs e)"

section \<open>Decoding\<close>

text \<open>Magic, hash, seal and schema: the position of the first field.\<close>

definition decode_header :: "vsf_env \<Rightarrow> string \<Rightarrow> block \<Rightarrow> nat result" where
  "decode_header E expected block =
     (if take 4 block \<noteq> MAGIC then Inl BadMagic
      else case vsf_parse E block 4 of
        None \<Rightarrow> Inl (Corrupt ''vsf parse'')
      | Some (V_hp stored, ptr) \<Rightarrow>
          (if \<not> byte_at block ptr 0x3E then Inl (Corrupt ''expected > after hp'')
           else if blake3 E (drop (ptr + 1) block) \<noteq> stored then Inl Seal
           else case vsf_parse E block (ptr + 1) of
             None \<Rightarrow> Inl (Corrupt ''vsf parse'')
           | Some (V_d schema, ptr2) \<Rightarrow>
               (if schema \<noteq> expected then Inl (Corrupt ''foreign schema'') else Inr ptr2)
           | Some _ \<Rightarrow> Inl (Corrupt ''expected schema id''))
      | Some _ \<Rightarrow> Inl (Corrupt ''expected hp after magic''))"

record spine_acc =
  sa_gen :: "nat option"
  sa_prev :: "(u8 list) option"
  sa_ring :: "nat option"
  sa_tract :: "nat option"
  sa_hamt :: "(u8 list) option"
  sa_hamtat :: "nat option"
  sa_plow :: "nat option"
  sa_live :: "nat option"
  sa_time :: "int option"
  sa_reap :: "nat option"

definition spine_acc0 :: spine_acc where
  "spine_acc0 = \<lparr>sa_gen = None, sa_prev = None, sa_ring = None, sa_tract = None, sa_hamt = None,
     sa_hamtat = None, sa_plow = None, sa_live = None, sa_time = None, sa_reap = None\<rparr>"

definition spine_step :: "string \<Rightarrow> VsfType \<Rightarrow> spine_acc \<Rightarrow> spine_acc result" where
  "spine_step name v a =
     (if name = ''gen'' \<and> as_u64 v \<noteq> None then Inr (a\<lparr>sa_gen := as_u64 v\<rparr>)
      else if name = ''prev'' then
        (case v of V_hp h \<Rightarrow> bindR (to32 h) (\<lambda>h. Inr (a\<lparr>sa_prev := Some h\<rparr>)) | _ \<Rightarrow> Inr a)
      else if name = ''ring'' \<and> as_u64 v \<noteq> None then Inr (a\<lparr>sa_ring := map_option (\<lambda>x. x mod 256) (as_u64 v)\<rparr>)
      else if name = ''tract'' \<and> as_u64 v \<noteq> None then Inr (a\<lparr>sa_tract := as_u64 v\<rparr>)
      else if name = ''hamt'' then
        (case v of V_hp h \<Rightarrow> bindR (to32 h) (\<lambda>h. Inr (a\<lparr>sa_hamt := Some h\<rparr>)) | _ \<Rightarrow> Inr a)
      else if name = ''hamtat'' \<and> as_u64 v \<noteq> None then Inr (a\<lparr>sa_hamtat := as_u64 v\<rparr>)
      else if name = ''plow'' \<and> as_u64 v \<noteq> None then Inr (a\<lparr>sa_plow := as_u64 v\<rparr>)
      else if name = ''reap'' \<and> as_u64 v \<noteq> None then Inr (a\<lparr>sa_reap := as_u64 v\<rparr>)
      else if name = ''live'' \<and> as_u64 v \<noteq> None then Inr (a\<lparr>sa_live := as_u64 v\<rparr>)
      else if name = ''time'' then
        (case v of V_e6 t \<Rightarrow> Inr (a\<lparr>sa_time := Some t\<rparr>) | _ \<Rightarrow> Inr a)
      else Inr a)"

definition spine_of_acc :: "spine_acc \<Rightarrow> SpineEntry result" where
  "spine_of_acc a =
     bindR (ok_or (Corrupt ''missing gen'') (sa_gen a)) (\<lambda>gen.
     bindR (ok_or (Corrupt ''missing prev'') (sa_prev a)) (\<lambda>prev.
     bindR (ok_or (Corrupt ''missing ring'') (sa_ring a)) (\<lambda>ring.
     bindR (ok_or (Corrupt ''missing tract'') (sa_tract a)) (\<lambda>tract.
     bindR (ok_or (Corrupt ''missing hamt'') (sa_hamt a)) (\<lambda>hamt.
     bindR (ok_or (Corrupt ''missing hamtat'') (sa_hamtat a)) (\<lambda>hamtat.
     bindR (ok_or (Corrupt ''missing plow'') (sa_plow a)) (\<lambda>plow.
     bindR (ok_or (Corrupt ''missing live'') (sa_live a)) (\<lambda>live.
     bindR (ok_or (Corrupt ''missing time'') (sa_time a)) (\<lambda>time.
     Inr \<lparr>se_gen = gen, se_prev_hash = prev, se_ring_log2 = ring, se_tract_blocks = tract,
       se_hamt_hash = hamt, se_hamt_lba = hamtat, se_plow = plow, se_reap = sa_reap a,
       se_live = live, se_eagle_time = time\<rparr>)))))))))"

text \<open>The geometry checks at the end of \<open>SpineEntry::decode\<close>. The subtraction is the source's
  64-bit one, behind its own guard.\<close>

definition spine_check :: "SpineEntry \<Rightarrow> SpineEntry result" where
  "spine_check e =
     (if se_ring_log2 e = 0 \<or> se_ring_log2 e > 32 then Inl (Corrupt ''insane ring exponent'')
      else if se_tract_blocks e = 0 then Inl (Corrupt ''tract of zero blocks'')
      else if (case se_reap e of
                 Some reap \<Rightarrow> reap > se_plow e \<or> wsub (se_plow e) reap > se_tract_blocks e
               | None \<Rightarrow> False)
      then Inl (Corrupt ''cursors break reap <= plow <= reap + tract'')
      else if checked_add (se_plow e) (se_tract_blocks e) = None
      then Inl (Corrupt ''plow + tract overflows the monotone domain'')
      else Inr e)"

definition spine_decode :: "vsf_env \<Rightarrow> block \<Rightarrow> SpineEntry result" where
  "spine_decode E block =
     bindR (decode_header E SCHEMA block) (\<lambda>ptr.
     bindR (decode_fields E spine_step block ptr spine_acc0) (\<lambda>a.
     bindR (spine_of_acc a) spine_check))"

record root_acc =
  ra_gen :: "nat option"
  ra_prev :: "(u8 list) option"
  ra_ring :: "nat option"
  ra_at :: "nat option"
  ra_was :: "nat option"
  ra_since :: "nat option"
  ra_band :: "nat option"
  ra_stay :: "nat option"
  ra_time :: "int option"

definition root_acc0 :: root_acc where
  "root_acc0 = \<lparr>ra_gen = None, ra_prev = None, ra_ring = None, ra_at = None, ra_was = None,
     ra_since = None, ra_band = None, ra_stay = None, ra_time = None\<rparr>"

definition root_step :: "string \<Rightarrow> VsfType \<Rightarrow> root_acc \<Rightarrow> root_acc result" where
  "root_step name v a =
     (if name = ''gen'' \<and> as_u64 v \<noteq> None then Inr (a\<lparr>ra_gen := as_u64 v\<rparr>)
      else if name = ''prev'' then
        (case v of V_hp h \<Rightarrow> bindR (to32 h) (\<lambda>h. Inr (a\<lparr>ra_prev := Some h\<rparr>)) | _ \<Rightarrow> Inr a)
      else if name = ''ring'' \<and> as_u64 v \<noteq> None then Inr (a\<lparr>ra_ring := map_option (\<lambda>x. x mod 256) (as_u64 v)\<rparr>)
      else if name = ''at'' \<and> as_u64 v \<noteq> None then Inr (a\<lparr>ra_at := as_u64 v\<rparr>)
      else if name = ''was'' \<and> as_u64 v \<noteq> None then Inr (a\<lparr>ra_was := as_u64 v\<rparr>)
      else if name = ''since'' \<and> as_u64 v \<noteq> None then Inr (a\<lparr>ra_since := as_u64 v\<rparr>)
      else if name = ''band'' \<and> as_u64 v \<noteq> None then Inr (a\<lparr>ra_band := as_u64 v\<rparr>)
      else if name = ''stay'' \<and> as_u64 v \<noteq> None then Inr (a\<lparr>ra_stay := as_u64 v\<rparr>)
      else if name = ''time'' then
        (case v of V_e6 t \<Rightarrow> Inr (a\<lparr>ra_time := Some t\<rparr>) | _ \<Rightarrow> Inr a)
      else Inr a)"

definition root_of_acc :: "root_acc \<Rightarrow> RootEntry result" where
  "root_of_acc a =
     bindR (ok_or (Corrupt ''root: missing gen'') (ra_gen a)) (\<lambda>gen.
     bindR (ok_or (Corrupt ''root: missing prev'') (ra_prev a)) (\<lambda>prev.
     bindR (ok_or (Corrupt ''root: missing ring'') (ra_ring a)) (\<lambda>ring.
     bindR (ok_or (Corrupt ''root: missing at'') (ra_at a)) (\<lambda>at.
     bindR (ok_or (Corrupt ''root: missing was'') (ra_was a)) (\<lambda>was.
     bindR (ok_or (Corrupt ''root: missing since'') (ra_since a)) (\<lambda>since.
     bindR (ok_or (Corrupt ''root: missing band'') (ra_band a)) (\<lambda>band.
     bindR (ok_or (Corrupt ''root: missing stay'') (ra_stay a)) (\<lambda>stay.
     bindR (ok_or (Corrupt ''root: missing time'') (ra_time a)) (\<lambda>time.
     Inr \<lparr>re_gen = gen, re_prev_hash = prev, re_ring_log2 = ring, re_at = at, re_was = was,
       re_since = since, re_residences = band, re_residency = stay, re_eagle_time = time\<rparr>)))))))))"

definition root_decode :: "vsf_env \<Rightarrow> block \<Rightarrow> RootEntry result" where
  "root_decode E block =
     bindR (decode_header E SCHEMA_ROOT block) (\<lambda>ptr.
     bindR (decode_fields E root_step block ptr root_acc0) root_of_acc)"

section \<open>Fence budget, chain hash, classification\<close>

definition fence_budget :: "SpineEntry \<Rightarrow> nat" where
  "fence_budget e = (case se_reap e of Some r \<Rightarrow> wadd r (se_tract_blocks e) | None \<Rightarrow> se_plow e)"

text \<open>The hash of the entry's own encoded body (which always parses: \<open>spine_body_hash_eq\<close>).\<close>

definition body_hash_of :: "vsf_env \<Rightarrow> block \<Rightarrow> u8 list" where
  "body_hash_of E block =
     (let ptr = (case vsf_parse E block 4 of Some (_, p) \<Rightarrow> p | None \<Rightarrow> 4)
      in blake3 E (drop (ptr + 1) block))"

definition spine_body_hash :: "vsf_env \<Rightarrow> SpineEntry \<Rightarrow> (u8 list) result" where
  "spine_body_hash E e = bindR (spine_encode E e) (\<lambda>b. Inr (body_hash_of E b))"

definition root_body_hash :: "vsf_env \<Rightarrow> RootEntry \<Rightarrow> (u8 list) result" where
  "root_body_hash E e = bindR (root_encode E e) (\<lambda>b. Inr (body_hash_of E b))"

datatype Classified = Valid SpineEntry | Empty | ClsCorrupt

text \<open>\<open>gen & (N - 1)\<close> for \<open>N = 1 << r\<close>.\<close>

definition ring_slot :: "nat \<Rightarrow> nat \<Rightarrow> nat" where
  "ring_slot r gen = gen AND (2 ^ r - 1)"

definition classify :: "vsf_env \<Rightarrow> block \<Rightarrow> nat \<Rightarrow> nat option \<Rightarrow> Classified" where
  "classify E block slot ring_log2 =
     (if block = ZERO_BLOCK then Empty
      else if take 4 block \<noteq> MAGIC then ClsCorrupt
      else case spine_decode E block of
        Inl _ \<Rightarrow> ClsCorrupt
      | Inr e \<Rightarrow>
          (let r = (case ring_log2 of Some r \<Rightarrow> r | None \<Rightarrow> se_ring_log2 e) in
           if se_ring_log2 e \<noteq> r then ClsCorrupt
           else if ring_slot r (se_gen e) \<noteq> slot then ClsCorrupt
           else Valid e))"

section \<open>The codec is faithful\<close>

text \<open>The Rust types' own ranges, and what \<open>decode\<close> adds to them.\<close>

definition spine_wf :: "SpineEntry \<Rightarrow> bool" where
  "spine_wf e \<longleftrightarrow> se_gen e < U64 \<and> length (se_prev_hash e) = 32 \<and> se_ring_log2 e < 256 \<and> se_tract_blocks e < U64
     \<and> length (se_hamt_hash e) = 32 \<and> se_hamt_lba e < U64 \<and> se_plow e < U64 \<and> se_live e < U64
     \<and> - (2 ^ 63) \<le> se_eagle_time e \<and> se_eagle_time e < 2 ^ 63
     \<and> (case se_reap e of Some r \<Rightarrow> r < U64 | None \<Rightarrow> True)"

definition spine_sane :: "SpineEntry \<Rightarrow> bool" where
  "spine_sane e \<longleftrightarrow> 1 \<le> se_ring_log2 e \<and> se_ring_log2 e \<le> 32 \<and> 0 < se_tract_blocks e
     \<and> se_plow e + se_tract_blocks e < U64
     \<and> (case se_reap e of Some r \<Rightarrow> r \<le> se_plow e \<and> se_plow e \<le> r + se_tract_blocks e | None \<Rightarrow> True)"

definition root_wf :: "RootEntry \<Rightarrow> bool" where
  "root_wf e \<longleftrightarrow> re_gen e < U64 \<and> length (re_prev_hash e) = 32 \<and> re_ring_log2 e < 256 \<and> re_at e < U64
     \<and> re_was e < U64 \<and> re_since e < U64 \<and> re_residences e < U64 \<and> re_residency e < U64
     \<and> - (2 ^ 63) \<le> re_eagle_time e \<and> re_eagle_time e < 2 ^ 63"

lemma spine_check_eq:
  assumes "se_plow e < U64"
  shows "spine_check e = Inr e' \<longleftrightarrow> e' = e \<and> spine_sane e"
  using assms by (cases "se_reap e") (auto simp: spine_check_def spine_sane_def)

lemma spine_check_err:
  assumes "se_plow e < U64" and "\<not> spine_sane e"
  shows "\<exists>msg. spine_check e = Inl (Corrupt msg)"
  using assms by (cases "se_reap e") (auto simp: spine_check_def spine_sane_def)

lemma spine_doc:
  assumes "vsf_ok E" and "spine_wf e"
  shows "doc_wf SCHEMA (spine_pairs e)" and "doc_fits E SCHEMA (spine_pairs e)"
proof -
  show wf: "doc_wf SCHEMA (spine_pairs e)"
    using assms(2) by (cases "se_reap e") (simp_all add: doc_wf_def spine_pairs_def SCHEMA_def vsf_wf_def spine_wf_def)
  show "doc_fits E SCHEMA (spine_pairs e)"
    by (rule doc_fits_bound [OF assms(1) wf], cases "se_reap e")
       (simp_all add: spine_pairs_def SCHEMA_def vsf_width_def BLOCK_def)
qed

lemma root_doc:
  assumes "vsf_ok E" and "root_wf e"
  shows "doc_wf SCHEMA_ROOT (root_pairs e)" and "doc_fits E SCHEMA_ROOT (root_pairs e)"
proof -
  show wf: "doc_wf SCHEMA_ROOT (root_pairs e)"
    using assms(2) by (simp add: doc_wf_def root_pairs_def SCHEMA_ROOT_def vsf_wf_def root_wf_def)
  show "doc_fits E SCHEMA_ROOT (root_pairs e)"
    by (rule doc_fits_bound [OF assms(1) wf])
       (simp add: root_pairs_def SCHEMA_ROOT_def vsf_width_def BLOCK_def)
qed

lemma spine_step_ok: "step_ok spine_step"
  unfolding step_ok_def
proof (intro allI impI)
  fix n v w a assume v: "vsf_wf v" and s: "vsf_same v w"
  show "spine_step n w a = spine_step n v a"
    using s vsf_same_as_u64 [OF s v] v
    by (cases v) (auto simp: vsf_same_def spine_step_def as_u64_def split: VsfType.splits)
qed

lemma root_step_ok: "step_ok root_step"
  unfolding step_ok_def
proof (intro allI impI)
  fix n v w a assume v: "vsf_wf v" and s: "vsf_same v w"
  show "root_step n w a = root_step n v a"
    using s vsf_same_as_u64 [OF s v] v
    by (cases v) (auto simp: vsf_same_def root_step_def as_u64_def split: VsfType.splits)
qed

lemma decode_header_doc_block:
  assumes ok: "vsf_ok E" and wf: "doc_wf schema fs"
  shows "decode_header E schema (doc_block E schema fs) = Inr (body_start E + length (vsf_flatten E (V_d schema)))"
proof -
  have "body_start E - 1 + 1 = body_start E" using body_start_ge [of E] by simp
  then show ?thesis using doc_block_header [OF ok, of schema fs] doc_block_schema [OF ok wf]
    by (simp add: decode_header_def)
qed

lemma spine_fold:
  assumes "spine_wf e"
  shows "bindR (fold_fields spine_step (spine_pairs e) spine_acc0) spine_of_acc = Inr e"
  using assms by (cases "se_reap e") (simp_all add: spine_pairs_def spine_step_def as_u64_def to32_def spine_wf_def spine_acc0_def spine_of_acc_def)

lemma root_fold:
  assumes "root_wf e"
  shows "bindR (fold_fields root_step (root_pairs e) root_acc0) root_of_acc = Inr e"
  using assms by (simp add: root_pairs_def root_step_def as_u64_def to32_def root_wf_def root_acc0_def root_of_acc_def)

lemma spine_encode_eq: "vsf_ok E \<Longrightarrow> spine_wf e \<Longrightarrow> spine_encode E e = Inr (doc_block E SCHEMA (spine_pairs e))"
  by (simp add: spine_encode_def sealed_block_eq spine_doc)

lemma root_encode_eq: "vsf_ok E \<Longrightarrow> root_wf e \<Longrightarrow> root_encode E e = Inr (doc_block E SCHEMA_ROOT (root_pairs e))"
  by (simp add: root_encode_def sealed_block_eq root_doc)

lemma spine_decode_encode:
  assumes ok: "vsf_ok E" and wf: "spine_wf e"
  shows "spine_decode E (doc_block E SCHEMA (spine_pairs e)) = spine_check e"
proof -
  note d = spine_doc [OF ok wf]
  have "spine_decode E (doc_block E SCHEMA (spine_pairs e))
      = bindR (bindR (fold_fields spine_step (spine_pairs e) spine_acc0) spine_of_acc) spine_check"
    unfolding spine_decode_def decode_header_doc_block [OF ok d(1)] bindR_Inr
      decode_fields_doc_block [OF ok d spine_step_ok]
    by (simp add: bindR_def split: sum.splits)
  then show ?thesis by (simp add: spine_fold [OF wf])
qed

lemma root_decode_encode:
  assumes ok: "vsf_ok E" and wf: "root_wf e"
  shows "root_decode E (doc_block E SCHEMA_ROOT (root_pairs e)) = Inr e"
proof -
  note d = root_doc [OF ok wf]
  show ?thesis
    unfolding root_decode_def decode_header_doc_block [OF ok d(1)] bindR_Inr
      decode_fields_doc_block [OF ok d root_step_ok] by (rule root_fold [OF wf])
qed

lemma spine_body_hash_eq:
  assumes ok: "vsf_ok E" and wf: "spine_wf e"
  shows "spine_body_hash E e = Inr (blake3 E (doc_body E SCHEMA (spine_pairs e)))"
  using doc_block_header(2,5) [OF ok, of SCHEMA "spine_pairs e"]
  by (simp add: spine_body_hash_def spine_encode_eq [OF ok wf] body_hash_of_def)

text \<open>Any block that decodes, crafted or not, obeys the geometry.\<close>

definition spine_acc_bound :: "spine_acc \<Rightarrow> bool" where
  "spine_acc_bound a \<longleftrightarrow> (\<forall>p. sa_plow a = Some p \<longrightarrow> p < U64)"

lemma field_loop_invariant:
  assumes "field_loop E step fuel block ptr acc = Inr a" and "P acc"
    and "\<And>n v b c p q. P b \<Longrightarrow> vsf_parse E block p = Some (v, q) \<Longrightarrow> step n v b = Inr c \<Longrightarrow> P c"
  shows "P a"
  using assms(1,2)
proof (induction fuel arbitrary: ptr acc)
  case 0
  then show ?case by simp
next
  case (Suc n)
  from Suc.prems show ?case
    by (auto simp: bindR_eq_Inr split: if_splits option.splits VsfType.splits)
       (metis Suc.IH assms(3))
qed

lemma spine_step_bound:
  assumes "spine_acc_bound b" and "spine_step n v b = Inr c"
  shows "spine_acc_bound c"
  using assms as_u64_less [of v] by (auto simp: spine_step_def spine_acc_bound_def bindR_eq_Inr split: if_splits VsfType.splits)

lemma spine_decode_sane:
  assumes "spine_decode E block = Inr e"
  shows "spine_sane e"
proof -
  from assms obtain ptr a f where a: "decode_fields E spine_step block ptr spine_acc0 = Inr a"
    and f: "spine_of_acc a = Inr f" "spine_check f = Inr e"
    by (auto simp: spine_decode_def bindR_eq_Inr)
  have "spine_acc_bound spine_acc0" by (simp add: spine_acc_bound_def spine_acc0_def)
  with a have "spine_acc_bound a" unfolding decode_fields_def
    by (rule field_loop_invariant) (rule spine_step_bound)
  moreover have "sa_plow a = Some (se_plow f)" using f(1) by (auto simp: spine_of_acc_def bindR_eq_Inr)
  ultimately show ?thesis using f(2) spine_check_eq [of f e] by (auto simp: spine_acc_bound_def)
qed

lemma fence_budget_exact:
  "spine_sane e \<Longrightarrow> fence_budget e = (case se_reap e of Some r \<Rightarrow> r + se_tract_blocks e | None \<Rightarrow> se_plow e)"
  by (auto simp: fence_budget_def spine_sane_def split: option.splits)

section \<open>Classification\<close>

lemma ring_slot_eq: "ring_slot r gen = gen mod 2 ^ r"
  unfolding ring_slot_def
  by (simp only: mask_eq_exp_minus_1 [symmetric] take_bit_eq_mask [symmetric] take_bit_eq_mod)

lemma classify_valid:
  assumes "classify E block slot (Some r) = Valid e"
  shows "spine_sane e \<and> se_ring_log2 e = r \<and> slot = se_gen e mod 2 ^ r \<and> spine_decode E block = Inr e"
  using assms spine_decode_sane [of E block e]
  by (auto simp: classify_def ring_slot_eq Let_def split: if_splits sum.splits)

lemma classify_encoded:
  assumes "vsf_ok E" and "spine_wf e" and "spine_sane e"
  shows "classify E (doc_block E SCHEMA (spine_pairs e)) (ring_slot (se_ring_log2 e) (se_gen e)) (Some (se_ring_log2 e)) = Valid e"
proof -
  have "spine_check e = Inr e" using assms(2,3) spine_check_eq [of e e] by (simp add: spine_wf_def)
  then show ?thesis using doc_block_not_zero [OF assms(1)] doc_block_header(1) [OF assms(1)]
    by (simp add: classify_def spine_decode_encode [OF assms(1,2)])
qed

lemma classify_empty [simp]: "classify E ZERO_BLOCK slot r = Empty"
  by (simp add: classify_def)

end
