(* ===== verification/Verified_Write.thy ===== *)
theory Verified_Write
  imports Block_Dev
begin

text \<open>
  The write discipline of \<open>src/mirror.rs\<close>: \<open>write_one\<close> (write, flush, read back, compare, one
  retry) and \<open>write_each\<close> (a whole batch, consecutive positions as runs, one flush, every block
  read back, a retry for the blocks that miss). The functions are generic in the device, as in
  the source (\<open>D: BlockDev\<close>): they take the device's operations as arguments. What they
  establish is proved once, inside the device contract.
\<close>

section \<open>One block\<close>

primrec write_attempts ::
  "(nat \<Rightarrow> ('d, block) op) \<Rightarrow> (nat \<Rightarrow> block \<Rightarrow> ('d, unit) op) \<Rightarrow> ('d, unit) op \<Rightarrow>
   nat \<Rightarrow> block \<Rightarrow> nat \<Rightarrow> ('d, unit) op" where
  "write_attempts rd wr fl lba buf 0 = raiseE (Verify lba)"
| "write_attempts rd wr fl lba buf (Suc n) =
     bindE (wr lba buf) (\<lambda>_.
     bindE fl (\<lambda>_.
     bindE (rd lba) (\<lambda>scratch.
       if scratch = buf then retE () else write_attempts rd wr fl lba buf n)))"

definition write_one ::
  "(nat \<Rightarrow> ('d, block) op) \<Rightarrow> (nat \<Rightarrow> block \<Rightarrow> ('d, unit) op) \<Rightarrow> ('d, unit) op \<Rightarrow>
   nat \<Rightarrow> block \<Rightarrow> ('d, unit) op" where
  "write_one rd wr fl lba buf = write_attempts rd wr fl lba buf 2"

section \<open>A batch\<close>

text \<open>The batch cut where positions stop being consecutive: index ranges \<open>[start, end)\<close>.\<close>

definition runs_step :: "(nat \<times> block) list \<Rightarrow> nat \<Rightarrow> nat \<times> (nat \<times> nat) list \<Rightarrow> nat \<times> (nat \<times> nat) list" where
  "runs_step blocks i = (\<lambda>(start, out).
     if i = length blocks \<or> fst (blocks ! i) \<noteq> fst (blocks ! (i - 1)) + 1
     then (i, out @ [(start, i)]) else (start, out))"

definition runs_of :: "(nat \<times> block) list \<Rightarrow> (nat \<times> nat) list" where
  "runs_of blocks = snd (fold (runs_step blocks) [1 ..< length blocks + 1] (0, []))"

definition write_each ::
  "(nat \<Rightarrow> ('d, block) op) \<Rightarrow> (nat \<Rightarrow> block \<Rightarrow> ('d, unit) op) \<Rightarrow> ('d, unit) op \<Rightarrow>
   (nat \<Rightarrow> block list \<Rightarrow> ('d, unit) op) \<Rightarrow> (nat \<Rightarrow> nat \<Rightarrow> ('d, block list) op) \<Rightarrow>
   (nat \<times> block) list \<Rightarrow> ('d, unit) op" where
  "write_each rd wr fl wrun rrun blocks =
     (let runs = runs_of blocks in
      bindE (forE runs (\<lambda>(s, e). wrun (fst (blocks ! s)) (map snd (sub_slice blocks s (e - s))))) (\<lambda>_.
      bindE fl (\<lambda>_.
      forE runs (\<lambda>(s, e).
        bindE (rrun (fst (blocks ! s)) (e - s)) (\<lambda>back.
        forE (enumerate s back) (\<lambda>(i, got).
          if got \<noteq> snd (blocks ! i)
          then write_one rd wr fl (fst (blocks ! i)) (snd (blocks ! i)) else retE ()))))))"

section \<open>The runs of a batch\<close>

definition run_at :: "(nat \<times> block) list \<Rightarrow> nat \<Rightarrow> nat \<Rightarrow> bool" where
  "run_at blocks s e \<longleftrightarrow>
     e \<le> length blocks \<and> (\<forall>i. s \<le> i \<longrightarrow> i < e \<longrightarrow> fst (blocks ! i) = fst (blocks ! s) + (i - s))"

definition runs_inv :: "(nat \<times> block) list \<Rightarrow> nat \<Rightarrow> nat \<times> (nat \<times> nat) list \<Rightarrow> bool" where
  "runs_inv blocks k = (\<lambda>(start, out).
     (if k < length blocks then start \<le> k \<and> run_at blocks start (k + 1) else start = length blocks)
     \<and> (\<forall>(s, e) \<in> set out. s < e \<and> run_at blocks s e)
     \<and> (\<forall>i < start. \<exists>(s, e) \<in> set out. s \<le> i \<and> i < e))"

lemma run_at_nth: "run_at blocks s e \<Longrightarrow> s \<le> i \<Longrightarrow> i < e \<Longrightarrow> fst (blocks ! i) = fst (blocks ! s) + (i - s)"
  unfolding run_at_def by blast

lemma run_at_le: "run_at blocks s e \<Longrightarrow> e \<le> length blocks"
  unfolding run_at_def by blast

lemma run_at_single: "s < length blocks \<Longrightarrow> run_at blocks s (Suc s)"
  unfolding run_at_def by (auto simp only: Suc_le_eq less_Suc_eq_le dest: order.antisym)

lemma run_at_extend:
  assumes "run_at blocks s k" and "s < k" and "k < length blocks"
    and next1: "fst (blocks ! k) = fst (blocks ! (k - 1)) + 1"
  shows "run_at blocks s (Suc k)"
proof -
  have last: "fst (blocks ! (k - 1)) = fst (blocks ! s) + (k - 1 - s)"
    using assms(1,2) by (intro run_at_nth) auto
  have all: "fst (blocks ! i) = fst (blocks ! s) + (i - s)" if "s \<le> i" "i < Suc k" for i
  proof (cases "i = k")
    case True
    with last next1 assms(2) show ?thesis by simp
  next
    case False
    with that show ?thesis by (intro run_at_nth [OF assms(1)]) auto
  qed
  show ?thesis unfolding run_at_def
    by (intro conjI allI impI) (use assms(3) in simp, rule all)
qed

lemma runs_inv_step:
  assumes "runs_inv blocks k (start, out)" and "k < length blocks"
  shows "runs_inv blocks (Suc k) (runs_step blocks (Suc k) (start, out))"
proof -
  from assms have st: "start \<le> k" "run_at blocks start (Suc k)"
    and out: "\<forall>(s, e) \<in> set out. s < e \<and> run_at blocks s e"
    and cov: "\<forall>i < start. \<exists>(s, e) \<in> set out. s \<le> i \<and> i < e"
    by (simp_all add: runs_inv_def)
  show ?thesis
  proof (cases "Suc k = length blocks \<or> fst (blocks ! Suc k) \<noteq> fst (blocks ! k) + 1")
    case True
    then have step: "runs_step blocks (Suc k) (start, out) = (Suc k, out @ [(start, Suc k)])"
      by (auto simp: runs_step_def)
    have "\<exists>(s, e) \<in> set (out @ [(start, Suc k)]). s \<le> i \<and> i < e" if "i < Suc k" for i
      using that cov st(1) by (cases "i < start") (fastforce, auto)
    moreover have "Suc k < length blocks \<Longrightarrow> run_at blocks (Suc k) (Suc (Suc k))"
      by (rule run_at_single)
    ultimately show ?thesis unfolding step using st out assms(2)
      by (simp add: runs_inv_def)
  next
    case False
    then have step: "runs_step blocks (Suc k) (start, out) = (start, out)"
      by (auto simp: runs_step_def)
    have "run_at blocks start (Suc (Suc k))"
      using st False assms(2) by (intro run_at_extend [of blocks start "Suc k"]) auto
    then show ?thesis unfolding step using st out cov False assms(2)
      by (simp add: runs_inv_def)
  qed
qed

lemma runs_inv_fold:
  "k \<le> length blocks \<Longrightarrow> runs_inv blocks k (fold (runs_step blocks) [1 ..< k + 1] (0, []))"
proof (induction k)
  case 0
  then show ?case by (auto simp: runs_inv_def intro: run_at_single)
next
  case (Suc k)
  then have "runs_inv blocks k (fold (runs_step blocks) [1 ..< k + 1] (0, []))" by simp
  then show ?case using Suc.prems runs_inv_step [of blocks k]
    by (cases "fold (runs_step blocks) [1 ..< k + 1] (0, [])") auto
qed

lemma runs_of_run: "(s, e) \<in> set (runs_of blocks) \<Longrightarrow> s < e \<and> run_at blocks s e"
  using runs_inv_fold [OF order.refl, of blocks]
  by (auto simp: runs_of_def runs_inv_def split: prod.splits)

lemma runs_of_cover: "i < length blocks \<Longrightarrow> \<exists>(s, e) \<in> set (runs_of blocks). s \<le> i \<and> i < e"
  using runs_inv_fold [OF order.refl, of blocks]
  by (auto simp: runs_of_def runs_inv_def split: prod.splits)

section \<open>What the discipline establishes, for every device\<close>

context block_device
begin

lemma write_attempts_inv:
  assumes "write_attempts rd wr fl l b n d = (r, d')" and "inv d" and "length b = BLOCK"
  shows "inv d' \<and> cnt d' = cnt d \<and> (\<forall>k. k \<noteq> l \<longrightarrow> content d' k = content d k)"
  using assms
proof (induction n arbitrary: d)
  case 0
  then show ?case by (simp add: run_simps)
next
  case (Suc n)
  from Suc.prems(1) have "bindE (wr l b) (\<lambda>_. bindE fl (\<lambda>_. bindE (rd l) (\<lambda>scratch.
      if scratch = b then retE () else write_attempts rd wr fl l b n))) d = (r, d')" by simp
  then show ?case
  proof (cases rule: bindE_cases)
    case (err e)
    then show ?thesis using Suc.prems wr_inv wr_frame by blast
  next
    case (ok u d1)
    then have 1: "inv d1" "cnt d1 = cnt d" "\<And>k. k \<noteq> l \<Longrightarrow> content d1 k = content d k"
      using Suc.prems wr_inv wr_frame by blast+
    from ok(2) show ?thesis
    proof (cases rule: bindE_cases)
      case (err e)
      then show ?thesis using 1 fl_inv [OF 1(1)] by metis
    next
      case (ok u d2)
      then have 2: "inv d2" "cnt d2 = cnt d1" "content d2 = content d1" using fl_inv [OF 1(1)] by auto
      from ok(2) show ?thesis
      proof (cases rule: bindE_cases)
        case (err e)
        then show ?thesis using 1 2 rd_inv [OF 2(1)] by metis
      next
        case (ok x d3)
        then have 3: "inv d3" "cnt d3 = cnt d2" "content d3 = content d2"
          using rd_inv [OF 2(1)] by auto
        show ?thesis
        proof (cases "x = b")
          case True
          then show ?thesis using ok(2) 1 2 3 by (simp add: run_simps)
        next
          case False
          then show ?thesis using ok(2) Suc.IH [of d3] Suc.prems(3) 1 2 3 by simp
        qed
      qed
    qed
  qed
qed

lemma write_attempts_ok:
  assumes "write_attempts rd wr fl l b n d = (Inr u, d')" and "inv d" and "length b = BLOCK"
  shows "content d' l = b \<and> l < cnt d"
  using assms
proof (induction n arbitrary: d)
  case 0
  then show ?case by (simp add: run_simps)
next
  case (Suc n)
  from Suc.prems(1) obtain d1 d2 x d3 where
    d1: "wr l b d = (Inr (), d1)" and d2: "fl d1 = (Inr (), d2)" and d3: "rd l d2 = (Inr x, d3)"
    and rest: "(if x = b then retE () else write_attempts rd wr fl l b n) d3 = (Inr u, d')"
    by (auto elim!: bindE_InrE)
  have 1: "inv d1" "cnt d1 = cnt d" using wr_inv [OF Suc.prems(2,3) d1] by auto
  have 2: "inv d2" "cnt d2 = cnt d1" using fl_inv [OF 1(1) d2] by auto
  have 3: "inv d3" "cnt d3 = cnt d2" "content d3 = content d2" using rd_inv [OF 2(1) d3] by auto
  show ?case
  proof (cases "x = b")
    case True
    then show ?thesis using rest rd_ok [OF 2(1) d3] 1 2 3 by (simp add: run_simps)
  next
    case False
    then show ?thesis using rest Suc.IH [of d3] Suc.prems(3) 1 2 3 by simp
  qed
qed

lemma write_one_verified:
  assumes "write_one rd wr fl l b d = (Inr u, d')" and "inv d" and "length b = BLOCK"
  shows "content d' = (content d)(l := b) \<and> l < cnt d \<and> inv d' \<and> cnt d' = cnt d"
  using write_attempts_ok [OF assms(1) [unfolded write_one_def] assms(2,3)]
    write_attempts_inv [OF assms(1) [unfolded write_one_def] assms(2,3)]
  by auto

lemma write_one_frame:
  assumes "write_one rd wr fl l b d = (r, d')" and "inv d" and "length b = BLOCK"
  shows "inv d' \<and> cnt d' = cnt d \<and> (\<forall>k. k \<noteq> l \<longrightarrow> content d' k = content d k)"
  using write_attempts_inv [OF assms(1) [unfolded write_one_def] assms(2,3)] .

lemma write_one_quiet:
  assumes "inv d" and "quiet d" and "l < cnt d" and "length b = BLOCK"
  shows "\<exists>d'. write_one rd wr fl l b d = (Inr (), d') \<and> quiet d' \<and> content d' = (content d)(l := b)"
proof -
  obtain d1 where d1: "wr l b d = (Inr (), d1)" "quiet d1" "content d1 = (content d)(l := b)"
    using wr_quiet [OF assms(1-3)] by blast
  have 1: "inv d1" "cnt d1 = cnt d" using wr_inv [OF assms(1,4) d1(1)] by auto
  have "rd l d1 = (Inr b, d1)" using rd_quiet [OF 1(1) d1(2)] 1(2) assms(3) d1(3) by simp
  then show ?thesis using d1 fl_quiet [OF d1(2)]
    by (simp add: write_one_def numeral_2_eq_2 bindE_def retE_def)
qed

end

context block_device_runs
begin

lemma write_runs_frame:
  assumes "forE runs (\<lambda>(s, e). wrun (fst (blocks ! s)) (map snd (sub_slice blocks s (e - s)))) d = (r, d')"
    and runs: "\<And>s e. (s, e) \<in> set runs \<Longrightarrow> s < e \<and> run_at blocks s e"
    and "inv d" and "\<forall>(l, b) \<in> set blocks. length b = BLOCK" and "k \<notin> fst ` set blocks"
  shows "inv d' \<and> cnt d' = cnt d \<and> content d' k = content d k"
  using assms(1)
proof (rule forE_invariant [where P = "\<lambda>c. inv c \<and> cnt c = cnt d \<and> content c k = content d k"])
  show "inv d \<and> cnt d = cnt d \<and> content d k = content d k" using assms(3) by simp
next
  fix x c r' c'
  assume x: "x \<in> set runs" and c: "inv c \<and> cnt c = cnt d \<and> content c k = content d k"
    and step: "(case x of (s, e) \<Rightarrow> wrun (fst (blocks ! s)) (map snd (sub_slice blocks s (e - s)))) c = (r', c')"
  obtain s e where [simp]: "x = (s, e)" by (cases x)
  have se: "s < e" "run_at blocks s e" using runs x by auto
  have len: "length (sub_slice blocks s (e - s)) = e - s"
    using run_at_le [OF se(2)] by (simp add: sub_slice_def)
  have bl: "\<forall>b \<in> set (map snd (sub_slice blocks s (e - s))). length b = BLOCK"
    using assms(4) by (fastforce simp: sub_slice_def dest: in_set_takeD in_set_dropD)
  have "k < fst (blocks ! s) \<or> fst (blocks ! s) + (e - s) \<le> k"
  proof (rule ccontr)
    assume "\<not> ?thesis"
    then have k: "fst (blocks ! s) \<le> k" "k - fst (blocks ! s) < e - s" by auto
    let ?i = "s + (k - fst (blocks ! s))"
    have "fst (blocks ! ?i) = k" using run_at_nth [OF se(2), of ?i] k by simp
    moreover have "?i < length blocks" using run_at_le [OF se(2)] k by simp
    ultimately show False using assms(5) by (metis image_eqI nth_mem)
  qed
  then show "inv c' \<and> cnt c' = cnt d \<and> content c' k = content d k"
    using wrun_inv [OF _ bl, of c "fst (blocks ! s)" r' c'] wrun_frame [of "fst (blocks ! s)" _ c r' c' k]
      step c len by simp
qed

text \<open>The read-back pass of one run: every block of it holds what was to be written.\<close>

lemma verify_run_ok:
  assumes "forE (enumerate s back) (\<lambda>(i, got). if got \<noteq> snd (blocks ! i)
        then write_one rd wr fl (fst (blocks ! i)) (snd (blocks ! i)) else retE ()) d = (Inr u, d')"
    and bk: "back = map (content d) [fst (blocks ! s) ..< fst (blocks ! s) + (e - s)]"
    and run: "s < e" "run_at blocks s e"
    and "inv d" and bl: "\<forall>(l, b) \<in> set blocks. length b = BLOCK" and dist: "distinct (map fst blocks)"
    and good: "\<And>i. good i \<Longrightarrow> i < length blocks \<and> content d (fst (blocks ! i)) = snd (blocks ! i)"
  shows "inv d' \<and> cnt d' = cnt d \<and> (\<forall>k. k \<notin> fst ` set blocks \<longrightarrow> content d' k = content d k)
    \<and> (\<forall>i. good i \<or> (s \<le> i \<and> i < e) \<longrightarrow> content d' (fst (blocks ! i)) = snd (blocks ! i))"
proof -
  let ?pos = "\<lambda>i. fst (blocks ! i)" and ?buf = "\<lambda>i. snd (blocks ! i)"
  let ?P = "\<lambda>c. inv c \<and> cnt c = cnt d \<and> (\<forall>k. k \<notin> fst ` set blocks \<longrightarrow> content c k = content d k)
    \<and> (\<forall>i < length blocks. content c (?pos i) = content d (?pos i) \<or> content c (?pos i) = ?buf i)"
  let ?Q = "\<lambda>(i, got :: block) c. content c (?pos i) = ?buf i"
  have le: "e \<le> length blocks" using run(2) by (rule run_at_le)
  have enum: "s \<le> i \<and> i < e \<and> got = content d (?pos i)" if "(i, got) \<in> set (enumerate s back)" for i got
  proof -
    from that have i: "s \<le> i" "i < e" "got = content d (?pos s + (i - s))"
      by (auto simp: in_set_enumerate_eq bk)
    then show ?thesis using run_at_nth [OF run(2) i(1,2)] by (simp only:)
  qed
  have inj: "?pos i = ?pos j \<longleftrightarrow> i = j" if "i < length blocks" "j < length blocks" for i j
    using that dist nth_eq_iff_index_eq [of "map fst blocks" i j] by simp
  have blen: "length (?buf i) = BLOCK" if "i < length blocks" for i
    using that bl nth_mem [OF that] by (auto simp: case_prod_beta)
  have step: "?P c' \<and> ?Q x c' \<and> (\<forall>j < length blocks. ?buf j = content c (?pos j) \<longrightarrow> ?buf j = content c' (?pos j))"
    if "x \<in> set (enumerate s back)" "?P c" and run1: "(case x of (i, got) \<Rightarrow> if got \<noteq> ?buf i
        then write_one rd wr fl (?pos i) (?buf i) else retE ()) c = (Inr (), c')" for x c c'
  proof -
    obtain i got where x: "x = (i, got)" by (cases x)
    then have i: "s \<le> i" "i < e" "got = content d (?pos i)" using that(1) enum by auto
    then have il: "i < length blocks" using le by simp
    show ?thesis
    proof (cases "got = ?buf i")
      case True
      then show ?thesis using that x i il by (auto simp: run_simps)
    next
      case False
      then have "write_one rd wr fl (?pos i) (?buf i) c = (Inr (), c')" using run1 x by simp
      from write_one_verified [OF this] that(2) blen [OF il]
      have "content c' = (content c)(?pos i := ?buf i)" "inv c'" "cnt c' = cnt c" by auto
      then show ?thesis using that(2) x il inj by auto
    qed
  qed
  have "?P d' \<and> (\<forall>x \<in> set (enumerate s back). ?Q x d')"
    using assms(1)
  proof (rule forE_ok_all)
    show "?P d" using \<open>inv d\<close> by simp
  next
    fix x c c' assume a: "x \<in> set (enumerate s back)" "?P c" "(case x of (i, got) \<Rightarrow> if got \<noteq> ?buf i
        then write_one rd wr fl (?pos i) (?buf i) else retE ()) c = (Inr (), c')"
    show "?P c' \<and> ?Q x c'" using step [OF a] by blast
  next
    fix x y c c' assume a: "x \<in> set (enumerate s back)" "y \<in> set (enumerate s back)" "?P c" "?Q y c"
      "(case x of (i, got) \<Rightarrow> if got \<noteq> ?buf i
        then write_one rd wr fl (?pos i) (?buf i) else retE ()) c = (Inr (), c')"
    obtain j g where y: "y = (j, g)" by (cases y)
    have "j < length blocks" using enum [of j g] a(2) y le by simp
    then show "?Q y c'" using step [OF a(1,3,5)] a(4) unfolding y by simp
  qed
  moreover have "content d' (?pos i) = ?buf i" if "good i" for i
    using calculation good [OF that] by auto
  moreover have "\<exists>got. (i, got) \<in> set (enumerate s back)" if "s \<le> i" "i < e" for i
    using that by (auto simp: in_set_enumerate_eq bk)
  ultimately show ?thesis by fastforce
qed

text \<open>A batch that reports success is on the medium, block by block; no other position moved.\<close>

lemma write_each_verified:
  assumes "write_each rd wr fl wrun rrun blocks d = (Inr u, d')"
    and "inv d" and bl: "\<forall>(l, b) \<in> set blocks. length b = BLOCK" and dist: "distinct (map fst blocks)"
  shows "inv d' \<and> cnt d' = cnt d
    \<and> (\<forall>k. content d' k = (case map_of blocks k of Some b \<Rightarrow> b | None \<Rightarrow> content d k))"
proof -
  let ?runs = "runs_of blocks" and ?pos = "\<lambda>i. fst (blocks ! i)" and ?buf = "\<lambda>i. snd (blocks ! i)"
  let ?body = "\<lambda>(s, e). bindE (rrun (?pos s) (e - s)) (\<lambda>back.
        forE (enumerate s back) (\<lambda>(i, got). if got \<noteq> ?buf i
          then write_one rd wr fl (?pos i) (?buf i) else retE ()))"
  from assms(1) obtain u1 d1 u2 d2 where
    d1: "forE ?runs (\<lambda>(s, e). wrun (?pos s) (map snd (sub_slice blocks s (e - s)))) d = (Inr u1, d1)"
    and d2: "fl d1 = (Inr u2, d2)" and d3: "forE ?runs ?body d2 = (Inr u, d')"
    unfolding write_each_def Let_def by (elim bindE_InrE) blast
  obtain k0 where k0: "k0 \<notin> fst ` set blocks"
    using ex_new_if_finite [of "fst ` set blocks"] by auto
  note frame = write_runs_frame [OF d1 runs_of_run assms(2) bl]
  have 1: "inv d1 \<and> cnt d1 = cnt d \<and> (k \<notin> fst ` set blocks \<longrightarrow> content d1 k = content d k)" for k
    using frame [OF _ k0] frame [of k] by simp
  have 2: "inv d2" "cnt d2 = cnt d" "content d2 = content d1" using fl_inv [OF _ d2] 1 by auto
  let ?P = "\<lambda>c. inv c \<and> cnt c = cnt d \<and> (\<forall>k. k \<notin> fst ` set blocks \<longrightarrow> content c k = content d k)"
  let ?Q = "\<lambda>(s, e) c. \<forall>i. s \<le> i \<and> i < e \<longrightarrow> content c (?pos i) = ?buf i"
  have step: "?P c' \<and> ?Q (s, e) c' \<and> (\<forall>i < length blocks. content c (?pos i) = ?buf i \<longrightarrow> content c' (?pos i) = ?buf i)"
    if x: "(s, e) \<in> set ?runs" and c: "?P c" and b: "?body (s, e) c = (Inr (), c')" for s e c c'
  proof -
    from b obtain bs c1 where rr: "rrun (?pos s) (e - s) c = (Inr bs, c1)"
      and v: "forE (enumerate s bs) (\<lambda>(i, got). if got \<noteq> ?buf i
          then write_one rd wr fl (?pos i) (?buf i) else retE ()) c1 = (Inr (), c')"
      by (auto elim: bindE_InrE)
    have c1: "inv c1" "cnt c1 = cnt c" "content c1 = content c" using rrun_inv [OF _ rr] c by auto
    have "bs = map (content c1) [?pos s ..< ?pos s + (e - s)]" using rrun_ok [OF _ rr] c c1 by simp
    from verify_run_ok [OF v this _ _ c1(1) bl dist,
        of "\<lambda>i. i < length blocks \<and> content c (?pos i) = ?buf i"] runs_of_run [OF x] c c1
    show ?thesis by simp
  qed
  have all: "?P d' \<and> (\<forall>x \<in> set ?runs. ?Q x d')"
    using d3
  proof (rule forE_ok_all)
    show "?P d2" using 1 2 by simp
  next
    fix x c c' assume a: "x \<in> set ?runs" "?P c" "?body x c = (Inr (), c')"
    obtain s e where x: "x = (s, e)" by (cases x)
    show "?P c' \<and> ?Q x c'" using step [of s e c c'] a unfolding x by blast
  next
    fix x y c c' assume a: "x \<in> set ?runs" "y \<in> set ?runs" "?P c" "?Q y c" "?body x c = (Inr (), c')"
    obtain s e where x: "x = (s, e)" by (cases x)
    obtain t f where y: "y = (t, f)" by (cases y)
    have "f \<le> length blocks" using runs_of_run a(2) y run_at_le by blast
    then show "?Q y c'" using step [of s e c c'] a x y by auto
  qed
  have "content d' (?pos i) = ?buf i" if "i < length blocks" for i
    using runs_of_cover [OF that] all by fastforce
  then have "content d' k = b" if "map_of blocks k = Some b" for k b
    using map_of_SomeD [OF that] by (force simp: in_set_conv_nth)
  moreover have "content d' k = content d k" if "map_of blocks k = None" for k
    using all that by (auto simp: map_of_eq_None_iff)
  ultimately show ?thesis using all by (auto split: option.split)
qed

lemma block_length: "\<forall>(l, b) \<in> set blocks. length b = BLOCK \<Longrightarrow> i < length blocks \<Longrightarrow> length (snd (blocks ! i)) = BLOCK"
  by (drule (1) bspec [OF _ nth_mem]) (simp add: case_prod_beta)

text \<open>Whatever happens, a batch touches its own positions only.\<close>

lemma write_each_frame:
  assumes "write_each rd wr fl wrun rrun blocks d = (r, d')"
    and "inv d" and bl: "\<forall>(l, b) \<in> set blocks. length b = BLOCK" and k: "k \<notin> fst ` set blocks"
  shows "inv d' \<and> cnt d' = cnt d \<and> content d' k = content d k"
proof -
  let ?P = "\<lambda>c. inv c \<and> cnt c = cnt d \<and> content c k = content d k"
  let ?pos = "\<lambda>i. fst (blocks ! i)" and ?buf = "\<lambda>i. snd (blocks ! i)"
  let ?chk = "\<lambda>(i, got :: block). if got \<noteq> ?buf i then write_one rd wr fl (?pos i) (?buf i) else retE ()"
  have chk: "?P c'" if "forE (enumerate s bs) ?chk c = (q, c')" "?P c" "s + length bs \<le> length blocks"
    for s bs c q c'
    using that(1)
  proof (rule forE_invariant)
    fix x c q c' assume a: "x \<in> set (enumerate s bs)" "?P c" "?chk x c = (q, c')"
    obtain i got where x: "x = (i, got)" by (cases x)
    have i: "i < length blocks" using a(1) x that(3) in_enumerate by fastforce
    show "?P c'"
    proof (cases "got = ?buf i")
      case True
      then show ?thesis using a x by (simp add: run_simps)
    next
      case False
      then have w: "write_one rd wr fl (?pos i) (?buf i) c = (q, c')" using a x by simp
      have "k \<noteq> ?pos i" using k i by (metis image_eqI nth_mem)
      then show ?thesis using write_one_frame [OF w _ block_length [OF bl i]] a(2) by simp
    qed
  qed (use that in simp)
  have body: "?P c'" if "(s, e) \<in> set (runs_of blocks)" "?P c"
      "bindE (rrun (?pos s) (e - s)) (\<lambda>back. forE (enumerate s back) ?chk) c = (q, c')" for s e c q c'
    using that(3)
  proof (cases rule: bindE_cases)
    case (err x)
    from rrun_inv [OF _ this(1)] that(2) show ?thesis by simp
  next
    case (ok bs c1)
    have "?P c1" using rrun_inv [OF _ ok(1)] that(2) by simp
    moreover have "s + length bs \<le> length blocks"
      using rrun_ok [OF _ ok(1)] that(2) runs_of_run [OF that(1)] run_at_le by auto
    ultimately show ?thesis using chk ok(2) by blast
  qed
  from assms(1) [unfolded write_each_def Let_def] show ?thesis
  proof (cases rule: bindE_cases)
    case (err e)
    then show ?thesis using write_runs_frame [OF _ runs_of_run assms(2) bl k] by blast
  next
    case (ok u1 d1)
    then have 1: "?P d1" using write_runs_frame [OF _ runs_of_run assms(2) bl k] by blast
    from ok(2) show ?thesis
    proof (cases rule: bindE_cases)
      case (err e)
      then show ?thesis using fl_inv [of d1] 1 by metis
    next
      case (ok u2 d2)
      have "?P d2" using fl_inv [OF _ ok(1)] 1 by simp
      show ?thesis
      proof (rule forE_invariant [where P = ?P, OF ok(2) \<open>?P d2\<close>])
        fix x c q c' assume a: "x \<in> set (runs_of blocks)" "?P c" "(case x of (s, e) \<Rightarrow>
            bindE (rrun (?pos s) (e - s)) (\<lambda>back. forE (enumerate s back) ?chk)) c = (q, c')"
        obtain s e where x: "x = (s, e)" by (cases x)
        show "?P c'" using body [of s e c q c'] a unfolding x by simp
      qed
    qed
  qed
qed

lemma write_each_quiet:
  assumes "inv d" and "quiet d" and bl: "\<forall>(l, b) \<in> set blocks. length b = BLOCK \<and> l < cnt d"
  shows "\<exists>d'. write_each rd wr fl wrun rrun blocks d = (Inr (), d') \<and> quiet d'"
proof -
  let ?P = "\<lambda>c. inv c \<and> quiet c \<and> cnt c = cnt d"
  let ?pos = "\<lambda>i. fst (blocks ! i)" and ?buf = "\<lambda>i. snd (blocks ! i)"
  let ?chk = "\<lambda>(i, got :: block). if got \<noteq> ?buf i then write_one rd wr fl (?pos i) (?buf i) else retE ()"
  have bl': "\<forall>(l, b) \<in> set blocks. length b = BLOCK" using bl by auto
  have cnt: "?pos i < cnt d" if "i < length blocks" for i
    using bl nth_mem [OF that] by auto
  have fits: "?pos s + (e - s) \<le> cnt d \<and> e \<le> length blocks \<and> s < e" if "(s, e) \<in> set (runs_of blocks)" for s e
  proof -
    have se: "s < e" "run_at blocks s e" using runs_of_run [OF that] by auto
    have "?pos (e - 1) = ?pos s + (e - 1 - s)" using se by (intro run_at_nth) auto
    then show ?thesis using cnt [of "e - 1"] se run_at_le [OF se(2)] by linarith
  qed
  have w: "\<exists>c'. wrun (?pos s) (map snd (sub_slice blocks s (e - s))) c = (Inr (), c') \<and> ?P c'"
    if "(s, e) \<in> set (runs_of blocks)" "?P c" for s e c
  proof -
    let ?bs = "map snd (sub_slice blocks s (e - s))"
    have len: "length ?bs = e - s" using fits [OF that(1)] by (auto simp: sub_slice_def min_def)
    have bs: "\<forall>b \<in> set ?bs. length b = BLOCK"
      using bl' by (fastforce simp: sub_slice_def dest: in_set_takeD in_set_dropD)
    note prems = that
    obtain c' where c': "wrun (?pos s) ?bs c = (Inr (), c')" "quiet c'"
      using wrun_quiet [of c "?pos s" ?bs] fits [OF prems(1)] prems(2) len by auto
    then show ?thesis using wrun_inv [OF _ bs c'(1)] that(2) by simp
  qed
  have chk: "\<exists>c'. ?chk x c = (Inr (), c') \<and> ?P c'" if "fst x < length blocks" "?P c" for x c
  proof (cases x)
    case (Pair i got)
    have i: "i < length blocks" using that(1) Pair by simp
    note prems = that
    obtain c' where c': "write_one rd wr fl (?pos i) (?buf i) c = (Inr (), c')" "quiet c'"
      using write_one_quiet [of c "?pos i" "?buf i"] block_length [OF bl' i] cnt [OF i] prems(2) by auto
    have "?P c'" using write_one_frame [OF c'(1) _ block_length [OF bl' i]] c'(2) that(2) by simp
    then show ?thesis using c'(1) that(2) Pair by (cases "got = ?buf i") (auto simp: run_simps)
  qed
  have v: "\<exists>c'. bindE (rrun (?pos s) (e - s)) (\<lambda>back. forE (enumerate s back) ?chk) c = (Inr (), c') \<and> ?P c'"
    if "(s, e) \<in> set (runs_of blocks)" "?P c" for s e c
  proof -
    let ?bs = "map (content c) [?pos s ..< ?pos s + (e - s)]"
    have rr: "rrun (?pos s) (e - s) c = (Inr ?bs, c)"
      using fits [OF that(1)] that(2) by (intro rrun_quiet) auto
    have "\<exists>c'. forE (enumerate s ?bs) ?chk c = (Inr (), c') \<and> ?P c'"
    proof (rule forE_progress)
      fix x c assume "x \<in> set (enumerate s ?bs)" "?P c"
      moreover have "fst x < length blocks"
        using calculation(1) fits [OF that(1)] in_enumerate [of "fst x" "snd x" s ?bs] by auto
      ultimately show "\<exists>c'. ?chk x c = (Inr (), c') \<and> ?P c'" using chk by blast
    qed (use that in simp)
    then show ?thesis using rr by (auto simp: bindE_def)
  qed
  have "\<exists>d1. forE (runs_of blocks) (\<lambda>(s, e). wrun (?pos s) (map snd (sub_slice blocks s (e - s)))) d = (Inr (), d1) \<and> ?P d1"
    by (rule forE_progress) (use assms w in auto)
  then obtain d1 where d1: "forE (runs_of blocks) (\<lambda>(s, e). wrun (?pos s) (map snd (sub_slice blocks s (e - s)))) d = (Inr (), d1)" "?P d1"
    by blast
  have "\<exists>d'. forE (runs_of blocks) (\<lambda>(s, e). bindE (rrun (?pos s) (e - s)) (\<lambda>back. forE (enumerate s back) ?chk)) d1 = (Inr (), d') \<and> ?P d'"
    by (rule forE_progress) (use d1 v in auto)
  then show ?thesis using d1 fl_quiet [of d1]
    by (auto simp: write_each_def Let_def bindE_ok)
qed

end

end
