(* ===== verification/Mirror_Model.thy ===== *)
theory Mirror_Model
  imports Verified_Write
begin

text \<open>
  The mirror of \<open>src/mirror.rs\<close> with the events of \<open>src/events.rs\<close>: two devices behind one
  block address space, appends staged in memory until the next write drains them, an index cache,
  and the failure matrix (the primary must verify or the operation fails; a failing secondary is
  dropped for the session).

  \<open>m_pending\<close> keeps every staged batch with the capacity it was allocated at, because
  \<open>stage_one\<close> fills the last batch up to its capacity. \<open>m_cache\<close> is the sorted vector of
  (position, last use, block). \<open>m_events\<close> is what the sink was given, oldest first. The scratch
  buffer of the source is a local value here.
\<close>

section \<open>State\<close>

datatype storage_event =
    VerifyRetried nat
  | BlockRelocated nat nat
  | MirrorDegraded
  | ReapWindow nat nat nat
  | LiveLapAverted nat

record mirror =
  m_a :: "filedev option"
  m_b :: "filedev option"
  m_degraded :: bool
  m_events :: "storage_event list"
  m_pending :: "(nat \<times> (nat \<times> block) list) list"
  m_cache :: "(nat \<times> nat \<times> block) list"
  m_uses :: nat

definition PAR_BATCH_THRESHOLD :: nat where
  "PAR_BATCH_THRESHOLD = 4"

definition CACHE_BLOCKS :: nat where
  "CACHE_BLOCKS = 2 ^ 10"

definition mirror_new :: "filedev \<Rightarrow> filedev \<Rightarrow> mirror" where
  "mirror_new a b = \<lparr>m_a = Some a, m_b = Some b, m_degraded = False, m_events = [],
     m_pending = [], m_cache = [], m_uses = 0\<rparr>"

definition mirror_from_parts :: "filedev option \<Rightarrow> filedev option \<Rightarrow> mirror result" where
  "mirror_from_parts a b =
     (if a = None \<and> b = None then Inl (Corrupt ''mirror requires at least one device'')
      else Inr \<lparr>m_a = a, m_b = b, m_degraded = (a = None \<or> b = None), m_events = [],
        m_pending = [], m_cache = [], m_uses = 0\<rparr>)"

section \<open>Staging and the cache\<close>

text \<open>\<open>slice::binary_search_by_key\<close> on a vector sorted by position: \<open>Inr i\<close> is \<open>Ok(i)\<close>,
  \<open>Inl i\<close> is \<open>Err(i)\<close> with the insertion point.\<close>

fun binary_search_by_key :: "nat \<Rightarrow> (nat \<times> 'x) list \<Rightarrow> nat + nat" where
  "binary_search_by_key k [] = Inl 0"
| "binary_search_by_key k (e # es) =
     (if fst e = k then Inr 0
      else if k < fst e then Inl 0
      else map_sum Suc Suc (binary_search_by_key k es))"

definition remove_nth :: "nat \<Rightarrow> 'x list \<Rightarrow> 'x list" where
  "remove_nth i xs = take i xs @ drop (Suc i) xs"

definition insert_nth :: "nat \<Rightarrow> 'x \<Rightarrow> 'x list \<Rightarrow> 'x list" where
  "insert_nth i x xs = take i xs @ x # drop i xs"

definition forget :: "nat \<Rightarrow> mirror \<Rightarrow> mirror" where
  "forget lba m = (case binary_search_by_key lba (m_cache m) of
     Inr i \<Rightarrow> m\<lparr>m_cache := remove_nth i (m_cache m)\<rparr> | Inl _ \<Rightarrow> m)"

definition stage :: "(nat \<times> block) list \<Rightarrow> mirror \<Rightarrow> mirror" where
  "stage blocks m =
     (if blocks = [] then m
      else (fold (\<lambda>(lba, _). forget lba) blocks m)
        \<lparr>m_pending := m_pending m @ [(length blocks, blocks)]\<rparr>)"

definition reserve_staged :: "nat \<Rightarrow> mirror \<Rightarrow> mirror" where
  "reserve_staged n m = (if 0 < n then m\<lparr>m_pending := m_pending m @ [(n, [])]\<rparr> else m)"

definition stage_one :: "nat \<Rightarrow> block \<Rightarrow> mirror \<Rightarrow> mirror" where
  "stage_one lba b m =
     (let m = forget lba m; p = m_pending m in
      if p \<noteq> [] \<and> length (snd (last p)) < fst (last p)
      then m\<lparr>m_pending := butlast p @ [(fst (last p), snd (last p) @ [(lba, b)])]\<rparr>
      else m\<lparr>m_pending := p @ [(1, [(lba, b)])]\<rparr>)"

text \<open>Every staged block, oldest first, and the last staging of a position.\<close>

definition staged :: "mirror \<Rightarrow> (nat \<times> block) list" where
  "staged m = concat (map snd (m_pending m))"

definition find_staged :: "mirror \<Rightarrow> nat \<Rightarrow> block option" where
  "find_staged m lba = map_option snd (find (\<lambda>p. fst p = lba)
     (concat (map (\<lambda>batch. rev (snd batch)) (rev (m_pending m)))))"

section \<open>Reads\<close>

definition on_a :: "(filedev, 'x) op \<Rightarrow> (mirror, 'x) op" where
  "on_a f = (\<lambda>m. case m_a m of
     None \<Rightarrow> (Inl (Corrupt ''mirror has no devices''), m)
   | Some a \<Rightarrow> (case f a of (r, a') \<Rightarrow> (r, m\<lparr>m_a := Some a'\<rparr>)))"

definition on_b :: "(filedev, 'x) op \<Rightarrow> (mirror, 'x) op" where
  "on_b f = (\<lambda>m. case m_b m of
     None \<Rightarrow> (Inl (Corrupt ''mirror has no devices''), m)
   | Some b \<Rightarrow> (case f b of (r, b') \<Rightarrow> (r, m\<lparr>m_b := Some b'\<rparr>)))"

text \<open>The first healthy device: the primary while it is present, else the secondary.\<close>

definition on_first :: "(filedev, 'x) op \<Rightarrow> (mirror, 'x) op" where
  "on_first f = (\<lambda>m. if m_a m \<noteq> None then on_a f m else on_b f m)"

definition mirror_read :: "nat \<Rightarrow> (mirror, block) op" where
  "mirror_read lba = (\<lambda>m. case find_staged m lba of
     Some b \<Rightarrow> (Inr b, m)
   | None \<Rightarrow> on_first (dev_read lba) m)"

text \<open>\<open>(0..n).min_by_key\<close>: the index of the first least last-use.\<close>

definition oldest_use :: "(nat \<times> nat \<times> block) list \<Rightarrow> nat" where
  "oldest_use c = fold (\<lambda>i best. if fst (snd (c ! i)) < fst (snd (c ! best)) then i else best)
     [0 ..< length c] 0"

definition cache_insert :: "nat \<Rightarrow> block \<Rightarrow> mirror \<Rightarrow> mirror" where
  "cache_insert lba b m =
     (let c = m_cache m;
          c = (if length c \<ge> CACHE_BLOCKS then remove_nth (oldest_use c) c else c);
          at = (case binary_search_by_key lba c of Inl i \<Rightarrow> i | Inr i \<Rightarrow> i)
      in m\<lparr>m_cache := insert_nth at (lba, m_uses m, b) c\<rparr>)"

definition read_cached :: "nat \<Rightarrow> (mirror, block) op" where
  "read_cached lba = (\<lambda>m. case find_staged m lba of
     Some b \<Rightarrow> (Inr b, m)
   | None \<Rightarrow>
      (let m = m\<lparr>m_uses := m_uses m + 1\<rparr> in
       case binary_search_by_key lba (m_cache m) of
         Inr i \<Rightarrow> (case m_cache m ! i of (l, _, b) \<Rightarrow>
            (Inr b, m\<lparr>m_cache := (m_cache m)[i := (l, m_uses m, b)]\<rparr>))
       | Inl _ \<Rightarrow> bindE (mirror_read lba) (\<lambda>b. bindE (modE (cache_insert lba b)) (\<lambda>_. retE b)) m))"

definition mirror_read_run :: "nat \<Rightarrow> nat \<Rightarrow> (mirror, block list) op" where
  "mirror_read_run lba n = (\<lambda>m.
     if list_ex (\<lambda>(l, _). lba \<le> l \<and> l < wadd lba n) (staged m)
     then mapE (\<lambda>i. mirror_read (wadd lba i)) [0 ..< n] m
     else on_first (dev_read_run lba n) m)"

definition mirror_read_many :: "nat list \<Rightarrow> (mirror, block list) op" where
  "mirror_read_many lbas = (\<lambda>m.
     if m_pending m \<noteq> [] then mapE mirror_read lbas m
     else on_first (dev_read_many lbas) m)"

section \<open>Writes\<close>

definition dev_write_one :: "nat \<Rightarrow> block \<Rightarrow> (filedev, unit) op" where
  "dev_write_one = write_one dev_read dev_write dev_flush"

definition dev_write_each :: "(nat \<times> block) list \<Rightarrow> (filedev, unit) op" where
  "dev_write_each = write_each dev_read dev_write dev_flush dev_write_run dev_read_run"

definition drop_secondary :: "mirror \<Rightarrow> mirror" where
  "drop_secondary m = m\<lparr>m_b := None, m_degraded := True, m_events := m_events m @ [MirrorDegraded]\<rparr>"

text \<open>The secondary's half of a write: a failure drops it and the operation goes on.\<close>

definition secondary :: "(filedev, unit) op \<Rightarrow> (mirror, unit) op" where
  "secondary f = (\<lambda>m. case m_b m of
     None \<Rightarrow> (Inr (), m)
   | Some b \<Rightarrow> (case f b of
       (Inl _, _) \<Rightarrow> (Inr (), drop_secondary m)
     | (Inr _, b') \<Rightarrow> (Inr (), m\<lparr>m_b := Some b'\<rparr>)))"

text \<open>Primary first, secondary only after the primary verified.\<close>

definition primary_then_secondary :: "(filedev, unit) op \<Rightarrow> (mirror, unit) op" where
  "primary_then_secondary f = (\<lambda>m.
     if m_a m \<noteq> None then bindE (on_a f) (\<lambda>_. secondary f) m else on_b f m)"

text \<open>Both devices at once (the scoped threads): the primary's failure fails the operation, but
  the secondary has been written too.\<close>

definition both_devices :: "(filedev, unit) op \<Rightarrow> (mirror, unit) op" where
  "both_devices f = (\<lambda>m. case (m_a m, m_b m) of
     (Some a, Some b) \<Rightarrow>
       (case (f a, f b) of ((ra, a'), (rb, b')) \<Rightarrow>
          let m = m\<lparr>m_a := Some a', m_b := Some b'\<rparr> in
          (case ra of
             Inl e \<Rightarrow> (Inl e, m)
           | Inr _ \<Rightarrow> (case rb of Inl _ \<Rightarrow> (Inr (), drop_secondary m) | Inr _ \<Rightarrow> (Inr (), m))))
   | _ \<Rightarrow> primary_then_secondary f m)"

definition write_verified_batch_now :: "(nat \<times> block) list \<Rightarrow> (mirror, unit) op" where
  "write_verified_batch_now blocks =
     bindE (modE (fold (\<lambda>(lba, _). forget lba) blocks)) (\<lambda>_.
     if length blocks \<ge> PAR_BATCH_THRESHOLD then both_devices (dev_write_each blocks)
     else primary_then_secondary (dev_write_each blocks))"

text \<open>\<open>dedup_by\<close> with the later of two equal positions taking the earlier one's place.\<close>

fun dedup_last :: "(nat \<times> 'x) list \<Rightarrow> (nat \<times> 'x) list" where
  "dedup_last [] = []"
| "dedup_last [x] = [x]"
| "dedup_last (x # y # zs) =
     (if fst x = fst y then dedup_last (y # zs) else x # dedup_last (y # zs))"

definition drain :: "(mirror, unit) op" where
  "drain = (\<lambda>m.
     if m_pending m = [] then (Inr (), m)
     else write_verified_batch_now (dedup_last (sort_key fst (staged m))) (m\<lparr>m_pending := []\<rparr>))"

definition write_verified :: "nat \<Rightarrow> block \<Rightarrow> (mirror, unit) op" where
  "write_verified lba buf =
     bindE drain (\<lambda>_. bindE (modE (forget lba)) (\<lambda>_. primary_then_secondary (dev_write_one lba buf)))"

definition write_verified_batch :: "(nat \<times> block) list \<Rightarrow> (mirror, unit) op" where
  "write_verified_batch blocks = bindE drain (\<lambda>_. write_verified_batch_now blocks)"

definition mirror_grow :: "nat \<Rightarrow> (mirror, unit) op" where
  "mirror_grow new_blocks = bindE drain (\<lambda>_. primary_then_secondary (dev_grow new_blocks))"

definition mirror_flush :: "(mirror, unit) op" where
  "mirror_flush = bindE drain (\<lambda>_.
     bindE (\<lambda>m. if m_a m \<noteq> None then on_a dev_flush m else (Inr (), m)) (\<lambda>_ m.
     if m_b m \<noteq> None then on_b dev_flush m else (Inr (), m)))"

section \<open>Queries\<close>

definition mirror_block_count :: "mirror \<Rightarrow> nat" where
  "mirror_block_count m = (case (m_a m, m_b m) of
     (Some x, Some y) \<Rightarrow> min (fd_blocks x) (fd_blocks y)
   | (Some x, None) \<Rightarrow> fd_blocks x
   | (None, Some y) \<Rightarrow> fd_blocks y
   | (None, None) \<Rightarrow> 0)"

definition emit :: "storage_event \<Rightarrow> mirror \<Rightarrow> mirror" where
  "emit e m = m\<lparr>m_events := m_events m @ [e]\<rparr>"

text \<open>\<open>Mirror::devices\<close> hands out the raw devices: nothing cached survives it.\<close>

definition mirror_devices :: "mirror \<Rightarrow> mirror" where
  "mirror_devices m = m\<lparr>m_cache := []\<rparr>"

end
