(* ===== verification/Mirror_Props.thy ===== *)
theory Mirror_Props
  imports Mirror_Model
begin

text \<open>
  What the mirror promises the layers above it. \<open>view m l\<close> is the block a client sees at \<open>l\<close>:
  the last staging of the position, else what the reading device holds. Every read returns the
  view and leaves it alone, a drained mirror shows the same view, and a verified write changes the
  view at its own position only. The interface is the locale \<open>store_reader\<close>.
\<close>

section \<open>The view and the invariant\<close>

definition rdev :: "mirror \<Rightarrow> filedev option" where
  "rdev m = (if m_a m \<noteq> None then m_a m else m_b m)"

definition rcontent :: "mirror \<Rightarrow> nat \<Rightarrow> block" where
  "rcontent m l = (case rdev m of Some d \<Rightarrow> dev_content d l | None \<Rightarrow> ZERO_BLOCK)"

definition rcount :: "mirror \<Rightarrow> nat" where
  "rcount m = (case rdev m of Some d \<Rightarrow> fd_blocks d | None \<Rightarrow> 0)"

definition view :: "mirror \<Rightarrow> nat \<Rightarrow> block" where
  "view m l = (case find_staged m l of Some b \<Rightarrow> b | None \<Rightarrow> rcontent m l)"

definition quiet_mirror :: "mirror \<Rightarrow> bool" where
  "quiet_mirror m \<longleftrightarrow> (case rdev m of Some d \<Rightarrow> healthy d | None \<Rightarrow> False)"

definition cache_ok :: "mirror \<Rightarrow> bool" where
  "cache_ok m \<longleftrightarrow> sorted_wrt (<) (map fst (m_cache m))
     \<and> (\<forall>(l, u, b) \<in> set (m_cache m). b = rcontent m l \<and> l < rcount m)"

definition wf_mirror :: "mirror \<Rightarrow> bool" where
  "wf_mirror m \<longleftrightarrow> rdev m \<noteq> None \<and> (\<forall>d. m_a m = Some d \<longrightarrow> wf_dev d) \<and> (\<forall>d. m_b m = Some d \<longrightarrow> wf_dev d)
     \<and> (\<forall>(l, b) \<in> set (staged m). length b = BLOCK) \<and> cache_ok m"

lemma find_staged_eq: "find_staged m l = map_of (rev (staged m)) l"
proof -
  have "concat (map (\<lambda>batch. rev (snd batch)) (rev (m_pending m))) = rev (staged m)"
    unfolding staged_def rev_concat rev_map by (simp add: comp_def)
  then have "find_staged m l = map_option snd (map_option (Pair l) (map_of (rev (staged m)) l))"
    by (simp only: find_staged_def find_rev_map_of)
  then show ?thesis by (simp add: option.map_comp comp_def option.map_ident)
qed

lemma find_staged_cong: "m_pending m' = m_pending m \<Longrightarrow> find_staged m' = find_staged m"
  by (simp add: fun_eq_iff find_staged_def)

lemma view_cong:
  "m_pending m' = m_pending m \<Longrightarrow> rcontent m' = rcontent m \<Longrightarrow> view m' = view m"
  by (rule ext) (simp add: view_def find_staged_cong [of m' m] split: option.split)

lemma no_pending_staged [simp]: "m_pending m = [] \<Longrightarrow> staged m = []"
  by (simp add: staged_def)

section \<open>The sorted cache\<close>

lemma binary_search_ok:
  "sorted_wrt (<) (map fst c) \<Longrightarrow> binary_search_by_key k c = Inr i \<Longrightarrow> i < length c \<and> fst (c ! i) = k"
proof (induction c arbitrary: i)
  case Nil
  then show ?case by simp
next
  case (Cons e es)
  then show ?case by (cases "binary_search_by_key k es") (auto split: if_splits)
qed

lemma binary_search_err:
  assumes "sorted_wrt (<) (map fst c)" and "binary_search_by_key k c = Inl i"
  shows "i \<le> length c \<and> (\<forall>x \<in> set (take i c). fst x < k) \<and> (\<forall>x \<in> set (drop i c). k < fst x)"
  using assms
proof (induction c arbitrary: i)
  case Nil
  then show ?case by simp
next
  case (Cons e es)
  show ?case
  proof (cases "k < fst e")
    case True
    then show ?thesis using Cons.prems by (auto dest: order.strict_trans)
  next
    case False
    with Cons.prems obtain j where "binary_search_by_key k es = Inl j" "i = Suc j" "fst e \<noteq> k"
      by (cases "binary_search_by_key k es") (auto split: if_splits)
    with Cons False show ?thesis by auto
  qed
qed

lemma remove_nth_simps [simp]:
  "remove_nth i [] = []" "remove_nth 0 (x # xs) = xs" "remove_nth (Suc i) (x # xs) = x # remove_nth i xs"
  by (simp_all add: remove_nth_def)

lemma set_remove_nth: "set (remove_nth i xs) \<subseteq> set xs"
  by (auto simp: remove_nth_def dest: in_set_takeD in_set_dropD)

lemma sorted_remove_nth: "sorted_wrt (<) (map f xs) \<Longrightarrow> sorted_wrt (<) (map f (remove_nth i xs))"
proof (induction xs arbitrary: i)
  case Nil
  then show ?case by simp
next
  case (Cons x xs)
  then show ?case by (cases i) (auto dest: set_remove_nth [THEN subsetD])
qed

lemma remove_nth_gone:
  "sorted_wrt (<) (map fst (xs :: (nat \<times> 'x) list)) \<Longrightarrow> i < length xs \<Longrightarrow>
   set (remove_nth i xs) = {e \<in> set xs. fst e \<noteq> fst (xs ! i)}"
proof (induction xs arbitrary: i)
  case Nil
  then show ?case by simp
next
  case (Cons x xs)
  then show ?case by (cases i) (auto dest: nth_mem)
qed

lemma sorted_insert_nth:
  assumes "sorted_wrt (<) (map fst c)" and "\<forall>x \<in> set (take i c). fst x < fst e" and "\<forall>x \<in> set (drop i c). fst e < fst x"
  shows "sorted_wrt (<) (map fst (insert_nth i e c))"
proof -
  have "sorted_wrt (<) (map fst (take i c @ drop i c))" using assms(1) by simp
  then show ?thesis using assms(2,3) unfolding map_append sorted_wrt_append insert_nth_def by auto
qed

lemma set_insert_nth: "set (insert_nth i e c) = insert e (set c)"
proof -
  have "set c = set (take i c) \<union> set (drop i c)" by (metis append_take_drop_id set_append)
  then show ?thesis by (auto simp: insert_nth_def)
qed

section \<open>Forgetting a position\<close>

lemma forget_fields [simp]:
  "m_a (forget l m) = m_a m" "m_b (forget l m) = m_b m" "m_pending (forget l m) = m_pending m"
  "m_degraded (forget l m) = m_degraded m" "m_events (forget l m) = m_events m" "m_uses (forget l m) = m_uses m"
  by (auto simp: forget_def split: sum.splits)

lemma forget_all_fields [simp]:
  "m_a (fold (\<lambda>(l, _). forget l) bs m) = m_a m" "m_b (fold (\<lambda>(l, _). forget l) bs m) = m_b m"
  "m_pending (fold (\<lambda>(l, _). forget l) bs m) = m_pending m"
  "m_degraded (fold (\<lambda>(l, _). forget l) bs m) = m_degraded m"
  "m_events (fold (\<lambda>(l, _). forget l) bs m) = m_events m"
  by (induction bs arbitrary: m) (auto simp: case_prod_beta)

lemma forget_cache:
  assumes "sorted_wrt (<) (map fst (m_cache m))"
  shows "sorted_wrt (<) (map fst (m_cache (forget l m)))
    \<and> set (m_cache (forget l m)) = {e \<in> set (m_cache m). fst e \<noteq> l}"
proof (cases "binary_search_by_key l (m_cache m)")
  case (Inl i)
  have "set (m_cache m) = set (take i (m_cache m)) \<union> set (drop i (m_cache m))"
    by (metis append_take_drop_id set_append)
  then show ?thesis using assms binary_search_err [OF assms Inl] Inl by (auto simp: forget_def)
next
  case (Inr i)
  then show ?thesis
    using assms binary_search_ok [OF assms Inr] remove_nth_gone [OF assms, of i] sorted_remove_nth [OF assms]
    by (simp add: forget_def)
qed

lemma forget_all_cache:
  assumes "sorted_wrt (<) (map fst (m_cache m))"
  shows "sorted_wrt (<) (map fst (m_cache (fold (\<lambda>(l, _). forget l) bs m)))
    \<and> set (m_cache (fold (\<lambda>(l, _). forget l) bs m)) = {e \<in> set (m_cache m). fst e \<notin> fst ` set bs}"
  using assms
proof (induction bs arbitrary: m)
  case Nil
  then show ?case by simp
next
  case (Cons x bs)
  then show ?case
    using Cons.IH [of "forget (fst x) m"] forget_cache [OF Cons.prems, of "fst x"]
    by (auto simp: case_prod_beta)
qed

section \<open>Reads return the view and leave it alone\<close>

lemma on_first_fields:
  assumes "on_first f m = (r, m')" and "rdev m = Some d"
  shows "\<exists>d'. f d = (r, d') \<and> rdev m' = Some d' \<and> m_pending m' = m_pending m \<and> m_cache m' = m_cache m
    \<and> m_uses m' = m_uses m \<and> m_degraded m' = m_degraded m \<and> m_events m' = m_events m
    \<and> (m_a m \<noteq> None \<longrightarrow> m_b m' = m_b m) \<and> (m_a m' = None \<longleftrightarrow> m_a m = None)"
  using assms
  by (cases "f d") (auto simp: on_first_def on_a_def on_b_def rdev_def split: option.splits if_splits prod.splits)

lemma on_first_run:
  assumes "rdev m = Some d" and "f d = (r, d)"
  shows "on_first f m = (r, m)"
  using assms by (auto simp: on_first_def on_a_def on_b_def rdev_def split: if_splits)

text \<open>A device operation that changes no content keeps the mirror's invariant and view.\<close>

lemma on_first_keeps:
  assumes run: "on_first f m = (r, m')" and "wf_mirror m"
    and f: "\<And>d d'. wf_dev d \<Longrightarrow> f d = (r, d') \<Longrightarrow>
        wf_dev d' \<and> fd_blocks d' = fd_blocks d \<and> dev_content d' = dev_content d"
  shows "wf_mirror m' \<and> view m' = view m \<and> rcontent m' = rcontent m \<and> rcount m' = rcount m \<and> m_pending m' = m_pending m"
proof -
  obtain d where d: "rdev m = Some d" using assms(2) by (auto simp: wf_mirror_def)
  then have wd: "wf_dev d" using assms(2) by (auto simp: wf_mirror_def rdev_def split: if_splits)
  obtain d' where d': "f d = (r, d')" "rdev m' = Some d'" "m_pending m' = m_pending m" "m_cache m' = m_cache m"
    "m_a m \<noteq> None \<longrightarrow> m_b m' = m_b m" "m_a m' = None \<longleftrightarrow> m_a m = None"
    using on_first_fields [OF run d] by (elim exE conjE) (rule that)
  have fd: "wf_dev d'" "fd_blocks d' = fd_blocks d" "dev_content d' = dev_content d"
    using f [OF wd d'(1)] by auto
  then have rc: "rcontent m' = rcontent m" "rcount m' = rcount m"
    using d d'(2) by (auto simp: rcontent_def rcount_def)
  have wfs: "\<forall>e. m_a m = Some e \<longrightarrow> wf_dev e" "\<forall>e. m_b m = Some e \<longrightarrow> wf_dev e"
    "\<forall>(l, b) \<in> set (staged m). length b = BLOCK" "cache_ok m"
    using assms(2) unfolding wf_mirror_def by blast+
  have "\<forall>e. m_a m' = Some e \<longrightarrow> wf_dev e"
    using d'(2,6) fd(1) by (cases "m_a m'") (auto simp: rdev_def)
  moreover have "\<forall>e. m_b m' = Some e \<longrightarrow> wf_dev e"
    using d'(2,5,6) fd(1) wfs(2) by (cases "m_a m'") (auto simp: rdev_def)
  moreover have "staged m' = staged m" using d'(3) by (simp add: staged_def)
  moreover have "cache_ok m'" using wfs(4) by (simp add: cache_ok_def d'(4) rc)
  ultimately have "wf_mirror m'" using d'(2) wfs(3) by (simp add: wf_mirror_def)
  moreover have "view m' = view m" using d'(3) rc(1) by (rule view_cong)
  ultimately show ?thesis using rc d'(3) by simp
qed

lemma mirror_read_keeps:
  assumes "mirror_read l m = (r, m')" and "wf_mirror m"
  shows "wf_mirror m' \<and> view m' = view m \<and> rcontent m' = rcontent m \<and> rcount m' = rcount m \<and> m_pending m' = m_pending m"
proof (cases "find_staged m l")
  case None
  then have "on_first (dev_read l) m = (r, m')" using assms by (simp add: mirror_read_def)
  then show ?thesis using assms(2)
    by (rule on_first_keeps) (auto simp: dev_content_def fun_eq_iff dest: dev_read_inv)
next
  case (Some b)
  then show ?thesis using assms by (simp add: mirror_read_def)
qed

lemma mirror_read_ok:
  assumes "mirror_read l m = (Inr b, m')" and "wf_mirror m"
  shows "b = view m l \<and> (find_staged m l = None \<longrightarrow> l < rcount m)"
proof (cases "find_staged m l")
  case None
  obtain d where d: "rdev m = Some d" using assms(2) by (auto simp: wf_mirror_def)
  have "on_first (dev_read l) m = (Inr b, m')" using assms None by (simp add: mirror_read_def)
  then obtain d' where "dev_read l d = (Inr b, d')" using on_first_fields d by blast
  then show ?thesis using d None dev_read_ok by (auto simp: view_def rcontent_def rcount_def)
next
  case (Some c)
  then show ?thesis using assms by (simp add: mirror_read_def view_def)
qed

lemma rdev_wf: "wf_mirror m \<Longrightarrow> rdev m = Some d \<Longrightarrow> wf_dev d"
  by (auto simp: wf_mirror_def rdev_def split: if_splits)

lemma mirror_read_quiet:
  assumes "wf_mirror m" and "quiet_mirror m" and "l < rcount m \<or> find_staged m l \<noteq> None"
  shows "mirror_read l m = (Inr (view m l), m)"
proof (cases "find_staged m l")
  case None
  obtain d where d: "rdev m = Some d" "healthy d"
    using assms(2) by (auto simp: quiet_mirror_def split: option.splits)
  then have "dev_read l d = (Inr (dev_content d l), d)"
    using assms None by (intro dev_read_healthy) (auto simp: rcount_def rdev_wf)
  then show ?thesis using None d on_first_run [OF d(1)]
    by (simp add: mirror_read_def view_def rcontent_def)
next
  case (Some c)
  then show ?thesis by (simp add: mirror_read_def view_def)
qed

subsection \<open>The cached read\<close>

lemma wf_mirror_uses [simp]: "wf_mirror (m\<lparr>m_uses := n\<rparr>) \<longleftrightarrow> wf_mirror m"
  by (simp add: wf_mirror_def cache_ok_def rdev_def rcontent_def rcount_def staged_def)

lemma view_uses [simp]: "view (m\<lparr>m_uses := n\<rparr>) = view m"
  by (rule view_cong) (auto simp: fun_eq_iff rcontent_def rdev_def)

lemma rcontent_cache [simp]:
  "rcontent (m\<lparr>m_cache := c\<rparr>) = rcontent m" "rcount (m\<lparr>m_cache := c\<rparr>) = rcount m"
  "rdev (m\<lparr>m_cache := c\<rparr>) = rdev m"
  by (auto simp: fun_eq_iff rcontent_def rcount_def rdev_def)

lemma view_cache [simp]: "view (m\<lparr>m_cache := c\<rparr>) = view m"
  by (rule view_cong) auto

lemma wf_mirror_cache:
  "wf_mirror m \<Longrightarrow> sorted_wrt (<) (map fst c) \<Longrightarrow>
   \<forall>(l, u, b) \<in> set c. b = rcontent m l \<and> l < rcount m \<Longrightarrow> wf_mirror (m\<lparr>m_cache := c\<rparr>)"
  by (simp add: wf_mirror_def cache_ok_def staged_def)

lemma cache_lookup:
  assumes "wf_mirror m" and "binary_search_by_key l (m_cache m) = Inr i"
  shows "\<exists>u. m_cache m ! i = (l, u, rcontent m l) \<and> i < length (m_cache m) \<and> l < rcount m"
proof -
  have c: "sorted_wrt (<) (map fst (m_cache m))" and all: "\<forall>(l, u, b) \<in> set (m_cache m). b = rcontent m l \<and> l < rcount m"
    using assms(1) by (auto simp: wf_mirror_def cache_ok_def)
  have i: "i < length (m_cache m)" "fst (m_cache m ! i) = l" using binary_search_ok [OF c assms(2)] by auto
  show ?thesis using all nth_mem [OF i(1)] i by (cases "m_cache m ! i") auto
qed

lemma wf_mirror_touch:
  assumes "wf_mirror m" and "binary_search_by_key l (m_cache m) = Inr i" and "m_cache m ! i = (l, u, b)"
  shows "wf_mirror (m\<lparr>m_cache := (m_cache m)[i := (l, n, b)]\<rparr>)"
proof (rule wf_mirror_cache [OF assms(1)])
  let ?c = "(m_cache m)[i := (l, n, b)]"
  obtain u' where at: "m_cache m ! i = (l, u', rcontent m l)" "i < length (m_cache m)" "l < rcount m"
    using cache_lookup [OF assms(1,2)] by blast
  have "map fst ?c = map fst (m_cache m)"
    using at assms(3) by (auto intro!: nth_equalityI simp: nth_list_update)
  then show "sorted_wrt (<) (map fst ?c)" using assms(1) by (simp add: wf_mirror_def cache_ok_def)
  show "\<forall>(l, u, b) \<in> set ?c. b = rcontent m l \<and> l < rcount m"
    using assms at by (auto simp: wf_mirror_def cache_ok_def dest!: set_update_subset_insert [THEN subsetD])
qed

lemma wf_mirror_cache_insert:
  assumes "wf_mirror m" and "b = rcontent m l" and "l < rcount m" and "l \<notin> fst ` set (m_cache m)"
  shows "wf_mirror (cache_insert l b m)"
proof -
  let ?c = "if length (m_cache m) \<ge> CACHE_BLOCKS then remove_nth (oldest_use (m_cache m)) (m_cache m) else m_cache m"
  have s: "sorted_wrt (<) (map fst ?c)"
    using assms(1) by (auto simp: wf_mirror_def cache_ok_def intro: sorted_remove_nth)
  have sub: "set ?c \<subseteq> set (m_cache m)" by (simp add: set_remove_nth)
  obtain i where i: "binary_search_by_key l ?c = Inl i"
  proof (cases "binary_search_by_key l ?c")
    case (Inr j)
    then have "l \<in> fst ` set ?c" using binary_search_ok [OF s Inr] by (metis image_eqI nth_mem)
    then show ?thesis using sub assms(4) by blast
  qed
  have eq: "cache_insert l b m = m\<lparr>m_cache := insert_nth i (l, m_uses m, b) ?c\<rparr>"
    using i by (simp add: cache_insert_def Let_def)
  show ?thesis unfolding eq
  proof (rule wf_mirror_cache [OF assms(1)])
    show "sorted_wrt (<) (map fst (insert_nth i (l, m_uses m, b) ?c))"
      using binary_search_err [OF s i] by (intro sorted_insert_nth [OF s]) auto
    show "\<forall>(l, u, b) \<in> set (insert_nth i (l, m_uses m, b) ?c). b = rcontent m l \<and> l < rcount m"
      using assms sub unfolding set_insert_nth by (auto simp: wf_mirror_def cache_ok_def)
  qed
qed

lemma cache_insert_fields [simp]:
  "m_pending (cache_insert l b m) = m_pending m" "rcontent (cache_insert l b m) = rcontent m"
  "rcount (cache_insert l b m) = rcount m" "view (cache_insert l b m) = view m"
  by (simp_all add: cache_insert_def Let_def)

lemma rcontent_uses [simp]:
  "rcontent (m\<lparr>m_uses := n\<rparr>) = rcontent m" "rcount (m\<lparr>m_uses := n\<rparr>) = rcount m"
  by (auto simp: fun_eq_iff rcontent_def rcount_def rdev_def)

text \<open>The cache answers with what the device holds; the result is the plain read's.\<close>

lemma read_cached_spec:
  assumes "read_cached l m = (r, m')" and wf: "wf_mirror m"
  shows "wf_mirror m' \<and> view m' = view m \<and> rcontent m' = rcontent m \<and> rcount m' = rcount m \<and> m_pending m' = m_pending m
    \<and> (\<forall>b. r = Inr b \<longrightarrow> b = view m l \<and> (find_staged m l = None \<longrightarrow> l < rcount m))"
proof (cases "find_staged m l")
  case (Some b)
  then show ?thesis using assms by (auto simp: read_cached_def view_def)
next
  case None
  let ?m = "m\<lparr>m_uses := m_uses m + 1\<rparr>"
  have wf1: "wf_mirror ?m" using wf by simp
  show ?thesis
  proof (cases "binary_search_by_key l (m_cache m)")
    case (Inr i)
    then obtain u where u: "m_cache m ! i = (l, u, rcontent m l)" "l < rcount m"
      using cache_lookup [OF wf] by blast
    then have "m' = ?m\<lparr>m_cache := (m_cache ?m)[i := (l, m_uses ?m, rcontent m l)]\<rparr>" "r = Inr (rcontent m l)"
      using assms(1) None Inr by (auto simp: read_cached_def Let_def)
    then show ?thesis using wf_mirror_touch [OF wf1] Inr u None
      by (auto simp: view_def)
  next
    case (Inl i)
    then have "bindE (mirror_read l) (\<lambda>b. bindE (modE (cache_insert l b)) (\<lambda>_. retE b)) ?m = (r, m')"
      using assms(1) None by (simp add: read_cached_def Let_def)
    then show ?thesis
    proof (cases rule: bindE_cases)
      case (err e)
      then show ?thesis using mirror_read_keeps [OF _ wf1] by auto
    next
      case (ok b m1)
      then have m': "m' = cache_insert l b m1" "r = Inr b" by (auto simp: run_simps)
      have k: "wf_mirror m1" "view m1 = view m" "rcontent m1 = rcontent m" "rcount m1 = rcount m" "m_pending m1 = m_pending m"
        using mirror_read_keeps [OF ok(1) wf1] by auto
      have b: "b = view m l" "l < rcount m"
        using mirror_read_ok [OF ok(1) wf1] None by (auto simp: find_staged_def)
      have "m_cache m1 = m_cache m"
        using ok(1) None by (auto simp: mirror_read_def find_staged_def on_first_def on_a_def on_b_def split: option.splits if_splits prod.splits)
      moreover have "l \<notin> fst ` set (m_cache m)"
      proof -
        have s: "sorted_wrt (<) (map fst (m_cache m))" using wf by (simp add: wf_mirror_def cache_ok_def)
        have "set (m_cache m) = set (take i (m_cache m)) \<union> set (drop i (m_cache m))"
          by (metis append_take_drop_id set_append)
        then show ?thesis using binary_search_err [OF s Inl] by auto
      qed
      ultimately have "wf_mirror m'" unfolding m'
        using k b None by (intro wf_mirror_cache_insert) (auto simp: view_def)
      then show ?thesis using m' k b by simp
    qed
  qed
qed

end
