(* ===== verification/Mirror_Writes.thy ===== *)
theory Mirror_Writes
  imports Mirror_Props
begin

text \<open>
  The write half of the mirror's contract. A verified write that returns success has put exactly
  its blocks in front of every later read and nothing else; draining the staged appends changes
  no read; a failing operation leaves every position outside its batch alone. The layers above
  rely on the locales \<open>store_reader\<close> and \<open>verified_store\<close>.
\<close>

section \<open>The batch a drain writes\<close>

lemma map_of_rev_filter:
  "map_of (rev ys) k = (let f = filter (\<lambda>p. fst p = k) ys in if f = [] then None else Some (snd (last f)))"
proof (induction ys rule: rev_induct)
  case Nil
  then show ?case by simp
next
  case (snoc y ys)
  then show ?case by (cases y) (auto simp: Let_def)
qed

lemma map_of_rev_sort: "map_of (rev (sort_key fst ys)) k = map_of (rev ys) k"
  unfolding map_of_rev_filter sort_key_stable by (rule refl)

lemma set_dedup_last: "set (dedup_last ys) \<subseteq> set ys"
  by (induction ys rule: dedup_last.induct) auto

lemma dedup_last_distinct: "sorted (map fst ys) \<Longrightarrow> distinct (map fst (dedup_last ys))"
proof (induction ys rule: dedup_last.induct)
  case (3 x y zs)
  have "fst x \<notin> fst ` set (dedup_last (y # zs))" if "fst x \<noteq> fst y"
    using that 3(3) set_dedup_last [of "y # zs"] by fastforce
  then show ?case using 3 by (auto simp del: set_map simp: set_map [symmetric])
qed auto

lemma map_of_rev_Cons: "map_of (rev (x # ys)) k = (case map_of (rev ys) k of None \<Rightarrow> if fst x = k then Some (snd x) else None | Some v \<Rightarrow> Some v)"
  by (cases x) (auto simp: map_add_def split: option.splits)

lemma map_of_rev_None: "map_of (rev ys) k = None \<longleftrightarrow> k \<notin> fst ` set ys"
  by (simp add: map_of_eq_None_iff)

lemma map_of_dedup_last: "sorted (map fst ys) \<Longrightarrow> map_of (dedup_last ys) k = map_of (rev ys) k"
proof (induction ys rule: dedup_last.induct)
  case (3 x y zs)
  show ?case
  proof (cases "fst x = fst y")
    case True
    then have "map_of (rev (x # y # zs)) k = map_of (rev (y # zs)) k"
      using map_of_rev_None [of "y # zs" k] unfolding map_of_rev_Cons [of x]
      by (cases "map_of (rev (y # zs)) k") (auto simp del: rev.simps)
    then show ?thesis using 3 True by simp
  next
    case False
    have "fst x = k \<Longrightarrow> map_of (rev (y # zs)) k = None"
      using 3(3) False unfolding map_of_rev_None by auto
    then have "map_of (rev (x # y # zs)) k = (if fst x = k then Some (snd x) else map_of (rev (y # zs)) k)"
      unfolding map_of_rev_Cons [of x] by (auto simp del: rev.simps split: option.split)
    then show ?thesis using 3 False by (cases x) auto
  qed
qed auto

definition drain_batch :: "mirror \<Rightarrow> (nat \<times> block) list" where
  "drain_batch m = dedup_last (sort_key fst (staged m))"

lemma drain_batch_facts:
  shows "distinct (map fst (drain_batch m))" and "set (drain_batch m) \<subseteq> set (staged m)"
    and "map_of (drain_batch m) k = find_staged m k"
proof -
  show "distinct (map fst (drain_batch m))" by (simp add: drain_batch_def dedup_last_distinct)
  show "set (drain_batch m) \<subseteq> set (staged m)" using set_dedup_last by (fastforce simp: drain_batch_def)
  show "map_of (drain_batch m) k = find_staged m k"
    by (simp add: drain_batch_def map_of_dedup_last map_of_rev_sort find_staged_eq)
qed

section \<open>A device write under the failure matrix\<close>

text \<open>\<open>writes_only f K g\<close>: whatever \<open>f\<close> does to a device, it does to the positions \<open>K\<close>, and when
  it reports success they hold \<open>g\<close>.\<close>

definition writes_only :: "(filedev, unit) op \<Rightarrow> nat set \<Rightarrow> (nat \<Rightarrow> block) \<Rightarrow> bool" where
  "writes_only f K g \<longleftrightarrow> (\<forall>d r d'. wf_dev d \<longrightarrow> f d = (r, d') \<longrightarrow>
     wf_dev d' \<and> fd_blocks d' = fd_blocks d \<and> (\<forall>k. k \<notin> K \<longrightarrow> dev_content d' k = dev_content d k)
     \<and> (\<forall>u. r = Inr u \<longrightarrow> (\<forall>k \<in> K. dev_content d' k = g k)))"

lemma writes_onlyD:
  assumes "writes_only f K g" and "f d = (r, d')" and "wf_dev d"
  shows "wf_dev d'" and "fd_blocks d' = fd_blocks d" and "k \<notin> K \<Longrightarrow> dev_content d' k = dev_content d k"
    and "r = Inr u \<Longrightarrow> k \<in> K \<Longrightarrow> dev_content d' k = g k"
  using assms unfolding writes_only_def by blast+

lemma dev_write_one_writes:
  assumes "length b = BLOCK"
  shows "writes_only (dev_write_one l b) {l} (\<lambda>_. b)"
  unfolding writes_only_def dev_write_one_def
  using fdev.write_one_frame [OF _ _ assms] fdev.write_one_verified [OF _ _ assms] by fastforce

lemma dev_write_each_writes:
  assumes bl: "\<forall>(l, b) \<in> set bs. length b = BLOCK" and "distinct (map fst bs)"
  shows "writes_only (dev_write_each bs) (fst ` set bs) (\<lambda>k. the (map_of bs k))"
  unfolding writes_only_def dev_write_each_def
proof (intro allI impI)
  fix d r d'
  assume wf: "wf_dev d" and run: "write_each dev_read dev_write dev_flush dev_write_run dev_read_run bs d = (r, d')"
  have frame: "wf_dev d' \<and> fd_blocks d' = fd_blocks d \<and> dev_content d' k = dev_content d k"
    if "k \<notin> fst ` set bs" for k using fdev_runs.write_each_frame [OF run wf bl that] .
  obtain k where "k \<notin> fst ` set bs" using ex_new_if_finite [of "fst ` set bs"] by auto
  then have "wf_dev d' \<and> fd_blocks d' = fd_blocks d" using frame by blast
  moreover have "\<forall>k \<in> fst ` set bs. dev_content d' k = the (map_of bs k)" if "r = Inr u" for u
  proof
    fix k assume "k \<in> fst ` set bs"
    then obtain b where "map_of bs k = Some b"
      by (metis map_of_eq_None_iff option.exhaust)
    then show "dev_content d' k = the (map_of bs k)"
      using fdev_runs.write_each_verified [OF run [unfolded that] wf assms] by simp
  qed
  ultimately show "wf_dev d' \<and> fd_blocks d' = fd_blocks d
      \<and> (\<forall>k. k \<notin> fst ` set bs \<longrightarrow> dev_content d' k = dev_content d k)
      \<and> (\<forall>u. r = Inr u \<longrightarrow> (\<forall>k \<in> fst ` set bs. dev_content d' k = the (map_of bs k)))"
    using frame by blast
qed

text \<open>What a write through the mirror guarantees, from a well-formed mirror whose cache does not
  hold the positions about to be written.\<close>

definition wrote :: "mirror \<Rightarrow> nat set \<Rightarrow> (nat \<Rightarrow> block) \<Rightarrow> unit result \<Rightarrow> mirror \<Rightarrow> bool" where
  "wrote m K g r m' \<longleftrightarrow> wf_mirror m' \<and> m_pending m' = m_pending m \<and> rcount m' = rcount m
     \<and> (\<forall>k. k \<notin> K \<longrightarrow> rcontent m' k = rcontent m k)
     \<and> (\<forall>u. r = Inr u \<longrightarrow> (\<forall>k \<in> K. rcontent m' k = g k))"

lemma wroteD: "wrote m K g (Inr u) m' \<Longrightarrow> k \<in> K \<Longrightarrow> rcontent m' k = g k"
  by (simp add: wrote_def)

lemma wf_mirror_swap:
  assumes "wf_mirror m" and "m_pending m' = m_pending m" and "m_cache m' = m_cache m"
    and "rdev m' = Some d" and "\<forall>e. m_a m' = Some e \<longrightarrow> wf_dev e" and "\<forall>e. m_b m' = Some e \<longrightarrow> wf_dev e"
    and "fst ` set (m_cache m) \<inter> K = {}" and "rcount m' = rcount m"
    and "\<And>k. k \<notin> K \<Longrightarrow> rcontent m' k = rcontent m k"
  shows "wf_mirror m'"
proof -
  have "cache_ok m" "\<forall>(l, b) \<in> set (staged m). length b = BLOCK" using assms(1) by (auto simp: wf_mirror_def)
  moreover from this have "cache_ok m'" using assms(3,7,8,9) by (fastforce simp: cache_ok_def)
  moreover have "staged m' = staged m" using assms(2) by (simp add: staged_def)
  ultimately show ?thesis using assms(4-6) by (simp add: wf_mirror_def)
qed

lemma wf_mirror_devs:
  "wf_mirror m \<Longrightarrow> m_a m = Some d \<Longrightarrow> wf_dev d" "wf_mirror m \<Longrightarrow> m_b m = Some d \<Longrightarrow> wf_dev d"
  by (auto simp: wf_mirror_def)

lemma wrote_intro:
  assumes "wf_mirror m" and "fst ` set (m_cache m) \<inter> K = {}" and "writes_only f K g"
    and "rdev m = Some d" and "f d = (q, d')" and "rdev m' = Some d'"
    and "m_pending m' = m_pending m" and "m_cache m' = m_cache m"
    and "\<forall>e. m_a m' = Some e \<longrightarrow> wf_dev e" and "\<forall>e. m_b m' = Some e \<longrightarrow> wf_dev e"
    and "\<And>u. r = Inr u \<Longrightarrow> \<exists>v. q = Inr v"
  shows "wrote m K g r m'"
proof -
  have wd: "wf_dev d" using rdev_wf assms(1,4) by blast
  note w = writes_onlyD [OF assms(3,5) wd]
  have rc: "rcount m' = rcount m" "\<And>k. k \<notin> K \<Longrightarrow> rcontent m' k = rcontent m k"
    using w(2,3) assms(4,6) by (auto simp: rcount_def rcontent_def)
  have "wf_mirror m'" using wf_mirror_swap [OF assms(1,7,8,6,9,10,2) rc] .
  moreover have "\<forall>k \<in> K. rcontent m' k = g k" if "r = Inr u" for u
    using assms(11) [OF that] w(4) assms(6) by (auto simp: rcontent_def)
  ultimately show ?thesis using rc assms(7) by (auto simp: wrote_def)
qed

lemma primary_then_secondary_wrote:
  assumes run: "primary_then_secondary f m = (r, m')" and wf: "wf_mirror m"
    and c: "fst ` set (m_cache m) \<inter> K = {}" and f: "writes_only f K g"
  shows "wrote m K g r m'"
proof (cases "m_a m")
  case None
  then obtain d where d: "m_b m = Some d" using wf by (auto simp: wf_mirror_def rdev_def)
  obtain q d' where fd: "f d = (q, d')" by (cases "f d")
  have m': "m' = m\<lparr>m_b := Some d'\<rparr>" "r = q"
    using run None d fd by (auto simp: primary_then_secondary_def on_b_def)
  show ?thesis
    using None d m' writes_onlyD(1) [OF f fd] wf_mirror_devs [OF wf]
    by (intro wrote_intro [OF wf c f _ fd]) (auto simp: rdev_def)
next
  case (Some a)
  obtain q a' where fa: "f a = (q, a')" by (cases "f a")
  have wa: "wf_dev a'" using writes_onlyD(1) [OF f fa] wf_mirror_devs(1) [OF wf Some] .
  have on: "on_a f m = (q, m\<lparr>m_a := Some a'\<rparr>)" using Some fa by (simp add: on_a_def)
  have "m_a m' = Some a' \<and> m_pending m' = m_pending m \<and> m_cache m' = m_cache m
      \<and> (\<forall>e. m_b m' = Some e \<longrightarrow> wf_dev e) \<and> (\<forall>u. r = Inr u \<longrightarrow> (\<exists>v. q = Inr v))"
  proof (cases q)
    case (Inl e)
    then show ?thesis using run Some on wf_mirror_devs(2) [OF wf]
      by (auto simp: primary_then_secondary_def bindE_def)
  next
    case (Inr v)
    have sec: "secondary f (m\<lparr>m_a := Some a'\<rparr>) = (r, m')"
      using run Some on Inr by (auto simp: primary_then_secondary_def bindE_def)
    show ?thesis
    proof (cases "m_b m")
      case None
      then show ?thesis using sec Inr by (auto simp: secondary_def)
    next
      case (Some b)
      obtain p b' where fb: "f b = (p, b')" by (cases "f b")
      have "wf_dev b'" using writes_onlyD(1) [OF f fb] wf_mirror_devs(2) [OF wf Some] .
      then show ?thesis using sec Inr Some fb
        by (cases p) (auto simp: secondary_def drop_secondary_def)
    qed
  qed
  then show ?thesis using Some wa
    by (intro wrote_intro [OF wf c f _ fa]) (auto simp: rdev_def)
qed

lemma both_devices_wrote:
  assumes run: "both_devices f m = (r, m')" and wf: "wf_mirror m"
    and c: "fst ` set (m_cache m) \<inter> K = {}" and f: "writes_only f K g"
  shows "wrote m K g r m'"
proof (cases "m_a m = None \<or> m_b m = None")
  case True
  then have "primary_then_secondary f m = (r, m')" using run by (auto simp: both_devices_def split: option.splits)
  then show ?thesis using wf c f by (rule primary_then_secondary_wrote)
next
  case False
  then obtain a b where ab: "m_a m = Some a" "m_b m = Some b" by auto
  obtain q a' where fa: "f a = (q, a')" by (cases "f a")
  obtain p b' where fb: "f b = (p, b')" by (cases "f b")
  have "wf_dev a'" "wf_dev b'"
    using writes_onlyD(1) [OF f fa] writes_onlyD(1) [OF f fb] wf_mirror_devs [OF wf] ab by auto
  then show ?thesis using run ab fa fb
    by (intro wrote_intro [OF wf c f _ fa])
       (auto simp: rdev_def both_devices_def drop_secondary_def Let_def split: sum.splits)
qed

section \<open>Draining and the verified writes\<close>

lemma forget_all_wf:
  assumes "wf_mirror m"
  shows "wf_mirror (fold (\<lambda>(l, _). forget l) bs m)"
    and "fst ` set (m_cache (fold (\<lambda>(l, _). forget l) bs m)) \<inter> fst ` set bs = {}"
proof -
  let ?n = "fold (\<lambda>(l, _). forget l) bs m"
  have c: "cache_ok m" using assms by (simp add: wf_mirror_def)
  have fc: "sorted_wrt (<) (map fst (m_cache ?n))" "set (m_cache ?n) = {e \<in> set (m_cache m). fst e \<notin> fst ` set bs}"
    using forget_all_cache [of m bs] c by (auto simp: cache_ok_def)
  have "rcontent ?n = rcontent m" "rcount ?n = rcount m" "rdev ?n = rdev m" "staged ?n = staged m"
    by (auto simp: rcontent_def rcount_def rdev_def fun_eq_iff staged_def)
  then show "wf_mirror ?n" using assms c fc by (auto simp: wf_mirror_def cache_ok_def)
  show "fst ` set (m_cache ?n) \<inter> fst ` set bs = {}" using fc(2) by auto
qed

lemma forget_all_view [simp]:
  "rcontent (fold (\<lambda>(l, _). forget l) bs m) = rcontent m" "rcount (fold (\<lambda>(l, _). forget l) bs m) = rcount m"
  "rdev (fold (\<lambda>(l, _). forget l) bs m) = rdev m"
  by (auto simp: rcontent_def rcount_def rdev_def fun_eq_iff)

lemma batch_now_wrote:
  assumes "write_verified_batch_now bs m = (r, m')" and wf: "wf_mirror m"
    and "\<forall>(l, b) \<in> set bs. length b = BLOCK" and "distinct (map fst bs)"
  shows "wrote m (fst ` set bs) (\<lambda>k. the (map_of bs k)) r m'"
proof -
  let ?n = "fold (\<lambda>(l, _). forget l) bs m"
  note f = dev_write_each_writes [OF assms(3,4)] and n = forget_all_wf [OF wf, of bs]
  have "both_devices (dev_write_each bs) ?n = (r, m') \<or> primary_then_secondary (dev_write_each bs) ?n = (r, m')"
    using assms(1) by (auto simp: write_verified_batch_now_def run_simps split: if_splits)
  then have "wrote ?n (fst ` set bs) (\<lambda>k. the (map_of bs k)) r m'"
    using both_devices_wrote [OF _ n f] primary_then_secondary_wrote [OF _ n f] by blast
  then show ?thesis by (simp add: wrote_def)
qed

lemma no_pending_view: "m_pending m = [] \<Longrightarrow> view m = rcontent m"
  by (rule ext) (simp add: view_def find_staged_eq)

lemma drain_spec:
  assumes run: "drain m = (r, m')" and wf: "wf_mirror m"
  shows "wf_mirror m' \<and> m_pending m' = [] \<and> rcount m' = rcount m
    \<and> (\<forall>k. find_staged m k = None \<longrightarrow> view m' k = view m k) \<and> (\<forall>u. r = Inr u \<longrightarrow> view m' = view m)"
proof (cases "m_pending m = []")
  case True
  then show ?thesis using assms by (auto simp: drain_def)
next
  case False
  let ?m = "m\<lparr>m_pending := []\<rparr>" and ?b = "drain_batch m"
  have rc: "rcontent ?m = rcontent m" "rcount ?m = rcount m" "rdev ?m = rdev m"
    by (auto simp: rcontent_def rcount_def rdev_def fun_eq_iff)
  have wf1: "wf_mirror ?m" using wf by (simp add: wf_mirror_def cache_ok_def rc)
  have bl: "\<forall>(l, b) \<in> set ?b. length b = BLOCK"
    using wf drain_batch_facts(2) [of m] by (fastforce simp: wf_mirror_def)
  have w: "wrote ?m (fst ` set ?b) (\<lambda>k. the (map_of ?b k)) r m'"
    using run False wf1 bl drain_batch_facts(1)
    by (intro batch_now_wrote) (auto simp: drain_def drain_batch_def)
  then have p: "wf_mirror m'" "m_pending m' = []" "rcount m' = rcount m" by (auto simp: wrote_def rc)
  have key: "k \<in> fst ` set ?b \<longleftrightarrow> find_staged m k \<noteq> None" for k
    using drain_batch_facts(3) [of m k] map_of_eq_None_iff [of ?b k] by auto
  have out: "view m' k = view m k" if "find_staged m k = None" for k
    using w that key [of k] by (simp add: no_pending_view p(2) wrote_def view_def rc)
  have "view m' k = view m k" if "r = Inr u" for u k
  proof (cases "find_staged m k")
    case None
    then show ?thesis by (rule out)
  next
    case (Some b)
    then have "rcontent m' k = the (map_of ?b k)" using w that key [of k] by (intro wroteD) auto
    then show ?thesis using Some drain_batch_facts(3) [of m k] by (simp add: no_pending_view p(2) view_def)
  qed
  then show ?thesis using p out by blast
qed

lemma forget_wf:
  assumes "wf_mirror m"
  shows "wf_mirror (forget l m)" and "fst ` set (m_cache (forget l m)) \<inter> {l} = {}"
    and "rcontent (forget l m) = rcontent m" and "rcount (forget l m) = rcount m"
  using forget_all_wf [OF assms, of "[(l, undefined)]"] forget_all_view [of "[(l, undefined)]" m] by simp_all

text \<open>A verified write that succeeds changes the view at its own position only.\<close>

lemma write_verified_spec:
  assumes run: "write_verified l b m = (r, m')" and wf: "wf_mirror m" and b: "length b = BLOCK"
  shows "wf_mirror m' \<and> m_pending m' = [] \<and> rcount m' = rcount m
    \<and> (\<forall>k. find_staged m k = None \<longrightarrow> k \<noteq> l \<longrightarrow> view m' k = view m k)
    \<and> (\<forall>u. r = Inr u \<longrightarrow> view m' = (view m)(l := b))"
  using run unfolding write_verified_def
proof (cases rule: bindE_cases)
  case (err e)
  then show ?thesis using drain_spec [OF err(1) wf] by auto
next
  case (ok u m1)
  note d = drain_spec [OF ok(1) wf]
  have wf1: "wf_mirror m1" using d by blast
  note n = forget_wf [OF wf1, of l]
  have "primary_then_secondary (dev_write_one l b) (forget l m1) = (r, m')"
    using ok(2) by (simp add: bindE_def modE_def)
  then have w: "wrote (forget l m1) {l} (\<lambda>_. b) r m'"
    by (rule primary_then_secondary_wrote [OF _ n(1,2) dev_write_one_writes [OF b]])
  then have p: "wf_mirror m'" "m_pending m' = []" "rcount m' = rcount m"
    using d n by (auto simp: wrote_def)
  moreover have out: "view m' k = view m k" if "k \<noteq> l" for k
    using w d n that by (auto simp: wrote_def no_pending_view fun_eq_iff)
  moreover have "view m' = (view m)(l := b)" if "r = Inr v" for v
    using w out that by (auto simp: wrote_def no_pending_view p(2))
  ultimately show ?thesis by auto
qed

lemma write_verified_batch_spec:
  assumes run: "write_verified_batch bs m = (r, m')" and wf: "wf_mirror m"
    and bl: "\<forall>(l, b) \<in> set bs. length b = BLOCK" and dist: "distinct (map fst bs)"
  shows "wf_mirror m' \<and> m_pending m' = [] \<and> rcount m' = rcount m
    \<and> (\<forall>k. find_staged m k = None \<longrightarrow> k \<notin> fst ` set bs \<longrightarrow> view m' k = view m k)
    \<and> (\<forall>u. r = Inr u \<longrightarrow> (\<forall>k. view m' k = (case map_of bs k of Some b \<Rightarrow> b | None \<Rightarrow> view m k)))"
  using run unfolding write_verified_batch_def
proof (cases rule: bindE_cases)
  case (err e)
  then show ?thesis using drain_spec [OF err(1) wf] by auto
next
  case (ok u m1)
  note d = drain_spec [OF ok(1) wf]
  have wf1: "wf_mirror m1" using d by blast
  have w: "wrote m1 (fst ` set bs) (\<lambda>k. the (map_of bs k)) r m'"
    by (rule batch_now_wrote [OF ok(2) wf1 bl dist])
  then have p: "wf_mirror m'" "m_pending m' = []" "rcount m' = rcount m"
    using d by (auto simp: wrote_def)
  have out: "view m' k = view m k" if "k \<notin> fst ` set bs" for k
    using w d that p(2) by (auto simp: wrote_def no_pending_view fun_eq_iff)
  moreover have "view m' k = (case map_of bs k of Some b \<Rightarrow> b | None \<Rightarrow> view m k)" if "r = Inr v" for v k
  proof (cases "map_of bs k")
    case None
    then show ?thesis using out [of k] by (simp add: map_of_eq_None_iff [symmetric])
  next
    case (Some b)
    moreover from this have "k \<in> fst ` set bs" by (metis map_of_eq_None_iff option.distinct(1))
    ultimately show ?thesis using w that by (auto simp: wrote_def no_pending_view p(2))
  qed
  ultimately show ?thesis using p by auto
qed

section \<open>Staging\<close>

text \<open>A staged append reads as staged, nothing else changes, and the batch structure is not seen.\<close>

lemma staged_reserve [simp]: "staged (reserve_staged n m) = staged m"
  by (simp add: staged_def reserve_staged_def)

lemma staged_stage_one: "staged (stage_one l b m) = staged m @ [(l, b)]"
proof -
  let ?p = "m_pending m"
  have "staged m = concat (map snd (butlast ?p)) @ snd (last ?p)" if "?p \<noteq> []"
    using that by (cases ?p rule: rev_cases) (simp_all add: staged_def)
  then show ?thesis by (auto simp: stage_one_def Let_def staged_def)
qed

lemma staged_stage: "staged (stage bs m) = staged m @ bs"
  by (simp add: stage_def staged_def)

lemma find_staged_snoc:
  "staged m' = staged m @ [(l, b)] \<Longrightarrow> find_staged m' k = (if k = l then Some b else find_staged m k)"
  by (simp add: find_staged_eq)

lemma stage_one_dev:
  "rcontent (stage_one l b m) = rcontent (forget l m)" "rcount (stage_one l b m) = rcount (forget l m)"
  "rdev (stage_one l b m) = rdev (forget l m)" "m_a (stage_one l b m) = m_a m" "m_b (stage_one l b m) = m_b m"
  "m_cache (stage_one l b m) = m_cache (forget l m)" "m_events (stage_one l b m) = m_events m"
  by (auto simp: stage_one_def Let_def rcontent_def rcount_def rdev_def fun_eq_iff)

lemma stage_one_spec:
  assumes "wf_mirror m" and "length b = BLOCK"
  shows "wf_mirror (stage_one l b m)" and "view (stage_one l b m) = (view m)(l := b)"
    and "rcount (stage_one l b m) = rcount m" and "quiet_mirror (stage_one l b m) = quiet_mirror m"
proof -
  note n = forget_wf [OF assms(1), of l] and st = staged_stage_one [of l b m]
  have rd: "rdev (forget l m) = rdev m" by (simp add: rdev_def)
  show "wf_mirror (stage_one l b m)"
    using n assms by (auto simp: wf_mirror_def cache_ok_def stage_one_dev st rd)
  show "view (stage_one l b m) = (view m)(l := b)"
    by (rule ext) (simp add: view_def find_staged_snoc [OF st] stage_one_dev n split: option.split)
  show "rcount (stage_one l b m) = rcount m" by (simp add: stage_one_dev n)
  show "quiet_mirror (stage_one l b m) = quiet_mirror m" by (simp add: quiet_mirror_def stage_one_dev rd)
qed

lemma reserve_staged_spec [simp]:
  "wf_mirror (reserve_staged n m) = wf_mirror m" "view (reserve_staged n m) = view m"
  "rcount (reserve_staged n m) = rcount m" "quiet_mirror (reserve_staged n m) = quiet_mirror m"
proof -
  have ab: "m_a (reserve_staged n m) = m_a m" "m_b (reserve_staged n m) = m_b m"
    "m_cache (reserve_staged n m) = m_cache m"
    by (simp_all add: reserve_staged_def)
  have rd: "rdev (reserve_staged n m) = rdev m" unfolding rdev_def ab ..
  then have rc: "rcontent (reserve_staged n m) = rcontent m" "rcount (reserve_staged n m) = rcount m"
    by (auto simp: rcontent_def rcount_def fun_eq_iff)
  show "wf_mirror (reserve_staged n m) = wf_mirror m" by (simp add: wf_mirror_def cache_ok_def rd ab rc)
  show "view (reserve_staged n m) = view m"
    by (rule ext) (simp add: view_def find_staged_eq rc split: option.split)
  show "rcount (reserve_staged n m) = rcount m" by (rule rc)
  show "quiet_mirror (reserve_staged n m) = quiet_mirror m" by (simp add: quiet_mirror_def rd)
qed

section \<open>The interface of the layers above\<close>

text \<open>\<open>readable m l\<close>: a read of \<open>l\<close> cannot fail.\<close>

definition readable :: "mirror \<Rightarrow> nat \<Rightarrow> bool" where
  "readable m l \<longleftrightarrow> quiet_mirror m \<and> (l < rcount m \<or> find_staged m l \<noteq> None)"

locale store_reader =
  fixes rd :: "nat \<Rightarrow> ('m, block) op"
    and vw :: "'m \<Rightarrow> nat \<Rightarrow> block"
    and okm :: "'m \<Rightarrow> bool"
    and avail :: "'m \<Rightarrow> nat \<Rightarrow> bool"
  assumes rd_keeps: "okm m \<Longrightarrow> rd l m = (r, m') \<Longrightarrow> okm m' \<and> vw m' = vw m"
    and rd_ok: "okm m \<Longrightarrow> rd l m = (Inr b, m') \<Longrightarrow> b = vw m l"
    and rd_avail: "okm m \<Longrightarrow> avail m l \<Longrightarrow> \<exists>m'. rd l m = (Inr (vw m l), m') \<and> (\<forall>k. avail m k \<longrightarrow> avail m' k)"
begin

text \<open>A read followed by a continuation: the continuation gets the view.\<close>

lemma rd_bind_ok:
  assumes "bindE (rd l) f m = (Inr y, m')" and "okm m"
  obtains m1 where "okm m1" "vw m1 = vw m" "f (vw m l) m1 = (Inr y, m')"
proof -
  from assms(1) obtain b m1 where "rd l m = (Inr b, m1)" "f b m1 = (Inr y, m')" by (rule bindE_InrE)
  then show thesis using that [of m1] rd_keeps [OF assms(2)] rd_ok [OF assms(2)] by auto
qed

lemma rd_bind_avail:
  assumes "okm m" and "avail m l"
  obtains m1 where "okm m1" "vw m1 = vw m" "\<And>k. avail m k \<Longrightarrow> avail m1 k" "bindE (rd l) f m = f (vw m l) m1"
proof -
  obtain m1 where "rd l m = (Inr (vw m l), m1)" "\<And>k. avail m k \<Longrightarrow> avail m1 k" using rd_avail [OF assms] by blast
  then show thesis using that [of m1] rd_keeps [OF assms(1)] by (auto simp: bindE_def)
qed

lemma rd_many_ok:
  assumes "mapE rd ls m = (Inr bs, m')" and "okm m"
  shows "bs = map (vw m) ls"
  using assms(1)
  by (rule mapE_ok [where P = "\<lambda>m'. okm m' \<and> vw m' = vw m"]) (use assms(2) in \<open>auto dest: rd_keeps rd_ok\<close>)

lemma rd_many_keeps:
  assumes "mapE rd ls m = (r, m')" and "okm m"
  shows "okm m' \<and> vw m' = vw m"
  using assms(1)
  by (rule mapE_invariant [where P = "\<lambda>m'. okm m' \<and> vw m' = vw m"]) (use assms(2) in \<open>auto dest: rd_keeps\<close>)

end

locale verified_store = store_reader rd vw okm avail
  for rd :: "nat \<Rightarrow> ('m, block) op"
    and vw :: "'m \<Rightarrow> nat \<Rightarrow> block"
    and okm :: "'m \<Rightarrow> bool"
    and avail :: "'m \<Rightarrow> nat \<Rightarrow> bool" +
  fixes put :: "nat \<Rightarrow> block \<Rightarrow> ('m, unit) op"
  assumes put_keeps: "okm m \<Longrightarrow> length b = BLOCK \<Longrightarrow> put l b m = (r, m') \<Longrightarrow> okm m'"
    and put_ok: "okm m \<Longrightarrow> length b = BLOCK \<Longrightarrow> put l b m = (Inr u, m') \<Longrightarrow> vw m' = (vw m)(l := b)"
begin

text \<open>What was put is what is read, with any reads in between.\<close>

lemma put_then_read:
  assumes "put l b m = (Inr u, m1)" and "mapE rd ks m1 = (r, m2)" and "rd l m2 = (Inr c, m3)"
    and "okm m" and "length b = BLOCK"
  shows "c = b"
  using put_ok [OF assms(4,5,1)] put_keeps [OF assms(4,5,1)] rd_many_keeps [OF assms(2)] rd_ok [OF _ assms(3)]
  by simp

end

lemma find_staged_uses [simp]: "find_staged (m\<lparr>m_uses := n\<rparr>) = find_staged m"
  by (simp add: fun_eq_iff find_staged_def)

lemma read_cached_avail:
  assumes "wf_mirror m" and "readable m l"
  shows "\<exists>m'. read_cached l m = (Inr (view m l), m') \<and> (\<forall>k. readable m k \<longrightarrow> readable m' k)"
proof -
  have q: "quiet_mirror m" using assms(2) by (simp add: readable_def)
  have keep: "readable m' k" if "readable m k" "m_pending m' = m_pending m" "m_a m' = m_a m" "m_b m' = m_b m" for m' k
  proof -
    have "rdev m' = rdev m" unfolding rdev_def that ..
    then show ?thesis using that(1) find_staged_cong [OF that(2)] by (simp add: readable_def quiet_mirror_def rcount_def)
  qed
  show ?thesis
  proof (cases "find_staged m l")
    case (Some b)
    then show ?thesis by (auto simp: read_cached_def view_def)
  next
    case None
    let ?m = "m\<lparr>m_uses := m_uses m + 1\<rparr>"
    have l: "l < rcount m" using assms(2) None by (simp add: readable_def)
    have "rdev ?m = rdev m" by (simp add: rdev_def)
    then have q1: "quiet_mirror ?m" using q by (simp add: quiet_mirror_def)
    show ?thesis
    proof (cases "binary_search_by_key l (m_cache m)")
      case (Inr i)
      then obtain u where "m_cache m ! i = (l, u, rcontent m l)" using cache_lookup [OF assms(1)] by blast
      then show ?thesis using None Inr keep by (simp add: read_cached_def view_def Let_def)
    next
      case (Inl i)
      have "mirror_read l ?m = (Inr (view m l), ?m)"
        using mirror_read_quiet [of ?m l] assms(1) q1 l None by simp
      then have "read_cached l m = (Inr (view m l), cache_insert l (view m l) ?m)"
        using None Inl by (simp add: read_cached_def Let_def bindE_def modE_def retE_def)
      then show ?thesis using keep by (simp add: cache_insert_def Let_def)
    qed
  qed
qed

interpretation mread: store_reader mirror_read view wf_mirror readable
proof unfold_locales
  fix m l assume "wf_mirror m" "readable m l"
  then show "\<exists>m'. mirror_read l m = (Inr (view m l), m') \<and> (\<forall>k. readable m k \<longrightarrow> readable m' k)"
    using mirror_read_quiet [of m l] by (auto simp: readable_def)
qed (use mirror_read_keeps mirror_read_ok in blast)+

interpretation cread: store_reader read_cached view wf_mirror readable
proof unfold_locales
  fix m l assume "wf_mirror m" "readable m l"
  then show "\<exists>m'. read_cached l m = (Inr (view m l), m') \<and> (\<forall>k. readable m k \<longrightarrow> readable m' k)"
    by (rule read_cached_avail)
qed (use read_cached_spec in blast)+

interpretation mstore: verified_store mirror_read view wf_mirror readable write_verified
  by unfold_locales (use write_verified_spec in blast)+

end
