(* ===== verification/Ring_Model.thy ===== *)
theory Ring_Model
  imports Spine Mirror_Writes
begin

text \<open>
  The spine ring of \<open>src/ring.rs\<close> over a mirror: bootstrap, the head search, the chained append,
  the fence window, zeroing, the root ring of the migrating profile and the whole-device scan.
  Generation \<open>g\<close> lives at slot \<open>g & (N - 1)\<close> of the \<open>N = 1 << ring_log2\<close> blocks at \<open>r_base\<close>.

  \<open>search_by\<close> is \<open>Ring::search\<close> with the slot reader as an argument: its first loop (past corrupt
  slots) and its second (the bisection, \<open>bisect_by\<close>), which calls it back on both halves around a
  corrupt middle.
\<close>

section \<open>State\<close>

record ring =
  r_mirror :: mirror
  r_log2 :: nat
  r_base :: nat
  r_head :: "(nat \<times> SpineEntry) option"

definition on_mirror :: "(mirror, 'x) op \<Rightarrow> (ring, 'x) op" where
  "on_mirror f = (\<lambda>r. case f (r_mirror r) of (x, m) \<Rightarrow> (x, r\<lparr>r_mirror := m\<rparr>))"

definition ring_n :: "ring \<Rightarrow> nat" where
  "ring_n r = 2 ^ r_log2 r"

section \<open>The head search\<close>

definition gen_at :: "vsf_env \<Rightarrow> nat \<Rightarrow> (ring, Classified) op" where
  "gen_at E slot = (\<lambda>r. bindE (on_mirror (mirror_read (wadd (r_base r) slot)))
     (\<lambda>buf. retE (classify E buf slot (Some (r_log2 r)))) r)"

definition max_by_gen ::
  "(nat \<times> SpineEntry) option \<Rightarrow> (nat \<times> SpineEntry) option \<Rightarrow> (nat \<times> SpineEntry) option" where
  "max_by_gen a b = (case (a, b) of
     (Some x, Some y) \<Rightarrow> (if se_gen (snd x) \<ge> se_gen (snd y) then Some x else Some y)
   | (Some x, None) \<Rightarrow> Some x
   | (None, Some y) \<Rightarrow> Some y
   | (None, None) \<Rightarrow> None)"

text \<open>\<open>Option<u64>\<close> is ordered with \<open>None\<close> below every \<open>Some\<close>.\<close>

definition gen_gt :: "SpineEntry option \<Rightarrow> SpineEntry option \<Rightarrow> bool" where
  "gen_gt a b = (case (a, b) of
     (Some x, Some y) \<Rightarrow> se_gen x > se_gen y | (Some _, None) \<Rightarrow> True | (None, _) \<Rightarrow> False)"

definition entry_of :: "Classified \<Rightarrow> SpineEntry option" where
  "entry_of c = (case c of Valid e \<Rightarrow> Some e | _ \<Rightarrow> None)"

function search_by ::
    "(nat \<Rightarrow> ('s, Classified) op) \<Rightarrow> nat \<Rightarrow> nat \<Rightarrow> ('s, (nat \<times> SpineEntry) option) op"
  and bisect_by ::
    "(nat \<Rightarrow> ('s, Classified) op) \<Rightarrow> nat \<Rightarrow> nat \<Rightarrow> nat \<Rightarrow> SpineEntry option \<Rightarrow> ('s, (nat \<times> SpineEntry) option) op"
where
  "search_by ga lo hi =
     (if lo > hi then retE None
      else bindE (ga lo) (\<lambda>c.
        if c = ClsCorrupt then search_by ga (lo + 1) hi
        else bisect_by ga lo hi lo (entry_of c)))"
| "bisect_by ga lo hi lo_slot lo_entry =
     (if lo \<ge> hi then retE (map_option (Pair lo_slot) lo_entry)
      else (let mid = (lo + hi + 1) div 2 in
        bindE (ga mid) (\<lambda>c.
          if c = ClsCorrupt then
            bindE (search_by ga lo (mid - 1)) (\<lambda>left.
            bindE (search_by ga mid hi) (\<lambda>right.
            retE (max_by_gen left right)))
          else if gen_gt (entry_of c) lo_entry then bisect_by ga mid hi mid (entry_of c)
          else bisect_by ga lo (mid - 1) lo_slot lo_entry)))"
  by pat_completeness auto
termination
  by (relation "measures [\<lambda>x. case x of Inl (_, lo, hi) \<Rightarrow> hi + 1 - lo | Inr (_, lo, hi, _) \<Rightarrow> hi + 1 - lo,
       \<lambda>x. case x of Inl _ \<Rightarrow> 1 | Inr _ \<Rightarrow> 0]") auto

declare search_by.simps [simp del] bisect_by.simps [simp del]

definition head_search :: "vsf_env \<Rightarrow> (ring, (nat \<times> SpineEntry) option) op" where
  "head_search E = (\<lambda>r. search_by (gen_at E) 0 (ring_n r - 1) r)"

section \<open>Opening\<close>

primrec probe_slots :: "vsf_env \<Rightarrow> nat list \<Rightarrow> (mirror, nat option) op" where
  "probe_slots E [] = retE None"
| "probe_slots E (slot # slots) = bindE (mirror_read slot) (\<lambda>buf.
     case classify E buf slot None of
       Valid e \<Rightarrow> retE (Some (se_ring_log2 e))
     | _ \<Rightarrow> probe_slots E slots)"

definition bootstrap_n :: "vsf_env \<Rightarrow> (mirror, nat option) op" where
  "bootstrap_n E = (\<lambda>m. probe_slots E [0 ..< min (2 ^ 4) (mirror_block_count m)] m)"

definition ring_open_at :: "vsf_env \<Rightarrow> mirror \<Rightarrow> nat \<Rightarrow> nat \<Rightarrow> ring result \<times> ring" where
  "ring_open_at E m ring_log2 base =
     (let ring = \<lparr>r_mirror = m, r_log2 = ring_log2, r_base = base, r_head = None\<rparr> in
      bindE (head_search E) (\<lambda>h. bindE (modE (r_head_update (\<lambda>_. h))) (\<lambda>_. getE id)) ring)"

section \<open>Appending\<close>

definition ring_append_check :: "vsf_env \<Rightarrow> ring \<Rightarrow> SpineEntry \<Rightarrow> unit result" where
  "ring_append_check E r entry =
     bindR (case r_head r of
        Some (_, h) \<Rightarrow>
          (if se_gen entry \<noteq> wadd (se_gen h) 1 then Inl (Corrupt ''append gen after head'')
           else bindR (spine_body_hash E h) (\<lambda>hash.
             if se_prev_hash entry \<noteq> hash then Inl (Corrupt ''prev_hash does not chain to head'')
             else Inr ()))
      | None \<Rightarrow>
          (if se_gen entry \<noteq> 0 then Inl (Corrupt ''genesis must be gen 0'')
           else if se_prev_hash entry \<noteq> replicate 32 0 then Inl (Corrupt ''genesis prev_hash must be zeros'')
           else Inr ()))
      (\<lambda>_. if se_ring_log2 entry \<noteq> r_log2 r then Inl (Corrupt ''entry geometry does not match ring'')
           else Inr ())"

definition ring_append :: "vsf_env \<Rightarrow> SpineEntry \<Rightarrow> (ring, unit) op" where
  "ring_append E entry = (\<lambda>r.
     bindE (liftE (ring_append_check E r entry)) (\<lambda>_.
     let slot = ring_slot (r_log2 r) (se_gen entry) in
     bindE (liftE (spine_encode E entry)) (\<lambda>block.
     bindE (on_mirror (write_verified (wadd (r_base r) slot) block)) (\<lambda>_.
     modE (r_head_update (\<lambda>_. Some (slot, entry)))))) r)"

definition set_base :: "nat \<Rightarrow> ring \<Rightarrow> ring" where
  "set_base base r = r\<lparr>r_base := base\<rparr>"

section \<open>The fence window\<close>

definition recent_entries :: "vsf_env \<Rightarrow> nat \<Rightarrow> (ring, SpineEntry option list) op" where
  "recent_entries E k = (\<lambda>r.
     case r_head r of
       None \<Rightarrow> (Inr [], r)
     | Some (_, head) \<Rightarrow>
         mapE (\<lambda>i. let gen = se_gen head - i; slot = ring_slot (r_log2 r) gen in
             bindE (gen_at E slot) (\<lambda>c. retE (case c of
               Valid e \<Rightarrow> (if se_gen e = gen then Some e else None)
             | _ \<Rightarrow> None)))
           [0 ..< min k (wadd (se_gen head) 1)] r)"

definition recent_plows :: "vsf_env \<Rightarrow> nat \<Rightarrow> (ring, nat list) op" where
  "recent_plows E k = bindE (recent_entries E k)
     (\<lambda>es. retE (map (\<lambda>e. case e of Some e \<Rightarrow> se_plow e | None \<Rightarrow> 0) es))"

definition recent_fences :: "vsf_env \<Rightarrow> nat \<Rightarrow> (ring, nat list) op" where
  "recent_fences E k = bindE (recent_entries E k)
     (\<lambda>es. retE (map (\<lambda>e. case e of Some e \<Rightarrow> fence_budget e | None \<Rightarrow> 0) es))"

section \<open>Whole-device scan, zeroing, root ring\<close>

primrec scan_sealed :: "vsf_env \<Rightarrow> nat list \<Rightarrow> (filedev, bool) op" where
  "scan_sealed E [] = retE False"
| "scan_sealed E (lba # lbas) = bindE (dev_read lba) (\<lambda>buf.
     if block_is_sealed E buf then retE True else scan_sealed E lbas)"

definition any_sealed_block :: "vsf_env \<Rightarrow> (filedev, bool) op" where
  "any_sealed_block E = (\<lambda>d. scan_sealed E [0 ..< fd_blocks d] d)"

definition zero_ring_at :: "nat \<Rightarrow> nat \<Rightarrow> (mirror, unit) op" where
  "zero_ring_at ring_log2 base =
     forE [0 ..< 2 ^ ring_log2] (\<lambda>slot. write_verified (wadd base slot) ZERO_BLOCK)"

primrec read_root_slots :: "vsf_env \<Rightarrow> nat list \<Rightarrow> RootEntry option \<Rightarrow> (filedev, RootEntry option) op" where
  "read_root_slots E [] best = retE best"
| "read_root_slots E (slot # slots) best = bindE (dev_read slot) (\<lambda>buf.
     read_root_slots E slots (case root_decode E buf of
       Inr e \<Rightarrow> (if re_gen e AND (ROOT_SLOTS - 1) = slot
                    \<and> (case best of Some b \<Rightarrow> re_gen e > re_gen b | None \<Rightarrow> True)
                 then Some e else best)
     | Inl _ \<Rightarrow> best))"

definition read_root :: "vsf_env \<Rightarrow> (filedev, RootEntry option) op" where
  "read_root E = (\<lambda>d. read_root_slots E [0 ..< min ROOT_SLOTS (fd_blocks d)] None d)"

definition append_root :: "vsf_env \<Rightarrow> RootEntry \<Rightarrow> (mirror, unit) op" where
  "append_root E entry = bindE (liftE (root_encode E entry))
     (\<lambda>block. write_verified (re_gen entry AND (ROOT_SLOTS - 1)) block)"

end
