(* ===== verification/Ring_Props.thy ===== *)
theory Ring_Props
  imports Ring_Model
begin

text \<open>
  The ring's correctness. A ring that has been written by appends, with any set of its slots
  damaged since, is lap-shaped: slot \<open>s\<close> holds the newest generation up to the head's that is
  congruent to \<open>s\<close>, or is empty because no such generation exists or because the write of the next
  generation was torn to zeros, or is corrupt. On such a ring
  the head search returns the newest valid entry whatever is corrupt, and appending keeps the
  shape. The search is analysed once, for any slot reader (locale \<open>slot_source\<close>).
\<close>

section \<open>Lap-shaped rings\<close>

definition lap_shaped :: "(nat \<Rightarrow> Classified) \<Rightarrow> nat \<Rightarrow> nat \<Rightarrow> bool" where
  "lap_shaped cls n G \<longleftrightarrow> 0 < n \<and> (\<forall>s < n. case cls s of
     Valid e \<Rightarrow> se_gen e \<le> G \<and> G < se_gen e + n \<and> se_gen e mod n = s
   | Empty \<Rightarrow> G < s \<or> s = (G + 1) mod n
   | ClsCorrupt \<Rightarrow> True)"

text \<open>The newest valid entry of the slots \<open>lo..hi\<close>.\<close>

definition newest_in :: "(nat \<Rightarrow> Classified) \<Rightarrow> nat \<Rightarrow> nat \<Rightarrow> (nat \<times> SpineEntry) option \<Rightarrow> bool" where
  "newest_in cls lo hi x \<longleftrightarrow> (case x of
     None \<Rightarrow> (\<forall>k e. lo \<le> k \<longrightarrow> k \<le> hi \<longrightarrow> cls k \<noteq> Valid e)
   | Some (k, e) \<Rightarrow> lo \<le> k \<and> k \<le> hi \<and> cls k = Valid e
       \<and> (\<forall>j f. lo \<le> j \<longrightarrow> j \<le> hi \<longrightarrow> cls j = Valid f \<longrightarrow> se_gen f \<le> se_gen e))"

text \<open>The two runs of the rotation: up to the head's slot the current lap, after it the last one.\<close>

lemma lap_shaped_gen:
  assumes "lap_shaped cls n G" and "s < n" and "cls s = Valid e"
  shows "se_gen e = (if s \<le> G mod n then G div n * n + s else (G div n - 1) * n + s) \<and> (G mod n < s \<longrightarrow> 0 < G div n)"
proof -
  from assms have g: "se_gen e \<le> G" "G < se_gen e + n" "se_gen e mod n = s" "0 < n"
    by (auto simp: lap_shaped_def dest!: spec [where x = s])
  define q Q h where "q = se_gen e div n" and "Q = G div n" and "h = G mod n"
  have e: "se_gen e = q * n + s" and G: "G = Q * n + h" and h: "h < n"
    using g(3,4) unfolding q_def Q_def h_def by (simp_all add: g(3) [symmetric])
  have le: "q * n + s \<le> Q * n + h" and lt: "Q * n + h < q * n + s + n" using g(1,2) by (auto simp: e G)
  have "q \<le> Q"
  proof (rule ccontr)
    assume "\<not> q \<le> Q"
    then have "(Q + 1) * n \<le> q * n" by (intro mult_le_mono1) simp
    then show False using le h by (simp add: algebra_simps)
  qed
  moreover have "Q \<le> q + 1"
  proof (rule ccontr)
    assume "\<not> Q \<le> q + 1"
    then have "(q + 2) * n \<le> Q * n" by (intro mult_le_mono1) simp
    then show False using lt assms(2) by (simp add: algebra_simps)
  qed
  ultimately consider "Q = q" | "Q = q + 1" by linarith
  then have "se_gen e = (if s \<le> h then Q * n + s else (Q - 1) * n + s) \<and> (h < s \<longrightarrow> 0 < Q)"
    by cases (use le lt e in \<open>auto simp: algebra_simps\<close>)
  then show ?thesis unfolding Q_def h_def .
qed

lemma lap_shaped_empty:
  assumes "lap_shaped cls n G" and "s < n" and "cls s = Empty"
  shows "(G mod n < s \<and> G div n = 0) \<or> s = Suc (G mod n) \<or> (s = 0 \<and> Suc (G mod n) = n)"
proof -
  have "G < s \<or> s = (G + 1) mod n" using assms by (auto simp: lap_shaped_def dest!: spec [where x = s])
  then show ?thesis using assms(2) by (auto simp: mod_Suc split: if_splits)
qed

text \<open>A greater reading to the right: everything between is older.\<close>

lemma lap_shaped_right:
  assumes lap: "lap_shaped cls n G" and "lo < mid" and "mid < n" and "cls lo \<noteq> ClsCorrupt"
    and "cls mid = Valid e" and "gen_gt (Some e) (entry_of (cls lo))"
    and "lo \<le> j" and "j \<le> mid" and "cls j = Valid f"
  shows "se_gen f \<le> se_gen e"
proof -
  note g = lap_shaped_gen [OF lap]
  have j: "j < n" and lo: "lo < n" using assms by auto
  show ?thesis
  proof (cases "cls lo")
    case (Valid d)
    have "se_gen d < se_gen e" using assms(6) Valid by (simp add: gen_gt_def entry_of_def)
    then have "\<not> (lo \<le> G mod n \<and> G mod n < mid)"
      using g [OF lo Valid] g [OF assms(3,5)] assms(3) by (cases "G div n") auto
    then show ?thesis using g [OF j assms(9)] g [OF assms(3,5)] assms(7,8) by (auto split: if_splits)
  next
    case Empty
    then have "j \<noteq> lo" using assms(9) by auto
    then show ?thesis using lap_shaped_empty [OF lap lo Empty] g [OF assms(3,5)] g [OF j assms(9)] assms(2,3,7,8) by (auto split: if_splits)
  next
    case ClsCorrupt
    then show ?thesis using assms(4) by simp
  qed
qed

text \<open>A reading to the right that is not greater: nothing from there on is newer.\<close>

lemma lap_shaped_left:
  assumes lap: "lap_shaped cls n G" and "lo < mid" and "cls lo \<noteq> ClsCorrupt" and "cls mid \<noteq> ClsCorrupt"
    and "\<not> gen_gt (entry_of (cls mid)) (entry_of (cls lo))"
    and "mid \<le> j" and "j < n" and "cls j = Valid f"
  shows "\<exists>d. cls lo = Valid d \<and> se_gen f \<le> se_gen d"
proof -
  note g = lap_shaped_gen [OF lap]
  have mid: "mid < n" and lo: "lo < n" using assms by auto
  show ?thesis
  proof (cases "cls lo")
    case (Valid d)
    have le: "lo \<le> G mod n \<and> G mod n < mid"
    proof (cases "cls mid")
      case (Valid e)
      have "se_gen e \<le> se_gen d" using assms(5) \<open>cls lo = Valid d\<close> Valid by (simp add: gen_gt_def entry_of_def)
      moreover have "se_gen d < se_gen e" if "mid \<le> G mod n \<or> G mod n < lo"
        using that g [OF lo \<open>cls lo = Valid d\<close>] g [OF mid Valid] assms(2) by (simp split: if_splits)
      ultimately show ?thesis by linarith
    next
      case Empty
      then show ?thesis
        using lap_shaped_empty [OF lap mid Empty] g [OF lo \<open>cls lo = Valid d\<close>] assms(2) by (auto split: if_splits)
    next
      case ClsCorrupt
      then show ?thesis using assms(4) by simp
    qed
    then have "se_gen f = (G div n - 1) * n + j \<and> 0 < G div n" "se_gen d = G div n * n + lo"
      using g [OF assms(7,8)] g [OF lo Valid] assms(6) by auto
    then have "se_gen f \<le> se_gen d" using assms(7) by (cases "G div n") (auto simp: algebra_simps)
    then show ?thesis using Valid by simp
  next
    case Empty
    then have "cls mid = Empty" using assms(4,5) by (cases "cls mid") (auto simp: gen_gt_def entry_of_def)
    then show ?thesis
      using lap_shaped_empty [OF lap lo Empty] lap_shaped_empty [OF lap mid] g [OF assms(7,8)] assms(2,6,7) by (auto split: if_splits)
  next
    case ClsCorrupt
    then show ?thesis using assms(3) by simp
  qed
qed

lemma newest_in_None: "newest_in cls lo hi None \<longleftrightarrow> (\<forall>k e. lo \<le> k \<longrightarrow> k \<le> hi \<longrightarrow> cls k \<noteq> Valid e)"
  by (simp add: newest_in_def)

lemma newest_in_Some:
  "newest_in cls lo hi (Some (k, e)) \<longleftrightarrow> lo \<le> k \<and> k \<le> hi \<and> cls k = Valid e
     \<and> (\<forall>j f. lo \<le> j \<longrightarrow> j \<le> hi \<longrightarrow> cls j = Valid f \<longrightarrow> se_gen f \<le> se_gen e)"
  by (simp add: newest_in_def)

lemma newest_in_join:
  assumes a: "newest_in cls lo m a" and b: "newest_in cls (Suc m) hi b" and "lo \<le> m" and "m < hi"
  shows "newest_in cls lo hi (max_by_gen a b)"
proof -
  have split: "(lo \<le> j \<and> j \<le> m) \<or> (Suc m \<le> j \<and> j \<le> hi)" if "lo \<le> j" "j \<le> hi" for j
    using that by linarith
  consider "a = None" "b = None" | k f where "a = None" "b = Some (k, f)"
    | i e where "a = Some (i, e)" "b = None" | i e k f where "a = Some (i, e)" "b = Some (k, f)"
    by (cases a; cases b) auto
  then show ?thesis
  proof cases
    case 1
    then show ?thesis using a b split by (simp add: newest_in_None max_by_gen_def) blast
  next
    case (2 k f)
    have "se_gen g \<le> se_gen f" if "lo \<le> j" "j \<le> hi" "cls j = Valid g" for j g
      using split [OF that(1,2)] a b that(3) unfolding 2 newest_in_None newest_in_Some by blast
    then show ?thesis using b assms(3) unfolding 2 newest_in_Some by (simp add: max_by_gen_def newest_in_Some)
  next
    case (3 i e)
    have "se_gen g \<le> se_gen e" if "lo \<le> j" "j \<le> hi" "cls j = Valid g" for j g
      using split [OF that(1,2)] a b that(3) unfolding 3 newest_in_None newest_in_Some by blast
    then show ?thesis using a assms(4) unfolding 3 newest_in_Some by (simp add: max_by_gen_def newest_in_Some)
  next
    case (4 i e k f)
    have "se_gen g \<le> se_gen e \<or> se_gen g \<le> se_gen f" if "lo \<le> j" "j \<le> hi" "cls j = Valid g" for j g
      using split [OF that(1,2)] a b that(3) unfolding 4 newest_in_Some by blast
    then have best: "se_gen g \<le> max (se_gen e) (se_gen f)" if "lo \<le> j" "j \<le> hi" "cls j = Valid g" for j g
      using that by (simp add: le_max_iff_disj)
    show ?thesis
    proof (cases "se_gen f \<le> se_gen e")
      case True
      then show ?thesis using best a assms(4) unfolding 4 newest_in_Some
        by (simp add: max_by_gen_def newest_in_Some max_absorb1)
    next
      case False
      then show ?thesis using best b assms(3) unfolding 4 newest_in_Some
        by (simp add: max_by_gen_def newest_in_Some max_absorb2)
    qed
  qed
qed

lemma newest_in_skip:
  assumes "newest_in cls (Suc lo) hi x" and "cls lo = ClsCorrupt"
  shows "newest_in cls lo hi x"
proof -
  have up: "Suc lo \<le> k" if "lo \<le> k" "cls k = Valid e" for k e
    using that assms(2) by (cases "k = lo") auto
  show ?thesis
  proof (cases x)
    case None
    then show ?thesis using assms(1) up by (auto simp: newest_in_None)
  next
    case (Some y)
    obtain k e where y: "y = (k, e)" by (cases y)
    show ?thesis using assms(1) up unfolding Some y newest_in_Some by (meson Suc_leD)
  qed
qed

lemma newest_in_single:
  "cls lo \<noteq> ClsCorrupt \<Longrightarrow> newest_in cls lo lo (map_option (Pair lo) (entry_of (cls lo)))"
  by (cases "cls lo") (auto simp: newest_in_def entry_of_def dest: order.antisym)

lemma newest_in_advance:
  assumes "newest_in cls mid hi x" and "lap_shaped cls n G" and "lo < mid" and "mid \<le> hi" and "hi < n"
    and "cls lo \<noteq> ClsCorrupt" and "cls mid \<noteq> ClsCorrupt" and "gen_gt (entry_of (cls mid)) (entry_of (cls lo))"
  shows "newest_in cls lo hi x"
proof -
  obtain e where e: "cls mid = Valid e" using assms(7,8) by (cases "cls mid") (auto simp: gen_gt_def entry_of_def)
  obtain k f where x: "x = Some (k, f)" "mid \<le> k" "k \<le> hi" "cls k = Valid f"
    and best: "\<And>j g. mid \<le> j \<Longrightarrow> j \<le> hi \<Longrightarrow> cls j = Valid g \<Longrightarrow> se_gen g \<le> se_gen f"
    using assms(1,4) e by (auto simp: newest_in_def split: option.splits)
  have "se_gen g \<le> se_gen f" if "lo \<le> j" "j \<le> hi" "cls j = Valid g" for j g
  proof (cases "mid \<le> j")
    case True
    then show ?thesis using best that by blast
  next
    case False
    then have "se_gen g \<le> se_gen e"
      using lap_shaped_right [OF assms(2,3) _ assms(6) e, of j g] assms(4,5,8) e that by (simp add: entry_of_def)
    also have "\<dots> \<le> se_gen f" using best [OF order.refl assms(4) e] .
    finally show ?thesis .
  qed
  then show ?thesis using x assms(3) by (simp add: newest_in_def)
qed

lemma newest_in_retreat:
  assumes "newest_in cls lo (mid - 1) x" and "lap_shaped cls n G" and "lo < mid" and "mid \<le> hi" and "hi < n"
    and "cls lo \<noteq> ClsCorrupt" and "cls mid \<noteq> ClsCorrupt" and "\<not> gen_gt (entry_of (cls mid)) (entry_of (cls lo))"
  shows "newest_in cls lo hi x"
proof -
  have out: "\<exists>d. cls lo = Valid d \<and> se_gen f \<le> se_gen d" if "mid \<le> j" "j \<le> hi" "cls j = Valid f" for j f
    using lap_shaped_left [OF assms(2,3,6,7,8) that(1) _ that(3)] that(2) assms(5) by simp
  have lo: "lo \<le> mid - 1" using assms(3) by simp
  show ?thesis
  proof (cases x)
    case None
    have "cls j \<noteq> Valid f" if "lo \<le> j" "j \<le> hi" for j f
    proof (cases "mid \<le> j")
      case True
      then show ?thesis using out that assms(1) None lo by (fastforce simp: newest_in_def)
    next
      case False
      then show ?thesis using that assms(1) None by (auto simp: newest_in_def)
    qed
    then show ?thesis using None by (simp add: newest_in_def)
  next
    case (Some y)
    obtain k e where y: "y = (k, e)" by (cases y)
    have k: "lo \<le> k" "k \<le> mid - 1" "cls k = Valid e" and best: "\<And>j g. lo \<le> j \<Longrightarrow> j \<le> mid - 1 \<Longrightarrow> cls j = Valid g \<Longrightarrow> se_gen g \<le> se_gen e"
      using assms(1) Some y by (auto simp: newest_in_def)
    have "se_gen g \<le> se_gen e" if "lo \<le> j" "j \<le> hi" "cls j = Valid g" for j g
    proof (cases "mid \<le> j")
      case True
      from out [OF True that(2,3)] obtain d where "cls lo = Valid d" "se_gen g \<le> se_gen d" by blast
      then show ?thesis using best [of lo d] lo by simp
    next
      case False
      then show ?thesis using best that by auto
    qed
    then show ?thesis using k Some y assms(3,4) by (auto simp: newest_in_def)
  qed
qed

section \<open>The search, for any slot reader\<close>

locale slot_source =
  fixes ga :: "nat \<Rightarrow> ('s, Classified) op"
    and cls :: "'s \<Rightarrow> nat \<Rightarrow> Classified"
    and oks :: "'s \<Rightarrow> bool"
    and avail :: "'s \<Rightarrow> nat \<Rightarrow> bool"
  assumes ga_keeps: "oks s \<Longrightarrow> ga k s = (r, s') \<Longrightarrow> oks s' \<and> cls s' = cls s"
    and ga_ok: "oks s \<Longrightarrow> ga k s = (Inr c, s') \<Longrightarrow> c = cls s k"
    and ga_avail: "oks s \<Longrightarrow> avail s k \<Longrightarrow> \<exists>s'. ga k s = (Inr (cls s k), s') \<and> (\<forall>j. avail s j \<longrightarrow> avail s' j)"
begin

lemma ga_bind:
  assumes "bindE (ga k) f s = (r, s')" and "oks s"
  obtains (err) e where "r = Inl e" "oks s'" "cls s' = cls s"
    | (ok) s1 where "oks s1" "cls s1 = cls s" "f (cls s k) s1 = (r, s')"
  using assms(1)
proof (cases rule: bindE_cases)
  case (err e)
  then show thesis using that(1) ga_keeps [OF assms(2)] by blast
next
  case (ok x s1)
  then show thesis using that(2) ga_keeps [OF assms(2)] ga_ok [OF assms(2)] by blast
qed

text \<open>One induction for both functions: what is kept, and the newest entry of the range.\<close>

lemma search_newest_aux:
  assumes lap: "lap_shaped C n G"
  shows "(\<forall>lo hi s r s'. hi + 1 - lo = w \<longrightarrow> hi < n \<longrightarrow> oks s \<longrightarrow> cls s = C \<longrightarrow> search_by ga lo hi s = (r, s') \<longrightarrow>
        oks s' \<and> cls s' = C \<and> (\<forall>x. r = Inr x \<longrightarrow> newest_in C lo hi x))
    \<and> (\<forall>lo hi s r s'. hi + 1 - lo = w \<longrightarrow> lo \<le> hi \<longrightarrow> hi < n \<longrightarrow> oks s \<longrightarrow> cls s = C \<longrightarrow> C lo \<noteq> ClsCorrupt \<longrightarrow>
        bisect_by ga lo hi lo (entry_of (C lo)) s = (r, s') \<longrightarrow>
        oks s' \<and> cls s' = C \<and> (\<forall>x. r = Inr x \<longrightarrow> newest_in C lo hi x))"
proof (induction w rule: less_induct)
  case (less w)
  have IS: "oks s' \<and> cls s' = C \<and> (\<forall>x. r = Inr x \<longrightarrow> newest_in C lo hi x)"
    if "hi + 1 - lo < w" "hi < n" "oks s" "cls s = C" "search_by ga lo hi s = (r, s')" for lo hi s r s'
    using less.IH [of "hi + 1 - lo"] that by blast
  have IB: "oks s' \<and> cls s' = C \<and> (\<forall>x. r = Inr x \<longrightarrow> newest_in C lo hi x)"
    if "hi + 1 - lo < w" "lo \<le> hi" "hi < n" "oks s" "cls s = C" "C lo \<noteq> ClsCorrupt"
      "bisect_by ga lo hi lo (entry_of (C lo)) s = (r, s')" for lo hi s r s'
    using less.IH [of "hi + 1 - lo"] that by blast
  have B: "oks s' \<and> cls s' = C \<and> (\<forall>x. r = Inr x \<longrightarrow> newest_in C lo hi x)"
    if w: "hi + 1 - lo = w" "lo \<le> hi" "hi < n" and s: "oks s" "cls s = C" and lo: "C lo \<noteq> ClsCorrupt"
      and run: "bisect_by ga lo hi lo (entry_of (C lo)) s = (r, s')" for lo hi s r s'
  proof (cases "lo = hi")
    case True
    then have "r = Inr (map_option (Pair lo) (entry_of (C lo)))" "s' = s"
      using run by (simp_all add: bisect_by.simps [of ga lo hi] bisect_by.simps [of ga hi hi] retE_run)
    then show ?thesis using s newest_in_single [of C lo, OF lo] True by simp
  next
    case False
    define mid where "mid = (lo + hi + 1) div 2"
    have mid: "lo < mid" "mid \<le> hi" using False w(2) by (auto simp: mid_def)
    have "bindE (ga mid) (\<lambda>c.
          if c = ClsCorrupt then
            bindE (search_by ga lo (mid - 1)) (\<lambda>left. bindE (search_by ga mid hi) (\<lambda>right. retE (max_by_gen left right)))
          else if gen_gt (entry_of c) (entry_of (C lo)) then bisect_by ga mid hi mid (entry_of c)
          else bisect_by ga lo (mid - 1) lo (entry_of (C lo))) s = (r, s')"
      using run False w(2) unfolding bisect_by.simps [of ga lo hi] Let_def mid_def [symmetric] by simp
    then show ?thesis
    proof (cases rule: ga_bind [OF _ s(1), consumes 1, case_names err ok])
      case (err e)
      then show ?thesis by (simp add: s)
    next
      case s1: (ok s1)
      then have s2: "oks s1" "cls s1 = C" using s by auto
      show ?thesis
      proof (cases "C mid = ClsCorrupt")
        case True
        then have "bindE (search_by ga lo (mid - 1)) (\<lambda>left. bindE (search_by ga mid hi) (\<lambda>right. retE (max_by_gen left right))) s1 = (r, s')"
          using s1 s by simp
        then show ?thesis
        proof (cases rule: bindE_cases)
          case (err e)
          then show ?thesis using IS [OF _ _ s2, of "mid - 1" lo] mid w by fastforce
        next
          case (ok a s2)
          have 3: "oks s2" "cls s2 = C" "newest_in C lo (mid - 1) a"
            using IS [OF _ _ s2 ok(1)] mid w by auto
          from ok(2) show ?thesis
          proof (cases rule: bindE_cases)
            case (err e)
            then show ?thesis using IS [OF _ _ 3(1,2), of hi mid] mid w by fastforce
          next
            case (ok b s3)
            have 4: "oks s3" "cls s3 = C" "newest_in C mid hi b" using IS [OF _ _ 3(1,2) ok(1)] mid w by auto
            have "newest_in C lo hi (max_by_gen a b)"
              using newest_in_join [OF 3(3), of hi b] 4(3) mid by simp
            then show ?thesis using ok(2) 4 by (auto simp: retE_run)
          qed
        qed
      next
        case False
        show ?thesis
        proof (cases "gen_gt (entry_of (C mid)) (entry_of (C lo))")
          case True
          then have "bisect_by ga mid hi mid (entry_of (C mid)) s1 = (r, s')" using s1(3) False s by simp
          then show ?thesis
            using IB [OF _ mid(2) w(3) s2 False, of r s'] mid w newest_in_advance [OF _ lap mid w(3) lo False True] by auto
        next
          case ng: False
          then have "bisect_by ga lo (mid - 1) lo (entry_of (C lo)) s1 = (r, s')" using s1(3) False s by simp
          then show ?thesis
            using IB [OF _ _ _ s2 lo, of "mid - 1" r s'] mid w newest_in_retreat [OF _ lap mid w(3) lo False ng] by auto
        qed
      qed
    qed
  qed
  have S: "oks s' \<and> cls s' = C \<and> (\<forall>x. r = Inr x \<longrightarrow> newest_in C lo hi x)"
    if w: "hi + 1 - lo = w" "hi < n" and s: "oks s" "cls s = C" and run: "search_by ga lo hi s = (r, s')" for lo hi s r s'
  proof (cases "lo > hi")
    case True
    then show ?thesis using run s by (auto simp: search_by.simps [of ga lo hi] retE_run newest_in_def)
  next
    case False
    then have "bindE (ga lo) (\<lambda>c. if c = ClsCorrupt then search_by ga (lo + 1) hi else bisect_by ga lo hi lo (entry_of c)) s = (r, s')"
      using run by (simp add: search_by.simps [of ga lo hi])
    then show ?thesis
    proof (cases rule: ga_bind [OF _ s(1), consumes 1, case_names err ok])
      case (err e)
      then show ?thesis by (simp add: s)
    next
      case s1: (ok s1)
      then have s2: "oks s1" "cls s1 = C" using s by auto
      show ?thesis
      proof (cases "C lo = ClsCorrupt")
        case True
        then show ?thesis using IS [OF _ w(2) s2, of "lo + 1" r s'] s1(3) False w s newest_in_skip [of C lo hi] by auto
      next
        case nc: False
        then show ?thesis using B [OF w(1) _ w(2) s2 nc, of r s'] s1(3) False s by auto
      qed
    qed
  qed
  show ?case using S B by blast
qed

lemma search_newest:
  assumes "search_by ga lo hi s = (r, s')" and "oks s" and "lap_shaped (cls s) n G" and "hi < n"
  shows "oks s' \<and> cls s' = cls s \<and> (\<forall>x. r = Inr x \<longrightarrow> newest_in (cls s) lo hi x)"
  using search_newest_aux [OF assms(3), of "hi + 1 - lo"] assms by blast

text \<open>Readable slots are all the search needs to return.\<close>

definition all_avail :: "nat \<Rightarrow> nat \<Rightarrow> 's \<Rightarrow> bool" where
  "all_avail lo hi s \<longleftrightarrow> oks s \<and> (\<forall>k. lo \<le> k \<longrightarrow> k \<le> hi \<longrightarrow> avail s k)"

lemma all_avail_sub: "all_avail lo hi s \<Longrightarrow> lo \<le> lo' \<Longrightarrow> hi' \<le> hi \<Longrightarrow> all_avail lo' hi' s"
  unfolding all_avail_def by (meson order.trans)

lemma ga_step:
  assumes "all_avail lo hi s" and "lo \<le> k" and "k \<le> hi"
  obtains s1 where "all_avail lo hi s1" "bindE (ga k) f s = f (cls s k) s1"
proof -
  obtain s1 where s1: "ga k s = (Inr (cls s k), s1)" "\<forall>j. avail s j \<longrightarrow> avail s1 j"
    using ga_avail [of s k] assms by (auto simp: all_avail_def)
  then have "all_avail lo hi s1" using assms(1) ga_keeps [OF _ s1(1)] by (auto simp: all_avail_def)
  then show thesis using that s1(1) by (simp add: bindE_def)
qed

lemma search_total:
  "(\<forall>lo hi a b s. hi + 1 - lo = w \<longrightarrow> a \<le> lo \<longrightarrow> hi \<le> b \<longrightarrow> all_avail a b s \<longrightarrow>
      (\<exists>x s'. search_by ga lo hi s = (Inr x, s') \<and> all_avail a b s'))
   \<and> (\<forall>lo hi a b ls le s. hi + 1 - lo = w \<longrightarrow> lo \<le> hi \<longrightarrow> a \<le> lo \<longrightarrow> hi \<le> b \<longrightarrow> all_avail a b s \<longrightarrow>
      (\<exists>x s'. bisect_by ga lo hi ls le s = (Inr x, s') \<and> all_avail a b s'))"
proof (induction w rule: less_induct)
  case (less w)
  have IS: "\<exists>x s'. search_by ga lo hi s = (Inr x, s') \<and> all_avail a b s'"
    if "hi + 1 - lo < w" "a \<le> lo" "hi \<le> b" "all_avail a b s" for lo hi a b s
    using less.IH [of "hi + 1 - lo"] that by blast
  have IB: "\<exists>x s'. bisect_by ga lo hi ls le s = (Inr x, s') \<and> all_avail a b s'"
    if "hi + 1 - lo < w" "lo \<le> hi" "a \<le> lo" "hi \<le> b" "all_avail a b s" for lo hi a b ls le s
    using less.IH [of "hi + 1 - lo"] that by blast
  have B: "\<exists>x s'. bisect_by ga lo hi ls le s = (Inr x, s') \<and> all_avail a b s'"
    if w: "hi + 1 - lo = w" "lo \<le> hi" "a \<le> lo" "hi \<le> b" "all_avail a b s" for lo hi a b ls le s
  proof (cases "lo = hi")
    case True
    then show ?thesis using w by (simp add: bisect_by.simps [of ga hi hi] retE_run)
  next
    case False
    define mid where "mid = (lo + hi + 1) div 2"
    have mid: "lo < mid" "mid \<le> hi" using False w(2) by (auto simp: mid_def)
    define f where "f = (\<lambda>c. if c = ClsCorrupt then
            bindE (search_by ga lo (mid - 1)) (\<lambda>left. bindE (search_by ga mid hi) (\<lambda>right. retE (max_by_gen left right)))
          else if gen_gt (entry_of c) le then bisect_by ga mid hi mid (entry_of c)
          else bisect_by ga lo (mid - 1) ls le)"
    have eq: "bisect_by ga lo hi ls le = bindE (ga mid) f"
      using False w(2) unfolding bisect_by.simps [of ga lo hi] Let_def mid_def [symmetric] f_def by simp
    obtain s1 where s1: "all_avail a b s1" "bindE (ga mid) f s = f (cls s mid) s1"
      using ga_step [OF w(5)] mid w(3,4) by (metis le_trans less_imp_le_nat)
    have "\<exists>x s2. search_by ga lo (mid - 1) s1 = (Inr x, s2) \<and> all_avail a b s2"
      by (rule IS) (use mid w s1(1) in auto)
    then obtain x s2 where s2: "search_by ga lo (mid - 1) s1 = (Inr x, s2)" "all_avail a b s2" by blast
    have 1: "\<exists>x s'. search_by ga mid hi s2 = (Inr x, s') \<and> all_avail a b s'"
      by (rule IS) (use mid w s2(2) in auto)
    have 2: "\<exists>x s'. bisect_by ga mid hi ls le s1 = (Inr x, s') \<and> all_avail a b s'" for ls le
      by (rule IB) (use mid w s1(1) in auto)
    have 3: "\<exists>x s'. bisect_by ga lo (mid - 1) ls le s1 = (Inr x, s') \<and> all_avail a b s'" for ls le
      by (rule IB) (use mid w s1(1) in auto)
    have "\<exists>x s'. f c s1 = (Inr x, s') \<and> all_avail a b s'" for c
      using 1 2 3 s2(1) by (auto simp: f_def bindE_def retE_def)
    then show ?thesis unfolding eq s1(2) .
  qed
  have S: "\<exists>x s'. search_by ga lo hi s = (Inr x, s') \<and> all_avail a b s'"
    if w: "hi + 1 - lo = w" "a \<le> lo" "hi \<le> b" "all_avail a b s" for lo hi a b s
  proof (cases "lo > hi")
    case True
    then show ?thesis using w by (simp add: search_by.simps [of ga lo hi] retE_run)
  next
    case False
    define f where "f = (\<lambda>c. if c = ClsCorrupt then search_by ga (lo + 1) hi else bisect_by ga lo hi lo (entry_of c))"
    have eq: "search_by ga lo hi = bindE (ga lo) f" using False by (simp add: search_by.simps [of ga lo hi] f_def)
    have lo: "a \<le> lo" "lo \<le> b" using False w by auto
    obtain s1 where s1: "all_avail a b s1" "bindE (ga lo) f s = f (cls s lo) s1"
      by (rule ga_step [OF w(4) lo])
    have "\<exists>x s'. search_by ga (lo + 1) hi s1 = (Inr x, s') \<and> all_avail a b s'"
      by (rule IS) (use False w s1(1) in auto)
    moreover have "\<exists>x s'. bisect_by ga lo hi lo le s1 = (Inr x, s') \<and> all_avail a b s'" for le
      by (rule B) (use False w s1(1) in auto)
    ultimately have "\<exists>x s'. f (cls s lo) s1 = (Inr x, s') \<and> all_avail a b s'" by (simp add: f_def)
    then show ?thesis unfolding eq s1(2) .
  qed
  show ?case using S B by blast
qed

end

section \<open>The ring's own slots\<close>

definition ring_cls :: "vsf_env \<Rightarrow> ring \<Rightarrow> nat \<Rightarrow> Classified" where
  "ring_cls E r k = classify E (view (r_mirror r) (wadd (r_base r) k)) k (Some (r_log2 r))"

definition ring_ok :: "ring \<Rightarrow> bool" where
  "ring_ok r \<longleftrightarrow> wf_mirror (r_mirror r)"

definition slot_readable :: "ring \<Rightarrow> nat \<Rightarrow> bool" where
  "slot_readable r k \<longleftrightarrow> readable (r_mirror r) (wadd (r_base r) k)"

lemma gen_at_run:
  "gen_at E k r = (case mirror_read (wadd (r_base r) k) (r_mirror r) of
     (Inl e, m) \<Rightarrow> (Inl e, r\<lparr>r_mirror := m\<rparr>)
   | (Inr b, m) \<Rightarrow> (Inr (classify E b k (Some (r_log2 r))), r\<lparr>r_mirror := m\<rparr>))"
  by (auto simp: gen_at_def on_mirror_def bindE_def retE_def split: prod.splits sum.splits)

interpretation rslots: slot_source "gen_at E" "ring_cls E" ring_ok slot_readable for E
proof unfold_locales
  fix s k r s' assume "ring_ok s" "gen_at E k s = (r, s')"
  then show "ring_ok s' \<and> ring_cls E s' = ring_cls E s"
    using mread.rd_keeps [of "r_mirror s"]
    by (auto simp: gen_at_run ring_ok_def ring_cls_def fun_eq_iff split: prod.splits sum.splits)
next
  fix s k c s' assume "ring_ok s" "gen_at E k s = (Inr c, s')"
  then show "c = ring_cls E s k"
    using mread.rd_ok [of "r_mirror s"]
    by (auto simp: gen_at_run ring_ok_def ring_cls_def split: prod.splits sum.splits)
next
  fix s k assume "ring_ok s" "slot_readable s k"
  then obtain m where "mirror_read (wadd (r_base s) k) (r_mirror s) = (Inr (view (r_mirror s) (wadd (r_base s) k)), m)"
    "\<forall>j. readable (r_mirror s) j \<longrightarrow> readable m j"
    using mread.rd_avail [of "r_mirror s"] by (auto simp: ring_ok_def slot_readable_def)
  then show "\<exists>s'. gen_at E k s = (Inr (ring_cls E s k), s') \<and> (\<forall>j. slot_readable s j \<longrightarrow> slot_readable s' j)"
    by (auto simp: gen_at_run ring_cls_def slot_readable_def)
qed

lemma gen_at_frame: "gen_at E k r = (x, r') \<Longrightarrow> r_log2 r' = r_log2 r \<and> r_base r' = r_base r \<and> r_head r' = r_head r"
  by (auto simp: gen_at_run split: prod.splits sum.splits)

lemma head_search_newest:
  assumes "head_search E r = (Inr x, r')" and "ring_ok r" and "lap_shaped (ring_cls E r) (ring_n r) G"
  shows "newest_in (ring_cls E r) 0 (ring_n r - 1) x"
  using rslots.search_newest [of E 0 "ring_n r - 1" r "Inr x" r' "ring_n r" G] assms
  by (simp add: head_search_def ring_n_def)

lemma head_search_total:
  assumes "ring_ok r" and "\<forall>k < ring_n r. slot_readable r k"
  shows "\<exists>x r'. head_search E r = (Inr x, r')"
proof -
  have "rslots.all_avail 0 (ring_n r - 1) r" using assms
    by (auto simp: rslots.all_avail_def ring_n_def less_Suc_eq_le [symmetric])
  then have "\<exists>x s'. search_by (gen_at E) 0 (ring_n r - 1) r = (Inr x, s') \<and> rslots.all_avail 0 (ring_n r - 1) s'"
    using conjunct1 [OF rslots.search_total [of "ring_n r - 1 + 1 - 0" E], rule_format, of "ring_n r - 1" 0 0 "ring_n r - 1" r]
    by simp
  then show ?thesis unfolding head_search_def by blast
qed

section \<open>Appending keeps the shape\<close>

lemma lap_shaped_append:
  assumes "lap_shaped cls n G" and "se_gen e = G + 1"
  shows "lap_shaped (cls(se_gen e mod n := Valid e)) n (G + 1)"
  unfolding lap_shaped_def
proof (intro conjI allI impI)
  show n: "0 < n" using assms(1) by (simp add: lap_shaped_def)
  fix s assume s: "s < n"
  show "case (cls(se_gen e mod n := Valid e)) s of
      Valid e \<Rightarrow> se_gen e \<le> G + 1 \<and> G + 1 < se_gen e + n \<and> se_gen e mod n = s | Empty \<Rightarrow> G + 1 < s \<or> s = (G + 1 + 1) mod n | ClsCorrupt \<Rightarrow> True"
  proof (cases "s = se_gen e mod n")
    case True
    then show ?thesis using assms(2) n by simp
  next
    case False
    have old: "case cls s of Valid e \<Rightarrow> se_gen e \<le> G \<and> G < se_gen e + n \<and> se_gen e mod n = s | Empty \<Rightarrow> G < s \<or> s = (G + 1) mod n | ClsCorrupt \<Rightarrow> True"
      using assms(1) s by (simp add: lap_shaped_def)
    show ?thesis
    proof (cases "cls s")
      case (Valid f)
      have "(se_gen f + n) mod n \<noteq> (G + 1) mod n" using old Valid False assms(2) by simp
      then have "se_gen f + n \<noteq> G + 1" by metis
      then show ?thesis using old Valid False by simp
    next
      case Empty
      have "s \<noteq> G + 1" "s \<noteq> (G + 1) mod n" using False assms(2) s by auto
      then show ?thesis using old Empty False by simp
    next
      case ClsCorrupt
      then show ?thesis using False by simp
    qed
  qed
qed

text \<open>A torn write of the next generation leaves the shape, whatever unreadable block it left.\<close>

lemma lap_shaped_torn:
  assumes "lap_shaped cls n G" and "\<And>e. c \<noteq> Valid e"
  shows "lap_shaped (cls((G + 1) mod n := c)) n G"
  using assms by (cases c) (auto simp: lap_shaped_def)

definition ring_fits :: "ring \<Rightarrow> bool" where
  "ring_fits r \<longleftrightarrow> r_base r + ring_n r \<le> U64"

lemma ring_slot_less: "ring_slot (r_log2 r) g < ring_n r"
  by (simp add: ring_slot_eq ring_n_def)

lemma ring_append_cases:
  assumes "ring_append E e r = (Inr u, r')" and ok: "vsf_ok E" and wf: "spine_wf e"
  obtains m where "ring_append_check E r e = Inr ()"
    "write_verified (wadd (r_base r) (ring_slot (r_log2 r) (se_gen e))) (doc_block E SCHEMA (spine_pairs e)) (r_mirror r) = (Inr (), m)"
    "r' = r\<lparr>r_mirror := m, r_head := Some (ring_slot (r_log2 r) (se_gen e), e)\<rparr>"
  using assms
  by (auto simp: ring_append_def Let_def spine_encode_eq [OF ok wf] bindE_def liftE_def modE_def on_mirror_def
      split: sum.splits prod.splits)

lemma ring_append_ok:
  assumes run: "ring_append E e r = (Inr u, r')" and ok: "vsf_ok E" and wf: "spine_wf e" and sane: "spine_sane e"
    and r: "ring_ok r" and fits: "ring_fits r"
  shows "ring_ok r' \<and> ring_fits r' \<and> ring_n r' = ring_n r \<and> r_head r' = Some (se_gen e mod ring_n r, e)
    \<and> (\<forall>k < ring_n r. ring_cls E r' k = ((ring_cls E r)(se_gen e mod ring_n r := Valid e)) k)
    \<and> (\<forall>l. l \<noteq> r_base r + se_gen e mod ring_n r \<longrightarrow> view (r_mirror r') l = view (r_mirror r) l)"
proof -
  let ?slot = "ring_slot (r_log2 r) (se_gen e)" and ?b = "doc_block E SCHEMA (spine_pairs e)"
  obtain m where chk: "ring_append_check E r e = Inr ()"
    and w: "write_verified (wadd (r_base r) ?slot) ?b (r_mirror r) = (Inr (), m)"
    and r': "r' = r\<lparr>r_mirror := m, r_head := Some (?slot, e)\<rparr>"
    by (rule ring_append_cases [OF run ok wf])
  have log: "se_ring_log2 e = r_log2 r" using chk by (auto simp: ring_append_check_def bindR_eq_Inr split: if_splits)
  have len: "length ?b = BLOCK" by (rule length_doc_block [OF ok spine_doc(2) [OF ok wf]])
  have m: "wf_mirror m" "view m = (view (r_mirror r))(wadd (r_base r) ?slot := ?b)"
    using mstore.put_keeps [OF _ len w] mstore.put_ok [OF _ len w] r by (auto simp: ring_ok_def)
  have wa: "wadd (r_base r) k = r_base r + k" if "k < ring_n r" for k using fits that by (simp add: ring_fits_def)
  have slot: "?slot = se_gen e mod ring_n r" by (simp add: ring_slot_eq ring_n_def)
  have n': "ring_n r' = ring_n r" using r' by (simp add: ring_n_def)
  have cls: "ring_cls E r' k = ((ring_cls E r)(se_gen e mod ring_n r := Valid e)) k" if k: "k < ring_n r" for k
  proof (cases "k = ?slot")
    case True
    then show ?thesis using classify_encoded [OF ok wf sane] log by (simp add: ring_cls_def r' m(2) slot)
  next
    case False
    then show ?thesis using wa [OF k] wa [OF ring_slot_less] by (simp add: ring_cls_def r' m(2) slot [symmetric])
  qed
  show ?thesis
    using m cls r' slot n' fits wa [OF ring_slot_less, of "se_gen e"] by (simp add: ring_ok_def ring_fits_def)
qed

lemma lap_shaped_cong:
  "lap_shaped cls n G \<Longrightarrow> (\<And>k. k < n \<Longrightarrow> cls' k = cls k) \<Longrightarrow> lap_shaped cls' n G"
  by (simp add: lap_shaped_def)

text \<open>A ring whose cached head is its newest generation.\<close>

definition ring_inv :: "vsf_env \<Rightarrow> ring \<Rightarrow> bool" where
  "ring_inv E r \<longleftrightarrow> ring_ok r \<and> ring_fits r \<and> (case r_head r of
     None \<Rightarrow> \<forall>k < ring_n r. \<forall>e. ring_cls E r k \<noteq> Valid e
   | Some (slot, h) \<Rightarrow> spine_wf h \<and> slot = se_gen h mod ring_n r \<and> ring_cls E r slot = Valid h
       \<and> lap_shaped (ring_cls E r) (ring_n r) (se_gen h))"

lemma genesis_lap_shaped:
  assumes "se_gen e = 0" and "0 < n" and "\<forall>k < n. \<forall>f. cls k \<noteq> Valid f"
  shows "lap_shaped (cls(0 := Valid e)) n 0"
  using assms by (auto simp: lap_shaped_def split: Classified.splits)

lemma ring_append_inv:
  assumes run: "ring_append E e r = (Inr u, r')" and ok: "vsf_ok E" and wf: "spine_wf e" and sane: "spine_sane e"
    and inv: "ring_inv E r" and nowrap: "r_head r \<noteq> None \<longrightarrow> 0 < se_gen e"
  shows "ring_inv E r' \<and> r_head r' = Some (se_gen e mod ring_n r, e)"
proof -
  have r: "ring_ok r" "ring_fits r" using inv by (auto simp: ring_inv_def)
  note a = ring_append_ok [OF run ok wf sane r]
  have n: "0 < ring_n r" by (simp add: ring_n_def)
  have chk: "ring_append_check E r e = Inr ()" using ring_append_cases [OF run ok wf] by blast
  have "lap_shaped ((ring_cls E r)(se_gen e mod ring_n r := Valid e)) (ring_n r) (se_gen e)"
  proof (cases "r_head r")
    case None
    then have "se_gen e = 0" using chk by (auto simp: ring_append_check_def bindR_eq_Inr split: if_splits)
    then show ?thesis using None inv genesis_lap_shaped [of e "ring_n r" "ring_cls E r"] n by (simp add: ring_inv_def)
  next
    case (Some p)
    obtain sl h where p: "p = (sl, h)" by (cases p)
    have h: "spine_wf h" "lap_shaped (ring_cls E r) (ring_n r) (se_gen h)" using inv Some p by (auto simp: ring_inv_def)
    have g: "se_gen e = wadd (se_gen h) 1"
      using chk Some p by (auto simp: ring_append_check_def bindR_eq_Inr split: if_splits)
    have "se_gen h + 1 \<noteq> U64" using g nowrap Some by (auto simp: wadd_def)
    then have "se_gen h + 1 < U64" using h(1) by (simp add: spine_wf_def)
    then show ?thesis using lap_shaped_append [OF h(2), of e] g by simp
  qed
  then have "lap_shaped (ring_cls E r') (ring_n r) (se_gen e)" by (rule lap_shaped_cong) (use a in simp)
  then show ?thesis using a wf n by (simp add: ring_inv_def)
qed

text \<open>The search finds the cached head again.\<close>

lemma lap_shaped_head:
  assumes "lap_shaped cls n (se_gen h)" and "cls (se_gen h mod n) = Valid h" and "newest_in cls 0 (n - 1) x"
  shows "x = Some (se_gen h mod n, h)"
proof -
  have n: "0 < n" using assms(1) by (simp add: lap_shaped_def)
  have "se_gen h mod n < n" using n by simp
  then have s: "se_gen h mod n \<le> n - 1" by linarith
  obtain k e where x: "x = Some (k, e)" using assms(2,3) s by (cases x) (auto simp: newest_in_None)
  have k: "k < n" "cls k = Valid e" "se_gen h \<le> se_gen e"
    using assms(2,3) s n unfolding x newest_in_Some by auto
  then have "se_gen e \<le> se_gen h \<and> se_gen e mod n = k"
    using assms(1) by (auto simp: lap_shaped_def dest!: spec [where x = k])
  then have "k = se_gen h mod n" using k(3) by (metis order.antisym)
  then show ?thesis using x k assms(2) by simp
qed

lemma head_search_finds_head:
  assumes "ring_inv E r" and "r_head r = Some (s, h)" and "head_search E r = (Inr x, r')"
  shows "x = Some (s, h)"
  using lap_shaped_head [of "ring_cls E r" "ring_n r" h x] head_search_newest [OF assms(3)] assms(1,2)
  by (auto simp: ring_inv_def)

lemma ring_append_refused:
  assumes "ring_append_check E r e = Inl err"
  shows "ring_append E e r = (Inl err, r)"
  using assms by (simp add: ring_append_def bindE_def liftE_def)

lemma ring_append_check_chain:
  assumes "ring_append_check E r e = Inr u"
  shows "se_ring_log2 e = r_log2 r \<and> (case r_head r of
     Some (_, h) \<Rightarrow> se_gen e = wadd (se_gen h) 1 \<and> spine_body_hash E h = Inr (se_prev_hash e)
   | None \<Rightarrow> se_gen e = 0 \<and> se_prev_hash e = replicate 32 0)"
  using assms by (auto simp: ring_append_check_def bindR_eq_Inr split: if_splits option.splits prod.splits)

end
