(* ===== verification/Tract_Model.thy ===== *)
theory Tract_Model
  imports Sealed_Block Mirror_Writes
begin

text \<open>
  The tract of \<open>src/tract.rs\<close>: a two-cursor log ring. \<open>t_plow\<close> and \<open>t_reap\<close> are monotone totals
  with \<open>reap \<le> plow \<le> reap + len\<close>; a cursor's position is its value modulo the length. Appends
  go to the clean space \<open>[plow, reap + len)\<close>, after the space, fence and lap checks, and are staged
  in the mirror. The caller's liveness knowledge (trait \<open>Liveness\<close>) is a record of its two methods.

  \<open>store\<close> is the state these operations run on, the mirror and the tract; the index extends it.
\<close>

section \<open>State\<close>

record tract =
  t_base :: nat
  t_len :: nat
  t_plow :: nat
  t_reap :: nat
  t_fence_limit :: "nat option"

record liveness =
  is_live :: "nat \<Rightarrow> u8 list \<Rightarrow> bool"
  is_referenced :: "nat \<Rightarrow> bool"

definition NoLive :: liveness where
  "NoLive = \<lparr>is_live = (\<lambda>_ _. False), is_referenced = (\<lambda>_. False)\<rparr>"

record Reloc =
  rl_hp :: "u8 list"
  rl_from :: nat
  rl_to :: nat

record store =
  st_mirror :: mirror
  st_tract :: tract

definition with_mirror :: "(mirror, 'x) op \<Rightarrow> ('z store_scheme, 'x) op" where
  "with_mirror f = (\<lambda>s. case f (st_mirror s) of (x, m) \<Rightarrow> (x, s\<lparr>st_mirror := m\<rparr>))"

section \<open>Cursors\<close>

text \<open>\<open>(plow + i) % len\<close>: the remainder by zero panics.\<close>

definition pos_at :: "tract \<Rightarrow> nat \<Rightarrow> nat result" where
  "pos_at t i = (if t_len t = 0 then Inl (Panic ''remainder by zero'')
     else Inr (wadd (t_plow t) i mod t_len t))"

definition tract_position :: "tract \<Rightarrow> nat result" where
  "tract_position t = (if t_len t = 0 then Inl (Panic ''remainder by zero'') else Inr (t_plow t mod t_len t))"

definition tract_lap :: "tract \<Rightarrow> nat result" where
  "tract_lap t = (if t_len t = 0 then Inl (Panic ''division by zero'') else Inr (t_plow t div t_len t))"

definition clean_blocks :: "tract \<Rightarrow> nat" where
  "clean_blocks t = wsub (t_len t) (wsub (t_plow t) (t_reap t))"

section \<open>Appends\<close>

text \<open>The lap guard: a position the index still points at refuses the append.\<close>

definition lap_guard :: "liveness \<Rightarrow> tract \<Rightarrow> nat \<Rightarrow> ('z store_scheme, unit) op" where
  "lap_guard live t i = bindE (liftE (pos_at t i)) (\<lambda>pos.
     if is_referenced live pos
     then bindE (modE (st_mirror_update (emit (LiveLapAverted pos)))) (\<lambda>_. raiseE TractFull)
     else retE ())"

definition stage_at :: "tract \<Rightarrow> (nat \<Rightarrow> block result) \<Rightarrow> nat \<Rightarrow> ('z store_scheme, unit) op" where
  "stage_at t mk i = bindE (liftE (mk i)) (\<lambda>b.
     bindE (liftE (pos_at t i)) (\<lambda>pos.
     modE (st_mirror_update (stage_one (wadd (t_base t) pos) b))))"

definition append_with :: "liveness \<Rightarrow> nat \<Rightarrow> (nat \<Rightarrow> block result) \<Rightarrow> ('z store_scheme, nat list) op" where
  "append_with live n mk = (\<lambda>s. let t = st_tract s in
     if n > clean_blocks t then (Inl TractFull, s)
     else if (case t_fence_limit t of Some limit \<Rightarrow> wadd (t_plow t) n > limit | None \<Rightarrow> False)
     then (Inl (Fenced (t_plow t)), s)
     else bindE (forE [0 ..< n] (lap_guard live t)) (\<lambda>_.
       bindE (modE (st_mirror_update (reserve_staged n))) (\<lambda>_.
       bindE (forE [0 ..< n] (stage_at t mk)) (\<lambda>_.
       bindE (mapE (\<lambda>i. liftE (pos_at t i)) [0 ..< n]) (\<lambda>placed.
       bindE (modE (st_tract_update (t_plow_update (\<lambda>p. wadd p n)))) (\<lambda>_.
       retE placed))))) s)"

definition tract_append :: "liveness \<Rightarrow> block list \<Rightarrow> ('z store_scheme, nat list) op" where
  "tract_append live blocks = append_with live (length blocks) (\<lambda>i. Inr (blocks ! i))"

section \<open>Deletes and reads\<close>

definition zero_delete :: "nat \<Rightarrow> ('z store_scheme, unit) op" where
  "zero_delete lba = (\<lambda>s.
     if lba \<ge> t_len (st_tract s) then (Inl (Bounds lba), s)
     else with_mirror (write_verified (wadd (t_base (st_tract s)) lba) ZERO_BLOCK) s)"

definition tract_read_cached :: "nat \<Rightarrow> ('z store_scheme, block) op" where
  "tract_read_cached lba = (\<lambda>s.
     if lba \<ge> t_len (st_tract s) then (Inl (Bounds lba), s)
     else with_mirror (read_cached (wadd (t_base (st_tract s)) lba)) s)"

definition tract_read_run :: "nat \<Rightarrow> nat \<Rightarrow> ('z store_scheme, block list) op" where
  "tract_read_run lba n = (\<lambda>s.
     if lba \<ge> t_len (st_tract s) \<or> n > wsub (t_len (st_tract s)) lba then (Inl (Bounds lba), s)
     else with_mirror (mirror_read_run (wadd (t_base (st_tract s)) lba) n) s)"

definition tract_read_many :: "nat list \<Rightarrow> ('z store_scheme, block list) op" where
  "tract_read_many lbas = (\<lambda>s.
     bindE (mapE (\<lambda>lba s. if lba \<ge> t_len (st_tract s) then (Inl (Bounds lba), s)
                 else (Inr (wadd (t_base (st_tract s)) lba), s)) lbas)
       (\<lambda>dev. with_mirror (mirror_read_many dev)) s)"

definition tract_read :: "nat \<Rightarrow> ('z store_scheme, block) op" where
  "tract_read lba = (\<lambda>s.
     if lba \<ge> t_len (st_tract s) then (Inl (Bounds lba), s)
     else with_mirror (mirror_read (wadd (t_base (st_tract s)) lba)) s)"

section \<open>The cursor invariant and the clean space\<close>

definition tract_wf :: "tract \<Rightarrow> bool" where
  "tract_wf t \<longleftrightarrow> 0 < t_len t \<and> t_reap t \<le> t_plow t \<and> t_plow t \<le> t_reap t + t_len t
     \<and> t_reap t + 2 * t_len t < U64 \<and> t_base t + t_len t < U64"

lemma clean_blocks_eq:
  assumes "tract_wf t"
  shows "clean_blocks t = t_reap t + t_len t - t_plow t"
proof -
  have t: "t_reap t \<le> t_plow t" "t_plow t \<le> t_reap t + t_len t" "t_plow t + t_len t < U64"
    using assms by (auto simp: tract_wf_def)
  then have "wsub (t_plow t) (t_reap t) = t_plow t - t_reap t" by (intro wsub_eq) auto
  moreover have "wsub (t_len t) (t_plow t - t_reap t) = t_len t - (t_plow t - t_reap t)"
    using t by (intro wsub_eq) auto
  ultimately show ?thesis using t by (simp add: clean_blocks_def)
qed

lemma mod_window_inj:
  assumes "(a :: nat) mod n = b mod n" and "x \<le> a" and "a < x + n" and "x \<le> b" and "b < x + n"
  shows "a = b"
proof -
  have "n dvd a - b \<and> n dvd b - a" using assms(1) by (metis mod_eq_dvd_iff_nat nat_le_linear diff_is_0_eq dvd_0_right)
  moreover have "a - b < n" "b - a < n" using assms by auto
  ultimately have "a - b = 0 \<and> b - a = 0" by (metis nat_dvd_not_less neq0_conv)
  then show ?thesis by simp
qed

definition placed_at :: "tract \<Rightarrow> nat \<Rightarrow> nat list" where
  "placed_at t n = map (\<lambda>i. (t_plow t + i) mod t_len t) [0 ..< n]"

lemma pos_at_eq: "tract_wf t \<Longrightarrow> i \<le> t_len t \<Longrightarrow> pos_at t i = Inr ((t_plow t + i) mod t_len t)"
  by (simp add: pos_at_def tract_wf_def)

lemma placed_at_distinct: "tract_wf t \<Longrightarrow> n \<le> t_len t \<Longrightarrow> distinct (placed_at t n)"
  by (auto simp: placed_at_def distinct_map inj_on_def dest!: mod_window_inj [where x = "t_plow t"])

text \<open>No block between the cursors shares a position with the clean space.\<close>

lemma placed_at_clean:
  assumes "tract_wf t" and "n \<le> clean_blocks t" and "t_reap t \<le> m" and "m < t_plow t"
  shows "m mod t_len t \<notin> set (placed_at t n)"
proof
  assume "m mod t_len t \<in> set (placed_at t n)"
  then obtain i where i: "i < n" "m mod t_len t = (t_plow t + i) mod t_len t" by (auto simp: placed_at_def)
  have "t_reap t \<le> t_plow t" using assms(1) by (simp add: tract_wf_def)
  then have "m = t_plow t + i"
    using i(1) assms(2-4) unfolding clean_blocks_eq [OF assms(1)]
    by (intro mod_window_inj [OF i(2), where x = "t_reap t"]) linarith+
  then show False using assms(4) by simp
qed

section \<open>What an append does\<close>

lemma lap_guard_run:
  assumes "tract_wf t" and "i \<le> t_len t"
  shows "lap_guard live t i s = (if is_referenced live ((t_plow t + i) mod t_len t)
     then (Inl TractFull, s\<lparr>st_mirror := emit (LiveLapAverted ((t_plow t + i) mod t_len t)) (st_mirror s)\<rparr>)
     else (Inr (), s))"
  using assms by (simp add: lap_guard_def pos_at_eq bindE_def liftE_def modE_def raiseE_def retE_def)

lemma lap_guards_run:
  assumes "tract_wf t" and "set is \<subseteq> {..t_len t}"
  shows "(if \<exists>i \<in> set is. is_referenced live ((t_plow t + i) mod t_len t)
     then (\<exists>p. forE is (lap_guard live t) s = (Inl TractFull, s\<lparr>st_mirror := emit (LiveLapAverted p) (st_mirror s)\<rparr>))
     else forE is (lap_guard live t) s = (Inr (), s))"
  using assms(2)
proof (induction "is")
  case Nil
  then show ?case by (simp add: retE_run)
next
  case (Cons i "is")
  then show ?case using lap_guard_run [OF assms(1), of i live s] by (auto simp: bindE_def)
qed

lemma stage_at_run:
  assumes "tract_wf t" and "i < t_len t" and "mk i = Inr b"
  shows "stage_at t mk i s = (Inr (), s\<lparr>st_mirror := stage_one (t_base t + (t_plow t + i) mod t_len t) b (st_mirror s)\<rparr>)"
proof -
  have "(t_plow t + i) mod t_len t < t_len t" using assms by (simp add: tract_wf_def)
  then have "wadd (t_base t) ((t_plow t + i) mod t_len t) = t_base t + (t_plow t + i) mod t_len t"
    using assms(1) by (simp add: tract_wf_def)
  then show ?thesis using assms by (simp add: stage_at_def pos_at_eq bindE_def liftE_def modE_def)
qed

text \<open>The mirror after staging the blocks \<open>mk 0 .. mk (n - 1)\<close> at the positions of \<open>t\<close>.\<close>

primrec staged_upto :: "tract \<Rightarrow> (nat \<Rightarrow> block) \<Rightarrow> nat \<Rightarrow> mirror \<Rightarrow> mirror" where
  "staged_upto t blk 0 m = m"
| "staged_upto t blk (Suc n) m = stage_one (t_base t + (t_plow t + n) mod t_len t) (blk n) (staged_upto t blk n m)"

lemma stage_all_run:
  assumes "tract_wf t" and "n \<le> t_len t" and "\<And>i. i < n \<Longrightarrow> mk i = Inr (blk i)"
  shows "forE [0 ..< n] (stage_at t mk) s = (Inr (), s\<lparr>st_mirror := staged_upto t blk n (st_mirror s)\<rparr>)"
  using assms(2,3)
proof (induction n)
  case 0
  then show ?case by (simp add: retE_run)
next
  case (Suc n)
  then have "forE [0 ..< n] (stage_at t mk) s = (Inr (), s\<lparr>st_mirror := staged_upto t blk n (st_mirror s)\<rparr>)" by simp
  then show ?case
    using Suc.prems stage_at_run [OF assms(1), of n mk "blk n" "s\<lparr>st_mirror := staged_upto t blk n (st_mirror s)\<rparr>"]
    by (simp add: forE_append bindE_def retE_def)
qed

lemma staged_upto_spec:
  assumes "wf_mirror m" and "\<And>i. i < n \<Longrightarrow> length (blk i) = BLOCK"
  shows "wf_mirror (staged_upto t blk n m) \<and> rcount (staged_upto t blk n m) = rcount m
    \<and> quiet_mirror (staged_upto t blk n m) = quiet_mirror m
    \<and> (\<forall>l. l \<notin> (\<lambda>p. t_base t + p) ` set (placed_at t n) \<longrightarrow> view (staged_upto t blk n m) l = view m l)"
  using assms(2)
proof (induction n)
  case 0
  then show ?case using assms(1) by simp
next
  case (Suc n)
  then show ?case using stage_one_spec [of "staged_upto t blk n m" "blk n"] by (auto simp: placed_at_def)
qed

lemma staged_upto_at:
  assumes "wf_mirror m" and "\<And>i. i < n \<Longrightarrow> length (blk i) = BLOCK" and "tract_wf t" and "n \<le> t_len t" and "i < n"
  shows "view (staged_upto t blk n m) (t_base t + (t_plow t + i) mod t_len t) = blk i"
  using assms(2,4,5)
proof (induction n)
  case 0
  then show ?case by simp
next
  case (Suc n)
  have m: "wf_mirror (staged_upto t blk n m)" using staged_upto_spec [OF assms(1), of n blk t] Suc.prems by simp
  have st: "view (staged_upto t blk (Suc n) m) = (view (staged_upto t blk n m))(t_base t + (t_plow t + n) mod t_len t := blk n)"
    using stage_one_spec(2) [OF m] Suc.prems(1) by simp
  show ?case
  proof (cases "i = n")
    case True
    then show ?thesis unfolding st by simp
  next
    case False
    then have "(t_plow t + i) mod t_len t \<noteq> (t_plow t + n) mod t_len t"
      using Suc.prems by (auto dest!: mod_window_inj [where x = "t_plow t"])
    then show ?thesis unfolding st using Suc False by simp
  qed
qed

definition append_allowed :: "liveness \<Rightarrow> tract \<Rightarrow> nat \<Rightarrow> bool" where
  "append_allowed live t n \<longleftrightarrow> t_plow t + n \<le> t_reap t + t_len t
     \<and> (\<forall>limit. t_fence_limit t = Some limit \<longrightarrow> t_plow t + n \<le> limit)
     \<and> (\<forall>p \<in> set (placed_at t n). \<not> is_referenced live p)"

lemma append_allowed_run:
  assumes wf: "tract_wf (st_tract s)" and ok: "append_allowed live (st_tract s) n"
    and mk: "\<And>i. i < n \<Longrightarrow> mk i = Inr (blk i)"
  shows "append_with live n mk s = (Inr (placed_at (st_tract s) n),
     s\<lparr>st_mirror := staged_upto (st_tract s) blk n (reserve_staged n (st_mirror s)),
       st_tract := (st_tract s)\<lparr>t_plow := t_plow (st_tract s) + n\<rparr>\<rparr>)"
proof -
  let ?t = "st_tract s"
  have n: "n \<le> clean_blocks ?t" "n \<le> t_len ?t" "t_plow ?t + n < U64"
    using wf ok by (auto simp: append_allowed_def clean_blocks_eq tract_wf_def)
  then have w: "wadd (t_plow ?t) n = t_plow ?t + n" by simp
  have fence: "\<not> (case t_fence_limit ?t of Some limit \<Rightarrow> wadd (t_plow ?t) n > limit | None \<Rightarrow> False)"
    using ok w by (auto simp: append_allowed_def split: option.splits)
  have g: "forE [0 ..< n] (lap_guard live ?t) s = (Inr (), s)"
    using lap_guards_run [OF wf, of "[0 ..< n]" live s] ok n(2)
    by (auto simp: append_allowed_def placed_at_def subset_eq)
  have p: "mapE (\<lambda>i. liftE (pos_at ?t i)) [0 ..< n] s' = (Inr (placed_at ?t n), s')" for s' :: "'a store_scheme"
    unfolding placed_at_def using wf n(2) by (intro mapE_pure) (simp add: pos_at_eq liftE_run)
  have st: "forE [0 ..< n] (stage_at ?t mk) (st_mirror_update (reserve_staged n) s)
      = (Inr (), s\<lparr>st_mirror := staged_upto ?t blk n (reserve_staged n (st_mirror s))\<rparr>)"
    using stage_all_run [OF wf n(2), of mk blk "st_mirror_update (reserve_staged n) s"] mk by simp
  show ?thesis
    using n(1) fence g w st p
    by (simp add: append_with_def Let_def bindE_def modE_def retE_def)
qed

lemma append_refused:
  assumes wf: "tract_wf (st_tract s)" and no: "\<not> append_allowed live (st_tract s) n" and "t_plow (st_tract s) + n < U64"
  shows "\<exists>e ev. append_with live n mk s = (Inl e, s\<lparr>st_mirror := (st_mirror s)\<lparr>m_events := m_events (st_mirror s) @ ev\<rparr>\<rparr>)
     \<and> (e = TractFull \<or> e = Fenced (t_plow (st_tract s)))"
proof -
  let ?t = "st_tract s"
  have w: "wadd (t_plow ?t) n = t_plow ?t + n" using assms(3) by simp
  have same: "s = s\<lparr>st_mirror := (st_mirror s)\<lparr>m_events := m_events (st_mirror s) @ []\<rparr>\<rparr>" by simp
  consider (full) "n > clean_blocks ?t"
    | (fence) limit where "n \<le> clean_blocks ?t" "t_fence_limit ?t = Some limit" "t_plow ?t + n > limit"
    | (lap) "n \<le> clean_blocks ?t" "\<not> (case t_fence_limit ?t of Some limit \<Rightarrow> wadd (t_plow ?t) n > limit | None \<Rightarrow> False)"
        "\<exists>p \<in> set (placed_at ?t n). is_referenced live p"
  proof -
    assume a: "clean_blocks ?t < n \<Longrightarrow> thesis"
      and b: "\<And>limit. n \<le> clean_blocks ?t \<Longrightarrow> t_fence_limit ?t = Some limit \<Longrightarrow> limit < t_plow ?t + n \<Longrightarrow> thesis"
      and c: "n \<le> clean_blocks ?t \<Longrightarrow> \<not> (case t_fence_limit ?t of None \<Rightarrow> False | Some limit \<Rightarrow> limit < wadd (t_plow ?t) n) \<Longrightarrow>
        \<exists>p \<in> set (placed_at ?t n). is_referenced live p \<Longrightarrow> thesis"
    have "n \<le> clean_blocks ?t \<longleftrightarrow> t_plow ?t + n \<le> t_reap ?t + t_len ?t"
      using wf unfolding clean_blocks_eq [OF wf] by (auto simp: tract_wf_def)
    then show thesis using a b c no unfolding append_allowed_def w
      by (cases "t_fence_limit ?t") (auto simp: not_le)
  qed
  then show ?thesis
  proof cases
    case full
    then have "append_with live n mk s = (Inl TractFull, s)" by (simp add: append_with_def Let_def)
    then show ?thesis using same by metis
  next
    case (fence limit)
    then have "append_with live n mk s = (Inl (Fenced (t_plow ?t)), s)" using w by (simp add: append_with_def Let_def)
    then show ?thesis using same by metis
  next
    case lap
    then have "n \<le> t_len ?t" using wf by (auto simp: clean_blocks_eq tract_wf_def)
    then obtain p where "forE [0 ..< n] (lap_guard live ?t) s = (Inl TractFull, s\<lparr>st_mirror := emit (LiveLapAverted p) (st_mirror s)\<rparr>)"
      using lap_guards_run [OF wf, of "[0 ..< n]" live s] lap(3) by (auto simp: placed_at_def subset_eq split: if_splits)
    then show ?thesis using lap(1,2) by (auto simp: append_with_def Let_def bindE_def emit_def)
  qed
qed

end
