(* ===== verification/Ref_Codec.thy ===== *)
theory Ref_Codec
  imports Sealed_Block
begin

text \<open>
  A concrete value encoding and hash that meet \<open>vsf_ok\<close>: the assumption is satisfiable, and the
  witnesses of the development's theorems run on it. A value is a tag byte, a length where it has
  one, and its bytes; the hash is a constant.
\<close>

primrec to_bytes :: "nat \<Rightarrow> nat \<Rightarrow> u8 list" where
  "to_bytes 0 n = []"
| "to_bytes (Suc k) n = of_nat n # to_bytes k (n div 256)"

primrec from_bytes :: "u8 list \<Rightarrow> nat" where
  "from_bytes [] = 0"
| "from_bytes (b # bs) = unat b + 256 * from_bytes bs"

lemma length_to_bytes [simp]: "length (to_bytes k n) = k"
  by (induction k arbitrary: n) auto

lemma from_to_bytes: "from_bytes (to_bytes k n) = n mod 256 ^ k"
proof (induction k arbitrary: n)
  case 0
  then show ?case by simp
next
  case (Suc k)
  have "unat (of_nat n :: u8) = n mod 256" by (simp add: unat_of_nat)
  then show ?case by (simp add: Suc mod_mult2_eq)
qed

definition ref_flatten :: "VsfType \<Rightarrow> u8 list" where
  "ref_flatten v = (case v of
     V_d s \<Rightarrow> 0x64 # of_nat (length s) # map (\<lambda>c. of_nat (of_char c)) s
   | V_hp h \<Rightarrow> 0x68 # h
   | V_u n _ \<Rightarrow> 0x75 # to_bytes 8 n
   | V_v t bs \<Rightarrow> 0x76 # t # to_bytes 2 (length bs) @ bs
   | V_e6 t \<Rightarrow> 0x65 # to_bytes 8 (nat (t + 2 ^ 63))
   | _ \<Rightarrow> [0])"

definition ref_take :: "u8 list \<Rightarrow> (VsfType \<times> nat) option" where
  "ref_take bs = (case bs of [] \<Rightarrow> None | t # r \<Rightarrow>
     (if t = 0x64 then
        (case r of [] \<Rightarrow> None | l # r \<Rightarrow>
           (if unat l \<le> length r then Some (V_d (map (\<lambda>b. char_of (unat b)) (take (unat l) r)), 2 + unat l) else None))
      else if t = 0x68 then (if 32 \<le> length r then Some (V_hp (take 32 r), 33) else None)
      else if t = 0x75 then (if 8 \<le> length r then Some (V_u6 (from_bytes (take 8 r)), 9) else None)
      else if t = 0x65 then (if 8 \<le> length r then Some (V_e6 (int (from_bytes (take 8 r)) - 2 ^ 63), 9) else None)
      else if t = 0x76 then
        (if 3 \<le> length r then
           (let n = from_bytes (take 2 (drop 1 r)) in
            if n \<le> length (drop 3 r) then Some (V_v (hd r) (take n (drop 3 r)), 4 + n) else None)
         else None)
      else None))"

definition ref_env :: vsf_env where
  "ref_env = \<lparr>vsf_flatten = ref_flatten,
     vsf_parse = (\<lambda>b p. map_option (\<lambda>(v, n). (v, p + n)) (ref_take (drop p b))),
     blake3 = (\<lambda>_. replicate 32 1)\<rparr>"

lemma ref_take_length: "ref_take bs = Some (v, n) \<Longrightarrow> 0 < n \<and> n \<le> length bs"
  by (auto simp: ref_take_def Let_def split: list.splits if_splits)

lemma char_bytes: "map (\<lambda>b. char_of (unat b)) (map (\<lambda>c. of_nat (of_char c) :: u8) s) = s"
proof (induction s)
  case Nil
  then show ?case by simp
next
  case (Cons c s)
  have "unat (of_nat (of_char c) :: u8) = of_char c mod 256" unfolding unat_of_nat by simp
  then have "unat (of_nat (of_char c) :: u8) = of_char c" by simp
  then show ?case using Cons by simp
qed

lemma ref_take_flatten:
  assumes "vsf_wf v"
  shows "\<exists>w. vsf_same v w \<and> ref_take (ref_flatten v @ ys) = Some (w, length (ref_flatten v))"
proof (cases v)
  case (V_d s)
  have "unat (of_nat (length s) :: u8) = length s" using assms V_d by (simp add: vsf_wf_def unat_of_nat)
  moreover have "map (\<lambda>b. char_of (unat b)) (take (length s) (map (\<lambda>c. of_nat (of_char c) :: u8) s @ ys)) = s"
    using char_bytes [of s] by simp
  ultimately show ?thesis using V_d by (simp add: ref_take_def ref_flatten_def vsf_same_def)
next
  case (V_hp h)
  then show ?thesis using assms by (simp add: ref_take_def ref_flatten_def vsf_same_def vsf_wf_def)
next
  case (V_u n f)
  have "n mod 256 ^ 8 = n" using assms V_u by (simp add: vsf_wf_def)
  then show ?thesis using assms V_u
    by (simp add: ref_take_def ref_flatten_def vsf_same_def vsf_wf_def as_u64_def from_to_bytes)
next
  case (V_v t bs)
  have "length bs mod 256 ^ 2 = length bs" using assms V_v by (simp add: vsf_wf_def BLOCK_def)
  moreover have "take 2 (to_bytes 2 (length bs) @ bs @ ys) = to_bytes 2 (length bs)" by simp
  ultimately show ?thesis using V_v
    by (simp add: ref_take_def ref_flatten_def vsf_same_def Let_def from_to_bytes)
next
  case (V_e6 t)
  have "nat (t + 2 ^ 63) < 256 ^ 8" using assms V_e6 by (simp add: vsf_wf_def nat_less_iff)
  then have "nat (t + 2 ^ 63) mod 256 ^ 8 = nat (t + 2 ^ 63)" by (rule mod_less)
  then show ?thesis using assms V_e6
    by (simp add: ref_take_def ref_flatten_def vsf_same_def vsf_wf_def from_to_bytes)
qed (use assms in \<open>simp_all add: vsf_wf_def\<close>)

lemma ref_env_ok: "vsf_ok ref_env"
  unfolding vsf_ok_def
proof (intro conjI allI impI)
  fix v xs ys assume "vsf_wf v"
  then obtain w where "vsf_same v w" "ref_take (ref_flatten v @ ys) = Some (w, length (ref_flatten v))"
    using ref_take_flatten by blast
  then show "\<exists>w. vsf_same v w \<and> vsf_parse ref_env (xs @ vsf_flatten ref_env v @ ys) (length xs)
      = Some (w, length xs + length (vsf_flatten ref_env v))" by (simp add: ref_env_def)
next
  fix b p v q assume "vsf_parse ref_env b p = Some (v, q)"
  then obtain n where n: "ref_take (drop p b) = Some (v, n)" "q = p + n" by (auto simp: ref_env_def)
  then have "0 < n" "n \<le> length (drop p b)" using ref_take_length by blast+
  then show "p < q" and "q \<le> length b" using n by auto
next
  fix s :: string
  show "\<exists>bs. vsf_flatten ref_env (V_d s) = 0x64 # bs" by (simp add: ref_env_def ref_flatten_def)
next
  fix v assume "vsf_wf v"
  then show "length (vsf_flatten ref_env v) \<le> vsf_width v"
    by (cases v) (auto simp: ref_env_def ref_flatten_def vsf_width_def vsf_wf_def)
next
  fix h k :: "u8 list" assume "length h = 32" "length k = 32"
  then show "length (vsf_flatten ref_env (V_hp h)) = length (vsf_flatten ref_env (V_hp k))"
    by (simp add: ref_env_def ref_flatten_def)
next
  fix bs show "length (blake3 ref_env bs) = 32" by (simp add: ref_env_def)
qed

end
