(* ===== verification/Fresh_Vault.thy ===== *)
theory Fresh_Vault
  imports Ring_Props Tract_Model Ref_Codec
begin

text \<open>
  Freshly created state: zeroed healthy devices, the mirror over a pair of them, an empty ring and
  an empty tract. The concrete states the witnesses run on, and that a healthy primary makes every
  write of the mirror succeed.
\<close>

section \<open>Zeroed devices\<close>

definition fresh_dev :: "nat \<Rightarrow> filedev" where
  "fresh_dev n = \<lparr>fd_file = replicate n ZERO_BLOCK, fd_blocks = n, fd_faults = []\<rparr>"

definition fresh_mirror :: "nat \<Rightarrow> mirror" where
  "fresh_mirror n = mirror_new (fresh_dev n) (fresh_dev n)"

definition fresh_ring :: "nat \<Rightarrow> nat \<Rightarrow> ring" where
  "fresh_ring n rl = \<lparr>r_mirror = fresh_mirror n, r_log2 = rl, r_base = 0, r_head = None\<rparr>"

definition fresh_tract :: "nat \<Rightarrow> nat \<Rightarrow> tract" where
  "fresh_tract base len = \<lparr>t_base = base, t_len = len, t_plow = 0, t_reap = 0, t_fence_limit = None\<rparr>"

lemma fresh_dev_simps [simp]:
  "fd_file (fresh_dev n) = replicate n ZERO_BLOCK" "fd_blocks (fresh_dev n) = n" "fd_faults (fresh_dev n) = []"
  by (simp_all add: fresh_dev_def)

lemma fresh_dev_wf [simp]: "wf_dev (fresh_dev n) \<longleftrightarrow> n < U64"
  by (auto simp: wf_dev_def)

lemma fresh_dev_healthy [simp]: "healthy (fresh_dev n)"
  by (simp add: healthy_def)

lemma fresh_mirror_simps [simp]:
  "m_a (fresh_mirror n) = Some (fresh_dev n)" "m_b (fresh_mirror n) = Some (fresh_dev n)"
  "m_pending (fresh_mirror n) = []" "m_cache (fresh_mirror n) = []" "m_uses (fresh_mirror n) = 0"
  "rdev (fresh_mirror n) = Some (fresh_dev n)" "staged (fresh_mirror n) = []"
  "m_degraded (fresh_mirror n) = False" "m_events (fresh_mirror n) = []"
  by (simp_all add: fresh_mirror_def mirror_new_def rdev_def staged_def)

lemma fresh_mirror_find [simp]: "find_staged (fresh_mirror n) l = None"
  by (simp add: find_staged_eq)

lemma fresh_mirror_count [simp]: "rcount (fresh_mirror n) = n"
  by (simp add: rcount_def)

lemma fresh_mirror_wf [simp]: "wf_mirror (fresh_mirror n) \<longleftrightarrow> n < U64"
  by (auto simp: wf_mirror_def cache_ok_def)

lemma fresh_mirror_quiet [simp]: "quiet_mirror (fresh_mirror n)"
  by (simp add: quiet_mirror_def)

lemma fresh_mirror_view [simp]: "l < n \<Longrightarrow> view (fresh_mirror n) l = ZERO_BLOCK"
  by (simp add: view_def rcontent_def dev_content_def)

lemma fresh_ring_simps [simp]:
  "r_mirror (fresh_ring n rl) = fresh_mirror n" "r_log2 (fresh_ring n rl) = rl" "r_base (fresh_ring n rl) = 0"
  "r_head (fresh_ring n rl) = None" "ring_n (fresh_ring n rl) = 2 ^ rl"
  by (simp_all add: fresh_ring_def ring_n_def)

lemma fresh_ring_cls: "k < n \<Longrightarrow> n < U64 \<Longrightarrow> ring_cls E (fresh_ring n rl) k = Empty"
  by (simp add: ring_cls_def)

lemma fresh_ring_inv: "2 ^ rl \<le> n \<Longrightarrow> n < U64 \<Longrightarrow> ring_inv E (fresh_ring n rl)"
  by (auto simp: ring_inv_def ring_ok_def ring_fits_def fresh_ring_cls)

lemma fresh_tract_simps [simp]:
  "t_base (fresh_tract b l) = b" "t_len (fresh_tract b l) = l" "t_plow (fresh_tract b l) = 0"
  "t_reap (fresh_tract b l) = 0" "t_fence_limit (fresh_tract b l) = None"
  by (simp_all add: fresh_tract_def)

lemma fresh_tract_wf [simp]: "tract_wf (fresh_tract b l) \<longleftrightarrow> 0 < l \<and> 2 * l < U64 \<and> b + l < U64"
  by (auto simp: tract_wf_def)

section \<open>A healthy primary makes writes succeed\<close>

text \<open>Whatever the secondary does: it is dropped when it fails.\<close>

lemma secondary_ok: "\<exists>m'. secondary f m = (Inr (), m') \<and> m_a m' = m_a m"
  by (auto simp: secondary_def drop_secondary_def split: option.splits prod.splits sum.splits)

lemma primary_then_secondary_ok:
  assumes "m_a m = Some a" and "f a = (Inr (), a')"
  shows "\<exists>m'. primary_then_secondary f m = (Inr (), m') \<and> m_a m' = Some a'"
  using assms secondary_ok [of f "m\<lparr>m_a := Some a'\<rparr>"]
  by (auto simp: primary_then_secondary_def on_a_def bindE_def)

lemma both_devices_ok:
  assumes "m_a m = Some a" and "f a = (Inr (), a')"
  shows "\<exists>m'. both_devices f m = (Inr (), m')"
proof (cases "m_b m")
  case None
  then show ?thesis using primary_then_secondary_ok [of m a f a'] assms by (auto simp: both_devices_def)
next
  case (Some b)
  then show ?thesis using assms by (auto simp: both_devices_def Let_def split: prod.splits sum.splits)
qed

lemma batch_now_ok:
  assumes "m_a m = Some a" and "wf_dev a" and "healthy a" and "\<forall>(l, b) \<in> set bs. length b = BLOCK \<and> l < fd_blocks a"
  shows "\<exists>m'. write_verified_batch_now bs m = (Inr (), m')"
proof -
  obtain a' where a': "dev_write_each bs a = (Inr (), a')"
    using fdev_runs.write_each_quiet [of a bs] assms(2-4) unfolding dev_write_each_def by auto
  let ?m = "fold (\<lambda>(l, _). forget l) bs m"
  have "m_a ?m = Some a" using assms(1) by simp
  then show ?thesis using both_devices_ok [of ?m a "dev_write_each bs" a'] primary_then_secondary_ok [of ?m a "dev_write_each bs" a'] a'
    by (auto simp: write_verified_batch_now_def bindE_def modE_def)
qed

lemma write_verified_ok:
  assumes "m_a m = Some a" and "wf_dev a" and "healthy a" and "m_pending m = []" and "l < fd_blocks a" and "length b = BLOCK"
  shows "\<exists>m'. write_verified l b m = (Inr (), m') \<and> quiet_mirror m'"
proof -
  obtain a' where a': "dev_write_one l b a = (Inr (), a')" "healthy a'"
    using fdev.write_one_quiet [OF assms(2,3,5,6)] unfolding dev_write_one_def by auto
  have "m_a (forget l m) = Some a" using assms(1) by simp
  then obtain m' where "primary_then_secondary (dev_write_one l b) (forget l m) = (Inr (), m')" "m_a m' = Some a'"
    using primary_then_secondary_ok [of "forget l m" a "dev_write_one l b" a'] a' by blast
  then show ?thesis using assms(4) a'(2)
    by (simp add: write_verified_def drain_def bindE_def modE_def quiet_mirror_def rdev_def)
qed

end
