(* ===== verification/Host_Files.thy ===== *)
theory Host_Files
  imports Block_Dev
begin

text \<open>
  Device files on the host (\<open>FileDev::create\<close> and \<open>FileDev::open\<close> of \<open>src/host.rs\<close>): adoption of an
  existing file, preallocation, and the one-engine-per-file rule that an exclusive lock enforces. The
  operating system is a state of its own: the bytes of the files, the locks that live handles hold,
  whether the filesystem takes \<open>O_DIRECT\<close>, and a script of system calls that are to fail.
\<close>

section \<open>The host\<close>

record host =
  hf_files :: "string \<rightharpoonup> u8 list"
  hf_locks :: "string list"
  hf_direct :: bool
  hf_calls :: "bool list"

text \<open>One system call; the script says whether it fails.\<close>

definition sys_call :: "(host, unit) op" where
  "sys_call = (\<lambda>h. case hf_calls h of
     [] \<Rightarrow> (Inr (), h)
   | fails # cs \<Rightarrow> (if fails then Inl Io else Inr (), h\<lparr>hf_calls := cs\<rparr>))"

definition file_bytes :: "string \<Rightarrow> host \<Rightarrow> u8 list" where
  "file_bytes path h = (case hf_files h path of Some bs \<Rightarrow> bs | None \<Rightarrow> [])"

definition set_bytes :: "string \<Rightarrow> u8 list \<Rightarrow> host \<Rightarrow> host" where
  "set_bytes path bs h = h\<lparr>hf_files := (hf_files h)(path \<mapsto> bs)\<rparr>"

text \<open>\<open>OpenOptions::open\<close> with read and write, and with create as well.\<close>

definition sys_open :: "string \<Rightarrow> (host, unit) op" where
  "sys_open path = bindE sys_call (\<lambda>_ h. if hf_files h path = None then (Inl Io, h) else (Inr (), h))"

definition sys_create :: "string \<Rightarrow> (host, unit) op" where
  "sys_create path = bindE sys_call (\<lambda>_. modE (\<lambda>h. set_bytes path (file_bytes path h) h))"

text \<open>The handle is dropped: its lock goes with it.\<close>

definition close_file :: "string \<Rightarrow> host \<Rightarrow> host" where
  "close_file path h = h\<lparr>hf_locks := remove1 path (hf_locks h)\<rparr>"

section \<open>\<open>FileDev\<close>\<close>

definition open_rw :: "string \<Rightarrow> (host, bool) op" where
  "open_rw path =
     bindE (tryE (bindE (sys_open path) (\<lambda>_ h. if hf_direct h then (Inr (), h) else (Inl Io, h)))) (\<lambda>direct.
     case direct of
       Inr _ \<Rightarrow> retE True
     | Inl _ \<Rightarrow> bindE (sys_open path) (\<lambda>_. retE False))"

definition lock_exclusive :: "string \<Rightarrow> (host, unit) op" where
  "lock_exclusive path =
     bindE sys_call (\<lambda>_ h.
       if path \<in> set (hf_locks h) then (Inl (Busy path), h) else (Inr (), h\<lparr>hf_locks := path # hf_locks h\<rparr>))"

definition preallocate :: "string \<Rightarrow> nat \<Rightarrow> (host, unit) op" where
  "preallocate path len =
     bindE (tryE sys_call) (\<lambda>fallocated. case fallocated of
       Inr _ \<Rightarrow> modE (\<lambda>h. let bs = file_bytes path h in set_bytes path (bs @ replicate (len - length bs) 0) h)
     | Inl _ \<Rightarrow> bindE sys_call (\<lambda>_.
         modE (\<lambda>h. let bs = file_bytes path h in set_bytes path (take len (bs @ replicate (len - length bs) 0)) h)))"

text \<open>The blocks of a file, as the positioned transfers see them.\<close>

definition file_blocks :: "u8 list \<Rightarrow> block list" where
  "file_blocks bs = map (\<lambda>i. take BLOCK (drop (i * BLOCK) bs)) [0 ..< length bs div BLOCK]"

text \<open>The file read and checked under the lock; whatever fails drops the handle.\<close>

definition adopt_locked :: "string \<Rightarrow> bool \<Rightarrow> (host, filedev \<times> bool) op" where
  "adopt_locked path direct = (\<lambda>h.
     case bindE sys_call (\<lambda>_ h. (filedev_open (length (file_bytes path h)) (file_blocks (file_bytes path h)) [], h)) h of
       (Inl e, h') \<Rightarrow> (Inl e, close_file path h')
     | (Inr d, h') \<Rightarrow> (Inr (d, direct), h'))"

definition host_open :: "string \<Rightarrow> (host, filedev \<times> bool) op" where
  "host_open path =
     bindE (open_rw path) (\<lambda>direct.
     bindE (lock_exclusive path) (\<lambda>_. adopt_locked path direct))"

definition host_create :: "string \<Rightarrow> nat \<Rightarrow> (host, filedev \<times> bool) op" where
  "host_create path blocks =
     bindE (sys_create path) (\<lambda>_.
     bindE (bindE sys_call (\<lambda>_. getE (\<lambda>h. length (file_bytes path h)))) (\<lambda>len.
     let want = wmul blocks BLOCK in
     bindE (if len < want then preallocate path want else retE ()) (\<lambda>_.
     bindE sys_call (\<lambda>_.
     host_open path))))"

section \<open>What they keep\<close>

text \<open>Files only ever grow, and by zeros; the other files stay as they are.\<close>

definition extends :: "string \<Rightarrow> host \<Rightarrow> host \<Rightarrow> bool" where
  "extends path h h' \<longleftrightarrow> (\<forall>p. p \<noteq> path \<longrightarrow> hf_files h' p = hf_files h p)
     \<and> (\<exists>n. file_bytes path h' = file_bytes path h @ replicate n 0)"

text \<open>A step that leaves the files and the locks alone.\<close>

definition idle :: "host \<Rightarrow> host \<Rightarrow> bool" where
  "idle h h' \<longleftrightarrow> hf_files h' = hf_files h \<and> hf_locks h' = hf_locks h \<and> hf_direct h' = hf_direct h"

lemma idle_refl: "idle h h"
  by (simp add: idle_def)

lemma idle_trans: "idle h h1 \<Longrightarrow> idle h1 h2 \<Longrightarrow> idle h h2"
  by (simp add: idle_def)

lemma idle_bytes: "idle h h' \<Longrightarrow> file_bytes path h' = file_bytes path h"
  by (simp add: idle_def file_bytes_def)

lemma sys_call_idle: "sys_call h = (r, h') \<Longrightarrow> idle h h'"
  by (auto simp: sys_call_def idle_def split: list.splits)

lemma sys_call_quiet: "hf_calls h = [] \<Longrightarrow> sys_call h = (Inr (), h)"
  by (simp add: sys_call_def)

lemma sys_open_idle: "sys_open path h = (r, h') \<Longrightarrow> idle h h' \<and> (\<forall>u. r = Inr u \<longrightarrow> hf_files h path \<noteq> None)"
  unfolding sys_open_def by (erule bindE_cases) (auto dest!: sys_call_idle simp: idle_def split: if_splits)

lemma open_rw_idle:
  assumes "open_rw path h = (r, h')"
  shows "idle h h' \<and> (\<forall>u. r = Inr u \<longrightarrow> hf_files h path \<noteq> None)"
proof -
  let ?d = "bindE (sys_open path) (\<lambda>_ h. if hf_direct h then (Inr (), h) else (Inl Io, h))"
  have d: "idle h h1 \<and> (\<forall>u. q = Inr u \<longrightarrow> hf_files h path \<noteq> None)" if "?d h = (q, h1)" for q h1
    using that by (rule bindE_cases) (auto dest!: sys_open_idle split: if_splits)
  obtain q h1 where q: "?d h = (q, h1)" by (cases "?d h")
  have run: "(case q of Inr _ \<Rightarrow> retE True | Inl _ \<Rightarrow> bindE (sys_open path) (\<lambda>_. retE False)) h1 = (r, h')"
    using assms q by (simp add: open_rw_def tryE_def bindE_def)
  show ?thesis
  proof (cases q)
    case (Inl e)
    then have "bindE (sys_open path) (\<lambda>_. retE False) h1 = (r, h')" using run by simp
    then show ?thesis
      by (rule bindE_cases) (use d [OF q] in \<open>auto simp: retE_run idle_def dest!: sys_open_idle\<close>)
  next
    case (Inr u)
    then show ?thesis using run d [OF q] by (auto simp: retE_run)
  qed
qed

lemma extends_idle: "idle h h' \<Longrightarrow> extends path h h'"
  by (auto simp: extends_def idle_def file_bytes_def intro: exI [of _ 0])

lemma extends_trans: "extends path h h1 \<Longrightarrow> extends path h1 h2 \<Longrightarrow> extends path h h2"
  by (auto simp: extends_def replicate_add [symmetric])

lemma extends_set: "file_bytes path h @ replicate n 0 = bs \<Longrightarrow> extends path h (set_bytes path bs h)"
  by (auto simp: extends_def set_bytes_def file_bytes_def)

lemma file_bytes_set [simp]: "file_bytes path (set_bytes path bs h) = bs"
  by (simp add: file_bytes_def set_bytes_def)

lemma locks_set [simp]: "hf_locks (set_bytes path bs h) = hf_locks h"
  by (simp add: set_bytes_def)

lemma sys_create_spec:
  assumes "sys_create path h = (r, h')"
  shows "extends path h h' \<and> hf_locks h' = hf_locks h \<and> file_bytes path h' = file_bytes path h"
  using assms unfolding sys_create_def
proof (cases rule: bindE_cases)
  case (err e)
  then show ?thesis using sys_call_idle [OF err(1)] extends_idle by (auto simp: idle_def idle_bytes [OF sys_call_idle [OF err(1)]])
next
  case (ok u h1)
  have i: "idle h h1" by (rule sys_call_idle [OF ok(1)])
  have "h' = set_bytes path (file_bytes path h1) h1" using ok(2) by (simp add: modE_def)
  then show ?thesis
    using extends_trans [OF extends_idle [OF i] extends_set [of path h1 0]] idle_bytes [OF i] i by (simp add: idle_def)
qed

lemma preallocate_spec:
  assumes run: "preallocate path len h = (r, h')" and len: "length (file_bytes path h) \<le> len"
  shows "extends path h h' \<and> hf_locks h' = hf_locks h \<and> (\<forall>u. r = Inr u \<longrightarrow> length (file_bytes path h') = len)"
proof -
  obtain q h1 where q: "sys_call h = (q, h1)" by (cases "sys_call h")
  have i: "idle h h1" by (rule sys_call_idle [OF q])
  let ?bs = "\<lambda>h. file_bytes path h @ replicate (len - length (file_bytes path h)) 0"
  have done1: "extends path h (set_bytes path (?bs h2) h2) \<and> hf_locks h2 = hf_locks h \<and> length (?bs h2) = len" if "idle h h2" for h2
    using extends_trans [OF extends_idle [OF that] extends_set [of path h2]] idle_bytes [OF that] len that by (simp add: idle_def)
  show ?thesis
  proof (cases q)
    case (Inl e)
    then have "bindE sys_call (\<lambda>_. modE (\<lambda>h. set_bytes path (take len (?bs h)) h)) h1 = (r, h')"
      using run q by (simp add: preallocate_def bindE_def tryE_def Let_def)
    then show ?thesis
    proof (cases rule: bindE_cases)
      case (err e)
      then show ?thesis using idle_trans [OF i sys_call_idle [OF err(1)]] extends_idle by (auto simp: idle_def)
    next
      case (ok u h2)
      note i2 = idle_trans [OF i sys_call_idle [OF ok(1)]]
      have "take len (?bs h2) = ?bs h2" using idle_bytes [OF i2] len by simp
      then show ?thesis using ok(2) done1 [OF i2] by (auto simp: modE_def)
    qed
  next
    case (Inr u)
    then have "h' = set_bytes path (?bs h1) h1" using run q by (simp add: preallocate_def bindE_def tryE_def modE_def Let_def)
    then show ?thesis using done1 [OF i] by simp
  qed
qed

section \<open>Opening\<close>

text \<open>A device over the whole of a file of aligned length.\<close>

definition device_of :: "u8 list \<Rightarrow> filedev \<Rightarrow> bool" where
  "device_of bs d \<longleftrightarrow> length bs mod BLOCK = 0 \<and> d = \<lparr>fd_file = file_blocks bs, fd_blocks = length bs div BLOCK, fd_faults = []\<rparr>"

lemma concat_blocks: "length bs = n * BLOCK \<Longrightarrow> concat (map (\<lambda>i. take BLOCK (drop (i * BLOCK) bs)) [0 ..< n]) = bs"
proof (induction n arbitrary: bs)
  case (Suc n)
  have len: "length (take (n * BLOCK) bs) = n * BLOCK" using Suc.prems by simp
  have "take BLOCK (drop (i * BLOCK) (take (n * BLOCK) bs)) = take BLOCK (drop (i * BLOCK) bs)" if "i < n" for i
  proof -
    have "i * BLOCK + BLOCK \<le> n * BLOCK" using that by (metis Suc_leI add.commute mult_Suc mult_le_mono1)
    then show ?thesis by (simp add: drop_take min_def)
  qed
  then have "map (\<lambda>i. take BLOCK (drop (i * BLOCK) bs)) [0 ..< n] = map (\<lambda>i. take BLOCK (drop (i * BLOCK) (take (n * BLOCK) bs))) [0 ..< n]"
    by simp
  then have "concat (map (\<lambda>i. take BLOCK (drop (i * BLOCK) bs)) [0 ..< n]) = take (n * BLOCK) bs" using Suc.IH [OF len] by (simp only:)
  moreover have "take BLOCK (drop (n * BLOCK) bs) = drop (n * BLOCK) bs" using Suc.prems by simp
  ultimately show ?case by (simp add: append_take_drop_id)
qed simp

lemma filedev_open_spec:
  "filedev_open (length bs) (file_blocks bs) [] = (if length bs mod BLOCK = 0
     then Inr \<lparr>fd_file = file_blocks bs, fd_blocks = length bs div BLOCK, fd_faults = []\<rparr> else Inl (Corrupt ''file length is not 4KB-aligned''))"
  by (simp add: filedev_open_def)

lemma device_of_spans:
  assumes "device_of bs d"
  shows "fd_blocks d * BLOCK = length bs" "length (fd_file d) = fd_blocks d" "concat (fd_file d) = bs" "\<forall>b \<in> set (fd_file d). length b = BLOCK"
proof -
  have d: "length bs mod BLOCK = 0" "d = \<lparr>fd_file = file_blocks bs, fd_blocks = length bs div BLOCK, fd_faults = []\<rparr>"
    using assms by (auto simp: device_of_def)
  have n: "length bs = (length bs div BLOCK) * BLOCK" using d(1) by (metis add.right_neutral div_mult_mod_eq)
  have "length (take BLOCK (drop (i * BLOCK) bs)) = BLOCK" if "i < length bs div BLOCK" for i
  proof -
    have "i * BLOCK + BLOCK \<le> (length bs div BLOCK) * BLOCK" using that by (metis Suc_leI add.commute mult_Suc mult_le_mono1)
    then show ?thesis using n by simp
  qed
  then show "\<forall>b \<in> set (fd_file d). length b = BLOCK" by (auto simp: d(2) file_blocks_def)
  show "fd_blocks d * BLOCK = length bs" "length (fd_file d) = fd_blocks d" "concat (fd_file d) = bs"
    using n concat_blocks [OF n] by (auto simp: d(2) file_blocks_def)
qed

lemma host_open_spec:
  assumes run: "host_open path h = (r, h')"
  shows "hf_files h' = hf_files h \<and> (\<forall>e. r = Inl e \<longrightarrow> hf_locks h' = hf_locks h)
    \<and> (\<forall>d direct. r = Inr (d, direct) \<longrightarrow> path \<notin> set (hf_locks h) \<and> hf_locks h' = path # hf_locks h \<and> device_of (file_bytes path h) d
         \<and> hf_files h path \<noteq> None)"
proof -
  from run show ?thesis unfolding host_open_def
  proof (cases rule: bindE_cases)
    case (err e)
    then show ?thesis using open_rw_idle [OF err(1)] by (auto simp: idle_def)
  next
    case (ok direct h1)
    have i1: "idle h h1" and some: "hf_files h path \<noteq> None" using open_rw_idle [OF ok(1)] by blast+
    from ok(2) show ?thesis
    proof (cases rule: bindE_cases)
      case (err e)
      then show ?thesis using i1 unfolding lock_exclusive_def
        by (auto elim!: bindE_cases dest!: sys_call_idle simp: idle_def split: if_splits)
    next
      case lk: (ok u h2)
      have i2: "hf_files h2 = hf_files h" "path \<notin> set (hf_locks h)" "hf_locks h2 = path # hf_locks h"
        using lk(1) i1 unfolding lock_exclusive_def by (auto elim!: bindE_cases dest!: sys_call_idle simp: idle_def split: if_splits)
      let ?m = "bindE sys_call (\<lambda>_ h. (filedev_open (length (file_bytes path h)) (file_blocks (file_bytes path h)) [], h))"
      obtain q h3 where q: "?m h2 = (q, h3)" by (cases "?m h2")
      have i3: "idle h2 h3" using q by (auto elim!: bindE_cases dest!: sys_call_idle)
      have d: "device_of (file_bytes path h) d" if qd: "q = Inr d" for d
      proof -
        obtain u h4 where h4: "sys_call h2 = (Inr u, h4)" "filedev_open (length (file_bytes path h4)) (file_blocks (file_bytes path h4)) [] = Inr d"
          using q unfolding qd by (auto elim!: bindE_cases)
        have "file_bytes path h4 = file_bytes path h" using sys_call_idle [OF h4(1)] i2(1) by (simp add: idle_def file_bytes_def)
        then show ?thesis using h4(2) by (auto simp: filedev_open_spec device_of_def split: if_splits)
      qed
      show ?thesis using lk(2) q i2 i3 d some by (cases q) (auto simp: adopt_locked_def close_file_def idle_def)
    qed
  qed
qed

lemma host_create_spec:
  assumes run: "host_create path n h = (r, h')"
  shows "extends path h h' \<and> (\<forall>e. r = Inl e \<longrightarrow> hf_locks h' = hf_locks h)
    \<and> (\<forall>d direct. r = Inr (d, direct) \<longrightarrow> path \<notin> set (hf_locks h) \<and> hf_locks h' = path # hf_locks h
         \<and> device_of (file_bytes path h') d \<and> wmul n BLOCK \<le> length (file_bytes path h') \<and> hf_files h' path \<noteq> None)"
proof -
  have fin: ?thesis if "host_open path h4 = (r, h')" "extends path h h4" "hf_locks h4 = hf_locks h" "wmul n BLOCK \<le> length (file_bytes path h4)" for h4
  proof -
    note sp = host_open_spec [OF that(1)]
    have "extends path h4 h'" using sp by (auto simp: extends_def file_bytes_def intro: exI [of _ 0])
    moreover have "file_bytes path h' = file_bytes path h4" using sp by (simp add: file_bytes_def)
    ultimately show ?thesis using extends_trans [OF that(2)] sp that(3,4) by auto
  qed
  from run show ?thesis unfolding host_create_def
  proof (cases rule: bindE_cases)
    case (err e)
    then show ?thesis using sys_create_spec [OF err(1)] by simp
  next
    case cr: (ok u h1)
    note c = sys_create_spec [OF cr(1)]
    from cr(2) show ?thesis
    proof (cases rule: bindE_cases)
      case (err e)
      then have "idle h1 h'" by (auto elim!: bindE_cases dest!: sys_call_idle simp: getE_def)
      then show ?thesis using c err(2) extends_trans [OF _ extends_idle] by (auto simp: idle_def)
    next
      case md: (ok len h2)
      have i2: "idle h1 h2" and len: "len = length (file_bytes path h2)" using md(1) by (auto elim!: bindE_cases dest!: sys_call_idle simp: getE_def)
      have e2: "extends path h h2" "hf_locks h2 = hf_locks h" using c extends_trans [OF _ extends_idle [OF i2]] i2 by (auto simp: idle_def)
      let ?want = "wmul n BLOCK"
      have pre: "extends path h h3 \<and> hf_locks h3 = hf_locks h \<and> (\<forall>u. q = Inr u \<longrightarrow> ?want \<le> length (file_bytes path h3))"
        if "(if len < ?want then preallocate path ?want else retE ()) h2 = (q, h3)" for q h3
        using that e2 preallocate_spec [of path ?want h2 q h3] extends_trans [OF e2(1), of h3] len by (auto simp: retE_run split: if_splits)
      from md(2) show ?thesis unfolding Let_def
      proof (cases rule: bindE_cases)
        case (err e)
        then show ?thesis using pre [OF err(1)] by simp
      next
        case pa: (ok u h3)
        note p = pre [OF pa(1)]
        from pa(2) show ?thesis
        proof (cases rule: bindE_cases)
          case (err e)
          then show ?thesis using p extends_trans [OF _ extends_idle [OF sys_call_idle [OF err(1)]]] sys_call_idle [OF err(1)] by (auto simp: idle_def)
        next
          case sy: (ok u h4)
          note i4 = sys_call_idle [OF sy(1)]
          show ?thesis using fin [OF sy(2)] p extends_trans [OF _ extends_idle [OF i4]] i4 idle_bytes [OF i4] by (auto simp: idle_def)
        qed
      qed
    qed
  qed
qed

section \<open>One engine per file\<close>

lemma host_open_quiet:
  assumes q: "hf_calls h = []" and f: "hf_files h path = Some bs"
  shows "host_open path h = (if path \<in> set (hf_locks h) then (Inl (Busy path), h)
     else if length bs mod BLOCK \<noteq> 0 then (Inl (Corrupt ''file length is not 4KB-aligned''), h)
     else (Inr (\<lparr>fd_file = file_blocks bs, fd_blocks = length bs div BLOCK, fd_faults = []\<rparr>, hf_direct h), h\<lparr>hf_locks := path # hf_locks h\<rparr>))"
proof -
  have o: "sys_open path h = (Inr (), h)" using q f by (simp add: sys_open_def bindE_def sys_call_quiet)
  then have rw: "open_rw path h = (Inr (hf_direct h), h)" by (simp add: open_rw_def bindE_def tryE_def retE_def)
  have lk: "lock_exclusive path h = (if path \<in> set (hf_locks h) then (Inl (Busy path), h) else (Inr (), h\<lparr>hf_locks := path # hf_locks h\<rparr>))"
    using q by (simp add: lock_exclusive_def bindE_def sys_call_quiet)
  show ?thesis
    using q f by (simp add: host_open_def bindE_def rw lk adopt_locked_def sys_call_quiet filedev_open_spec file_bytes_def close_file_def)
qed

end
