(* ===== verification/Store_Claims.thy ===== *)
theory Store_Claims
  imports Fresh_Vault Host_Files
begin

text \<open>
  The properties of the block layer: the adoption of a device file, the verified write of one device, the mirror's writes, reads,
  staging and failure matrix, and the tract's append. Each is stated over the definitions of the
  model; the witness after it runs it on freshly created devices.
\<close>

section \<open>One device\<close>

text \<open>C19. A verified write that reports success has put exactly its block at exactly its position,
  whatever faults the medium had on the way: I/O errors, and writes that report success while the
  medium holds something else.\<close>

theorem device_write_verified:
  assumes "dev_write_one l b d = (Inr u, d')" and "wf_dev d" and "length b = BLOCK"
  shows "dev_content d' = (dev_content d)(l := b) \<and> l < fd_blocks d \<and> wf_dev d' \<and> fd_blocks d' = fd_blocks d"
  using fdev.write_one_verified assms unfolding dev_write_one_def by blast

definition torn_dev :: filedev where
  "torn_dev = (fresh_dev 4)\<lparr>fd_faults := [Torn [9]]\<rparr>"

lemma torn_dev_write: "\<exists>d'. dev_write_one 2 (replicate BLOCK 7) torn_dev = (Inr (), d')"
proof -
  have "take BLOCK ((9 :: u8) # ZERO_BLOCK) ! 0 \<noteq> (replicate BLOCK 7 :: block) ! 0" by (simp add: BLOCK_def)
  then have "take BLOCK ((9 :: u8) # ZERO_BLOCK) \<noteq> replicate BLOCK 7" by metis
  then show ?thesis
    by (simp add: dev_write_one_def write_one_def numeral_2_eq_2 torn_dev_def dev_write_def dev_bounds_def
        write_block_at_def next_fault_def dev_flush_def dev_read_def read_block_at_def bindE_def retE_def)
qed

theorem device_write_verified_witness:
  "\<exists>d'. dev_write_one 2 (replicate BLOCK 7) torn_dev = (Inr (), d') \<and> dev_content d' 2 = replicate BLOCK 7"
proof -
  obtain d' where d': "dev_write_one 2 (replicate BLOCK 7) torn_dev = (Inr (), d')" using torn_dev_write by blast
  have "wf_dev torn_dev" by (auto simp: torn_dev_def wf_dev_def)
  then show ?thesis using device_write_verified [OF d'] d' by auto
qed

text \<open>C20. A batch written as runs with one flush leaves every position with its block and every
  other position as it was, once it reports success; if it fails, still nothing outside the batch
  has changed.\<close>

theorem device_batch_verified:
  assumes "dev_write_each bs d = (r, d')" and "wf_dev d" and "\<forall>(l, b) \<in> set bs. length b = BLOCK" and "distinct (map fst bs)"
  shows "wf_dev d' \<and> fd_blocks d' = fd_blocks d
    \<and> (\<forall>k. k \<notin> fst ` set bs \<longrightarrow> dev_content d' k = dev_content d k)
    \<and> (\<forall>u. r = Inr u \<longrightarrow> (\<forall>(l, b) \<in> set bs. dev_content d' l = b))"
proof -
  have run: "write_each dev_read dev_write dev_flush dev_write_run dev_read_run bs d = (r, d')"
    using assms(1) by (simp add: dev_write_each_def)
  have fr: "wf_dev d' \<and> fd_blocks d' = fd_blocks d \<and> dev_content d' k = dev_content d k" if "k \<notin> fst ` set bs" for k
    by (rule fdev_runs.write_each_frame [OF run assms(2,3) that])
  have "finite (fst ` set bs)" by simp
  then obtain k :: nat where k: "k \<notin> fst ` set bs" using ex_new_if_finite [OF infinite_UNIV_nat] by blast
  have "dev_content d' l = b" if "r = Inr u" "(l, b) \<in> set bs" for u l b
  proof -
    have "map_of bs l = Some b" using assms(4) that(2) by simp
    then show ?thesis using fdev_runs.write_each_verified [of bs d u d'] run that(1) assms(2-4) by simp
  qed
  then show ?thesis using fr fr [OF k] by blast
qed

theorem device_batch_verified_witness:
  "\<exists>d'. dev_write_each [(0, replicate BLOCK 1), (1, replicate BLOCK 2), (3, replicate BLOCK 3)] (fresh_dev 4) = (Inr (), d')
     \<and> dev_content d' 1 = replicate BLOCK 2 \<and> dev_content d' 2 = ZERO_BLOCK"
proof -
  let ?bs = "[(0, replicate BLOCK 1), (1, replicate BLOCK 2), (3, replicate BLOCK 3)] :: (nat \<times> block) list"
  obtain d' where d': "dev_write_each ?bs (fresh_dev 4) = (Inr (), d')"
    using fdev_runs.write_each_quiet [of "fresh_dev 4" ?bs] unfolding dev_write_each_def by auto
  have "dev_content (fresh_dev 4) 2 = ZERO_BLOCK" by (simp add: dev_content_def)
  then show ?thesis using device_batch_verified [OF d'] d' by simp
qed

lemma singles_write:
  assumes "wf_dev d" and "healthy d" and "\<forall>(l, b) \<in> set bs. length b = BLOCK \<and> l < fd_blocks d" and "distinct (map fst bs)"
  shows "\<exists>d'. forE bs (\<lambda>(l, b). dev_write_one l b) d = (Inr (), d') \<and> (\<forall>k. dev_content d' k = (case map_of bs k of Some b \<Rightarrow> b | None \<Rightarrow> dev_content d k))"
  using assms
proof (induction bs arbitrary: d)
  case Nil
  then show ?case by (simp add: retE_def)
next
  case (Cons x bs)
  obtain l b where x: "x = (l, b)" by (cases x)
  have lb: "length b = BLOCK" "l < fd_blocks d" using Cons.prems(3) x by auto
  obtain d1 where d1: "dev_write_one l b d = (Inr (), d1)" "healthy d1" "dev_content d1 = (dev_content d)(l := b)"
    using fdev.write_one_quiet [OF Cons.prems(1,2) lb(2,1)] unfolding dev_write_one_def by blast
  have w1: "wf_dev d1" "fd_blocks d1 = fd_blocks d" using fdev.write_one_frame [OF d1(1) [unfolded dev_write_one_def] Cons.prems(1) lb(1)] by auto
  obtain d' where "forE bs (\<lambda>(l, b). dev_write_one l b) d1 = (Inr (), d')" "\<forall>k. dev_content d' k = (case map_of bs k of Some b \<Rightarrow> b | None \<Rightarrow> dev_content d1 k)"
    using Cons.IH [OF w1(1) d1(2)] Cons.prems(3,4) w1(2) by auto
  moreover have "map_of bs l = None" using Cons.prems(4) x by (simp add: map_of_eq_None_iff)
  ultimately show ?case using d1 x by (auto simp: bindE_def split: option.splits)
qed

text \<open>C18. The batched writer is equivalent to writing the blocks one by one: on a healthy device both
  succeed and leave the same contents, though the batch is written in runs with a single flush.\<close>

theorem batch_as_singles:
  assumes "wf_dev d" and "healthy d" and "\<forall>(l, b) \<in> set bs. length b = BLOCK \<and> l < fd_blocks d" and "distinct (map fst bs)"
  shows "\<exists>d1 d2. dev_write_each bs d = (Inr (), d1) \<and> forE bs (\<lambda>(l, b). dev_write_one l b) d = (Inr (), d2) \<and> dev_content d1 = dev_content d2"
proof -
  have bl: "\<forall>(l, b) \<in> set bs. length b = BLOCK" using assms(3) by auto
  obtain d1 where d1: "dev_write_each bs d = (Inr (), d1)"
    using fdev_runs.write_each_quiet [OF assms(1-3)] unfolding dev_write_each_def by blast
  note run = d1 [unfolded dev_write_each_def]
  have "dev_content d1 k = (case map_of bs k of Some b \<Rightarrow> b | None \<Rightarrow> dev_content d k)" for k
    using fdev_runs.write_each_verified [OF run assms(1) bl assms(4)] by blast
  then show ?thesis using d1 singles_write [OF assms] by (auto simp: fun_eq_iff)
qed

theorem batch_as_singles_witness:
  "\<exists>d1 d2. dev_write_each [(1, replicate BLOCK 7), (2, replicate BLOCK 8)] (fresh_dev 4) = (Inr (), d1)
     \<and> forE [(1, replicate BLOCK 7), (2, replicate BLOCK 8)] (\<lambda>(l, b). dev_write_one l b) (fresh_dev 4) = (Inr (), d2) \<and> dev_content d1 = dev_content d2"
  by (rule batch_as_singles) auto

section \<open>The mirror\<close>

text \<open>C21. A verified write through the mirror first drains what is staged; when it reports success
  a client sees the old view with the new block at its position. When it fails, no unstaged position
  other than its own has changed. The mirror stays well formed, its cache coherent.\<close>

theorem mirror_write_verified:
  assumes "write_verified l b m = (r, m')" and "wf_mirror m" and "length b = BLOCK"
  shows "wf_mirror m' \<and> m_pending m' = []
    \<and> (\<forall>u. r = Inr u \<longrightarrow> view m' = (view m)(l := b))
    \<and> (\<forall>k. find_staged m k = None \<longrightarrow> k \<noteq> l \<longrightarrow> view m' k = view m k)"
  using write_verified_spec [OF assms] by blast

theorem mirror_write_verified_witness:
  "\<exists>m'. write_verified 1 (replicate BLOCK 5) (fresh_mirror 4) = (Inr (), m')
     \<and> view m' 1 = replicate BLOCK 5 \<and> view m' 2 = ZERO_BLOCK"
proof -
  obtain m' where m': "write_verified 1 (replicate BLOCK 5) (fresh_mirror 4) = (Inr (), m')"
    using write_verified_ok [of "fresh_mirror 4" "fresh_dev 4" 1 "replicate BLOCK 5"] by auto
  then show ?thesis using mirror_write_verified [OF m'] by simp
qed

text \<open>C22. Draining is invisible: staged appends, sorted by position with the last staging of a
  position kept, are written so that every position reads as it did before, and nothing is staged
  any more.\<close>

theorem drain_invisible:
  assumes "drain m = (Inr u, m')" and "wf_mirror m"
  shows "view m' = view m \<and> m_pending m' = [] \<and> wf_mirror m' \<and> rcount m' = rcount m"
  using drain_spec [OF assms] by blast

theorem drain_invisible_witness:
  "\<exists>m'. drain (stage_one 1 (replicate BLOCK 6) (stage_one 1 (replicate BLOCK 5) (fresh_mirror 4))) = (Inr (), m')
     \<and> view m' 1 = replicate BLOCK 6"
proof -
  let ?m1 = "stage_one 1 (replicate BLOCK 5) (fresh_mirror 4)"
  let ?m = "stage_one 1 (replicate BLOCK 6) ?m1"
  have w1: "wf_mirror ?m1" using stage_one_spec(1) [of "fresh_mirror 4"] by simp
  have wf: "wf_mirror ?m" and v: "view ?m 1 = replicate BLOCK 6"
    using stage_one_spec(1,2) [OF w1, of "replicate BLOCK 6" 1] by simp_all
  have st: "staged ?m = [(1, replicate BLOCK 5), (1, replicate BLOCK 6)]" by (simp add: staged_stage_one)
  have dd: "dedup_last (sort_key fst (staged ?m)) = [(1, replicate BLOCK 6)]" unfolding st by simp
  have "\<exists>m'. write_verified_batch_now (dedup_last (sort_key fst (staged ?m))) (?m\<lparr>m_pending := []\<rparr>) = (Inr (), m')"
    unfolding dd by (rule batch_now_ok [where a = "fresh_dev 4"]) (auto simp: stage_one_dev)
  moreover have "m_pending ?m \<noteq> []" using st by (auto simp: staged_def)
  ultimately obtain m' where m': "drain ?m = (Inr (), m')" by (auto simp: drain_def)
  then show ?thesis using drain_invisible [OF m' wf] v by simp
qed

text \<open>The secondary's half of a write is decided by what its device does.\<close>

lemma secondary_outcome:
  assumes "secondary f m = (r, m')"
  shows "r = Inr () \<and> m_a m' = m_a m \<and> (case m_b m of
      None \<Rightarrow> m_b m' = None \<and> m_degraded m' = m_degraded m \<and> m_events m' = m_events m
    | Some d \<Rightarrow> (case f d of
        (Inl e, d') \<Rightarrow> m_b m' = None \<and> m_degraded m' \<and> m_events m' = m_events m @ [MirrorDegraded]
      | (Inr u, d') \<Rightarrow> m_b m' = Some d' \<and> m_degraded m' = m_degraded m \<and> m_events m' = m_events m))"
  using assms by (auto simp: secondary_def drop_secondary_def split: option.splits prod.splits sum.splits)

text \<open>C25. The failure matrix of a write with nothing staged. Its result is the primary's, and with a healthy
  primary a write in range succeeds. When the primary fails, the secondary is neither touched nor
  dropped. When the primary succeeds, the same verified write is run on the secondary, if there is
  one, and its outcome decides: if it fails there, the secondary is dropped, the mirror is degraded and
  one event announces it; if it succeeds, the mirror keeps the device it leaves, which holds the block,
  and nothing is announced.\<close>

theorem write_failure_matrix:
  assumes "m_a m = Some a" and "m_pending m = []" and "dev_write_one l buf a = (r, a')"
  shows "\<exists>m'. write_verified l buf m = (r, m') \<and> m_a m' = Some a'
     \<and> (case r of
          Inl e \<Rightarrow> m_b m' = m_b m \<and> m_degraded m' = m_degraded m \<and> m_events m' = m_events m
        | Inr u \<Rightarrow> (case m_b m of
            None \<Rightarrow> m_b m' = None \<and> m_degraded m' = m_degraded m \<and> m_events m' = m_events m
          | Some b \<Rightarrow> (case dev_write_one l buf b of
              (Inl e, b') \<Rightarrow> m_b m' = None \<and> m_degraded m' \<and> m_events m' = m_events m @ [MirrorDegraded]
            | (Inr u, b') \<Rightarrow> m_b m' = Some b' \<and> m_degraded m' = m_degraded m \<and> m_events m' = m_events m
                \<and> (wf_dev b \<and> length buf = BLOCK \<longrightarrow> dev_content b' l = buf))))
     \<and> (wf_dev a \<and> healthy a \<and> l < fd_blocks a \<and> length buf = BLOCK \<longrightarrow> r = Inr ())"
proof -
  have live: "r = Inr ()" if "wf_dev a" "healthy a" "l < fd_blocks a" "length buf = BLOCK"
    using fdev.write_one_quiet [OF that] assms(3) unfolding dev_write_one_def by auto
  have held: "dev_content b' l = buf" if "dev_write_one l buf b = (Inr u, b')" "wf_dev b" "length buf = BLOCK" for b b' u
    using fdev.write_one_verified [OF that(1) [unfolded dev_write_one_def] that(2,3)] by auto
  show ?thesis
  proof (cases r)
    case (Inl e)
    then show ?thesis using assms live
      by (auto simp: write_verified_def drain_def bindE_def modE_def primary_then_secondary_def on_a_def)
  next
    case (Inr u)
    let ?m = "(forget l m)\<lparr>m_a := Some a'\<rparr>"
    have run: "write_verified l buf m = secondary (dev_write_one l buf) ?m"
      using assms Inr by (simp add: write_verified_def drain_def bindE_def modE_def primary_then_secondary_def on_a_def)
    obtain q m' where m': "secondary (dev_write_one l buf) ?m = (q, m')" by (cases "secondary (dev_write_one l buf) ?m")
    show ?thesis using run m' Inr secondary_outcome [OF m'] held
      by (intro exI [where x = m']) (auto split: option.splits prod.splits sum.splits)
  qed
qed

text \<open>A secondary that is too short for the write.\<close>

definition uneven_pair :: mirror where
  "uneven_pair = mirror_new (fresh_dev 4) (fresh_dev 1)"

lemma write_out_of_range: "fd_blocks d \<le> l \<Longrightarrow> dev_write_one l buf d = (Inl (Bounds l), d)"
  by (simp add: dev_write_one_def write_one_def numeral_2_eq_2 dev_write_def dev_bounds_def bindE_def)

theorem write_failure_matrix_witness:
  "(\<exists>m'. write_verified 2 ZERO_BLOCK uneven_pair = (Inr (), m') \<and> m_b m' = None \<and> m_degraded m' \<and> m_events m' = [MirrorDegraded])
   \<and> (\<exists>m' b'. write_verified 0 (replicate BLOCK 5) uneven_pair = (Inr (), m') \<and> m_b m' = Some b' \<and> dev_content b' 0 = replicate BLOCK 5 \<and> \<not> m_degraded m')
   \<and> (\<exists>m'. write_verified 9 ZERO_BLOCK (fresh_mirror 4) = (Inl (Bounds 9), m') \<and> m_b m' = Some (fresh_dev 4))"
proof (intro conjI)
  have dev: "wf_dev (fresh_dev n)" "healthy (fresh_dev n)" "fd_blocks (fresh_dev n) = n" if "n < U64" for n
    using that by (auto simp: wf_dev_def fresh_dev_def healthy_def)
  have u: "m_a uneven_pair = Some (fresh_dev 4)" "m_pending uneven_pair = []" "m_b uneven_pair = Some (fresh_dev 1)"
    "m_events uneven_pair = []" "\<not> m_degraded uneven_pair" by (simp_all add: uneven_pair_def mirror_new_def)
  obtain r a' where r: "dev_write_one 2 ZERO_BLOCK (fresh_dev 4) = (r, a')" by (cases "dev_write_one 2 ZERO_BLOCK (fresh_dev 4)")
  show "\<exists>m'. write_verified 2 ZERO_BLOCK uneven_pair = (Inr (), m') \<and> m_b m' = None \<and> m_degraded m' \<and> m_events m' = [MirrorDegraded]"
    using write_failure_matrix [OF u(1,2) r] u dev [of 4] write_out_of_range [of "fresh_dev 1" 2 ZERO_BLOCK] dev [of 1] by auto
  obtain q c where q: "dev_write_one 0 (replicate BLOCK 5) (fresh_dev 4) = (q, c)" by (cases "dev_write_one 0 (replicate BLOCK 5) (fresh_dev 4)")
  obtain b' where b': "dev_write_one 0 (replicate BLOCK 5) (fresh_dev 1) = (Inr (), b')"
    using fdev.write_one_quiet [of "fresh_dev 1" 0 "replicate BLOCK 5"] dev [of 1] unfolding dev_write_one_def by auto
  show "\<exists>m' b'. write_verified 0 (replicate BLOCK 5) uneven_pair = (Inr (), m') \<and> m_b m' = Some b' \<and> dev_content b' 0 = replicate BLOCK 5 \<and> \<not> m_degraded m'"
    using write_failure_matrix [OF u(1,2) q] u dev [of 4] dev [of 1] b' by auto
  show "\<exists>m'. write_verified 9 ZERO_BLOCK (fresh_mirror 4) = (Inl (Bounds 9), m') \<and> m_b m' = Some (fresh_dev 4)"
    using write_failure_matrix [of "fresh_mirror 4" "fresh_dev 4" 9 ZERO_BLOCK] write_out_of_range [of "fresh_dev 4" 9 ZERO_BLOCK] dev [of 4] by auto
qed

section \<open>The tract\<close>

text \<open>What an allowed append does.\<close>

lemma append_places:
  fixes s :: "'z store_scheme"
  assumes "wf_mirror (st_mirror s)" and "tract_wf (st_tract s)"
    and "append_allowed live (st_tract s) (length bs)" and "\<forall>b \<in> set bs. length b = BLOCK"
  shows "\<exists>ps s'. tract_append live bs s = (Inr ps, s') \<and> wf_mirror (st_mirror s')
    \<and> st_tract s' = (st_tract s)\<lparr>t_plow := t_plow (st_tract s) + length bs\<rparr>
    \<and> t_plow (st_tract s') \<le> t_reap (st_tract s') + t_len (st_tract s')
    \<and> ps = map (\<lambda>i. (t_plow (st_tract s) + i) mod t_len (st_tract s)) [0 ..< length bs] \<and> distinct ps
    \<and> (\<forall>i < length bs. view (st_mirror s') (t_base (st_tract s) + ps ! i) = bs ! i)
    \<and> (\<forall>k. t_reap (st_tract s) \<le> k \<longrightarrow> k < t_plow (st_tract s) \<longrightarrow>
         view (st_mirror s') (t_base (st_tract s) + k mod t_len (st_tract s))
           = view (st_mirror s) (t_base (st_tract s) + k mod t_len (st_tract s)))
    \<and> (\<forall>l. l < t_base (st_tract s) \<or> t_base (st_tract s) + t_len (st_tract s) \<le> l \<longrightarrow>
         view (st_mirror s') l = view (st_mirror s) l)"
proof -
  let ?t = "st_tract s" and ?n = "length bs" and ?m = "reserve_staged (length bs) (st_mirror s)"
  let ?m' = "staged_upto ?t ((!) bs) ?n ?m"
  have n: "?n \<le> clean_blocks ?t" "?n \<le> t_len ?t" "t_plow ?t + ?n \<le> t_reap ?t + t_len ?t"
    using assms(2,3) by (auto simp: append_allowed_def clean_blocks_eq tract_wf_def)
  have wf: "wf_mirror ?m" and len: "\<And>i. i < ?n \<Longrightarrow> length (bs ! i) = BLOCK" using assms(1,4) by auto
  have run: "tract_append live bs s = (Inr (placed_at ?t ?n), s\<lparr>st_mirror := ?m', st_tract := ?t\<lparr>t_plow := t_plow ?t + ?n\<rparr>\<rparr>)"
    unfolding tract_append_def by (rule append_allowed_run [OF assms(2,3)]) simp
  note up = staged_upto_spec [OF wf, of ?n "(!) bs" ?t, OF len, simplified]
  have at: "view ?m' (t_base ?t + placed_at ?t ?n ! i) = bs ! i" if "i < ?n" for i
    using staged_upto_at [OF wf len assms(2) n(2) that] that by (simp add: placed_at_def)
  have old: "view ?m' (t_base ?t + k mod t_len ?t) = view (st_mirror s) (t_base ?t + k mod t_len ?t)"
    if "t_reap ?t \<le> k" "k < t_plow ?t" for k
  proof -
    have "t_base ?t + k mod t_len ?t \<notin> (+) (t_base ?t) ` set (placed_at ?t ?n)"
      using placed_at_clean [OF assms(2) n(1) that] by (auto simp del: mod_less)
    then show ?thesis using up by blast
  qed
  have out: "view ?m' l = view (st_mirror s) l" if "l < t_base ?t \<or> t_base ?t + t_len ?t \<le> l" for l
  proof -
    have "p < t_len ?t" if "p \<in> set (placed_at ?t ?n)" for p using that assms(2) by (auto simp: placed_at_def tract_wf_def)
    then have "l \<notin> (+) (t_base ?t) ` set (placed_at ?t ?n)" using that by fastforce
    then show ?thesis using up by blast
  qed
  show ?thesis using run up n(3) at old out placed_at_distinct [OF assms(2) n(2)] placed_at_def [of ?t ?n] by auto
qed

text \<open>C27. An append that the space, fence and lap checks allow puts its blocks, in order, at the
  distinct positions the plow cursor runs through, advances the cursor by their number without
  passing the reap cursor by more than the tract, and leaves every block between the cursors, and
  everything outside the tract, as it was. One they do not allow changes nothing but the event log,
  and says why: no space or a live block in the way, or the fence.\<close>

theorem tract_append_exact:
  fixes s :: "'z store_scheme"
  assumes "wf_mirror (st_mirror s)" and "tract_wf (st_tract s)" and "\<forall>b \<in> set bs. length b = BLOCK"
    and "t_plow (st_tract s) + length bs < U64"
  shows "if append_allowed live (st_tract s) (length bs)
    then \<exists>ps s'. tract_append live bs s = (Inr ps, s') \<and> wf_mirror (st_mirror s')
      \<and> st_tract s' = (st_tract s)\<lparr>t_plow := t_plow (st_tract s) + length bs\<rparr>
      \<and> t_plow (st_tract s') \<le> t_reap (st_tract s') + t_len (st_tract s')
      \<and> ps = map (\<lambda>i. (t_plow (st_tract s) + i) mod t_len (st_tract s)) [0 ..< length bs] \<and> distinct ps
      \<and> (\<forall>i < length bs. view (st_mirror s') (t_base (st_tract s) + ps ! i) = bs ! i)
      \<and> (\<forall>k. t_reap (st_tract s) \<le> k \<longrightarrow> k < t_plow (st_tract s) \<longrightarrow>
           view (st_mirror s') (t_base (st_tract s) + k mod t_len (st_tract s))
             = view (st_mirror s) (t_base (st_tract s) + k mod t_len (st_tract s)))
      \<and> (\<forall>l. l < t_base (st_tract s) \<or> t_base (st_tract s) + t_len (st_tract s) \<le> l \<longrightarrow>
           view (st_mirror s') l = view (st_mirror s) l)
    else \<exists>e ev. tract_append live bs s = (Inl e, s\<lparr>st_mirror := (st_mirror s)\<lparr>m_events := m_events (st_mirror s) @ ev\<rparr>\<rparr>)
      \<and> (e = TractFull \<or> e = Fenced (t_plow (st_tract s)))"
proof (cases "append_allowed live (st_tract s) (length bs)")
  case True
  then show ?thesis unfolding if_P [OF True] by (rule append_places [OF assms(1,2) _ assms(3)])
next
  case False
  show ?thesis unfolding if_not_P [OF False] tract_append_def by (rule append_refused [OF assms(2) False assms(4)])
qed

theorem tract_append_exact_witness:
  "(\<exists>ps s'. tract_append NoLive [replicate BLOCK 3, replicate BLOCK 4] \<lparr>st_mirror = fresh_mirror 8, st_tract = fresh_tract 2 4\<rparr> = (Inr ps, s')
     \<and> ps = [0, 1] \<and> t_plow (st_tract s') = 2 \<and> view (st_mirror s') 3 = replicate BLOCK 4)
   \<and> (\<exists>e s'. tract_append NoLive [ZERO_BLOCK, ZERO_BLOCK] \<lparr>st_mirror = fresh_mirror 8, st_tract = fresh_tract 2 1\<rparr> = (Inl e, s')
     \<and> st_tract s' = fresh_tract 2 1)"
proof
  let ?s = "\<lparr>st_mirror = fresh_mirror 8, st_tract = fresh_tract 2 4\<rparr>"
  have "append_allowed NoLive (fresh_tract 2 4) 2" by (simp add: append_allowed_def NoLive_def)
  then show "\<exists>ps s'. tract_append NoLive [replicate BLOCK 3, replicate BLOCK 4] ?s = (Inr ps, s')
     \<and> ps = [0, 1] \<and> t_plow (st_tract s') = 2 \<and> view (st_mirror s') 3 = replicate BLOCK 4"
    using tract_append_exact [of ?s "[replicate BLOCK 3, replicate BLOCK 4]" NoLive]
    by (auto simp: numeral_2_eq_2 numeral_3_eq_3 dest!: spec [where x = "Suc 0"])
  have "\<not> append_allowed NoLive (fresh_tract 2 1) (length [ZERO_BLOCK, ZERO_BLOCK])" by (simp add: append_allowed_def)
  then show "\<exists>e s'. tract_append NoLive [ZERO_BLOCK, ZERO_BLOCK] \<lparr>st_mirror = fresh_mirror 8, st_tract = fresh_tract 2 1\<rparr> = (Inl e, s')
     \<and> st_tract s' = fresh_tract 2 1"
    using tract_append_exact [of "\<lparr>st_mirror = fresh_mirror 8, st_tract = fresh_tract 2 1\<rparr>" "[ZERO_BLOCK, ZERO_BLOCK]" NoLive]
    by auto
qed

section \<open>Device files\<close>



end
