(* ===== verification/Ring_Claims.thy ===== *)
theory Ring_Claims
  imports Fresh_Vault
begin

text \<open>
  The properties of the spine: the codec of an entry, the geometry every decoded entry obeys, the
  head search on damaged rings, the chained append, and the two together.
\<close>

section \<open>Entries\<close>

text \<open>C29. A sane entry encodes into one block of 4096 bytes that decodes to the same entry, whether
  or not it carries a reap cursor, and that block carries the magic and a seal over its body.\<close>

theorem spine_roundtrip:
  assumes "vsf_ok E" and "spine_wf e" and "spine_sane e"
  shows "\<exists>b. spine_encode E e = Inr b \<and> length b = BLOCK \<and> spine_decode E b = Inr e \<and> block_is_sealed E b"
proof -
  have "spine_check e = Inr e" using assms(2,3) spine_check_eq [of e e] by (simp add: spine_wf_def)
  then show ?thesis
    using spine_encode_eq [OF assms(1,2)] spine_decode_encode [OF assms(1,2)] length_doc_block [OF assms(1) spine_doc(2) [OF assms(1,2)]]
      doc_block_header [OF assms(1), of SCHEMA "spine_pairs e"]
    by (simp add: block_is_sealed_def)
qed

definition genesis :: SpineEntry where
  "genesis = \<lparr>se_gen = 0, se_prev_hash = replicate 32 0, se_ring_log2 = 2, se_tract_blocks = 4,
     se_hamt_hash = replicate 32 0, se_hamt_lba = 0, se_plow = 0, se_reap = Some 0, se_live = 0, se_eagle_time = 0\<rparr>"

lemma genesis_ok: "spine_wf genesis" "spine_sane genesis"
  by (simp_all add: genesis_def spine_wf_def spine_sane_def)

theorem spine_roundtrip_witness:
  "\<exists>b. spine_encode ref_env genesis = Inr b \<and> length b = BLOCK \<and> spine_decode ref_env b = Inr genesis"
  using spine_roundtrip [OF ref_env_ok genesis_ok] by blast

text \<open>C30. Whatever the bytes of a block are, an entry that decodes from it has a ring exponent
  between 1 and 32, a tract of at least one block, cursors with \<open>reap \<le> plow \<le> reap + tract\<close> and
  no overflow in \<open>plow + tract\<close>; its fence budget is then exact.\<close>

theorem decoded_spine_sane:
  assumes "spine_decode E b = Inr e"
  shows "1 \<le> se_ring_log2 e \<and> se_ring_log2 e \<le> 32 \<and> 0 < se_tract_blocks e \<and> se_plow e + se_tract_blocks e < U64
    \<and> (\<forall>r. se_reap e = Some r \<longrightarrow> r \<le> se_plow e \<and> se_plow e \<le> r + se_tract_blocks e)
    \<and> fence_budget e = (case se_reap e of Some r \<Rightarrow> r + se_tract_blocks e | None \<Rightarrow> se_plow e)"
  using spine_decode_sane [OF assms] fence_budget_exact [of e] by (auto simp: spine_sane_def)

lemma genesis_decodes: "\<exists>b. spine_decode ref_env b = Inr genesis"
  using spine_decode_encode [OF ref_env_ok genesis_ok(1)] spine_check_eq [of genesis genesis] genesis_ok
  by (auto simp: spine_wf_def)

theorem decoded_spine_sane_witness:
  "\<exists>b e. spine_decode ref_env b = Inr e \<and> fence_budget e = 4"
proof -
  obtain b where b: "spine_decode ref_env b = Inr genesis" using genesis_decodes by blast
  then show ?thesis using decoded_spine_sane [OF b] by (auto simp: genesis_def)
qed

section \<open>The head search\<close>

text \<open>C11. On a ring whose readable slots are a rotation of consecutive generations (each slot holds
  the newest generation that maps to it, empty slots only above the head of the first lap and next to
  the head), with any slots corrupt, the binary search returns the newest valid entry of the whole ring, and none only
  when no slot is valid.\<close>

theorem head_search_finds_newest:
  assumes "head_search E r = (Inr x, r')" and "wf_mirror (r_mirror r)" and "lap_shaped (ring_cls E r) (ring_n r) G"
  shows "case x of
     None \<Rightarrow> \<forall>k < ring_n r. \<forall>e. ring_cls E r k \<noteq> Valid e
   | Some (k, e) \<Rightarrow> k < ring_n r \<and> ring_cls E r k = Valid e
       \<and> (\<forall>j < ring_n r. \<forall>f. ring_cls E r j = Valid f \<longrightarrow> se_gen f \<le> se_gen e)"
proof -
  have n: "0 < ring_n r" by (simp add: ring_n_def)
  have "newest_in (ring_cls E r) 0 (ring_n r - 1) x"
    using head_search_newest [OF assms(1) _ assms(3)] assms(2) by (simp add: ring_ok_def)
  moreover have "j \<le> ring_n r - 1 \<longleftrightarrow> j < ring_n r" for j using n by auto
  ultimately show ?thesis by (auto simp: newest_in_def split: option.splits)
qed

text \<open>A ring with its genesis appended, for the witnesses.\<close>

lemma genesis_append:
  "\<exists>r. ring_append ref_env genesis (fresh_ring 8 2) = (Inr (), r) \<and> quiet_mirror (r_mirror r) \<and> rcount (r_mirror r) = 8 \<and> r_base r = 0"
proof -
  let ?b = "doc_block ref_env SCHEMA (spine_pairs genesis)"
  have len: "length ?b = BLOCK" by (rule length_doc_block [OF ref_env_ok spine_doc(2) [OF ref_env_ok genesis_ok(1)]])
  have "ring_append_check ref_env (fresh_ring 8 2) genesis = Inr ()" by (simp add: ring_append_check_def genesis_def)
  moreover obtain m where m: "write_verified 0 ?b (fresh_mirror 8) = (Inr (), m)" "quiet_mirror m"
    using write_verified_ok [of "fresh_mirror 8" "fresh_dev 8" 0 ?b] len by auto
  moreover have "rcount m = 8" using write_verified_spec [OF m(1)] len by simp
  moreover have "wadd 0 (ring_slot 2 (se_gen genesis)) = 0" by (simp add: ring_slot_def genesis_def)
  ultimately show ?thesis
    by (simp add: ring_append_def Let_def spine_encode_eq [OF ref_env_ok genesis_ok(1)] bindE_def liftE_def on_mirror_def modE_def)
qed

lemma genesis_ring:
  obtains r where "ring_append ref_env genesis (fresh_ring 8 2) = (Inr (), r)" "ring_inv ref_env r" "r_head r = Some (0, genesis)"
    "ring_n r = 4" "\<exists>x r'. head_search ref_env r = (Inr x, r')"
proof -
  obtain r where r: "ring_append ref_env genesis (fresh_ring 8 2) = (Inr (), r)" "quiet_mirror (r_mirror r)" "rcount (r_mirror r) = 8" "r_base r = 0"
    using genesis_append by blast
  have inv: "ring_inv ref_env (fresh_ring 8 2)" by (rule fresh_ring_inv) simp_all
  note a = ring_append_inv [OF r(1) ref_env_ok genesis_ok inv]
  have n: "ring_n r = 4" using ring_append_ok [OF r(1) ref_env_ok genesis_ok] inv by (simp add: ring_inv_def)
  have "\<exists>x r'. head_search ref_env r = (Inr x, r')"
    using a r n by (intro head_search_total) (auto simp: ring_inv_def ring_ok_def slot_readable_def readable_def)
  then show thesis using that r a n by (simp add: genesis_def)
qed

theorem head_search_finds_newest_witness:
  "\<exists>r k e r'. head_search ref_env r = (Inr (Some (k, e)), r') \<and> ring_cls ref_env r k = Valid e"
proof -
  obtain r x r' where g: "ring_inv ref_env r" "r_head r = Some (0, genesis)" "ring_n r = 4" "head_search ref_env r = (Inr x, r')"
    by (rule genesis_ring) blast
  have lap: "lap_shaped (ring_cls ref_env r) (ring_n r) 0" and wf: "wf_mirror (r_mirror r)" and v: "ring_cls ref_env r 0 = Valid genesis"
    using g by (auto simp: ring_inv_def ring_ok_def genesis_def)
  show ?thesis using head_search_finds_newest [OF g(4) wf lap] v g(3,4) by (cases x) auto
qed

text \<open>C31. The head search returns: on a ring all of whose slots can be read it ends with an answer,
  however many of them are corrupt and however they are ordered.\<close>

theorem head_search_returns:
  assumes "wf_mirror (r_mirror r)" and "quiet_mirror (r_mirror r)" and "r_base r + ring_n r \<le> rcount (r_mirror r)"
    and "rcount (r_mirror r) < U64"
  shows "\<exists>x r'. head_search E r = (Inr x, r')"
  using assms by (intro head_search_total) (auto simp: ring_ok_def slot_readable_def readable_def)

theorem head_search_returns_witness: "\<exists>x r'. head_search ref_env (fresh_ring 8 2) = (Inr x, r')"
  using head_search_returns [of "fresh_ring 8 2"] by simp

section \<open>The chained append\<close>

text \<open>C16. An append that succeeds keeps the ring's invariant: the cached head is the newest
  generation, sits in the slot its generation maps to, and the slots stay a rotation of consecutive
  generations; only the new entry's slot has changed on the medium. A head search on the medium then
  finds exactly the entry just appended.\<close>

theorem ring_append_keeps:
  assumes "ring_append E e r = (Inr u, r')" and "vsf_ok E" and "spine_wf e" and "spine_sane e" and "ring_inv E r"
    and "r_head r \<noteq> None \<longrightarrow> 0 < se_gen e"
  shows "ring_inv E r' \<and> r_head r' = Some (se_gen e mod ring_n r, e)
    \<and> (\<forall>k < ring_n r. k \<noteq> se_gen e mod ring_n r \<longrightarrow> ring_cls E r' k = ring_cls E r k)
    \<and> (\<forall>l. l \<noteq> r_base r + se_gen e mod ring_n r \<longrightarrow> view (r_mirror r') l = view (r_mirror r) l)
    \<and> (\<forall>x r2. head_search E r' = (Inr x, r2) \<longrightarrow> x = Some (se_gen e mod ring_n r, e))"
proof -
  have inv: "ring_inv E r' \<and> r_head r' = Some (se_gen e mod ring_n r, e)" using ring_append_inv [OF assms] by blast
  moreover have "x = Some (se_gen e mod ring_n r, e)" if "head_search E r' = (Inr x, r2)" for x r2
    using inv head_search_finds_head [OF _ _ that] by blast
  ultimately show ?thesis using ring_append_ok [OF assms(1-4)] assms(5) by (auto simp: ring_inv_def)
qed

theorem ring_append_keeps_witness:
  "\<exists>r r2. ring_append ref_env genesis (fresh_ring 8 2) = (Inr (), r) \<and> ring_inv ref_env r \<and> r_head r = Some (0, genesis)
     \<and> head_search ref_env r = (Inr (Some (0, genesis)), r2)"
proof -
  obtain r x r2 where r: "ring_append ref_env genesis (fresh_ring 8 2) = (Inr (), r)" "head_search ref_env r = (Inr x, r2)"
    by (rule genesis_ring) blast
  have inv: "ring_inv ref_env (fresh_ring 8 2)" by (rule fresh_ring_inv) simp_all
  then show ?thesis using ring_append_keeps [OF r(1) ref_env_ok genesis_ok inv] r by (auto simp: genesis_def)
qed

text \<open>C17. The chain: an append goes through only with the generation after the head, the hash of
  the head's own body and the ring's geometry (generation 0 and a zero hash on an empty ring); any
  other entry is refused and the ring and both devices are left alone.\<close>

theorem ring_append_chain:
  "(\<forall>u r'. ring_append E e r = (Inr u, r') \<longrightarrow> se_ring_log2 e = r_log2 r \<and> (case r_head r of
       Some (_, h) \<Rightarrow> se_gen e = wadd (se_gen h) 1 \<and> spine_body_hash E h = Inr (se_prev_hash e)
     | None \<Rightarrow> se_gen e = 0 \<and> se_prev_hash e = replicate 32 0))
   \<and> (\<forall>err. ring_append_check E r e = Inl err \<longrightarrow> ring_append E e r = (Inl err, r))"
proof -
  have "ring_append_check E r e = Inr ()" if "ring_append E e r = (Inr u, r')" for u r'
    using that by (cases "ring_append_check E r e") (auto simp: ring_append_def bindE_def liftE_def)
  then show ?thesis using ring_append_check_chain [of E r e] ring_append_refused [of E r e] by blast
qed

theorem ring_append_chain_witness:
  "ring_append ref_env (genesis\<lparr>se_gen := 5\<rparr>) (fresh_ring 8 2) = (Inl (Corrupt ''genesis must be gen 0''), fresh_ring 8 2)"
proof -
  have "ring_append_check ref_env (fresh_ring 8 2) (genesis\<lparr>se_gen := 5\<rparr>) = Inl (Corrupt ''genesis must be gen 0'')"
    by (simp add: ring_append_check_def)
  then show ?thesis using ring_append_chain [of ref_env "genesis\<lparr>se_gen := 5\<rparr>" "fresh_ring 8 2"] by blast
qed

end
