(* ===== verification/Hamt_Doc.thy ===== *)
theory Hamt_Doc
  imports Tract_Model
begin

text \<open>
  The documents of \<open>src/hamt.rs\<close>: the key's 5-bit chunks, the pointers and nodes of the trie, the
  leaf and furrow formats with their codecs, and the extent runs. Positions and counts read off a
  block are checked here (\<open>doc_of\<close>, \<open>check_runs\<close>) before any walk sees them.
\<close>

unbundle bit_operations_syntax

section \<open>Chunks of a key\<close>

type_synonym hash = "u8 list"

definition MAX_DEPTH :: nat where
  "MAX_DEPTH = (32 * 8 + 4) div 5"

text \<open>The 16-bit window the chunk at \<open>depth\<close> lies in.\<close>

definition key_window :: "hash \<Rightarrow> nat \<Rightarrow> 16 word" where
  "key_window key byte =
     (push_bit 8 (ucast (key ! byte)) OR (if byte + 1 < 32 then ucast (key ! (byte + 1)) else 0))"

definition chunk_word :: "hash \<Rightarrow> nat \<Rightarrow> 16 word" where
  "chunk_word key depth =
     (let bit = depth * 5; byte = bit div 8; off = bit mod 8
      in drop_bit (11 - off) (key_window key byte) AND 0x1F)"

text \<open>\<open>chunk\<close> indexes the key at \<open>depth * 5 / 8\<close>, past it from depth 52 on.\<close>

definition chunk :: "hash \<Rightarrow> nat \<Rightarrow> nat result" where
  "chunk key depth = (if depth * 5 div 8 \<ge> 32 then Inl (Panic ''index out of bounds'')
     else Inr (unat (chunk_word key depth)))"

definition route_with_chunk :: "hash \<Rightarrow> nat \<Rightarrow> nat \<Rightarrow> hash" where
  "route_with_chunk base depth slot =
     (let bit = depth * 5; byte = bit div 8; off = bit mod 8;
          window = key_window base byte;
          shift = 11 - off;
          mask = push_bit shift (0x1F :: 16 word);
          new = (window AND NOT mask) OR push_bit shift (of_nat slot);
          base = base[byte := ucast (drop_bit 8 new)]
      in if byte + 1 < 32 then base[byte + 1 := ucast (new AND 0xFF)] else base)"

section \<open>Pointers, nodes, documents\<close>

datatype child = Committed (c_hash: hash) (c_lba: nat) | Dirty nat

record node =
  n_depth :: nat
  n_route :: hash
  n_children :: "child option list"

definition node_new :: "nat \<Rightarrow> hash \<Rightarrow> node" where
  "node_new depth route = \<lparr>n_depth = depth, n_route = route, n_children = replicate 32 None\<rparr>"

datatype TractDoc =
    DocNode node
  | DocLone hash "u8 list"
  | DocExtent hash nat "(nat \<times> nat) list"
  | DocDirect hash nat "nat list"
  | DocFurrow hash nat "u8 list"

definition node_at_depth :: "node \<Rightarrow> nat \<Rightarrow> unit result" where
  "node_at_depth node depth = (if n_depth node \<noteq> depth then Inl (Corrupt ''node claims another depth'') else Inr ())"

definition SCHEMA_NODE :: string where "SCHEMA_NODE = ''manifestus.hamt''"
definition SCHEMA_LONE :: string where "SCHEMA_LONE = ''manifestus.lone''"
definition SCHEMA_EXTENT :: string where "SCHEMA_EXTENT = ''manifestus.extent''"
definition SCHEMA_DIRECT :: string where "SCHEMA_DIRECT = ''manifestus.direct''"
definition SCHEMA_FURROW :: string where "SCHEMA_FURROW = ''manifestus.furrow''"

section \<open>Capacities\<close>

definition lone_capacity :: "vsf_env \<Rightarrow> nat" where
  "lone_capacity E = BLOCK - body_start E - 2 ^ 7"

definition max_runs :: "vsf_env \<Rightarrow> nat" where
  "max_runs E = (BLOCK - body_start E - 96) div 32"

definition furrow_capacity :: "vsf_env \<Rightarrow> nat" where
  "furrow_capacity E = BLOCK - body_start E - 2 ^ 7"

section \<open>Extent runs\<close>

fun check_runs_from :: "nat \<Rightarrow> (nat \<times> nat) list \<Rightarrow> nat \<Rightarrow> nat result" where
  "check_runs_from tot [] tract_len = Inr tot"
| "check_runs_from tot ((s, c) # runs) tract_len =
     (if s \<ge> tract_len \<or> c > wsub tract_len s then Inl (Corrupt ''extent run reaches past the tract'')
      else if wadd tot c > tract_len then Inl (Corrupt ''extent runs total too many blocks'')
      else check_runs_from (wadd tot c) runs tract_len)"

definition check_runs :: "(nat \<times> nat) list \<Rightarrow> nat \<Rightarrow> nat result" where
  "check_runs runs tract_len = check_runs_from 0 runs tract_len"

definition expand_runs :: "vsf_env \<Rightarrow> (nat \<times> nat) list \<Rightarrow> nat \<Rightarrow> nat \<Rightarrow> (nat list) result" where
  "expand_runs E runs sz tract_len =
     bindR (check_runs runs tract_len) (\<lambda>tot.
     if tot \<noteq> div_ceil sz (furrow_capacity E) then Inl (Corrupt ''extent run total'')
     else Inr (concat (map (\<lambda>(s, c). [s ..< s + c]) runs)))"

definition compress_step :: "nat \<Rightarrow> (nat \<times> nat) list \<Rightarrow> (nat \<times> nat) list" where
  "compress_step p runs =
     (if runs \<noteq> [] \<and> fst (last runs) + snd (last runs) = p
      then butlast runs @ [(fst (last runs), snd (last runs) + 1)]
      else runs @ [(p, 1)])"

definition compress_runs :: "nat list \<Rightarrow> (nat \<times> nat) list" where
  "compress_runs positions = fold compress_step positions []"

section \<open>Encoders\<close>

definition encode_lone :: "vsf_env \<Rightarrow> hash \<Rightarrow> u8 list \<Rightarrow> block result" where
  "encode_lone E key value = sealed_block E SCHEMA_LONE [(''key'', V_hp key), (''v'', V_v 0x72 value)]"

definition run_fields :: "(nat \<times> nat) list \<Rightarrow> (string \<times> VsfType) list" where
  "run_fields runs = concat (map (\<lambda>(s, c). [(''s'', V_u s False), (''c'', V_u c False)]) runs)"

definition encode_extent :: "vsf_env \<Rightarrow> hash \<Rightarrow> nat \<Rightarrow> (nat \<times> nat) list \<Rightarrow> block result" where
  "encode_extent E key sz runs =
     (if length runs > max_runs E then Inl (Corrupt ''extent leaf overflow'')
      else sealed_block E SCHEMA_EXTENT ([(''key'', V_hp key), (''size'', V_u sz False)] @ run_fields runs))"

definition encode_direct :: "vsf_env \<Rightarrow> hash \<Rightarrow> nat \<Rightarrow> nat list \<Rightarrow> block result" where
  "encode_direct E key sz furrows =
     sealed_block E SCHEMA_DIRECT
       ([(''key'', V_hp key), (''size'', V_u sz False)] @ map (\<lambda>lba. (''f'', V_u lba False)) furrows)"

definition encode_furrow :: "vsf_env \<Rightarrow> hash \<Rightarrow> nat \<Rightarrow> u8 list \<Rightarrow> block result" where
  "encode_furrow E key index payload =
     sealed_block E SCHEMA_FURROW [(''key'', V_hp key), (''i'', V_u index False), (''v'', V_v 0x72 payload)]"

definition presence_of :: "child option list \<Rightarrow> 32 word" where
  "presence_of cs = fold (\<lambda>(i, c) p. if c \<noteq> None then p OR push_bit i 1 else p) (enumerate 0 cs) 0"

fun child_fields :: "child option list \<Rightarrow> ((string \<times> VsfType) list) result" where
  "child_fields [] = Inr []"
| "child_fields (None # cs) = child_fields cs"
| "child_fields (Some (Dirty _) # cs) = Inl (Panic ''encode_node on un-flushed child'')"
| "child_fields (Some (Committed h l) # cs) =
     bindR (child_fields cs) (\<lambda>fs. Inr ((''ch'', V_hp h) # (''at'', V_u l False) # fs))"

definition encode_node :: "vsf_env \<Rightarrow> node \<Rightarrow> block result" where
  "encode_node E node =
     bindR (child_fields (n_children node)) (\<lambda>fs.
     sealed_block E SCHEMA_NODE
       ([(''depth'', V_u (n_depth node) False), (''route'', V_hp (n_route node)),
         (''map'', V_u (unat (presence_of (n_children node))) False)] @ fs))"

section \<open>Decoding\<close>

record doc_acc =
  da_key :: "hash option"
  da_value :: "(u8 list) option"
  da_size :: "nat option"
  da_index :: "nat option"
  da_depth :: "nat option"
  da_route :: "hash option"
  da_map :: "nat option"
  da_hashes :: "hash list"
  da_lbas :: "nat list"
  da_furrows :: "nat list"
  da_run_starts :: "nat list"
  da_run_counts :: "nat list"

definition doc_acc0 :: doc_acc where
  "doc_acc0 = \<lparr>da_key = None, da_value = None, da_size = None, da_index = None, da_depth = None,
     da_route = None, da_map = None, da_hashes = [], da_lbas = [], da_furrows = [],
     da_run_starts = [], da_run_counts = []\<rparr>"

definition doc_step :: "string \<Rightarrow> VsfType \<Rightarrow> doc_acc \<Rightarrow> doc_acc result" where
  "doc_step name v a =
     (if name = ''key'' then
        (case v of V_hp h \<Rightarrow> (if length h = 32 then Inr (a\<lparr>da_key := Some h\<rparr>) else Inl (Corrupt ''key len'')) | _ \<Rightarrow> Inr a)
      else if name = ''v'' then
        (case v of V_v _ bytes \<Rightarrow> Inr (a\<lparr>da_value := Some bytes\<rparr>) | _ \<Rightarrow> Inr a)
      else if name = ''route'' then
        (case v of V_hp h \<Rightarrow> (if length h = 32 then Inr (a\<lparr>da_route := Some h\<rparr>) else Inl (Corrupt ''route len'')) | _ \<Rightarrow> Inr a)
      else if name = ''ch'' then
        (case v of V_hp h \<Rightarrow> (if length h = 32 then Inr (a\<lparr>da_hashes := da_hashes a @ [h]\<rparr>) else Inl (Corrupt ''ch len'')) | _ \<Rightarrow> Inr a)
      else case as_u64 v of None \<Rightarrow> Inr a
      | Some u \<Rightarrow> Inr
         (if name = ''size'' then a\<lparr>da_size := Some u\<rparr>
          else if name = ''i'' then a\<lparr>da_index := Some u\<rparr>
          else if name = ''depth'' then a\<lparr>da_depth := Some u\<rparr>
          else if name = ''map'' then a\<lparr>da_map := Some u\<rparr>
          else if name = ''at'' then a\<lparr>da_lbas := da_lbas a @ [u]\<rparr>
          else if name = ''f'' then a\<lparr>da_furrows := da_furrows a @ [u]\<rparr>
          else if name = ''s'' then a\<lparr>da_run_starts := da_run_starts a @ [u]\<rparr>
          else if name = ''c'' then a\<lparr>da_run_counts := da_run_counts a @ [u]\<rparr>
          else a))"

definition count_ones :: "32 word \<Rightarrow> nat" where
  "count_ones w = length (filter (bit w) [0 ..< 32])"

text \<open>The children in slot order, each present slot taking the next hash and position.\<close>

fun place_children :: "32 word \<Rightarrow> nat list \<Rightarrow> hash list \<Rightarrow> nat list \<Rightarrow> child option list" where
  "place_children p [] hs ls = []"
| "place_children p (i # is) hs ls =
     (if bit p i then Some (Committed (hd hs) (hd ls)) # place_children p is (tl hs) (tl ls)
      else None # place_children p is hs ls)"

definition doc_of_acc :: "string \<Rightarrow> doc_acc \<Rightarrow> TractDoc result" where
  "doc_of_acc schema a =
     (if schema = SCHEMA_LONE then
        bindR (ok_or (Corrupt ''lone: missing key'') (da_key a)) (\<lambda>key.
        bindR (ok_or (Corrupt ''lone: missing value'') (da_value a)) (\<lambda>value.
        Inr (DocLone key value)))
      else if schema = SCHEMA_EXTENT then
        (if length (da_run_starts a) \<noteq> length (da_run_counts a) then Inl (Corrupt ''extent: run start/count mismatch'')
         else
          bindR (ok_or (Corrupt ''extent: missing key'') (da_key a)) (\<lambda>key.
          bindR (ok_or (Corrupt ''extent: missing size'') (da_size a)) (\<lambda>sz.
          Inr (DocExtent key sz (zip (da_run_starts a) (da_run_counts a))))))
      else if schema = SCHEMA_DIRECT then
        bindR (ok_or (Corrupt ''direct: missing key'') (da_key a)) (\<lambda>key.
        bindR (ok_or (Corrupt ''direct: missing size'') (da_size a)) (\<lambda>sz.
        Inr (DocDirect key sz (da_furrows a))))
      else if schema = SCHEMA_FURROW then
        bindR (ok_or (Corrupt ''furrow: missing key'') (da_key a)) (\<lambda>key.
        bindR (ok_or (Corrupt ''furrow: missing index'') (da_index a)) (\<lambda>index.
        bindR (ok_or (Corrupt ''furrow: missing payload'') (da_value a)) (\<lambda>payload.
        Inr (DocFurrow key index payload))))
      else if schema = SCHEMA_NODE then
        bindR (ok_or (Corrupt ''node: missing map'') (da_map a)) (\<lambda>m.
        let presence = of_nat m :: 32 word in
        if count_ones presence \<noteq> length (da_hashes a) \<or> length (da_hashes a) \<noteq> length (da_lbas a)
        then Inl (Corrupt ''node: presence/children mismatch'')
        else
          bindR (ok_or (Corrupt ''node: missing depth'') (da_depth a)) (\<lambda>depth.
          if depth \<ge> MAX_DEPTH then Inl (Corrupt ''node: depth beyond the key levels'')
          else
            bindR (ok_or (Corrupt ''node: missing route'') (da_route a)) (\<lambda>route.
            Inr (DocNode \<lparr>n_depth = depth, n_route = route,
              n_children = place_children presence [0 ..< 32] (da_hashes a) (da_lbas a)\<rparr>))))
      else Inl (Corrupt ''unknown tract schema''))"

definition decode_doc :: "vsf_env \<Rightarrow> block \<Rightarrow> TractDoc result" where
  "decode_doc E block =
     (case vsf_parse E block 4 of
        None \<Rightarrow> Inl (Corrupt ''vsf parse'')
      | Some (_, ptr) \<Rightarrow>
        (case vsf_parse E block (ptr + 1) of
           None \<Rightarrow> Inl (Corrupt ''vsf parse'')
         | Some (V_d schema, ptr2) \<Rightarrow>
             bindR (decode_fields E doc_step block ptr2 doc_acc0) (doc_of_acc schema)
         | Some _ \<Rightarrow> Inl (Corrupt ''missing schema'')))"

definition points_past :: "TractDoc \<Rightarrow> nat \<Rightarrow> bool" where
  "points_past doc tract_len = (case doc of
     DocNode node \<Rightarrow> list_ex (\<lambda>c. case c of Some (Committed _ lba) \<Rightarrow> lba \<ge> tract_len | _ \<Rightarrow> False) (n_children node)
   | DocDirect _ _ furrows \<Rightarrow> list_ex (\<lambda>f. f \<ge> tract_len) furrows
   | _ \<Rightarrow> False)"

definition doc_of :: "vsf_env \<Rightarrow> block \<Rightarrow> hash \<Rightarrow> nat \<Rightarrow> (TractDoc option) result" where
  "doc_of E buf expected tract_len =
     (if buf = ZERO_BLOCK then Inr None
      else case sealed_hp E buf of
        None \<Rightarrow> Inl (Corrupt ''unsealed block'')
      | Some hash \<Rightarrow>
          (if hash \<noteq> expected then Inl Seal
           else bindR (decode_doc E buf) (\<lambda>doc.
             if points_past doc tract_len then Inl (Corrupt ''block points past the tract'')
             else Inr (Some doc))))"

end
