(* ===== verification/Key_Props.thy ===== *)
theory Key_Props
  imports Hamt_Doc
begin

text \<open>
  The key arithmetic: the chunks of a key are its bits, five at a time from the top; two distinct
  keys differ in a chunk below depth 52; \<open>route_with_chunk\<close> sets one chunk and leaves the others.
\<close>

unbundle bit_operations_syntax

definition key_bit :: "hash \<Rightarrow> nat \<Rightarrow> bool" where
  "key_bit key i \<longleftrightarrow> i < 256 \<and> bit (key ! (i div 8)) (7 - i mod 8)"

lemma key_window_bit:
  assumes "byte < 32" and "t < 16"
  shows "bit (key_window key byte) (15 - t) \<longleftrightarrow> key_bit key (8 * byte + t)"
proof (cases "t < 8")
  case True
  have lo: "\<not> bit (ucast (key ! (byte + 1)) :: 16 word) (15 - t)" for key :: hash
    using True bit_imp_le_length [of "key ! (byte + 1)" "15 - t"] by (auto simp: bit_simps)
  have "bit (push_bit 8 (ucast (key ! byte)) :: 16 word) (15 - t) \<longleftrightarrow> bit (key ! byte) (7 - t)"
    using True by (auto simp: bit_simps)
  then show ?thesis using True assms lo [of key]
    by (simp add: key_window_def key_bit_def bit_or_iff)
next
  case False
  then obtain u where u: "t = 8 + u" "u < 8" using assms(2) by (metis add_diff_inverse_nat less_diff_conv2 not_less numeral_Bit0)
  have hi: "\<not> bit (push_bit 8 (ucast (key ! byte)) :: 16 word) (15 - t)" using u by (auto simp: bit_simps)
  have div: "(8 * byte + t) div 8 = byte + 1" "(8 * byte + t) mod 8 = u" using u by simp_all
  show ?thesis
    using u hi div assms by (auto simp: key_window_def key_bit_def bit_or_iff bit_simps)
qed

lemma depth_split: "8 * (depth * 5 div 8) + depth * 5 mod 8 = depth * 5" for depth :: nat
  by simp

lemma chunk_word_bit:
  assumes "depth < 52" and "j < 5"
  shows "bit (chunk_word key depth) (4 - j) \<longleftrightarrow> key_bit key (depth * 5 + j)"
proof -
  let ?byte = "depth * 5 div 8" and ?off = "depth * 5 mod 8"
  have off: "?off < 8" by simp
  have byte: "?byte < 32" using assms(1) by (simp add: less_mult_imp_div_less)
  have f: "bit (0x1F :: 16 word) (4 - j)"
    using assms(2) by (auto simp: bit_numeral_rec less_Suc_eq numeral_eq_Suc)
  have idx: "11 - ?off + (4 - j) = 15 - (?off + j)" using off assms(2) by linarith
  have t: "?off + j < 16" using off assms(2) by linarith
  have "bit (chunk_word key depth) (4 - j) \<longleftrightarrow> bit (key_window key ?byte) (15 - (?off + j))"
    using f idx by (simp add: chunk_word_def Let_def bit_and_iff bit_drop_bit_eq)
  also have "\<dots> \<longleftrightarrow> key_bit key (8 * ?byte + (?off + j))" by (rule key_window_bit [OF byte t])
  also have "8 * ?byte + (?off + j) = depth * 5 + j" using depth_split [of depth] by linarith
  finally show ?thesis .
qed

lemma chunk_word_high: "bit (chunk_word key depth) n \<Longrightarrow> n < 5"
proof -
  assume "bit (chunk_word key depth) n"
  then have "bit (0x1F :: 16 word) n" by (simp add: chunk_word_def Let_def bit_and_iff)
  then have "bit (mask 5 :: 16 word) n" by (simp add: mask_eq_exp_minus_1)
  then show "n < 5" by (simp add: bit_mask_iff)
qed

lemma chunk_less: "unat (chunk_word key depth) < 32"
proof -
  have "chunk_word key depth = take_bit 5 (chunk_word key depth)"
    by (rule bit_eqI) (use chunk_word_high in \<open>auto simp: bit_take_bit_iff\<close>)
  then have "unat (chunk_word key depth) < 2 ^ 5"
    by (metis unsigned_take_bit_eq take_bit_nat_less_exp)
  then show ?thesis by simp
qed

lemma chunk_ok: "depth < 52 \<Longrightarrow> chunk key depth = Inr (unat (chunk_word key depth))"
  by (auto simp: chunk_def)

lemma chunk_panics: "52 \<le> depth \<Longrightarrow> chunk key depth = Inl (Panic ''index out of bounds'')"
  by (auto simp: chunk_def)

lemma key_eqI:
  assumes "length k = 32" and "length l = 32" and "\<And>i. i < 256 \<Longrightarrow> key_bit k i = key_bit l i"
  shows "k = l"
proof (rule nth_equalityI)
  fix b assume "b < length k"
  then have b: "b < 32" using assms(1) by simp
  show "k ! b = l ! b"
  proof (rule bit_eqI)
    fix n assume "possible_bit TYPE(8 word) n"
    then have n: "n < 8" by (simp add: possible_bit_def exp_eq_0_imp_not_bit)
    have m: "(8 * b + (7 - n)) mod 8 = 7 - n" using mod_mult_self4 [of 8 b "7 - n"] by simp
    have i: "8 * b + (7 - n) < 256" "(8 * b + (7 - n)) div 8 = b" "7 - (7 - n) = n"
      using b n by auto
    show "bit (k ! b) n = bit (l ! b) n" using assms(3) [OF i(1)] i(1) unfolding key_bit_def i(2) m i(3) by simp
  qed
qed (use assms in simp)

lemma chunk_word_bits:
  "depth < 52 \<Longrightarrow> chunk_word k depth = chunk_word l depth \<longleftrightarrow> (\<forall>j < 5. key_bit k (depth * 5 + j) = key_bit l (depth * 5 + j))"
proof
  assume d: "depth < 52" and all: "\<forall>j < 5. key_bit k (depth * 5 + j) = key_bit l (depth * 5 + j)"
  show "chunk_word k depth = chunk_word l depth"
  proof (rule bit_eqI)
    fix n
    show "bit (chunk_word k depth) n = bit (chunk_word l depth) n"
    proof (cases "n < 5")
      case True
      then have "4 - (4 - n) = n" "4 - n < 5" by auto
      then show ?thesis using all chunk_word_bit [OF d, of "4 - n"] by metis
    next
      case False
      then show ?thesis using chunk_word_high by blast
    qed
  qed
qed (metis chunk_word_bit)

text \<open>Two distinct keys part before the key runs out.\<close>

lemma keys_diverge:
  assumes "length k = 32" and "length l = 32" and "k \<noteq> l"
  shows "\<exists>d < 52. chunk_word k d \<noteq> chunk_word l d"
proof (rule ccontr)
  assume "\<not> ?thesis"
  then have same: "\<And>d j. d < 52 \<Longrightarrow> j < 5 \<Longrightarrow> key_bit k (d * 5 + j) = key_bit l (d * 5 + j)"
    using chunk_word_bits by metis
  have "key_bit k i = key_bit l i" if "i < 256" for i
  proof -
    have "i div 5 < 52" "i mod 5 < 5" "i div 5 * 5 + i mod 5 = i" using that by auto
    then show ?thesis using same by metis
  qed
  then show False using key_eqI assms by blast
qed

section \<open>Routes\<close>

lemma window_bytes:
  assumes "byte < 32" and "length base = 32" and "i < 256" and "\<And>n. byte = 31 \<Longrightarrow> n < 8 \<Longrightarrow> \<not> bit w n"
  defines "r \<equiv> (if byte + 1 < 32 then (base[byte := ucast (drop_bit 8 w)])[byte + 1 := ucast (w AND 0xFF)]
                 else base[byte := ucast (drop_bit 8 (w :: 16 word))])"
  shows "key_bit r i \<longleftrightarrow> (if 8 * byte \<le> i \<and> i < 8 * byte + 16 then bit w (15 - (i - 8 * byte)) else key_bit base i)"
proof -
  have ff: "bit (0xFF :: 16 word) n \<longleftrightarrow> n < 8" for n
  proof -
    have "bit (mask 8 :: 16 word) n \<longleftrightarrow> n < 8" by (auto simp: bit_mask_iff)
    then show ?thesis by (simp add: mask_eq_exp_minus_1)
  qed
  have hib: "bit (ucast (drop_bit 8 w) :: 8 word) n \<longleftrightarrow> n < 8 \<and> bit w (n + 8)" for n
    by (auto simp: bit_simps ac_simps)
  have "ucast (w AND 0xFF) = (ucast w :: 8 word)"
    by (rule bit_eqI) (simp only: bit_unsigned_iff bit_and_iff ff possible_bit_word, auto)
  then have lob: "bit (ucast (w AND 0xFF) :: 8 word) n \<longleftrightarrow> n < 8 \<and> bit w n" for n
    by (auto simp: bit_simps)
  consider (below) "i < 8 * byte" | (hi) "8 * byte \<le> i" "i < 8 * byte + 8"
    | (lo) "8 * byte + 8 \<le> i" "i < 8 * byte + 16" | (above) "8 * byte + 16 \<le> i" by linarith
  then show ?thesis
  proof cases
    case below
    then have "i div 8 \<noteq> byte" "i div 8 \<noteq> byte + 1" by auto
    then show ?thesis using below by (simp add: r_def key_bit_def)
  next
    case hi
    then obtain u where u: "i = 8 * byte + u" "u < 8" by (metis le_Suc_ex nat_add_left_cancel_less)
    then have d: "i div 8 = byte" "i mod 8 = i - 8 * byte" by simp_all
    have "7 - u + 8 = 15 - u" "7 - u < 8" using u by linarith+
    then have "bit (ucast (drop_bit 8 w) :: 8 word) (7 - u) \<longleftrightarrow> bit w (15 - u)" unfolding hib by simp
    moreover have "i - 8 * byte = u" using u by simp
    ultimately show ?thesis using hi d assms(1-3) by (simp add: r_def key_bit_def)
  next
    case lo
    then obtain u where u': "i = 8 * byte + 8 + u" "u < 8"
      by (metis le_Suc_ex nat_add_left_cancel_less add.assoc numeral_Bit0)
    then have u: "i = 8 * (byte + 1) + u" by simp
    have d: "i div 8 = byte + 1" "7 - i mod 8 = 15 - (i - 8 * byte)" using u'(2) unfolding u
      by (simp_all only: div_mult_self4 mod_mult_self4) simp_all
    have "byte + 1 < 32" "15 - (i - 8 * byte) < 8" using lo(1) assms(3) by linarith+
    then show ?thesis using lo d assms(1-3) lob
      by (simp add: r_def key_bit_def)
  next
    case above
    then have "i div 8 \<noteq> byte" "i div 8 \<noteq> byte + 1" by auto
    then show ?thesis using above by (simp add: r_def key_bit_def)
  qed
qed

lemma route_key_bit:
  assumes d: "depth < 51" and len: "length base = 32" and slot: "slot < 32" and i: "i < 256"
  shows "key_bit (route_with_chunk base depth slot) i \<longleftrightarrow>
    (if depth * 5 \<le> i \<and> i < depth * 5 + 5 then bit slot (4 - (i - depth * 5)) else key_bit base i)"
proof -
  let ?byte = "depth * 5 div 8" and ?off = "depth * 5 mod 8"
  define w where "w = (key_window base ?byte AND NOT (push_bit (11 - ?off) (0x1F :: 16 word))) OR push_bit (11 - ?off) (of_nat slot)"
  have byte: "?byte < 32" using d by (simp add: less_mult_imp_div_less)
  have off: "?off < 8" by simp
  have "bit (mask 5 :: 16 word) n \<longleftrightarrow> n < 5" for n by (auto simp: bit_mask_iff)
  then have f: "bit (0x1F :: 16 word) n \<longleftrightarrow> n < 5" for n by (simp add: mask_eq_exp_minus_1)
  have "take_bit 5 slot = slot" using slot by (simp add: take_bit_nat_eq_self)
  then have s: "n < 5" if "bit slot n" for n using that by (metis bit_take_bit_iff)
  have wb: "bit w n \<longleftrightarrow> n < 16 \<and> (if 11 - ?off \<le> n \<and> n < 16 - ?off then bit slot (n - (11 - ?off)) else bit (key_window base ?byte) n)" for n
  proof -
    have pm: "bit (push_bit k (0x1F :: 16 word)) n \<longleftrightarrow> n < 16 \<and> k \<le> n \<and> n - k < 5" for k
      unfolding bit_push_bit_iff f by auto
    have ps: "bit (push_bit k (of_nat slot :: 16 word)) n \<longleftrightarrow> n < 16 \<and> k \<le> n \<and> bit slot (n - k)" for k
      by (auto simp: bit_simps)
    have wn: "bit (key_window base ?byte) n \<Longrightarrow> n < 16" using bit_imp_le_length by fastforce
    have pb: "possible_bit TYPE(16 word) n \<longleftrightarrow> n < 16" by simp
    have in5: "11 - ?off \<le> n \<and> n < 16 - ?off \<longleftrightarrow> 11 - ?off \<le> n \<and> n - (11 - ?off) < 5" using off by linarith
    define k where "k = n - (11 - ?off)"
    show ?thesis unfolding w_def bit_or_iff bit_and_iff bit_not_iff pm ps pb in5 k_def [symmetric]
      using wn s [of k] by (cases "k < 5"; cases "11 - ?off \<le> n"; cases "bit slot k") (simp_all add: conj_commute)
  qed
  have route: "route_with_chunk base depth slot = (if ?byte + 1 < 32 then (base[?byte := ucast (drop_bit 8 w)])[?byte + 1 := ucast (w AND 0xFF)]
      else base[?byte := ucast (drop_bit 8 w)])"
    by (simp add: route_with_chunk_def Let_def w_def)
  have low: "\<not> bit w n" if b: "?byte = 31" and n: "n < 8" for n
  proof -
    have o: "?off \<le> 3" using d b by presburger
    have "15 - (15 - n) = n" "15 - n < 16" using n by auto
    then have "bit (key_window base ?byte) n \<longleftrightarrow> key_bit base (8 * ?byte + (15 - n))"
      using key_window_bit [OF byte, of "15 - n" base] by simp
    moreover have "\<not> 8 * ?byte + (15 - n) < 256" using b n by linarith
    then have "\<not> key_bit base (8 * ?byte + (15 - n))" unfolding key_bit_def by blast
    ultimately show ?thesis using wb [of n] o n by auto
  qed
  have kb: "key_bit (route_with_chunk base depth slot) i \<longleftrightarrow>
      (if 8 * ?byte \<le> i \<and> i < 8 * ?byte + 16 then bit w (15 - (i - 8 * ?byte)) else key_bit base i)"
    unfolding route by (rule window_bytes [OF byte len i]) (use low in auto)
  have base: "depth * 5 = 8 * ?byte + ?off" using depth_split [of depth] by simp
  show ?thesis
  proof (cases "8 * ?byte \<le> i \<and> i < 8 * ?byte + 16")
    case True
    then obtain t where t: "i = 8 * ?byte + t" "t < 16" by (metis le_Suc_ex nat_add_left_cancel_less)
    have "bit w (15 - t) \<longleftrightarrow> (if ?off \<le> t \<and> t < ?off + 5 then bit slot (4 - (t - ?off)) else key_bit base i)"
    proof (cases "?off \<le> t \<and> t < ?off + 5")
      case True
      then have "11 - ?off \<le> 15 - t" "15 - t < 16 - ?off" "15 - t - (11 - ?off) = 4 - (t - ?off)" "15 - t < 16"
        using off by linarith+
      then show ?thesis using wb [of "15 - t"] True by simp
    next
      case False
      then have "\<not> (11 - ?off \<le> 15 - t \<and> 15 - t < 16 - ?off)" "15 - t < 16" using t(2) off by linarith+
      then show ?thesis using wb [of "15 - t"] False key_window_bit [OF byte t(2), of base] t by auto
    qed
    moreover have "depth * 5 \<le> i \<longleftrightarrow> ?off \<le> t" "i < depth * 5 + 5 \<longleftrightarrow> t < ?off + 5" "i - depth * 5 = t - ?off" "i - 8 * ?byte = t"
      using base t by linarith+
    ultimately show ?thesis using kb True by simp
  next
    case False
    then have "\<not> (depth * 5 \<le> i \<and> i < depth * 5 + 5)" using base off by linarith
    then show ?thesis using kb False by argo
  qed
qed

lemma route_chunk_set:
  assumes "depth < 51" and "length base = 32" and "slot < 32"
  shows "unat (chunk_word (route_with_chunk base depth slot) depth) = slot"
proof -
  have "chunk_word (route_with_chunk base depth slot) depth = of_nat slot"
  proof (rule bit_eqI)
    fix n
    show "bit (chunk_word (route_with_chunk base depth slot) depth) n = bit (of_nat slot :: 16 word) n"
    proof (cases "n < 5")
      case True
      then have "4 - (4 - n) = n" "4 - n < 5" and i: "depth * 5 + (4 - n) < 256" using assms(1) by auto
      then show ?thesis
        using chunk_word_bit [of depth "4 - n" "route_with_chunk base depth slot"] assms True
          route_key_bit [OF assms i] by (auto simp: bit_simps)
    next
      case False
      have "take_bit 5 slot = slot" using assms(3) by (simp add: take_bit_nat_eq_self)
      then have "\<not> bit slot n" using False by (metis bit_take_bit_iff)
      then show ?thesis using False chunk_word_high by (auto simp: bit_simps)
    qed
  qed
  then show ?thesis using assms(3) by (simp add: unat_of_nat)
qed

lemma route_chunk_other:
  assumes "depth < 51" and "length base = 32" and "slot < 32" and "d < 52" and "d \<noteq> depth"
  shows "chunk_word (route_with_chunk base depth slot) d = chunk_word base d"
  unfolding chunk_word_bits [OF assms(4)]
proof (intro allI impI)
  fix j :: nat assume "j < 5"
  show "key_bit (route_with_chunk base depth slot) (d * 5 + j) = key_bit base (d * 5 + j)"
  proof (cases "d * 5 + j < 256")
    case True
    have "\<not> (depth * 5 \<le> d * 5 + j \<and> d * 5 + j < depth * 5 + 5)" using assms(5) \<open>j < 5\<close> by presburger
    then show ?thesis by (subst route_key_bit [OF assms(1-3) True]) (rule if_not_P)
  qed (simp add: key_bit_def)
qed

lemma length_route [simp]: "length (route_with_chunk base depth slot) = length base"
  by (simp add: route_with_chunk_def Let_def)

end
