(* ===== verification/Doc_Props.thy ===== *)
theory Doc_Props
  imports Key_Props
begin

text \<open>
  The documents' correctness: extent runs expand to what they compressed and never past the tract;
  every encoder's block decodes to the document it was made from.
\<close>

unbundle bit_operations_syntax

section \<open>Runs\<close>

definition run_positions :: "(nat \<times> nat) list \<Rightarrow> nat list" where
  "run_positions runs = concat (map (\<lambda>(s, c). [s ..< s + c]) runs)"

lemma run_positions_simps [simp]:
  "run_positions [] = []" "run_positions ((s, c) # runs) = [s ..< s + c] @ run_positions runs"
  "run_positions (xs @ ys) = run_positions xs @ run_positions ys"
  by (simp_all add: run_positions_def)

lemma length_run_positions: "length (run_positions runs) = sum_list (map snd runs)"
  by (induction runs) auto

lemma in_run_positions: "p \<in> set (run_positions runs) \<longleftrightarrow> (\<exists>(s, c) \<in> set runs. s \<le> p \<and> p < s + c)"
  by (induction runs) auto

lemma check_runs_from_ok:
  assumes "check_runs_from t runs L = Inr u" and "t \<le> L" and "L < 2 ^ 63"
  shows "u = t + sum_list (map snd runs) \<and> u \<le> L \<and> (\<forall>(s, c) \<in> set runs. s < L \<and> s + c \<le> L)"
  using assms
proof (induction t runs L rule: check_runs_from.induct)
  case (1 t L)
  then show ?case by simp
next
  case (2 t s c runs L)
  have sc: "s < L" "c \<le> wsub L s" "\<not> wadd t c > L" using 2(2) by (auto split: if_splits)
  then have "wsub L s = L - s" using 2(4) by (intro wsub_eq) auto
  then have c: "s + c \<le> L" using sc by simp
  then have w: "wadd t c = t + c" using 2(3,4) by (intro wadd_eq) simp
  show ?case using 2(1) [of] 2(2-4) sc c w by (auto split: if_splits)
qed

lemma check_runs_from_accepts:
  assumes "\<forall>(s, c) \<in> set runs. s < L \<and> s + c \<le> L" and "t + sum_list (map snd runs) \<le> L" and "L < 2 ^ 63"
  shows "check_runs_from t runs L = Inr (t + sum_list (map snd runs))"
  using assms
proof (induction t runs L rule: check_runs_from.induct)
  case (1 t L)
  then show ?case by simp
next
  case (2 t s c runs L)
  have sc: "s < L" "s + c \<le> L" using 2(2) by auto
  then have "wsub L s = L - s" using 2(4) by (intro wsub_eq) auto
  moreover have "wadd t c = t + c" using 2(3,4) by (intro wadd_eq) simp
  ultimately show ?case using 2 sc by (simp add: add.assoc)
qed

lemma expand_runs_ok:
  assumes "expand_runs E runs sz L = Inr ps" and "L < 2 ^ 63"
  shows "ps = run_positions runs \<and> length ps = div_ceil sz (furrow_capacity E) \<and> length ps \<le> L \<and> (\<forall>p \<in> set ps. p < L)"
proof -
  from assms(1) obtain t where t: "check_runs runs L = Inr t" and "t = div_ceil sz (furrow_capacity E)"
    and ps: "ps = run_positions runs"
    by (auto simp: expand_runs_def run_positions_def bindR_eq_Inr split: if_splits)
  moreover from t have "t = sum_list (map snd runs) \<and> t \<le> L \<and> (\<forall>(s, c) \<in> set runs. s < L \<and> s + c \<le> L)"
    using check_runs_from_ok [of 0 runs L t] assms(2) by (simp add: check_runs_def)
  moreover from this have "\<forall>p \<in> set ps. p < L" unfolding ps by (fastforce simp: in_run_positions)
  ultimately show ?thesis by (simp add: length_run_positions)
qed

text \<open>Compressing: the same positions, every run non-empty.\<close>

lemma compress_step_positions:
  "\<forall>(s, c) \<in> set runs. 0 < c \<Longrightarrow>
   run_positions (compress_step p runs) = run_positions runs @ [p] \<and> (\<forall>(s, c) \<in> set (compress_step p runs). 0 < c)"
proof (cases runs rule: rev_cases)
  case Nil
  then show ?thesis by (simp add: compress_step_def)
next
  case (snoc rs r)
  assume "\<forall>(s, c) \<in> set runs. 0 < c"
  then show ?thesis using snoc by (cases r) (auto simp: compress_step_def)
qed

lemma compress_fold:
  "\<forall>(s, c) \<in> set runs. 0 < c \<Longrightarrow>
   run_positions (fold compress_step ps runs) = run_positions runs @ ps \<and> (\<forall>(s, c) \<in> set (fold compress_step ps runs). 0 < c)"
proof (induction ps arbitrary: runs)
  case Nil
  then show ?case by simp
next
  case (Cons p ps)
  then show ?case
    using compress_step_positions [OF Cons.prems, of p] Cons.IH [of "compress_step p runs"]
    by (metis append_Cons append_assoc append_self_conv2 fold_simps(2))
qed

lemma compress_runs_positions:
  "run_positions (compress_runs ps) = ps" "\<forall>(s, c) \<in> set (compress_runs ps). 0 < c"
  using compress_fold [of "[]" ps] by (auto simp: compress_runs_def)

lemma compress_runs_within:
  assumes "\<forall>p \<in> set ps. p < L"
  shows "\<forall>(s, c) \<in> set (compress_runs ps). s < L \<and> s + c \<le> L"
proof clarify
  fix s c assume sc: "(s, c) \<in> set (compress_runs ps)"
  then have c: "0 < c" using compress_runs_positions(2) [of ps] by auto
  have "set [s ..< s + c] \<subseteq> set ps"
    using sc in_run_positions [of _ "compress_runs ps"] unfolding compress_runs_positions(1)
    by (auto intro!: bexI [of _ "(s, c)"])
  then have "s \<in> set ps" "s + c - 1 \<in> set ps" using c by auto
  then have "s < L" "s + c - 1 < L" using assms by blast+
  then show "s < L \<and> s + c \<le> L" using c by linarith
qed

lemma expand_compress:
  assumes "\<forall>p \<in> set ps. p < L" and "length ps \<le> L" and "L < 2 ^ 63" and "length ps = div_ceil sz (furrow_capacity E)"
  shows "expand_runs E (compress_runs ps) sz L = Inr ps"
proof -
  have "sum_list (map snd (compress_runs ps)) = length ps"
    using length_run_positions [of "compress_runs ps"] compress_runs_positions(1) [of ps] by simp
  then have "check_runs (compress_runs ps) L = Inr (length ps)"
    using check_runs_from_accepts [OF compress_runs_within [OF assms(1)], of 0] assms by (simp add: check_runs_def)
  then show ?thesis using assms(4) compress_runs_positions(1) [of ps]
    by (simp add: expand_runs_def run_positions_def)
qed

section \<open>Codecs\<close>

lemma doc_step_ok: "step_ok doc_step"
  unfolding step_ok_def
proof (intro allI impI)
  fix n v w a assume v: "vsf_wf v" and s: "vsf_same v w"
  show "doc_step n w a = doc_step n v a"
    using s vsf_same_as_u64 [OF s v] v
    by (cases v) (auto simp: vsf_same_def doc_step_def as_u64_def split: VsfType.splits)
qed

lemma decode_doc_block:
  assumes ok: "vsf_ok E" and wf: "doc_wf schema fs" and fits: "doc_fits E schema fs"
  shows "decode_doc E (doc_block E schema fs) = bindR (fold_fields doc_step fs doc_acc0) (doc_of_acc schema)"
proof -
  have "body_start E - 1 + 1 = body_start E" using body_start_ge [of E] by simp
  then show ?thesis
    using doc_block_header(2) [OF ok, of schema fs] doc_block_schema [OF ok wf]
      decode_fields_doc_block [OF ok wf fits doc_step_ok]
    by (simp add: decode_doc_def)
qed

lemma fold_fields_append:
  "fold_fields step (xs @ ys) a = bindR (fold_fields step xs a) (fold_fields step ys)"
proof (induction xs arbitrary: a)
  case Nil
  then show ?case by simp
next
  case (Cons x xs)
  then show ?case by (cases "step (fst x) (snd x) a") simp_all
qed

lemmas step_simps = doc_step_def as_u64_def doc_acc0_def

definition lone_fields :: "hash \<Rightarrow> u8 list \<Rightarrow> (string \<times> VsfType) list" where
  "lone_fields key value = [(''key'', V_hp key), (''v'', V_v 0x72 value)]"

lemma lone_doc:
  assumes "vsf_ok E" and "length key = 32" and "length value \<le> lone_capacity E"
  shows "doc_wf SCHEMA_LONE (lone_fields key value)" and "doc_fits E SCHEMA_LONE (lone_fields key value)"
proof -
  have v: "length value + body_start E + 128 \<le> BLOCK"
    using assms(3) body_start_le [OF assms(1)] by (simp add: lone_capacity_def BLOCK_def)
  then show wf: "doc_wf SCHEMA_LONE (lone_fields key value)"
    using assms by (auto simp: doc_wf_def lone_fields_def SCHEMA_LONE_def vsf_wf_def)
  show "doc_fits E SCHEMA_LONE (lone_fields key value)"
    by (rule doc_fits_exact [OF assms(1) wf])
       (use v body_start_le [OF assms(1)] in \<open>auto simp: lone_fields_def SCHEMA_LONE_def vsf_width_simps BLOCK_def\<close>)
qed

lemma encode_lone_ok:
  assumes "vsf_ok E" and "length key = 32" and "length value \<le> lone_capacity E"
  shows "encode_lone E key value = Inr (doc_block E SCHEMA_LONE (lone_fields key value))"
    and "decode_doc E (doc_block E SCHEMA_LONE (lone_fields key value)) = Inr (DocLone key value)"
proof -
  note d = lone_doc [OF assms]
  show "encode_lone E key value = Inr (doc_block E SCHEMA_LONE (lone_fields key value))"
    using sealed_block_eq [OF assms(1) d(2)] by (simp add: encode_lone_def lone_fields_def)
  show "decode_doc E (doc_block E SCHEMA_LONE (lone_fields key value)) = Inr (DocLone key value)"
    unfolding decode_doc_block [OF assms(1) d] using assms(2)
    by (simp add: lone_fields_def step_simps doc_of_acc_def)
qed

definition furrow_fields :: "hash \<Rightarrow> nat \<Rightarrow> u8 list \<Rightarrow> (string \<times> VsfType) list" where
  "furrow_fields key i payload = [(''key'', V_hp key), (''i'', V_u i False), (''v'', V_v 0x72 payload)]"

lemma furrow_doc:
  assumes "vsf_ok E" and "length key = 32" and "i < U64" and "length payload \<le> furrow_capacity E"
  shows "doc_wf SCHEMA_FURROW (furrow_fields key i payload)" and "doc_fits E SCHEMA_FURROW (furrow_fields key i payload)"
proof -
  have v: "length payload + body_start E + 128 \<le> BLOCK"
    using assms(4) body_start_le [OF assms(1)] by (simp add: furrow_capacity_def BLOCK_def)
  then show wf: "doc_wf SCHEMA_FURROW (furrow_fields key i payload)"
    using assms by (auto simp: doc_wf_def furrow_fields_def SCHEMA_FURROW_def vsf_wf_def)
  show "doc_fits E SCHEMA_FURROW (furrow_fields key i payload)"
    by (rule doc_fits_exact [OF assms(1) wf])
       (use v body_start_le [OF assms(1)] in \<open>auto simp: furrow_fields_def SCHEMA_FURROW_def vsf_width_simps BLOCK_def\<close>)
qed

lemma encode_furrow_ok:
  assumes "vsf_ok E" and "length key = 32" and "i < U64" and "length payload \<le> furrow_capacity E"
  shows "encode_furrow E key i payload = Inr (doc_block E SCHEMA_FURROW (furrow_fields key i payload))"
    and "decode_doc E (doc_block E SCHEMA_FURROW (furrow_fields key i payload)) = Inr (DocFurrow key i payload)"
proof -
  note d = furrow_doc [OF assms]
  show "encode_furrow E key i payload = Inr (doc_block E SCHEMA_FURROW (furrow_fields key i payload))"
    using sealed_block_eq [OF assms(1) d(2)] by (simp add: encode_furrow_def furrow_fields_def)
  show "decode_doc E (doc_block E SCHEMA_FURROW (furrow_fields key i payload)) = Inr (DocFurrow key i payload)"
    unfolding decode_doc_block [OF assms(1) d] using assms(2,3)
    by (simp add: furrow_fields_def step_simps doc_of_acc_def SCHEMA_FURROW_def SCHEMA_LONE_def SCHEMA_EXTENT_def SCHEMA_DIRECT_def)
qed

text \<open>Extent leaves.\<close>

definition extent_fields :: "hash \<Rightarrow> nat \<Rightarrow> (nat \<times> nat) list \<Rightarrow> (string \<times> VsfType) list" where
  "extent_fields key sz runs = [(''key'', V_hp key), (''size'', V_u sz False)] @ run_fields runs"

lemma run_fields_simps [simp]:
  "run_fields [] = []" "run_fields ((s, c) # runs) = (''s'', V_u s False) # (''c'', V_u c False) # run_fields runs"
  by (simp_all add: run_fields_def)

lemma run_fields_width:
  "sum_list (map (\<lambda>(n, v). length n + 4 + vsf_width v) (run_fields runs)) = 30 * length runs"
  by (induction runs) (auto simp: vsf_width_simps)

lemma run_fields_wf:
  "\<forall>(s, c) \<in> set runs. s < U64 \<and> c < U64 \<Longrightarrow> \<forall>(n, v) \<in> set (run_fields runs). length n \<le> 32 \<and> vsf_wf v"
  by (induction runs) (auto simp: vsf_wf_def)

lemma fold_run_fields:
  "\<forall>(s, c) \<in> set runs. s < U64 \<and> c < U64 \<Longrightarrow> fold_fields doc_step (run_fields runs) a
     = Inr (a\<lparr>da_run_starts := da_run_starts a @ map fst runs, da_run_counts := da_run_counts a @ map snd runs\<rparr>)"
proof (induction runs arbitrary: a)
  case Nil
  then show ?case by simp
next
  case (Cons r runs)
  obtain s c where r: "r = (s, c)" by (cases r)
  have "s < U64" "c < U64" using Cons.prems r by auto
  then show ?case using Cons r by (simp add: doc_step_def as_u64_def)
qed

lemma extent_doc:
  assumes "vsf_ok E" and "length key = 32" and "sz < U64" and "length runs \<le> max_runs E"
    and runs: "\<forall>(s, c) \<in> set runs. s < U64 \<and> c < U64"
  shows "doc_wf SCHEMA_EXTENT (extent_fields key sz runs)" and "doc_fits E SCHEMA_EXTENT (extent_fields key sz runs)"
proof -
  show wf: "doc_wf SCHEMA_EXTENT (extent_fields key sz runs)"
    using assms(2,3) run_fields_wf [OF runs] by (auto simp: doc_wf_def extent_fields_def SCHEMA_EXTENT_def vsf_wf_def)
  have "32 * length runs \<le> BLOCK - body_start E - 96" using assms(4) by (simp add: max_runs_def)
  then have "body_start E + 96 + 30 * length runs \<le> BLOCK"
    using body_start_le [OF assms(1)] by (simp add: BLOCK_def)
  then show "doc_fits E SCHEMA_EXTENT (extent_fields key sz runs)"
    by (intro doc_fits_exact [OF assms(1) wf])
       (simp add: extent_fields_def SCHEMA_EXTENT_def vsf_width_simps run_fields_width)
qed

lemma encode_extent_ok:
  assumes "vsf_ok E" and "length key = 32" and "sz < U64" and "length runs \<le> max_runs E"
    and runs: "\<forall>(s, c) \<in> set runs. s < U64 \<and> c < U64"
  shows "encode_extent E key sz runs = Inr (doc_block E SCHEMA_EXTENT (extent_fields key sz runs))"
    and "decode_doc E (doc_block E SCHEMA_EXTENT (extent_fields key sz runs)) = Inr (DocExtent key sz runs)"
proof -
  note d = extent_doc [OF assms]
  show "encode_extent E key sz runs = Inr (doc_block E SCHEMA_EXTENT (extent_fields key sz runs))"
    using sealed_block_eq [OF assms(1) d(2)] assms(4) by (simp add: encode_extent_def extent_fields_def)
  show "decode_doc E (doc_block E SCHEMA_EXTENT (extent_fields key sz runs)) = Inr (DocExtent key sz runs)"
    unfolding decode_doc_block [OF assms(1) d] unfolding extent_fields_def fold_fields_append using assms(2,3)
    by (simp add: step_simps fold_run_fields [OF runs] doc_of_acc_def SCHEMA_EXTENT_def SCHEMA_LONE_def zip_map_fst_snd)
qed

text \<open>Index nodes.\<close>

definition clean_child :: "child option \<Rightarrow> bool" where
  "clean_child c = (case c of None \<Rightarrow> True | Some (Committed h l) \<Rightarrow> length h = 32 \<and> l < U64 | Some (Dirty _) \<Rightarrow> False)"

definition clean_node :: "node \<Rightarrow> bool" where
  "clean_node n \<longleftrightarrow> n_depth n < MAX_DEPTH \<and> length (n_route n) = 32 \<and> length (n_children n) = 32
     \<and> (\<forall>c \<in> set (n_children n). clean_child c)"

definition present :: "child option list \<Rightarrow> child list" where
  "present cs = map the (filter (\<lambda>c. c \<noteq> None) cs)"

lemma present_simps [simp]: "present [] = []" "present (None # cs) = present cs" "present (Some c # cs) = c # present cs"
  by (simp_all add: present_def)

definition present_fields :: "child option list \<Rightarrow> (string \<times> VsfType) list" where
  "present_fields cs = concat (map (\<lambda>c. [(''ch'', V_hp (c_hash c)), (''at'', V_u (c_lba c) False)]) (present cs))"

lemma child_fields_ok: "\<forall>c \<in> set cs. clean_child c \<Longrightarrow> child_fields cs = Inr (present_fields cs)"
  by (induction cs rule: child_fields.induct) (auto simp: clean_child_def present_fields_def)

lemma present_clean: "\<forall>c \<in> set cs. clean_child c \<Longrightarrow> c \<in> set (present cs) \<Longrightarrow> \<exists>h l. c = Committed h l \<and> length h = 32 \<and> l < U64"
  by (induction cs) (auto simp: clean_child_def split: option.splits child.splits)

lemma length_present: "length (present cs) \<le> length cs"
  by (simp add: present_def)

lemma present_fields_wf:
  "\<forall>c \<in> set cs. clean_child c \<Longrightarrow> \<forall>(n, v) \<in> set (present_fields cs). length n \<le> 32 \<and> vsf_wf v"
  by (auto simp: present_fields_def vsf_wf_def dest!: present_clean)

lemma present_fields_width:
  "sum_list (map (\<lambda>(n, v). length n + 4 + vsf_width v) (present_fields cs)) = 62 * length (present cs)"
proof -
  have "sum_list (map (\<lambda>(n, v). length n + 4 + vsf_width v)
      (concat (map (\<lambda>c. [(''ch'', V_hp (c_hash c)), (''at'', V_u (c_lba c) False)]) xs))) = 62 * length xs" for xs
    by (induction xs) (auto simp: vsf_width_simps)
  then show ?thesis by (simp add: present_fields_def)
qed

lemma fold_present_fields:
  assumes "\<forall>c \<in> set xs. \<exists>h l. c = Committed h l \<and> length h = 32 \<and> l < U64"
  shows "fold_fields doc_step (concat (map (\<lambda>c. [(''ch'', V_hp (c_hash c)), (''at'', V_u (c_lba c) False)]) xs)) a
     = Inr (a\<lparr>da_hashes := da_hashes a @ map c_hash xs, da_lbas := da_lbas a @ map c_lba xs\<rparr>)"
  using assms
proof (induction xs arbitrary: a)
  case Nil
  then show ?case by simp
next
  case (Cons c xs)
  then obtain h l where "c = Committed h l" "length h = 32" "l < U64" by auto
  then show ?case using Cons by (simp add: doc_step_def as_u64_def)
qed

lemma presence_fold:
  fixes p :: "32 word"
  shows "bit (fold (\<lambda>(i, c) p. if c \<noteq> None then p OR push_bit i 1 else p) (enumerate s cs) p) n
     \<longleftrightarrow> bit p n \<or> (s \<le> n \<and> n < s + length cs \<and> n < 32 \<and> cs ! (n - s) \<noteq> None)"
proof (induction cs arbitrary: s p)
  case Nil
  then show ?case by auto
next
  case (Cons c cs)
  have one: "bit (2 ^ s :: 32 word) n \<longleftrightarrow> n = s \<and> n < 32" for n by (auto simp: bit_simps)
  have nth: "(c # cs) ! (n - s) = (if n = s then c else cs ! (n - Suc s))" if "s \<le> n"
    using that by (auto simp: nth_Cons split: nat.splits) (metis Suc_diff_Suc diff_Suc_Suc le_neq_implies_less nat.inject)
  show ?case unfolding enumerate_simps fold_simps Cons.IH
    by (cases "s \<le> n"; cases "n = s") (auto simp: bit_or_iff one nth)
qed

lemma presence_bit:
  "length cs = 32 \<Longrightarrow> bit (presence_of cs) n \<longleftrightarrow> n < 32 \<and> cs ! n \<noteq> None"
  unfolding presence_of_def presence_fold by auto

lemma place_children_present:
  assumes "\<forall>i < length cs. bit p (s + i) \<longleftrightarrow> cs ! i \<noteq> None" and "\<forall>c \<in> set cs. clean_child c"
  shows "place_children p [s ..< s + length cs] (map c_hash (present cs)) (map c_lba (present cs)) = cs"
  using assms
proof (induction cs arbitrary: s)
  case Nil
  then show ?case by simp
next
  case (Cons c cs)
  have up: "[s ..< s + length (c # cs)] = s # [Suc s ..< Suc s + length cs]" by (subst upt_conv_Cons) auto
  have "\<forall>i < length cs. bit p (Suc s + i) \<longleftrightarrow> cs ! i \<noteq> None" using Cons.prems(1) by auto
  then have IH: "place_children p [Suc s ..< Suc s + length cs] (map c_hash (present cs)) (map c_lba (present cs)) = cs"
    using Cons.prems(2) by (intro Cons.IH) auto
  have b: "bit p s \<longleftrightarrow> c \<noteq> None" using Cons.prems(1) by force
  show ?case
  proof (cases c)
    case None
    then show ?thesis unfolding up using IH b by simp
  next
    case (Some x)
    then obtain h l where "x = Committed h l" using Cons.prems(2) by (cases x) (auto simp: clean_child_def)
    then show ?thesis unfolding up using IH b Some by simp
  qed
qed

lemma count_ones_presence:
  assumes "length cs = 32"
  shows "count_ones (presence_of cs) = length (present cs)"
proof -
  have "filter (bit (presence_of cs)) [0 ..< 32] = filter (\<lambda>i. cs ! i \<noteq> None) [0 ..< 32]"
    by (rule filter_cong) (auto simp: presence_bit [OF assms])
  moreover have "length (filter (\<lambda>i. cs ! i \<noteq> None) [0 ..< length cs]) = length (filter (\<lambda>c. c \<noteq> None) cs)"
  proof -
    have "filter (\<lambda>c. c \<noteq> None) cs = filter (\<lambda>c. c \<noteq> None) (map ((!) cs) [0 ..< length cs])" by (simp add: map_nth)
    also have "\<dots> = map ((!) cs) (filter (\<lambda>i. cs ! i \<noteq> None) [0 ..< length cs])" by (simp add: filter_map comp_def)
    finally show ?thesis by simp
  qed
  ultimately show ?thesis using assms by (simp add: count_ones_def present_def)
qed

definition node_fields :: "node \<Rightarrow> (string \<times> VsfType) list" where
  "node_fields n = [(''depth'', V_u (n_depth n) False), (''route'', V_hp (n_route n)),
     (''map'', V_u (unat (presence_of (n_children n))) False)] @ present_fields (n_children n)"

lemma node_doc:
  assumes "vsf_ok E" and "clean_node n"
  shows "doc_wf SCHEMA_NODE (node_fields n)" and "doc_fits E SCHEMA_NODE (node_fields n)"
proof -
  have c: "\<forall>c \<in> set (n_children n). clean_child c" "length (n_children n) = 32" using assms(2) by (auto simp: clean_node_def)
  have u: "unat (presence_of (n_children n)) < U64" using unsigned_less [where 'a = nat, of "presence_of (n_children n)"] by simp
  show wf: "doc_wf SCHEMA_NODE (node_fields n)"
    using assms(2) present_fields_wf [OF c(1)] u
    by (auto simp: doc_wf_def node_fields_def SCHEMA_NODE_def vsf_wf_def clean_node_def MAX_DEPTH_def)
  show "doc_fits E SCHEMA_NODE (node_fields n)"
    by (rule doc_fits_bound [OF assms(1) wf])
       (use length_present [of "n_children n"] c(2) in
        \<open>simp add: node_fields_def SCHEMA_NODE_def vsf_width_simps present_fields_width BLOCK_def\<close>)
qed

lemma encode_node_ok:
  assumes "vsf_ok E" and "clean_node n"
  shows "encode_node E n = Inr (doc_block E SCHEMA_NODE (node_fields n))"
    and "decode_doc E (doc_block E SCHEMA_NODE (node_fields n)) = Inr (DocNode n)"
proof -
  note d = node_doc [OF assms]
  have c: "\<forall>c \<in> set (n_children n). clean_child c" "length (n_children n) = 32"
    and n: "n_depth n < MAX_DEPTH" "length (n_route n) = 32" using assms(2) by (auto simp: clean_node_def)
  show "encode_node E n = Inr (doc_block E SCHEMA_NODE (node_fields n))"
    using sealed_block_eq [OF assms(1) d(2)] child_fields_ok [OF c(1)] by (simp add: encode_node_def node_fields_def)
  have u: "unat (presence_of (n_children n)) < U64" using unsigned_less [where 'a = nat, of "presence_of (n_children n)"] by simp
  have cs: "\<forall>x \<in> set (present (n_children n)). \<exists>h l. x = Committed h l \<and> length h = 32 \<and> l < U64"
    using present_clean [OF c(1)] by blast
  have place: "place_children (presence_of (n_children n)) [0 ..< 32] (map c_hash (present (n_children n))) (map c_lba (present (n_children n))) = n_children n"
    using place_children_present [of "n_children n" "presence_of (n_children n)" 0] presence_bit [OF c(2)] c by simp
  have "n_depth n < U64" using n(1) by (simp add: MAX_DEPTH_def)
  then show "decode_doc E (doc_block E SCHEMA_NODE (node_fields n)) = Inr (DocNode n)"
    unfolding decode_doc_block [OF assms(1) d] unfolding node_fields_def fold_fields_append present_fields_def
    using n u by (simp add: step_simps fold_present_fields [OF cs] doc_of_acc_def count_ones_presence [OF c(2)] place
        SCHEMA_NODE_def SCHEMA_LONE_def SCHEMA_EXTENT_def SCHEMA_DIRECT_def SCHEMA_FURROW_def Let_def)
qed

section \<open>What a reader gets for a written document\<close>

lemma doc_of_block:
  assumes ok: "vsf_ok E" and "decode_doc E (doc_block E schema fs) = Inr doc" and "\<not> points_past doc L"
  shows "doc_of E (doc_block E schema fs) (blake3 E (doc_body E schema fs)) L = Inr (Some doc)"
  using sealed_hp_doc_block [OF ok] doc_block_not_zero [OF ok] assms(2,3) by (simp add: doc_of_def)

end
