(* ===== verification/Codec_Claims.thy ===== *)
theory Codec_Claims
  imports Doc_Props Ref_Codec
begin

text \<open>
  The properties of the index's documents: the chunks of a key, the routes of a repair walk, the
  run arithmetic of an extent, and the codecs of leaves and nodes.
\<close>

section \<open>Keys\<close>

text \<open>C32. The chunks of a key are between 0 and 31 and tell any two distinct 32-byte keys apart within 52
  levels; one level deeper the code panics. A synthesized route has the chosen slot at its depth and
  the base key's chunks at every other depth.\<close>

theorem key_chunks:
  assumes "length k = 32" and "length l = 32" and "depth < 51" and "slot < 32"
  shows "(k \<noteq> l \<longrightarrow> (\<exists>d < 52. chunk k d \<noteq> chunk l d))
    \<and> (\<forall>d < 52. \<exists>c < 32. chunk k d = Inr c) \<and> (\<exists>msg. chunk k 52 = Inl (Panic msg))
    \<and> length (route_with_chunk k depth slot) = 32 \<and> chunk (route_with_chunk k depth slot) depth = Inr slot
    \<and> (\<forall>d < 52. d \<noteq> depth \<longrightarrow> chunk (route_with_chunk k depth slot) d = chunk k d)"
proof -
  have "(k \<noteq> l \<longrightarrow> (\<exists>d < 52. chunk k d \<noteq> chunk l d)) \<and> (\<forall>d < 52. \<exists>c < 32. chunk k d = Inr c) \<and> (\<exists>msg. chunk k 52 = Inl (Panic msg))"
    using keys_diverge [OF assms(1,2)] chunk_ok chunk_panics [of 52 k] chunk_less by (auto intro: unsigned_word_eqI) (metis sum.inject(2) word_unat_eq_iff)
  then show ?thesis using route_chunk_set [OF assms(3,1,4)] route_chunk_other [OF assms(3,1,4)] assms by (simp add: chunk_ok)
qed

theorem key_chunks_witness:
  "(\<exists>d < 52. chunk (replicate 31 0 @ [1]) d \<noteq> chunk (replicate 31 0 @ [2]) d) \<and> chunk (route_with_chunk (replicate 31 0 @ [1]) 7 19) 7 = Inr 19"
  using key_chunks [of "replicate 31 0 @ [1]" "replicate 31 0 @ [2]" 7 19] by simp

section \<open>Documents\<close>

text \<open>C33. Leaves. A value up to the lone capacity fits its leaf's block, reads back under the block's own
  hash as that key and value, and under any other hash is refused. An extent leaf over any furrow
  positions inside the tract decodes to its key, its size and runs that expand to exactly those
  positions, as long as the runs fit the limit; more runs than that are refused, not truncated.\<close>

theorem leaf_roundtrip:
  assumes "vsf_ok E" and "length key = 32" and "length value \<le> lone_capacity E" and "sz < U64"
    and "\<forall>p \<in> set ps. p < L" and "length ps \<le> L" and "L < 2 ^ 63" and "length ps = div_ceil sz (furrow_capacity E)"
  shows "(\<exists>b h. encode_lone E key value = Inr b \<and> length b = BLOCK \<and> sealed_hp E b = Some h
      \<and> doc_of E b h L = Inr (Some (DocLone key value)) \<and> (\<forall>g. g \<noteq> h \<longrightarrow> doc_of E b g L = Inl Seal))
    \<and> (if length (compress_runs ps) \<le> max_runs E
       then \<exists>b runs. encode_extent E key sz (compress_runs ps) = Inr b \<and> length b = BLOCK
         \<and> decode_doc E b = Inr (DocExtent key sz runs) \<and> expand_runs E runs sz L = Inr ps
       else \<exists>msg. encode_extent E key sz (compress_runs ps) = Inl (Corrupt msg))"
proof
  show "\<exists>b h. encode_lone E key value = Inr b \<and> length b = BLOCK \<and> sealed_hp E b = Some h
      \<and> doc_of E b h L = Inr (Some (DocLone key value)) \<and> (\<forall>g. g \<noteq> h \<longrightarrow> doc_of E b g L = Inl Seal)"
    using encode_lone_ok [OF assms(1-3)] length_doc_block [OF assms(1) lone_doc(2) [OF assms(1-3)]]
      sealed_hp_doc_block [OF assms(1), of SCHEMA_LONE "lone_fields key value"] doc_block_not_zero [OF assms(1), of SCHEMA_LONE "lone_fields key value"]
    by (simp add: doc_of_def points_past_def)
  have w: "\<forall>(s, c) \<in> set (compress_runs ps). s < U64 \<and> c < U64" using compress_runs_within [OF assms(5)] assms(7) by fastforce
  show "if length (compress_runs ps) \<le> max_runs E
       then \<exists>b runs. encode_extent E key sz (compress_runs ps) = Inr b \<and> length b = BLOCK
         \<and> decode_doc E b = Inr (DocExtent key sz runs) \<and> expand_runs E runs sz L = Inr ps
       else \<exists>msg. encode_extent E key sz (compress_runs ps) = Inl (Corrupt msg)"
    using encode_extent_ok [OF assms(1,2,4) _ w] length_doc_block [OF assms(1) extent_doc(2) [OF assms(1,2,4) _ w]] expand_compress [OF assms(5-8)]
    by (auto simp: encode_extent_def)
qed

theorem leaf_roundtrip_witness:
  "(\<exists>b h. encode_lone ref_env (replicate 32 7) [1, 2, 3] = Inr b \<and> doc_of ref_env b h 8 = Inr (Some (DocLone (replicate 32 7) [1, 2, 3])))
   \<and> (\<exists>b runs. encode_extent ref_env (replicate 32 7) 9000 (compress_runs [6, 7, 0]) = Inr b
        \<and> decode_doc ref_env b = Inr (DocExtent (replicate 32 7) 9000 runs) \<and> expand_runs ref_env runs 9000 8 = Inr [6, 7, 0])"
proof -
  have f: "lone_capacity ref_env = 3930" "max_runs ref_env = 123" "furrow_capacity ref_env = 3930"
    by (simp_all add: lone_capacity_def max_runs_def furrow_capacity_def body_start_def ref_env_def ref_flatten_def BLOCK_def)
  have "length (compress_runs [6, 7, 0]) = 2" by code_simp
  then show ?thesis using leaf_roundtrip [OF ref_env_ok, of "replicate 32 7" "[1, 2, 3]" 9000 "[6, 7, 0]" 8] by (auto simp: f div_ceil_def)
qed

text \<open>C34. A clean node of the trie (any subset of its 32 slots filled) fits one block and decodes to
  itself: depth, route, every hash and position in its slot.\<close>

theorem node_roundtrip:
  assumes "vsf_ok E" and "clean_node n"
  shows "\<exists>b. encode_node E n = Inr b \<and> length b = BLOCK \<and> decode_doc E b = Inr (DocNode n)"
  using encode_node_ok [OF assms] length_doc_block [OF assms(1) node_doc(2) [OF assms]] by simp

theorem node_roundtrip_witness:
  "\<exists>n b. encode_node ref_env n = Inr b \<and> decode_doc ref_env b = Inr (DocNode n)
     \<and> n_children n ! 4 = Some (Committed (replicate 32 9) 77)"
proof -
  let ?n = "\<lparr>n_depth = 3, n_route = replicate 32 1, n_children = (replicate 32 None)[4 := Some (Committed (replicate 32 9) 77)]\<rparr>"
  have "clean_node ?n"
    using set_update_subset_insert [of "replicate 32 None" 4 "Some (Committed (replicate 32 9) 77)"]
    by (auto simp: clean_node_def MAX_DEPTH_def clean_child_def split: option.splits child.splits)
  then show ?thesis using node_roundtrip [OF ref_env_ok] by force
qed

end
