(* ===== verification/Hamt_Model.thy ===== *)
theory Hamt_Model
  imports Doc_Props
begin

text \<open>
  The copy-on-write index of \<open>src/hamt.rs\<close>. A committed subtree is a pointer (hash, position) to a
  sealed block; a touched path lives as dirty nodes in \<open>h_arena\<close> until \<open>flush\<close>. \<open>h_added\<close> and
  \<open>h_removed\<close> are the liveness delta. Every operation runs on the record \<open>hst\<close>, which extends the
  store (mirror and tract) the Rust methods take as arguments.

  The descents recurse along the key's chunks and stop at depth 52, where \<open>chunk\<close> panics.
  \<open>flush_node\<close> and the tree walks recurse through the arena and the device and carry fuel.
\<close>

section \<open>State\<close>

record hst = store +
  h_root :: "child option"
  h_arena :: "node list"
  h_added :: "(nat \<times> hash) list"
  h_removed :: "(nat \<times> hash) list"
  h_hits :: nat

definition hamt_empty :: "mirror \<Rightarrow> tract \<Rightarrow> hst" where
  "hamt_empty m t = \<lparr>st_mirror = m, st_tract = t, h_root = None, h_arena = [], h_added = [], h_removed = [], h_hits = 0\<rparr>"

definition from_root :: "mirror \<Rightarrow> tract \<Rightarrow> hash \<Rightarrow> nat \<Rightarrow> hst" where
  "from_root m t hash lba = \<lparr>st_mirror = m, st_tract = t,
     h_root = (if hash = replicate 32 0 then None else Some (Committed hash lba)),
     h_arena = [], h_added = [], h_removed = [], h_hits = 0\<rparr>"

definition is_dirty :: "'z hst_scheme \<Rightarrow> bool" where
  "is_dirty s = (case h_root s of Some (Dirty _) \<Rightarrow> True | _ \<Rightarrow> False)"

definition has_uncommitted :: "'z hst_scheme \<Rightarrow> bool" where
  "has_uncommitted s \<longleftrightarrow> is_dirty s \<or> h_added s \<noteq> [] \<or> h_removed s \<noteq> []"

definition take_delta :: "'z hst_scheme \<Rightarrow> ((nat \<times> hash) list \<times> (nat \<times> hash) list) \<times> 'z hst_scheme" where
  "take_delta s = ((h_added s, h_removed s), s\<lparr>h_added := [], h_removed := []\<rparr>)"

section \<open>Arena, delta, documents\<close>

definition arena_get :: "nat \<Rightarrow> ('z hst_scheme, node) op" where
  "arena_get idx = (\<lambda>s. if idx < length (h_arena s) then (Inr (h_arena s ! idx), s)
     else (Inl (Panic ''index out of bounds''), s))"

definition child_at :: "node \<Rightarrow> nat \<Rightarrow> (child option) result" where
  "child_at node c = (if c < length (n_children node) then Inr (n_children node ! c)
     else Inl (Panic ''index out of bounds''))"

definition arena_set :: "nat \<Rightarrow> nat \<Rightarrow> child option \<Rightarrow> 'z hst_scheme \<Rightarrow> 'z hst_scheme" where
  "arena_set idx c ch s = s\<lparr>h_arena := (h_arena s)[idx :=
     (h_arena s ! idx)\<lparr>n_children := (n_children (h_arena s ! idx))[c := ch]\<rparr>]\<rparr>"

definition arena_push :: "node \<Rightarrow> ('z hst_scheme, nat) op" where
  "arena_push node = (\<lambda>s. (Inr (length (h_arena s)), s\<lparr>h_arena := h_arena s @ [node]\<rparr>))"

definition push_added :: "(nat \<times> hash) list \<Rightarrow> ('z hst_scheme, unit) op" where
  "push_added ps = modE (h_added_update (\<lambda>a. a @ ps))"

definition push_removed :: "(nat \<times> hash) list \<Rightarrow> ('z hst_scheme, unit) op" where
  "push_removed ps = modE (h_removed_update (\<lambda>a. a @ ps))"

definition read_doc :: "vsf_env \<Rightarrow> nat \<Rightarrow> hash \<Rightarrow> ('z hst_scheme, TractDoc option) op" where
  "read_doc E lba expected = (\<lambda>s.
     bindE (tract_read_cached lba) (\<lambda>buf. liftE (doc_of E buf expected (t_len (st_tract s)))) s)"

text \<open>\<open>sealed_hp(&block).unwrap()\<close>.\<close>

definition hp_of :: "vsf_env \<Rightarrow> block \<Rightarrow> hash result" where
  "hp_of E b = ok_or (Panic ''called Option::unwrap on a None value'') (sealed_hp E b)"

section \<open>Reading a sharded value\<close>

definition RUN_STEP :: nat where
  "RUN_STEP = 2 ^ 8"

definition furrow_cut :: "nat list \<Rightarrow> nat \<Rightarrow> nat \<times> (nat \<times> nat) list \<Rightarrow> nat \<times> (nat \<times> nat) list" where
  "furrow_cut fs i = (\<lambda>(start, out).
     if i = length fs \<or> fs ! i \<noteq> wadd (fs ! (i - 1)) 1 \<or> i - start = RUN_STEP
     then (i, out @ [(start, i)]) else (start, out))"

definition furrow_cuts :: "nat list \<Rightarrow> (nat \<times> nat) list" where
  "furrow_cuts fs = snd (fold (furrow_cut fs) [1 ..< length fs + 1] (0, []))"

definition furrow_payload :: "vsf_env \<Rightarrow> hash \<Rightarrow> nat \<Rightarrow> block \<Rightarrow> (u8 list) result" where
  "furrow_payload E key i buf =
     (if sealed_hp E buf = None then Inl (Corrupt ''furrow unsealed'')
      else bindR (decode_doc E buf) (\<lambda>doc. case doc of
        DocFurrow k index payload \<Rightarrow>
          (if k \<noteq> key \<or> index \<noteq> i then Inl (Corrupt ''furrow mismatched owner/index'') else Inr payload)
      | _ \<Rightarrow> Inl (Corrupt ''furrow wrong schema'')))"

definition read_furrows :: "vsf_env \<Rightarrow> hash \<Rightarrow> nat \<Rightarrow> nat list \<Rightarrow> ('z hst_scheme, u8 list) op" where
  "read_furrows E key sz fs =
     (if sz > wmul (length fs) (furrow_capacity E) then raiseE (Corrupt ''value size exceeds its furrows'')
      else bindE (mapE (\<lambda>(s, e).
            bindE (tract_read_run (fs ! s) (e - s)) (\<lambda>blocks.
            bindE (mapE (\<lambda>(i, buf). liftE (furrow_payload E key i buf)) (enumerate s blocks)) (\<lambda>ps.
            retE (concat ps)))) (furrow_cuts fs)) (\<lambda>parts.
        if length (concat parts) \<noteq> sz then raiseE (Corrupt ''assembled size mismatch'')
        else retE (concat parts)))"

section \<open>Lookup\<close>

function lookup_from :: "vsf_env \<Rightarrow> hash \<Rightarrow> nat \<Rightarrow> child \<Rightarrow> ('z hst_scheme, (u8 list) option) op" where
  "lookup_from E key depth (Dirty idx) =
     bindE (arena_get idx) (\<lambda>node.
     case chunk key depth of Inl e \<Rightarrow> raiseE e | Inr c \<Rightarrow>
     bindE (liftE (child_at node c)) (\<lambda>ch.
     case ch of None \<Rightarrow> retE None | Some child \<Rightarrow> lookup_from E key (depth + 1) child))"
| "lookup_from E key depth (Committed hash lba) =
     bindE (read_doc E lba hash) (\<lambda>d. case d of
       None \<Rightarrow> retE None
     | Some (DocNode node) \<Rightarrow>
         bindE (liftE (node_at_depth node depth)) (\<lambda>_.
         case chunk key depth of Inl e \<Rightarrow> raiseE e | Inr c \<Rightarrow>
         bindE (liftE (child_at node c)) (\<lambda>ch.
         case ch of None \<Rightarrow> retE None | Some child \<Rightarrow> lookup_from E key (depth + 1) child))
     | Some (DocLone k value) \<Rightarrow> retE (if k = key then Some value else None)
     | Some (DocDirect k sz fs) \<Rightarrow>
         (if k \<noteq> key then retE None else bindE (read_furrows E key sz fs) (\<lambda>v. retE (Some v)))
     | Some (DocExtent k sz runs) \<Rightarrow>
         (if k \<noteq> key then retE None
          else bindE (\<lambda>s. (expand_runs E runs sz (t_len (st_tract s)), s)) (\<lambda>positions.
            bindE (read_furrows E key sz positions) (\<lambda>v. retE (Some v))))
     | Some (DocFurrow _ _ _) \<Rightarrow> raiseE (Corrupt ''furrow reached via index walk''))"
  by pat_completeness auto
termination
  by (relation "measure (\<lambda>(_, _, depth, _). 52 - depth)") (auto simp: chunk_def split: if_splits)

definition lookup :: "vsf_env \<Rightarrow> hash \<Rightarrow> ('z hst_scheme, (u8 list) option) op" where
  "lookup E key = (\<lambda>s. case h_root s of None \<Rightarrow> (Inr None, s) | Some c \<Rightarrow> lookup_from E key 0 c s)"

function find_leaf_from :: "vsf_env \<Rightarrow> hash \<Rightarrow> nat \<Rightarrow> child \<Rightarrow> ('z hst_scheme, (nat \<times> hash) option) op" where
  "find_leaf_from E key depth (Dirty idx) =
     bindE (arena_get idx) (\<lambda>node.
     case chunk key depth of Inl e \<Rightarrow> raiseE e | Inr c \<Rightarrow>
     bindE (liftE (child_at node c)) (\<lambda>ch.
     case ch of None \<Rightarrow> retE None | Some child \<Rightarrow> find_leaf_from E key (depth + 1) child))"
| "find_leaf_from E key depth (Committed hash lba) =
     bindE (read_doc E lba hash) (\<lambda>d. case d of
       None \<Rightarrow> retE None
     | Some (DocNode node) \<Rightarrow>
         bindE (liftE (node_at_depth node depth)) (\<lambda>_.
         case chunk key depth of Inl e \<Rightarrow> raiseE e | Inr c \<Rightarrow>
         bindE (liftE (child_at node c)) (\<lambda>ch.
         case ch of None \<Rightarrow> retE None | Some child \<Rightarrow> find_leaf_from E key (depth + 1) child))
     | Some (DocLone k _) \<Rightarrow> retE (if k = key then Some (lba, hash) else None)
     | Some (DocDirect k _ _) \<Rightarrow> retE (if k = key then Some (lba, hash) else None)
     | Some (DocExtent k _ _) \<Rightarrow> retE (if k = key then Some (lba, hash) else None)
     | Some (DocFurrow _ _ _) \<Rightarrow> raiseE (Corrupt ''furrow in index position''))"
  by pat_completeness auto
termination
  by (relation "measure (\<lambda>(_, _, depth, _). 52 - depth)") (auto simp: chunk_def split: if_splits)

definition find_leaf :: "vsf_env \<Rightarrow> hash \<Rightarrow> ('z hst_scheme, (nat \<times> hash) option) op" where
  "find_leaf E key = (\<lambda>s. case h_root s of None \<Rightarrow> (Inr None, s) | Some c \<Rightarrow> find_leaf_from E key 0 c s)"

section \<open>Put\<close>

definition remove_positions :: "vsf_env \<Rightarrow> nat list \<Rightarrow> ('z hst_scheme, unit) op" where
  "remove_positions E ps = forE ps (\<lambda>pos.
     bindE (tract_read pos) (\<lambda>buf.
     case sealed_hp E buf of Some h \<Rightarrow> push_removed [(pos, h)] | None \<Rightarrow> retE ()))"

definition remove_leaf_blocks :: "vsf_env \<Rightarrow> nat \<Rightarrow> hash \<Rightarrow> ('z hst_scheme, unit) op" where
  "remove_leaf_blocks E lba hash =
     bindE (push_removed [(lba, hash)]) (\<lambda>_.
     bindE (read_doc E lba hash) (\<lambda>d. case d of
       Some (DocDirect _ _ fs) \<Rightarrow> remove_positions E fs
     | Some (DocExtent _ sz runs) \<Rightarrow>
         bindE (\<lambda>s. (expand_runs E runs sz (t_len (st_tract s)), s)) (remove_positions E)
     | _ \<Rightarrow> retE ()))"

text \<open>The chain of nodes that separates two keys from \<open>depth\<close> down; inner nodes are pushed first.\<close>

function split :: "nat \<Rightarrow> hash \<times> child \<Rightarrow> hash \<times> child \<Rightarrow> ('z hst_scheme, child) op" where
  "split depth a b =
     (case chunk (fst a) depth of Inl e \<Rightarrow> raiseE e | Inr ca \<Rightarrow>
      case chunk (fst b) depth of Inl e \<Rightarrow> raiseE e | Inr cb \<Rightarrow>
      bindE (if ca = cb
             then bindE (split (depth + 1) a b) (\<lambda>sub.
               retE ((node_new depth (fst a))\<lparr>n_children := (replicate 32 None)[ca := Some sub]\<rparr>))
             else retE ((node_new depth (fst a))\<lparr>n_children :=
               (replicate 32 None)[ca := Some (snd a), cb := Some (snd b)]\<rparr>)) (\<lambda>node.
      bindE (arena_push node) (\<lambda>idx. retE (Dirty idx))))"
  by pat_completeness auto
termination
  by (relation "measure (\<lambda>(depth, _, _). 52 - depth)") (auto simp: chunk_def split: if_splits)

function insert_child :: "vsf_env \<Rightarrow> child option \<Rightarrow> nat \<Rightarrow> hash \<Rightarrow> child \<Rightarrow> ('z hst_scheme, child) op" where
  "insert_child E None depth key leaf = retE leaf"
| "insert_child E (Some (Dirty idx)) depth key leaf =
     (case chunk key depth of Inl e \<Rightarrow> raiseE e | Inr c \<Rightarrow>
      bindE (arena_get idx) (\<lambda>node.
      bindE (liftE (child_at node c)) (\<lambda>sub.
      bindE (insert_child E sub (depth + 1) key leaf) (\<lambda>new_sub.
      bindE (modE (arena_set idx c (Some new_sub))) (\<lambda>_.
      retE (Dirty idx))))))"
| "insert_child E (Some (Committed hash lba)) depth key leaf =
     bindE (read_doc E lba hash) (\<lambda>d. case d of
       None \<Rightarrow> retE leaf
     | Some (DocNode node) \<Rightarrow>
         bindE (liftE (node_at_depth node depth)) (\<lambda>_.
         bindE (arena_push node) (\<lambda>idx.
         case chunk key depth of Inl e \<Rightarrow> raiseE e | Inr c \<Rightarrow>
         bindE (liftE (child_at node c)) (\<lambda>sub.
         bindE (insert_child E sub (depth + 1) key leaf) (\<lambda>new_sub.
         bindE (modE (arena_set idx c (Some new_sub))) (\<lambda>_.
         bindE (push_removed [(lba, hash)]) (\<lambda>_.
         retE (Dirty idx)))))))
     | Some (DocFurrow _ _ _) \<Rightarrow> raiseE (Corrupt ''furrow in index position'')
     | Some doc \<Rightarrow>
         (let k = (case doc of DocLone k _ \<Rightarrow> k | DocDirect k _ _ \<Rightarrow> k | DocExtent k _ _ \<Rightarrow> k | _ \<Rightarrow> []) in
          if k = key then bindE (remove_leaf_blocks E lba hash) (\<lambda>_. retE leaf)
          else split depth (k, Committed hash lba) (key, leaf)))"
  by pat_completeness auto
termination
  by (relation "measure (\<lambda>(_, _, depth, _, _). 52 - depth)") (auto simp: chunk_def split: if_splits)

definition append_leaf :: "vsf_env \<Rightarrow> liveness \<Rightarrow> block \<Rightarrow> ('z hst_scheme, nat \<times> hash) op" where
  "append_leaf E live leaf =
     bindE (tract_append live [leaf]) (\<lambda>ps.
     bindE (liftE (hp_of E leaf)) (\<lambda>hash.
     bindE (push_added [(hd ps, hash)]) (\<lambda>_. retE (hd ps, hash))))"

text \<open>Furrow \<open>i\<close> of a value: the bytes \<open>[i * per, (i + 1) * per)\<close> of it.\<close>

definition furrow_block :: "vsf_env \<Rightarrow> hash \<Rightarrow> u8 list \<Rightarrow> nat \<Rightarrow> block result" where
  "furrow_block E key value i = encode_furrow E key i
     (sub_slice value (i * furrow_capacity E) (furrow_capacity E))"

definition put_value :: "vsf_env \<Rightarrow> liveness \<Rightarrow> hash \<Rightarrow> u8 list \<Rightarrow> ('z hst_scheme, nat \<times> hash) op" where
  "put_value E live key value =
     (if length value \<le> lone_capacity E then
        bindE (liftE (encode_lone E key value)) (append_leaf E live)
      else
        (let count = div_ceil (length value) (furrow_capacity E) in
         bindE (append_with live count (furrow_block E key value)) (\<lambda>placed.
         bindE (mapE (\<lambda>i. liftE (bindR (furrow_block E key value i) (hp_of E))) [0 ..< count]) (\<lambda>hashes.
         bindE (push_added (zip placed hashes)) (\<lambda>_.
         bindE (liftE (encode_extent E key (length value) (compress_runs placed))) (append_leaf E live))))))"

definition put_inner :: "vsf_env \<Rightarrow> liveness \<Rightarrow> hash \<Rightarrow> u8 list \<Rightarrow> ('z hst_scheme, unit) op" where
  "put_inner E live key value =
     bindE (put_value E live key value) (\<lambda>(lba, hash).
     bindE (getE h_root) (\<lambda>root.
     bindE (insert_child E root 0 key (Committed hash lba)) (\<lambda>new_root.
     modE (h_root_update (\<lambda>_. Some new_root)))))"

definition put :: "vsf_env \<Rightarrow> liveness \<Rightarrow> hash \<Rightarrow> u8 list \<Rightarrow> ('z hst_scheme, unit) op" where
  "put E live key value = (\<lambda>s. case put_inner E live key value s of
     (Inl e, s') \<Rightarrow> (Inl e, s'\<lparr>h_added := take (length (h_added s)) (h_added s'),
                              h_removed := take (length (h_removed s)) (h_removed s')\<rparr>)
   | (Inr u, s') \<Rightarrow> (Inr u, s'))"

section \<open>Delete\<close>

datatype DeletePolicy = UnlinkOnly | ZeroIsErase

function prune_child :: "vsf_env \<Rightarrow> child option \<Rightarrow> nat \<Rightarrow> hash \<Rightarrow> hash \<times> nat \<Rightarrow> ('z hst_scheme, child option) op" where
  "prune_child E None depth route old = retE None"
| "prune_child E (Some (Dirty idx)) depth route old =
     (case chunk route depth of Inl e \<Rightarrow> raiseE e | Inr c \<Rightarrow>
      bindE (arena_get idx) (\<lambda>node.
      bindE (liftE (child_at node c)) (\<lambda>sub.
      bindE (prune_child E sub (depth + 1) route old) (\<lambda>new_sub.
      bindE (modE (arena_set idx c new_sub)) (\<lambda>_.
      retE (Some (Dirty idx)))))))"
| "prune_child E (Some (Committed hash lba)) depth route old =
     (if hash = fst old \<and> lba = snd old then retE None
      else bindE (read_doc E lba hash) (\<lambda>d. case d of
        Some (DocNode node) \<Rightarrow>
          bindE (liftE (node_at_depth node depth)) (\<lambda>_.
          bindE (arena_push node) (\<lambda>idx.
          bindE (push_removed [(lba, hash)]) (\<lambda>_.
          case chunk route depth of Inl e \<Rightarrow> raiseE e | Inr c \<Rightarrow>
          bindE (liftE (child_at node c)) (\<lambda>sub.
          bindE (prune_child E sub (depth + 1) route old) (\<lambda>new_sub.
          bindE (modE (arena_set idx c new_sub)) (\<lambda>_.
          retE (Some (Dirty idx))))))))
      | _ \<Rightarrow> retE (Some (Committed hash lba))))"
  by pat_completeness auto
termination
  by (relation "measure (\<lambda>(_, _, depth, _, _). 52 - depth)") (auto simp: chunk_def split: if_splits)

definition prune :: "vsf_env \<Rightarrow> hash \<Rightarrow> hash \<times> nat \<Rightarrow> ('z hst_scheme, unit) op" where
  "prune E route old =
     bindE (getE h_root) (\<lambda>root.
     bindE (prune_child E root 0 route old) (\<lambda>new_root.
     modE (h_root_update (\<lambda>_. new_root))))"

definition zero_leaf :: "vsf_env \<Rightarrow> nat \<Rightarrow> hash \<Rightarrow> ('z hst_scheme, unit) op" where
  "zero_leaf E lba hash =
     bindE (read_doc E lba hash) (\<lambda>d. case d of
       None \<Rightarrow> retE ()
     | Some doc \<Rightarrow>
         bindE (case doc of
             DocDirect _ _ fs \<Rightarrow> forE fs zero_delete
           | DocExtent _ sz runs \<Rightarrow>
               bindE (\<lambda>s. (expand_runs E runs sz (t_len (st_tract s)), s)) (\<lambda>ps. forE ps zero_delete)
           | _ \<Rightarrow> retE ())
           (\<lambda>_. zero_delete lba))"

definition hamt_delete :: "vsf_env \<Rightarrow> hash \<Rightarrow> DeletePolicy \<Rightarrow> ('z hst_scheme, bool) op" where
  "hamt_delete E key policy =
     bindE (find_leaf E key) (\<lambda>found. case found of
       None \<Rightarrow> retE False
     | Some (lba, hash) \<Rightarrow>
         bindE (remove_leaf_blocks E lba hash) (\<lambda>_.
         bindE (if policy = ZeroIsErase then zero_leaf E lba hash else retE ()) (\<lambda>_.
         bindE (prune E key (hash, lba)) (\<lambda>_. retE True))))"

section \<open>Flush\<close>

definition set_committed :: "nat \<Rightarrow> nat \<Rightarrow> hash \<times> nat \<Rightarrow> ('z hst_scheme, unit) op" where
  "set_committed idx c = (\<lambda>(hash, lba). modE (arena_set idx c (Some (Committed hash lba))))"

primrec flush_node :: "nat \<Rightarrow> vsf_env \<Rightarrow> liveness \<Rightarrow> nat \<Rightarrow> ('z hst_scheme, hash \<times> nat) op" where
  "flush_node 0 E live idx = raiseE (Panic ''out of fuel'')"
| "flush_node (Suc n) E live idx =
     bindE (forE [0 ..< 32] (\<lambda>c.
       bindE (arena_get idx) (\<lambda>node.
       bindE (liftE (child_at node c)) (\<lambda>ch. case ch of
         Some (Dirty sub) \<Rightarrow> bindE (flush_node n E live sub) (set_committed idx c)
       | _ \<Rightarrow> retE ())))) (\<lambda>_.
     bindE (arena_get idx) (\<lambda>node.
     bindE (liftE (encode_node E node)) (\<lambda>block.
     bindE (tract_append live [block]) (\<lambda>ps.
     bindE (liftE (hp_of E block)) (\<lambda>hash.
     bindE (push_added [(hd ps, hash)]) (\<lambda>_.
     retE (hash, hd ps)))))))"

definition FLUSH_FUEL :: nat where
  "FLUSH_FUEL = MAX_DEPTH"

definition hamt_flush :: "vsf_env \<Rightarrow> liveness \<Rightarrow> ('z hst_scheme, hash \<times> nat) op" where
  "hamt_flush E live = (\<lambda>s. case h_root s of
     None \<Rightarrow> (Inr (replicate 32 0, 0), s)
   | Some (Committed hash lba) \<Rightarrow> (Inr (hash, lba), s\<lparr>h_arena := []\<rparr>)
   | Some (Dirty idx) \<Rightarrow>
       bindE (flush_node FLUSH_FUEL E live idx) (\<lambda>(hash, lba).
       bindE (modE (h_root_update (\<lambda>_. Some (Committed hash lba)))) (\<lambda>_.
       bindE (modE (h_arena_update (\<lambda>_. []))) (\<lambda>_. retE (hash, lba)))) s)"

end
