(* ===== verification/Hamt_Tree.thy ===== *)
theory Hamt_Tree
  imports Hamt_Model
begin

text \<open>
  The abstract index. \<open>tree\<close> is the trie a state of the index stands for: a leaf with its key and
  value, a pointer at a zeroed block (\<open>TGone\<close>, a fast-deleted leaf), or a node with 32 slots.
  \<open>tree_lookup\<close>, \<open>tree_insert\<close> and \<open>tree_prune\<close> are what the operations mean; \<open>repr\<close> relates a
  pointer of the model, the blocks a client sees, and the arena to a tree.
\<close>

section \<open>Trees\<close>

datatype tree = TGone | TLeaf hash "u8 list" | TNode "tree option list"

abbreviation ck :: "hash \<Rightarrow> nat \<Rightarrow> nat" where
  "ck key d \<equiv> unat (chunk_word key d)"

lemma tree_slot_size [termination_simp]:
  "c < length ts \<Longrightarrow> ts ! c = Some t \<Longrightarrow> size t < Suc (size_list (size_option size) ts)"
  using size_list_estimation [of "Some t" ts "size t" "size_option size"] nth_mem [of c ts] by simp

fun tree_lookup :: "hash \<Rightarrow> nat \<Rightarrow> tree \<Rightarrow> (u8 list) option" where
  "tree_lookup key d TGone = None"
| "tree_lookup key d (TLeaf k v) = (if k = key then Some v else None)"
| "tree_lookup key d (TNode ts) =
     (if ck key d < length ts then (case ts ! ck key d of None \<Rightarrow> None | Some t \<Rightarrow> tree_lookup key (Suc d) t) else None)"

definition lookup_opt :: "hash \<Rightarrow> nat \<Rightarrow> tree option \<Rightarrow> (u8 list) option" where
  "lookup_opt key d t = (case t of None \<Rightarrow> None | Some t \<Rightarrow> tree_lookup key d t)"

lemma lookup_opt_simps [simp]:
  "lookup_opt key d None = None" "lookup_opt key d (Some t) = tree_lookup key d t"
  by (simp_all add: lookup_opt_def)

lemma tree_lookup_node: "length ts = 32 \<Longrightarrow> tree_lookup key d (TNode ts) = lookup_opt key (Suc d) (ts ! ck key d)"
  by (simp add: lookup_opt_def chunk_less)

text \<open>The node chain that tells two keys apart.\<close>

function tree_split :: "nat \<Rightarrow> hash \<times> tree \<Rightarrow> hash \<times> tree \<Rightarrow> tree" where
  "tree_split d a b =
     (if d \<ge> 52 then TGone
      else if ck (fst a) d = ck (fst b) d
      then TNode ((replicate 32 None)[ck (fst a) d := Some (tree_split (Suc d) a b)])
      else TNode ((replicate 32 None)[ck (fst a) d := Some (snd a), ck (fst b) d := Some (snd b)]))"
  by pat_completeness auto
termination
  by (relation "measure (\<lambda>(d, _, _). 52 - d)") auto

declare tree_split.simps [simp del]

fun tree_insert :: "nat \<Rightarrow> hash \<Rightarrow> u8 list \<Rightarrow> tree \<Rightarrow> tree" where
  "tree_insert d key v TGone = TLeaf key v"
| "tree_insert d key v (TLeaf k w) = (if k = key then TLeaf key v else tree_split d (k, TLeaf k w) (key, TLeaf key v))"
| "tree_insert d key v (TNode ts) =
     (if ck key d < length ts
      then TNode (ts[ck key d := Some (case ts ! ck key d of None \<Rightarrow> TLeaf key v | Some t \<Rightarrow> tree_insert (Suc d) key v t)])
      else TNode ts)"

definition insert_opt :: "nat \<Rightarrow> hash \<Rightarrow> u8 list \<Rightarrow> tree option \<Rightarrow> tree" where
  "insert_opt d key v t = (case t of None \<Rightarrow> TLeaf key v | Some t \<Rightarrow> tree_insert d key v t)"

lemma insert_opt_simps [simp]:
  "insert_opt d key v None = TLeaf key v" "insert_opt d key v (Some t) = tree_insert d key v t"
  by (simp_all add: insert_opt_def)

text \<open>Every node of a tree has its 32 slots.\<close>

inductive full :: "tree \<Rightarrow> bool" where
  full_gone: "full TGone"
| full_leaf: "full (TLeaf k v)"
| full_node: "length ts = 32 \<Longrightarrow> \<forall>c < 32. \<forall>t. ts ! c = Some t \<longrightarrow> full t \<Longrightarrow> full (TNode ts)"

inductive_cases full_nodeE: "full (TNode ts)"

section \<open>The map laws\<close>

text \<open>Below depth \<open>d\<close> two keys still differ.\<close>

definition part_from :: "nat \<Rightarrow> hash \<Rightarrow> hash \<Rightarrow> bool" where
  "part_from d k l \<longleftrightarrow> (\<exists>e \<ge> d. e < 52 \<and> ck k e \<noteq> ck l e)"

lemma part_from_0: "length k = 32 \<Longrightarrow> length l = 32 \<Longrightarrow> k \<noteq> l \<Longrightarrow> part_from 0 k l"
  using keys_diverge [of k l] by (auto simp: part_from_def intro: unsigned_word_eqI)

lemma part_from_Suc: "part_from d k l \<Longrightarrow> ck k d = ck l d \<Longrightarrow> part_from (Suc d) k l"
  unfolding part_from_def by (metis Suc_leI le_neq_implies_less)

lemma part_from_less: "part_from d k l \<Longrightarrow> d < 52"
  by (auto simp: part_from_def)

lemma split_lookup:
  assumes "part_from d k l" and "k \<noteq> l"
  shows "tree_lookup x d (tree_split d (k, TLeaf k v) (l, TLeaf l w)) = (if x = l then Some w else if x = k then Some v else None)"
  using assms(1)
proof (induction "52 - d" arbitrary: d)
  case 0
  then show ?case using part_from_less by fastforce
next
  case (Suc n)
  have d: "\<not> d \<ge> 52" using part_from_less [OF Suc.prems] by simp
  show ?case
  proof (cases "ck k d = ck l d")
    case True
    have IH: "tree_lookup x (Suc d) (tree_split (Suc d) (k, TLeaf k v) (l, TLeaf l w)) = (if x = l then Some w else if x = k then Some v else None)"
      using Suc.hyps(1) [of "Suc d"] Suc.hyps(2) part_from_Suc [OF Suc.prems True] by simp
    have ts: "tree_split d (k, TLeaf k v) (l, TLeaf l w) = TNode ((replicate 32 None)[ck k d := Some (tree_split (Suc d) (k, TLeaf k v) (l, TLeaf l w))])"
      using d True by (simp add: tree_split.simps [of d])
    show ?thesis
    proof (cases "ck x d = ck k d")
      case same: True
      then show ?thesis unfolding ts using IH chunk_less [of x d] chunk_less [of k d] by simp
    next
      case False
      then have "x \<noteq> k" "x \<noteq> l" using True by auto
      then show ?thesis unfolding ts using False chunk_less [of x d] by simp
    qed
  next
    case False
    have ts: "tree_split d (k, TLeaf k v) (l, TLeaf l w) = TNode ((replicate 32 None)[ck k d := Some (TLeaf k v), ck l d := Some (TLeaf l w)])"
      using d False by (simp add: tree_split.simps [of d])
    show ?thesis unfolding ts using False assms(2) chunk_less [of x d] chunk_less [of k d] chunk_less [of l d]
      by (auto simp: nth_list_update)
  qed
qed

text \<open>Leaves lie on their own key's path, as far as the walk to them came.\<close>

inductive placed :: "hash \<Rightarrow> nat \<Rightarrow> tree \<Rightarrow> bool" for key where
  placed_gone: "placed key d TGone"
| placed_leaf: "k = key \<or> part_from d k key \<Longrightarrow> placed key d (TLeaf k v)"
| placed_node: "length ts = 32 \<Longrightarrow> (\<forall>t. ts ! ck key d = Some t \<longrightarrow> placed key (Suc d) t) \<Longrightarrow> placed key d (TNode ts)"

inductive_cases placed_leafE: "placed key d (TLeaf k v)"
inductive_cases placed_nodeE: "placed key d (TNode ts)"

lemma tree_lookup_insert:
  "placed key d t \<Longrightarrow> tree_lookup x d (tree_insert d key v t) = (if x = key then Some v else tree_lookup x d t)"
proof (induction t arbitrary: d rule: tree.induct)
  case TGone
  then show ?case by simp
next
  case (TLeaf k w)
  show ?case
  proof (cases "k = key")
    case True
    then show ?thesis by simp
  next
    case False
    then have "part_from d k key" using TLeaf by (auto elim: placed_leafE)
    then show ?thesis using split_lookup [OF _ False] False by simp
  qed
next
  case (TNode ts)
  have len: "length ts = 32" using TNode.prems by (auto elim: placed_nodeE)
  have c: "ck key d < length ts" "ck x d < length ts" using len chunk_less by auto
  have sub: "tree_lookup x (Suc d) (insert_opt (Suc d) key v (ts ! ck key d))
      = (if x = key then Some v else lookup_opt x (Suc d) (ts ! ck key d))"
  proof (cases "ts ! ck key d")
    case None
    then show ?thesis by auto
  next
    case (Some t)
    then have "Some t \<in> set ts" using c nth_mem by metis
    moreover have "placed key (Suc d) t" using TNode.prems Some by (auto elim: placed_nodeE)
    ultimately show ?thesis using TNode.IH [of "Some t" t "Suc d"] Some by simp
  qed
  show ?case
  proof (cases "ck x d = ck key d")
    case True
    then show ?thesis using sub c len by (simp add: tree_lookup_node insert_opt_def [symmetric] del: tree_lookup.simps(3))
  next
    case False
    then show ?thesis using c len by (auto simp: tree_lookup_node simp del: tree_lookup.simps(3))
  qed
qed

section \<open>Pruning\<close>

fun tree_prune :: "nat \<Rightarrow> hash \<Rightarrow> tree \<Rightarrow> tree option" where
  "tree_prune d key TGone = Some TGone"
| "tree_prune d key (TLeaf k w) = (if k = key then None else Some (TLeaf k w))"
| "tree_prune d key (TNode ts) =
     (if ck key d < length ts
      then Some (TNode (ts[ck key d := (case ts ! ck key d of None \<Rightarrow> None | Some t \<Rightarrow> tree_prune (Suc d) key t)]))
      else Some (TNode ts))"

lemma tree_lookup_prune:
  "full t \<Longrightarrow> lookup_opt x d (tree_prune d key t) = (if x = key then None else tree_lookup x d t)"
proof (induction t arbitrary: d rule: tree.induct)
  case (TNode ts)
  have len: "length ts = 32" and sub: "\<And>c t. c < 32 \<Longrightarrow> ts ! c = Some t \<Longrightarrow> full t"
    using TNode.prems by (auto elim: full_nodeE)
  have c: "ck key d < 32" "ck x d < 32" using chunk_less by auto
  have IH: "lookup_opt x (Suc d) (case ts ! ck key d of None \<Rightarrow> None | Some t \<Rightarrow> tree_prune (Suc d) key t)
      = (if x = key then None else lookup_opt x (Suc d) (ts ! ck key d))"
  proof (cases "ts ! ck key d")
    case None
    then show ?thesis by simp
  next
    case (Some t)
    then have "Some t \<in> set ts" using c len nth_mem by metis
    then show ?thesis using TNode.IH [of "Some t" t "Suc d"] sub [OF c(1) Some] Some by simp
  qed
  show ?case
  proof (cases "ck x d = ck key d")
    case True
    then show ?thesis using IH c len by (simp add: tree_lookup_node del: tree_lookup.simps(3))
  next
    case False
    then show ?thesis using c len by (auto simp: tree_lookup_node simp del: tree_lookup.simps(3))
  qed
qed auto

end
