(* ===== verification/Hamt_Repr.thy ===== *)
theory Hamt_Repr
  imports Hamt_Tree
begin

text \<open>
  The relation between a state of the index and the tree it stands for, its frame properties, and
  the refinement of the reads: \<open>lookup\<close> and \<open>find_leaf\<close> return what the tree holds.
\<close>

section \<open>Reads of the tract\<close>

definition tview :: "'z store_scheme \<Rightarrow> nat \<Rightarrow> block" where
  "tview s p = view (st_mirror s) (t_base (st_tract s) + p)"

definition store_ok :: "'z store_scheme \<Rightarrow> bool" where
  "store_ok s \<longleftrightarrow> wf_mirror (st_mirror s) \<and> tract_wf (st_tract s) \<and> t_len (st_tract s) < 2 ^ 63"

text \<open>\<open>s'\<close> is \<open>s\<close> after reads: caches and fault scripts may differ, nothing a client sees does.\<close>

definition after_reads :: "'z store_scheme \<Rightarrow> 'z store_scheme \<Rightarrow> bool" where
  "after_reads s s' \<longleftrightarrow> s' = s\<lparr>st_mirror := st_mirror s'\<rparr> \<and> wf_mirror (st_mirror s') \<and> view (st_mirror s') = view (st_mirror s)"

lemma after_reads_refl: "store_ok s \<Longrightarrow> after_reads s s"
  by (simp add: after_reads_def store_ok_def)

lemma after_reads_trans: "after_reads s s1 \<Longrightarrow> after_reads s1 s2 \<Longrightarrow> after_reads s s2"
  by (auto simp: after_reads_def) (metis store.surjective store.update_convs(1))

lemma after_reads_fields:
  fixes s s' :: "'z hst_scheme"
  assumes "after_reads s s'"
  shows "st_tract s' = st_tract s" "tview s' = tview s" "h_root s' = h_root s" "h_arena s' = h_arena s"
    "h_added s' = h_added s" "h_removed s' = h_removed s" "h_hits s' = h_hits s"
proof -
  have s': "s' = s\<lparr>st_mirror := st_mirror s'\<rparr>" using assms by (simp add: after_reads_def)
  show t: "st_tract s' = st_tract s" by (subst s') simp
  show "h_root s' = h_root s" by (subst s') simp
  show "h_arena s' = h_arena s" by (subst s') simp
  show "h_added s' = h_added s" by (subst s') simp
  show "h_removed s' = h_removed s" by (subst s') simp
  show "h_hits s' = h_hits s" by (subst s') simp
  show "tview s' = tview s" using assms t by (simp add: after_reads_def tview_def fun_eq_iff)
qed

lemma after_reads_tract:
  assumes "after_reads s s'"
  shows "st_tract s' = st_tract s"
proof -
  have s': "s' = s\<lparr>st_mirror := st_mirror s'\<rparr>" using assms by (simp add: after_reads_def)
  show ?thesis by (subst s') simp
qed

lemma after_readsD: "after_reads s s' \<Longrightarrow> wf_mirror (st_mirror s')" "after_reads s s' \<Longrightarrow> view (st_mirror s') = view (st_mirror s)"
  unfolding after_reads_def by blast+

lemma after_reads_ok: "store_ok s \<Longrightarrow> after_reads s s' \<Longrightarrow> store_ok s'"
  using after_reads_tract [of s s'] after_readsD(1) [of s s'] by (simp add: store_ok_def)

lemma with_mirror_reads:
  assumes "with_mirror f s = (r, s')"
    and "\<And>r m'. f (st_mirror s) = (r, m') \<Longrightarrow> wf_mirror m' \<and> view m' = view (st_mirror s)"
  shows "after_reads s s' \<and> (\<exists>m'. f (st_mirror s) = (r, m'))"
  using assms by (auto simp: with_mirror_def after_reads_def split: prod.splits)

lemma tract_addr: "tract_wf t \<Longrightarrow> lba < t_len t \<Longrightarrow> wadd (t_base t) lba = t_base t + lba"
  by (simp add: tract_wf_def)

lemma tract_read_cached_spec:
  assumes "tract_read_cached lba s = (r, s')" and ok: "store_ok s"
  shows "after_reads s s' \<and> (\<forall>b. r = Inr b \<longrightarrow> b = tview s lba \<and> lba < t_len (st_tract s))"
proof (cases "lba < t_len (st_tract s)")
  case True
  have wf: "wf_mirror (st_mirror s)" "tract_wf (st_tract s)" using ok by (auto simp: store_ok_def)
  have run: "with_mirror (read_cached (t_base (st_tract s) + lba)) s = (r, s')"
    using assms(1) True tract_addr [OF wf(2) True] by (simp add: tract_read_cached_def)
  show ?thesis
    using with_mirror_reads [OF run] cread.rd_keeps [OF wf(1)] cread.rd_ok [OF wf(1)] True by (auto simp: tview_def)
next
  case False
  then show ?thesis using assms after_reads_refl by (auto simp: tract_read_cached_def)
qed

lemma tract_read_spec:
  assumes "tract_read lba s = (r, s')" and ok: "store_ok s"
  shows "after_reads s s' \<and> (\<forall>b. r = Inr b \<longrightarrow> b = tview s lba \<and> lba < t_len (st_tract s))"
proof (cases "lba < t_len (st_tract s)")
  case True
  have wf: "wf_mirror (st_mirror s)" "tract_wf (st_tract s)" using ok by (auto simp: store_ok_def)
  have run: "with_mirror (mirror_read (t_base (st_tract s) + lba)) s = (r, s')"
    using assms(1) True tract_addr [OF wf(2) True] by (simp add: tract_read_def)
  show ?thesis
    using with_mirror_reads [OF run] mread.rd_keeps [OF wf(1)] mread.rd_ok [OF wf(1)] True by (auto simp: tview_def)
next
  case False
  then show ?thesis using assms after_reads_refl by (auto simp: tract_read_def)
qed

lemma mirror_read_run_spec:
  assumes run: "mirror_read_run l n m = (r, m')" and wf: "wf_mirror m" and fit: "l + n < U64"
  shows "wf_mirror m' \<and> view m' = view m \<and> (\<forall>bs. r = Inr bs \<longrightarrow> bs = map (view m) [l ..< l + n])"
proof (cases "list_ex (\<lambda>(k, _). l \<le> k \<and> k < l + n) (staged m)")
  case True
  then have "mapE (\<lambda>i. mirror_read (wadd l i)) [0 ..< n] m = (r, m')" using run fit by (simp add: mirror_read_run_def)
  then have "mapE mirror_read (map (wadd l) [0 ..< n]) m = (r, m')" by (simp add: mapE_map comp_def)
  moreover have "map (wadd l) [0 ..< n] = [l ..< l + n]" using fit by (auto intro!: nth_equalityI)
  ultimately have "mapE mirror_read [l ..< l + n] m = (r, m')" by simp
  then show ?thesis using mread.rd_many_keeps [OF _ wf] mread.rd_many_ok [OF _ wf] by blast
next
  case False
  then have on: "on_first (dev_read_run l n) m = (r, m')" using run fit by (simp add: mirror_read_run_def)
  obtain d where d: "rdev m = Some d" using wf by (auto simp: wf_mirror_def)
  obtain d' where d': "dev_read_run l n d = (r, d')" using on_first_fields [OF on d] by blast
  have un: "find_staged m k = None" if "l \<le> k" "k < l + n" for k
    using False that by (auto simp: find_staged_eq map_of_rev_None list_ex_iff)
  have "bs = map (view m) [l ..< l + n]" if "r = Inr bs" for bs
    using dev_read_run_ok [of l n d bs d'] d' d un that by (auto simp: view_def rcontent_def)
  moreover have "wf_mirror m' \<and> view m' = view m"
    using on_first_keeps [OF on wf] dev_read_run_inv by (metis (no_types, lifting) dev_content_def ext)
  ultimately show ?thesis by blast
qed

lemma tract_read_run_spec:
  assumes "tract_read_run lba n s = (r, s')" and ok: "store_ok s"
  shows "after_reads s s' \<and> (\<forall>bs. r = Inr bs \<longrightarrow> bs = map (tview s) [lba ..< lba + n])"
proof (cases "lba \<ge> t_len (st_tract s) \<or> n > wsub (t_len (st_tract s)) lba")
  case True
  then show ?thesis using assms after_reads_refl by (auto simp: tract_read_run_def)
next
  case False
  have wf: "wf_mirror (st_mirror s)" "tract_wf (st_tract s)" using ok by (auto simp: store_ok_def)
  have run: "with_mirror (mirror_read_run (t_base (st_tract s) + lba) n) s = (r, s')"
    using assms(1) False tract_addr [OF wf(2)] by (simp add: tract_read_run_def)
  have fit: "t_base (st_tract s) + lba + n < U64"
  proof -
    have "wsub (t_len (st_tract s)) lba = t_len (st_tract s) - lba" using False wf(2) by (simp add: tract_wf_def)
    then show ?thesis using False wf(2) unfolding tract_wf_def by linarith
  qed
  note sp = mirror_read_run_spec [OF _ wf(1) fit]
  have "bs = map (tview s) [lba ..< lba + n]" if "r = Inr bs" for bs
  proof -
    note bs = that
    obtain m' where "mirror_read_run (t_base (st_tract s) + lba) n (st_mirror s) = (Inr bs, m')"
      using with_mirror_reads [OF run] sp bs by blast
    then have "bs = map (view (st_mirror s)) [t_base (st_tract s) + lba ..< t_base (st_tract s) + lba + n]" using sp by blast
    then show ?thesis by (auto intro!: nth_equalityI simp: tview_def add.assoc)
  qed
  then show ?thesis using with_mirror_reads [OF run] sp by blast
qed

lemma read_doc_spec:
  fixes s :: "'z hst_scheme"
  assumes "read_doc E lba h s = (r, s')" and ok: "store_ok s"
  shows "after_reads s s' \<and> (\<forall>d. r = Inr d \<longrightarrow> doc_of E (tview s lba) h (t_len (st_tract s)) = Inr d \<and> lba < t_len (st_tract s))"
  using assms(1) unfolding read_doc_def
proof (cases rule: bindE_cases)
  case (err e)
  then show ?thesis using tract_read_cached_spec [OF err(1) ok] by simp
next
  case (ok b s1)
  then show ?thesis using tract_read_cached_spec [OF ok(1) assms(2)] by (auto simp: liftE_run)
qed

section \<open>Leaves\<close>

text \<open>The furrows at \<open>ps\<close> carry the value \<open>v\<close> of \<open>key\<close>, in order.\<close>

definition furrows_are :: "vsf_env \<Rightarrow> (nat \<Rightarrow> block) \<Rightarrow> hash \<Rightarrow> nat list \<Rightarrow> u8 list \<Rightarrow> bool" where
  "furrows_are E V key ps v \<longleftrightarrow> (\<exists>qs. length qs = length ps \<and> v = concat qs
     \<and> (\<forall>i < length ps. furrow_payload E key i (V (ps ! i)) = Inr (qs ! i)))"

definition leaf_doc :: "vsf_env \<Rightarrow> (nat \<Rightarrow> block) \<Rightarrow> nat \<Rightarrow> nat set \<Rightarrow> TractDoc \<Rightarrow> hash \<Rightarrow> u8 list \<Rightarrow> bool" where
  "leaf_doc E V L Oc doc key v \<longleftrightarrow> length key = 32 \<and> (case doc of
     DocLone k w \<Rightarrow> k = key \<and> w = v
   | DocExtent k sz runs \<Rightarrow> k = key \<and> (\<exists>ps. expand_runs E runs sz L = Inr ps \<and> set ps \<subseteq> Oc
       \<and> furrows_are E V key ps v \<and> length v = sz)
   | DocDirect k sz ps \<Rightarrow> k = key \<and> set ps \<subseteq> Oc \<and> furrows_are E V key ps v \<and> length v = sz 
       \<and> sz \<le> length ps * furrow_capacity E \<and> length ps \<le> L
   | _ \<Rightarrow> False)"

lemma furrows_are_frame:
  "furrows_are E V key ps v \<Longrightarrow> \<forall>p \<in> set ps. V' p = V p \<Longrightarrow> furrows_are E V' key ps v"
  unfolding furrows_are_def by auto

lemma furrows_are_unique: "furrows_are E V key ps v \<Longrightarrow> furrows_are E V key ps w \<Longrightarrow> v = w"
  unfolding furrows_are_def by (metis Inr_inject nth_equalityI)

lemma leaf_doc_frame:
  assumes "leaf_doc E V L Oc doc key v" and "\<forall>p \<in> Oc. V' p = V p" and "Oc \<subseteq> Oc'"
  shows "leaf_doc E V' L Oc' doc key v"
proof (cases doc)
  case (DocExtent k sz runs)
  then obtain ps where ps: "k = key" "expand_runs E runs sz L = Inr ps" "set ps \<subseteq> Oc" "furrows_are E V key ps v" "length v = sz"
    using assms(1) by (auto simp: leaf_doc_def)
  then have "furrows_are E V' key ps v" using assms(2) by (blast intro: furrows_are_frame)
  then show ?thesis using DocExtent ps assms by (auto simp: leaf_doc_def)
next
  case (DocDirect k sz ps)
  then have "furrows_are E V' key ps v" using assms by (auto simp: leaf_doc_def intro: furrows_are_frame)
  then show ?thesis using DocDirect assms by (auto simp: leaf_doc_def)
qed (use assms in \<open>auto simp: leaf_doc_def\<close>)

section \<open>Trees\<close>

inductive repr :: "vsf_env \<Rightarrow> (nat \<Rightarrow> block) \<Rightarrow> nat \<Rightarrow> nat set \<Rightarrow> node list \<Rightarrow> nat \<Rightarrow> child \<Rightarrow> tree \<Rightarrow> nat set \<Rightarrow> bool"
  for E V L Oc A where
  repr_gone: "lba \<in> Oc \<Longrightarrow> doc_of E (V lba) h L = Inr None \<Longrightarrow> length h = 32 \<Longrightarrow> repr E V L Oc A d (Committed h lba) TGone {}"
| repr_leaf: "lba \<in> Oc \<Longrightarrow> doc_of E (V lba) h L = Inr (Some doc) \<Longrightarrow> leaf_doc E V L Oc doc k v \<Longrightarrow>
    repr E V L Oc A d (Committed h lba) (TLeaf k v) {}"
| repr_node: "lba \<in> Oc \<Longrightarrow> doc_of E (V lba) h L = Inr (Some (DocNode n)) \<Longrightarrow> n_depth n = d \<Longrightarrow>
    length (n_route n) = 32 \<Longrightarrow> length (n_children n) = 32 \<Longrightarrow> length ts = 32 \<Longrightarrow>
    \<forall>c < 32. (n_children n ! c = None \<and> ts ! c = None)
      \<or> (\<exists>ch t. n_children n ! c = Some ch \<and> ts ! c = Some t \<and> repr E V L Oc A (Suc d) ch t {}) \<Longrightarrow>
    repr E V L Oc A d (Committed h lba) (TNode ts) {}"
| repr_dirty: "idx < length A \<Longrightarrow> A ! idx = n \<Longrightarrow> n_depth n = d \<Longrightarrow> length (n_route n) = 32 \<Longrightarrow>
    length (n_children n) = 32 \<Longrightarrow> length ts = 32 \<Longrightarrow>
    \<forall>c < 32. (n_children n ! c = None \<and> ts ! c = None \<and> I c = {})
      \<or> (\<exists>ch t. n_children n ! c = Some ch \<and> ts ! c = Some t \<and> repr E V L Oc A (Suc d) ch t (I c)) \<Longrightarrow>
    \<forall>c < 32. idx \<notin> I c \<Longrightarrow> \<forall>b < 32. \<forall>c < 32. b \<noteq> c \<longrightarrow> I b \<inter> I c = {} \<Longrightarrow>
    J = insert idx (\<Union>c \<in> {..<32}. I c) \<Longrightarrow> d < MAX_DEPTH \<Longrightarrow>
    repr E V L Oc A d (Dirty idx) (TNode ts) J"

inductive_cases repr_committedE: "repr E V L Oc A d (Committed h lba) t J"
inductive_cases repr_dirtyE: "repr E V L Oc A d (Dirty idx) t J"

lemma repr_frame:
  assumes "repr E V L Oc A d ch t J" and "\<forall>p \<in> Oc. V' p = V p" and "Oc \<subseteq> Oc'"
    and "\<forall>i \<in> J. i < length A' \<and> A' ! i = A ! i"
  shows "repr E V' L Oc' A' d ch t J"
  using assms(1,4)
proof (induction rule: repr.induct)
  case (repr_gone lba h d)
  then show ?case using assms(2,3) by (auto intro: repr.repr_gone)
next
  case (repr_leaf lba h doc k v d)
  then show ?case using assms(2,3) leaf_doc_frame [OF _ assms(2,3)] by (auto intro!: repr.repr_leaf)
next
  case (repr_node lba h n d ts)
  have "\<forall>c < 32. (n_children n ! c = None \<and> ts ! c = None)
      \<or> (\<exists>ch t. n_children n ! c = Some ch \<and> ts ! c = Some t \<and> repr E V' L Oc' A' (Suc d) ch t {})"
    using repr_node(7) by blast
  then show ?case using repr_node(1-6) assms(2,3) by (intro repr.repr_node [of lba Oc' E V' h L n d ts]) auto
next
  case (repr_dirty idx n d ts I J)
  have J: "J = insert idx (\<Union>c \<in> {..<32}. I c)" by (rule repr_dirty.hyps)
  have slots: "\<forall>c < 32. (n_children n ! c = None \<and> ts ! c = None \<and> I c = {})
      \<or> (\<exists>ch t. n_children n ! c = Some ch \<and> ts ! c = Some t \<and> repr E V' L Oc' A' (Suc d) ch t (I c))"
  proof (intro allI impI)
    fix c :: nat assume c: "c < 32"
    have "I c \<subseteq> J" using c J by blast
    then have "\<forall>i \<in> I c. i < length A' \<and> A' ! i = A ! i" using repr_dirty.prems by blast
    then show "(n_children n ! c = None \<and> ts ! c = None \<and> I c = {})
      \<or> (\<exists>ch t. n_children n ! c = Some ch \<and> ts ! c = Some t \<and> repr E V' L Oc' A' (Suc d) ch t (I c))"
      using repr_dirty.IH c by blast
  qed
  have "idx < length A'" "A' ! idx = n" using repr_dirty.prems repr_dirty.hyps by auto
  then show ?case using repr_dirty.hyps slots by (intro repr.repr_dirty [of idx A' n d ts I E V' L Oc' J]) auto
qed

lemma repr_footprint: "repr E V L Oc A d ch t J \<Longrightarrow> J \<subseteq> {..<length A}"
  by (induction rule: repr.induct) auto

lemma repr_full: "repr E V L Oc A d ch t J \<Longrightarrow> full t"
proof (induction rule: repr.induct)
  case (repr_node lba h n d ts)
  have "\<forall>c < 32. \<forall>t. ts ! c = Some t \<longrightarrow> full t" using repr_node.IH by fastforce
  with repr_node.hyps show ?case by (intro full_node) auto
next
  case (repr_dirty idx n d ts I J)
  have "\<forall>c < 32. \<forall>t. ts ! c = Some t \<longrightarrow> full t" using repr_dirty.IH by fastforce
  with repr_dirty.hyps show ?case by (intro full_node) auto
qed (auto intro: full.intros)

lemma repr_footprint_finite: "repr E V L Oc A d ch t J \<Longrightarrow> finite J"
  by (metis finite_lessThan finite_subset repr_footprint)

section \<open>Reading a sharded value\<close>

text \<open>The cuts of a furrow list: consecutive, together the whole list, each a run of positions.\<close>

definition pos_run :: "nat list \<Rightarrow> nat \<Rightarrow> nat \<Rightarrow> bool" where
  "pos_run fs s e \<longleftrightarrow> e \<le> length fs \<and> (\<forall>i. s \<le> i \<longrightarrow> i < e \<longrightarrow> fs ! i = fs ! s + (i - s))"

lemma pos_run_nth: "pos_run fs s e \<Longrightarrow> s \<le> i \<Longrightarrow> i < e \<Longrightarrow> fs ! i = fs ! s + (i - s)"
  unfolding pos_run_def by blast

lemma pos_run_le: "pos_run fs s e \<Longrightarrow> e \<le> length fs"
  unfolding pos_run_def by blast

lemma pos_run_single: "s < length fs \<Longrightarrow> pos_run fs s (Suc s)"
  unfolding pos_run_def by (auto simp only: Suc_le_eq less_Suc_eq_le dest: order.antisym)

lemma pos_run_extend:
  assumes "pos_run fs s (Suc k)" and "s \<le> k" and "Suc k < length fs" and next1: "fs ! Suc k = fs ! k + 1"
  shows "pos_run fs s (Suc (Suc k))"
proof -
  have last: "fs ! k = fs ! s + (k - s)" using assms(1,2) by (intro pos_run_nth) auto
  have all: "fs ! i = fs ! s + (i - s)" if "s \<le> i" "i < Suc (Suc k)" for i
  proof (cases "i = Suc k")
    case True
    with last next1 assms(2) show ?thesis by simp
  next
    case False
    with that show ?thesis by (intro pos_run_nth [OF assms(1)]) auto
  qed
  show ?thesis unfolding pos_run_def by (intro conjI allI impI) (use assms(3) in simp, rule all)
qed

definition cuts_inv :: "nat list \<Rightarrow> nat \<Rightarrow> nat \<times> (nat \<times> nat) list \<Rightarrow> bool" where
  "cuts_inv fs k = (\<lambda>(start, out).
     concat (map (\<lambda>(s, e). [s ..< e]) out) = [0 ..< start]
     \<and> (if k < length fs then start \<le> k \<and> pos_run fs start (Suc k) else start = length fs)
     \<and> (\<forall>(s, e) \<in> set out. s < e \<and> pos_run fs s e))"

lemma cuts_inv_step:
  assumes inv: "cuts_inv fs k (start, out)" and k: "k < length fs" and small: "\<forall>f \<in> set fs. f + 1 < U64"
  shows "cuts_inv fs (Suc k) (furrow_cut fs (Suc k) (start, out))"
proof -
  have out: "concat (map (\<lambda>(s, e). [s ..< e]) out) = [0 ..< start]"
    and st: "start \<le> k" "pos_run fs start (Suc k)"
    and runs: "\<forall>(s, e) \<in> set out. s < e \<and> pos_run fs s e"
    using inv k by (simp_all add: cuts_inv_def)
  have w: "wadd (fs ! k) 1 = fs ! k + 1" using small k nth_mem [of k fs] by (intro wadd_eq) auto
  show ?thesis
  proof (cases "Suc k = length fs \<or> fs ! Suc k \<noteq> wadd (fs ! k) 1 \<or> Suc k - start = RUN_STEP")
    case True
    then have cut: "furrow_cut fs (Suc k) (start, out) = (Suc k, out @ [(start, Suc k)])" by (simp add: furrow_cut_def)
    have "[0 ..< start] @ [start ..< Suc k] = [0 ..< Suc k]" using st(1) upt_add_eq_append [of 0 start "Suc k - start"] by simp
    moreover have "Suc k < length fs \<Longrightarrow> pos_run fs (Suc k) (Suc (Suc k))" by (rule pos_run_single)
    ultimately show ?thesis unfolding cut using out st runs k by (simp add: cuts_inv_def)
  next
    case False
    then have cut: "furrow_cut fs (Suc k) (start, out) = (start, out)" by (simp add: furrow_cut_def)
    have "Suc k < length fs" "fs ! Suc k = fs ! k + 1" using False w k by auto
    then have "pos_run fs start (Suc (Suc k))" using st by (intro pos_run_extend) auto
    then show ?thesis unfolding cut using out st runs k False by (simp add: cuts_inv_def)
  qed
qed

lemma cuts_inv_fold:
  "k \<le> length fs \<Longrightarrow> \<forall>f \<in> set fs. f + 1 < U64 \<Longrightarrow> cuts_inv fs k (fold (furrow_cut fs) [1 ..< k + 1] (0, []))"
proof (induction k)
  case 0
  then show ?case by (auto simp: cuts_inv_def intro: pos_run_single)
next
  case (Suc k)
  then show ?case using cuts_inv_step [of fs k] by (cases "fold (furrow_cut fs) [1 ..< k + 1] (0, [])") auto
qed

lemma furrow_cuts_spec:
  assumes "\<forall>f \<in> set fs. f + 1 < U64"
  shows "concat (map (\<lambda>(s, e). [s ..< e]) (furrow_cuts fs)) = [0 ..< length fs]"
    and "(s, e) \<in> set (furrow_cuts fs) \<Longrightarrow> s < e \<and> pos_run fs s e"
  using cuts_inv_fold [OF order.refl assms] by (auto simp: furrow_cuts_def cuts_inv_def split: prod.splits)

text \<open>One cut: the payloads of its furrows, in order.\<close>

lemma pos_run_views:
  assumes "pos_run fs s e" and "s < e"
  shows "map V [fs ! s ..< fs ! s + (e - s)] = map (\<lambda>i. V (fs ! i)) [s ..< e]"
proof (rule nth_equalityI)
  fix j assume "j < length (map V [fs ! s ..< fs ! s + (e - s)])"
  then have j: "j < e - s" by simp
  then have "fs ! (s + j) = fs ! s + j" using pos_run_nth [OF assms(1), of "s + j"] by simp
  then show "map V [fs ! s ..< fs ! s + (e - s)] ! j = map (\<lambda>i. V (fs ! i)) [s ..< e] ! j" using j by simp
qed simp

lemma enumerate_map_upt: "enumerate s (map f [s ..< e]) = map (\<lambda>i. (i, f i)) [s ..< e]"
  by (rule nth_equalityI) (auto simp: nth_enumerate_eq)

text \<open>The furrow at index \<open>i\<close> carries \<open>q\<close>.\<close>

definition carries :: "vsf_env \<Rightarrow> (nat \<Rightarrow> block) \<Rightarrow> hash \<Rightarrow> nat list \<Rightarrow> nat \<Rightarrow> u8 list \<Rightarrow> bool" where
  "carries E V key fs i q \<longleftrightarrow> furrow_payload E key i (V (fs ! i)) = Inr q"

lemma furrows_are_carries: "furrows_are E V key fs v \<longleftrightarrow> (\<exists>qs. list_all2 (carries E V key fs) [0 ..< length fs] qs \<and> v = concat qs)"
proof -
  have "list_all2 (carries E V key fs) [0 ..< length fs] qs \<longleftrightarrow>
      length qs = length fs \<and> (\<forall>i < length fs. furrow_payload E key i (V (fs ! i)) = Inr (qs ! i))" for qs
    by (simp add: list_all2_conv_all_nth carries_def) metis
  then show ?thesis unfolding furrows_are_def by blast
qed

definition read_cut :: "vsf_env \<Rightarrow> hash \<Rightarrow> nat list \<Rightarrow> nat \<times> nat \<Rightarrow> ('z hst_scheme, u8 list) op" where
  "read_cut E key fs = (\<lambda>(s, e).
     bindE (tract_read_run (fs ! s) (e - s)) (\<lambda>blocks.
     bindE (mapE (\<lambda>(i, buf). liftE (furrow_payload E key i buf)) (enumerate s blocks)) (\<lambda>ps.
     retE (concat ps))))"

lemma read_cut_spec:
  fixes st :: "'z hst_scheme"
  assumes run: "read_cut E key fs (s, e) st = (r, st')" and ok: "store_ok st" and cut: "s < e" "pos_run fs s e"
  shows "after_reads st st' \<and> (\<forall>p. r = Inr p \<longrightarrow> (\<exists>qs. list_all2 (carries E (tview st) key fs) [s ..< e] qs \<and> p = concat qs))"
  using run unfolding read_cut_def prod.case
proof (cases rule: bindE_cases)
  case (err e)
  then show ?thesis using tract_read_run_spec [OF err(1) ok] by simp
next
  case (ok bs st1)
  note rr = tract_read_run_spec [OF ok(1) \<open>store_ok st\<close>]
  have bs: "bs = map (\<lambda>i. tview st (fs ! i)) [s ..< e]" using rr pos_run_views [OF cut(2,1)] by simp
  let ?m = "mapE (\<lambda>(i, buf). liftE (furrow_payload E key i buf)) (map (\<lambda>i. (i, tview st (fs ! i))) [s ..< e])"
  obtain q st2 where m: "?m st1 = (q, st2)" by (cases "?m st1")
  have eq: "(\<lambda>(i, buf). liftE (furrow_payload E key i buf)) = (\<lambda>x. liftE (furrow_payload E key (fst x) (snd x)))"
    by (simp add: fun_eq_iff)
  have lift: "st2 = st1 \<and> (\<forall>ys. q = Inr ys \<longrightarrow> list_all2 (carries E (tview st) key fs) [s ..< e] ys)"
    using mapE_lift [OF m [unfolded eq]] by (simp add: list_all2_map1 carries_def [abs_def])
  have "bindE ?m (\<lambda>ps. retE (concat ps)) st1 = (r, st')" using ok(2) by (simp add: bs enumerate_map_upt)
  then have "st' = st1 \<and> (\<forall>p. r = Inr p \<longrightarrow> (\<exists>ys. q = Inr ys \<and> p = concat ys))"
    using m lift by (auto simp: bindE_def retE_def split: sum.splits)
  then show ?thesis using rr lift by blast
qed

lemma read_cuts_spec:
  fixes st :: "'z hst_scheme"
  assumes "mapE (read_cut E key fs) cuts st = (r, st')" and "store_ok st"
    and "\<And>s e. (s, e) \<in> set cuts \<Longrightarrow> s < e \<and> pos_run fs s e"
  shows "after_reads st st' \<and> (\<forall>ps. r = Inr ps \<longrightarrow>
     (\<exists>qs. list_all2 (carries E (tview st) key fs) (concat (map (\<lambda>(s, e). [s ..< e]) cuts)) qs \<and> concat ps = concat qs))"
  using assms
proof (induction cuts arbitrary: st r st')
  case Nil
  then show ?case by (auto simp: retE_run after_reads_refl)
next
  case (Cons c cuts)
  obtain s e where c: "c = (s, e)" by (cases c)
  have cut: "s < e" "pos_run fs s e" and rest: "\<And>s e. (s, e) \<in> set cuts \<Longrightarrow> s < e \<and> pos_run fs s e"
    using Cons.prems(3) c by auto
  from Cons.prems(1) have "bindE (read_cut E key fs c) (\<lambda>p. bindE (mapE (read_cut E key fs) cuts) (\<lambda>ps. retE (p # ps))) st = (r, st')" by simp
  then show ?case
  proof (cases rule: bindE_cases)
    case (err e')
    then show ?thesis using read_cut_spec [OF _ Cons.prems(2) cut] c by auto
  next
    case (ok p st1)
    obtain qs where r1: "after_reads st st1" and qs: "list_all2 (carries E (tview st) key fs) [s ..< e] qs" "p = concat qs"
      using read_cut_spec [OF _ Cons.prems(2) cut] ok(1) c by blast
    have v: "tview st1 = tview st" by (rule after_reads_fields(2) [OF r1])
    from ok(2) show ?thesis
    proof (cases rule: bindE_cases)
      case (err e')
      then show ?thesis using Cons.IH [OF err(1) after_reads_ok [OF Cons.prems(2) r1] rest] after_reads_trans [OF r1] by auto
    next
      case (ok ps st2)
      have IH: "after_reads st1 st2 \<and> (\<exists>qs. list_all2 (carries E (tview st1) key fs) (concat (map (\<lambda>(s, e). [s ..< e]) cuts)) qs \<and> concat ps = concat qs)"
        using Cons.IH [OF ok(1) after_reads_ok [OF Cons.prems(2) r1] rest] by auto
      then obtain qs' where "list_all2 (carries E (tview st) key fs) (concat (map (\<lambda>(s, e). [s ..< e]) cuts)) qs'" "concat ps = concat qs'"
        unfolding v by blast
      then have "list_all2 (carries E (tview st) key fs) (concat (map (\<lambda>(s, e). [s ..< e]) (c # cuts))) (qs @ qs') \<and> concat (p # ps) = concat (qs @ qs')"
        using qs c by (auto intro: list_all2_appendI)
      then show ?thesis using ok(2) IH after_reads_trans [OF r1] by (auto simp: retE_run)
    qed
  qed
qed

text \<open>A value read is the value its furrows carry.\<close>

lemma read_furrows_spec:
  fixes st :: "'z hst_scheme"
  assumes run: "read_furrows E key sz fs st = (r, st')" and ok: "store_ok st" and small: "\<forall>f \<in> set fs. f + 1 < U64"
  shows "after_reads st st' \<and> (\<forall>v. r = Inr v \<longrightarrow> furrows_are E (tview st) key fs v \<and> length v = sz)"
proof (cases "sz > wmul (length fs) (furrow_capacity E)")
  case True
  then show ?thesis using run ok by (auto simp: read_furrows_def raiseE_run after_reads_refl)
next
  case False
  then have "bindE (mapE (read_cut E key fs) (furrow_cuts fs)) (\<lambda>parts.
      if length (concat parts) \<noteq> sz then raiseE (Corrupt ''assembled size mismatch'') else retE (concat parts)) st = (r, st')"
    using run by (simp add: read_furrows_def read_cut_def [abs_def])
  then show ?thesis
  proof (cases rule: bindE_cases)
    case (err e)
    then show ?thesis using read_cuts_spec [OF err(1) ok] furrow_cuts_spec(2) [OF small] by simp
  next
    case (ok parts st1)
    have "after_reads st st1 \<and> furrows_are E (tview st) key fs (concat parts)"
      using read_cuts_spec [OF ok(1) \<open>store_ok st\<close>] furrow_cuts_spec [OF small] unfolding furrows_are_carries by auto
    then show ?thesis using ok(2) by (auto simp: raiseE_run retE_run split: if_splits)
  qed
qed

end
