(* ===== verification/Hamt_Lookup.thy ===== *)
theory Hamt_Lookup
  imports Hamt_Repr
begin

text \<open>
  The read operations of the index refine the tree: a lookup that returns gives the tree's answer
  and changes nothing a client can see; \<open>find_leaf\<close> finds the leaf's pointer exactly when the tree
  holds the key.
\<close>

definition sees :: "'z hst_scheme \<Rightarrow> (nat \<Rightarrow> block) \<Rightarrow> nat \<Rightarrow> node list \<Rightarrow> bool" where
  "sees s V L A \<longleftrightarrow> store_ok s \<and> tview s = V \<and> t_len (st_tract s) = L \<and> h_arena s = A"

lemma sees_after:
  fixes s s' :: "'z hst_scheme"
  shows "sees s V L A \<Longrightarrow> after_reads s s' \<Longrightarrow> sees s' V L A"
  using after_reads_ok [of s s'] after_reads_fields [of s s'] by (simp add: sees_def)

lemma sees_len: "sees s V L A \<Longrightarrow> L < 2 ^ 63"
  by (auto simp: sees_def store_ok_def)

lemma read_doc_bind:
  fixes s :: "'z hst_scheme"
  assumes run: "bindE (read_doc E lba h) f s = (r, s')" and s: "sees s V L A" and d: "doc_of E (V lba) h L = Inr d"
  obtains (err) e where "r = Inl e" "after_reads s s'"
    | (ok) s1 where "sees s1 V L A" "after_reads s s1" "f d s1 = (r, s')"
  using run
proof (cases rule: bindE_cases)
  case (err e)
  then show thesis using that(1) read_doc_spec [OF err(1)] s by (auto simp: sees_def)
next
  case (ok x s1)
  have "after_reads s s1 \<and> doc_of E (tview s lba) h (t_len (st_tract s)) = Inr x"
    using read_doc_spec [OF ok(1)] s by (auto simp: sees_def)
  then show thesis using that(2) sees_after [OF s] ok(2) s d by (auto simp: sees_def)
qed

lemma chunk_cases:
  obtains (deep) e where "chunk key d = Inl e" | (ok) "d < 52" "chunk key d = Inr (ck key d)"
  by (cases "d < 52") (auto simp: chunk_ok chunk_panics)

lemma child_at_ok: "length (n_children n) = 32 \<Longrightarrow> child_at n (ck key d) = Inr (n_children n ! ck key d)"
  by (simp add: child_at_def chunk_less)

lemma arena_get_run: "idx < length (h_arena s) \<Longrightarrow> arena_get idx s = (Inr (h_arena s ! idx), s)"
  by (simp add: arena_get_def)

lemma after_reads_sees: "sees s V L A \<Longrightarrow> after_reads s s"
  by (simp add: sees_def after_reads_refl)

lemma leaf_positions_small: "L < 2 ^ 63 \<Longrightarrow> \<forall>f \<in> set fs. f < L \<Longrightarrow> \<forall>f \<in> set fs. f + 1 < U64"
  by (fastforce dest: bspec)

lemma doc_of_direct_bound: "doc_of E b h L = Inr (Some (DocDirect k sz fs)) \<Longrightarrow> \<forall>f \<in> set fs. f < L"
  by (auto simp: doc_of_def points_past_def list_ex_iff not_le bindR_eq_Inr split: if_splits option.splits)

text \<open>The leaf case of a lookup.\<close>

definition leaf_answer :: "vsf_env \<Rightarrow> hash \<Rightarrow> TractDoc \<Rightarrow> ('z hst_scheme, (u8 list) option) op" where
  "leaf_answer E key doc = (case doc of
     DocLone k value \<Rightarrow> retE (if k = key then Some value else None)
   | DocDirect k sz fs \<Rightarrow>
       (if k \<noteq> key then retE None else bindE (read_furrows E key sz fs) (\<lambda>v. retE (Some v)))
   | DocExtent k sz runs \<Rightarrow>
       (if k \<noteq> key then retE None
        else bindE (\<lambda>s. (expand_runs E runs sz (t_len (st_tract s)), s)) (\<lambda>positions.
          bindE (read_furrows E key sz positions) (\<lambda>v. retE (Some v))))
   | _ \<Rightarrow> raiseE (Corrupt ''furrow reached via index walk''))"

lemma furrows_answer:
  fixes s :: "'z hst_scheme"
  assumes "bindE (read_furrows E key sz fs) (\<lambda>v. retE (Some v)) s = (r, s')" and s: "sees s V L A"
    and "\<forall>f \<in> set fs. f < L" and "furrows_are E V key fs v"
  shows "after_reads s s' \<and> (\<forall>x. r = Inr x \<longrightarrow> x = Some v)"
proof -
  have ok: "store_ok s" "tview s = V" using s by (auto simp: sees_def)
  note rf = read_furrows_spec [OF _ ok(1) leaf_positions_small [OF sees_len [OF s] assms(3)]]
  show ?thesis using assms(1)
  proof (cases rule: bindE_cases)
    case (err e)
    then show ?thesis using rf [OF err(1)] by simp
  next
    case (ok w s1)
    then show ?thesis using rf [OF ok(1)] furrows_are_unique [OF _ assms(4), of w] \<open>tview s = V\<close> by (auto simp: retE_run)
  qed
qed

lemma leaf_answer_spec:
  fixes s :: "'z hst_scheme"
  assumes run: "leaf_answer E key doc s = (r, s')" and s: "sees s V L A"
    and leaf: "leaf_doc E V L Oc doc k v" and doc: "doc_of E b h L = Inr (Some doc)"
  shows "after_reads s s' \<and> (\<forall>x. r = Inr x \<longrightarrow> x = (if k = key then Some v else None))"
proof (cases doc)
  case (DocExtent k' sz runs)
  then obtain ps where ps: "k' = k" "expand_runs E runs sz L = Inr ps" "furrows_are E V k ps v"
    using leaf by (auto simp: leaf_doc_def)
  have b: "\<forall>f \<in> set ps. f < L" using expand_runs_ok [OF ps(2) sees_len [OF s]] by blast
  have L: "t_len (st_tract s) = L" using s by (simp add: sees_def)
  show ?thesis
  proof (cases "k = key")
    case True
    then have "bindE (read_furrows E key sz ps) (\<lambda>v. retE (Some v)) s = (r, s')"
      using run DocExtent ps L by (simp add: leaf_answer_def bindE_def)
    then show ?thesis using furrows_answer [OF _ s b] ps(3) True by auto
  next
    case False
    then show ?thesis using run DocExtent ps after_reads_sees [OF s] by (auto simp: leaf_answer_def retE_run)
  qed
next
  case (DocDirect k' sz fs)
  then have ps: "k' = k" "furrows_are E V k fs v" using leaf by (auto simp: leaf_doc_def)
  have b: "\<forall>f \<in> set fs. f < L" using doc_of_direct_bound doc DocDirect by blast
  show ?thesis
  proof (cases "k = key")
    case True
    then have "bindE (read_furrows E key sz fs) (\<lambda>v. retE (Some v)) s = (r, s')"
      using run DocDirect ps by (simp add: leaf_answer_def)
    then show ?thesis using furrows_answer [OF _ s b] ps(2) True by auto
  next
    case False
    then show ?thesis using run DocDirect ps after_reads_sees [OF s] by (auto simp: leaf_answer_def retE_run)
  qed
qed (use run leaf after_reads_sees [OF s] in \<open>auto simp: leaf_answer_def leaf_doc_def retE_run\<close>)

lemma leaf_doc_not_node: "leaf_doc E V L Oc doc k v \<Longrightarrow> (\<forall>n. doc \<noteq> DocNode n) \<and> (\<forall>a b c. doc \<noteq> DocFurrow a b c)"
  by (cases doc) (auto simp: leaf_doc_def)

lemma lookup_from_spec:
  assumes "repr E V L Oc A d ch t J"
  shows "\<forall>(s :: 'z hst_scheme) r s'. sees s V L A \<longrightarrow> lookup_from E key d ch s = (r, s') \<longrightarrow>
     after_reads s s' \<and> (\<forall>x. r = Inr x \<longrightarrow> x = tree_lookup key d t)"
  using assms
proof (induction rule: repr.induct)
  case (repr_gone lba h d)
  show ?case
  proof (intro allI impI)
    fix s :: "'z hst_scheme" and r s' assume s: "sees s V L A" and run: "lookup_from E key d (Committed h lba) s = (r, s')"
    show "after_reads s s' \<and> (\<forall>x. r = Inr x \<longrightarrow> x = tree_lookup key d TGone)"
      using run unfolding lookup_from.simps
      by (cases rule: read_doc_bind [OF _ s repr_gone(2), consumes 1]) (auto simp: retE_run)
  qed
next
  case (repr_leaf lba h doc k v d)
  show ?case
  proof (intro allI impI)
    fix s :: "'z hst_scheme" and r s' assume s: "sees s V L A" and run: "lookup_from E key d (Committed h lba) s = (r, s')"
    show "after_reads s s' \<and> (\<forall>x. r = Inr x \<longrightarrow> x = tree_lookup key d (TLeaf k v))"
      using run unfolding lookup_from.simps
    proof (cases rule: read_doc_bind [OF _ s repr_leaf(2), consumes 1, case_names err ok])
      case (ok s1)
      have "leaf_answer E key doc s1 = (r, s')"
        using ok(3) leaf_doc_not_node [OF repr_leaf(3)] by (cases doc) (auto simp: leaf_answer_def)
      then show ?thesis using leaf_answer_spec [OF _ ok(1) repr_leaf(3,2)] after_reads_trans [OF ok(2)] by auto
    qed auto
  qed
next
  case (repr_node lba h n d ts)
  show ?case
  proof (intro allI impI)
    fix s :: "'z hst_scheme" and r s' assume s: "sees s V L A" and run: "lookup_from E key d (Committed h lba) s = (r, s')"
    show "after_reads s s' \<and> (\<forall>x. r = Inr x \<longrightarrow> x = tree_lookup key d (TNode ts))"
      using run unfolding lookup_from.simps
    proof (cases rule: read_doc_bind [OF _ s repr_node(2), consumes 1, case_names err ok])
      case (ok s1)
      show ?thesis
      proof (cases rule: chunk_cases [of key d])
        case (deep e)
        then show ?thesis using ok repr_node(3) by (auto simp: node_at_depth_def bindE_def liftE_def raiseE_def)
      next
        case ck: ok
        have slot: "(n_children n ! ck key d = None \<and> ts ! ck key d = None)
            \<or> (\<exists>ch t. n_children n ! ck key d = Some ch \<and> ts ! ck key d = Some t \<and>
               (\<forall>(s :: 'z hst_scheme) r s'. sees s V L A \<longrightarrow> lookup_from E key (Suc d) ch s = (r, s') \<longrightarrow>
                 after_reads s s' \<and> (\<forall>x. r = Inr x \<longrightarrow> x = tree_lookup key (Suc d) t)))"
          using repr_node.IH chunk_less [of key d] by blast
        have "(case n_children n ! ck key d of None \<Rightarrow> retE None | Some child \<Rightarrow> lookup_from E key (Suc d) child) s1 = (r, s')"
          using ok(3) ck child_at_ok [OF repr_node(5)] repr_node(3) by (simp add: node_at_depth_def bindE_def liftE_def)
        then show ?thesis using slot ok(1,2) after_reads_trans [OF ok(2)]
          by (auto simp: retE_run tree_lookup_node [OF repr_node(6)] simp del: tree_lookup.simps(3))
      qed
    qed auto
  qed
next
  case (repr_dirty idx n d ts I J)
  show ?case
  proof (intro allI impI)
    fix s :: "'z hst_scheme" and r s' assume s: "sees s V L A" and run: "lookup_from E key d (Dirty idx) s = (r, s')"
    have get: "arena_get idx s = (Inr n, s)" using arena_get_run [of idx s] s repr_dirty(1,2) by (simp add: sees_def)
    show "after_reads s s' \<and> (\<forall>x. r = Inr x \<longrightarrow> x = tree_lookup key d (TNode ts))"
    proof (cases rule: chunk_cases [of key d])
      case (deep e)
      then show ?thesis using run get after_reads_sees [OF s] by (auto simp: bindE_def raiseE_def)
    next
      case ck: ok
      have slot: "(n_children n ! ck key d = None \<and> ts ! ck key d = None)
          \<or> (\<exists>ch t. n_children n ! ck key d = Some ch \<and> ts ! ck key d = Some t \<and>
             (\<forall>(s :: 'z hst_scheme) r s'. sees s V L A \<longrightarrow> lookup_from E key (Suc d) ch s = (r, s') \<longrightarrow>
               after_reads s s' \<and> (\<forall>x. r = Inr x \<longrightarrow> x = tree_lookup key (Suc d) t)))"
        using repr_dirty.IH chunk_less [of key d] by blast
      have "(case n_children n ! ck key d of None \<Rightarrow> retE None | Some child \<Rightarrow> lookup_from E key (Suc d) child) s = (r, s')"
        using run get ck child_at_ok [OF repr_dirty(5)] by (simp add: bindE_def liftE_def)
      then show ?thesis using slot s after_reads_sees [OF s]
        by (auto simp: retE_run tree_lookup_node [OF repr_dirty(6)] simp del: tree_lookup.simps(3))
    qed
  qed
qed

end
