(* ===== verification/Hamt_Insert.thy ===== *)
theory Hamt_Insert
  imports Hamt_Lookup
begin

text \<open>
  The copy-on-write insert refines the tree insert: \<open>insert_child\<close> that returns gives a pointer at
  the tree with the new leaf in it, touching no arena node outside the old tree's footprint; one
  that fails has changed no existing node.
\<close>

section \<open>Edits of the index\<close>

text \<open>\<open>edits J s s'\<close>: between \<open>s\<close> and \<open>s'\<close> the store a client sees, the root and the added delta are
  unchanged, removals were appended, and of the arena only the nodes in \<open>J\<close> and new ones differ.\<close>

definition edits :: "nat set \<Rightarrow> 'z hst_scheme \<Rightarrow> 'z hst_scheme \<Rightarrow> bool" where
  "edits J s s' \<longleftrightarrow> store_ok s' \<and> tview s' = tview s \<and> st_tract s' = st_tract s
     \<and> h_root s' = h_root s \<and> h_added s' = h_added s \<and> (\<exists>xs. h_removed s' = h_removed s @ xs)
     \<and> length (h_arena s) \<le> length (h_arena s')
     \<and> (\<forall>i < length (h_arena s). i \<notin> J \<longrightarrow> h_arena s' ! i = h_arena s ! i)"

lemma edits_refl: "store_ok s \<Longrightarrow> edits J s s"
  by (simp add: edits_def)

lemma edits_trans:
  fixes s :: "'z hst_scheme"
  assumes "edits I s s1" and "edits J s1 s2"
  shows "edits (I \<union> J) s s2"
  using assms by (auto simp: edits_def)

lemma edits_trans_same: "edits J s s1 \<Longrightarrow> edits J s1 s2 \<Longrightarrow> edits J s s2"
  using edits_trans [of J s s1 J s2] by simp

lemma edits_mono: "edits I s s' \<Longrightarrow> I \<subseteq> J \<Longrightarrow> edits J s s'"
  unfolding edits_def by blast

lemma edits_reads:
  fixes s s' :: "'z hst_scheme"
  shows "after_reads s s' \<Longrightarrow> store_ok s \<Longrightarrow> edits {} s s'"
  using after_reads_ok [of s s'] after_reads_fields [of s s'] by (simp add: edits_def)

lemma edits_push_removed:
  fixes s :: "'z hst_scheme"
  assumes "push_removed ps s = (r, s')" and "store_ok s"
  shows "edits {} s s' \<and> r = Inr () \<and> h_arena s' = h_arena s"
  using assms by (auto simp: push_removed_def modE_def edits_def store_ok_def tview_def fun_eq_iff)

lemma edits_push:
  fixes s :: "'z hst_scheme"
  assumes "arena_push n s = (r, s')" and "store_ok s"
  shows "edits {} s s' \<and> r = Inr (length (h_arena s)) \<and> h_arena s' = h_arena s @ [n]"
  using assms by (auto simp: arena_push_def edits_def store_ok_def tview_def fun_eq_iff nth_append)

lemma edits_set:
  fixes s :: "'z hst_scheme"
  shows "store_ok s \<Longrightarrow> edits {idx} s (arena_set idx c ch s)"
  by (auto simp: arena_set_def edits_def store_ok_def tview_def fun_eq_iff)

lemma edits_ok: "edits J s s' \<Longrightarrow> store_ok s'"
  by (simp add: edits_def)

lemma edits_sees:
  fixes s s' :: "'z hst_scheme"
  shows "sees s V L A \<Longrightarrow> edits J s s' \<Longrightarrow> sees s' V L (h_arena s')"
  by (auto simp: sees_def edits_def)

text \<open>The bookkeeping of removed blocks only appends removals.\<close>

lemma remove_positions_edits:
  fixes s :: "'z hst_scheme"
  assumes "remove_positions E ps s = (r, s')" and "store_ok s"
  shows "edits {} s s' \<and> h_arena s' = h_arena s"
proof -
  have step: "edits {} t t' \<and> h_arena t' = h_arena t"
    if run: "bindE (tract_read p) (\<lambda>buf. case sealed_hp E buf of Some h \<Rightarrow> push_removed [(p, h)] | None \<Rightarrow> retE ()) t = (q, t')"
      and ok: "store_ok t" for p q and t t' :: "'z hst_scheme"
    using run
  proof (cases rule: bindE_cases)
    case (err e)
    then show ?thesis using tract_read_spec [OF err(1) ok] edits_reads [OF _ ok] after_reads_fields [of t t'] by simp
  next
    case (ok b t1)
    have 1: "edits {} t t1" "h_arena t1 = h_arena t"
      using tract_read_spec [OF ok(1) \<open>store_ok t\<close>] edits_reads [OF _ \<open>store_ok t\<close>] after_reads_fields [of t t1] by auto
    show ?thesis
    proof (cases "sealed_hp E b")
      case None
      then show ?thesis using ok(2) 1 by (simp add: retE_run)
    next
      case (Some h)
      then have "push_removed [(p, h)] t1 = (q, t')" using ok(2) by simp
      then show ?thesis using edits_push_removed [OF _ edits_ok [OF 1(1)]] 1 edits_trans_same [of "{}" t t1 t'] by auto
    qed
  qed
  have "edits {} s s' \<and> h_arena s' = h_arena s"
    using assms(1) unfolding remove_positions_def
  proof (rule forE_invariant [where P = "\<lambda>t. edits {} s t \<and> h_arena t = h_arena s"])
    show "edits {} s s \<and> h_arena s = h_arena s" using assms(2) by (simp add: edits_refl)
  next
    fix p t q t'
    assume t: "edits {} s t \<and> h_arena t = h_arena s"
      and run: "bindE (tract_read p) (\<lambda>buf. case sealed_hp E buf of Some h \<Rightarrow> push_removed [(p, h)] | None \<Rightarrow> retE ()) t = (q, t')"
    show "edits {} s t' \<and> h_arena t' = h_arena s"
      using step [OF run] t edits_ok [of "{}" s t] edits_trans_same [of "{}" s t t'] by auto
  qed
  then show ?thesis .
qed

lemma remove_leaf_blocks_edits:
  fixes s :: "'z hst_scheme"
  assumes "remove_leaf_blocks E lba h s = (r, s')" and ok: "store_ok s"
  shows "edits {} s s' \<and> h_arena s' = h_arena s"
proof -
  let ?s = "h_removed_update (\<lambda>a. a @ [(lba, h)]) s"
  have p: "push_removed [(lba, h)] s = (Inr (), ?s)" by (simp add: push_removed_def modE_def)
  note e = edits_push_removed [OF p ok]
  have ok1: "store_ok ?s" using e edits_ok by blast
  have "bindE (read_doc E lba h) (\<lambda>d. case d of
       Some (DocDirect _ _ fs) \<Rightarrow> remove_positions E fs
     | Some (DocExtent _ sz runs) \<Rightarrow>
         bindE (\<lambda>s. (expand_runs E runs sz (t_len (st_tract s)), s)) (remove_positions E)
     | _ \<Rightarrow> retE ()) ?s = (r, s')"
    using assms(1) p by (simp add: remove_leaf_blocks_def bindE_def)
  then show ?thesis
  proof (cases rule: bindE_cases)
    case (err x)
    then have "after_reads ?s s'" using read_doc_spec [OF err(1) ok1] by simp
    then show ?thesis using e edits_reads [OF _ ok1] edits_trans_same [of "{}" s ?s s'] after_reads_fields [of ?s s'] by auto
  next
    case (ok d s1)
    have a: "after_reads ?s s1" using read_doc_spec [OF ok(1) ok1] by simp
    have 1: "edits {} s s1" "h_arena s1 = h_arena s"
      using e a edits_reads [OF a ok1] edits_trans_same [of "{}" s ?s s1] after_reads_fields [OF a] by auto
    have rest: "edits {} s1 s' \<and> h_arena s' = h_arena s1"
      if "remove_positions E ps s1 = (r, s')" for ps using remove_positions_edits [OF that edits_ok [OF 1(1)]] .
    have "edits {} s1 s' \<and> h_arena s' = h_arena s1"
      using ok(2) rest edits_refl [OF edits_ok [OF 1(1)]]
      by (auto simp: bindE_def retE_run split: option.splits TractDoc.splits sum.splits)
    then show ?thesis using 1 edits_trans_same [of "{}" s s1 s'] by auto
  qed
qed

section \<open>New nodes\<close>

definition leaf_ptr :: "vsf_env \<Rightarrow> (nat \<Rightarrow> block) \<Rightarrow> nat \<Rightarrow> nat set \<Rightarrow> child \<Rightarrow> hash \<Rightarrow> u8 list \<Rightarrow> bool" where
  "leaf_ptr E V L Oc ch key v \<longleftrightarrow> (\<exists>h lba doc. ch = Committed h lba \<and> lba \<in> Oc
     \<and> doc_of E (V lba) h L = Inr (Some doc) \<and> leaf_doc E V L Oc doc key v)"

lemma leaf_ptr_repr: "leaf_ptr E V L Oc ch key v \<Longrightarrow> repr E V L Oc A d ch (TLeaf key v) {}"
  by (auto simp: leaf_ptr_def intro: repr_leaf)

lemma leaf_ptr_key: "leaf_ptr E V L Oc ch key v \<Longrightarrow> length key = 32"
  by (auto simp: leaf_ptr_def leaf_doc_def)

text \<open>The slots of a node, their trees and footprints.\<close>

definition slots_ok :: "vsf_env \<Rightarrow> (nat \<Rightarrow> block) \<Rightarrow> nat \<Rightarrow> nat set \<Rightarrow> node list \<Rightarrow> nat \<Rightarrow> child option list \<Rightarrow> tree option list \<Rightarrow> (nat \<Rightarrow> nat set) \<Rightarrow> bool" where
  "slots_ok E V L Oc A d cs ts I \<longleftrightarrow> length cs = 32 \<and> length ts = 32
     \<and> (\<forall>c < 32. (cs ! c = None \<and> ts ! c = None \<and> I c = {})
          \<or> (\<exists>ch t. cs ! c = Some ch \<and> ts ! c = Some t \<and> repr E V L Oc A d ch t (I c)))
     \<and> (\<forall>b < 32. \<forall>c < 32. b \<noteq> c \<longrightarrow> I b \<inter> I c = {})"

lemma slots_footprint: "slots_ok E V L Oc A d cs ts I \<Longrightarrow> c < 32 \<Longrightarrow> I c \<subseteq> {..<length A}"
  unfolding slots_ok_def using repr_footprint by blast

lemma slots_frame:
  assumes "slots_ok E V L Oc A d cs ts I" and "\<forall>c < 32. \<forall>i \<in> I c. i < length A' \<and> A' ! i = A ! i"
  shows "slots_ok E V L Oc A' d cs ts I"
proof -
  have "repr E V L Oc A' d ch t (I c)" if "c < 32" "repr E V L Oc A d ch t (I c)" for c ch t
    using repr_frame [OF that(2), of V Oc A'] assms(2) that(1) by blast
  then show ?thesis using assms(1) unfolding slots_ok_def by blast
qed

lemma slots_update:
  assumes sl: "slots_ok E V L Oc A d cs ts I" and c: "c < 32"
    and new: "(ch = None \<and> t = None \<and> K = {}) \<or> (\<exists>h u. ch = Some h \<and> t = Some u \<and> repr E V L Oc A d h u K)"
    and disj: "\<forall>b < 32. b \<noteq> c \<longrightarrow> I b \<inter> K = {}"
  shows "slots_ok E V L Oc A d (cs[c := ch]) (ts[c := t]) (I(c := K))"
proof -
  have "(\<forall>b < 32. (cs[c := ch] ! b = None \<and> ts[c := t] ! b = None \<and> (I(c := K)) b = {})
      \<or> (\<exists>h u. cs[c := ch] ! b = Some h \<and> ts[c := t] ! b = Some u \<and> repr E V L Oc A d h u ((I(c := K)) b)))"
  proof (intro allI impI)
    fix b :: nat assume b: "b < 32"
    show "(cs[c := ch] ! b = None \<and> ts[c := t] ! b = None \<and> (I(c := K)) b = {})
      \<or> (\<exists>h u. cs[c := ch] ! b = Some h \<and> ts[c := t] ! b = Some u \<and> repr E V L Oc A d h u ((I(c := K)) b))"
      using sl new b unfolding slots_ok_def by (cases "b = c") auto
  qed
  moreover have "\<forall>a < 32. \<forall>b < 32. a \<noteq> b \<longrightarrow> (I(c := K)) a \<inter> (I(c := K)) b = {}"
    using sl disj unfolding slots_ok_def by auto
  ultimately show ?thesis using sl by (simp add: slots_ok_def)
qed

lemma slots_none: "slots_ok E V L Oc A d (replicate 32 None) (replicate 32 None) (\<lambda>_. {})"
  by (simp add: slots_ok_def)

lemma slots_dirty:
  assumes "slots_ok E V L Oc A (Suc d) (n_children n) ts I" and "idx < length A" and "A ! idx = n"
    and "n_depth n = d" and "length (n_route n) = 32" and "\<forall>c < 32. idx \<notin> I c" and "d < MAX_DEPTH"
  shows "repr E V L Oc A d (Dirty idx) (TNode ts) (insert idx (\<Union>c \<in> {..<32}. I c))"
  using assms unfolding slots_ok_def by (intro repr_dirty [where I = I]) auto

lemma slots_push:
  assumes "slots_ok E V L Oc A (Suc d) cs ts I" and "length rt = 32" and "n = \<lparr>n_depth = d, n_route = rt, n_children = cs\<rparr>"
    and "d < MAX_DEPTH"
  shows "repr E V L Oc (A @ [n]) d (Dirty (length A)) (TNode ts) (insert (length A) (\<Union>c \<in> {..<32}. I c))"
proof (rule slots_dirty)
  show "slots_ok E V L Oc (A @ [n]) (Suc d) (n_children n) ts I"
  proof -
    have "\<forall>c < 32. \<forall>i \<in> I c. i < length (A @ [n]) \<and> (A @ [n]) ! i = A ! i"
      using slots_footprint [OF assms(1)] by (auto simp: nth_append)
    then show ?thesis using slots_frame [OF assms(1)] assms(3) by simp
  qed
  show "\<forall>c < 32. length A \<notin> I c" using slots_footprint [OF assms(1)] by blast
qed (use assms in auto)

section \<open>Splitting\<close>

declare split.simps [simp del]

lemma split_spec:
  fixes s :: "'z hst_scheme"
  assumes "split d a b s = (r, s')" and "sees s V L A"
    and "leaf_ptr E V L Oc (snd a) (fst a) v" and "leaf_ptr E V L Oc (snd b) (fst b) w"
  shows "edits {} s s' \<and> (\<forall>ch. r = Inr ch \<longrightarrow> part_from d (fst a) (fst b) \<and>
     (\<exists>J. repr E V L Oc (h_arena s') d ch (tree_split d (fst a, TLeaf (fst a) v) (fst b, TLeaf (fst b) w)) J
       \<and> J \<subseteq> {length A ..< length (h_arena s')}))"
  using assms(1,2)
proof (induction "52 - d" arbitrary: d s r s')
  case 0
  then have "chunk (fst a) d = Inl (Panic ''index out of bounds'')" by (intro chunk_panics) simp
  then show ?case using 0 by (auto simp: split.simps [of d] raiseE_run sees_def edits_refl)
next
  case (Suc n)
  let ?k = "fst a" and ?l = "fst b" and ?ta = "TLeaf (fst a) v" and ?tb = "TLeaf (fst b) w"
  have d: "d < 52" using Suc.hyps(2) by simp
  then have dM: "d < MAX_DEPTH" by (simp add: MAX_DEPTH_def)
  have ok: "store_ok s" "h_arena s = A" using Suc.prems(2) by (auto simp: sees_def)
  have cs: "chunk ?k d = Inr (ck ?k d)" "chunk ?l d = Inr (ck ?l d)" using d by (simp_all add: chunk_ok)
  have c32: "ck ?k d < 32" "ck ?l d < 32" by (rule chunk_less)+
  have rt: "length ?k = 32" using leaf_ptr_key [OF assms(3)] .
  show ?case
  proof (cases "ck ?k d = ck ?l d")
    case True
    let ?mk = "\<lambda>sub. (node_new d ?k)\<lparr>n_children := (replicate 32 None)[ck ?k d := Some sub]\<rparr>"
    have "bindE (split (Suc d) a b) (\<lambda>sub. bindE (arena_push (?mk sub)) (\<lambda>idx. retE (Dirty idx))) s = (r, s')"
      using Suc.prems(1) cs True by (simp add: split.simps [of d] bindE_assoc bindE_retE)
    then show ?thesis
    proof (cases rule: bindE_cases)
      case (err e)
      then show ?thesis using Suc.hyps(1) [of "Suc d" s "Inl e" s'] Suc.hyps(2) Suc.prems(2) by auto
    next
      case (ok sub s1)
      have IH: "edits {} s s1" "part_from (Suc d) ?k ?l"
        "\<exists>J. repr E V L Oc (h_arena s1) (Suc d) sub (tree_split (Suc d) (?k, ?ta) (?l, ?tb)) J \<and> J \<subseteq> {length A ..< length (h_arena s1)}"
        using Suc.hyps(1) [of "Suc d" s "Inr sub" s1] Suc.hyps(2) ok(1) Suc.prems(2) by auto
      then obtain J where J: "repr E V L Oc (h_arena s1) (Suc d) sub (tree_split (Suc d) (?k, ?ta) (?l, ?tb)) J"
        "J \<subseteq> {length A ..< length (h_arena s1)}" by blast
      have s': "r = Inr (Dirty (length (h_arena s1)))" "h_arena s' = h_arena s1 @ [?mk sub]" "edits {} s1 s'"
        using ok(2) edits_push [of "?mk sub" s1 _ s'] edits_ok [OF IH(1)] by (auto simp: bindE_def retE_def arena_push_def)
      have "slots_ok E V L Oc (h_arena s1) (Suc d) ((replicate 32 None)[ck ?k d := Some sub])
          ((replicate 32 None)[ck ?k d := Some (tree_split (Suc d) (?k, ?ta) (?l, ?tb))]) ((\<lambda>_. {})(ck ?k d := J))"
        using slots_update [OF slots_none c32(1), of "Some sub"] J(1) by auto
      from slots_push [OF this rt refl dM] have "repr E V L Oc (h_arena s') d (Dirty (length (h_arena s1)))
          (tree_split d (?k, ?ta) (?l, ?tb)) (insert (length (h_arena s1)) (\<Union>c \<in> {..<32}. ((\<lambda>_. {})(ck ?k d := J)) c))"
        using d True s'(2) by (simp add: node_new_def tree_split.simps [of d])
      moreover have "insert (length (h_arena s1)) (\<Union>c \<in> {..<32}. ((\<lambda>_. {})(ck ?k d := J)) c) \<subseteq> {length A ..< length (h_arena s')}"
        using J(2) s'(2) IH(1) \<open>h_arena s = A\<close> by (auto simp: edits_def split: if_splits)
      moreover have "part_from d ?k ?l" using IH(2) by (auto simp: part_from_def intro: Suc_leD)
      ultimately show ?thesis using edits_trans_same [OF IH(1) s'(3)] s'(1) by blast
    qed
  next
    case False
    let ?n = "(node_new d ?k)\<lparr>n_children := (replicate 32 None)[ck ?k d := Some (snd a), ck ?l d := Some (snd b)]\<rparr>"
    have s': "r = Inr (Dirty (length A))" "h_arena s' = A @ [?n]" "edits {} s s'"
      using Suc.prems(1) cs False edits_push [of ?n s _ s'] ok
      by (auto simp: split.simps [of d] bindE_def retE_def arena_push_def)
    have "slots_ok E V L Oc A (Suc d) ((replicate 32 None)[ck ?k d := Some (snd a)]) ((replicate 32 None)[ck ?k d := Some ?ta]) ((\<lambda>_. {})(ck ?k d := {}))"
      using leaf_ptr_repr [OF assms(3)] by (intro slots_update [OF slots_none c32(1)]) auto
    then have "slots_ok E V L Oc A (Suc d) ((replicate 32 None)[ck ?k d := Some (snd a), ck ?l d := Some (snd b)])
        ((replicate 32 None)[ck ?k d := Some ?ta, ck ?l d := Some ?tb]) (((\<lambda>_. {})(ck ?k d := {}))(ck ?l d := {}))"
      using leaf_ptr_repr [OF assms(4)] by (intro slots_update [OF _ c32(2)]) auto
    from slots_push [OF this rt refl dM] have "repr E V L Oc (h_arena s') d (Dirty (length A)) (tree_split d (?k, ?ta) (?l, ?tb)) {length A}"
      using d False s'(2) by (simp add: node_new_def tree_split.simps [of d])
    moreover have "part_from d ?k ?l" using d False by (auto simp: part_from_def)
    ultimately show ?thesis using s' by auto
  qed
qed

section \<open>Editing one slot of a dirty node\<close>

lemma slot_edit:
  fixes s s1 :: "'z hst_scheme"
  assumes sl: "slots_ok E V L Oc (h_arena s) (Suc d) (n_children n) ts I"
    and idx: "idx < length (h_arena s)" "h_arena s ! idx = n" "n_depth n = d" "length (n_route n) = 32" "\<forall>c < 32. idx \<notin> I c" "d < MAX_DEPTH"
    and c: "c < 32" and ed: "edits (I c) s s1"
    and new: "(ch = None \<and> t = None \<and> K = {}) \<or> (\<exists>h u. ch = Some h \<and> t = Some u \<and> repr E V L Oc (h_arena s1) (Suc d) h u K)"
    and K: "K \<subseteq> I c \<union> {length (h_arena s) ..< length (h_arena s1)}"
  defines "s2 \<equiv> arena_set idx c ch s1" and "J \<equiv> insert idx (\<Union>c \<in> {..<32}. I c)"
  shows "edits J s s2"
    and "\<exists>J'. repr E V L Oc (h_arena s2) d (Dirty idx) (TNode (ts[c := t])) J' \<and> J' \<subseteq> J \<union> {length (h_arena s) ..< length (h_arena s2)}"
proof -
  let ?A = "h_arena s" and ?A1 = "h_arena s1" and ?A2 = "h_arena s2"
  let ?n = "n\<lparr>n_children := (n_children n)[c := ch]\<rparr>"
  have len: "length ?A \<le> length ?A1" and same: "\<And>i. i < length ?A \<Longrightarrow> i \<notin> I c \<Longrightarrow> ?A1 ! i = ?A ! i"
    using ed by (auto simp: edits_def)
  have old: "I b \<subseteq> {..<length ?A}" if "b < 32" for b by (rule slots_footprint [OF sl that])
  have at: "?A1 ! idx = n" "idx < length ?A1" using same idx c len by auto
  have A2: "?A2 = ?A1[idx := ?n]" using at by (simp add: s2_def arena_set_def)
  show "edits J s s2"
    using edits_mono [OF ed, of J] edits_mono [OF edits_set [OF edits_ok [OF ed], of idx c ch], of J] edits_trans_same [of J s s1 s2] c
    by (auto simp: J_def s2_def)
  have dis: "I b \<inter> I c = {}" if "b < 32" "b \<noteq> c" for b using sl that c by (simp add: slots_ok_def)
  let ?Iz = "I(c := {})" and ?I = "I(c := K)"
  have "slots_ok E V L Oc ?A (Suc d) ((n_children n)[c := None]) (ts[c := None]) ?Iz"
    using slots_update [OF sl c, of None None "{}"] by simp
  moreover have "\<forall>b < 32. \<forall>i \<in> ?Iz b. i < length ?A1 \<and> ?A1 ! i = ?A ! i"
    using old dis same len by (fastforce split: if_splits)
  ultimately have "slots_ok E V L Oc ?A1 (Suc d) ((n_children n)[c := None]) (ts[c := None]) ?Iz" by (rule slots_frame)
  moreover have "\<forall>b < 32. b \<noteq> c \<longrightarrow> ?Iz b \<inter> K = {}"
  proof (intro allI impI)
    fix b :: nat assume b: "b < 32" "b \<noteq> c"
    have "x \<in> I c \<or> length ?A \<le> x" if "x \<in> K" for x using subsetD [OF K that] by auto
    then show "?Iz b \<inter> K = {}" using dis [OF b] subsetD [OF old [OF b(1)]] b(2) by fastforce
  qed
  ultimately have "slots_ok E V L Oc ?A1 (Suc d) ((n_children n)[c := None, c := ch]) (ts[c := None, c := t]) (?Iz(c := K))"
    using slots_update [OF _ c new] by blast
  then have sl1: "slots_ok E V L Oc ?A1 (Suc d) ((n_children n)[c := ch]) (ts[c := t]) ?I" by simp
  have "idx \<notin> K" using K idx(1,5) c by auto
  then have no: "\<forall>b < 32. idx \<notin> ?I b" using idx(5) by simp
  have "\<forall>b < 32. \<forall>i \<in> ?I b. i < length ?A2 \<and> ?A2 ! i = ?A1 ! i"
  proof (intro allI impI ballI)
    fix b i assume b: "b < 32" "i \<in> ?I b"
    then have "i < length ?A1" "i \<noteq> idx" using subsetD [OF slots_footprint [OF sl1 b(1)] b(2)] no by auto
    then show "i < length ?A2 \<and> ?A2 ! i = ?A1 ! i" by (simp add: A2)
  qed
  from slots_frame [OF sl1 this] have "slots_ok E V L Oc ?A2 (Suc d) (n_children ?n) (ts[c := t]) ?I" by (simp add: fun_upd_def)
  then have "repr E V L Oc ?A2 d (Dirty idx) (TNode (ts[c := t])) (insert idx (\<Union>b \<in> {..<32}. ?I b))"
    by (rule slots_dirty) (use at idx no in \<open>auto simp: A2\<close>)
  moreover have "insert idx (\<Union>b \<in> {..<32}. ?I b) \<subseteq> J \<union> {length ?A ..< length ?A2}"
    using K c by (auto simp: J_def A2 split: if_splits)
  ultimately show "\<exists>J'. repr E V L Oc ?A2 d (Dirty idx) (TNode (ts[c := t])) J' \<and> J' \<subseteq> J \<union> {length ?A ..< length ?A2}" by blast
qed

section \<open>Inserting\<close>

definition sees_on :: "'z hst_scheme \<Rightarrow> (nat \<Rightarrow> block) \<Rightarrow> nat \<Rightarrow> node list \<Rightarrow> nat set \<Rightarrow> bool" where
  "sees_on s V L A J \<longleftrightarrow> store_ok s \<and> tview s = V \<and> t_len (st_tract s) = L
     \<and> (\<forall>i \<in> J. i < length (h_arena s) \<and> h_arena s ! i = A ! i)"

lemma sees_on_sees: "sees_on s V L A J \<Longrightarrow> sees s V L (h_arena s)"
  by (simp add: sees_on_def sees_def)

lemma sees_on_sub: "sees_on s V L A J \<Longrightarrow> I \<subseteq> J \<Longrightarrow> sees_on s V L A I"
  by (auto simp: sees_on_def)

lemma sees_on_edits: "sees_on s V L A J \<Longrightarrow> edits {} s s' \<Longrightarrow> J \<subseteq> {..<length (h_arena s)} \<Longrightarrow> sees_on s' V L A J"
  by (auto simp: sees_on_def edits_def)

definition inserted :: "vsf_env \<Rightarrow> nat set \<Rightarrow> hash \<Rightarrow> u8 list \<Rightarrow> nat \<Rightarrow> tree option \<Rightarrow> nat set \<Rightarrow> 'z hst_scheme \<Rightarrow> child result \<Rightarrow> 'z hst_scheme \<Rightarrow> bool" where
  "inserted E Oc key v d t J s r s' \<longleftrightarrow> (\<forall>e. r = Inl e \<longrightarrow> edits {} s s')
     \<and> (\<forall>ch. r = Inr ch \<longrightarrow> edits J s s' \<and> (\<forall>u. t = Some u \<longrightarrow> placed key d u)
        \<and> (\<exists>J'. repr E (tview s) (t_len (st_tract s)) Oc (h_arena s') d ch (insert_opt d key v t) J'
             \<and> J' \<subseteq> J \<union> {length (h_arena s) ..< length (h_arena s')}))"

text \<open>An insert below one slot of a dirty node that is in the arena.\<close>

lemma insert_slot:
  fixes s :: "'z hst_scheme"
  assumes run: "bindE (insert_child E (n_children n ! c) (Suc d) key leaf) (\<lambda>new_sub.
      bindE (modE (arena_set idx c (Some new_sub))) (\<lambda>_. retE (Dirty idx))) s = (r, s')"
    and sl: "slots_ok E V L Oc (h_arena s) (Suc d) (n_children n) ts I"
    and idx: "idx < length (h_arena s)" "h_arena s ! idx = n" "n_depth n = d" "length (n_route n) = 32" "\<forall>c < 32. idx \<notin> I c" "d < MAX_DEPTH"
    and c: "c = ck key d" and vw: "tview s = V" "t_len (st_tract s) = L"
    and IH: "\<And>q s1. insert_child E (n_children n ! c) (Suc d) key leaf s = (q, s1) \<Longrightarrow> inserted E Oc key v (Suc d) (ts ! c) (I c) s q s1"
  shows "inserted E Oc key v d (Some (TNode ts)) (insert idx (\<Union>c \<in> {..<32}. I c)) s r s'"
  using run
proof (cases rule: bindE_cases)
  case (err e)
  then show ?thesis using IH [OF err(1)] by (simp add: inserted_def)
next
  case (ok new s1)
  have c32: "c < 32" unfolding c by (rule chunk_less)
  have len: "length ts = 32" using sl by (simp add: slots_ok_def)
  from IH [OF ok(1)] obtain K where K: "edits (I c) s s1" "\<forall>u. ts ! c = Some u \<longrightarrow> placed key (Suc d) u"
    "repr E V L Oc (h_arena s1) (Suc d) new (insert_opt (Suc d) key v (ts ! c)) K" "K \<subseteq> I c \<union> {length (h_arena s) ..< length (h_arena s1)}"
    by (auto simp: inserted_def vw)
  have s': "r = Inr (Dirty idx)" "s' = arena_set idx c (Some new) s1" using ok(2) by (auto simp: bindE_def modE_def retE_def)
  have "Some (insert_opt (Suc d) key v (ts ! c)) = Some (case ts ! c of None \<Rightarrow> TLeaf key v | Some t \<Rightarrow> tree_insert (Suc d) key v t)"
    by (simp add: insert_opt_def)
  then have "insert_opt d key v (Some (TNode ts)) = TNode (ts[c := Some (insert_opt (Suc d) key v (ts ! c))])"
    using c32 len by (simp add: c)
  moreover have "placed key d (TNode ts)" using K(2) len by (auto simp: c intro: placed_node)
  moreover note slot_edit [OF sl idx c32 K(1) _ K(4), of "Some new" "Some (insert_opt (Suc d) key v (ts ! c))"]
  ultimately show ?thesis using K(3) s' vw by (auto simp: inserted_def)
qed

declare insert_child.simps [simp del]

lemma repr_slots:
  assumes "length (n_children n) = 32" and "length ts = 32"
    and "\<forall>c < 32. (n_children n ! c = None \<and> ts ! c = None \<and> I c = {})
      \<or> (\<exists>ch t. n_children n ! c = Some ch \<and> ts ! c = Some t \<and> repr E V L Oc A (Suc d) ch t (I c))"
    and "\<forall>b < 32. \<forall>c < 32. b \<noteq> c \<longrightarrow> I b \<inter> I c = {}"
  shows "slots_ok E V L Oc A (Suc d) (n_children n) ts I"
  using assms by (simp add: slots_ok_def)

lemma inserted_shift:
  fixes s :: "'z hst_scheme"
  assumes "edits {} s s1" and "inserted E Oc key v d t J s1 r s'" and "J \<subseteq> J' \<union> {length (h_arena s) ..< length (h_arena s1)}"
  shows "inserted E Oc key v d t J' s r s'"
proof -
  have f: "tview s1 = tview s" "st_tract s1 = st_tract s" "length (h_arena s) \<le> length (h_arena s1)" using assms(1) by (auto simp: edits_def)
  have "edits J' s s'" if "edits J s1 s'"
    using assms(1,3) that by (auto simp: edits_def subset_eq)
  moreover have "edits {} s s'" if "edits {} s1 s'" using edits_trans_same [OF assms(1) that] .
  moreover have "K \<subseteq> J' \<union> {length (h_arena s) ..< length (h_arena s')}"
    if "K \<subseteq> J \<union> {length (h_arena s1) ..< length (h_arena s')}" "edits J s1 s'" for K
    using that assms(3) f(3) by (fastforce simp: edits_def subset_eq)
  ultimately show ?thesis using assms(2) unfolding inserted_def f by blast
qed

lemma insert_none: "store_ok s \<Longrightarrow> leaf_ptr E (tview s) (t_len (st_tract s)) Oc leaf key v \<Longrightarrow>
   insert_child E None d key leaf s = (q, s1) \<Longrightarrow> inserted E Oc key v d None {} s q s1"
  using leaf_ptr_repr by (fastforce simp: insert_child.simps retE_run inserted_def edits_refl)

lemma insert_child_spec:
  assumes "repr E V L Oc A d ch t J" and leaf: "leaf_ptr E V L Oc leaf key v"
  shows "\<forall>(s :: 'z hst_scheme) r s'. sees_on s V L A J \<longrightarrow> insert_child E (Some ch) d key leaf s = (r, s') \<longrightarrow>
     inserted E Oc key v d (Some t) J s r s'"
  using assms(1)
proof (induction rule: repr.induct)
  case (repr_gone lba h d)
  show ?case
  proof (intro allI impI)
    fix s :: "'z hst_scheme" and r s'
    assume so: "sees_on s V L A {}" and run: "insert_child E (Some (Committed h lba)) d key leaf s = (r, s')"
    have s: "sees s V L (h_arena s)" using so by (rule sees_on_sees)
    have ok: "store_ok s" and vw: "tview s = V" "t_len (st_tract s) = L" using s by (auto simp: sees_def)
    show "inserted E Oc key v d (Some TGone) {} s r s'"
      using run unfolding insert_child.simps
    proof (cases rule: read_doc_bind [OF _ s repr_gone(2), consumes 1, case_names err ok])
      case (err e)
      then show ?thesis using edits_reads [OF _ ok] by (simp add: inserted_def)
    next
      case (ok s1)
      then show ?thesis using edits_reads [OF ok(2)] so leaf_ptr_repr [OF leaf] placed_gone
        by (auto simp: inserted_def retE_run vw sees_on_def)
    qed
  qed
next
  case (repr_leaf lba h doc k w d)
  show ?case
  proof (intro allI impI)
    fix s :: "'z hst_scheme" and r s'
    assume so: "sees_on s V L A {}" and run: "insert_child E (Some (Committed h lba)) d key leaf s = (r, s')"
    have s: "sees s V L (h_arena s)" using so by (rule sees_on_sees)
    have ok: "store_ok s" and vw: "tview s = V" "t_len (st_tract s) = L" using s by (auto simp: sees_def)
    have lp: "leaf_ptr E V L Oc (Committed h lba) k w" using repr_leaf by (auto simp: leaf_ptr_def)
    show "inserted E Oc key v d (Some (TLeaf k w)) {} s r s'"
      using run unfolding insert_child.simps
    proof (cases rule: read_doc_bind [OF _ s repr_leaf(2), consumes 1, case_names err ok])
      case (err e)
      then show ?thesis using edits_reads [OF _ ok] by (simp add: inserted_def)
    next
      case (ok s1)
      have e1: "edits {} s s1" and ok1: "store_ok s1" using edits_reads [OF ok(2)] \<open>store_ok s\<close> edits_ok by blast+
      have run1: "(if k = key then bindE (remove_leaf_blocks E lba h) (\<lambda>_. retE leaf)
          else split d (k, Committed h lba) (key, leaf)) s1 = (r, s')"
        using ok(3) repr_leaf(3) by (cases doc) (auto simp: leaf_doc_def)
      show ?thesis
      proof (cases "k = key")
        case True
        then have "bindE (remove_leaf_blocks E lba h) (\<lambda>_. retE leaf) s1 = (r, s')" using run1 by simp
        then have "edits {} s1 s' \<and> (\<forall>c. r = Inr c \<longrightarrow> c = leaf)"
          by (cases rule: bindE_cases) (auto dest: remove_leaf_blocks_edits [OF _ ok1] simp: retE_run)
        then show ?thesis using True edits_trans_same [OF e1]
          by (auto simp: inserted_def vw intro: placed_leaf intro!: exI [where x = "{}"] leaf_ptr_repr [OF leaf])
      next
        case False
        then have run2: "split d (k, Committed h lba) (key, leaf) s1 = (r, s')" using run1 by simp
        note sp = split_spec [OF run2 ok(1), of E Oc w v, simplified, OF lp leaf]
        then show ?thesis using False edits_trans_same [OF e1, of s']
          by (auto simp: inserted_def vw intro: placed_leaf)
      qed
    qed
  qed
next
  case (repr_node lba h n d ts)
  show ?case
  proof (intro allI impI)
    fix s :: "'z hst_scheme" and r s'
    assume so: "sees_on s V L A {}" and run: "insert_child E (Some (Committed h lba)) d key leaf s = (r, s')"
    have s: "sees s V L (h_arena s)" using so by (rule sees_on_sees)
    have ok: "store_ok s" and vw: "tview s = V" "t_len (st_tract s) = L" using s by (auto simp: sees_def)
    show "inserted E Oc key v d (Some (TNode ts)) {} s r s'"
      using run unfolding insert_child.simps
    proof (cases rule: read_doc_bind [OF _ s repr_node(2), consumes 1, case_names err ok])
      case (err e)
      then show ?thesis using edits_reads [OF _ ok] by (simp add: inserted_def)
    next
      case (ok s1)
      have e1: "edits {} s s1" and ok1: "store_ok s1" using edits_reads [OF ok(2)] \<open>store_ok s\<close> edits_ok by blast+
      let ?s2 = "s1\<lparr>h_arena := h_arena s1 @ [n]\<rparr>" and ?idx = "length (h_arena s1)" and ?c = "ck key d"
      have e2: "edits {} s1 ?s2" "h_arena ?s2 = h_arena s1 @ [n]" using edits_push [of n s1 _ ?s2] ok1 by (auto simp: arena_push_def)
      have e02: "edits {} s ?s2" using edits_trans_same [OF e1 e2(1)] .
      have c32: "?c < 32" by (rule chunk_less)
      show ?thesis
      proof (cases rule: chunk_cases [of key d])
        case (deep e)
        then have "r = Inl e \<and> s' = ?s2" using ok(3) repr_node(3) by (auto simp: node_at_depth_def bindE_def liftE_def raiseE_def arena_push_def)
        then show ?thesis using e02 by (simp add: inserted_def)
      next
        case ck: ok
        have run3: "bindE (insert_child E (n_children n ! ?c) (Suc d) key leaf) (\<lambda>new_sub.
            bindE (modE (arena_set ?idx ?c (Some new_sub))) (\<lambda>_. bindE (push_removed [(lba, h)]) (\<lambda>_. retE (Dirty ?idx)))) ?s2 = (r, s')"
          using ok(3) repr_node(3) ck child_at_ok [OF repr_node(5)] by (simp add: node_at_depth_def bindE_def liftE_def arena_push_def)
        have "\<exists>r1 s3. bindE (insert_child E (n_children n ! ?c) (Suc d) key leaf) (\<lambda>new_sub.
            bindE (modE (arena_set ?idx ?c (Some new_sub))) (\<lambda>_. retE (Dirty ?idx))) ?s2 = (r1, s3) \<and>
            ((\<exists>e. r1 = Inl e \<and> r = r1 \<and> s' = s3) \<or> (r1 = Inr (Dirty ?idx) \<and> r = r1 \<and> s' = h_removed_update (\<lambda>a. a @ [(lba, h)]) s3))"
          using run3 by (auto simp: bindE_def modE_def retE_def push_removed_def split: prod.splits sum.splits)
        then obtain r1 s3 where run4: "bindE (insert_child E (n_children n ! ?c) (Suc d) key leaf) (\<lambda>new_sub.
            bindE (modE (arena_set ?idx ?c (Some new_sub))) (\<lambda>_. retE (Dirty ?idx))) ?s2 = (r1, s3)"
          and fin: "(\<exists>e. r1 = Inl e \<and> r = r1 \<and> s' = s3) \<or> (r1 = Inr (Dirty ?idx) \<and> r = r1 \<and> s' = h_removed_update (\<lambda>a. a @ [(lba, h)]) s3)"
          by blast
        have so2: "sees_on ?s2 V L A' {}" for A' using edits_ok [OF e02] e02 vw by (auto simp: sees_on_def edits_def)
        have slA: "slots_ok E V L Oc A (Suc d) (n_children n) ts (\<lambda>_. {})"
          using repr_node.IH repr_node.hyps by (intro repr_slots) auto
        have sl: "slots_ok E V L Oc (h_arena ?s2) (Suc d) (n_children n) ts (\<lambda>_. {})" by (rule slots_frame [OF slA]) simp
        have IH: "inserted E Oc key v (Suc d) (ts ! ?c) {} ?s2 q s4"
          if "insert_child E (n_children n ! ?c) (Suc d) key leaf ?s2 = (q, s4)" for q s4
        proof (cases "n_children n ! ?c")
          case None
          then have "ts ! ?c = None" using repr_node.IH c32 by auto
          then show ?thesis using that None insert_none [of ?s2 E Oc leaf key v "Suc d"] so2 leaf by (auto simp: sees_on_def)
        next
          case (Some ch)
          then show ?thesis using repr_node.IH c32 that so2 by fastforce
        qed
        have "inserted E Oc key v d (Some (TNode ts)) {?idx} ?s2 r1 s3"
          using insert_slot [OF run4 sl, where v = v] e2(2) repr_node(3,4) IH so2 ck(1) by (auto simp: sees_on_def MAX_DEPTH_def)
        then have i3: "inserted E Oc key v d (Some (TNode ts)) {} s r1 s3"
          by (rule inserted_shift [OF e02]) (use e1 in \<open>auto simp: edits_def\<close>)
        show ?thesis using fin
        proof
          assume "\<exists>e. r1 = Inl e \<and> r = r1 \<and> s' = s3"
          then show ?thesis using i3 by auto
        next
          assume f: "r1 = Inr (Dirty ?idx) \<and> r = r1 \<and> s' = h_removed_update (\<lambda>a. a @ [(lba, h)]) s3"
          then have "edits {} s s3" using i3 by (simp add: inserted_def)
          then have "edits {} s s'" using f edits_push_removed [of "[(lba, h)]" s3 _ s'] edits_trans_same [of "{}" s s3 s'] edits_ok [of "{}" s s3]
            by (auto simp: push_removed_def modE_def)
          then show ?thesis using f i3 by (simp add: inserted_def)
        qed
      qed
    qed
  qed
next
  case (repr_dirty idx n d ts I J)
  show ?case
  proof (intro allI impI)
    fix s :: "'z hst_scheme" and r s'
    assume so: "sees_on s V L A J" and run: "insert_child E (Some (Dirty idx)) d key leaf s = (r, s')"
    have ok: "store_ok s" and vw: "tview s = V" "t_len (st_tract s) = L" using so by (auto simp: sees_on_def)
    have J: "J = insert idx (\<Union>c \<in> {..<32}. I c)" by (rule repr_dirty.hyps)
    have sub: "I c \<subseteq> J" if "c < 32" for c using J that by blast
    have at: "idx < length (h_arena s)" "h_arena s ! idx = n" using so J repr_dirty.hyps by (auto simp: sees_on_def)
    let ?c = "ck key d"
    have c32: "?c < 32" by (rule chunk_less)
    show "inserted E Oc key v d (Some (TNode ts)) J s r s'"
    proof (cases rule: chunk_cases [of key d])
      case (deep e)
      then show ?thesis using run ok by (auto simp: insert_child.simps raiseE_run inserted_def edits_refl)
    next
      case ck: ok
      have run1: "bindE (insert_child E (n_children n ! ?c) (Suc d) key leaf) (\<lambda>new_sub.
          bindE (modE (arena_set idx ?c (Some new_sub))) (\<lambda>_. retE (Dirty idx))) s = (r, s')"
        using run ck at child_at_ok [OF repr_dirty(5)] arena_get_run [of idx s] by (simp add: insert_child.simps bindE_def liftE_def)
      have slA: "slots_ok E V L Oc A (Suc d) (n_children n) ts I"
        using repr_dirty.IH repr_dirty.hyps by (intro repr_slots) auto
      have sl: "slots_ok E V L Oc (h_arena s) (Suc d) (n_children n) ts I"
        using so sub by (intro slots_frame [OF slA]) (auto simp: sees_on_def)
      have IH: "inserted E Oc key v (Suc d) (ts ! ?c) (I ?c) s q s4"
        if "insert_child E (n_children n ! ?c) (Suc d) key leaf s = (q, s4)" for q s4
      proof (cases "n_children n ! ?c")
        case None
        then have "ts ! ?c = None" "I ?c = {}" using repr_dirty.IH c32 by auto
        then show ?thesis using that None insert_none [of s E Oc leaf key v "Suc d"] so leaf by (auto simp: sees_on_def)
      next
        case (Some ch)
        then show ?thesis using repr_dirty.IH c32 that sees_on_sub [OF so sub [OF c32]] by fastforce
      qed
      show ?thesis unfolding J
        by (rule insert_slot [OF run1 sl at repr_dirty(3,4) _ _ refl vw IH]) (use repr_dirty.hyps in auto)
    qed
  qed
qed

end
