(* ===== verification/Hamt_Put.thy ===== *)
theory Hamt_Put
  imports Hamt_Insert
begin

text \<open>
  Storing a value refines the map update. A put appends its blocks into clean space only, so every
  block the index refers to keeps its content; a put that returns maps its key to its value and no
  other key to anything else, and one that fails leaves the index and its delta as they were.
\<close>

section \<open>The occupied positions\<close>

lemma index_fields [simp]:
  fixes s :: "'z hst_scheme"
  shows "tview (h_added_update f s) = tview s" "tview (h_removed_update f s) = tview s"
    "tview (h_root_update g s) = tview s" "tview (h_arena_update k s) = tview s"
    "store_ok (h_added_update f s) = store_ok s" "store_ok (h_removed_update f s) = store_ok s"
    "store_ok (h_root_update g s) = store_ok s" "store_ok (h_arena_update k s) = store_ok s"
  by (simp_all add: tview_def store_ok_def fun_eq_iff)

definition occ :: "tract \<Rightarrow> nat set" where
  "occ t = (\<lambda>m. m mod t_len t) ` {t_reap t ..< t_plow t}"

text \<open>\<open>holds E s t\<close>: the state \<open>s\<close> stands for the tree \<open>t\<close> (\<open>None\<close>: the empty index).\<close>

definition holds :: "vsf_env \<Rightarrow> 'z hst_scheme \<Rightarrow> tree option \<Rightarrow> bool" where
  "holds E s t \<longleftrightarrow> store_ok s \<and> (case h_root s of
     None \<Rightarrow> t = None
   | Some ch \<Rightarrow> \<exists>u J. t = Some u \<and> repr E (tview s) (t_len (st_tract s)) (occ (st_tract s)) (h_arena s) 0 ch u J)"

text \<open>\<open>grows s s'\<close>: blocks may have been appended, but nothing between the cursors was touched.\<close>

definition grows :: "'z hst_scheme \<Rightarrow> 'z hst_scheme \<Rightarrow> bool" where
  "grows s s' \<longleftrightarrow> store_ok s' \<and> (\<forall>p \<in> occ (st_tract s). tview s' p = tview s p)
     \<and> occ (st_tract s) \<subseteq> occ (st_tract s') \<and> t_len (st_tract s') = t_len (st_tract s)
     \<and> h_root s' = h_root s \<and> h_arena s' = h_arena s \<and> h_removed s' = h_removed s \<and> (\<exists>xs. h_added s' = h_added s @ xs)"

lemma grows_refl: "store_ok s \<Longrightarrow> grows s s"
  by (simp add: grows_def)

lemma grows_trans:
  assumes "grows s s1" and "grows s1 s2"
  shows "grows s s2"
  using assms by (auto simp: grows_def subset_iff)

lemma grows_reads:
  fixes s s' :: "'z hst_scheme"
  shows "after_reads s s' \<Longrightarrow> store_ok s \<Longrightarrow> grows s s'"
  using after_reads_ok [of s s'] after_reads_fields [of s s'] by (simp add: grows_def)

lemma grows_added:
  fixes s :: "'z hst_scheme"
  assumes "push_added ps s = (r, s')" and "store_ok s"
  shows "grows s s' \<and> r = Inr () \<and> tview s' = tview s \<and> st_tract s' = st_tract s"
  using assms by (auto simp: push_added_def modE_def grows_def store_ok_def tview_def fun_eq_iff)

lemma grows_repr:
  "repr E (tview s) (t_len (st_tract s)) (occ (st_tract s)) A d ch t J \<Longrightarrow> grows s s' \<Longrightarrow>
   repr E (tview s') (t_len (st_tract s')) (occ (st_tract s')) A d ch t J"
  using repr_frame [of E "tview s" "t_len (st_tract s)" "occ (st_tract s)" A d ch t J "tview s'" "occ (st_tract s')" A] repr_footprint
  by (fastforce simp: grows_def)

section \<open>Appends\<close>

lemma occ_append:
  assumes "tract_wf t" and "n \<le> clean_blocks t"
  shows "occ (t\<lparr>t_plow := t_plow t + n\<rparr>) = occ t \<union> set (placed_at t n)" and "occ t \<inter> set (placed_at t n) = {}"
proof -
  have "{t_reap t ..< t_plow t + n} = {t_reap t ..< t_plow t} \<union> (\<lambda>i. t_plow t + i) ` {..<n}"
  proof -
    have "t_reap t \<le> t_plow t" using assms(1) by (simp add: tract_wf_def)
    moreover have "(\<lambda>i. t_plow t + i) ` {..<n} = {t_plow t ..< t_plow t + n}"
      by (simp add: lessThan_atLeast0 image_add_atLeastLessThan add.commute)
    ultimately show ?thesis by auto
  qed
  then show "occ (t\<lparr>t_plow := t_plow t + n\<rparr>) = occ t \<union> set (placed_at t n)"
    by (simp add: occ_def placed_at_def image_Un image_image atLeast0LessThan)
  show "occ t \<inter> set (placed_at t n) = {}" using placed_at_clean [OF assms] by (auto simp: occ_def)
qed

text \<open>What an append of encodable blocks does: refused with only an event, or placed.\<close>

definition appended :: "nat list \<Rightarrow> (nat \<Rightarrow> block) \<Rightarrow> 'z hst_scheme \<Rightarrow> 'z hst_scheme \<Rightarrow> bool" where
  "appended ps blk s s' \<longleftrightarrow> grows s s' \<and> h_added s' = h_added s \<and> occ (st_tract s') = occ (st_tract s) \<union> set ps \<and> set ps \<subseteq> {..<t_len (st_tract s)}
     \<and> distinct ps \<and> length ps \<le> t_len (st_tract s) \<and> (\<forall>i < length ps. tview s' (ps ! i) = blk i)"

lemma append_cases:
  fixes s :: "'z hst_scheme"
  assumes run: "append_with live n mk s = (r, s')" and ok: "store_ok s"
    and mk: "\<And>i. i < n \<Longrightarrow> mk i = Inr (blk i) \<and> length (blk i) = BLOCK"
  obtains (refused) e where "r = Inl e" "after_reads s s'"
    | (placed) "r = Inr (placed_at (st_tract s) n)" "appended (placed_at (st_tract s) n) blk s s'"
proof -
  let ?t = "st_tract s"
  have wf: "tract_wf ?t" "wf_mirror (st_mirror s)" using ok by (auto simp: store_ok_def)
  show thesis
  proof (cases "append_allowed live ?t n")
    case True
    let ?m = "staged_upto ?t blk n (reserve_staged n (st_mirror s))"
    have n: "n \<le> clean_blocks ?t" "n \<le> t_len ?t" "t_plow ?t + n \<le> t_reap ?t + t_len ?t"
      using wf(1) True by (auto simp: append_allowed_def clean_blocks_eq tract_wf_def)
    have s': "r = Inr (placed_at ?t n)" "s' = s\<lparr>st_mirror := ?m, st_tract := ?t\<lparr>t_plow := t_plow ?t + n\<rparr>\<rparr>"
      using append_allowed_run [OF wf(1) True, of mk blk] run mk by auto
    have wm: "wf_mirror (reserve_staged n (st_mirror s))" using wf(2) by simp
    have up: "wf_mirror ?m" "\<And>l. l \<notin> (\<lambda>p. t_base ?t + p) ` set (placed_at ?t n) \<Longrightarrow> view ?m l = view (st_mirror s) l"
      using staged_upto_spec [OF wm, of n blk ?t] mk by auto
    have at: "view ?m (t_base ?t + placed_at ?t n ! i) = blk i" if "i < n" for i
      using staged_upto_at [OF wm _ wf(1) n(2) that, of blk] mk that by (simp add: placed_at_def)
    have occ': "occ (st_tract s') = occ ?t \<union> set (placed_at ?t n)" "occ ?t \<inter> set (placed_at ?t n) = {}"
      using occ_append [OF wf(1) n(1)] s'(2) by simp_all
    have vs: "tview s' p = view ?m (t_base ?t + p)" for p using s'(2) by (simp add: tview_def)
    have "tview s' p = tview s p" if "p \<in> occ ?t" for p
    proof -
      have "t_base ?t + p \<notin> (\<lambda>p. t_base ?t + p) ` set (placed_at ?t n)" using occ'(2) that by auto
      then show ?thesis using up(2) vs by (simp add: tview_def)
    qed
    moreover have "store_ok s'" using up(1) ok n(3) s'(2) by (auto simp: store_ok_def tract_wf_def)
    ultimately have "grows s s'" using s'(2) occ' by (auto simp: grows_def)
    then have "appended (placed_at ?t n) blk s s'"
      using at occ' placed_at_distinct [OF wf(1) n(2)] n(2) wf(1) s'(2)
      by (auto simp: appended_def tview_def placed_at_def tract_wf_def)
    then show thesis using placed s'(1) by blast
  next
    case False
    show thesis
    proof (cases "n > clean_blocks ?t")
      case True
      then show thesis using run refused [of TractFull] after_reads_refl [OF ok] by (auto simp: append_with_def Let_def)
    next
      case le: False
      then have "t_plow ?t + n < U64" using wf(1) by (auto simp: clean_blocks_eq tract_wf_def)
      then obtain e ev where e: "append_with live n mk s = (Inl e, s\<lparr>st_mirror := (st_mirror s)\<lparr>m_events := m_events (st_mirror s) @ ev\<rparr>\<rparr>)"
        using append_refused [OF wf(1) False] by blast
      let ?m = "(st_mirror s)\<lparr>m_events := m_events (st_mirror s) @ ev\<rparr>"
      have rd: "rdev ?m = rdev (st_mirror s)" "staged ?m = staged (st_mirror s)" by (simp_all add: rdev_def staged_def)
      then have "rcontent ?m = rcontent (st_mirror s)" "rcount ?m = rcount (st_mirror s)"
        by (simp_all add: rcontent_def rcount_def fun_eq_iff)
      then have "wf_mirror ?m" "view ?m = view (st_mirror s)"
        using wf(2) rd view_cong [of ?m "st_mirror s"] by (simp_all add: wf_mirror_def cache_ok_def)
      then show thesis using refused [of e] run e by (auto simp: after_reads_def)
    qed
  qed
qed

text \<open>Blocks appended as they are.\<close>

lemma tract_append_cases:
  fixes s :: "'z hst_scheme"
  assumes run: "tract_append live bs s = (r, s')" and ok: "store_ok s" and len: "\<forall>b \<in> set bs. length b = BLOCK"
  obtains (refused) e where "r = Inl e" "grows s s'"
    | (placed) ps where "r = Inr ps" "length ps = length bs" "appended ps ((!) bs) s s'"
proof -
  have mk: "Inr (bs ! i) = Inr (bs ! i) \<and> length (bs ! i) = BLOCK" if "i < length bs" for i using len that by simp
  show thesis
  proof (cases rule: append_cases [OF run [unfolded tract_append_def] ok mk, case_names mk refused placed])
    case (refused e)
    then show ?thesis using that(1) grows_reads [OF _ ok] by blast
  next
    case placed
    then show ?thesis using that(2) by (simp add: placed_at_def)
  qed
qed

text \<open>One block appended to clean space.\<close>

lemma append_one:
  fixes s :: "'z hst_scheme"
  assumes ok: "store_ok s" and al: "append_allowed live (st_tract s) 1" and b: "length b = BLOCK"
  obtains s' where "tract_append live [b] s = (Inr [t_plow (st_tract s) mod t_len (st_tract s)], s')" "store_ok s'"
    "st_tract s' = (st_tract s)\<lparr>t_plow := t_plow (st_tract s) + 1\<rparr>" "h_root s' = h_root s" "h_hits s' = h_hits s"
proof -
  let ?t = "st_tract s"
  let ?s = "s\<lparr>st_mirror := staged_upto ?t ((!) [b]) 1 (reserve_staged 1 (st_mirror s)), st_tract := ?t\<lparr>t_plow := t_plow ?t + 1\<rparr>\<rparr>"
  have run: "tract_append live [b] s = (Inr (placed_at ?t 1), ?s)"
    using append_allowed_run [of s live 1 "\<lambda>i. Inr ([b] ! i)" "(!) [b]"] ok al by (simp add: tract_append_def store_ok_def)
  have "store_ok ?s" by (rule tract_append_cases [OF run ok]) (use b in \<open>auto simp: appended_def grows_def\<close>)
  then show thesis using that [of ?s] run by (simp add: placed_at_def)
qed

section \<open>The blocks of a value\<close>

lemma concat_slices: "concat (map (\<lambda>i. sub_slice v (i * c) c) [0 ..< n]) = take (n * c) v"
proof (induction n)
  case 0
  then show ?case by simp
next
  case (Suc n)
  have "take (c + n * c) v = take (n * c) v @ take c (drop (n * c) v)" using take_add [of "n * c" c v] by (simp add: add.commute)
  then show ?case using Suc by (simp add: sub_slice_def)
qed

lemma capacity_pos: "vsf_ok E \<Longrightarrow> 0 < furrow_capacity E"
  using body_start_le [of E] by (simp add: furrow_capacity_def BLOCK_def)

definition furrow_doc_block :: "vsf_env \<Rightarrow> hash \<Rightarrow> u8 list \<Rightarrow> nat \<Rightarrow> block" where
  "furrow_doc_block E key value i = doc_block E SCHEMA_FURROW
     (furrow_fields key i (sub_slice value (i * furrow_capacity E) (furrow_capacity E)))"

lemma furrow_block_ok:
  assumes "vsf_ok E" and "length key = 32" and "i < U64"
  shows "furrow_block E key value i = Inr (furrow_doc_block E key value i)" "length (furrow_doc_block E key value i) = BLOCK"
    "furrow_payload E key i (furrow_doc_block E key value i) = Inr (sub_slice value (i * furrow_capacity E) (furrow_capacity E))"
    "\<exists>h. hp_of E (furrow_doc_block E key value i) = Inr h"
proof -
  let ?p = "sub_slice value (i * furrow_capacity E) (furrow_capacity E)"
  have p: "length ?p \<le> furrow_capacity E" by (simp add: sub_slice_def)
  note f = encode_furrow_ok [OF assms p] furrow_doc [OF assms p]
  show "furrow_block E key value i = Inr (furrow_doc_block E key value i)"
    using f(1) by (simp add: furrow_block_def furrow_doc_block_def)
  show "length (furrow_doc_block E key value i) = BLOCK"
    using length_doc_block [OF assms(1) f(4)] by (simp add: furrow_doc_block_def)
  show "furrow_payload E key i (furrow_doc_block E key value i) = Inr ?p"
    using f(2) sealed_hp_doc_block [OF assms(1)] by (simp add: furrow_payload_def furrow_doc_block_def)
  show "\<exists>h. hp_of E (furrow_doc_block E key value i) = Inr h"
    using sealed_hp_doc_block [OF assms(1)] by (simp add: hp_of_def furrow_doc_block_def)
qed

lemma div_ceil_count: "0 < c \<Longrightarrow> div_ceil n c \<le> n"
proof -
  assume c: "0 < c"
  define q r where "q = n div c" and "r = n mod c"
  have "n = q * c + r" unfolding q_def r_def by simp
  moreover have "q \<le> q * c" using c by simp
  ultimately have "q + r \<le> n" by linarith
  then show ?thesis by (simp add: div_ceil_def flip: q_def r_def)
qed

text \<open>Furrows placed in order carry the value.\<close>

lemma furrows_carry:
  assumes ok: "vsf_ok E" and key: "length key = 32" and small: "length value < U64"
    and n: "length ps = div_ceil (length value) (furrow_capacity E)"
    and at: "\<And>i. i < length ps \<Longrightarrow> V (ps ! i) = furrow_doc_block E key value i"
  shows "furrows_are E V key ps value"
proof -
  let ?c = "furrow_capacity E" and ?n = "length ps"
  let ?qs = "map (\<lambda>i. sub_slice value (i * ?c) ?c) [0 ..< ?n]"
  have "length value \<le> ?n * ?c" unfolding n by (rule div_ceil_le [OF capacity_pos [OF ok]])
  then have "value = concat ?qs" unfolding concat_slices by simp
  moreover have "furrow_payload E key i (V (ps ! i)) = Inr (?qs ! i)" if "i < ?n" for i
  proof -
    have "i < U64" using that small div_ceil_count [OF capacity_pos [OF ok], of "length value"] n by simp
    then show ?thesis using furrow_block_ok(3) [OF ok key, of i "value"] at that by simp
  qed
  ultimately show ?thesis unfolding furrows_are_def by (intro exI [of _ ?qs]) auto
qed

section \<open>Placing a value\<close>

lemma append_leaf_spec:
  fixes s :: "'z hst_scheme"
  assumes run: "append_leaf E live (doc_block E schema fs) s = (r, s')" and ok: "store_ok s" and E: "vsf_ok E"
    and len: "length (doc_block E schema fs) = BLOCK"
    and doc: "decode_doc E (doc_block E schema fs) = Inr doc" "\<And>L. \<not> points_past doc L"
  shows "grows s s' \<and> (\<forall>lba h. r = Inr (lba, h) \<longrightarrow> lba \<in> occ (st_tract s')
     \<and> doc_of E (tview s' lba) h (t_len (st_tract s')) = Inr (Some doc))"
proof -
  let ?b = "doc_block E schema fs" and ?h = "blake3 E (doc_body E schema fs)"
  have mk: "(Inr ([?b] ! i) :: block result) = Inr ([?b] ! i) \<and> length ([?b] ! i) = BLOCK" if "i < 1" for i using that len by simp
  have hp: "hp_of E ?b = Inr ?h" using sealed_hp_doc_block [OF E] by (simp add: hp_of_def)
  from run have "bindE (append_with live 1 (\<lambda>i. Inr ([?b] ! i))) (\<lambda>ps. bindE (push_added [(hd ps, ?h)]) (\<lambda>_. retE (hd ps, ?h))) s = (r, s')"
    by (simp add: append_leaf_def tract_append_def hp bindE_def liftE_def)
  then show ?thesis
  proof (cases rule: bindE_cases)
    case (err e)
    have "after_reads s s'" by (rule append_cases [OF err(1) ok mk]) auto
    then show ?thesis using err(2) grows_reads [OF _ ok] by simp
  next
    case (ok ps s1)
    show ?thesis
    proof (cases rule: append_cases [OF ok(1) \<open>store_ok s\<close> mk, case_names mk refused placed])
      case (mk i)
      then show ?case by simp
    next
      case (refused e)
      then show ?thesis by simp
    next
      case placed
      then have ps: "ps = [t_plow (st_tract s) mod t_len (st_tract s)]" by (simp add: placed_at_def)
      have g1: "grows s s1" "ps ! 0 \<in> occ (st_tract s1)" "tview s1 (ps ! 0) = ?b"
        using placed(2) ps by (auto simp: appended_def placed_at_def)
      have ok1: "store_ok s1" using g1(1) by (simp add: grows_def)
      have r: "r = Inr (ps ! 0, ?h)" "push_added [(ps ! 0, ?h)] s1 = (Inr (), s')"
        using ok(2) ps by (auto simp: bindE_def push_added_def modE_def retE_def)
      note g2 = grows_added [OF r(2) ok1]
      have "doc_of E ?b ?h L = Inr (Some doc)" for L by (rule doc_of_block [OF E doc])
      then show ?thesis using g1 g2 grows_trans [OF g1(1)] r(1) by simp
    qed
  qed
qed

definition put_ok :: "vsf_env \<Rightarrow> hash \<Rightarrow> u8 list \<Rightarrow> 'z hst_scheme \<Rightarrow> (nat \<times> hash) result \<Rightarrow> 'z hst_scheme \<Rightarrow> bool" where
  "put_ok E key v s r s' \<longleftrightarrow> grows s s' \<and> (\<forall>lba h. r = Inr (lba, h) \<longrightarrow>
     leaf_ptr E (tview s') (t_len (st_tract s')) (occ (st_tract s')) (Committed h lba) key v)"

lemma put_lone_spec:
  fixes s :: "'z hst_scheme"
  assumes run: "put_value E live key v s = (r, s')" and ok: "store_ok s" and E: "vsf_ok E" and key: "length key = 32"
    and small: "length v \<le> lone_capacity E"
  shows "put_ok E key v s r s'"
proof -
  note e = encode_lone_ok [OF E key small] and l = length_doc_block [OF E lone_doc(2) [OF E key small]]
  have "append_leaf E live (doc_block E SCHEMA_LONE (lone_fields key v)) s = (r, s')"
    using run small by (simp add: put_value_def e(1) bindE_def liftE_def)
  from append_leaf_spec [OF this ok E l e(2)] show ?thesis
    using key by (auto simp: put_ok_def leaf_ptr_def leaf_doc_def points_past_def)
qed

lemma put_extent_leaf:
  fixes s :: "'z hst_scheme"
  assumes run: "bindE (liftE (encode_extent E key (length v) (compress_runs ps))) (append_leaf E live) s = (r, s')"
    and ok: "store_ok s" and E: "vsf_ok E" and key: "length key = 32" and small: "length v < U64"
    and ps: "set ps \<subseteq> occ (st_tract s)" "set ps \<subseteq> {..<t_len (st_tract s)}" "length ps \<le> t_len (st_tract s)"
    and n: "length ps = div_ceil (length v) (furrow_capacity E)" and fu: "furrows_are E (tview s) key ps v"
  shows "put_ok E key v s r s'"
proof (cases "length (compress_runs ps) \<le> max_runs E")
  case False
  then show ?thesis using run grows_refl [OF ok] by (auto simp: encode_extent_def bindE_def liftE_def put_ok_def)
next
  case True
  let ?L = "t_len (st_tract s)" and ?runs = "compress_runs ps"
  have L: "?L < 2 ^ 63" using ok by (simp add: store_ok_def)
  have w: "\<forall>(a, c) \<in> set ?runs. a < U64 \<and> c < U64"
    using compress_runs_within [of ps ?L] ps(2) L by (fastforce simp: subset_eq)
  note e = encode_extent_ok [OF E key small True w] and l = length_doc_block [OF E extent_doc(2) [OF E key small True w]]
  have x: "expand_runs E ?runs (length v) ?L = Inr ps" using ps(2,3) L n by (intro expand_compress) auto
  have "append_leaf E live (doc_block E SCHEMA_EXTENT (extent_fields key (length v) ?runs)) s = (r, s')"
    using run by (simp add: e(1) bindE_def liftE_def)
  note sp = append_leaf_spec [OF this ok E l e(2)]
  have g: "grows s s'" using sp by (simp add: points_past_def)
  then have occ: "set ps \<subseteq> occ (st_tract s')" "t_len (st_tract s') = ?L" and "\<forall>p \<in> set ps. tview s' p = tview s p"
    using ps(1) by (auto simp: grows_def)
  then have "furrows_are E (tview s') key ps v" using furrows_are_frame [OF fu] by blast
  then show ?thesis using sp g occ x key by (auto simp: put_ok_def leaf_ptr_def leaf_doc_def points_past_def)
qed

lemma put_value_spec:
  fixes s :: "'z hst_scheme"
  assumes run: "put_value E live key v s = (r, s')" and ok: "store_ok s" and E: "vsf_ok E" and key: "length key = 32"
    and small: "length v < U64"
  shows "put_ok E key v s r s'"
proof (cases "length v \<le> lone_capacity E")
  case True
  then show ?thesis using put_lone_spec [OF run ok E key] by blast
next
  case False
  let ?n = "div_ceil (length v) (furrow_capacity E)" and ?b = "furrow_doc_block E key v"
  have i64: "i < U64" if "i < ?n" for i
    using that small div_ceil_count [OF capacity_pos [OF E], of "length v"] by simp
  note f = furrow_block_ok [OF E key i64]
  have mk: "furrow_block E key v i = Inr (?b i) \<and> length (?b i) = BLOCK" if "i < ?n" for i using f(1,2) [OF that] by blast
  have "\<forall>i. \<exists>h. i < ?n \<longrightarrow> bindR (furrow_block E key v i) (hp_of E) = Inr h" using f(1,4) by (metis bindR_Inr)
  then obtain h where h: "\<And>i. i < ?n \<Longrightarrow> bindR (furrow_block E key v i) (hp_of E) = Inr (h i)" by metis
  have hashes: "(mapE (\<lambda>i. liftE (bindR (furrow_block E key v i) (hp_of E))) [0 ..< ?n] :: ('z hst_scheme, hash list) op)
      = retE (map h [0 ..< ?n])"
    unfolding retE_def using h by (intro ext mapE_pure) (simp add: liftE_run)
  from run False have "bindE (append_with live ?n (furrow_block E key v)) (\<lambda>placed.
      bindE (push_added (zip placed (map h [0 ..< ?n]))) (\<lambda>_.
      bindE (liftE (encode_extent E key (length v) (compress_runs placed))) (append_leaf E live))) s = (r, s')"
    by (simp add: put_value_def Let_def hashes bindE_retE)
  then show ?thesis
  proof (cases rule: bindE_cases)
    case (err e)
    have "after_reads s s'" by (rule append_cases [OF err(1) ok mk]) auto
    then show ?thesis using err(2) grows_reads [OF _ ok] by (simp add: put_ok_def)
  next
    case (ok ps s1)
    have a: "appended ps ?b s s1" "length ps = ?n"
      by (rule append_cases [OF ok(1) \<open>store_ok s\<close> mk]; simp add: placed_at_def)+
    have g1: "grows s s1" "t_len (st_tract s1) = t_len (st_tract s)" and ok1: "store_ok s1" using a(1) by (auto simp: appended_def grows_def)
    let ?s2 = "h_added_update (\<lambda>x. x @ zip ps (map h [0 ..< ?n])) s1"
    have p: "push_added (zip ps (map h [0 ..< ?n])) s1 = (Inr (), ?s2)" by (simp add: push_added_def modE_def)
    note g2 = grows_added [OF p ok1]
    have run2: "bindE (liftE (encode_extent E key (length v) (compress_runs ps))) (append_leaf E live) ?s2 = (r, s')"
      using ok(2) p by (simp add: bindE_def)
    have fu: "furrows_are E (tview ?s2) key ps v"
      using a g2 by (intro furrows_carry [OF E key small]) (auto simp: appended_def)
    have ps: "set ps \<subseteq> occ (st_tract ?s2)" "set ps \<subseteq> {..<t_len (st_tract ?s2)}" "length ps \<le> t_len (st_tract ?s2)"
      using a(1) g1(2) g2 by (auto simp: appended_def)
    have ok2: "store_ok ?s2" using g2 by (simp add: grows_def)
    have "put_ok E key v ?s2 r s'" using put_extent_leaf [OF run2 ok2 E key small ps a(2) fu] .
    then show ?thesis using grows_trans [OF grows_trans [OF g1(1)], of ?s2 s'] g2 by (simp add: put_ok_def)
  qed
qed

section \<open>Put\<close>

lemma holds_lookup:
  fixes s :: "'z hst_scheme"
  assumes "lookup E key s = (r, s')" and "holds E s t"
  shows "after_reads s s' \<and> (\<forall>x. r = Inr x \<longrightarrow> x = lookup_opt key 0 t)"
proof (cases "h_root s")
  case None
  then show ?thesis using assms after_reads_refl [of s] by (auto simp: lookup_def holds_def)
next
  case (Some ch)
  then obtain u J where u: "t = Some u" "repr E (tview s) (t_len (st_tract s)) (occ (st_tract s)) (h_arena s) 0 ch u J"
    using assms(2) by (auto simp: holds_def)
  have "sees s (tview s) (t_len (st_tract s)) (h_arena s)" using assms(2) by (simp add: sees_def holds_def)
  moreover have "lookup_from E key 0 ch s = (r, s')" using assms(1) Some by (simp add: lookup_def)
  ultimately show ?thesis using lookup_from_spec [OF u(2)] u(1) by auto
qed

lemma holds_reads:
  fixes s :: "'z hst_scheme"
  assumes "after_reads s s'" and "holds E s t"
  shows "holds E s' t"
  using assms after_reads_ok [of s s'] after_reads_fields [OF assms(1)] by (auto simp: holds_def split: option.splits)

lemma holds_grows:
  fixes s :: "'z hst_scheme"
  assumes "grows s s'" and "holds E s t"
  shows "holds E s' t"
proof -
  have "store_ok s'" "h_root s' = h_root s" "h_arena s' = h_arena s" using assms(1) by (auto simp: grows_def)
  then show ?thesis using assms(2) grows_repr [OF _ assms(1)] by (fastforce simp: holds_def split: option.splits)
qed

text \<open>Threading a leaf that is on the medium into the index.\<close>

lemma insert_root:
  fixes s :: "'z hst_scheme"
  assumes run: "insert_child E (h_root s) 0 key leaf s = (r, s')" and h: "holds E s t"
    and leaf: "leaf_ptr E (tview s) (t_len (st_tract s)) (occ (st_tract s)) leaf key v"
  shows "(\<forall>e. r = Inl e \<longrightarrow> edits {} s s') \<and> (\<forall>ch. r = Inr ch \<longrightarrow> (\<exists>J. edits J s s') \<and>
     (\<exists>u K. repr E (tview s) (t_len (st_tract s)) (occ (st_tract s)) (h_arena s') 0 ch u K
        \<and> (\<forall>x. tree_lookup x 0 u = (if x = key then Some v else lookup_opt x 0 t))))"
proof -
  have ok: "store_ok s" using h by (simp add: holds_def)
  obtain J where i: "inserted E (occ (st_tract s)) key v 0 t J s r s'"
  proof (cases "h_root s")
    case None
    then have "t = None" using h by (simp add: holds_def)
    then show thesis using that insert_none [OF ok leaf] run None by auto
  next
    case (Some ch)
    then obtain u J where u: "t = Some u" "repr E (tview s) (t_len (st_tract s)) (occ (st_tract s)) (h_arena s) 0 ch u J"
      using h by (auto simp: holds_def)
    have "sees_on s (tview s) (t_len (st_tract s)) (h_arena s) J"
      using ok repr_footprint [OF u(2)] by (auto simp: sees_on_def)
    moreover have "insert_child E (Some ch) 0 key leaf s = (r, s')" using run Some by simp
    ultimately have "inserted E (occ (st_tract s)) key v 0 (Some u) J s r s'"
      by (rule insert_child_spec [OF u(2) leaf, rule_format])
    then show thesis using that u(1) by simp
  qed
  have "tree_lookup x 0 (insert_opt 0 key v t) = (if x = key then Some v else lookup_opt x 0 t)"
    if "\<forall>u. t = Some u \<longrightarrow> placed key 0 u" for x
    using that tree_lookup_insert by (cases t) auto
  then show ?thesis using i unfolding inserted_def by blast
qed

lemma holds_edits:
  fixes s :: "'z hst_scheme"
  assumes "edits {} s s'" and "holds E s t"
  shows "holds E s' t"
proof -
  have f: "store_ok s'" "tview s' = tview s" "st_tract s' = st_tract s" "h_root s' = h_root s"
    and a: "length (h_arena s) \<le> length (h_arena s')" "\<And>i. i < length (h_arena s) \<Longrightarrow> h_arena s' ! i = h_arena s ! i"
    using assms(1) by (auto simp: edits_def)
  have "repr E V L Oc (h_arena s') d ch u J" if "repr E V L Oc (h_arena s) d ch u J" for V L Oc d ch u J
  proof -
    have "\<forall>i \<in> J. i < length (h_arena s') \<and> h_arena s' ! i = h_arena s ! i" using repr_footprint [OF that] a by fastforce
    then show ?thesis using repr_frame [OF that, of V Oc "h_arena s'"] by blast
  qed
  then show ?thesis using assms(2) f(1) unfolding holds_def f(2-4) by (cases "h_root s") (simp_all, blast)
qed

lemma edits_grows_fields:
  fixes s s' :: "'z hst_scheme"
  shows "edits J s s' \<Longrightarrow> (\<exists>xs. h_removed s' = h_removed s @ xs) \<and> h_added s' = h_added s"
  by (simp add: edits_def)

lemma put_spec:
  fixes s :: "'z hst_scheme"
  assumes run: "put E live key v s = (r, s')" and h: "holds E s t"
    and E: "vsf_ok E" and key: "length key = 32" and small: "length v < U64"
  shows "(\<forall>e. r = Inl e \<longrightarrow> holds E s' t \<and> h_added s' = h_added s \<and> h_removed s' = h_removed s)
    \<and> (\<forall>u. r = Inr u \<longrightarrow> (\<exists>t'. holds E s' (Some t') \<and> (\<forall>x. tree_lookup x 0 t' = (if x = key then Some v else lookup_opt x 0 t))))"
proof -
  have ok: "store_ok s" using h by (simp add: holds_def)
  let ?undo = "\<lambda>s1. s1\<lparr>h_added := take (length (h_added s)) (h_added s1), h_removed := take (length (h_removed s)) (h_removed s1)\<rparr>"
  have keep: "holds E (?undo s1) t" if "holds E s1 t" for s1 :: "'z hst_scheme"
    using that by (cases "h_root s1") (simp_all add: holds_def)
  obtain r1 s1 where r1: "put_inner E live key v s = (r1, s1)" by (cases "put_inner E live key v s")
  have fin: "s' = (case r1 of Inl _ \<Rightarrow> ?undo s1 | Inr _ \<Rightarrow> s1)" "r = r1"
    using run r1 by (auto simp: put_def split: sum.splits)
  from r1 show ?thesis unfolding put_inner_def
  proof (cases rule: bindE_cases)
    case (err e)
    have "grows s s1" using put_value_spec [OF err(1) ok E key small] by (simp add: put_ok_def)
    then show ?thesis using fin err(2) keep holds_grows [OF _ h] by (auto simp: grows_def)
  next
    case (ok x s2)
    obtain lba hash where x: "x = (lba, hash)" by (cases x)
    have p: "grows s s2" "leaf_ptr E (tview s2) (t_len (st_tract s2)) (occ (st_tract s2)) (Committed hash lba) key v"
      using put_value_spec [OF ok(1) \<open>store_ok s\<close> E key small] x by (auto simp: put_ok_def)
    have h2: "holds E s2 t" by (rule holds_grows [OF p(1) h])
    have "bindE (insert_child E (h_root s2) 0 key (Committed hash lba)) (\<lambda>new_root. modE (h_root_update (\<lambda>_. Some new_root))) s2 = (r1, s1)"
      using ok(2) x by (simp add: bindE_def getE_def)
    then show ?thesis
    proof (cases rule: bindE_cases)
      case (err e)
      then have ed: "edits {} s2 s1" using insert_root [OF err(1) h2 p(2)] by simp
      obtain xs ys where "h_added s1 = h_added s @ xs" "h_removed s1 = h_removed s @ ys"
        using p(1) ed unfolding grows_def edits_def by metis
      then have "h_added (?undo s1) = h_added s" "h_removed (?undo s1) = h_removed s" by simp_all
      moreover have "holds E (?undo s1) t" by (rule keep [OF holds_edits [OF ed h2]])
      ultimately show ?thesis using fin err(2) by simp
    next
      case (ok ch s3)
      obtain J u K where u: "edits J s2 s3" "repr E (tview s2) (t_len (st_tract s2)) (occ (st_tract s2)) (h_arena s3) 0 ch u K"
        "\<forall>x. tree_lookup x 0 u = (if x = key then Some v else lookup_opt x 0 t)"
        using insert_root [OF ok(1) h2 p(2)] by blast
      have s1: "s1 = h_root_update (\<lambda>_. Some ch) s3" "r1 = Inr ()" using ok(2) by (auto simp: modE_def)
      have "holds E s1 (Some u)"
        using u(1,2) s1 by (auto simp: holds_def edits_def store_ok_def tview_def)
      then show ?thesis using fin s1 u(3) by auto
    qed
  qed
qed

end
