(* ===== verification/Hamt_Delete.thy ===== *)
theory Hamt_Delete
  imports Hamt_Put
begin

text \<open>
  Deleting refines the map removal: \<open>find_leaf\<close> finds a key exactly when the tree holds it, and
  \<open>prune\<close> along the key unlinks that leaf and nothing else.
\<close>

section \<open>Finding the leaf\<close>

lemma find_leaf_from_spec:
  assumes "repr E V L Oc A d ch t J"
  shows "\<forall>(s :: 'z hst_scheme) r s'. sees_on s V L A J \<longrightarrow> find_leaf_from E key d ch s = (r, s') \<longrightarrow>
     after_reads s s' \<and> (\<forall>x. r = Inr x \<longrightarrow> (x = None \<longleftrightarrow> tree_lookup key d t = None)
       \<and> (\<forall>lba h. x = Some (lba, h) \<longrightarrow> (\<exists>v. leaf_ptr E V L Oc (Committed h lba) key v \<and> tree_lookup key d t = Some v)))"
  using assms
proof (induction rule: repr.induct)
  case (repr_gone lba h d)
  show ?case
  proof (intro allI impI)
    fix s :: "'z hst_scheme" and r s'
    assume so: "sees_on s V L A {}" and run: "find_leaf_from E key d (Committed h lba) s = (r, s')"
    show "after_reads s s' \<and> (\<forall>x. r = Inr x \<longrightarrow> (x = None \<longleftrightarrow> tree_lookup key d TGone = None)
       \<and> (\<forall>lba h. x = Some (lba, h) \<longrightarrow> (\<exists>v. leaf_ptr E V L Oc (Committed h lba) key v \<and> tree_lookup key d TGone = Some v)))"
      using run unfolding find_leaf_from.simps
      by (cases rule: read_doc_bind [OF _ sees_on_sees [OF so] repr_gone(2), consumes 1]) (auto simp: retE_run)
  qed
next
  case (repr_leaf lba h doc k w d)
  show ?case
  proof (intro allI impI)
    fix s :: "'z hst_scheme" and r s'
    assume so: "sees_on s V L A {}" and run: "find_leaf_from E key d (Committed h lba) s = (r, s')"
    have lp: "leaf_ptr E V L Oc (Committed h lba) k w" using repr_leaf by (auto simp: leaf_ptr_def)
    show "after_reads s s' \<and> (\<forall>x. r = Inr x \<longrightarrow> (x = None \<longleftrightarrow> tree_lookup key d (TLeaf k w) = None)
       \<and> (\<forall>lba h. x = Some (lba, h) \<longrightarrow> (\<exists>v. leaf_ptr E V L Oc (Committed h lba) key v \<and> tree_lookup key d (TLeaf k w) = Some v)))"
      using run unfolding find_leaf_from.simps
    proof (cases rule: read_doc_bind [OF _ sees_on_sees [OF so] repr_leaf(2), consumes 1, case_names err ok])
      case (ok s1)
      have "r = Inr (if k = key then Some (lba, h) else None) \<and> s' = s1"
        using ok(3) repr_leaf(3) by (cases doc) (auto simp: leaf_doc_def retE_run)
      then show ?thesis using ok(2) lp by auto
    qed auto
  qed
next
  case (repr_node lba h n d ts)
  show ?case
  proof (intro allI impI)
    fix s :: "'z hst_scheme" and r s'
    assume so: "sees_on s V L A {}" and run: "find_leaf_from E key d (Committed h lba) s = (r, s')"
    show "after_reads s s' \<and> (\<forall>x. r = Inr x \<longrightarrow> (x = None \<longleftrightarrow> tree_lookup key d (TNode ts) = None)
       \<and> (\<forall>lba h. x = Some (lba, h) \<longrightarrow> (\<exists>v. leaf_ptr E V L Oc (Committed h lba) key v \<and> tree_lookup key d (TNode ts) = Some v)))"
      using run unfolding find_leaf_from.simps
    proof (cases rule: read_doc_bind [OF _ sees_on_sees [OF so] repr_node(2), consumes 1, case_names err ok])
      case (ok s1)
      have so1: "sees_on s1 V L A {}" using ok(1) by (simp add: sees_on_def sees_def)
      show ?thesis
      proof (cases rule: chunk_cases [of key d])
        case (deep e)
        then show ?thesis using ok repr_node(3) by (auto simp: node_at_depth_def bindE_def liftE_def raiseE_def)
      next
        case ck: ok
        have run1: "(case n_children n ! ck key d of None \<Rightarrow> retE None | Some child \<Rightarrow> find_leaf_from E key (Suc d) child) s1 = (r, s')"
          using ok(3) ck child_at_ok [OF repr_node(5)] repr_node(3) by (simp add: node_at_depth_def bindE_def liftE_def)
        note slot = repr_node.IH [rule_format, OF chunk_less [of key d]]
        show ?thesis
        proof (cases "n_children n ! ck key d")
          case None
          then show ?thesis using run1 slot ok(2) by (auto simp: retE_run tree_lookup_node [OF repr_node(6)] simp del: tree_lookup.simps(3))
        next
          case (Some c)
          then obtain u where u: "ts ! ck key d = Some u" and IH: "after_reads s1 s' \<and> (\<forall>x. r = Inr x \<longrightarrow> (x = None \<longleftrightarrow> tree_lookup key (Suc d) u = None)
              \<and> (\<forall>lba h. x = Some (lba, h) \<longrightarrow> (\<exists>v. leaf_ptr E V L Oc (Committed h lba) key v \<and> tree_lookup key (Suc d) u = Some v)))"
            using slot run1 so1 by auto
          then show ?thesis using after_reads_trans [OF ok(2)] by (simp add: tree_lookup_node [OF repr_node(6)] del: tree_lookup.simps(3))
        qed
      qed
    qed auto
  qed
next
  case (repr_dirty idx n d ts I J)
  show ?case
  proof (intro allI impI)
    fix s :: "'z hst_scheme" and r s'
    assume so: "sees_on s V L A J" and run: "find_leaf_from E key d (Dirty idx) s = (r, s')"
    have J: "J = insert idx (\<Union>c \<in> {..<32}. I c)" by (rule repr_dirty.hyps)
    have at: "idx < length (h_arena s)" "h_arena s ! idx = n" using so J repr_dirty.hyps by (auto simp: sees_on_def)
    have ar: "after_reads s s" using so by (simp add: sees_on_def after_reads_refl)
    show "after_reads s s' \<and> (\<forall>x. r = Inr x \<longrightarrow> (x = None \<longleftrightarrow> tree_lookup key d (TNode ts) = None)
       \<and> (\<forall>lba h. x = Some (lba, h) \<longrightarrow> (\<exists>v. leaf_ptr E V L Oc (Committed h lba) key v \<and> tree_lookup key d (TNode ts) = Some v)))"
    proof (cases rule: chunk_cases [of key d])
      case (deep e)
      then show ?thesis using run arena_get_run [OF at(1)] ar by (auto simp: bindE_def raiseE_def)
    next
      case ck: ok
      have run1: "(case n_children n ! ck key d of None \<Rightarrow> retE None | Some child \<Rightarrow> find_leaf_from E key (Suc d) child) s = (r, s')"
        using run arena_get_run [OF at(1)] at(2) ck child_at_ok [OF repr_dirty(5)] by (simp add: bindE_def liftE_def)
      have c32: "ck key d < 32" by (rule chunk_less)
      have so1: "sees_on s V L A (I (ck key d))" using sees_on_sub [OF so] J c32 by blast
      note slot = repr_dirty.IH [rule_format, OF c32]
      show ?thesis
      proof (cases "n_children n ! ck key d")
        case None
        then show ?thesis using run1 slot ar by (auto simp: retE_run tree_lookup_node [OF repr_dirty(6)] simp del: tree_lookup.simps(3))
      next
        case (Some c)
        then obtain u where u: "ts ! ck key d = Some u" and IH: "after_reads s s' \<and> (\<forall>x. r = Inr x \<longrightarrow> (x = None \<longleftrightarrow> tree_lookup key (Suc d) u = None)
            \<and> (\<forall>lba h. x = Some (lba, h) \<longrightarrow> (\<exists>v. leaf_ptr E V L Oc (Committed h lba) key v \<and> tree_lookup key (Suc d) u = Some v)))"
          using slot run1 so1 by auto
        then show ?thesis by (simp add: tree_lookup_node [OF repr_dirty(6)] del: tree_lookup.simps(3))
      qed
    qed
  qed
qed

section \<open>Pruning\<close>

declare prune_child.simps [simp del]

definition pruned :: "vsf_env \<Rightarrow> nat set \<Rightarrow> hash \<Rightarrow> nat \<Rightarrow> tree option \<Rightarrow> nat set \<Rightarrow> 'z hst_scheme \<Rightarrow> (child option) result \<Rightarrow> 'z hst_scheme \<Rightarrow> bool" where
  "pruned E Oc key d t J s r s' \<longleftrightarrow> (\<forall>e. r = Inl e \<longrightarrow> edits {} s s')
     \<and> (\<forall>c. r = Inr c \<longrightarrow> edits J s s' \<and> (\<exists>J'. J' \<subseteq> J \<union> {length (h_arena s) ..< length (h_arena s')}
        \<and> ((c = None \<and> t = None \<and> J' = {})
          \<or> (\<exists>ch u. c = Some ch \<and> t = Some u \<and> repr E (tview s) (t_len (st_tract s)) Oc (h_arena s') d ch u J'))))"

text \<open>An edit below one slot of a dirty node that is in the arena.\<close>

lemma prune_slot:
  fixes s :: "'z hst_scheme"
  assumes run: "bindE f (\<lambda>new_sub.
      bindE (modE (arena_set idx c new_sub)) (\<lambda>_. retE (Some (Dirty idx)))) s = (r, s')"
    and sl: "slots_ok E V L Oc (h_arena s) (Suc d) (n_children n) ts I"
    and idx: "idx < length (h_arena s)" "h_arena s ! idx = n" "n_depth n = d" "length (n_route n) = 32" "\<forall>c < 32. idx \<notin> I c" "d < MAX_DEPTH"
    and c: "c = ck key d" and vw: "tview s = V" "t_len (st_tract s) = L"
    and IH: "\<And>q s1. f s = (q, s1) \<Longrightarrow> pruned E Oc key (Suc d) t (I c) s q s1"
  shows "pruned E Oc key d (Some (TNode (ts[c := t]))) (insert idx (\<Union>c \<in> {..<32}. I c)) s r s'"
  using run
proof (cases rule: bindE_cases)
  case (err e)
  then show ?thesis using IH [OF err(1)] by (simp add: pruned_def)
next
  case (ok new s1)
  have c32: "c < 32" unfolding c by (rule chunk_less)
  from IH [OF ok(1)] obtain K where K: "edits (I c) s s1" "K \<subseteq> I c \<union> {length (h_arena s) ..< length (h_arena s1)}"
    "(new = None \<and> t = None \<and> K = {}) \<or> (\<exists>ch u. new = Some ch \<and> t = Some u \<and> repr E V L Oc (h_arena s1) (Suc d) ch u K)"
    unfolding pruned_def vw by blast
  have s': "r = Inr (Some (Dirty idx))" "s' = arena_set idx c new s1" using ok(2) by (auto simp: bindE_def modE_def retE_def)
  show ?thesis using slot_edit [OF sl idx c32 K(1,3,2)] s' vw by (auto simp: pruned_def)
qed

lemma pruned_shift:
  fixes s :: "'z hst_scheme"
  assumes "edits {} s s1" and "pruned E Oc key d t J s1 r s'" and "J \<subseteq> J' \<union> {length (h_arena s) ..< length (h_arena s1)}"
  shows "pruned E Oc key d t J' s r s'"
proof -
  have f: "tview s1 = tview s" "st_tract s1 = st_tract s" "length (h_arena s) \<le> length (h_arena s1)" using assms(1) by (auto simp: edits_def)
  have "edits J' s s'" if "edits J s1 s'"
    using assms(1,3) that by (auto simp: edits_def subset_eq)
  moreover have "edits {} s s'" if "edits {} s1 s'" using edits_trans_same [OF assms(1) that] .
  moreover have "K \<subseteq> J' \<union> {length (h_arena s) ..< length (h_arena s')}"
    if "K \<subseteq> J \<union> {length (h_arena s1) ..< length (h_arena s')}" "edits J s1 s'" for K
    using that assms(3) f(3) by (fastforce simp: edits_def subset_eq)
  ultimately show ?thesis using assms(2) unfolding pruned_def f by (elim conjE) (intro conjI allI impI; metis)
qed

lemma prune_none: "store_ok s \<Longrightarrow> prune_child E None d key old s = (q, s1) \<Longrightarrow> pruned E Oc key d None {} s q s1"
  by (auto simp: prune_child.simps retE_run pruned_def edits_refl)

lemma prune_child_spec:
  assumes "repr E V L Oc A d ch t J" and leaf: "leaf_ptr E V L Oc (Committed lh ll) key v"
  shows "\<forall>(p :: 'z hst_scheme) p' (s :: 'z hst_scheme) r s'. sees_on p V L A J \<longrightarrow> find_leaf_from E key d ch p = (Inr (Some (ll, lh)), p') \<longrightarrow>
     sees_on s V L A J \<longrightarrow> prune_child E (Some ch) d key (lh, ll) s = (r, s') \<longrightarrow> pruned E Oc key d (tree_prune d key t) J s r s'"
  using assms(1)
proof (induction rule: repr.induct)
  case (repr_gone lba h d)
  show ?case
  proof (intro allI impI)
    fix p p' s :: "'z hst_scheme" and r s'
    assume so: "sees_on p V L A {}" and run: "find_leaf_from E key d (Committed h lba) p = (Inr (Some (ll, lh)), p')"
    show "pruned E Oc key d (tree_prune d key TGone) {} s r s'"
      using run unfolding find_leaf_from.simps
      by (cases rule: read_doc_bind [OF _ sees_on_sees [OF so] repr_gone(2), consumes 1]) (auto simp: retE_run)
  qed
next
  case (repr_leaf lba h doc k w d)
  show ?case
  proof (intro allI impI)
    fix p p' s :: "'z hst_scheme" and r s'
    assume so: "sees_on p V L A {}" and run: "find_leaf_from E key d (Committed h lba) p = (Inr (Some (ll, lh)), p')"
      and ss: "sees_on s V L A {}" and pr: "prune_child E (Some (Committed h lba)) d key (lh, ll) s = (r, s')"
    have "k = key \<and> h = lh \<and> lba = ll" using run unfolding find_leaf_from.simps
    proof (cases rule: read_doc_bind [OF _ sees_on_sees [OF so] repr_leaf(2), consumes 1, case_names err ok])
      case (ok s1)
      then show ?thesis using repr_leaf(3) by (cases doc) (auto simp: leaf_doc_def retE_run split: if_splits)
    qed simp
    then show "pruned E Oc key d (tree_prune d key (TLeaf k w)) {} s r s'"
      using pr ss by (auto simp: prune_child.simps retE_run pruned_def edits_refl sees_on_def)
  qed
next
  case (repr_node lba h n d ts)
  show ?case
  proof (intro allI impI)
    fix p p' s :: "'z hst_scheme" and r s'
    assume so: "sees_on p V L A {}" and run: "find_leaf_from E key d (Committed h lba) p = (Inr (Some (ll, lh)), p')"
      and ss: "sees_on s V L A {}" and pr: "prune_child E (Some (Committed h lba)) d key (lh, ll) s = (r, s')"
    let ?c = "ck key d"
    have c32: "?c < 32" by (rule chunk_less)
    have s: "sees s V L (h_arena s)" and ok0: "store_ok s" and vw: "tview s = V" "t_len (st_tract s) = L"
      using ss by (auto simp: sees_on_def sees_def)
    have other: "\<not> (h = lh \<and> lba = ll)"
      using leaf repr_node(2) leaf_doc_not_node by (fastforce simp: leaf_ptr_def)
    obtain c p1 u where c: "d < 52" "n_children n ! ?c = Some c" "ts ! ?c = Some u" "sees_on p1 V L A {}"
        "find_leaf_from E key (Suc d) c p1 = (Inr (Some (ll, lh)), p')"
      using run unfolding find_leaf_from.simps
    proof (cases rule: read_doc_bind [OF _ sees_on_sees [OF so] repr_node(2), consumes 1, case_names err ok])
      case (ok p1)
      have "d < 52" using ok(3) repr_node(3) chunk_panics [of d key] by (cases "d < 52") (auto simp: node_at_depth_def bindE_def liftE_def raiseE_def)
      moreover from this have "(case n_children n ! ?c of None \<Rightarrow> retE None | Some child \<Rightarrow> find_leaf_from E key (Suc d) child) p1 = (Inr (Some (ll, lh)), p')"
        using ok(3) chunk_ok child_at_ok [OF repr_node(5)] repr_node(3) by (simp add: node_at_depth_def bindE_def liftE_def)
      moreover have "sees_on p1 V L A {}" using ok(1) by (simp add: sees_on_def sees_def)
      ultimately show thesis using that repr_node.IH [rule_format, OF c32] by (auto simp: retE_run split: option.splits)
    qed simp
    show "pruned E Oc key d (tree_prune d key (TNode ts)) {} s r s'"
      using pr other unfolding prune_child.simps fst_conv snd_conv if_not_P [OF other]
    proof (cases rule: read_doc_bind [OF _ s repr_node(2), consumes 1, case_names err ok])
      case (err e)
      then show ?thesis using edits_reads [OF _ ok0] by (simp add: pruned_def)
    next
      case (ok s1)
      have e1: "edits {} s s1" and ok1: "store_ok s1" using edits_reads [OF ok(2)] ok0 edits_ok by blast+
      let ?s2 = "h_removed_update (\<lambda>a. a @ [(lba, h)]) (s1\<lparr>h_arena := h_arena s1 @ [n]\<rparr>)" and ?idx = "length (h_arena s1)"
      have e2: "edits {} s1 ?s2" using ok1 by (simp add: edits_def nth_append)
      have e02: "edits {} s ?s2" using edits_trans_same [OF e1 e2] .
      have so2: "sees_on ?s2 V L A' {}" for A' using edits_ok [OF e02] e02 vw by (auto simp: sees_on_def edits_def)
      have run3: "bindE (prune_child E (n_children n ! ?c) (Suc d) key (lh, ll)) (\<lambda>new_sub.
          bindE (modE (arena_set ?idx ?c new_sub)) (\<lambda>_. retE (Some (Dirty ?idx)))) ?s2 = (r, s')"
        using ok(3) repr_node(3) chunk_ok [OF c(1)] child_at_ok [OF repr_node(5)]
        by (simp add: node_at_depth_def bindE_def liftE_def arena_push_def push_removed_def modE_def)
      have slA: "slots_ok E V L Oc A (Suc d) (n_children n) ts (\<lambda>_. {})"
        using repr_node.IH repr_node.hyps by (intro repr_slots) auto
      have sl: "slots_ok E V L Oc (h_arena ?s2) (Suc d) (n_children n) ts (\<lambda>_. {})" by (rule slots_frame [OF slA]) simp
      have IH: "pruned E Oc key (Suc d) (tree_prune (Suc d) key u) {} ?s2 q s4"
        if "prune_child E (n_children n ! ?c) (Suc d) key (lh, ll) ?s2 = (q, s4)" for q s4
        using repr_node.IH [rule_format, OF c32] c that so2 by auto
      have "pruned E Oc key d (Some (TNode (ts[?c := tree_prune (Suc d) key u]))) {?idx} ?s2 r s'"
        using prune_slot [OF run3 sl, where t = "tree_prune (Suc d) key u"] repr_node(3,4) IH so2 c(1) by (auto simp: sees_on_def MAX_DEPTH_def)
      moreover have "tree_prune d key (TNode ts) = Some (TNode (ts[?c := tree_prune (Suc d) key u]))"
        using c(3) c32 repr_node(6) by simp
      ultimately have "pruned E Oc key d (tree_prune d key (TNode ts)) {?idx} ?s2 r s'" by (simp del: tree_prune.simps)
      then show ?thesis by (rule pruned_shift [OF e02]) (use e1 in \<open>auto simp: edits_def\<close>)
    qed
  qed
next
  case (repr_dirty idx n d ts I J)
  show ?case
  proof (intro allI impI)
    fix p p' s :: "'z hst_scheme" and r s'
    assume so: "sees_on p V L A J" and run: "find_leaf_from E key d (Dirty idx) p = (Inr (Some (ll, lh)), p')"
      and ss: "sees_on s V L A J" and pr: "prune_child E (Some (Dirty idx)) d key (lh, ll) s = (r, s')"
    let ?c = "ck key d"
    have c32: "?c < 32" by (rule chunk_less)
    have vw: "tview s = V" "t_len (st_tract s) = L" using ss by (auto simp: sees_on_def)
    have J: "J = insert idx (\<Union>c \<in> {..<32}. I c)" by (rule repr_dirty.hyps)
    have sub: "I c \<subseteq> J" if "c < 32" for c using J that by blast
    have at: "idx < length (h_arena s)" "h_arena s ! idx = n" "idx < length (h_arena p)" "h_arena p ! idx = n"
      using so ss J repr_dirty.hyps by (auto simp: sees_on_def)
    have d: "d < 52" using run arena_get_run [OF at(3)] chunk_panics [of d key] by (cases "d < 52") (auto simp: bindE_def raiseE_def)
    have "(case n_children n ! ?c of None \<Rightarrow> retE None | Some child \<Rightarrow> find_leaf_from E key (Suc d) child) p = (Inr (Some (ll, lh)), p')"
      using run arena_get_run [OF at(3)] at(4) chunk_ok [OF d] child_at_ok [OF repr_dirty(5)] by (simp add: bindE_def liftE_def)
    then obtain c u where c: "n_children n ! ?c = Some c" "ts ! ?c = Some u" "find_leaf_from E key (Suc d) c p = (Inr (Some (ll, lh)), p')"
      using repr_dirty.IH [rule_format, OF c32] by (auto simp: retE_run split: option.splits)
    have run1: "bindE (prune_child E (n_children n ! ?c) (Suc d) key (lh, ll)) (\<lambda>new_sub.
        bindE (modE (arena_set idx ?c new_sub)) (\<lambda>_. retE (Some (Dirty idx)))) s = (r, s')"
      using pr chunk_ok [OF d] at child_at_ok [OF repr_dirty(5)] arena_get_run [OF at(1)] by (simp add: prune_child.simps bindE_def liftE_def)
    have slA: "slots_ok E V L Oc A (Suc d) (n_children n) ts I"
      using repr_dirty.IH repr_dirty.hyps by (intro repr_slots) auto
    have sl: "slots_ok E V L Oc (h_arena s) (Suc d) (n_children n) ts I"
      using ss sub by (intro slots_frame [OF slA]) (auto simp: sees_on_def)
    have IH: "pruned E Oc key (Suc d) (tree_prune (Suc d) key u) (I ?c) s q s4"
      if "prune_child E (n_children n ! ?c) (Suc d) key (lh, ll) s = (q, s4)" for q s4
      using repr_dirty.IH [rule_format, OF c32] c that sees_on_sub [OF ss sub [OF c32]] sees_on_sub [OF so sub [OF c32]] by auto
    have "pruned E Oc key d (Some (TNode (ts[?c := tree_prune (Suc d) key u]))) J s r s'"
      unfolding J by (rule prune_slot [OF run1 sl at(1,2) repr_dirty(3,4) _ _ refl vw IH]) (use repr_dirty.hyps in auto)
    moreover have "tree_prune d key (TNode ts) = Some (TNode (ts[?c := tree_prune (Suc d) key u]))"
      using c(2) c32 repr_dirty(6) by simp
    ultimately show "pruned E Oc key d (tree_prune d key (TNode ts)) J s r s'" by simp
  qed
qed

section \<open>Delete\<close>

lemma find_leaf_spec:
  fixes s :: "'z hst_scheme"
  assumes run: "find_leaf E key s = (r, s')" and h: "holds E s t"
  shows "after_reads s s' \<and> (\<forall>x. r = Inr x \<longrightarrow> (x = None \<longleftrightarrow> lookup_opt key 0 t = None)
     \<and> (\<forall>lba hash. x = Some (lba, hash) \<longrightarrow> (\<exists>v. leaf_ptr E (tview s) (t_len (st_tract s)) (occ (st_tract s)) (Committed hash lba) key v \<and> lookup_opt key 0 t = Some v)))"
proof (cases "h_root s")
  case None
  then show ?thesis using assms after_reads_refl [of s] by (auto simp: find_leaf_def holds_def)
next
  case (Some ch)
  then obtain u J where u: "t = Some u" "repr E (tview s) (t_len (st_tract s)) (occ (st_tract s)) (h_arena s) 0 ch u J"
    using h by (auto simp: holds_def)
  have so: "sees_on s (tview s) (t_len (st_tract s)) (h_arena s) J"
    using h repr_footprint [OF u(2)] by (auto simp: sees_on_def holds_def)
  have "find_leaf_from E key 0 ch s = (r, s')" using run Some by (simp add: find_leaf_def)
  from find_leaf_from_spec [OF u(2), rule_format, OF so this] show ?thesis using u(1) by simp
qed

lemma prune_spec:
  fixes s p :: "'z hst_scheme"
  assumes run: "prune E key (hash, lba) s = (r, s')" and find: "find_leaf E key p = (Inr (Some (lba, hash)), p')"
    and h: "holds E p t" and ed: "edits {} p s" "h_arena s = h_arena p"
  shows "(\<forall>e. r = Inl e \<longrightarrow> holds E s' t) \<and> (\<forall>u. r = Inr u \<longrightarrow> (\<exists>t'. holds E s' t' \<and>
     (\<forall>x. lookup_opt x 0 t' = (if x = key then None else lookup_opt x 0 t))))"
proof -
  have hs: "holds E s t" by (rule holds_edits [OF ed(1) h])
  have f: "tview s = tview p" "st_tract s = st_tract p" "h_root s = h_root p" "store_ok s" using ed(1) by (auto simp: edits_def)
  obtain ch where ch: "h_root p = Some ch" using find by (cases "h_root p") (auto simp: find_leaf_def)
  then obtain u J where u: "t = Some u" "repr E (tview p) (t_len (st_tract p)) (occ (st_tract p)) (h_arena p) 0 ch u J"
    using h by (auto simp: holds_def)
  have so: "sees_on p (tview p) (t_len (st_tract p)) (h_arena p) J" "sees_on s (tview p) (t_len (st_tract p)) (h_arena p) J"
    using h repr_footprint [OF u(2)] f ed(2) by (auto simp: sees_on_def holds_def)
  have fl: "find_leaf_from E key 0 ch p = (Inr (Some (lba, hash)), p')" using find ch by (simp add: find_leaf_def)
  obtain v where v: "leaf_ptr E (tview p) (t_len (st_tract p)) (occ (st_tract p)) (Committed hash lba) key v"
    using find_leaf_spec [OF find h] by blast
  have "bindE (prune_child E (Some ch) 0 key (hash, lba)) (\<lambda>new_root. modE (h_root_update (\<lambda>_. new_root))) s = (r, s')"
    using run ch f(3) by (simp add: prune_def bindE_def getE_def)
  then show ?thesis
  proof (cases rule: bindE_cases)
    case (err e)
    have "pruned E (occ (st_tract p)) key 0 (tree_prune 0 key u) J s (Inl e) s'"
      by (rule prune_child_spec [OF u(2) v, rule_format, OF so(1) fl so(2) err(1)])
    then have "edits {} s s'" by (simp add: pruned_def)
    then show ?thesis using err(2) holds_edits [OF _ hs] by simp
  next
    case (ok new s1)
    have pr: "pruned E (occ (st_tract p)) key 0 (tree_prune 0 key u) J s (Inr new) s1"
      by (rule prune_child_spec [OF u(2) v, rule_format, OF so(1) fl so(2) ok(1)])
    then obtain K where K: "edits J s s1" "(new = None \<and> tree_prune 0 key u = None)
        \<or> (\<exists>c w. new = Some c \<and> tree_prune 0 key u = Some w \<and> repr E (tview s) (t_len (st_tract s)) (occ (st_tract p)) (h_arena s1) 0 c w K)"
      unfolding pruned_def by blast
    have s': "s' = h_root_update (\<lambda>_. new) s1" "r = Inr ()" using ok(2) by (auto simp: modE_def)
    have "holds E s' (tree_prune 0 key u)" using K f s'(1) by (auto simp: holds_def edits_def)
    then show ?thesis using tree_lookup_prune [OF repr_full [OF u(2)], of _ 0 key] u(1) s'(2) by auto
  qed
qed

lemma delete_spec:
  fixes s :: "'z hst_scheme"
  assumes run: "hamt_delete E key UnlinkOnly s = (r, s')" and h: "holds E s t"
  shows "(\<forall>e. r = Inl e \<longrightarrow> holds E s' t)
    \<and> (r = Inr False \<longrightarrow> lookup_opt key 0 t = None \<and> holds E s' t \<and> h_added s' = h_added s \<and> h_removed s' = h_removed s)
    \<and> (r = Inr True \<longrightarrow> lookup_opt key 0 t \<noteq> None \<and> (\<exists>t'. holds E s' t' \<and>
         (\<forall>x. lookup_opt x 0 t' = (if x = key then None else lookup_opt x 0 t))))"
  using run unfolding hamt_delete_def
proof (cases rule: bindE_cases)
  case (err e)
  then show ?thesis using find_leaf_spec [OF err(1) h] holds_reads [OF _ h] by auto
next
  case (ok found s1)
  note fl = find_leaf_spec [OF ok(1) h]
  have ar: "after_reads s s1" and ok0: "store_ok s" using fl h by (auto simp: holds_def)
  have h1: "holds E s1 t" by (rule holds_reads [OF ar h])
  have ok1: "store_ok s1" using h1 by (simp add: holds_def)
  show ?thesis
  proof (cases found)
    case None
    then have "r = Inr False" "s' = s1" using ok(2) by (auto simp: retE_run)
    then show ?thesis using fl None h1 after_reads_fields [OF ar] by simp
  next
    case (Some x)
    obtain lba hash where x: "x = (lba, hash)" by (cases x)
    have there: "lookup_opt key 0 t \<noteq> None" using fl Some by auto
    from ok(2) Some x have "bindE (remove_leaf_blocks E lba hash) (\<lambda>_. bindE (prune E key (hash, lba)) (\<lambda>_. retE True)) s1 = (r, s')"
      by (simp add: bindE_retE)
    then show ?thesis
    proof (cases rule: bindE_cases)
      case (err e)
      then show ?thesis using remove_leaf_blocks_edits [OF err(1) ok1] holds_edits [OF _ h1] by auto
    next
      case (ok u s2)
      have ed: "edits {} s s2" "h_arena s2 = h_arena s"
        using remove_leaf_blocks_edits [OF ok(1) ok1] edits_trans_same [OF edits_reads [OF ar ok0]] after_reads_fields [OF ar] by auto
      have find: "find_leaf E key s = (Inr (Some (lba, hash)), s1)" using \<open>find_leaf E key s = (Inr found, s1)\<close> Some x by simp
      from ok(2) show ?thesis
      proof (cases rule: bindE_cases)
        case (err e)
        then show ?thesis using prune_spec [OF err(1) find h ed] by auto
      next
        case (ok u s3)
        then show ?thesis using prune_spec [OF ok(1) find h ed] there by (auto simp: retE_run)
      qed
    qed
  qed
qed

end
