(* ===== verification/Hamt_Flush.thy ===== *)
theory Hamt_Flush
  imports Hamt_Delete
begin

text \<open>
  Flushing the dirty nodes keeps the tree: a flush that returns leaves the whole tree on the medium
  under the hash and position it returns; one that stops half-way leaves the same tree, part of it
  already on the medium, so that it can be resumed.
\<close>

section \<open>What a flush may change\<close>

definition flushed :: "nat set \<Rightarrow> 'z hst_scheme \<Rightarrow> 'z hst_scheme \<Rightarrow> bool" where
  "flushed J s s' \<longleftrightarrow> store_ok s' \<and> (\<forall>p \<in> occ (st_tract s). tview s' p = tview s p)
     \<and> occ (st_tract s) \<subseteq> occ (st_tract s') \<and> t_len (st_tract s') = t_len (st_tract s)
     \<and> h_root s' = h_root s \<and> h_removed s' = h_removed s \<and> (\<exists>xs. h_added s' = h_added s @ xs)
     \<and> length (h_arena s') = length (h_arena s)
     \<and> (\<forall>i < length (h_arena s). i \<notin> J \<longrightarrow> h_arena s' ! i = h_arena s ! i)"

lemma flushed_refl: "store_ok s \<Longrightarrow> flushed J s s"
  by (simp add: flushed_def)

lemma flushed_trans:
  fixes s :: "'z hst_scheme"
  assumes "flushed J s s1" and "flushed J s1 s2"
  shows "flushed J s s2"
  using assms by (auto simp: flushed_def subset_iff)

lemma flushed_mono: "flushed I s s' \<Longrightarrow> I \<subseteq> J \<Longrightarrow> flushed J s s'"
  unfolding flushed_def by blast

lemma grows_flushed: "grows s s' \<Longrightarrow> flushed J s s'"
  by (simp add: grows_def flushed_def)

lemma flushed_ok: "flushed J s s' \<Longrightarrow> store_ok s'"
  by (simp add: flushed_def)

lemma flushed_set:
  fixes s :: "'z hst_scheme"
  shows "store_ok s \<Longrightarrow> flushed {idx} s (arena_set idx c ch s)"
  by (simp add: flushed_def arena_set_def)

abbreviation tree_at :: "vsf_env \<Rightarrow> 'z hst_scheme \<Rightarrow> nat \<Rightarrow> child \<Rightarrow> tree \<Rightarrow> nat set \<Rightarrow> bool" where
  "tree_at E s \<equiv> repr E (tview s) (t_len (st_tract s)) (occ (st_tract s)) (h_arena s)"

abbreviation slots_at :: "vsf_env \<Rightarrow> 'z hst_scheme \<Rightarrow> nat \<Rightarrow> child option list \<Rightarrow> tree option list \<Rightarrow> (nat \<Rightarrow> nat set) \<Rightarrow> bool" where
  "slots_at E s \<equiv> slots_ok E (tview s) (t_len (st_tract s)) (occ (st_tract s)) (h_arena s)"

lemma flushed_tree:
  fixes s :: "'z hst_scheme"
  assumes "tree_at E s d ch t K" and "flushed J s s'" and "K \<inter> J = {}"
  shows "tree_at E s' d ch t K"
proof -
  have f: "t_len (st_tract s') = t_len (st_tract s)" "\<forall>p \<in> occ (st_tract s). tview s' p = tview s p" "occ (st_tract s) \<subseteq> occ (st_tract s')"
    using assms(2) by (auto simp: flushed_def)
  have "\<forall>i \<in> K. i < length (h_arena s') \<and> h_arena s' ! i = h_arena s ! i"
  proof
    fix i assume i: "i \<in> K"
    then have "i < length (h_arena s)" "i \<notin> J" using repr_footprint [OF assms(1)] assms(3) by auto
    then show "i < length (h_arena s') \<and> h_arena s' ! i = h_arena s ! i" using assms(2) by (simp add: flushed_def)
  qed
  then show ?thesis using repr_frame [OF assms(1) f(2,3)] f(1) by simp
qed

text \<open>One slot changes, the others are carried over.\<close>

lemma slots_move:
  fixes s :: "'z hst_scheme"
  assumes sl: "slots_at E s d cs ts I" and c: "c < 32" and fl: "flushed (I c) s s'"
    and new: "(ch = None \<and> t = None \<and> K = {}) \<or> (\<exists>h u. ch = Some h \<and> t = Some u \<and> tree_at E s' d h u K)" and K: "K \<subseteq> I c"
  shows "slots_at E s' d (cs[c := ch]) (ts[c := t]) (I(c := K))"
proof -
  have dis: "I b \<inter> I c = {}" if "b < 32" "b \<noteq> c" for b using sl that c by (simp add: slots_ok_def)
  have "slots_at E s' d (cs[c := None]) (ts[c := None]) (I(c := {}))"
    using sl c flushed_tree [OF _ fl] dis unfolding slots_ok_def by (auto simp: nth_list_update)
  then have "slots_at E s' d ((cs[c := None])[c := ch]) ((ts[c := None])[c := t]) ((I(c := {}))(c := K))"
    by (rule slots_update [OF _ c new]) (use K dis in auto)
  then show ?thesis by simp
qed

lemma committed_repr:
  assumes "repr E V L Oc A d (Committed h lba) t J"
  shows "J = {} \<and> lba \<in> Oc \<and> length h = 32"
proof -
  have "length h = 32" if "doc_of E (V lba) h L = Inr (Some doc)" for doc
    using that by (auto simp: doc_of_def sealed_hp_def bindR_eq_Inr split: if_splits option.splits VsfType.splits)
  then show ?thesis using assms by (auto elim: repr_committedE)
qed

lemma occ_less: "store_ok s \<Longrightarrow> p \<in> occ (st_tract s) \<Longrightarrow> p < t_len (st_tract s)"
  by (auto simp: occ_def store_ok_def tract_wf_def)

lemma arena_set_view [simp]:
  fixes s :: "'z hst_scheme"
  shows "tview (arena_set idx c ch s) = tview s" "st_tract (arena_set idx c ch s) = st_tract s"
  by (simp_all add: arena_set_def)

section \<open>The children first\<close>

definition clean_slot :: "nat \<Rightarrow> 'z hst_scheme \<Rightarrow> nat \<Rightarrow> bool" where
  "clean_slot idx s c \<longleftrightarrow> (\<forall>sub. n_children (h_arena s ! idx) ! c \<noteq> Some (Dirty sub))"

text \<open>The state while the children of the node at \<open>idx\<close> are being flushed, from \<open>s\<close> on.\<close>

definition flushing :: "vsf_env \<Rightarrow> nat \<Rightarrow> nat \<Rightarrow> tree option list \<Rightarrow> (nat \<Rightarrow> nat set) \<Rightarrow> 'z hst_scheme \<Rightarrow> 'z hst_scheme \<Rightarrow> bool" where
  "flushing E d idx ts I s st \<longleftrightarrow> flushed (insert idx (\<Union>c \<in> {..<32}. I c)) s st
     \<and> idx < length (h_arena st) \<and> n_depth (h_arena st ! idx) = d \<and> length (n_route (h_arena st ! idx)) = 32
     \<and> (\<exists>I'. (\<forall>c < 32. I' c \<subseteq> I c) \<and> slots_at E st (Suc d) (n_children (h_arena st ! idx)) ts I')"

definition flush_step :: "nat \<Rightarrow> vsf_env \<Rightarrow> liveness \<Rightarrow> nat \<Rightarrow> nat \<Rightarrow> ('z hst_scheme, unit) op" where
  "flush_step n E live idx c = bindE (arena_get idx) (\<lambda>node. bindE (liftE (child_at node c)) (\<lambda>ch. case ch of
     Some (Dirty sub) \<Rightarrow> bindE (flush_node n E live sub) (set_committed idx c)
   | _ \<Rightarrow> retE ()))"

definition node_flushed :: "vsf_env \<Rightarrow> nat \<Rightarrow> nat \<Rightarrow> tree \<Rightarrow> nat set \<Rightarrow> 'z hst_scheme \<Rightarrow> (hash \<times> nat) result \<Rightarrow> 'z hst_scheme \<Rightarrow> bool" where
  "node_flushed E d idx t J s r s' \<longleftrightarrow> flushed J s s'
     \<and> (\<forall>e. r = Inl e \<longrightarrow> (\<exists>J' \<subseteq> J. tree_at E s' d (Dirty idx) t J'))
     \<and> (\<forall>h lba. r = Inr (h, lba) \<longrightarrow> tree_at E s' d (Committed h lba) t {})"

text \<open>A child that has been flushed is put into its slot.\<close>

lemma slot_committed:
  fixes st s1 :: "'z hst_scheme"
  assumes sl: "slots_at E st (Suc d) (n_children (h_arena st ! idx)) ts I" and c: "c < 32" and idx: "idx < length (h_arena st)" "\<forall>b < 32. idx \<notin> I b"
    and fl: "flushed (I c) st s1" and u: "ts ! c = Some u" "tree_at E s1 (Suc d) (Committed h lba) u {}"
    and st': "st' = arena_set idx c (Some (Committed h lba)) s1"
  shows "slots_at E st' (Suc d) (n_children (h_arena st' ! idx)) ts (I(c := {}))"
    and "h_arena st' = (h_arena s1)[idx := (h_arena st ! idx)\<lparr>n_children := (n_children (h_arena st ! idx))[c := Some (Committed h lba)]\<rparr>]"
    and "length (h_arena s1) = length (h_arena st)"
proof -
  let ?n = "h_arena st ! idx"
  have same: "h_arena s1 ! idx = ?n" "length (h_arena s1) = length (h_arena st)" using fl idx c by (auto simp: flushed_def)
  then show "length (h_arena s1) = length (h_arena st)" by simp
  show ar: "h_arena st' = (h_arena s1)[idx := ?n\<lparr>n_children := (n_children ?n)[c := Some (Committed h lba)]\<rparr>]"
    using st' same by (simp add: arena_set_def)
  have sl1: "slots_at E s1 (Suc d) ((n_children ?n)[c := Some (Committed h lba)]) (ts[c := Some u]) (I(c := {}))"
    using u(2) by (intro slots_move [OF sl c fl]) auto
  have "\<forall>b < 32. \<forall>i \<in> (I(c := {})) b. i < length (h_arena st') \<and> h_arena st' ! i = h_arena s1 ! i"
  proof (intro allI impI ballI)
    fix b i assume b: "b < 32" "i \<in> (I(c := {})) b"
    then have "i < length (h_arena s1)" "i \<noteq> idx"
      using subsetD [OF slots_footprint [OF sl1 b(1)] b(2)] idx by (auto split: if_splits)
    then show "i < length (h_arena st') \<and> h_arena st' ! i = h_arena s1 ! i" by (simp add: ar)
  qed
  from slots_frame [OF sl1 this] have "slots_ok E (tview s1) (t_len (st_tract s1)) (occ (st_tract s1)) (h_arena st') (Suc d) ((n_children ?n)[c := Some (Committed h lba)]) ts (I(c := {}))"
    using u(1) list_update_id [of ts c] by (simp del: fun_upd_apply)
  then show "slots_at E st' (Suc d) (n_children (h_arena st' ! idx)) ts (I(c := {}))"
    using idx(1) same(2) unfolding ar by (simp add: st' del: fun_upd_apply)
qed

lemma flush_step_spec:
  fixes s st :: "'z hst_scheme"
  assumes inv: "flushing E d idx ts I s st" and run: "flush_step n E live idx c st = (r, st')" and c: "c < 32"
    and idx: "\<forall>c < 32. idx \<notin> I c"
    and IH: "\<And>sub t J q s1. tree_at E st (Suc d) (Dirty sub) t J \<Longrightarrow> flush_node n E live sub st = (q, s1) \<Longrightarrow> node_flushed E (Suc d) sub t J st q s1"
  shows "flushing E d idx ts I s st' \<and> (\<forall>u. r = Inr u \<longrightarrow> clean_slot idx st' c)
    \<and> (\<forall>b < 32. b \<noteq> c \<longrightarrow> clean_slot idx st b \<longrightarrow> clean_slot idx st' b)"
proof -
  let ?J = "insert idx (\<Union>c \<in> {..<32}. I c)" and ?n = "h_arena st ! idx"
  from inv obtain I' where fl: "flushed ?J s st" and at: "idx < length (h_arena st)" "n_depth ?n = d" "length (n_route ?n) = 32"
    and I': "\<forall>c < 32. I' c \<subseteq> I c" and sl: "slots_at E st (Suc d) (n_children ?n) ts I'" by (auto simp: flushing_def)
  have len: "length (n_children ?n) = 32" "length ts = 32" using sl by (auto simp: slots_ok_def)
  have run1: "(case n_children ?n ! c of Some (Dirty sub) \<Rightarrow> bindE (flush_node n E live sub) (set_committed idx c) | _ \<Rightarrow> retE ()) st = (r, st')"
    using run at(1) c len by (simp add: flush_step_def arena_get_def child_at_def bindE_def liftE_def)
  show ?thesis
  proof (cases "\<exists>sub. n_children ?n ! c = Some (Dirty sub)")
    case False
    then have "r = Inr () \<and> st' = st" using run1 by (auto simp: retE_run split: option.splits child.splits)
    then show ?thesis using inv False by (auto simp: clean_slot_def)
  next
    case True
    then obtain sub where sub: "n_children ?n ! c = Some (Dirty sub)" by blast
    then obtain u where u: "ts ! c = Some u" "tree_at E st (Suc d) (Dirty sub) u (I' c)" using sl c by (auto simp: slots_ok_def)
    have no: "idx \<notin> I' c" "I' c \<subseteq> ?J" using I' idx c by auto
    have "bindE (flush_node n E live sub) (set_committed idx c) st = (r, st')" using run1 sub by simp
    then show ?thesis
    proof (cases rule: bindE_cases)
      case (err e)
      have nf: "flushed (I' c) st st'" "\<exists>K \<subseteq> I' c. tree_at E st' (Suc d) (Dirty sub) u K"
        using IH [OF u(2) err(1)] by (auto simp: node_flushed_def)
      then obtain K where K: "K \<subseteq> I' c" "tree_at E st' (Suc d) (Dirty sub) u K" by blast
      have same: "h_arena st' ! idx = ?n" "length (h_arena st') = length (h_arena st)" using nf(1) at(1) no(1) by (auto simp: flushed_def)
      have "slots_at E st' (Suc d) ((n_children ?n)[c := Some (Dirty sub)]) (ts[c := Some u]) (I'(c := K))"
        using K by (intro slots_move [OF sl c nf(1)]) auto
      then have "slots_at E st' (Suc d) (n_children (h_arena st' ! idx)) ts (I'(c := K))"
        using sub u(1) same(1) list_update_id [of "n_children ?n" c] list_update_id [of ts c] by simp
      moreover have "\<forall>b < 32. (I'(c := K)) b \<subseteq> I b" using K(1) I' c by auto
      moreover have "flushed ?J s st'" using flushed_trans [OF fl flushed_mono [OF nf(1) no(2)]] .
      ultimately have "flushing E d idx ts I s st'" using at same unfolding flushing_def by metis
      then show ?thesis using err(2) same(1) by (simp add: clean_slot_def)
    next
      case (ok x s1)
      obtain h lba where x: "x = (h, lba)" by (cases x)
      have nf: "flushed (I' c) st s1" "tree_at E s1 (Suc d) (Committed h lba) u {}"
        using IH [OF u(2) ok(1)] x by (auto simp: node_flushed_def)
      have same: "h_arena s1 ! idx = ?n" "length (h_arena s1) = length (h_arena st)" using nf(1) at(1) no(1) by (auto simp: flushed_def)
      have st': "st' = arena_set idx c (Some (Committed h lba)) s1" "r = Inr ()"
        using ok(2) x by (auto simp: set_committed_def modE_def)
      have no': "\<forall>b < 32. idx \<notin> I' b" using I' idx by blast
      note sc = slot_committed [OF sl c at(1) no' nf(1) u(1) nf(2) st'(1)]
      have ar: "h_arena st' = (h_arena s1)[idx := ?n\<lparr>n_children := (n_children ?n)[c := Some (Committed h lba)]\<rparr>]" by (rule sc(2))
      have "slots_at E st' (Suc d) (n_children (h_arena st' ! idx)) ts (I'(c := {}))" by (rule sc(1))
      moreover have "\<forall>b < 32. (I'(c := {})) b \<subseteq> I b" using I' by auto
      moreover have "flushed ?J s st'"
        unfolding st'(1) by (rule flushed_trans [OF flushed_trans [OF fl flushed_mono [OF nf(1) no(2)]] flushed_mono [OF flushed_set [OF flushed_ok [OF nf(1)]]]]) simp
      moreover have "idx < length (h_arena st')" "n_depth (h_arena st' ! idx) = d" "length (n_route (h_arena st' ! idx)) = 32"
        using at same by (auto simp: ar)
      ultimately have "flushing E d idx ts I s st'" unfolding flushing_def by blast
      then show ?thesis using at(1) same(2) len(1) c by (auto simp: clean_slot_def ar nth_list_update)
    qed
  qed
qed

section \<open>Then the node\<close>

lemma append_node_spec:
  fixes s :: "'z hst_scheme"
  assumes run: "bindE (liftE (encode_node E node)) (\<lambda>block. bindE (tract_append live [block]) (\<lambda>ps.
      bindE (liftE (hp_of E block)) (\<lambda>hash. bindE (push_added [(hd ps, hash)]) (\<lambda>_. retE (hash, hd ps))))) s = (r, s')"
    and ok: "store_ok s" and E: "vsf_ok E" and n: "clean_node node" "\<not> points_past (DocNode node) (t_len (st_tract s))"
  shows "grows s s' \<and> (\<forall>h lba. r = Inr (h, lba) \<longrightarrow> lba \<in> occ (st_tract s')
     \<and> doc_of E (tview s' lba) h (t_len (st_tract s')) = Inr (Some (DocNode node)))"
proof -
  let ?b = "doc_block E SCHEMA_NODE (node_fields node)" and ?h = "blake3 E (doc_body E SCHEMA_NODE (node_fields node))"
  note e = encode_node_ok [OF E n(1)]
  have len: "length ?b = BLOCK" by (rule length_doc_block [OF E node_doc(2) [OF E n(1)]])
  have mk: "(Inr ([?b] ! i) :: block result) = Inr ([?b] ! i) \<and> length ([?b] ! i) = BLOCK" if "i < 1" for i using that len by simp
  have hp: "hp_of E ?b = Inr ?h" using sealed_hp_doc_block [OF E] by (simp add: hp_of_def)
  from run have "bindE (append_with live 1 (\<lambda>i. Inr ([?b] ! i))) (\<lambda>ps. bindE (push_added [(hd ps, ?h)]) (\<lambda>_. retE (?h, hd ps))) s = (r, s')"
    by (simp add: e(1) liftE_Inr bindE_retE hp tract_append_def)
  then show ?thesis
  proof (cases rule: bindE_cases)
    case (err x)
    have "after_reads s s'" by (rule append_cases [OF err(1) ok mk]) auto
    then show ?thesis using err(2) grows_reads [OF _ ok] by simp
  next
    case (ok ps s1)
    have ps: "ps = [t_plow (st_tract s) mod t_len (st_tract s)]" and a: "appended ps (\<lambda>i. [?b] ! i) s s1"
      by (rule append_cases [OF ok(1) \<open>store_ok s\<close> mk]; simp add: placed_at_def)+
    have g1: "grows s s1" "hd ps \<in> occ (st_tract s1)" "tview s1 (hd ps) = ?b" using a ps by (auto simp: appended_def)
    have ok1: "store_ok s1" using g1(1) by (simp add: grows_def)
    have r: "r = Inr (?h, hd ps)" "push_added [(hd ps, ?h)] s1 = (Inr (), s')"
      using ok(2) by (auto simp: bindE_def push_added_def modE_def retE_def)
    note g2 = grows_added [OF r(2) ok1]
    have g: "grows s s'" using grows_trans [OF g1(1)] g2 by blast
    then have L: "t_len (st_tract s') = t_len (st_tract s)" by (simp add: grows_def)
    have doc: "doc_of E ?b ?h (t_len (st_tract s')) = Inr (Some (DocNode node))" using doc_of_block [OF E e(2) n(2)] by (simp add: L)
    have "tview s' (hd ps) = ?b" "hd ps \<in> occ (st_tract s')" using g1 g2 by auto
    then show ?thesis using g r(1) doc by simp
  qed
qed

lemma clean_node_slots:
  fixes s :: "'z hst_scheme"
  assumes sl: "slots_at E s (Suc d) (n_children n) ts I" and ok: "store_ok s"
    and n: "n_depth n = d" "d < MAX_DEPTH" "length (n_route n) = 32" and cl: "\<forall>c < 32. \<forall>sub. n_children n ! c \<noteq> Some (Dirty sub)"
  shows "clean_node n" "\<not> points_past (DocNode n) (t_len (st_tract s))"
    "\<forall>c < 32. (n_children n ! c = None \<and> ts ! c = None) \<or> (\<exists>ch t. n_children n ! c = Some ch \<and> ts ! c = Some t \<and> tree_at E s (Suc d) ch t {})"
proof -
  have len: "length (n_children n) = 32" using sl by (simp add: slots_ok_def)
  have L: "t_len (st_tract s) < 2 ^ 63" using ok by (simp add: store_ok_def)
  have slot: "n_children n ! c = None \<and> ts ! c = None
      \<or> (\<exists>h l t. n_children n ! c = Some (Committed h l) \<and> ts ! c = Some t \<and> tree_at E s (Suc d) (Committed h l) t {}
          \<and> length h = 32 \<and> l < t_len (st_tract s))" if c: "c < 32" for c
  proof (cases "n_children n ! c")
    case None
    then show ?thesis using sl c by (auto simp: slots_ok_def)
  next
    case (Some ch)
    moreover have "n_children n ! c \<noteq> Some (Dirty sub)" for sub using cl c by simp
    ultimately obtain h l where ch: "ch = Committed h l" by (cases ch) auto
    obtain t where t: "ts ! c = Some t" "tree_at E s (Suc d) (Committed h l) t (I c)" using sl c Some ch by (auto simp: slots_ok_def)
    then show ?thesis using committed_repr [OF t(2)] occ_less [OF ok] Some ch by auto
  qed
  have all: "x \<in> set (n_children n) \<Longrightarrow> \<exists>c < 32. n_children n ! c = x" for x using len by (metis in_set_conv_nth)
  show "clean_node n" unfolding clean_node_def clean_child_def using n len L
    by (auto dest!: all) (use slot in \<open>fastforce split: option.splits child.splits\<close>)
  show "\<not> points_past (DocNode n) (t_len (st_tract s))"
    using slot by (fastforce simp: points_past_def list_ex_iff dest!: all split: option.splits child.splits)
  show "\<forall>c < 32. (n_children n ! c = None \<and> ts ! c = None) \<or> (\<exists>ch t. n_children n ! c = Some ch \<and> ts ! c = Some t \<and> tree_at E s (Suc d) ch t {})"
    using slot by blast
qed

lemma flush_node_spec:
  fixes s :: "'z hst_scheme"
  assumes E: "vsf_ok E"
  shows "tree_at E s d (Dirty idx) t J \<Longrightarrow> store_ok s \<Longrightarrow> flush_node fuel E live idx s = (r, s') \<Longrightarrow> node_flushed E d idx t J s r s'"
proof (induction fuel arbitrary: s d idx t J r s')
  case 0
  then show ?case by (auto simp: raiseE_run node_flushed_def flushed_refl)
next
  case (Suc n)
  from Suc.prems(1) obtain nd ts I where at: "idx < length (h_arena s)" "h_arena s ! idx = nd" "n_depth nd = d" "length (n_route nd) = 32"
    and t: "t = TNode ts" and sl: "slots_at E s (Suc d) (n_children nd) ts I" and idx: "\<forall>c < 32. idx \<notin> I c"
    and J: "J = insert idx (\<Union>c \<in> {..<32}. I c)" and d: "d < MAX_DEPTH"
    by (elim repr_dirtyE) (auto simp: slots_ok_def)
  let ?P = "\<lambda>st :: 'z hst_scheme. flushing E d idx ts I s st" and ?Q = "\<lambda>c st. clean_slot idx st c"
  have start: "?P s" using at sl Suc.prems(2) by (auto simp: flushing_def flushed_refl)
  have IH: "node_flushed E (Suc d) sub u K st q s1"
    if "?P st" "tree_at E st (Suc d) (Dirty sub) u K" "flush_node n E live sub st = (q, s1)" for st sub u K q s1
    using Suc.IH [OF that(2) _ that(3)] that(1) flushed_ok by (auto simp: flushing_def)
  have step: "?P st' \<and> (\<forall>u. q = Inr u \<longrightarrow> ?Q c st') \<and> (\<forall>b < 32. b \<noteq> c \<longrightarrow> ?Q b st \<longrightarrow> ?Q b st')"
    if "?P st" "flush_step n E live idx c st = (q, st')" "c < 32" for st q c st'
    by (rule flush_step_spec [OF that idx IH [OF that(1)]])
  have dirty_again: "\<exists>J' \<subseteq> J. tree_at E st d (Dirty idx) t J'" if "?P st" for st :: "'z hst_scheme"
  proof -
    from that obtain I' where I': "\<forall>c < 32. I' c \<subseteq> I c" "slots_at E st (Suc d) (n_children (h_arena st ! idx)) ts I'"
      and st: "idx < length (h_arena st)" "n_depth (h_arena st ! idx) = d" "length (n_route (h_arena st ! idx)) = 32"
      by (auto simp: flushing_def)
    have "\<forall>c < 32. idx \<notin> I' c" using I'(1) idx by blast
    then have "tree_at E st d (Dirty idx) t (insert idx (\<Union>c \<in> {..<32}. I' c))"
      unfolding t by (rule slots_dirty [OF I'(2) st(1) refl st(2,3) _ d])
    moreover have "insert idx (\<Union>c \<in> {..<32}. I' c) \<subseteq> J" unfolding J using I'(1) by blast
    ultimately show ?thesis by blast
  qed
  from Suc.prems(3) have "bindE (forE [0 ..< 32] (flush_step n E live idx)) (\<lambda>_. bindE (arena_get idx) (\<lambda>node.
      bindE (liftE (encode_node E node)) (\<lambda>block. bindE (tract_append live [block]) (\<lambda>ps. bindE (liftE (hp_of E block)) (\<lambda>hash.
      bindE (push_added [(hd ps, hash)]) (\<lambda>_. retE (hash, hd ps))))))) s = (r, s')"
    by (simp add: flush_step_def [abs_def])
  then show ?case
  proof (cases rule: bindE_cases)
    case (err e)
    have "?P s'" by (rule forE_invariant [where P = ?P, OF err(1) start]) (use step in auto)
    then show ?thesis using dirty_again [of s'] err(2) J by (auto simp: node_flushed_def flushing_def)
  next
    case (ok u s1)
    have all: "?P s1 \<and> (\<forall>c \<in> set [0 ..< 32]. ?Q c s1)"
    proof (rule forE_ok_all [where P = ?P and Q = ?Q, OF ok(1) start])
      fix x y st st'
      assume x: "x \<in> set [0 ..< 32]" "y \<in> set [0 ..< 32]" "?P st" "?Q y st" "flush_step n E live idx x st = (Inr (), st')"
      then show "?Q y st'" using step [OF x(3,5)] by (cases "x = y") auto
    qed (use step in auto)
    let ?nd = "h_arena s1 ! idx"
    from all obtain I' where I': "slots_at E s1 (Suc d) (n_children ?nd) ts I'" and fl: "flushed J s s1"
      and st: "idx < length (h_arena s1)" "n_depth ?nd = d" "length (n_route ?nd) = 32" by (auto simp: flushing_def J)
    have cl: "\<forall>c < 32. \<forall>sub. n_children ?nd ! c \<noteq> Some (Dirty sub)" using all by (auto simp: clean_slot_def)
    have ok1: "store_ok s1" by (rule flushed_ok [OF fl])
    note cn = clean_node_slots [OF I' ok1 st(2) d st(3) cl]
    have run2: "bindE (liftE (encode_node E ?nd)) (\<lambda>block. bindE (tract_append live [block]) (\<lambda>ps. bindE (liftE (hp_of E block)) (\<lambda>hash.
        bindE (push_added [(hd ps, hash)]) (\<lambda>_. retE (hash, hd ps))))) s1 = (r, s')"
      using ok(2) st(1) by (simp add: bindE_def arena_get_def)
    note ap = append_node_spec [OF run2 ok1 E cn(1,2)]
    have g: "grows s1 s'" using ap by blast
    have "\<exists>J' \<subseteq> J. tree_at E s' d (Dirty idx) t J'" using dirty_again [of s1] all grows_repr [OF _ g] g by (auto simp: grows_def)
    moreover have "tree_at E s' d (Committed h lba) t {}" if "r = Inr (h, lba)" for h lba
    proof -
      have len: "length (n_children ?nd) = 32" "length ts = 32" using I' by (auto simp: slots_ok_def)
      have "\<forall>c < 32. (n_children ?nd ! c = None \<and> ts ! c = None) \<or> (\<exists>ch t. n_children ?nd ! c = Some ch \<and> ts ! c = Some t \<and> tree_at E s' (Suc d) ch t {})"
        using cn(3) grows_repr [OF _ g] g by (fastforce simp: grows_def)
      then show ?thesis unfolding t using ap that st len by (intro repr_node) auto
    qed
    ultimately show ?thesis using flushed_trans [OF fl grows_flushed [OF g]] by (simp add: node_flushed_def)
  qed
qed

text \<open>The fuel: a node at depth \<open>d\<close> has at most \<open>MAX_DEPTH - d\<close> levels under it, so any fuel beyond that gives
  the same run; \<open>FLUSH_FUEL\<close> is enough for the root.\<close>

lemma flush_node_fuel:
  fixes s :: "'z hst_scheme"
  assumes E: "vsf_ok E"
  shows "tree_at E s d (Dirty idx) t J \<Longrightarrow> store_ok s \<Longrightarrow> MAX_DEPTH - d \<le> n \<Longrightarrow> MAX_DEPTH - d \<le> m \<Longrightarrow>
    flush_node n E live idx s = flush_node m E live idx s"
proof (induction n arbitrary: s d idx t J m)
  case 0
  then show ?case by (auto elim: repr_dirtyE)
next
  case (Suc n)
  from Suc.prems(1) obtain nd ts I where at: "idx < length (h_arena s)" "h_arena s ! idx = nd" "n_depth nd = d" "length (n_route nd) = 32"
    and sl: "slots_at E s (Suc d) (n_children nd) ts I" and idx: "\<forall>c < 32. idx \<notin> I c" and d: "d < MAX_DEPTH"
    by (elim repr_dirtyE) (auto simp: slots_ok_def)
  from Suc.prems(4) d obtain k where m: "m = Suc k" by (cases m) auto
  let ?P = "\<lambda>st :: 'z hst_scheme. flushing E d idx ts I s st"
  have start: "?P s" using at sl Suc.prems(2) by (auto simp: flushing_def flushed_refl)
  have step: "flush_step n E live idx c st = flush_step k E live idx c st \<and> ?P (snd (flush_step k E live idx c st))"
    if P: "?P st" and c: "c \<in> set [0 ..< 32]" for c st
  proof
    from P obtain I' where st: "idx < length (h_arena st)" "store_ok st" and I': "slots_at E st (Suc d) (n_children (h_arena st ! idx)) ts I'"
      by (auto simp: flushing_def dest: flushed_ok)
    have "flush_node n E live sub st = flush_node k E live sub st" if sub: "n_children (h_arena st ! idx) ! c = Some (Dirty sub)" for sub
    proof -
      obtain u K where "tree_at E st (Suc d) (Dirty sub) u K" using I' sub c by (auto simp: slots_ok_def)
      then show ?thesis by (rule Suc.IH) (use st Suc.prems(3,4) m in auto)
    qed
    then show "flush_step n E live idx c st = flush_step k E live idx c st"
      using st(1) c I' by (auto simp: flush_step_def arena_get_def child_at_def bindE_def liftE_def slots_ok_def split: option.splits child.splits)
    obtain q st' where q: "flush_step k E live idx c st = (q, st')" by (cases "flush_step k E live idx c st")
    have "?P st'" using flush_step_spec [OF P q _ idx flush_node_spec [OF E _ st(2)]] c by simp
    then show "?P (snd (flush_step k E live idx c st))" by (simp add: q)
  qed
  have "forE [0 ..< 32] (flush_step n E live idx) s = forE [0 ..< 32] (flush_step k E live idx) s"
    by (rule forE_agree [where P = ?P, OF start]) (use step in auto)
  then show ?case unfolding m flush_node.simps flush_step_def [symmetric] by (simp add: bindE_def)
qed

section \<open>The whole flush\<close>

lemma hamt_flush_spec:
  fixes s :: "'z hst_scheme"
  assumes run: "hamt_flush E live s = (r, s')" and h: "holds E s t" and E: "vsf_ok E"
  shows "holds E s' t \<and> flushed UNIV (s\<lparr>h_root := None, h_arena := []\<rparr>) (s'\<lparr>h_root := None, h_arena := []\<rparr>)
    \<and> (\<forall>hash lba. r = Inr (hash, lba) \<longrightarrow> (t \<noteq> None \<longrightarrow> h_arena s' = [])
          \<and> h_root s' = (if t = None then None else Some (Committed hash lba)) \<and> (t = None \<longrightarrow> hash = replicate 32 0 \<and> lba = 0))"
proof (cases "h_root s")
  case None
  then show ?thesis using run h by (auto simp: hamt_flush_def holds_def flushed_def)
next
  case (Some ch)
  then obtain u J where u: "t = Some u" "tree_at E s 0 ch u J" and ok: "store_ok s" using h by (auto simp: holds_def)
  show ?thesis
  proof (cases ch)
    case (Committed hash lba)
    have "J = {}" using u(2) committed_repr Committed by blast
    then have "repr E (tview s) (t_len (st_tract s)) (occ (st_tract s)) [] 0 ch u {}"
      using repr_frame [OF u(2), of "tview s" "occ (st_tract s)" "[]"] by simp
    then show ?thesis using run u(1) Some Committed ok by (auto simp: hamt_flush_def holds_def flushed_def)
  next
    case (Dirty idx)
    have d: "tree_at E s 0 (Dirty idx) u J" using u(2) Dirty by simp
    from run have "bindE (flush_node FLUSH_FUEL E live idx) (\<lambda>(hash, lba). bindE (modE (h_root_update (\<lambda>_. Some (Committed hash lba)))) (\<lambda>_.
       bindE (modE (h_arena_update (\<lambda>_. []))) (\<lambda>_. retE (hash, lba)))) s = (r, s')" using Some Dirty by (simp add: hamt_flush_def)
    then show ?thesis
    proof (cases rule: bindE_cases)
      case (err e)
      note nf = flush_node_spec [OF E d ok err(1)]
      then have "flushed J s s'" "\<exists>J'. tree_at E s' 0 (Dirty idx) u J'" by (auto simp: node_flushed_def)
      then show ?thesis using err(2) Some Dirty u(1) by (auto simp: holds_def flushed_def)
    next
      case (ok x s1)
      obtain hash lba where x: "x = (hash, lba)" by (cases x)
      note nf = flush_node_spec [OF E d \<open>store_ok s\<close> ok(1)]
      then have fl: "flushed J s s1" and c: "tree_at E s1 0 (Committed hash lba) u {}" using x by (auto simp: node_flushed_def)
      have s': "s' = s1\<lparr>h_root := Some (Committed hash lba), h_arena := []\<rparr>" "r = Inr (hash, lba)"
        using ok(2) x by (auto simp: bindE_def modE_def retE_def)
      have "repr E (tview s1) (t_len (st_tract s1)) (occ (st_tract s1)) [] 0 (Committed hash lba) u {}"
        using repr_frame [OF c, of "tview s1" "occ (st_tract s1)" "[]"] by simp
      then have "holds E s' t" using fl u(1) by (auto simp: s'(1) holds_def flushed_def)
      then show ?thesis using fl u(1) s' by (auto simp: flushed_def)
    qed
  qed
qed

end
