(* ===== verification/Keyed_Store.thy ===== *)
theory Keyed_Store
  imports Hamt_Flush
begin

text \<open>
  The contract of a keyed object store, as the engine's clients rely on it: the state stands for a
  partial map, a read returns what the map holds, an insert or a delete that succeeds updates the
  map at its key and one that fails leaves the map as it was. A session of such calls then
  behaves as the same session on the map. The index keeps the contract.
\<close>

section \<open>The contract\<close>

datatype ('k, 'v) request = Get 'k | Put 'k 'v | Del 'k

datatype 'v reply = Got "'v option" | Stored | Deleted bool | Failed error

text \<open>The map after a request, given whether the store carried it out.\<close>

fun map_after :: "('k, 'v) request \<Rightarrow> 'v reply \<Rightarrow> ('k \<rightharpoonup> 'v) \<Rightarrow> ('k \<rightharpoonup> 'v)" where
  "map_after (Put k v) Stored m = m(k \<mapsto> v)"
| "map_after (Del k) (Deleted _) m = m(k := None)"
| "map_after _ _ m = m"

text \<open>The replies the map allows: the truth, or a failure.\<close>

fun allowed :: "('k, 'v) request \<Rightarrow> ('k \<rightharpoonup> 'v) \<Rightarrow> 'v reply \<Rightarrow> bool" where
  "allowed (Get k) m (Got x) \<longleftrightarrow> x = m k"
| "allowed (Put k v) m Stored \<longleftrightarrow> True"
| "allowed (Del k) m (Deleted b) \<longleftrightarrow> (b \<longleftrightarrow> m k \<noteq> None)"
| "allowed _ m (Failed e) \<longleftrightarrow> True"
| "allowed _ m _ \<longleftrightarrow> False"

fun map_session :: "('k, 'v) request list \<Rightarrow> 'v reply list \<Rightarrow> ('k \<rightharpoonup> 'v) \<Rightarrow> ('k \<rightharpoonup> 'v)" where
  "map_session (q # qs) (a # as) m = map_session qs as (map_after q a m)"
| "map_session _ _ m = m"

fun all_allowed :: "('k, 'v) request list \<Rightarrow> ('k \<rightharpoonup> 'v) \<Rightarrow> 'v reply list \<Rightarrow> bool" where
  "all_allowed [] m [] \<longleftrightarrow> True"
| "all_allowed (q # qs) m (a # as) \<longleftrightarrow> allowed q m a \<and> all_allowed qs (map_after q a m) as"
| "all_allowed _ m _ \<longleftrightarrow> False"

definition reply_of :: "('a \<Rightarrow> 'v reply) \<Rightarrow> 'a result \<Rightarrow> 'v reply" where
  "reply_of f r = (case r of Inl e \<Rightarrow> Failed e | Inr x \<Rightarrow> f x)"

definition serve :: "('k \<Rightarrow> ('s, 'v option) op) \<Rightarrow> ('k \<Rightarrow> 'v \<Rightarrow> ('s, unit) op) \<Rightarrow> ('k \<Rightarrow> ('s, bool) op) \<Rightarrow>
    ('k, 'v) request \<Rightarrow> 's \<Rightarrow> 'v reply \<times> 's" where
  "serve get ins del q s = (case q of
     Get k \<Rightarrow> apfst (reply_of Got) (get k s)
   | Put k v \<Rightarrow> apfst (reply_of (\<lambda>_. Stored)) (ins k v s)
   | Del k \<Rightarrow> apfst (reply_of Deleted) (del k s))"

primrec serve_all :: "('k \<Rightarrow> ('s, 'v option) op) \<Rightarrow> ('k \<Rightarrow> 'v \<Rightarrow> ('s, unit) op) \<Rightarrow> ('k \<Rightarrow> ('s, bool) op) \<Rightarrow>
    ('k, 'v) request list \<Rightarrow> 's \<Rightarrow> 'v reply list \<times> 's" where
  "serve_all get ins del [] s = ([], s)"
| "serve_all get ins del (q # qs) s =
     (case serve get ins del q s of (a, s1) \<Rightarrow> apfst (Cons a) (serve_all get ins del qs s1))"

definition request_ok :: "('k \<Rightarrow> bool) \<Rightarrow> ('v \<Rightarrow> bool) \<Rightarrow> ('k, 'v) request \<Rightarrow> bool" where
  "request_ok kok vok q = (case q of Put k v \<Rightarrow> kok k \<and> vok v | _ \<Rightarrow> True)"

locale keyed_store =
  fixes stands :: "'s \<Rightarrow> ('k \<rightharpoonup> 'v) \<Rightarrow> bool"
    and get :: "'k \<Rightarrow> ('s, 'v option) op"
    and ins :: "'k \<Rightarrow> 'v \<Rightarrow> ('s, unit) op"
    and del :: "'k \<Rightarrow> ('s, bool) op"
    and kok :: "'k \<Rightarrow> bool"
    and vok :: "'v \<Rightarrow> bool"
  assumes get_law: "stands s m \<Longrightarrow> get k s = (r, s') \<Longrightarrow> stands s' m \<and> (\<forall>x. r = Inr x \<longrightarrow> x = m k)"
    and ins_law: "stands s m \<Longrightarrow> kok k \<Longrightarrow> vok v \<Longrightarrow> ins k v s = (p, s') \<Longrightarrow>
        (case p of Inl e \<Rightarrow> stands s' m | Inr u \<Rightarrow> stands s' (m(k \<mapsto> v)))"
    and del_law: "stands s m \<Longrightarrow> del k s = (q, s') \<Longrightarrow>
        (case q of Inl e \<Rightarrow> stands s' m | Inr b \<Rightarrow> stands s' (m(k := None)) \<and> (b \<longleftrightarrow> m k \<noteq> None))"
begin

lemma serve_stands:
  assumes "stands s m" and "request_ok kok vok q" and "serve get ins del q s = (a, s')"
  shows "stands s' (map_after q a m) \<and> allowed q m a"
proof (cases q)
  case (Get k)
  obtain r where "get k s = (r, s')" "a = reply_of Got r" using assms(3) Get by (auto simp: serve_def apfst_def map_prod_def split: prod.splits)
  then show ?thesis using get_law [OF assms(1)] Get by (cases r) (auto simp: reply_of_def)
next
  case (Put k v)
  obtain r where "ins k v s = (r, s')" "a = reply_of (\<lambda>_. Stored) r" using assms(3) Put by (auto simp: serve_def apfst_def map_prod_def split: prod.splits)
  then show ?thesis using ins_law [OF assms(1), of k v r s'] assms(2) Put by (cases r) (auto simp: reply_of_def request_ok_def)
next
  case (Del k)
  obtain r where "del k s = (r, s')" "a = reply_of Deleted r" using assms(3) Del by (auto simp: serve_def apfst_def map_prod_def split: prod.splits)
  then show ?thesis using del_law [OF assms(1), of k r s'] Del by (cases r) (auto simp: reply_of_def)
qed

lemma session:
  assumes "stands s m" and "\<forall>q \<in> set qs. request_ok kok vok q" and "serve_all get ins del qs s = (as, s')"
  shows "all_allowed qs m as \<and> stands s' (map_session qs as m)"
  using assms
proof (induction qs arbitrary: s m as)
  case (Cons q qs)
  obtain a s1 bs where step: "serve get ins del q s = (a, s1)" "serve_all get ins del qs s1 = (bs, s')" "as = a # bs"
    using Cons.prems(3) by (auto simp: apfst_def map_prod_def split: prod.splits)
  show ?case using serve_stands [OF Cons.prems(1) _ step(1)] Cons.IH [OF _ _ step(2)] Cons.prems(2) step(3) by auto
qed simp

lemma read_your_write:
  assumes "stands s m" and "kok k" and "vok v" and "ins k v s = (Inr u, s1)" and "get k s1 = (Inr x, s')"
  shows "x = Some v"
  using ins_law [OF assms(1-4)] get_law [OF _ assms(5)] by force

end

section \<open>The index keeps it\<close>

definition index_map :: "vsf_env \<Rightarrow> 'z hst_scheme \<Rightarrow> (hash \<rightharpoonup> u8 list) \<Rightarrow> bool" where
  "index_map E s m \<longleftrightarrow> vsf_ok E \<and> (\<exists>t. holds E s t \<and> m = (\<lambda>x. lookup_opt x 0 t))"

text \<open>The digest of an empty root is never the digest of a document.\<close>

definition zero_free :: "vsf_env \<Rightarrow> bool" where
  "zero_free E \<longleftrightarrow> (\<forall>bs. blake3 E bs \<noteq> replicate 32 0)"

lemma committed_zero: "zero_free E \<Longrightarrow> repr E V L Oc A d (Committed (replicate 32 0) lba) t J \<Longrightarrow> t = TGone"
  by (erule repr_committedE)
    (auto simp: doc_of_def sealed_hp_def zero_free_def split: if_splits option.splits VsfType.splits prod.splits)

lemma index_get: "index_map E s m \<Longrightarrow> lookup E k s = (r, s') \<Longrightarrow> index_map E s' m \<and> (\<forall>x. r = Inr x \<longrightarrow> x = m k)"
  unfolding index_map_def using holds_lookup [of E k s r s'] holds_reads [of s s' E] by blast

lemma index_put:
  assumes "index_map E s m" and "length k = 32" and "length v < U64" and "put E live k v s = (r, s')"
  shows "case r of Inl e \<Rightarrow> index_map E s' m | Inr u \<Rightarrow> index_map E s' (m(k \<mapsto> v))"
proof -
  obtain t where t: "vsf_ok E" "holds E s t" "m = (\<lambda>x. lookup_opt x 0 t)" using assms(1) by (auto simp: index_map_def)
  note p = put_spec [OF assms(4) t(2,1) assms(2,3)]
  show ?thesis
  proof (cases r)
    case (Inl e)
    then show ?thesis using p t by (auto simp: index_map_def)
  next
    case (Inr u)
    then obtain t' where "holds E s' (Some t')" "\<forall>x. tree_lookup x 0 t' = (if x = k then Some v else lookup_opt x 0 t)" using p by blast
    then have "index_map E s' (m(k \<mapsto> v))" using t unfolding index_map_def by (intro conjI exI [where x = "Some t'"]) (auto simp: fun_eq_iff)
    then show ?thesis using Inr by simp
  qed
qed

lemma index_delete:
  assumes "index_map E s m" and "hamt_delete E k UnlinkOnly s = (r, s')"
  shows "case r of Inl e \<Rightarrow> index_map E s' m | Inr b \<Rightarrow> index_map E s' (m(k := None)) \<and> (b \<longleftrightarrow> m k \<noteq> None)"
proof -
  obtain t where t: "vsf_ok E" "holds E s t" "m = (\<lambda>x. lookup_opt x 0 t)" using assms(1) by (auto simp: index_map_def)
  note p = delete_spec [OF assms(2) t(2)]
  consider (err) e where "r = Inl e" | (gone) "r = Inr True" | (absent) "r = Inr False" by (cases r; cases "projr r") auto
  then show ?thesis
  proof cases
    case err
    then show ?thesis using p t by (auto simp: index_map_def)
  next
    case gone
    then obtain t' where "holds E s' t'" "\<forall>x. lookup_opt x 0 t' = (if x = k then None else lookup_opt x 0 t)" "lookup_opt k 0 t \<noteq> None"
      using p by blast
    moreover from this have "index_map E s' (m(k := None))"
      using t unfolding index_map_def by (intro conjI exI [where x = t']) (auto simp: fun_eq_iff)
    ultimately show ?thesis using gone t(3) by simp
  next
    case absent
    then have "lookup_opt k 0 t = None" "holds E s' t" using p by auto
    then have "m k = None" "index_map E s' m" using t by (auto simp: index_map_def)
    moreover from this have "m(k := None) = m" by auto
    ultimately show ?thesis using absent by simp
  qed
qed

text \<open>A flush keeps the map, and what it returns reopens to it.\<close>

lemma index_flush:
  fixes s :: "'z hst_scheme"
  assumes "index_map E s m" and "hamt_flush E live s = (r, s')"
  shows "index_map E s' m \<and> h_removed s' = h_removed s"
    and "r = Inr (hash, lba) \<Longrightarrow> hash \<noteq> replicate 32 0 \<or> m = Map.empty \<Longrightarrow> index_map E (from_root (st_mirror s') (st_tract s') hash lba) m"
    and "r = Inr (hash, lba) \<Longrightarrow> length hash = 32 \<and> lba < U64"
    and "r = Inr (hash, lba) \<Longrightarrow> zero_free E \<Longrightarrow> hash \<noteq> replicate 32 0 \<or> m = Map.empty"
proof -
  obtain t where t: "vsf_ok E" "holds E s t" "m = (\<lambda>x. lookup_opt x 0 t)" using assms(1) by (auto simp: index_map_def)
  note f = hamt_flush_spec [OF assms(2) t(2,1)]
  then have h: "holds E s' t" "h_removed s' = h_removed s" by (auto simp: flushed_def)
  then show "index_map E s' m \<and> h_removed s' = h_removed s" using t unfolding index_map_def by blast
  have root: "(t = None \<and> hash = replicate 32 0 \<and> lba = 0)
      \<or> (\<exists>u J. t = Some u \<and> h_root s' = Some (Committed hash lba) \<and> h_arena s' = [] \<and> tree_at E s' 0 (Committed hash lba) u J)"
    if r: "r = Inr (hash, lba)"
    using f r h(1) by (cases t) (auto simp: holds_def)
  have ok: "store_ok s'" using h(1) by (simp add: holds_def)
  show "index_map E (from_root (st_mirror s') (st_tract s') hash lba) m"
    if r: "r = Inr (hash, lba)" and nz: "hash \<noteq> replicate 32 0 \<or> m = Map.empty"
  proof (cases "hash = replicate 32 0")
    case True
    then have "holds E (from_root (st_mirror s') (st_tract s') hash lba) None" using ok by (auto simp: holds_def from_root_def store_ok_def)
    then show ?thesis using t(1) nz True unfolding index_map_def by force
  next
    case False
    then have "holds E (from_root (st_mirror s') (st_tract s') hash lba) t"
      using root [OF r] ok by (auto simp: holds_def from_root_def store_ok_def tview_def [abs_def])
    then show ?thesis using t unfolding index_map_def by blast
  qed
  show "length hash = 32 \<and> lba < U64" if r: "r = Inr (hash, lba)"
    using root [OF r] ok occ_less [OF ok, of lba]
    by (auto dest!: committed_repr simp: store_ok_def tract_wf_def)
  show "hash \<noteq> replicate 32 0 \<or> m = Map.empty" if r: "r = Inr (hash, lba)" and z: "zero_free E"
    using root [OF r] t(3) by (auto dest: committed_zero [OF z])
qed

interpretation index: keyed_store "index_map E" "lookup E" "put E live" "\<lambda>k. hamt_delete E k UnlinkOnly"
    "\<lambda>k. length k = 32" "\<lambda>v. length v < U64" for E live
proof unfold_locales
  show "index_map E s' m \<and> (\<forall>x. r = Inr x \<longrightarrow> x = m k)" if "index_map E s m" "lookup E k s = (r, s')" for s m k r s'
    using index_get [OF that] .
  show "case p of Inl e \<Rightarrow> index_map E s' m | Inr u \<Rightarrow> index_map E s' (m(k \<mapsto> v))"
    if "index_map E s m" "length k = 32" "length v < U64" "put E live k v s = (p, s')" for s m k v p s'
    using index_put [OF that] .
  show "case q of Inl e \<Rightarrow> index_map E s' m | Inr b \<Rightarrow> index_map E s' (m(k := None)) \<and> (b \<longleftrightarrow> m k \<noteq> None)"
    if "index_map E s m" "hamt_delete E k UnlinkOnly s = (q, s')" for s m k q s'
    using index_delete [OF that] .
qed

end
