(* ===== verification/Hamt_Total.thy ===== *)
theory Hamt_Total
  imports Keyed_Store
begin

text \<open>
  Reads that cannot fail: on a healthy store (no fault pending, every block of the tract readable)
  a lookup returns, with the tree's answer.
\<close>

section \<open>A healthy store\<close>

definition quiet_store :: "'z store_scheme \<Rightarrow> bool" where
  "quiet_store s \<longleftrightarrow> store_ok s \<and> (\<forall>p < t_len (st_tract s). readable (st_mirror s) (t_base (st_tract s) + p))
     \<and> t_len (st_tract s) * BLOCK < U64"

lemma quiet_ok: "quiet_store s \<Longrightarrow> store_ok s"
  by (simp add: quiet_store_def)

lemma quiet_with_mirror:
  fixes s :: "'z store_scheme"
  assumes "quiet_store s" and "f (st_mirror s) = (Inr x, m')" and "wf_mirror m'" and "\<And>k. readable (st_mirror s) k \<Longrightarrow> readable m' k"
  shows "\<exists>s'. with_mirror f s = (Inr x, s') \<and> quiet_store s'"
  using assms by (auto simp: with_mirror_def quiet_store_def store_ok_def)

lemma tract_read_cached_quiet:
  fixes s :: "'z store_scheme"
  assumes q: "quiet_store s" and lba: "lba < t_len (st_tract s)"
  shows "\<exists>s'. tract_read_cached lba s = (Inr (tview s lba), s') \<and> quiet_store s'"
proof -
  let ?a = "t_base (st_tract s) + lba"
  have wf: "wf_mirror (st_mirror s)" "tract_wf (st_tract s)" using quiet_ok [OF q] by (auto simp: store_ok_def)
  obtain m' where m': "read_cached ?a (st_mirror s) = (Inr (view (st_mirror s) ?a), m')" "\<And>k. readable (st_mirror s) k \<Longrightarrow> readable m' k"
    using cread.rd_avail [OF wf(1), of ?a] q lba by (auto simp: quiet_store_def)
  have "wf_mirror m'" using cread.rd_keeps [OF wf(1) m'(1)] by simp
  from quiet_with_mirror [where f = "read_cached ?a", OF q m'(1) this m'(2)]
  show ?thesis using lba tract_addr [OF wf(2) lba] by (simp add: tract_read_cached_def tview_def)
qed

lemma mirror_read_run_quiet:
  assumes wf: "wf_mirror m" and fit: "l + n < U64" and av: "\<And>k. l \<le> k \<Longrightarrow> k < l + n \<Longrightarrow> readable m k" and n: "0 < n"
  shows "mirror_read_run l n m = (Inr (map (view m) [l ..< l + n]), m)"
proof (cases "list_ex (\<lambda>(k, _). l \<le> k \<and> k < l + n) (staged m)")
  case True
  have one: "mirror_read (wadd l i) m = (Inr (view m (l + i)), m)" if "i < n" for i
    using mirror_read_quiet [of m "l + i"] av [of "l + i"] wf that fit by (simp add: readable_def)
  have "mapE (\<lambda>i. mirror_read (wadd l i)) [0 ..< n] m = (Inr (map (\<lambda>i. view m (l + i)) [0 ..< n]), m)"
    by (rule mapE_pure) (use one in auto)
  moreover have "map (\<lambda>i. view m (l + i)) [0 ..< n] = map (view m) [l ..< l + n]" by (auto intro!: nth_equalityI)
  ultimately show ?thesis using True fit by (simp add: mirror_read_run_def)
next
  case False
  have un: "find_staged m k = None" if "l \<le> k" "k < l + n" for k
    using False that by (auto simp: find_staged_eq map_of_rev_None list_ex_iff)
  obtain d where d: "rdev m = Some d" "wf_dev d" using wf by (auto simp: wf_mirror_def rdev_def split: option.splits if_splits)
  have "quiet_mirror m" "l + n - 1 < rcount m" using av [of l] av [of "l + n - 1"] un [of "l + n - 1"] n by (auto simp: readable_def)
  then have h: "healthy d" "l + n \<le> fd_blocks d" using d n by (auto simp: quiet_mirror_def rcount_def)
  have "map (view m) [l ..< l + n] = map (dev_content d) [l ..< l + n]"
    using un d by (intro map_cong) (auto simp: view_def rcontent_def)
  then show ?thesis
    using on_first_run [where f = "dev_read_run l n", OF d(1) dev_read_run_healthy [OF d(2) h]] False fit by (simp add: mirror_read_run_def)
qed

lemma tract_read_run_quiet:
  fixes s :: "'z store_scheme"
  assumes q: "quiet_store s" and run: "lba + n \<le> t_len (st_tract s)" "0 < n"
  shows "tract_read_run lba n s = (Inr (map (tview s) [lba ..< lba + n]), s)"
proof -
  let ?t = "st_tract s" and ?m = "st_mirror s"
  have wf: "wf_mirror ?m" "tract_wf ?t" using quiet_ok [OF q] by (auto simp: store_ok_def)
  have w: "wsub (t_len ?t) lba = t_len ?t - lba" using run wf(2) by (intro wsub_eq) (auto simp: tract_wf_def)
  have av: "readable ?m k" if "t_base ?t + lba \<le> k" "k < t_base ?t + lba + n" for k
  proof -
    have "k = t_base ?t + (k - t_base ?t)" "k - t_base ?t < t_len ?t" using that run by auto
    then show ?thesis using q unfolding quiet_store_def by metis
  qed
  have "mirror_read_run (t_base ?t + lba) n ?m = (Inr (map (view ?m) [t_base ?t + lba ..< t_base ?t + lba + n]), ?m)"
    by (rule mirror_read_run_quiet [OF wf(1) _ av run(2)]) (use run wf(2) in \<open>auto simp: tract_wf_def\<close>)
  moreover have "map (view ?m) [t_base ?t + lba ..< t_base ?t + lba + n] = map (tview s) [lba ..< lba + n]"
    by (auto intro!: nth_equalityI simp: tview_def add.assoc)
  ultimately show ?thesis using run w tract_addr [OF wf(2), of lba] by (simp add: tract_read_run_def with_mirror_def)
qed

section \<open>Values\<close>

lemma read_cut_quiet:
  fixes st :: "'z hst_scheme"
  assumes q: "quiet_store st" and cut: "s < e" "pos_run fs s e" and b: "\<forall>f \<in> set fs. f < t_len (st_tract st)"
    and qs: "\<And>i. i < length fs \<Longrightarrow> furrow_payload E key i (tview st (fs ! i)) = Inr (qs ! i)"
  shows "read_cut E key fs (s, e) st = (Inr (concat (map ((!) qs) [s ..< e])), st)"
proof -
  have e: "e \<le> length fs" by (rule pos_run_le [OF cut(2)])
  have "fs ! (e - 1) = fs ! s + (e - 1 - s)" using cut by (intro pos_run_nth [OF cut(2)]) auto
  moreover have "fs ! (e - 1) < t_len (st_tract st)" using b e cut(1) by simp
  ultimately have "fs ! s + (e - s) \<le> t_len (st_tract st)" using cut(1) by linarith
  then have run: "tract_read_run (fs ! s) (e - s) st = (Inr (map (\<lambda>i. tview st (fs ! i)) [s ..< e]), st)"
    using tract_read_run_quiet [OF q, of "fs ! s" "e - s"] cut(1) pos_run_views [OF cut(2,1)] by simp
  have "mapE (\<lambda>(i, buf). liftE (furrow_payload E key i buf)) (map (\<lambda>i. (i, tview st (fs ! i))) [s ..< e]) st = (Inr (map ((!) qs) [s ..< e]), st)"
    unfolding mapE_map by (rule mapE_pure) (use qs e in \<open>auto simp: liftE_run\<close>)
  then show ?thesis using run by (simp add: read_cut_def bindE_def retE_def enumerate_map_upt)
qed

lemma concat_cuts: "concat (map (\<lambda>(s, e). concat (map f [s ..< e])) cuts) = concat (map f (concat (map (\<lambda>(s, e). [s ..< e]) cuts)))"
  by (induction cuts) auto

lemma read_furrows_quiet:
  fixes st :: "'z hst_scheme"
  assumes q: "quiet_store st" and b: "\<forall>f \<in> set fs. f < t_len (st_tract st)" and fu: "furrows_are E (tview st) key fs v"
    and sz: "length v \<le> length fs * furrow_capacity E" and n: "length fs \<le> t_len (st_tract st)"
  shows "read_furrows E key (length v) fs st = (Inr v, st)"
proof -
  obtain qs where qs: "length qs = length fs" "v = concat qs" "\<And>i. i < length fs \<Longrightarrow> furrow_payload E key i (tview st (fs ! i)) = Inr (qs ! i)"
    using fu by (auto simp: furrows_are_def)
  have "length fs * furrow_capacity E \<le> t_len (st_tract st) * BLOCK"
    using n by (intro mult_le_mono) (auto simp: furrow_capacity_def)
  then have cap: "wmul (length fs) (furrow_capacity E) = length fs * furrow_capacity E"
    using q by (intro wmul_eq) (auto simp: quiet_store_def)
  have small: "\<forall>f \<in> set fs. f + 1 < U64"
    using b quiet_ok [OF q] leaf_positions_small [of "t_len (st_tract st)" fs] by (simp add: store_ok_def)
  note cuts = furrow_cuts_spec [OF small]
  let ?g = "\<lambda>(s, e). concat (map ((!) qs) [s ..< e])"
  have run: "mapE (read_cut E key fs) (furrow_cuts fs) st = (Inr (map ?g (furrow_cuts fs)), st)"
    by (rule mapE_pure) (use read_cut_quiet [OF q _ _ b qs(3)] cuts(2) in auto)
  have "concat (map ?g (furrow_cuts fs)) = concat (map ((!) qs) (concat (map (\<lambda>(s, e). [s ..< e]) (furrow_cuts fs))))"
    by (rule concat_cuts)
  also have "\<dots> = v" unfolding cuts(1) using qs(1,2) by (simp add: map_nth [of qs, unfolded qs(1)])
  finally have all: "concat (map ?g (furrow_cuts fs)) = v" .
  show ?thesis unfolding read_furrows_def using run sz cap all by (simp add: read_cut_def [abs_def] bindE_def retE_def)
qed

lemma leaf_answer_quiet:
  fixes s :: "'z hst_scheme"
  assumes q: "quiet_store s" and leaf: "leaf_doc E (tview s) (t_len (st_tract s)) Oc doc k v"
    and doc: "doc_of E b h (t_len (st_tract s)) = Inr (Some doc)" and E: "vsf_ok E"
  shows "leaf_answer E key doc s = (Inr (if k = key then Some v else None), s)"
proof (cases doc)
  case (DocExtent k' sz runs)
  then obtain ps where ps: "k' = k" "expand_runs E runs sz (t_len (st_tract s)) = Inr ps" "furrows_are E (tview s) k ps v" "sz = length v"
    using leaf by (auto simp: leaf_doc_def)
  have L: "t_len (st_tract s) < 2 ^ 63" using quiet_ok [OF q] by (simp add: store_ok_def)
  note ex = expand_runs_ok [OF ps(2) L]
  have "length v \<le> length ps * furrow_capacity E" using div_ceil_le [OF capacity_pos [OF E], of "length v"] ex ps(4) by metis
  then have "read_furrows E k (length v) ps s = (Inr v, s)" using ex ps(3) by (intro read_furrows_quiet [OF q]) auto
  then show ?thesis using DocExtent ps by (cases "k = key") (auto simp: leaf_answer_def bindE_def retE_def)
next
  case (DocDirect k' sz fs)
  then have ps: "k' = k" "furrows_are E (tview s) k fs v" "sz = length v" "sz \<le> length fs * furrow_capacity E" "length fs \<le> t_len (st_tract s)"
    using leaf by (auto simp: leaf_doc_def)
  have "read_furrows E k (length v) fs s = (Inr v, s)"
    using ps doc_of_direct_bound doc DocDirect by (intro read_furrows_quiet [OF q]) auto
  then show ?thesis using DocDirect ps by (cases "k = key") (auto simp: leaf_answer_def bindE_def retE_def)
qed (use leaf in \<open>auto simp: leaf_answer_def leaf_doc_def retE_def\<close>)

section \<open>Lookup\<close>

lemma doc_of_acc_depth: "doc_of_acc schema a = Inr (DocNode n) \<Longrightarrow> n_depth n < MAX_DEPTH"
  by (auto simp: doc_of_acc_def Let_def bindR_eq_Inr split: if_splits)

lemma doc_of_node_depth: "doc_of E b h L = Inr (Some (DocNode n)) \<Longrightarrow> n_depth n < MAX_DEPTH"
proof -
  assume "doc_of E b h L = Inr (Some (DocNode n))"
  then obtain schema a where "doc_of_acc schema a = Inr (DocNode n)"
    by (auto simp: doc_of_def decode_doc_def Let_def bindR_eq_Inr split: if_splits option.splits VsfType.splits)
  then show ?thesis by (rule doc_of_acc_depth)
qed

definition whole :: "'z hst_scheme \<Rightarrow> (nat \<Rightarrow> block) \<Rightarrow> nat \<Rightarrow> node list \<Rightarrow> bool" where
  "whole s V L A \<longleftrightarrow> quiet_store s \<and> sees s V L A"

lemma read_doc_whole:
  fixes s :: "'z hst_scheme"
  assumes s: "whole s V L A" and lba: "lba < L" and d: "doc_of E (V lba) h L = Inr d"
  obtains s1 where "whole s1 V L A" "read_doc E lba h s = (Inr d, s1)"
proof -
  have v: "tview s = V" "t_len (st_tract s) = L" "quiet_store s" using s by (auto simp: whole_def sees_def)
  obtain s1 where s1: "tract_read_cached lba s = (Inr (V lba), s1)" "quiet_store s1"
    using tract_read_cached_quiet [OF v(3)] lba v by auto
  have "after_reads s s1" using tract_read_cached_spec [OF s1(1) quiet_ok [OF v(3)]] by simp
  then have "whole s1 V L A" using s s1(2) sees_after [of s V L A s1] by (simp add: whole_def)
  then show thesis using that s1(1) v d by (simp add: bindE_def read_doc_def liftE_def)
qed

lemma lookup_from_returns:
  assumes "repr E V L Oc A d ch t J" and E: "vsf_ok E" and Oc: "\<forall>p \<in> Oc. p < L"
  shows "\<forall>s :: 'z hst_scheme. whole s V L A \<longrightarrow> (\<exists>s'. lookup_from E key d ch s = (Inr (tree_lookup key d t), s') \<and> whole s' V L A)"
  using assms(1)
proof (induction rule: repr.induct)
  case (repr_gone lba h d)
  show ?case
  proof (intro allI impI)
    fix s :: "'z hst_scheme" assume s: "whole s V L A"
    obtain s1 where "whole s1 V L A" "read_doc E lba h s = (Inr None, s1)" using read_doc_whole [OF s _ repr_gone(2)] Oc repr_gone(1) by blast
    then show "\<exists>s'. lookup_from E key d (Committed h lba) s = (Inr (tree_lookup key d TGone), s') \<and> whole s' V L A" by (simp add: bindE_def retE_def)
  qed
next
  case (repr_leaf lba h doc k v d)
  show ?case
  proof (intro allI impI)
    fix s :: "'z hst_scheme" assume s: "whole s V L A"
    obtain s1 where s1: "whole s1 V L A" "read_doc E lba h s = (Inr (Some doc), s1)"
      using read_doc_whole [OF s _ repr_leaf(2)] Oc repr_leaf(1) by blast
    then have "lookup_from E key d (Committed h lba) s = leaf_answer E key doc s1"
      using leaf_doc_not_node [OF repr_leaf(3)] by (cases doc) (auto simp: leaf_answer_def bindE_def)
    with s1 show "\<exists>s'. lookup_from E key d (Committed h lba) s = (Inr (tree_lookup key d (TLeaf k v)), s') \<and> whole s' V L A"
      using leaf_answer_quiet [of s1 E Oc doc k v _ h key] repr_leaf(2,3) E by (auto simp: whole_def sees_def)
  qed
next
  case (repr_node lba h n d ts)
  show ?case
  proof (intro allI impI)
    fix s :: "'z hst_scheme" assume s: "whole s V L A"
    have d: "d < 52" using doc_of_node_depth [OF repr_node(2)] repr_node(3) by (simp add: MAX_DEPTH_def)
    obtain s1 where s1: "whole s1 V L A" "read_doc E lba h s = (Inr (Some (DocNode n)), s1)"
      using read_doc_whole [OF s _ repr_node(2)] Oc repr_node(1) by blast
    then have run: "lookup_from E key d (Committed h lba) s = (case n_children n ! ck key d of None \<Rightarrow> retE None | Some child \<Rightarrow> lookup_from E key (Suc d) child) s1"
      using repr_node(3) chunk_ok [OF d] child_at_ok [OF repr_node(5)] by (simp add: node_at_depth_def bindE_def liftE_def)
    have "(n_children n ! ck key d = None \<and> ts ! ck key d = None) \<or> (\<exists>ch t. n_children n ! ck key d = Some ch \<and> ts ! ck key d = Some t \<and>
        (\<exists>s'. lookup_from E key (Suc d) ch s1 = (Inr (tree_lookup key (Suc d) t), s') \<and> whole s' V L A))"
      using repr_node.IH chunk_less [of key d] s1(1) by blast
    then show "\<exists>s'. lookup_from E key d (Committed h lba) s = (Inr (tree_lookup key d (TNode ts)), s') \<and> whole s' V L A"
      using run s1(1) by (auto simp: retE_run tree_lookup_node [OF repr_node(6)] simp del: tree_lookup.simps(3) lookup_from.simps)
  qed
next
  case (repr_dirty idx n d ts I J)
  show ?case
  proof (intro allI impI)
    fix s :: "'z hst_scheme" assume s: "whole s V L A"
    have get: "arena_get idx s = (Inr n, s)" using arena_get_run [of idx s] s repr_dirty(1,2) by (simp add: whole_def sees_def)
    have "d < 52" using \<open>d < MAX_DEPTH\<close> by (simp add: MAX_DEPTH_def)
    then have run: "lookup_from E key d (Dirty idx) s = (case n_children n ! ck key d of None \<Rightarrow> retE None | Some child \<Rightarrow> lookup_from E key (Suc d) child) s"
      using get chunk_ok child_at_ok [OF repr_dirty(5)] by (simp add: bindE_def liftE_def)
    have "(n_children n ! ck key d = None \<and> ts ! ck key d = None) \<or> (\<exists>ch t. n_children n ! ck key d = Some ch \<and> ts ! ck key d = Some t \<and>
        (\<exists>s'. lookup_from E key (Suc d) ch s = (Inr (tree_lookup key (Suc d) t), s') \<and> whole s' V L A))"
      using repr_dirty.IH chunk_less [of key d] s by blast
    then show "\<exists>s'. lookup_from E key d (Dirty idx) s = (Inr (tree_lookup key d (TNode ts)), s') \<and> whole s' V L A"
      using run s by (auto simp: retE_run tree_lookup_node [OF repr_dirty(6)] simp del: tree_lookup.simps(3) lookup_from.simps)
  qed
qed

lemma lookup_returns:
  fixes s :: "'z hst_scheme"
  assumes m: "index_map E s m" and q: "quiet_store s"
  shows "\<exists>s'. lookup E key s = (Inr (m key), s') \<and> quiet_store s'"
proof -
  obtain t where t: "vsf_ok E" "holds E s t" "m = (\<lambda>x. lookup_opt x 0 t)" using m by (auto simp: index_map_def)
  have ok: "store_ok s" by (rule quiet_ok [OF q])
  show ?thesis
  proof (cases "h_root s")
    case None
    then show ?thesis using t q by (auto simp: holds_def lookup_def)
  next
    case (Some ch)
    then obtain u J where u: "t = Some u" "tree_at E s 0 ch u J" using t(2) by (auto simp: holds_def)
    have "whole s (tview s) (t_len (st_tract s)) (h_arena s)" using q ok by (simp add: whole_def sees_def)
    then obtain s' where s': "lookup_from E key 0 ch s = (Inr (tree_lookup key 0 u), s')" "quiet_store s'"
      using lookup_from_returns [OF u(2) t(1)] occ_less [OF ok] unfolding whole_def by blast
    show ?thesis
    proof (intro exI [of _ s'] conjI)
      show "lookup E key s = (Inr (m key), s')" using s'(1) Some u(1) t(3) by (simp add: lookup_def)
      show "quiet_store s'" by (rule s'(2))
    qed
  qed
qed

end
