(* ===== verification/Hamt_Walk.thy ===== *)
theory Hamt_Walk
  imports Hamt_Model
begin

text \<open>
  The walks over the committed index of \<open>src/hamt.rs\<close>: the enumeration of keys, the live walk, the
  step-wise tree walk of an open, and the repair walk that records broken pointers instead of
  stopping at them. What a walk collects through \<open>&mut\<close> parameters is in the record \<open>walk\<close>, which
  extends the state of the index. The depth-first walks carry the fuel \<open>WALK_FUEL\<close>: a node decodes
  only below the maximal depth and must stand at its own depth, so the fuel never runs out; the tree
  walk marks every position it reads, so its loop ends within the length of the tract.
\<close>

unbundle bit_operations_syntax

section \<open>What a walk collects\<close>

type_synonym walk_item = "nat \<times> hash \<times> hash \<times> nat"

record StalePointer =
  sp_route :: hash
  sp_hash :: hash
  sp_lba :: nat

record DanglingPointer =
  dp_route :: hash
  dp_hash :: hash
  dp_lba :: nat
  dp_key :: "hash option"
  dp_reason :: string

record walk = hst +
  w_todo :: "walk_item list"
  w_visited :: "64 word list"
  w_out :: "(nat \<times> hash) list"
  w_referenced :: "nat list"
  w_stale :: "StalePointer list"
  w_dangling :: "DanglingPointer list"
  w_keys :: "hash list"

definition WALK_STEP :: nat where
  "WALK_STEP = 2 ^ 8"

section \<open>The visited positions\<close>

definition visited_new :: "nat \<Rightarrow> 64 word list" where
  "visited_new tract_len = replicate (div_ceil tract_len (2 ^ 6)) 0"

definition reach :: "nat \<Rightarrow> 64 word list \<Rightarrow> (64 word list) result" where
  "reach lba bits = (let w = drop_bit 6 lba; mask = push_bit (lba AND (2 ^ 6 - 1)) (1 :: 64 word) in
     if w \<ge> length bits then Inl (Panic ''index out of bounds'')
     else if bits ! w AND mask \<noteq> 0 then Inl (Corrupt ''tract lba reached twice'')
     else Inr (bits[w := bits ! w OR mask]))"

definition mark :: "nat \<Rightarrow> ('z walk_scheme, unit) op" where
  "mark lba = (\<lambda>s. case reach lba (w_visited s) of
     Inl e \<Rightarrow> (Inl e, s) | Inr bits \<Rightarrow> (Inr (), s\<lparr>w_visited := bits\<rparr>))"

definition push_out :: "(nat \<times> hash) list \<Rightarrow> ('z walk_scheme, unit) op" where
  "push_out ps = modE (w_out_update (\<lambda>out. out @ ps))"

definition push_stale :: "hash \<Rightarrow> hash \<Rightarrow> nat \<Rightarrow> ('z walk_scheme, unit) op" where
  "push_stale route hash lba = modE (w_stale_update (\<lambda>ps. ps @ [\<lparr>sp_route = route, sp_hash = hash, sp_lba = lba\<rparr>]))"

definition push_dangling :: "hash \<Rightarrow> hash \<Rightarrow> nat \<Rightarrow> hash option \<Rightarrow> string \<Rightarrow> ('z walk_scheme, unit) op" where
  "push_dangling route hash lba key reason = modE (w_dangling_update (\<lambda>ps. ps @
     [\<lparr>dp_route = route, dp_hash = hash, dp_lba = lba, dp_key = key, dp_reason = reason\<rparr>]))"

text \<open>A walk over the index in state \<open>s\<close>, with nothing collected.\<close>

definition walk_begin :: "walk_item list \<Rightarrow> 'z hst_scheme \<Rightarrow> walk" where
  "walk_begin todo s = \<lparr>st_mirror = st_mirror s, st_tract = st_tract s, h_root = h_root s, h_arena = h_arena s,
     h_added = h_added s, h_removed = h_removed s, h_hits = h_hits s, w_todo = todo,
     w_visited = visited_new (t_len (st_tract s)), w_out = [], w_referenced = [], w_stale = [], w_dangling = [], w_keys = []\<rparr>"

definition WALK_FUEL :: nat where
  "WALK_FUEL = Suc MAX_DEPTH"

definition committed_children :: "node \<Rightarrow> (nat \<times> hash \<times> nat) list" where
  "committed_children node = concat (map (\<lambda>(slot, c). case c of Some (Committed h l) \<Rightarrow> [(slot, h, l)] | _ \<Rightarrow> [])
     (enumerate 0 (n_children node)))"

section \<open>The keys\<close>

primrec walk_keys_child :: "nat \<Rightarrow> vsf_env \<Rightarrow> nat \<Rightarrow> hash \<Rightarrow> nat \<Rightarrow> ('z walk_scheme, unit) op" where
  "walk_keys_child 0 E lba hash depth = raiseE (Panic ''out of fuel'')"
| "walk_keys_child (Suc n) E lba hash depth =
     bindE (read_doc E lba hash) (\<lambda>d. case d of
       None \<Rightarrow> retE ()
     | Some doc \<Rightarrow> bindE (mark lba) (\<lambda>_. case doc of
         DocNode node \<Rightarrow>
           bindE (liftE (node_at_depth node depth)) (\<lambda>_.
           forE (committed_children node) (\<lambda>(_, h, l). walk_keys_child n E l h (depth + 1)))
       | DocLone key _ \<Rightarrow> modE (w_keys_update (\<lambda>ks. ks @ [key]))
       | DocExtent key _ _ \<Rightarrow> modE (w_keys_update (\<lambda>ks. ks @ [key]))
       | DocDirect key _ _ \<Rightarrow> modE (w_keys_update (\<lambda>ks. ks @ [key]))
       | DocFurrow _ _ _ \<Rightarrow> retE ()))"

definition walk_keys :: "vsf_env \<Rightarrow> (walk, unit) op" where
  "walk_keys E = (\<lambda>s. case h_root s of
     Some (Committed hash lba) \<Rightarrow> walk_keys_child WALK_FUEL E lba hash 0 s
   | _ \<Rightarrow> (Inr (), s))"

section \<open>The live walk\<close>

definition walk_furrows :: "vsf_env \<Rightarrow> nat list \<Rightarrow> ('z walk_scheme, unit) op" where
  "walk_furrows E ps = forE ps (\<lambda>pos.
     bindE (mark pos) (\<lambda>_. bindE (tract_read pos) (\<lambda>buf.
     case sealed_hp E buf of Some fh \<Rightarrow> push_out [(pos, fh)] | None \<Rightarrow> retE ())))"

primrec walk_child :: "nat \<Rightarrow> vsf_env \<Rightarrow> nat \<Rightarrow> hash \<Rightarrow> hash \<Rightarrow> nat \<Rightarrow> ('z walk_scheme, unit) op" where
  "walk_child 0 E lba hash route depth = raiseE (Panic ''out of fuel'')"
| "walk_child (Suc n) E lba hash route depth =
     bindE (read_doc E lba hash) (\<lambda>d. bindE (mark lba) (\<lambda>_. case d of
       None \<Rightarrow> push_stale route hash lba
     | Some doc \<Rightarrow> bindE (push_out [(lba, hash)]) (\<lambda>_. case doc of
         DocNode node \<Rightarrow>
           bindE (liftE (node_at_depth node depth)) (\<lambda>_.
           forE (committed_children node) (\<lambda>(slot, h, l). walk_child n E l h (route_with_chunk route depth slot) (depth + 1)))
       | DocDirect _ _ furrows \<Rightarrow> walk_furrows E furrows
       | DocExtent _ sz runs \<Rightarrow>
           bindE (\<lambda>s. (expand_runs E runs sz (t_len (st_tract s)), s)) (walk_furrows E)
       | _ \<Rightarrow> retE ())))"

definition walk_live_collect :: "vsf_env \<Rightarrow> (walk, unit) op" where
  "walk_live_collect E = (\<lambda>s. case h_root s of
     Some (Committed hash lba) \<Rightarrow> walk_child WALK_FUEL E lba hash (replicate 32 0) 0 s
   | _ \<Rightarrow> (Inr (), s))"

section \<open>The tree walk\<close>

definition walk_start :: "'z hst_scheme \<Rightarrow> walk_item list" where
  "walk_start s = (case h_root s of Some (Committed hash lba) \<Rightarrow> [(lba, hash, replicate 32 0, 0)] | _ \<Rightarrow> [])"

definition reference :: "nat list \<Rightarrow> ('z walk_scheme, unit) op" where
  "reference ps = forE ps (\<lambda>pos. bindE (mark pos) (\<lambda>_. modE (w_referenced_update (\<lambda>rs. rs @ [pos]))))"

definition walk_block :: "vsf_env \<Rightarrow> walk_item \<times> block \<Rightarrow> ('z walk_scheme, unit) op" where
  "walk_block E = (\<lambda>((lba, hash, route, depth), buf).
     bindE (mark lba) (\<lambda>_.
     bindE (\<lambda>s. (doc_of E buf hash (t_len (st_tract s)), s)) (\<lambda>d. case d of
       None \<Rightarrow> push_stale route hash lba
     | Some doc \<Rightarrow> bindE (push_out [(lba, hash)]) (\<lambda>_. case doc of
         DocNode node \<Rightarrow>
           bindE (liftE (node_at_depth node depth)) (\<lambda>_.
           modE (w_todo_update (\<lambda>todo. todo @ map (\<lambda>(slot, h, l).
             (l, h, route_with_chunk route depth slot, depth + 1)) (committed_children node))))
       | DocDirect _ _ furrows \<Rightarrow> reference furrows
       | DocExtent _ sz runs \<Rightarrow>
           bindE (\<lambda>s. (expand_runs E runs sz (t_len (st_tract s)), s)) reference
       | _ \<Rightarrow> retE ()))))"

definition walk_tree_step :: "vsf_env \<Rightarrow> ('z walk_scheme, unit) op" where
  "walk_tree_step E = (\<lambda>s.
     let k = length (w_todo s) - WALK_STEP; part = drop k (w_todo s) in
     case tract_read_many (map fst part) (s\<lparr>w_todo := take k (w_todo s)\<rparr>) of
       (Inl e, s1) \<Rightarrow> (Inl e, s1\<lparr>w_todo := w_todo s1 @ part\<rparr>)
     | (Inr blocks, s1) \<Rightarrow> forE (zip part blocks) (walk_block E) s1)"

text \<open>\<open>while !todo.is_empty()\<close>, with fuel.\<close>

primrec walk_tree_loop :: "nat \<Rightarrow> vsf_env \<Rightarrow> ('z walk_scheme, unit) op" where
  "walk_tree_loop 0 E = raiseE (Panic ''out of fuel'')"
| "walk_tree_loop (Suc n) E = (\<lambda>s. if w_todo s = [] then (Inr (), s)
     else bindE (walk_tree_step E) (\<lambda>_. walk_tree_loop n E) s)"

definition tree_fuel :: "'z store_scheme \<Rightarrow> nat" where
  "tree_fuel s = t_len (st_tract s) + 2 ^ 6 + 1"

definition walk_tree_collect :: "vsf_env \<Rightarrow> (walk, unit) op" where
  "walk_tree_collect E = (\<lambda>s. walk_tree_loop (tree_fuel s) E (s\<lparr>w_todo := walk_start s, w_visited := visited_new (t_len (st_tract s))\<rparr>))"

section \<open>The repair walk\<close>

definition furrow_sound :: "vsf_env \<Rightarrow> hash \<Rightarrow> nat \<Rightarrow> block \<Rightarrow> hash option" where
  "furrow_sound E key i buf = (case sealed_hp E buf of
     None \<Rightarrow> None
   | Some h \<Rightarrow> (case decode_doc E buf of
       Inr (DocFurrow k index _) \<Rightarrow> (if k = key \<and> index = i then Some h else None)
     | _ \<Rightarrow> None))"

text \<open>The furrows from index \<open>i\<close> on; \<open>None\<close> when one is lost, which is recorded.\<close>

primrec repair_furrows :: "vsf_env \<Rightarrow> hash \<Rightarrow> (string \<Rightarrow> ('z walk_scheme, unit) op) \<Rightarrow> nat list \<Rightarrow> nat \<Rightarrow>
    ('z walk_scheme, ((nat \<times> hash) list) option) op" where
  "repair_furrows E key lose [] i = retE (Some [])"
| "repair_furrows E key lose (pos # ps) i = (\<lambda>s. case reach pos (w_visited s) of
     Inl (Corrupt reason) \<Rightarrow> bindE (lose reason) (\<lambda>_. retE None) s
   | Inl e \<Rightarrow> (Inl e, s)
   | Inr bits \<Rightarrow> bindE (tract_read pos) (\<lambda>buf. case furrow_sound E key i buf of
       Some h \<Rightarrow> bindE (repair_furrows E key lose ps (i + 1)) (\<lambda>rest. retE (map_option (Cons (pos, h)) rest))
     | None \<Rightarrow> bindE (lose ''furrow lost (unsealed/foreign/mismatched owner)'') (\<lambda>_. retE None))
       (s\<lparr>w_visited := bits\<rparr>))"

definition repair_check_furrows :: "vsf_env \<Rightarrow> nat \<Rightarrow> hash \<Rightarrow> hash \<Rightarrow> hash \<Rightarrow> nat list \<Rightarrow> ('z walk_scheme, unit) op" where
  "repair_check_furrows E leaf_lba leaf_hash route key positions =
     bindE (repair_furrows E key (push_dangling route leaf_hash leaf_lba (Some key)) positions 0) (\<lambda>found.
     case found of None \<Rightarrow> retE ()
     | Some furrow_live \<Rightarrow> push_out ((leaf_lba, leaf_hash) # furrow_live))"

primrec walk_child_repair :: "nat \<Rightarrow> vsf_env \<Rightarrow> nat \<Rightarrow> hash \<Rightarrow> hash \<Rightarrow> nat \<Rightarrow> ('z walk_scheme, unit) op" where
  "walk_child_repair 0 E lba hash route depth = raiseE (Panic ''out of fuel'')"
| "walk_child_repair (Suc n) E lba hash route depth =
     bindE (tryE (read_doc E lba hash)) (\<lambda>r. case r of
       Inr None \<Rightarrow> push_stale route hash lba
     | Inl Seal \<Rightarrow> push_dangling route hash lba None ''target reused: sealed block does not match the pointer hash''
     | Inl (Corrupt reason) \<Rightarrow> push_dangling route hash lba None reason
     | Inl e \<Rightarrow> raiseE e
     | Inr (Some doc) \<Rightarrow>
         bindE (tryE (mark lba)) (\<lambda>m. case m of
           Inl (Corrupt reason) \<Rightarrow> push_dangling route hash lba None reason
         | Inl e \<Rightarrow> raiseE e
         | Inr _ \<Rightarrow> (case doc of
             DocNode node \<Rightarrow> (case node_at_depth node depth of
               Inl (Corrupt reason) \<Rightarrow> push_dangling route hash lba None reason
             | _ \<Rightarrow> bindE (push_out [(lba, hash)]) (\<lambda>_.
                 forE (committed_children node) (\<lambda>(slot, h, l).
                   walk_child_repair n E l h (route_with_chunk route depth slot) (depth + 1))))
           | DocLone _ _ \<Rightarrow> push_out [(lba, hash)]
           | DocDirect key _ furrows \<Rightarrow> repair_check_furrows E lba hash route key furrows
           | DocExtent key sz runs \<Rightarrow> (\<lambda>s. case expand_runs E runs sz (t_len (st_tract s)) of
               Inr positions \<Rightarrow> repair_check_furrows E lba hash route key positions s
             | Inl (Corrupt reason) \<Rightarrow> push_dangling route hash lba (Some key) reason s
             | Inl e \<Rightarrow> (Inl e, s))
           | DocFurrow _ _ _ \<Rightarrow> push_dangling route hash lba None ''furrow block in index position'')))"

definition walk_live_repair :: "vsf_env \<Rightarrow> (walk, unit) op" where
  "walk_live_repair E = (\<lambda>s. case h_root s of
     Some (Committed hash lba) \<Rightarrow> walk_child_repair WALK_FUEL E lba hash (replicate 32 0) 0 s
   | _ \<Rightarrow> (Inr (), s))"

end
