(* ===== verification/Key_Walk.thy ===== *)
theory Key_Walk
  imports Hamt_Total Hamt_Walk
begin

text \<open>
  The enumeration of the keys (\<open>walk_keys\<close> of \<open>src/hamt.rs\<close>): the walk changes nothing a client sees,
  and collects the key of every leaf of the tree, left to right, so that no key of the map is missed.
\<close>

section \<open>The keys of a tree\<close>

fun tree_keys :: "tree \<Rightarrow> hash list" where
  "tree_keys TGone = []"
| "tree_keys (TLeaf k v) = [k]"
| "tree_keys (TNode ts) = concat (map (\<lambda>t. case t of None \<Rightarrow> [] | Some u \<Rightarrow> tree_keys u) ts)"

lemma tree_lookup_keys: "full t \<Longrightarrow> tree_lookup key d t \<noteq> None \<Longrightarrow> key \<in> set (tree_keys t)"
proof (induction arbitrary: d rule: full.induct)
  case (full_node ts)
  have c: "ck key d < 32" by (rule chunk_less)
  then obtain u where u: "ts ! ck key d = Some u" "tree_lookup key (Suc d) u \<noteq> None"
    using full_node.prems by (auto simp: tree_lookup_node [OF full_node(1)] lookup_opt_def simp del: tree_lookup.simps(3) split: option.splits)
  then have "key \<in> set (tree_keys u)" using full_node.IH c by blast
  moreover have "Some u \<in> set ts" using u(1) c full_node(1) nth_mem [of "ck key d" ts] by simp
  ultimately show ?case by (auto intro!: bexI [of _ "Some u"])
qed (auto split: if_splits)

section \<open>The walk\<close>

declare walk_keys_child.simps [simp del]

text \<open>What a step may have done: nothing to the index, and the keys of \<open>t\<close> collected if it succeeded.\<close>

definition collects :: "hash list \<Rightarrow> 'z walk_scheme \<Rightarrow> unit result \<Rightarrow> 'z walk_scheme \<Rightarrow> bool" where
  "collects ks s r s' \<longleftrightarrow> edits {} s s' \<and> (r = Inr () \<longrightarrow> w_keys s' = w_keys s @ ks)"

lemma collects_error: "edits {} s s' \<Longrightarrow> collects ks s (Inl e) s'"
  by (simp add: collects_def)

lemma collects_trans: "collects ks s (Inr ()) s1 \<Longrightarrow> collects ls s1 r s' \<Longrightarrow> collects (ks @ ls) s r s'"
  using edits_trans_same [of "{}" s s1 s'] by (auto simp: collects_def)

lemma keys_reads:
  fixes s s' :: "'z walk_scheme"
  assumes "after_reads s s'"
  shows "w_keys s' = w_keys s"
proof -
  have s': "s' = s\<lparr>st_mirror := st_mirror s'\<rparr>" using assms by (simp add: after_reads_def)
  show ?thesis by (subst s') simp
qed

lemma mark_collects: "mark lba s = (r, s') \<Longrightarrow> store_ok s \<Longrightarrow> collects [] s r s'"
  by (auto simp: mark_def collects_def edits_def store_ok_def tview_def fun_eq_iff split: sum.splits)

lemma push_key_collects: "store_ok s \<Longrightarrow> collects [k] s (Inr ()) (w_keys_update (\<lambda>ks. ks @ [k]) s)"
  by (simp add: collects_def edits_def store_ok_def tview_def fun_eq_iff)

text \<open>The children of a node, slot by slot.\<close>

definition view_of :: "'z walk_scheme \<Rightarrow> (nat \<Rightarrow> block) \<Rightarrow> nat \<Rightarrow> bool" where
  "view_of s V L \<longleftrightarrow> store_ok s \<and> tview s = V \<and> t_len (st_tract s) = L"

lemma view_of_edits: "view_of s V L \<Longrightarrow> edits {} s s' \<Longrightarrow> view_of s' V L"
  by (simp add: view_of_def edits_def)

definition slot_walked :: "(nat \<Rightarrow> block) \<Rightarrow> nat \<Rightarrow> (hash \<Rightarrow> nat \<Rightarrow> ('z walk_scheme, unit) op) \<Rightarrow> child option \<Rightarrow> tree option \<Rightarrow> bool" where
  "slot_walked V L f c t \<longleftrightarrow> (c = None \<and> t = None) \<or> (\<exists>h l u. c = Some (Committed h l) \<and> t = Some u
     \<and> (\<forall>s r s'. view_of s V L \<longrightarrow> f h l s = (r, s') \<longrightarrow> collects (tree_keys u) s r s'))"

lemma walk_slots:
  fixes s :: "'z walk_scheme"
  assumes "list_all2 (slot_walked V L f) cs ts" and "view_of s V L"
    and "forE (concat (map (\<lambda>(slot, c). case c of Some (Committed h l) \<Rightarrow> [(slot, h, l)] | _ \<Rightarrow> []) (enumerate k cs))) (\<lambda>(_, h, l). f h l) s = (r, s')"
  shows "collects (concat (map (\<lambda>t. case t of None \<Rightarrow> [] | Some u \<Rightarrow> tree_keys u) ts)) s r s'"
  using assms
proof (induction cs ts arbitrary: k s rule: list_all2_induct)
  case Nil
  then show ?case by (auto simp: retE_run collects_def edits_refl view_of_def)
next
  case (Cons c cs t ts)
  show ?case
  proof (cases c)
    case None
    then show ?thesis using Cons by (auto simp: slot_walked_def)
  next
    case (Some ch)
    then obtain h l u where u: "ch = Committed h l" "t = Some u"
      and f: "\<And>s r s'. view_of s V L \<Longrightarrow> f h l s = (r, s') \<Longrightarrow> collects (tree_keys u) s r s'"
      using Cons.hyps(1) by (auto simp: slot_walked_def)
    have "bindE (f h l) (\<lambda>_. forE (concat (map (\<lambda>(slot, c). case c of Some (Committed h l) \<Rightarrow> [(slot, h, l)] | _ \<Rightarrow> []) (enumerate (Suc k) cs))) (\<lambda>(_, h, l). f h l)) s = (r, s')"
      using Cons.prems(2) Some u by simp
    then show ?thesis
    proof (cases rule: bindE_cases)
      case (err e)
      then show ?thesis using f [OF Cons.prems(1) err(1)] by (simp add: collects_def)
    next
      case (ok x s1)
      have c1: "collects (tree_keys u) s (Inr ()) s1" using f [OF Cons.prems(1)] ok(1) by simp
      then have "view_of s1 V L" using view_of_edits [OF Cons.prems(1)] by (simp add: collects_def)
      from collects_trans [OF c1 Cons.IH [OF this ok(2)]] show ?thesis using u by simp
    qed
  qed
qed

text \<open>The document of one visit.\<close>

definition visit_doc :: "nat \<Rightarrow> vsf_env \<Rightarrow> nat \<Rightarrow> TractDoc \<Rightarrow> ('z walk_scheme, unit) op" where
  "visit_doc n E depth doc = (case doc of
     DocNode node \<Rightarrow> bindE (liftE (node_at_depth node depth)) (\<lambda>_.
       forE (committed_children node) (\<lambda>(_, h, l). walk_keys_child n E l h (depth + 1)))
   | DocLone key _ \<Rightarrow> modE (w_keys_update (\<lambda>ks. ks @ [key]))
   | DocExtent key _ _ \<Rightarrow> modE (w_keys_update (\<lambda>ks. ks @ [key]))
   | DocDirect key _ _ \<Rightarrow> modE (w_keys_update (\<lambda>ks. ks @ [key]))
   | DocFurrow _ _ _ \<Rightarrow> retE ())"

lemma walk_keys_child_visit: "walk_keys_child (Suc n) E lba hash depth =
    bindE (read_doc E lba hash) (\<lambda>d. case d of None \<Rightarrow> retE () | Some doc \<Rightarrow> bindE (mark lba) (\<lambda>_. visit_doc n E depth doc))"
  unfolding walk_keys_child.simps visit_doc_def by (rule refl)

lemma walk_visit:
  fixes s :: "'z walk_scheme"
  assumes run: "walk_keys_child n E lba h d s = (r, s')" and v: "view_of s V L" and doc: "doc_of E (V lba) h L = Inr x"
    and step: "\<And>y m s1. x = Some y \<Longrightarrow> n = Suc m \<Longrightarrow> view_of s1 V L \<Longrightarrow> visit_doc m E d y s1 = (r, s') \<Longrightarrow> collects ks s1 r s'"
    and gone: "x = None \<Longrightarrow> ks = []"
  shows "collects ks s r s'"
proof (cases n)
  case 0
  then show ?thesis using run v by (auto simp: walk_keys_child.simps raiseE_run collects_def edits_refl view_of_def)
next
  case (Suc m)
  have ok: "store_ok s" and se: "sees s V L (h_arena s)" using v by (auto simp: view_of_def sees_def)
  show ?thesis
  proof (cases rule: read_doc_bind [OF run [unfolded Suc walk_keys_child_visit] se doc, case_names err ok])
    case (err e)
    then show ?thesis using edits_reads [OF _ ok] by (simp add: collects_def)
  next
    case rd: (ok s1)
    have c1: "collects [] s (Inr ()) s1" and v1: "view_of s1 V L"
      using edits_reads [OF rd(2) ok] keys_reads [OF rd(2)] view_of_edits [OF v] by (auto simp: collects_def)
    show ?thesis
    proof (cases x)
      case None
      then show ?thesis using rd(3) c1 gone by (auto simp: retE_run)
    next
      case (Some y)
      then have "bindE (mark lba) (\<lambda>_. visit_doc m E d y) s1 = (r, s')" using rd(3) by simp
      then show ?thesis
      proof (cases rule: bindE_cases)
        case (err e)
        then show ?thesis using mark_collects [OF err(1)] v1 c1 collects_trans [OF c1, of "[]" "Inl e" s']
          by (auto simp: view_of_def collects_def)
      next
        case (ok u s2)
        have c2: "collects [] s (Inr ()) s2"
          using collects_trans [OF c1 mark_collects, of lba "Inr ()" s2] ok(1) v1 by (auto simp: view_of_def)
        then have "view_of s2 V L" using view_of_edits [OF v] by (simp add: collects_def)
        from collects_trans [OF c2 step [OF Some Suc this ok(2)]] show ?thesis by simp
      qed
    qed
  qed
qed

lemma walk_keys_child_spec:
  assumes "repr E V L Oc A d ch t J"
  shows "\<forall>n h lba (s :: 'z walk_scheme) r s'. ch = Committed h lba \<longrightarrow> view_of s V L \<longrightarrow> walk_keys_child n E lba h d s = (r, s') \<longrightarrow>
     collects (tree_keys t) s r s'"
  using assms
proof (induction rule: repr.induct)
  case (repr_gone lba h d)
  show ?case using walk_visit [where V = V and lba = lba, OF _ _ repr_gone(2)] by fastforce
next
  case (repr_leaf lba h doc k w d)
  have "collects (tree_keys (TLeaf k w)) s1 r s'" if "view_of s1 V L" "visit_doc m E d doc s1 = (r, s')"
    for m r and s1 s' :: "'z walk_scheme"
    using that repr_leaf(3) push_key_collects [of s1 k] by (cases doc) (auto simp: visit_doc_def leaf_doc_def modE_def view_of_def)
  then show ?case using walk_visit [where V = V and lba = lba, OF _ _ repr_leaf(2)] by fastforce
next
  case (repr_node lba h n d ts)
  have sl: "list_all2 (slot_walked V L (\<lambda>h l. walk_keys_child m E l h (d + 1) :: ('z walk_scheme, unit) op)) (n_children n) ts" for m
  proof (rule list_all2_all_nthI)
    show "length (n_children n) = length ts" using repr_node.hyps by simp
    fix c assume "c < length (n_children n)"
    then have c: "c < 32" using repr_node.hyps by simp
    show "slot_walked V L (\<lambda>h l. walk_keys_child m E l h (d + 1) :: ('z walk_scheme, unit) op) (n_children n ! c) (ts ! c)"
    proof (cases "n_children n ! c")
      case None
      then show ?thesis using repr_node.IH [rule_format, OF c] by (auto simp: slot_walked_def)
    next
      case (Some ch)
      then obtain u where u: "ts ! c = Some u" "repr E V L Oc A (Suc d) ch u {}"
        "\<And>n h lba (s :: 'z walk_scheme) r s'. ch = Committed h lba \<Longrightarrow> view_of s V L \<Longrightarrow> walk_keys_child n E lba h (Suc d) s = (r, s') \<Longrightarrow> collects (tree_keys u) s r s'"
        using repr_node.IH [rule_format, OF c] by auto
      obtain h l where "ch = Committed h l" using u(2) by (cases ch) (auto elim: repr_dirtyE)
      then show ?thesis using Some u by (auto simp: slot_walked_def)
    qed
  qed
  have "collects (tree_keys (TNode ts)) s1 r s'" if "view_of s1 V L" "visit_doc m E d (DocNode n) s1 = (r, s')"
    for m r and s1 s' :: "'z walk_scheme"
    using that(2) walk_slots [OF sl that(1), of 0] repr_node(3)
    by (simp add: visit_doc_def committed_children_def node_at_depth_def bindE_def liftE_def)
  then show ?case using walk_visit [where V = V and lba = lba, OF _ _ repr_node(2)] by fastforce
qed simp

lemma walk_keys_spec:
  assumes run: "walk_keys E s = (r, s')" and h: "holds E s t" and c: "\<And>i. h_root s \<noteq> Some (Dirty i)"
  shows "holds E s' t \<and> (r = Inr () \<longrightarrow> w_keys s' = w_keys s @ (case t of None \<Rightarrow> [] | Some u \<Rightarrow> tree_keys u))"
proof (cases "h_root s")
  case None
  then show ?thesis using run h by (auto simp: walk_keys_def holds_def)
next
  case (Some ch)
  obtain hash lba where ch: "ch = Committed hash lba" using c Some by (cases ch) auto
  obtain u J where u: "t = Some u" "repr E (tview s) (t_len (st_tract s)) (occ (st_tract s)) (h_arena s) 0 ch u J"
    using h Some by (auto simp: holds_def)
  have "view_of s (tview s) (t_len (st_tract s))" using h by (simp add: view_of_def holds_def)
  moreover have "walk_keys_child WALK_FUEL E lba hash 0 s = (r, s')" using run Some ch by (simp add: walk_keys_def)
  ultimately have "collects (tree_keys u) s r s'" using walk_keys_child_spec [OF u(2)] ch by blast
  then show ?thesis using holds_edits [OF _ h] u(1) by (auto simp: collects_def)
qed

section \<open>Fuel\<close>

text \<open>A node that decodes is above the depth of a key, so the recursion never runs out.\<close>

lemma walk_keys_fuel:
  fixes s :: "'z walk_scheme"
  shows "MAX_DEPTH < n + d \<Longrightarrow> MAX_DEPTH < k + d \<Longrightarrow> 0 < n \<Longrightarrow> 0 < k \<Longrightarrow>
    walk_keys_child n E lba h d s = walk_keys_child k E lba h d s"
proof (induction n arbitrary: k E lba h d s)
  case (Suc n)
  obtain j where k: "k = Suc j" using Suc.prems by (cases k) auto
  have doc: "visit_doc n E d doc s2 = visit_doc j E d doc s2" if "doc_of E b h L = Inr (Some doc)" for doc b L and s2 :: "'z walk_scheme"
  proof (cases doc)
    case (DocNode node)
    show ?thesis
    proof (cases "n_depth node = d")
      case True
      then have "d < MAX_DEPTH" using doc_of_node_depth that DocNode by blast
      then have "walk_keys_child n E l g (d + 1) s3 = walk_keys_child j E l g (d + 1) s3" for l g and s3 :: "'z walk_scheme"
        using Suc.prems k by (intro Suc.IH) auto
      then have "walk_keys_child n E l g (d + 1) = (walk_keys_child j E l g (d + 1) :: ('z walk_scheme, unit) op)" for l g by blast
      then show ?thesis by (simp add: visit_doc_def DocNode)
    next
      case False
      then show ?thesis by (simp add: visit_doc_def DocNode node_at_depth_def bindE_def liftE_def)
    qed
  qed (simp_all add: visit_doc_def)
  show ?case unfolding k walk_keys_child_visit
  proof (rule bindE_cong)
    fix x s1 assume "read_doc E lba h s = (Inr x, s1)"
    then obtain b L where b: "doc_of E b h L = Inr x" by (auto simp: read_doc_def bindE_def liftE_def split: prod.splits sum.splits)
    have "bindE (mark lba) (\<lambda>_. visit_doc n E d y) s1 = bindE (mark lba) (\<lambda>_. visit_doc j E d y) s1" if "x = Some y" for y
      by (rule bindE_cong) (use doc b that in auto)
    then show "(case x of None \<Rightarrow> retE () | Some doc \<Rightarrow> bindE (mark lba) (\<lambda>_. visit_doc n E d doc)) s1
        = (case x of None \<Rightarrow> retE () | Some doc \<Rightarrow> bindE (mark lba) (\<lambda>_. visit_doc j E d doc)) s1"
      by (cases x) simp_all
  qed simp_all
qed simp

end
