(* ===== verification/Live_Set.thy ===== *)
theory Live_Set
  imports Spine Tract_Model "HOL-Library.AList"
begin

text \<open>
  What the vault knows to be referenced (\<open>LiveSet\<close> of \<open>src/vault.rs\<close>), the rollback fence and the
  derived reap cursor. The hash map is an association list with distinct keys, the hash set a list
  without repetition: nothing here depends on an iteration order.
\<close>

section \<open>The live set\<close>

record LiveSet =
  ls_map :: "(nat \<times> u8 list) list"
  ls_referenced :: "nat list"

definition live_empty :: LiveSet where
  "live_empty = \<lparr>ls_map = [], ls_referenced = []\<rparr>"

definition live_add :: "nat \<times> u8 list \<Rightarrow> LiveSet \<Rightarrow> LiveSet" where
  "live_add = (\<lambda>(lba, hp) ls. \<lparr>ls_map = AList.update lba hp (ls_map ls),
     ls_referenced = removeAll lba (ls_referenced ls)\<rparr>)"

definition live_remove :: "nat \<times> u8 list \<Rightarrow> LiveSet \<Rightarrow> LiveSet" where
  "live_remove = (\<lambda>(lba, hp) ls. \<lparr>
     ls_map = (if map_of (ls_map ls) lba = Some hp then AList.delete lba (ls_map ls) else ls_map ls),
     ls_referenced = removeAll lba (ls_referenced ls)\<rparr>)"

definition live_apply :: "(nat \<times> u8 list) list \<Rightarrow> (nat \<times> u8 list) list \<Rightarrow> LiveSet \<Rightarrow> LiveSet" where
  "live_apply added removed ls = fold live_remove removed (fold live_add added ls)"

definition mark_referenced :: "nat \<Rightarrow> LiveSet \<Rightarrow> LiveSet" where
  "mark_referenced lba ls =
     (if map_of (ls_map ls) lba = None then ls\<lparr>ls_referenced := List.insert lba (ls_referenced ls)\<rparr> else ls)"

definition live_len :: "LiveSet \<Rightarrow> nat" where
  "live_len ls = length (ls_map ls) + length (ls_referenced ls)"

definition live_is_empty :: "LiveSet \<Rightarrow> bool" where
  "live_is_empty ls \<longleftrightarrow> ls_map ls = [] \<and> ls_referenced ls = []"

definition positions :: "LiveSet \<Rightarrow> nat list" where
  "positions ls = map fst (ls_map ls) @ ls_referenced ls"

definition live_oracle :: "LiveSet \<Rightarrow> liveness" where
  "live_oracle ls = \<lparr>
     is_live = (\<lambda>lba hp. map_of (ls_map ls) lba = Some hp \<or> lba \<in> set (ls_referenced ls)),
     is_referenced = (\<lambda>lba. map_of (ls_map ls) lba \<noteq> None \<or> lba \<in> set (ls_referenced ls))\<rparr>"

section \<open>The fence and the reap cursor\<close>

definition fence_from :: "nat list \<Rightarrow> nat option" where
  "fence_from budgets = (if length budgets < FENCE_K then None
     else case budgets of [] \<Rightarrow> None | b # bs \<Rightarrow> Some (fold min bs b))"

definition derive_reap :: "nat \<Rightarrow> nat \<Rightarrow> LiveSet \<Rightarrow> nat result" where
  "derive_reap plow len ls =
     (if len = 0 then Inl (Panic ''remainder by zero'')
      else (let pos = plow mod len;
                clean = fold (\<lambda>lba clean. min clean (wsub (wadd lba len) pos mod len)) (positions ls) len
            in Inr (wadd plow clean - len)))"

section \<open>Well-formed live sets\<close>

lemma set_delete_subset: "set (AList.delete k al) \<subseteq> set al"
  by (auto simp: AList.delete_eq)

definition live_wf :: "LiveSet \<Rightarrow> bool" where
  "live_wf ls \<longleftrightarrow> distinct (map fst (ls_map ls)) \<and> distinct (ls_referenced ls)
     \<and> fst ` set (ls_map ls) \<inter> set (ls_referenced ls) = {}"

lemma positions_referenced: "is_referenced (live_oracle ls) lba \<longleftrightarrow> lba \<in> set (positions ls)"
  by (simp add: live_oracle_def positions_def map_of_eq_None_iff)

lemma live_len_positions: "live_wf ls \<Longrightarrow> live_len ls = card (set (positions ls))"
  using distinct_card [of "map fst (ls_map ls)"] distinct_card [of "ls_referenced ls"]
  by (simp add: live_len_def positions_def live_wf_def card_Un_disjoint)

lemma live_empty_wf: "live_wf live_empty"
  by (simp add: live_wf_def live_empty_def)

lemma live_add_wf: "live_wf ls \<Longrightarrow> live_wf (live_add x ls)"
  by (cases x) (auto simp: live_wf_def live_add_def distinct_update dom_update distinct_removeAll)

lemma live_remove_wf: "live_wf ls \<Longrightarrow> live_wf (live_remove x ls)"
  using distinct_delete [of "ls_map ls" "fst x"] set_delete_subset [of "fst x" "ls_map ls"]
  by (cases x) (auto simp: live_wf_def live_remove_def distinct_removeAll)

lemma mark_referenced_wf: "live_wf ls \<Longrightarrow> live_wf (mark_referenced lba ls)"
  by (auto simp: live_wf_def mark_referenced_def map_of_eq_None_iff)

lemma live_apply_wf: "live_wf ls \<Longrightarrow> live_wf (live_apply added removed ls)"
proof -
  assume "live_wf ls"
  then have "live_wf (fold live_add added ls)" by (induction added arbitrary: ls) (auto simp: live_add_wf)
  then show ?thesis unfolding live_apply_def
    by (induction removed arbitrary: added ls rule: rev_induct) (auto simp: live_remove_wf)
qed

section \<open>A delta\<close>

lemma fold_live_add:
  "map_of (ls_map (fold live_add added ls)) lba = (case map_of (rev added) lba of Some hp \<Rightarrow> Some hp | None \<Rightarrow> map_of (ls_map ls) lba)"
  "set (ls_referenced (fold live_add added ls)) = set (ls_referenced ls) - fst ` set added"
  by (induction added arbitrary: ls) (auto simp: live_add_def update_conv map_add_def split: option.splits)

lemma fold_live_remove:
  assumes "distinct (map fst (ls_map ls))"
  shows "map_of (ls_map (fold live_remove removed ls)) lba =
      (case map_of (ls_map ls) lba of Some hp \<Rightarrow> if (lba, hp) \<in> set removed then None else Some hp | None \<Rightarrow> None)
    \<and> set (ls_referenced (fold live_remove removed ls)) = set (ls_referenced ls) - fst ` set removed"
  using assms
proof (induction removed arbitrary: ls)
  case (Cons x removed)
  obtain l h where x: "x = (l, h)" by (cases x)
  have d: "distinct (map fst (ls_map (live_remove x ls)))" using Cons.prems by (auto simp: live_remove_def x distinct_delete)
  show ?case using Cons.IH [OF d] by (auto simp: live_remove_def x delete_conv' split: option.splits)
qed (simp split: option.splits)

lemma live_apply_map:
  assumes "live_wf ls"
  shows "map_of (ls_map (live_apply added removed ls)) lba =
      (case (case map_of (rev added) lba of Some hp \<Rightarrow> Some hp | None \<Rightarrow> map_of (ls_map ls) lba) of
         Some hp \<Rightarrow> if (lba, hp) \<in> set removed then None else Some hp | None \<Rightarrow> None)"
    and "set (ls_referenced (live_apply added removed ls)) = set (ls_referenced ls) - fst ` set added - fst ` set removed"
proof -
  have "live_wf (fold live_add added ls)" using live_apply_wf [OF assms, of added "[]"] by (simp add: live_apply_def)
  then have d: "distinct (map fst (ls_map (fold live_add added ls)))" by (simp add: live_wf_def)
  show "map_of (ls_map (live_apply added removed ls)) lba =
      (case (case map_of (rev added) lba of Some hp \<Rightarrow> Some hp | None \<Rightarrow> map_of (ls_map ls) lba) of
         Some hp \<Rightarrow> if (lba, hp) \<in> set removed then None else Some hp | None \<Rightarrow> None)"
    unfolding live_apply_def using fold_live_remove [OF d, of removed lba] by (simp add: fold_live_add)
  show "set (ls_referenced (live_apply added removed ls)) = set (ls_referenced ls) - fst ` set added - fst ` set removed"
    unfolding live_apply_def using fold_live_remove [OF d, of removed lba] by (simp add: fold_live_add)
qed

section \<open>The derived reap cursor\<close>

text \<open>The distance from the plow to a live position, going downstream around the ring.\<close>

definition ahead :: "nat \<Rightarrow> nat \<Rightarrow> nat \<Rightarrow> nat" where
  "ahead plow len lba = (lba + len - plow mod len) mod len"

lemma ahead_hits: "0 < len \<Longrightarrow> lba < len \<Longrightarrow> (plow + ahead plow len lba) mod len = lba"
proof -
  assume len: "0 < len" and lba: "lba < len"
  have pos: "plow mod len < len" using len by simp
  have "(plow + ahead plow len lba) mod len = (plow mod len + (lba + len - plow mod len)) mod len"
    by (simp add: ahead_def mod_simps)
  also have "plow mod len + (lba + len - plow mod len) = lba + len" using pos by simp
  finally show ?thesis using lba by simp
qed

lemma ahead_first: "0 < len \<Longrightarrow> i < len \<Longrightarrow> (plow + i) mod len = lba \<Longrightarrow> i = ahead plow len lba"
proof -
  assume len: "0 < len" and i: "i < len" and l: "(plow + i) mod len = lba"
  then have "(plow + i) mod len = (plow + ahead plow len lba) mod len" by (auto simp: ahead_hits)
  then have "plow + i = plow + ahead plow len lba"
    by (rule mod_window_inj [where x = plow]) (use len i in \<open>auto simp: ahead_def\<close>)
  then show ?thesis by simp
qed

lemma fold_min_le: "fold (\<lambda>x m. min m (f x)) xs (n :: nat) \<le> n \<and> (\<forall>x \<in> set xs. fold (\<lambda>x m. min m (f x)) xs n \<le> f x)
    \<and> (fold (\<lambda>x m. min m (f x)) xs n = n \<or> (\<exists>x \<in> set xs. fold (\<lambda>x m. min m (f x)) xs n = f x))"
proof (induction xs arbitrary: n)
  case (Cons x xs)
  show ?case using Cons.IH [of "min n (f x)"] by (auto simp: min_def split: if_splits)
qed simp

lemma derive_reap_eq:
  assumes "0 < len" and "\<forall>p \<in> set (positions ls). p < len" and "plow + 2 * len < U64"
  shows "derive_reap plow len ls = Inr (plow + fold (\<lambda>p m. min m (ahead plow len p)) (positions ls) len - len)"
proof -
  have one: "wsub (wadd p len) (plow mod len) mod len = ahead plow len p" if "p < len" for p
  proof -
    have "plow mod len < len" using assms(1) by simp
    moreover have "wadd p len = p + len" using that assms(3) by (intro wadd_eq) simp
    moreover have "wsub (p + len) (plow mod len) = p + len - plow mod len"
      using calculation(1) that assms(3) by (intro wsub_eq) linarith+
    ultimately show ?thesis by (simp add: ahead_def)
  qed
  have "fold (\<lambda>p m. min m (wsub (wadd p len) (plow mod len) mod len)) ps n = fold (\<lambda>p m. min m (ahead plow len p)) ps n"
    if "\<forall>p \<in> set ps. p < len" for ps n
    using that by (induction ps arbitrary: n) (auto simp: one)
  moreover have "fold (\<lambda>p m. min m (ahead plow len p)) (positions ls) len \<le> len" using fold_min_le by blast
  moreover from this have "wadd plow (fold (\<lambda>p m. min m (ahead plow len p)) (positions ls) len) = plow + fold (\<lambda>p m. min m (ahead plow len p)) (positions ls) len"
    using assms(3) by (intro wadd_eq) simp
  ultimately show ?thesis using assms(1,2) by (simp add: derive_reap_def Let_def)
qed

text \<open>When no live position lies ahead of the plow on its first lap, the clean space ends at a live block.\<close>

lemma derive_reap_spec:
  assumes "0 < len" and "\<forall>p \<in> set (positions ls). p < len" and "plow + 2 * len < U64"
    and "len \<le> plow \<or> (\<forall>p \<in> set (positions ls). p < plow)"
  shows "\<exists>reap. derive_reap plow len ls = Inr reap \<and> reap \<le> plow \<and> plow \<le> reap + len
    \<and> (\<forall>i. plow \<le> i \<longrightarrow> i < reap + len \<longrightarrow> \<not> is_referenced (live_oracle ls) (i mod len))
    \<and> (reap = plow \<or> is_referenced (live_oracle ls) ((reap + len) mod len))"
proof -
  let ?c = "fold (\<lambda>p m. min m (ahead plow len p)) (positions ls) len"
  have c: "?c \<le> len" "\<And>p. p \<in> set (positions ls) \<Longrightarrow> ?c \<le> ahead plow len p" "?c = len \<or> (\<exists>p \<in> set (positions ls). ?c = ahead plow len p)"
    using fold_min_le [of "ahead plow len" "positions ls" len] by auto
  have low: "len \<le> plow + ?c"
  proof (cases "len \<le> plow")
    case False
    have "len \<le> plow + ahead plow len p" if p: "p \<in> set (positions ls)" for p
    proof -
      have "p < plow" using p False assms(4) by blast
      then have "ahead plow len p = p + len - plow" using False by (simp add: ahead_def)
      then show ?thesis by linarith
    qed
    then show ?thesis using c(3) by auto
  qed simp
  let ?r = "plow + ?c - len"
  have run: "derive_reap plow len ls = Inr ?r" by (rule derive_reap_eq [OF assms(1-3)])
  have rl: "?r + len = plow + ?c" using low by simp
  have free: "\<not> is_referenced (live_oracle ls) (i mod len)" if i: "plow \<le> i" "i < plow + ?c" for i
  proof
    assume "is_referenced (live_oracle ls) (i mod len)"
    then have p: "i mod len \<in> set (positions ls)" by (simp add: positions_referenced)
    have "i - plow = ahead plow len (i mod len)" by (rule ahead_first [OF assms(1)]) (use i c(1) in auto)
    then show False using c(2) [OF p] i by linarith
  qed
  have edge: "?r = plow \<or> is_referenced (live_oracle ls) ((?r + len) mod len)"
    using c(3)
  proof
    assume "\<exists>p \<in> set (positions ls). ?c = ahead plow len p"
    then obtain p where p: "p \<in> set (positions ls)" "?c = ahead plow len p" by blast
    then have "(?r + len) mod len = p" using ahead_hits [OF assms(1), of p plow] assms(2) rl by simp
    then show ?thesis using p(1) by (simp add: positions_referenced)
  qed simp
  show ?thesis using run rl free edge c(1) by (intro exI [where x = ?r]) auto
qed

end
