(* ===== verification/Hamt_Reap.thy ===== *)
theory Hamt_Reap
  imports Hamt_Model
begin

text \<open>
  Cleaning the tract (\<open>reap_window\<close> of \<open>src/hamt.rs\<close>) and the index repair that follows a moved
  block: every block names its own place in the index, so the repair is a directed descent.

  The furrows of a window are grouped by owner in a hash map; the order in which the map is iterated
  is the parameter \<open>ho\<close>.
\<close>

section \<open>Repointing\<close>

definition U8_MAX :: nat where
  "U8_MAX = 255"

function repoint :: "vsf_env \<Rightarrow> child option \<Rightarrow> nat \<Rightarrow> hash \<Rightarrow> nat \<Rightarrow> hash \<times> nat \<Rightarrow> hash \<times> nat \<Rightarrow> ('z hst_scheme, child option) op" where
  "repoint E None depth key target_depth old new = retE None"
| "repoint E (Some (Committed hash lba)) depth key target_depth old new =
     (if hash = fst old \<and> lba = snd old
      then bindE (modE (h_hits_update Suc)) (\<lambda>_. retE (Some (Committed (fst new) (snd new))))
      else if target_depth \<noteq> U8_MAX \<and> depth > target_depth + 1 then retE (Some (Committed hash lba))
      else bindE (read_doc E lba hash) (\<lambda>d. case d of
        Some (DocNode node) \<Rightarrow>
          bindE (liftE (node_at_depth node depth)) (\<lambda>_.
          bindE (arena_push node) (\<lambda>idx.
          bindE (push_removed [(lba, hash)]) (\<lambda>_.
          case chunk key depth of Inl e \<Rightarrow> raiseE e | Inr c \<Rightarrow>
          bindE (liftE (child_at node c)) (\<lambda>sub.
          bindE (repoint E sub (depth + 1) key target_depth old new) (\<lambda>new_sub.
          bindE (modE (arena_set idx c new_sub)) (\<lambda>_.
          retE (Some (Dirty idx))))))))
      | _ \<Rightarrow> retE (Some (Committed hash lba))))"
| "repoint E (Some (Dirty idx)) depth key target_depth old new =
     (case chunk key depth of Inl e \<Rightarrow> raiseE e | Inr c \<Rightarrow>
      bindE (arena_get idx) (\<lambda>node.
      bindE (liftE (child_at node c)) (\<lambda>sub.
      bindE (repoint E sub (depth + 1) key target_depth old new) (\<lambda>new_sub.
      bindE (modE (arena_set idx c new_sub)) (\<lambda>_.
      retE (Some (Dirty idx)))))))"
  by pat_completeness auto
termination
  by (relation "measure (\<lambda>(_, _, depth, _, _, _, _). 52 - depth)") (auto simp: chunk_def split: if_splits)

text \<open>A repoint from the root that must hit.\<close>

definition repoint_root :: "vsf_env \<Rightarrow> hash \<Rightarrow> nat \<Rightarrow> hash \<times> nat \<Rightarrow> hash \<times> nat \<Rightarrow> error \<Rightarrow> ('z hst_scheme, unit) op" where
  "repoint_root E key target_depth old new miss =
     bindE (getE h_hits) (\<lambda>before.
     bindE (getE h_root) (\<lambda>root.
     bindE (repoint E root 0 key target_depth old new) (\<lambda>new_root.
     bindE (modE (h_root_update (\<lambda>_. new_root))) (\<lambda>_.
     bindE (getE h_hits) (\<lambda>after.
     if after = before then raiseE miss else retE ())))))"

definition replace_leaf :: "vsf_env \<Rightarrow> hash \<Rightarrow> hash \<times> nat \<Rightarrow> hash \<times> nat \<Rightarrow> ('z hst_scheme, unit) op" where
  "replace_leaf E key old new = repoint_root E key U8_MAX old new
     (Corrupt ''leaf replacement repointed nothing: refusing to orphan the rebuilt extent'')"

definition repair_reloc :: "vsf_env \<Rightarrow> Reloc \<Rightarrow> ('z hst_scheme, unit) op" where
  "repair_reloc E r =
     bindE (tract_read (rl_to r)) (\<lambda>buf.
     if sealed_hp E buf = None then raiseE (Corrupt ''relocated block unreadable at destination'')
     else bindE (liftE (decode_doc E buf)) (\<lambda>doc.
       let go = (\<lambda>key target. repoint_root E key target (rl_hp r, rl_from r) (rl_hp r, rl_to r)
                   (Corrupt ''relocation repointed nothing: refusing to orphan a live block'')) in
       case doc of
         DocLone key _ \<Rightarrow> go key U8_MAX
       | DocDirect key _ _ \<Rightarrow> go key U8_MAX
       | DocExtent key _ _ \<Rightarrow> go key U8_MAX
       | DocFurrow _ _ _ \<Rightarrow> raiseE (Corrupt ''furrow move must be handled by the reap'')
       | DocNode node \<Rightarrow> go (n_route node) (n_depth node)))"

definition repair_relocs :: "vsf_env \<Rightarrow> Reloc list \<Rightarrow> ('z hst_scheme, unit) op" where
  "repair_relocs E rs = forE rs (repair_reloc E)"

section \<open>One window\<close>

type_synonym owners = "(hash \<times> (nat \<times> nat) list) list"

text \<open>\<open>furrow_owners.entry(key).or_default().push(x)\<close>.\<close>

fun owner_push :: "hash \<Rightarrow> nat \<times> nat \<Rightarrow> owners \<Rightarrow> owners" where
  "owner_push key x [] = [(key, [x])]"
| "owner_push key x ((k, g) # os) = (if k = key then (k, g @ [x]) # os else (k, g) # owner_push key x os)"

definition reap_scan :: "vsf_env \<Rightarrow> liveness \<Rightarrow> (nat \<times> hash) list \<Rightarrow> nat \<Rightarrow> ('z hst_scheme, (nat \<times> hash \<times> TractDoc) option) op" where
  "reap_scan E oracle retired m = (\<lambda>s.
     if t_len (st_tract s) = 0 then (Inl (Panic ''remainder by zero''), s)
     else (let pos = m mod t_len (st_tract s) in
       bindE (tract_read pos) (\<lambda>buf. case sealed_hp E buf of
         None \<Rightarrow> retE None
       | Some hp \<Rightarrow>
           if \<not> is_live oracle pos hp \<or> (pos, hp) \<in> set retired then retE None
           else bindE (liftE (decode_doc E buf)) (\<lambda>doc. retE (Some (pos, hp, doc)))) s))"

definition survivors :: "(TractDoc \<Rightarrow> bool) \<Rightarrow> (nat \<times> hash \<times> TractDoc) option list \<Rightarrow> (nat \<times> hash) list" where
  "survivors p xs = concat (map (\<lambda>x. case x of Some (pos, hp, doc) \<Rightarrow> if p doc then [(pos, hp)] else [] | None \<Rightarrow> []) xs)"

definition furrow_owners :: "(nat \<times> hash \<times> TractDoc) option list \<Rightarrow> owners" where
  "furrow_owners xs = fold (\<lambda>x os. case x of
     Some (pos, _, DocFurrow key index _) \<Rightarrow> owner_push key (pos, index) os | _ \<Rightarrow> os) xs []"

fun patch_positions :: "(nat \<times> nat) list \<Rightarrow> nat list \<Rightarrow> (nat list) result" where
  "patch_positions [] positions = Inr positions"
| "patch_positions ((i, newpos) # ps) positions =
     (if i \<ge> length positions then Inl (Corrupt ''furrow index beyond its extent'')
      else patch_positions ps (positions[i := newpos]))"

definition move_extent :: "vsf_env \<Rightarrow> liveness \<Rightarrow> hash \<Rightarrow> nat \<times> hash \<Rightarrow> nat \<Rightarrow> (nat \<times> nat) list \<Rightarrow> (nat \<times> nat) list \<Rightarrow> ('z hst_scheme, unit) op" where
  "move_extent E oracle key leaf sz runs group0 =
     (let group = sort_key snd group0 in
      bindE (mapE (\<lambda>(pos, _). tract_read pos) group) (\<lambda>payload.
      bindE (tract_append oracle payload) (\<lambda>placed.
      bindE (\<lambda>s. (expand_runs E runs sz (t_len (st_tract s)), s)) (\<lambda>positions.
      bindE (liftE (patch_positions (zip (map snd group) placed) positions)) (\<lambda>positions'.
      bindE (liftE (encode_extent E key sz (compress_runs positions'))) (\<lambda>new_leaf.
      bindE (tract_append oracle [new_leaf]) (\<lambda>nl.
      bindE (liftE (hp_of E new_leaf)) (\<lambda>nh.
      bindE (replace_leaf E key (snd leaf, fst leaf) (nh, hd nl)) (\<lambda>_.
      bindE (mapE (\<lambda>b. liftE (hp_of E b)) payload) (\<lambda>hs.
      bindE (push_added (zip placed hs)) (\<lambda>_.
      bindE (push_removed (zip (map fst group) hs)) (\<lambda>_.
      bindE (push_added [(hd nl, nh)]) (\<lambda>_.
      push_removed [leaf])))))))))))))"

definition move_owner :: "vsf_env \<Rightarrow> liveness \<Rightarrow> hash \<times> (nat \<times> nat) list \<Rightarrow> ('z hst_scheme, unit) op" where
  "move_owner E oracle = (\<lambda>(key, group).
     bindE (find_leaf E key) (\<lambda>found. case found of
       None \<Rightarrow> retE ()
     | Some (leaf_lba, leaf_hash) \<Rightarrow>
         bindE (read_doc E leaf_lba leaf_hash) (\<lambda>d. case d of
           Some (DocExtent k sz runs) \<Rightarrow>
             if k = key then move_extent E oracle key (leaf_lba, leaf_hash) sz runs group else retE ()
         | Some (DocDirect k sz furrows) \<Rightarrow>
             if k = key then bindE (read_furrows E key sz furrows) (put E oracle key) else retE ()
         | _ \<Rightarrow> retE ())))"

definition move_block :: "vsf_env \<Rightarrow> liveness \<Rightarrow> nat \<times> hash \<Rightarrow> ('z hst_scheme, unit) op" where
  "move_block E oracle = (\<lambda>(pos, hp).
     bindE (getE h_removed) (\<lambda>removed.
     if (pos, hp) \<in> set removed then retE ()
     else bindE (tract_read pos) (\<lambda>b.
       if sealed_hp E b \<noteq> Some hp then retE ()
       else bindE (tract_append oracle [b]) (\<lambda>ps.
         bindE (repair_relocs E [\<lparr>rl_hp = hp, rl_from = pos, rl_to = hd ps\<rparr>]) (\<lambda>_.
         bindE (push_added [(hd ps, hp)]) (\<lambda>_.
         push_removed [(pos, hp)]))))))"

definition hamt_reap_window :: "vsf_env \<Rightarrow> (owners \<Rightarrow> owners) \<Rightarrow> liveness \<Rightarrow> nat \<Rightarrow> ('z hst_scheme, unit) op" where
  "hamt_reap_window E ho oracle window = (\<lambda>s.
     let start = t_reap (st_tract s); w = min window (wsub (t_plow (st_tract s)) start) in
     if w = 0 then (Inr (), s)
     else bindE (mapE (reap_scan E oracle (h_removed s)) [start ..< wadd start w]) (\<lambda>xs.
       bindE (forE (ho (furrow_owners xs)) (move_owner E oracle)) (\<lambda>_.
       bindE (forE (survivors (\<lambda>d. case d of DocLone _ _ \<Rightarrow> True | _ \<Rightarrow> False) xs
                  @ survivors (\<lambda>d. case d of DocDirect _ _ _ \<Rightarrow> True | DocExtent _ _ _ \<Rightarrow> True | _ \<Rightarrow> False) xs
                  @ survivors (\<lambda>d. case d of DocNode _ \<Rightarrow> True | _ \<Rightarrow> False) xs) (move_block E oracle)) (\<lambda>_.
       modE (st_tract_update (t_reap_update (\<lambda>_. wadd start w)))))) s)"

section \<open>The legacy format\<close>

definition legacy_furrow_blocks :: "vsf_env \<Rightarrow> hash \<Rightarrow> u8 list \<Rightarrow> (block list) result" where
  "legacy_furrow_blocks E key v =
     fold (\<lambda>i acc. bindR acc (\<lambda>bs. bindR (furrow_block E key v i) (\<lambda>b. Inr (bs @ [b]))))
       [0 ..< div_ceil (length v) (furrow_capacity E)] (Inr [])"

definition put_legacy_direct :: "vsf_env \<Rightarrow> liveness \<Rightarrow> hash \<Rightarrow> u8 list \<Rightarrow> ('z hst_scheme, unit) op" where
  "put_legacy_direct E live key v =
     bindE (liftE (legacy_furrow_blocks E key v)) (\<lambda>payload.
     bindE (tract_append live payload) (\<lambda>placed.
     bindE (mapE (\<lambda>b. liftE (hp_of E b)) payload) (\<lambda>hs.
     bindE (push_added (zip placed hs)) (\<lambda>_.
     bindE (liftE (encode_direct E key (length v) placed)) (\<lambda>leaf.
     bindE (append_leaf E live leaf) (\<lambda>(lba, hash).
     bindE (getE h_root) (\<lambda>root.
     bindE (insert_child E root 0 key (Committed hash lba)) (\<lambda>new_root.
     modE (h_root_update (\<lambda>_. Some new_root))))))))))"

end
