(* ===== verification/Vault_Model.thy ===== *)
theory Vault_Model
  imports Live_Set Ring_Model Hamt_Walk Hamt_Reap
begin

text \<open>
  The vault of \<open>src/vault.rs\<close>: spine, tract and index composed into a keyed store. The record
  \<open>vault\<close> extends the state of the index with the ring's own fields (the ring's mirror is the one of
  the store), the live set, the root entry of the migrating profile, the delete policy, the staged
  reap and the walk of a lazy open.

  Every public write first finishes the walk of a lazy open (\<open>settle\<close>). Once that is done
  \<open>v_settling\<close> stays \<open>None\<close>, so the nested calls of the source find nothing to settle: the bodies
  without their opening \<open>settle\<close> are the definitions ending in \<open>_now\<close>, and the operations the source
  exposes are \<open>settle\<close> followed by them.

  Loops: the ladders of the source are bounded and recurse on their bound. The order in which the
  reap's hash map of furrow owners is iterated is the parameter \<open>ho\<close>.
\<close>

section \<open>State\<close>

record settling =
  sg_todo :: "walk_item list"
  sg_visited :: "64 word list"
  sg_live_blocks :: "(nat \<times> hash) list"
  sg_referenced :: "nat list"
  sg_stale :: "StalePointer list"

record vault = hst +
  v_log2 :: nat
  v_base :: nat
  v_head :: "(nat \<times> SpineEntry) option"
  v_live :: LiveSet
  v_root :: "RootEntry option"
  v_policy :: DeletePolicy
  v_pending_reap :: "nat option"
  v_settling :: "settling option"

definition ring_of :: "'z vault_scheme \<Rightarrow> ring" where
  "ring_of v = \<lparr>r_mirror = st_mirror v, r_log2 = v_log2 v, r_base = v_base v, r_head = v_head v\<rparr>"

definition on_ring :: "(ring, 'x) op \<Rightarrow> ('z vault_scheme, 'x) op" where
  "on_ring f = (\<lambda>v. case f (ring_of v) of (x, r) \<Rightarrow>
     (x, v\<lparr>st_mirror := r_mirror r, v_log2 := r_log2 r, v_base := r_base r, v_head := r_head r\<rparr>))"

definition need_head :: "string \<Rightarrow> ('z vault_scheme, SpineEntry) op" where
  "need_head msg = (\<lambda>v. (ok_or (Corrupt msg) (map_option snd (v_head v)), v))"

text \<open>\<open>self.hamt = Hamt::from_root(hash, lba)\<close>.\<close>

definition load_root :: "hash \<Rightarrow> nat \<Rightarrow> 'z vault_scheme \<Rightarrow> 'z vault_scheme" where
  "load_root hash lba v = v\<lparr>h_root := (if hash = replicate 32 0 then None else Some (Committed hash lba)),
     h_arena := [], h_added := [], h_removed := [], h_hits := 0\<rparr>"

definition REAP_WINDOW_MIN :: nat where
  "REAP_WINDOW_MIN = 2 ^ 4"

definition RECLAIM_WINDOW_MAX :: nat where
  "RECLAIM_WINDOW_MAX = 2 ^ 8"

definition RESERVE :: nat where
  "RESERVE = 4"

definition reap_window :: "'z vault_scheme \<Rightarrow> nat" where
  "reap_window v = max (t_len (st_tract v) div 2 ^ 6) REAP_WINDOW_MIN"

definition oracle_of :: "'z vault_scheme \<Rightarrow> liveness" where
  "oracle_of v = live_oracle (v_live v)"

definition refence :: "vsf_env \<Rightarrow> ('z vault_scheme, unit) op" where
  "refence E = bindE (on_ring (recent_fences E FENCE_K)) (\<lambda>fences.
     modE (st_tract_update (t_fence_limit_update (\<lambda>_. fence_from fences))))"

section \<open>Commit\<close>

definition next_entry :: "SpineEntry \<Rightarrow> hash \<Rightarrow> 'z vault_scheme \<Rightarrow> hash \<Rightarrow> nat \<Rightarrow> nat \<Rightarrow> nat \<Rightarrow> nat option \<Rightarrow> int \<Rightarrow> SpineEntry" where
  "next_entry head prev v hamt_hash hamt_lba tract_blocks plow reap now =
     \<lparr>se_gen = wadd (se_gen head) 1, se_prev_hash = prev, se_ring_log2 = v_log2 v, se_tract_blocks = tract_blocks,
      se_hamt_hash = hamt_hash, se_hamt_lba = hamt_lba, se_plow = plow, se_reap = reap,
      se_live = live_len (v_live v) mod U64, se_eagle_time = now\<rparr>"

definition append_heartbeat :: "vsf_env \<Rightarrow> int \<Rightarrow> ('z vault_scheme, unit) op" where
  "append_heartbeat E now =
     bindE (need_head ''heartbeat on pre-genesis vault'') (\<lambda>head.
     bindE (liftE (spine_body_hash E head)) (\<lambda>prev.
     bindE (getE (\<lambda>v. next_entry head prev v (se_hamt_hash head) (se_hamt_lba head) (se_tract_blocks head)
                        (se_plow head) (se_reap head) now)) (\<lambda>entry.
     bindE (on_ring (ring_append E entry)) (\<lambda>_.
     refence E))))"

definition take_live_delta :: "'z vault_scheme \<Rightarrow> 'z vault_scheme" where
  "take_live_delta v = (case take_delta v of ((added, removed), v') \<Rightarrow>
     v'\<lparr>v_live := live_apply added removed (v_live v)\<rparr>)"

primrec flush_ladder :: "nat \<Rightarrow> vsf_env \<Rightarrow> int \<Rightarrow> ('z vault_scheme, hash \<times> nat) op" where
  "flush_ladder 0 E now = bindE (\<lambda>v. hamt_flush E (oracle_of v) v) (\<lambda>x. bindE (modE take_live_delta) (\<lambda>_. retE x))"
| "flush_ladder (Suc n) E now =
     bindE (tryE (\<lambda>v. hamt_flush E (oracle_of v) v)) (\<lambda>r. case r of
       Inr x \<Rightarrow> bindE (modE take_live_delta) (\<lambda>_. retE x)
     | Inl (Fenced _) \<Rightarrow> bindE (append_heartbeat E now) (\<lambda>_. flush_ladder n E now)
     | Inl e \<Rightarrow> raiseE e)"

definition FLUSH_TRIES :: nat where
  "FLUSH_TRIES = FENCE_K + 3"

definition migrate_ring :: "vsf_env \<Rightarrow> int \<Rightarrow> ('z vault_scheme, unit) op" where
  "migrate_ring E now = (\<lambda>v. case v_root v of
     None \<Rightarrow> (Inr (), v)
   | Some root \<Rightarrow>
       (let n = 2 ^ re_ring_log2 root; cur = v_base v; idx = wsub cur ROOT_SLOTS div n in
        if re_residences root = 0 then (Inl (Panic ''remainder by zero''), v)
        else
         (let nxt = wadd ROOT_SLOTS (wmul (wadd idx 1 mod re_residences root) n) in
          bindE (with_mirror (zero_ring_at (re_ring_log2 root) nxt)) (\<lambda>_.
          bindE (liftE (root_body_hash E root)) (\<lambda>prev.
          bindE (getE (\<lambda>v. case v_head v of Some (_, h) \<Rightarrow> se_gen h | None \<Rightarrow> 0)) (\<lambda>head_gen.
          let new_root = root\<lparr>re_gen := wadd (re_gen root) 1, re_prev_hash := prev, re_at := nxt, re_was := cur,
                re_since := wadd head_gen 1, re_eagle_time := now\<rparr> in
          bindE (with_mirror (append_root E new_root)) (\<lambda>_.
          bindE (on_ring (modE (set_base nxt))) (\<lambda>_.
          modE (v_root_update (\<lambda>_. Some new_root))))))) v)))"

definition maybe_migrate :: "vsf_env \<Rightarrow> int \<Rightarrow> nat \<Rightarrow> ('z vault_scheme, unit) op" where
  "maybe_migrate E now gen = (\<lambda>v. case v_root v of
     None \<Rightarrow> (Inr (), v)
   | Some root \<Rightarrow>
       if gen - re_since root \<ge> (re_residency root * 2 ^ v_log2 v) mod U64 then migrate_ring E now v else (Inr (), v))"

definition retire_pending :: "'z vault_scheme \<Rightarrow> 'z vault_scheme" where
  "retire_pending v = (case v_pending_reap v of
     Some r \<Rightarrow> v\<lparr>st_tract := (st_tract v)\<lparr>t_reap := r\<rparr>, v_pending_reap := None\<rparr> | None \<Rightarrow> v)"

definition commit_now :: "vsf_env \<Rightarrow> int \<Rightarrow> ('z vault_scheme, unit) op" where
  "commit_now E now =
     bindE (flush_ladder FLUSH_TRIES E now) (\<lambda>(root_hash, root_lba).
     bindE (modE retire_pending) (\<lambda>_.
     bindE (need_head ''commit on pre-genesis vault'') (\<lambda>head.
     bindE (liftE (spine_body_hash E head)) (\<lambda>prev.
     bindE (getE (\<lambda>v. next_entry head prev v root_hash root_lba (t_len (st_tract v)) (t_plow (st_tract v))
                        (Some (t_reap (st_tract v))) now)) (\<lambda>entry.
     bindE (on_ring (ring_append E entry)) (\<lambda>_.
     bindE (refence E) (\<lambda>_.
     maybe_migrate E now (se_gen entry))))))))"

section \<open>Growth\<close>

definition live_from :: "(nat \<times> hash) list \<Rightarrow> nat list \<Rightarrow> LiveSet" where
  "live_from live_blocks referenced =
     fold mark_referenced referenced (fold (\<lambda>(lba, hp) ls. ls\<lparr>ls_map := AList.update lba hp (ls_map ls)\<rparr>) live_blocks live_empty)"

text \<open>The tree walk over the index of the vault, and the live set it gives.\<close>

definition rewalk_live :: "vsf_env \<Rightarrow> ('z vault_scheme, unit) op" where
  "rewalk_live E = (\<lambda>v. case walk_tree_collect E (walk_begin [] v) of
     (Inl e, w) \<Rightarrow> (Inl e, v\<lparr>st_mirror := st_mirror w\<rparr>)
   | (Inr _, w) \<Rightarrow> (Inr (), v\<lparr>st_mirror := st_mirror w, v_live := live_from (w_out w) (w_referenced w)\<rparr>))"

text \<open>The cursors over a longer tract: the clean space is exactly the new blocks.\<close>

definition realign :: "nat \<Rightarrow> nat \<Rightarrow> 'z vault_scheme \<Rightarrow> 'z vault_scheme" where
  "realign old_len new_len v =
     (let plow = t_plow (st_tract v); delta = wsub (wadd old_len new_len) (plow mod new_len) mod new_len;
          plow' = wadd plow delta
      in v\<lparr>st_tract := (st_tract v)\<lparr>t_plow := plow', t_reap := wsub plow' old_len, t_len := new_len\<rparr>\<rparr>)"

definition grow_now :: "vsf_env \<Rightarrow> nat \<Rightarrow> int \<Rightarrow> ('z vault_scheme, unit) op" where
  "grow_now E new_blocks now = (\<lambda>v.
     let old_len = t_len (st_tract v) in
     if new_blocks \<le> old_len then (Inr (), v)
     else bindE (with_mirror (mirror_grow (wadd (t_base (st_tract v)) new_blocks))) (\<lambda>_.
       bindE (need_head ''grow on pre-genesis vault'') (\<lambda>head.
       bindE (modE (\<lambda>v. (load_root (se_hamt_hash head) (se_hamt_lba head) v)
                \<lparr>st_tract := (st_tract v)\<lparr>t_plow := se_plow head\<rparr>, v_pending_reap := None\<rparr>)) (\<lambda>_.
       bindE (rewalk_live E) (\<lambda>_.
       bindE (modE (realign old_len new_blocks)) (\<lambda>_.
       commit_now E now))))) v)"

definition grow_preserving_now :: "vsf_env \<Rightarrow> nat \<Rightarrow> int \<Rightarrow> ('z vault_scheme, unit) op" where
  "grow_preserving_now E new_blocks now = (\<lambda>v.
     let old_len = t_len (st_tract v) in
     if new_blocks \<le> old_len then (Inr (), v)
     else bindE (with_mirror (mirror_grow (wadd (t_base (st_tract v)) new_blocks))) (\<lambda>_.
       bindE (modE (v_pending_reap_update (\<lambda>_. None))) (\<lambda>_.
       bindE (modE (realign old_len new_blocks)) (\<lambda>_.
       commit_now E now))) v)"

section \<open>Reaping\<close>

definition reap_staged :: "vsf_env \<Rightarrow> (owners \<Rightarrow> owners) \<Rightarrow> nat \<Rightarrow> ('z vault_scheme, unit) op" where
  "reap_staged E ho w = (\<lambda>v. let start = t_reap (st_tract v) in
     bindE (hamt_reap_window E ho (oracle_of v) w) (\<lambda>_.
     modE (\<lambda>v. v\<lparr>v_pending_reap := Some (t_reap (st_tract v)), st_tract := (st_tract v)\<lparr>t_reap := start\<rparr>\<rparr>)) v)"

definition reap_capped_now :: "vsf_env \<Rightarrow> (owners \<Rightarrow> owners) \<Rightarrow> int \<Rightarrow> nat \<Rightarrow> ('z vault_scheme, bool) op" where
  "reap_capped_now E ho now cap =
     bindE (\<lambda>v. if v_pending_reap v \<noteq> None then commit_now E now v else (Inr (), v)) (\<lambda>_ v.
     let t = st_tract v; occupied = wsub (t_plow t) (t_reap t) in
     if occupied = 0 then (Inr False, v)
     else (let w = min (min (min (reap_window v) cap) occupied) (clean_blocks t - RESERVE) in
       if w = 0 then (Inr False, v)
       else bindE (\<lambda>v. case t_fence_limit (st_tract v) of
            Some l \<Rightarrow> if l - t_plow (st_tract v) < wadd w RESERVE then commit_now E now v else (Inr (), v)
          | None \<Rightarrow> (Inr (), v)) (\<lambda>_ v.
         let w' = (case t_fence_limit (st_tract v) of
            Some l \<Rightarrow> min w (l - t_plow (st_tract v) - RESERVE) | None \<Rightarrow> w) in
         if t_fence_limit (st_tract v) \<noteq> None \<and> w' = 0 then (Inr False, v)
         else bindE (reap_staged E ho w') (\<lambda>_. bindE (commit_now E now) (\<lambda>_. retE True)) v) v))"

definition reap_one_window_now :: "vsf_env \<Rightarrow> (owners \<Rightarrow> owners) \<Rightarrow> int \<Rightarrow> ('z vault_scheme, bool) op" where
  "reap_one_window_now E ho now = reap_capped_now E ho now (U64 - 1)"

definition maybe_reap :: "vsf_env \<Rightarrow> (owners \<Rightarrow> owners) \<Rightarrow> int \<Rightarrow> ('z vault_scheme, unit) op" where
  "maybe_reap E ho now = (\<lambda>v.
     let used = min (wsub (t_plow (st_tract v)) (t_reap (st_tract v))) (t_len (st_tract v));
         dead = used - live_len (v_live v) in
     if (dead * 4) mod U64 > t_len (st_tract v)
     then bindE (reap_one_window_now E ho now) (\<lambda>_. retE ()) v else (Inr (), v))"

text \<open>The widest window of at most \<open>max_w\<close> blocks whose survivors the clean space can stage.\<close>

primrec rescue_span :: "'z vault_scheme \<Rightarrow> nat \<Rightarrow> nat list \<Rightarrow> nat \<Rightarrow> nat \<Rightarrow> nat" where
  "rescue_span v clean [] surv w = w"
| "rescue_span v clean (i # is) surv w =
     (let pos = wadd (t_reap (st_tract v)) i mod t_len (st_tract v);
          surv' = surv + (if is_referenced (oracle_of v) pos then 1 else 0) in
      if surv' > 0 \<and> surv' + RESERVE > clean then w else rescue_span v clean is surv' (i + 1))"

primrec rescue_loop :: "nat \<Rightarrow> vsf_env \<Rightarrow> (owners \<Rightarrow> owners) \<Rightarrow> int \<Rightarrow> nat \<Rightarrow> bool \<Rightarrow> ('z vault_scheme, nat) op" where
  "rescue_loop 0 E ho now windows airlock = retE windows"
| "rescue_loop (Suc n) E ho now windows airlock = (\<lambda>v.
     let t = st_tract v; occupied = wsub (t_plow t) (t_reap t) in
     if occupied = 0 then (Inr windows, v)
     else if (case t_fence_limit t of None \<Rightarrow> True | Some l \<Rightarrow> l - t_plow t \<ge> wadd (reap_window v) (RESERVE * 2)) \<and> windows > 0
     then (Inr windows, v)
     else if t_len t = 0 then (Inl (Panic ''remainder by zero''), v)
     else (let w = rescue_span v (clean_blocks t) [0 ..< min (reap_window v) occupied] 0 0 in
       if w = 0 then
         if airlock then (Inl TractFull, v)
         else (let target = (if wmul (live_len (v_live v)) 2 > t_len t then wmul (t_len t) 2
                 else wadd (t_len t) (wmul (reap_window v) 4)) in
           bindE (grow_now E target now) (\<lambda>_. rescue_loop n E ho now windows True) v)
       else
         bindE (modE (st_tract_update (t_fence_limit_update (\<lambda>_. None)))) (\<lambda>_.
         bindE (reap_staged E ho w) (\<lambda>_.
         bindE (commit_now E now) (\<lambda>_.
         rescue_loop n E ho now (windows + 1) airlock))) v))"

definition rescue_now :: "vsf_env \<Rightarrow> (owners \<Rightarrow> owners) \<Rightarrow> int \<Rightarrow> ('z vault_scheme, nat) op" where
  "rescue_now E ho now = (\<lambda>v.
     bindE (rescue_loop (max (t_len (st_tract v) div REAP_WINDOW_MIN) 8) E ho now 0 False) (\<lambda>windows.
     bindE (refence E) (\<lambda>_. retE windows)) v)"

datatype Reclaim = Comfortable | Reaped | LiveHeavy | Stuck

definition reclaim_ahead_now :: "vsf_env \<Rightarrow> (owners \<Rightarrow> owners) \<Rightarrow> int \<Rightarrow> ('z vault_scheme, Reclaim) op" where
  "reclaim_ahead_now E ho now = (\<lambda>v.
     let t = st_tract v; len = t_len t; clean = clean_blocks t; occupied = wsub (t_plow t) (t_reap t);
         dead = occupied - live_len (v_live v); short = (clean < len div 2 ^ 3) in
     if \<not> short \<and> (dead * 4) mod U64 \<le> len then (Inr Comfortable, v)
     else if short \<and> wmul (live_len (v_live v)) 4 > wmul len 3 then (Inr LiveHeavy, v)
     else (let cap = min RECLAIM_WINDOW_MAX (clean div 2) in
       if cap = 0 then (Inr Stuck, v)
       else bindE (reap_capped_now E ho now cap) (\<lambda>b. retE (if b then Reaped else Stuck)) v))"

section \<open>The open's tail\<close>

record RepairReport =
  rr_stale :: "StalePointer list"
  rr_dangling :: "DanglingPointer list"

definition I64 :: int where
  "I64 = 9223372036854775808"

definition i64_succ :: "int \<Rightarrow> int" where
  "i64_succ n = (if n = I64 - 1 then - I64 else n + 1)"

definition finish_open :: "vsf_env \<Rightarrow> (owners \<Rightarrow> owners) \<Rightarrow> (nat \<times> hash) list \<Rightarrow> nat list \<Rightarrow> StalePointer list \<Rightarrow>
    DanglingPointer list \<Rightarrow> ('z vault_scheme, unit) op" where
  "finish_open E ho live_blocks referenced stale dangling =
     bindE (forE stale (\<lambda>p. prune E (sp_route p) (sp_hash p, sp_lba p))) (\<lambda>_.
     bindE (forE dangling (\<lambda>p. prune E (dp_route p) (dp_hash p, dp_lba p))) (\<lambda>_.
     let live = live_from live_blocks referenced in
     bindE (\<lambda>v. (derive_reap (t_plow (st_tract v)) (t_len (st_tract v)) live, v)) (\<lambda>reap.
     bindE (modE (\<lambda>v. v\<lparr>st_tract := (st_tract v)\<lparr>t_reap := reap\<rparr>, v_live := live\<rparr>)) (\<lambda>_.
     bindE (refence E) (\<lambda>_.
     bindE (getE (\<lambda>v. case v_head v of Some (_, h) \<Rightarrow> i64_succ (se_eagle_time h) | None \<Rightarrow> 1)) (\<lambda>now.
     bindE (if stale \<noteq> [] \<or> dangling \<noteq> []
        then bindE (modE (st_tract_update (t_fence_limit_update (\<lambda>_. None)))) (\<lambda>_.
          bindE (tryE (commit_now E now)) (\<lambda>r.
          bindE (if (case r of Inr _ \<Rightarrow> True | Inl _ \<Rightarrow> False) then retE True
             else bindE (tryE (\<lambda>v. grow_preserving_now E (wmul (t_len (st_tract v)) 2) (i64_succ now) v)) (\<lambda>g.
               retE (case g of Inr _ \<Rightarrow> True | Inl _ \<Rightarrow> False))) (\<lambda>committed.
          bindE (refence E) (\<lambda>_. retE committed))))
        else retE True) (\<lambda>probe_allowed v.
     if probe_allowed \<and> v_root v = None
        \<and> (case t_fence_limit (st_tract v) of None \<Rightarrow> False | Some l \<Rightarrow> l - t_plow (st_tract v) < wadd (reap_window v) 8)
     then bindE (tryE (rescue_now E ho now)) (\<lambda>r v. case r of
         Inl TractFull \<Rightarrow> bindE (tryE (grow_now E (wmul (t_len (st_tract v)) 2) now)) (\<lambda>_. retE ()) v
       | _ \<Rightarrow> (Inr (), v)) v
     else (Inr (), v))))))))"

section \<open>Settling\<close>

definition settled :: "'z vault_scheme \<Rightarrow> bool" where
  "settled v \<longleftrightarrow> v_settling v = None"

definition walk_of :: "settling \<Rightarrow> 'z vault_scheme \<Rightarrow> walk" where
  "walk_of g v = (walk_begin (sg_todo g) v)\<lparr>w_visited := sg_visited g, w_out := sg_live_blocks g,
     w_referenced := sg_referenced g, w_stale := sg_stale g\<rparr>"

definition settling_of :: "walk \<Rightarrow> settling" where
  "settling_of w = \<lparr>sg_todo = w_todo w, sg_visited = w_visited w, sg_live_blocks = w_out w,
     sg_referenced = w_referenced w, sg_stale = w_stale w\<rparr>"

definition settle_finish :: "vsf_env \<Rightarrow> (owners \<Rightarrow> owners) \<Rightarrow> settling \<Rightarrow> ('z vault_scheme, bool) op" where
  "settle_finish E ho g = bindE (finish_open E ho (sg_live_blocks g) (sg_referenced g) (sg_stale g) []) (\<lambda>_. retE True)"

definition settle_step :: "vsf_env \<Rightarrow> (owners \<Rightarrow> owners) \<Rightarrow> ('z vault_scheme, bool) op" where
  "settle_step E ho = (\<lambda>v. case v_settling v of
     None \<Rightarrow> (Inr True, v)
   | Some g \<Rightarrow>
       (let v0 = v\<lparr>v_settling := None\<rparr> in
        if sg_todo g \<noteq> [] then
          (case walk_tree_step E (walk_of g v) of (r, w) \<Rightarrow>
            let g' = settling_of w; v1 = v0\<lparr>st_mirror := st_mirror w\<rparr> in
            case r of
              Inl e \<Rightarrow> (Inl e, v1\<lparr>v_settling := Some g'\<rparr>)
            | Inr _ \<Rightarrow> if sg_todo g' \<noteq> [] then (Inr False, v1\<lparr>v_settling := Some g'\<rparr>) else settle_finish E ho g' v1)
        else settle_finish E ho g v0))"

primrec settle_loop :: "nat \<Rightarrow> vsf_env \<Rightarrow> (owners \<Rightarrow> owners) \<Rightarrow> ('z vault_scheme, unit) op" where
  "settle_loop 0 E ho = raiseE (Panic ''out of fuel'')"
| "settle_loop (Suc n) E ho = bindE (settle_step E ho) (\<lambda>d. if d then retE () else settle_loop n E ho)"

definition settle :: "vsf_env \<Rightarrow> (owners \<Rightarrow> owners) \<Rightarrow> ('z vault_scheme, unit) op" where
  "settle E ho = (\<lambda>v. settle_loop (tree_fuel v) E ho v)"

section \<open>The public writes that settle first\<close>

definition commit :: "vsf_env \<Rightarrow> (owners \<Rightarrow> owners) \<Rightarrow> int \<Rightarrow> ('z vault_scheme, unit) op" where
  "commit E ho now = bindE (settle E ho) (\<lambda>_. commit_now E now)"

definition grow :: "vsf_env \<Rightarrow> (owners \<Rightarrow> owners) \<Rightarrow> nat \<Rightarrow> int \<Rightarrow> ('z vault_scheme, unit) op" where
  "grow E ho new_blocks now = bindE (settle E ho) (\<lambda>_. grow_now E new_blocks now)"

definition grow_preserving :: "vsf_env \<Rightarrow> (owners \<Rightarrow> owners) \<Rightarrow> nat \<Rightarrow> int \<Rightarrow> ('z vault_scheme, unit) op" where
  "grow_preserving E ho new_blocks now = bindE (settle E ho) (\<lambda>_. grow_preserving_now E new_blocks now)"

definition rescue :: "vsf_env \<Rightarrow> (owners \<Rightarrow> owners) \<Rightarrow> int \<Rightarrow> ('z vault_scheme, nat) op" where
  "rescue E ho now = bindE (settle E ho) (\<lambda>_. rescue_now E ho now)"

definition reap_one_window :: "vsf_env \<Rightarrow> (owners \<Rightarrow> owners) \<Rightarrow> int \<Rightarrow> ('z vault_scheme, bool) op" where
  "reap_one_window E ho now = bindE (settle E ho) (\<lambda>_. reap_one_window_now E ho now)"

definition reclaim_ahead :: "vsf_env \<Rightarrow> (owners \<Rightarrow> owners) \<Rightarrow> int \<Rightarrow> ('z vault_scheme, Reclaim) op" where
  "reclaim_ahead E ho now = bindE (settle E ho) (\<lambda>_. reclaim_ahead_now E ho now)"

section \<open>Reads\<close>

definition get :: "vsf_env \<Rightarrow> hash \<Rightarrow> ('z vault_scheme, (u8 list) option) op" where
  "get E key = lookup E key"

definition live_keys :: "vsf_env \<Rightarrow> ('z vault_scheme, hash list) op" where
  "live_keys E = (\<lambda>v. case walk_keys E (walk_begin [] v) of
     (Inl e, w) \<Rightarrow> (Inl e, v\<lparr>st_mirror := st_mirror w\<rparr>)
   | (Inr _, w) \<Rightarrow> (Inr (w_keys w), v\<lparr>st_mirror := st_mirror w\<rparr>))"

definition holds_committed :: "vsf_env \<Rightarrow> hash \<Rightarrow> u8 list \<Rightarrow> ('z vault_scheme, bool) op" where
  "holds_committed E key value =
     bindE (find_leaf E key) (\<lambda>leaf. case leaf of
       None \<Rightarrow> retE False
     | Some (lba, hash) \<Rightarrow>
         bindE (getE (\<lambda>v. map_of (ls_map (v_live v)) lba)) (\<lambda>known.
         if known \<noteq> Some hash then retE False
         else bindE (tryE (get E key)) (\<lambda>r. case r of
           Inr stored \<Rightarrow> retE (stored = Some value)
         | Inl Seal \<Rightarrow> retE False
         | Inl (Corrupt _) \<Rightarrow> retE False
         | Inl e \<Rightarrow> raiseE e)))"

section \<open>Writes\<close>

definition vault_hamt_put :: "vsf_env \<Rightarrow> hash \<Rightarrow> u8 list \<Rightarrow> ('z vault_scheme, unit) op" where
  "vault_hamt_put E key value = (\<lambda>v. put E (oracle_of v) key value v)"

definition grow_in_ladder :: "vsf_env \<Rightarrow> int \<Rightarrow> ('z vault_scheme, unit) op" where
  "grow_in_ladder E now = (\<lambda>v. if has_uncommitted v then (Inl TractFull, v)
     else grow_now E (wmul (t_len (st_tract v)) 2) now v)"

definition reload_head :: "('z vault_scheme, unit) op" where
  "reload_head = bindE (need_head ''rescue on pre-genesis vault'') (\<lambda>head.
     modE (\<lambda>v. (load_root (se_hamt_hash head) (se_hamt_lba head) v)\<lparr>v_pending_reap := None\<rparr>))"

definition rollback_to_head :: "vsf_env \<Rightarrow> int \<Rightarrow> bool \<Rightarrow> ('z vault_scheme, unit) op" where
  "rollback_to_head E now commit_failed =
     bindE (\<lambda>v. if has_uncommitted v then
         (if commit_failed then (Inl TractFull, v)
          else bindE (tryE (commit_now E now)) (\<lambda>r. case r of
            Inr _ \<Rightarrow> retE ()
          | Inl TractFull \<Rightarrow> raiseE TractFull
          | Inl (Fenced _) \<Rightarrow> raiseE TractFull
          | Inl e \<Rightarrow> raiseE e) v)
       else (Inr (), v)) (\<lambda>_. reload_head)"

definition rescue_from_committed_head :: "vsf_env \<Rightarrow> (owners \<Rightarrow> owners) \<Rightarrow> int \<Rightarrow> ('z vault_scheme, unit) op" where
  "rescue_from_committed_head E ho now =
     bindE reload_head (\<lambda>_.
     bindE (tryE (rescue_now E ho now)) (\<lambda>r v. case r of
       Inr _ \<Rightarrow> (Inr (), v)
     | Inl TractFull \<Rightarrow> grow_now E (wmul (t_len (st_tract v)) 2) now v
     | Inl e \<Rightarrow> (Inl e, v)))"

text \<open>Rescue against the committed head, growing once if the tract is full of live data; the result is
  whether the ladder has grown.\<close>

definition rescue_or_grow :: "vsf_env \<Rightarrow> (owners \<Rightarrow> owners) \<Rightarrow> int \<Rightarrow> bool \<Rightarrow> ('z vault_scheme, bool) op" where
  "rescue_or_grow E ho now grew = bindE (tryE (rescue_now E ho now)) (\<lambda>r. case r of
     Inr _ \<Rightarrow> retE grew
   | Inl TractFull \<Rightarrow> if grew then raiseE TractFull else bindE (grow_in_ladder E now) (\<lambda>_. retE True)
   | Inl e \<Rightarrow> raiseE e)"

text \<open>The inner loop of \<open>put_no_commit\<close>: whether the put landed, and whether the ladder has grown.\<close>

primrec put_ladder :: "nat \<Rightarrow> vsf_env \<Rightarrow> (owners \<Rightarrow> owners) \<Rightarrow> hash \<Rightarrow> u8 list \<Rightarrow> int \<Rightarrow> bool \<Rightarrow> ('z vault_scheme, bool \<times> bool) op" where
  "put_ladder 0 E ho key value now grew = retE (False, grew)"
| "put_ladder (Suc n) E ho key value now grew =
     bindE (tryE (vault_hamt_put E key value)) (\<lambda>attempt. case attempt of
       Inr _ \<Rightarrow> retE (True, grew)
     | Inl (Fenced _) \<Rightarrow>
         bindE (tryE (commit_now E now)) (\<lambda>r. case r of
           Inl (Fenced _) \<Rightarrow>
             bindE (rollback_to_head E now True) (\<lambda>_.
             bindE (rescue_or_grow E ho now grew) (put_ladder n E ho key value now))
         | _ \<Rightarrow> put_ladder n E ho key value now grew)
     | Inl TractFull \<Rightarrow>
         bindE (reap_one_window_now E ho now) (\<lambda>moved.
         if moved then put_ladder n E ho key value now grew
         else bindE (rollback_to_head E now False) (\<lambda>_.
           bindE (rescue_or_grow E ho now grew) (put_ladder n E ho key value now)))
     | Inl e \<Rightarrow> raiseE e)"

definition put_round :: "vsf_env \<Rightarrow> (owners \<Rightarrow> owners) \<Rightarrow> hash \<Rightarrow> u8 list \<Rightarrow> int \<Rightarrow> bool \<Rightarrow> ('z vault_scheme, bool \<times> bool) op" where
  "put_round E ho key value now grew = (\<lambda>v.
     put_ladder (FENCE_K + 3 + t_len (st_tract v) div reap_window v + 8) E ho key value now grew v)"

definition put_no_commit :: "vsf_env \<Rightarrow> (owners \<Rightarrow> owners) \<Rightarrow> hash \<Rightarrow> u8 list \<Rightarrow> int \<Rightarrow> ('z vault_scheme, unit) op" where
  "put_no_commit E ho key value now =
     bindE (put_round E ho key value now False) (\<lambda>(landed, grew).
     if landed then retE ()
     else if grew then raiseE TractFull
     else bindE (grow_in_ladder E now) (\<lambda>_.
       bindE (put_round E ho key value now True) (\<lambda>(landed, _).
       if landed then retE () else raiseE TractFull)))"

text \<open>The delete loop of \<open>apply_items\<close>. A delete appends nothing and is never fenced, so the
  loop's first pass is its last.\<close>

primrec delete_ladder :: "nat \<Rightarrow> vsf_env \<Rightarrow> hash \<Rightarrow> int \<Rightarrow> ('z vault_scheme, bool) op" where
  "delete_ladder 0 E key now = raiseE (Panic ''out of fuel'')"
| "delete_ladder (Suc n) E key now =
     bindE (tryE (\<lambda>v. hamt_delete E key (v_policy v) v)) (\<lambda>attempt. case attempt of
       Inr existed \<Rightarrow> retE existed
     | Inl (Fenced _) \<Rightarrow> bindE (commit_now E now) (\<lambda>_. delete_ladder n E key now)
     | Inl e \<Rightarrow> raiseE e)"

type_synonym batch = "(hash \<times> (u8 list) option) list"

primrec apply_items_from :: "vsf_env \<Rightarrow> (owners \<Rightarrow> owners) \<Rightarrow> int \<Rightarrow> batch \<Rightarrow> bool \<Rightarrow> ('z vault_scheme, bool) op" where
  "apply_items_from E ho now [] dirty = retE dirty"
| "apply_items_from E ho now (x # xs) dirty = (case x of
     (key, Some value) \<Rightarrow>
       bindE (holds_committed E key value) (\<lambda>same.
       if same then apply_items_from E ho now xs dirty
       else bindE (put_no_commit E ho key value now) (\<lambda>_. apply_items_from E ho now xs True))
   | (key, None) \<Rightarrow>
       bindE (delete_ladder 1 E key now) (\<lambda>existed. apply_items_from E ho now xs (dirty \<or> existed)))"

definition apply_items :: "vsf_env \<Rightarrow> (owners \<Rightarrow> owners) \<Rightarrow> batch \<Rightarrow> int \<Rightarrow> ('z vault_scheme, bool) op" where
  "apply_items E ho items now = apply_items_from E ho now items False"

definition double_now :: "vsf_env \<Rightarrow> int \<Rightarrow> ('z vault_scheme, unit) op" where
  "double_now E now = (\<lambda>v. grow_now E (wmul (t_len (st_tract v)) 2) now v)"

definition apply_batch :: "vsf_env \<Rightarrow> (owners \<Rightarrow> owners) \<Rightarrow> batch \<Rightarrow> int \<Rightarrow> ('z vault_scheme, unit) op" where
  "apply_batch E ho items now =
     bindE (settle E ho) (\<lambda>_.
     if items = [] then retE ()
     else bindE (tryE (apply_items E ho items now)) (\<lambda>r.
       bindE (case r of
          Inr d \<Rightarrow> retE d
        | Inl TractFull \<Rightarrow> bindE (double_now E now) (\<lambda>_. bindE (apply_items E ho items now) (\<lambda>_. retE True))
        | Inl e \<Rightarrow> raiseE e) (\<lambda>dirty.
       if \<not> dirty then retE ()
       else bindE (tryE (commit_now E now)) (\<lambda>c.
         bindE (case c of
            Inr _ \<Rightarrow> retE False
          | Inl TractFull \<Rightarrow> bindE (double_now E now) (\<lambda>_. retE True)
          | Inl (Fenced _) \<Rightarrow> bindE (rescue_from_committed_head E ho now) (\<lambda>_. retE True)
          | Inl e \<Rightarrow> raiseE e) (\<lambda>replay.
         bindE (if replay then bindE (apply_items E ho items now) (\<lambda>_. commit_now E now) else retE ()) (\<lambda>_.
         maybe_reap E ho now))))))"

definition vault_put :: "vsf_env \<Rightarrow> (owners \<Rightarrow> owners) \<Rightarrow> hash \<Rightarrow> u8 list \<Rightarrow> int \<Rightarrow> ('z vault_scheme, unit) op" where
  "vault_put E ho key value now = apply_batch E ho [(key, Some value)] now"

definition put_batch :: "vsf_env \<Rightarrow> (owners \<Rightarrow> owners) \<Rightarrow> (hash \<times> u8 list) list \<Rightarrow> int \<Rightarrow> ('z vault_scheme, unit) op" where
  "put_batch E ho items now = apply_batch E ho (map (\<lambda>(key, value). (key, Some value)) items) now"

definition vault_delete :: "vsf_env \<Rightarrow> (owners \<Rightarrow> owners) \<Rightarrow> hash \<Rightarrow> int \<Rightarrow> ('z vault_scheme, bool) op" where
  "vault_delete E ho key now =
     bindE (settle E ho) (\<lambda>_.
     bindE (\<lambda>v. hamt_delete E key (v_policy v) v) (\<lambda>existed.
     if existed then bindE (commit_now E now) (\<lambda>_. bindE (maybe_reap E ho now) (\<lambda>_. retE True))
     else retE False))"

definition vault_put_legacy_direct :: "vsf_env \<Rightarrow> (owners \<Rightarrow> owners) \<Rightarrow> hash \<Rightarrow> u8 list \<Rightarrow> int \<Rightarrow> ('z vault_scheme, unit) op" where
  "vault_put_legacy_direct E ho key value now =
     bindE (settle E ho) (\<lambda>_.
     bindE (\<lambda>v. put_legacy_direct E (oracle_of v) key value v) (\<lambda>_.
     commit_now E now))"

end
