(* ===== verification/Torn_Writes.thy ===== *)
theory Torn_Writes
  imports Mirror_Writes
begin

text \<open>
  What a write can leave behind when the medium misbehaves: at the written position the old block,
  the new one, or one of the blocks the fault script tears a write into; elsewhere nothing. The
  script itself is only ever consumed. A crash is a fault after which nothing follows, so this is
  what recovery finds.
\<close>

section \<open>One device\<close>

definition torn_of :: "filedev \<Rightarrow> block set" where
  "torn_of d = {take BLOCK (c @ ZERO_BLOCK) |c. Torn c \<in> set (fd_faults d)}"

text \<open>\<open>stays l S T f\<close>: while the script tears into blocks of \<open>T\<close> only, \<open>f\<close> leaves at \<open>l\<close> a block of
  \<open>S\<close> or of \<open>T\<close>.\<close>

definition at_most :: "nat \<Rightarrow> block set \<Rightarrow> block set \<Rightarrow> filedev \<Rightarrow> bool" where
  "at_most l S T d \<longleftrightarrow> torn_of d \<subseteq> T \<and> dev_content d l \<in> S \<union> T"

definition stays :: "nat \<Rightarrow> block set \<Rightarrow> block set \<Rightarrow> (filedev, 'x) op \<Rightarrow> bool" where
  "stays l S T f \<longleftrightarrow> (\<forall>d r d'. at_most l S T d \<longrightarrow> f d = (r, d') \<longrightarrow> at_most l S T d')"

named_theorems stays_intros \<open>device operations that leave only expected blocks\<close>

lemma staysD: "stays l S T f \<Longrightarrow> at_most l S T d \<Longrightarrow> f d = (r, d') \<Longrightarrow> at_most l S T d'"
  by (simp add: stays_def)

lemma stays_pure [stays_intros]: "stays l S T (retE x)" "stays l S T (raiseE e)"
  by (auto simp: stays_def retE_def raiseE_def)

lemma stays_bind [stays_intros]:
  assumes "stays l S T m" and "\<And>x. stays l S T (f x)"
  shows "stays l S T (bindE m f)"
  unfolding stays_def
proof (intro allI impI)
  fix d r d' assume d: "at_most l S T d" "bindE m f d = (r, d')"
  from d(2) show "at_most l S T d'"
    by (cases rule: bindE_cases) (use assms d(1) in \<open>auto dest: staysD\<close>)
qed

lemma stays_for [stays_intros]: "(\<And>x. x \<in> set xs \<Longrightarrow> stays l S T (f x)) \<Longrightarrow> stays l S T (forE xs f)"
  by (induction xs) (auto intro: stays_intros)

lemma stays_map [stays_intros]: "(\<And>x. x \<in> set xs \<Longrightarrow> stays l S T (f x)) \<Longrightarrow> stays l S T (mapE f xs)"
  by (induction xs) (auto intro!: stays_intros)

lemma stays_if [stays_intros]: "(c \<Longrightarrow> stays l S T f) \<Longrightarrow> (\<not> c \<Longrightarrow> stays l S T g) \<Longrightarrow> stays l S T (if c then f else g)"
  by simp

lemma next_fault_torn:
  assumes "next_fault d = (f, d')"
  shows "torn_of d' \<subseteq> torn_of d" and "f = Torn c \<Longrightarrow> take BLOCK (c @ ZERO_BLOCK) \<in> torn_of d"
    and "dev_content d' = dev_content d"
  using assms by (cases "fd_faults d"; auto simp: next_fault_def torn_of_def dev_content_def fun_eq_iff)+

lemma stays_read [stays_intros]:
  "stays l S T (dev_bounds k)" "stays l S T (dev_bounds_run k n)" "stays l S T (read_block_at k)" "stays l S T dev_flush"
proof -
  have n: "at_most l S T d'" if "at_most l S T d" "next_fault d = (f, d')" for d f d'
    using that next_fault_torn(1,3) [OF that(2)] by (auto simp: at_most_def)
  show "stays l S T (dev_bounds k)" "stays l S T (dev_bounds_run k n)" for n
    by (auto simp: stays_def dev_bounds_def dev_bounds_run_def split: if_splits)
  show "stays l S T (read_block_at k)" "stays l S T dev_flush"
    by (auto simp: stays_def read_block_at_def dev_flush_def split: prod.splits if_splits intro: n)
qed

lemma torn_of_file [simp]: "torn_of (d\<lparr>fd_file := f\<rparr>) = torn_of d"
  by (simp add: torn_of_def)

lemma stays_write_at [stays_intros]:
  assumes "k = l \<Longrightarrow> b \<in> S"
  shows "stays l S T (write_block_at k b)"
  unfolding stays_def
proof (intro allI impI)
  fix d r d' assume d: "at_most l S T d" and run: "write_block_at k b d = (r, d')"
  obtain f d1 where f: "next_fault d = (f, d1)" by (rule prod.exhaust)
  note n = next_fault_torn [OF f]
  have d1: "torn_of d1 \<subseteq> T" "fd_file d1 ! l \<in> S \<union> T" "fd_file d ! l \<in> S \<union> T" using n d by (auto simp: at_most_def dev_content_def fun_eq_iff)
  have up: "(fd_file d1)[k := x] ! l \<in> S \<union> T" if "k = l \<Longrightarrow> x \<in> S \<union> T" for x
    using that d1(2) by (cases "k = l"; cases "l < length (fd_file d1)") (auto simp: list_update_beyond)
  show "at_most l S T d'"
  proof (cases f)
    case (Torn c)
    have "take BLOCK (c @ ZERO_BLOCK) \<in> T" using n(2) [OF Torn] d by (auto simp: at_most_def)
    then show ?thesis using run f Torn d1 up [of "take BLOCK (c @ ZERO_BLOCK)"] by (auto simp: write_block_at_def at_most_def dev_content_def)
  next
    case Fine
    then show ?thesis using run f d1 up [of b] assms by (auto simp: write_block_at_def at_most_def dev_content_def)
  next
    case IoFail
    then show ?thesis using run f d1 by (auto simp: write_block_at_def at_most_def dev_content_def)
  qed
qed

lemma stays_dev [stays_intros]:
  "stays l S T (dev_read k)" "stays l S T (dev_read_run k n)" "stays l S T (dev_read_many ks)"
  "(k = l \<Longrightarrow> b \<in> S) \<Longrightarrow> stays l S T (dev_write k b)" "stays l UNIV T (dev_write_run k bs)"
  unfolding dev_read_def dev_read_run_def dev_read_many_def dev_write_def dev_write_run_def
  by (auto intro!: stays_intros split: prod.splits)

lemma stays_attempts: "(k = l \<Longrightarrow> b \<in> S) \<Longrightarrow> stays l S T (write_attempts dev_read dev_write dev_flush k b n)"
  by (induction n) (auto intro!: stays_intros)

lemma stays_write_one [stays_intros]: "(k = l \<Longrightarrow> b \<in> S) \<Longrightarrow> stays l S T (dev_write_one k b)"
  unfolding dev_write_one_def write_one_def by (rule stays_attempts)

lemma stays_write_each [stays_intros]: "stays l UNIV T (dev_write_each bs)"
  unfolding dev_write_each_def write_each_def Let_def
  by (auto intro!: stays_intros stays_write_one [unfolded dev_write_one_def] split: prod.splits)

lemma stays_torn: "stays l UNIV (torn_of d) f \<Longrightarrow> f d = (r, d') \<Longrightarrow> torn_of d' \<subseteq> torn_of d"
  using staysD [of l UNIV "torn_of d" f d r d'] by (simp add: at_most_def)

section \<open>The mirror\<close>

text \<open>The blocks that the reading device may tear a write into.\<close>

definition torn :: "mirror \<Rightarrow> block set" where
  "torn m = (case rdev m of Some d \<Rightarrow> torn_of d | None \<Rightarrow> {})"

lemma torn_cong: "rdev m' = rdev m \<Longrightarrow> torn m' = torn m"
  by (simp add: torn_def)

text \<open>An operation on the devices acts on the reading one, whatever becomes of the other.\<close>

lemma on_first_rdev: "on_first f m = (r, m') \<Longrightarrow> rdev m = Some d \<Longrightarrow> \<exists>d'. f d = (r, d') \<and> rdev m' = Some d'"
  by (auto simp: on_first_def on_a_def on_b_def rdev_def split: option.splits prod.splits if_splits)

lemma primary_then_secondary_rdev:
  assumes "primary_then_secondary f m = (r, m')" and "rdev m = Some d"
  shows "\<exists>q d'. f d = (q, d') \<and> rdev m' = Some d'"
proof (cases "m_a m")
  case None
  then show ?thesis using assms by (auto simp: primary_then_secondary_def on_b_def rdev_def split: prod.splits option.splits)
next
  case (Some a)
  obtain q a' where fa: "f a = (q, a')" by (rule prod.exhaust)
  have "m_a m' = Some a'" using assms Some fa
    by (cases q) (auto simp: primary_then_secondary_def on_a_def bindE_def secondary_def drop_secondary_def
        split: prod.splits option.splits sum.splits)
  then show ?thesis using assms(2) Some fa by (auto simp: rdev_def)
qed

lemma both_devices_rdev:
  assumes "both_devices f m = (r, m')" and "rdev m = Some d"
  shows "\<exists>q d'. f d = (q, d') \<and> rdev m' = Some d'"
proof (cases "m_a m = None \<or> m_b m = None")
  case True
  then have "primary_then_secondary f m = (r, m')" using assms(1) by (auto simp: both_devices_def split: option.splits)
  then show ?thesis using assms(2) by (rule primary_then_secondary_rdev)
next
  case False
  then show ?thesis using assms
    by (auto simp: both_devices_def drop_secondary_def rdev_def Let_def split: prod.splits sum.splits)
qed

lemma drain_torn:
  assumes run: "drain m = (r, m')" and wf: "wf_mirror m"
  shows "torn m' \<subseteq> torn m"
proof (cases "m_pending m = []")
  case True
  then show ?thesis using run by (simp add: drain_def)
next
  case False
  let ?bs = "dedup_last (sort_key fst (staged m))"
  let ?m = "fold (\<lambda>(l, _). forget l) ?bs (m\<lparr>m_pending := []\<rparr>)"
  obtain d where d: "rdev m = Some d" using wf by (auto simp: wf_mirror_def)
  have "rdev (m\<lparr>m_pending := []\<rparr>) = rdev m" by (simp add: rdev_def)
  then have d1: "rdev ?m = Some d" using d by simp
  have "both_devices (dev_write_each ?bs) ?m = (r, m') \<or> primary_then_secondary (dev_write_each ?bs) ?m = (r, m')"
    using run False by (auto simp: drain_def write_verified_batch_now_def run_simps split: if_splits)
  then obtain q d' where "dev_write_each ?bs d = (q, d')" "rdev m' = Some d'"
    using both_devices_rdev [OF _ d1] primary_then_secondary_rdev [OF _ d1] by blast
  then show ?thesis using stays_torn [OF stays_write_each] d by (auto simp: torn_def)
qed

text \<open>A verified write, whatever it returns: outside the staged blocks and its own position the
  device is as before, and its own position holds the old block, the new one or a torn one.\<close>

lemma write_verified_torn:
  assumes run: "write_verified l b m = (r, m')" and wf: "wf_mirror m" and b: "length b = BLOCK"
  shows "torn m' \<subseteq> torn m" and "find_staged m k = None \<Longrightarrow> k \<noteq> l \<Longrightarrow> rcontent m' k = rcontent m k"
    and "find_staged m l = None \<Longrightarrow> rcontent m' l \<in> insert (rcontent m l) (torn m)
      \<or> rcontent m' l = b \<and> (\<forall>k. k \<noteq> l \<longrightarrow> rcontent m' k = view m k)"
proof -
  have out: "rcontent m2 k = rcontent m k" if "drain m = (q, m2)" "find_staged m k = None" for q m2 k
  proof -
    have "view m2 k = view m k" "rcontent m2 = view m2" using drain_spec [OF that(1) wf] that(2) by (auto simp: no_pending_view)
    then show ?thesis using that(2) by (simp add: view_def [of m])
  qed
  have "torn m' \<subseteq> torn m \<and> (find_staged m k = None \<longrightarrow> k \<noteq> l \<longrightarrow> rcontent m' k = rcontent m k)
    \<and> (find_staged m l = None \<longrightarrow> rcontent m' l \<in> insert (rcontent m l) (torn m)
        \<or> rcontent m' l = b \<and> (\<forall>k. k \<noteq> l \<longrightarrow> rcontent m' k = view m k))" for k
    using run unfolding write_verified_def
  proof (cases rule: bindE_cases)
    case (err e)
    then show ?thesis using drain_torn [OF err(1) wf] out [OF err(1)] by auto
  next
    case (ok u m2)
    note d = drain_spec [OF ok(1) wf]
    have w2: "wf_mirror m2" using d by blast
    then obtain d2 where d2: "rdev m2 = Some d2" by (auto simp: wf_mirror_def)
    have rf: "rdev (forget l m2) = Some d2" using d2 by (auto simp: rdev_def split: if_splits)
    have pr: "primary_then_secondary (dev_write_one l b) (forget l m2) = (r, m')" using ok(2) by (simp add: run_simps)
    note n = forget_wf [OF w2, of l]
    have "wrote (forget l m2) {l} (\<lambda>_. b) r m'" by (rule primary_then_secondary_wrote [OF pr n(1,2) dev_write_one_writes [OF b]])
    then have rest: "rcontent m' k = rcontent m2 k" if "k \<noteq> l" for k using that n(3) by (simp add: wrote_def)
    obtain q d3 where d3: "dev_write_one l b d2 = (q, d3)" "rdev m' = Some d3"
      using primary_then_secondary_rdev [OF pr rf] by blast
    have "at_most l {dev_content d2 l, b} (torn_of d2) d3"
      by (rule staysD [OF stays_write_one _ d3(1)]) (auto simp: at_most_def)
    then have a: "torn m' \<subseteq> torn m2" "rcontent m' l \<in> {rcontent m2 l, b} \<union> torn m2"
      using d2 d3(2) by (auto simp: torn_def rcontent_def at_most_def)
    have "rcontent m2 = view m" using d no_pending_view [of m2] by auto
    then show ?thesis using a drain_torn [OF ok(1) wf] out [OF ok(1)] rest by auto
  qed
  then show "torn m' \<subseteq> torn m" "find_staged m k = None \<Longrightarrow> k \<noteq> l \<Longrightarrow> rcontent m' k = rcontent m k"
    "find_staged m l = None \<Longrightarrow> rcontent m' l \<in> insert (rcontent m l) (torn m) \<or> rcontent m' l = b \<and> (\<forall>k. k \<noteq> l \<longrightarrow> rcontent m' k = view m k)"
    by blast+
qed

end
