(* ===== verification/Store_Frame.thy ===== *)
theory Store_Frame
  imports Hamt_Total Vault_Model Torn_Writes
begin

text \<open>
  What the index may touch. \<open>tame f\<close>: the operation \<open>f\<close> only reads, and stages appends in the
  clean space of the tract. Both devices keep their bytes, every block outside the tract and every
  block between the cursors keeps its contents, the cursors move forward only, and the state that
  extends the index is left alone. The property is closed under the combinators, so that it holds of
  every operation of the index by the shape of its definition.
\<close>

named_theorems tame_intros \<open>operations that only read and append\<close>

section \<open>Blocks are whole\<close>

lemma put_bytes_length: "put_bytes bs s = Inr s' \<Longrightarrow> length (fst s') = length (fst s)"
  by (auto simp: put_bytes_def split: if_splits prod.splits)

lemma put_fields_length: "put_fields E fs s = Inr s' \<Longrightarrow> length (fst s') = length (fst s)"
  by (induction fs arbitrary: s) (auto simp: put_field_def bindR_eq_Inr dest!: put_bytes_length)

lemma sealed_block_length: "sealed_block E schema fs = Inr b \<Longrightarrow> length b = BLOCK"
  by (auto simp: sealed_block_def begin_block_def seal_block_def bindR_eq_Inr Let_def dest!: put_bytes_length put_fields_length split: prod.splits)

lemma encoded_length:
  "encode_lone E key v = Inr b \<Longrightarrow> length b = BLOCK" "encode_extent E key sz runs = Inr b \<Longrightarrow> length b = BLOCK"
  "encode_direct E key sz fs = Inr b \<Longrightarrow> length b = BLOCK" "encode_furrow E key i v = Inr b \<Longrightarrow> length b = BLOCK"
  "encode_node E n = Inr b \<Longrightarrow> length b = BLOCK" "furrow_block E key v i = Inr b \<Longrightarrow> length b = BLOCK"
  by (auto simp: encode_lone_def encode_extent_def encode_direct_def encode_furrow_def encode_node_def furrow_block_def
      bindR_eq_Inr split: if_splits dest: sealed_block_length)

section \<open>The frame\<close>

lemma bindE_modE: "bindE (modE f) g s = g () (f s)"
  by (simp add: bindE_def modE_def)

text \<open>What the two devices hold.\<close>

definition bytes :: "mirror \<Rightarrow> (block list \<times> nat) option \<times> (block list \<times> nat) option" where
  "bytes m = (map_option (\<lambda>d. (fd_file d, fd_blocks d)) (m_a m), map_option (\<lambda>d. (fd_file d, fd_blocks d)) (m_b m))"

text \<open>The blocks an append must leave alone: those outside the tract and those between the cursors.\<close>

definition spared :: "tract \<Rightarrow> nat set" where
  "spared t = {l. l < t_base t \<or> t_base t + t_len t \<le> l} \<union> (+) (t_base t) ` occ t"

definition kept :: "'z hst_scheme \<Rightarrow> 'z hst_scheme \<Rightarrow> bool" where
  "kept s s' \<longleftrightarrow> store_ok s' \<and> bytes (st_mirror s') = bytes (st_mirror s) \<and> torn (st_mirror s') \<subseteq> torn (st_mirror s) \<and> hst.more s' = hst.more s
     \<and> t_base (st_tract s') = t_base (st_tract s) \<and> t_len (st_tract s') = t_len (st_tract s)
     \<and> t_reap (st_tract s') = t_reap (st_tract s) \<and> t_fence_limit (st_tract s') = t_fence_limit (st_tract s)
     \<and> t_plow (st_tract s) \<le> t_plow (st_tract s')
     \<and> (\<forall>l \<in> spared (st_tract s). view (st_mirror s') l = view (st_mirror s) l
          \<and> find_staged (st_mirror s') l = find_staged (st_mirror s) l)"

definition tame :: "('z hst_scheme, 'x) op \<Rightarrow> bool" where
  "tame f \<longleftrightarrow> (\<forall>s r s'. store_ok s \<longrightarrow> f s = (r, s') \<longrightarrow> kept s s')"

lemma kept_ok: "kept s s' \<Longrightarrow> store_ok s'"
  by (simp add: kept_def)

lemma kept_refl: "store_ok s \<Longrightarrow> kept s s"
  by (simp add: kept_def)

lemma occ_mono:
  assumes "t_len t' = t_len t" and "t_reap t' = t_reap t" and "t_plow t \<le> t_plow t'"
  shows "occ t \<subseteq> occ t'"
  using assms by (auto simp: occ_def)

lemma kept_spared: "kept s s' \<Longrightarrow> spared (st_tract s) \<subseteq> spared (st_tract s')"
  using occ_mono [of "st_tract s'" "st_tract s"] by (auto simp: kept_def spared_def)

lemma kept_trans:
  assumes "kept s s1" and "kept s1 s2"
  shows "kept s s2"
  using assms kept_spared [OF assms(1)] by (auto simp: kept_def subset_iff)

lemma kept_outside: "kept s s' \<Longrightarrow> l < t_base (st_tract s) \<Longrightarrow> view (st_mirror s') l = view (st_mirror s) l"
  by (simp add: kept_def spared_def)

lemma tameD: "tame f \<Longrightarrow> store_ok s \<Longrightarrow> f s = (r, s') \<Longrightarrow> kept s s'"
  by (simp add: tame_def)

section \<open>Combinators\<close>

lemma tame_pure [tame_intros]: "tame (retE x)" "tame (raiseE e)" "tame (liftE r)" "tame (getE g)"
  by (auto simp: tame_def retE_def raiseE_def liftE_def getE_def kept_refl)

lemma tame_of [tame_intros]: "tame (\<lambda>s. (h s, s))"
  by (auto simp: tame_def kept_refl)

lemma tame_bind [tame_intros]:
  assumes m: "tame m" and f: "\<And>x. tame (f x)"
  shows "tame (bindE m f)"
  unfolding tame_def
proof (intro allI impI)
  fix s r s' assume ok: "store_ok s" and "bindE m f s = (r, s')"
  from this(2) show "kept s s'"
  proof (cases rule: bindE_cases)
    case (err e)
    then show ?thesis using tameD [OF m ok] by blast
  next
    case (ok x s1)
    have k: "kept s s1" by (rule tameD [OF m \<open>store_ok s\<close> ok(1)])
    show ?thesis by (rule kept_trans [OF k tameD [OF f kept_ok [OF k] ok(2)]])
  qed
qed

lemma tame_state: "(\<And>s. tame (f s)) \<Longrightarrow> tame (\<lambda>s. f s s)"
  by (simp add: tame_def)

lemma tame_for [tame_intros]: "(\<And>x. x \<in> set xs \<Longrightarrow> tame (f x)) \<Longrightarrow> tame (forE xs f)"
  by (induction xs) (auto intro: tame_intros)

lemma tame_map [tame_intros]: "(\<And>x. x \<in> set xs \<Longrightarrow> tame (f x)) \<Longrightarrow> tame (mapE f xs)"
  by (induction xs) (auto intro!: tame_intros)

lemma tame_try [tame_intros]: "tame m \<Longrightarrow> tame (tryE m)"
  by (auto simp: tame_def tryE_def split: prod.splits)

section \<open>Reads\<close>

text \<open>A read leaves the devices and what is staged above them.\<close>

definition rests :: "mirror \<Rightarrow> mirror \<Rightarrow> bool" where
  "rests m m' \<longleftrightarrow> bytes m' = bytes m \<and> m_pending m' = m_pending m \<and> torn m' \<subseteq> torn m"

lemma rests_refl: "rests m m"
  by (simp add: rests_def)

lemma rests_trans: "rests m m1 \<Longrightarrow> rests m1 m2 \<Longrightarrow> rests m m2"
  by (auto simp: rests_def)

lemma rests_on_first:
  assumes "on_first f m = (r, m')" and "\<And>d d'. f d = (r, d') \<Longrightarrow> fd_file d' = fd_file d \<and> fd_blocks d' = fd_blocks d"
    and "\<And>l T. stays l UNIV T f"
  shows "rests m m'"
proof -
  have "torn m' \<subseteq> torn m"
  proof (cases "rdev m")
    case None
    then have "m' = m" using assms(1) by (auto simp: on_first_def on_b_def rdev_def split: if_splits)
    then show ?thesis by simp
  next
    case (Some d)
    then obtain d' where "f d = (r, d')" "rdev m' = Some d'" using on_first_rdev [OF assms(1)] by blast
    then show ?thesis using stays_torn [OF assms(3)] Some by (simp add: torn_def)
  qed
  then show ?thesis using assms(1,2)
    by (auto simp: on_first_def on_a_def on_b_def rests_def bytes_def split: option.splits prod.splits if_splits)
qed

lemma mirror_read_rests: "mirror_read l m = (r, m') \<Longrightarrow> rests m m'"
  using dev_read_inv stays_dev(1)
  by (auto simp: mirror_read_def rests_refl split: option.splits intro: rests_on_first)

lemma rests_fields: "rests m m' \<Longrightarrow> m_a m'' = m_a m' \<Longrightarrow> m_b m'' = m_b m' \<Longrightarrow> m_pending m'' = m_pending m' \<Longrightarrow> rests m m''"
  by (auto simp: rests_def bytes_def torn_def rdev_def)

lemma read_cached_rests:
  assumes run: "read_cached l m = (r, m')"
  shows "rests m m'"
proof -
  have u: "rests m (m\<lparr>m_uses := n\<rparr>)" "rests m (m\<lparr>m_uses := n, m_cache := k\<rparr>)" for n k
    by (auto intro: rests_fields [OF rests_refl])
  have c: "rests m (cache_insert l b m1)" if "rests m m1" for b m1
    by (rule rests_fields [OF that]) (simp_all add: cache_insert_def Let_def)
  have rd: "rests m m1" if "mirror_read l (m\<lparr>m_uses := n\<rparr>) = (q, m1)" for n q m1
    using rests_trans [OF u(1) mirror_read_rests [OF that]] .
  show ?thesis using run
    by (auto simp: read_cached_def Let_def bindE_def modE_def retE_def rests_refl u split: option.splits sum.splits prod.splits
        intro: rd c)
qed

lemma mapE_rests: "(\<And>x m r m'. f x m = (r, m') \<Longrightarrow> rests m m') \<Longrightarrow> mapE f xs m = (r, m') \<Longrightarrow> rests m m'"
  by (rule mapE_invariant [where P = "rests m"]) (auto intro: rests_refl rests_trans)

lemma mirror_read_run_rests: "mirror_read_run l n m = (r, m') \<Longrightarrow> rests m m'"
  using dev_read_run_inv stays_dev(2)
  by (auto simp: mirror_read_run_def split: if_splits intro: mapE_rests mirror_read_rests rests_on_first)

lemma kept_reads:
  fixes s s' :: "'z hst_scheme"
  assumes "after_reads s s'" and "store_ok s" and "rests (st_mirror s) (st_mirror s')"
  shows "kept s s'"
proof -
  have s': "s' = s\<lparr>st_mirror := st_mirror s'\<rparr>" using assms(1) by (simp add: after_reads_def)
  have "hst.more s' = hst.more s" by (subst s') simp
  then show ?thesis
    using assms after_reads_fields [OF assms(1)] after_reads_ok [OF assms(2,1)]
    by (simp add: kept_def after_reads_def rests_def find_staged_def)
qed

lemma with_mirror_rests:
  "with_mirror f s = (r, s') \<Longrightarrow> (\<And>m r m'. f m = (r, m') \<Longrightarrow> rests m m') \<Longrightarrow> rests (st_mirror s) (st_mirror s')"
  by (auto simp: with_mirror_def split: prod.splits)

lemma tame_reads [tame_intros]: "tame (tract_read_cached lba)" "tame (tract_read lba)" "tame (tract_read_run lba n)"
proof -
  have "rests (st_mirror s) (st_mirror s')" if "tract_read_cached lba s = (r, s')" for s s' :: "'z hst_scheme" and r
    using that by (auto simp: tract_read_cached_def rests_refl split: if_splits dest!: with_mirror_rests [OF _ read_cached_rests])
  then show "tame (tract_read_cached lba)" unfolding tame_def using tract_read_cached_spec kept_reads by blast
  have "rests (st_mirror s) (st_mirror s')" if "tract_read lba s = (r, s')" for s s' :: "'z hst_scheme" and r
    using that by (auto simp: tract_read_def rests_refl split: if_splits dest!: with_mirror_rests [OF _ mirror_read_rests])
  then show "tame (tract_read lba)" unfolding tame_def using tract_read_spec kept_reads by blast
  have "rests (st_mirror s) (st_mirror s')" if "tract_read_run lba n s = (r, s')" for s s' :: "'z hst_scheme" and r
    using that by (auto simp: tract_read_run_def rests_refl split: if_splits dest!: with_mirror_rests [OF _ mirror_read_run_rests])
  then show "tame (tract_read_run lba n)" unfolding tame_def using tract_read_run_spec kept_reads by blast
qed

section \<open>The index's own fields\<close>

lemma kept_fields:
  fixes s :: "'z hst_scheme"
  assumes "store_ok s"
  shows "kept s (h_added_update f s)" "kept s (h_removed_update f s)" "kept s (h_root_update g s)" "kept s (h_arena_update k s)"
    "kept s (h_hits_update c s)"
  using assms by (auto simp: kept_def store_ok_def)

lemma tame_fields [tame_intros]:
  "tame (modE (h_added_update f))" "tame (modE (h_removed_update f))" "tame (modE (h_root_update g))" "tame (modE (h_arena_update k))"
  "tame (modE (h_hits_update c))" "tame (push_added ps)" "tame (push_removed ps)" "tame (arena_get idx)" "tame (arena_push node)"
  "tame (modE (arena_set idx j ch))"
  using kept_fields by (auto simp: tame_def modE_def push_added_def push_removed_def arena_get_def arena_push_def arena_set_def kept_refl split: if_splits)

lemma tame_read_doc [tame_intros]: "tame (read_doc E lba h)"
  unfolding read_doc_def by (rule tame_state) (intro tame_intros)

section \<open>Appends\<close>

lemma emit_torn [simp]: "torn (emit e m) = torn m" "torn (reserve_staged n m) = torn m" "torn (stage_one l b m) = torn m"
  by (auto simp: torn_def rdev_def emit_def reserve_staged_def stage_one_dev)

lemma emit_bytes [simp]: "bytes (emit e m) = bytes m" "bytes (reserve_staged n m) = bytes m" "bytes (stage_one l b m) = bytes m"
  by (simp_all add: bytes_def emit_def reserve_staged_def stage_one_dev)

text \<open>Only blocks at the next \<open>n\<close> positions of the plow were staged.\<close>

definition staged_only :: "nat \<Rightarrow> 'z store_scheme \<Rightarrow> 'z store_scheme \<Rightarrow> bool" where
  "staged_only n s s' \<longleftrightarrow> s' = s\<lparr>st_mirror := st_mirror s'\<rparr> \<and> wf_mirror (st_mirror s') \<and> bytes (st_mirror s') = bytes (st_mirror s)
     \<and> torn (st_mirror s') \<subseteq> torn (st_mirror s) \<and> (\<forall>l. l \<notin> (+) (t_base (st_tract s)) ` set (placed_at (st_tract s) n) \<longrightarrow>
          view (st_mirror s') l = view (st_mirror s) l \<and> find_staged (st_mirror s') l = find_staged (st_mirror s) l)"

lemma staged_only_mirror:
  fixes s s1 :: "'z store_scheme"
  assumes "staged_only n s s1" and "wf_mirror m" and "bytes m = bytes (st_mirror s1)" and "torn m = torn (st_mirror s1)"
    and "\<And>l. l \<notin> (+) (t_base (st_tract s)) ` set (placed_at (st_tract s) n) \<Longrightarrow> view m l = view (st_mirror s1) l \<and> find_staged m l = find_staged (st_mirror s1) l"
  shows "staged_only n s (s1\<lparr>st_mirror := m\<rparr>)"
proof -
  have s1: "s1 = s\<lparr>st_mirror := st_mirror s1\<rparr>" using assms(1) by (simp add: staged_only_def)
  have "s1\<lparr>st_mirror := m\<rparr> = s\<lparr>st_mirror := m\<rparr>" by (subst s1) simp
  then show ?thesis using assms by (simp add: staged_only_def)
qed

lemma mirror_update: "st_mirror_update (emit e) s = s\<lparr>st_mirror := emit e (st_mirror s)\<rparr>"
  "st_mirror_update (reserve_staged n) s = s\<lparr>st_mirror := reserve_staged n (st_mirror s)\<rparr>"
  "st_mirror_update (stage_one l b) s = s\<lparr>st_mirror := stage_one l b (st_mirror s)\<rparr>"
  by (cases s, simp)+

lemma emit_mirror [simp]: "wf_mirror (emit e m) = wf_mirror m" "view (emit e m) = view m" "find_staged (emit e m) = find_staged m"
proof -
  have rd: "rdev (emit e m) = rdev m" by (simp add: rdev_def emit_def)
  have rc: "rcontent (emit e m) = rcontent m" "rcount (emit e m) = rcount m" by (simp_all add: rcontent_def rcount_def rd fun_eq_iff)
  have fl: "m_a (emit e m) = m_a m" "m_b (emit e m) = m_b m" "m_cache (emit e m) = m_cache m" by (simp_all add: emit_def)
  have st: "staged (emit e m) = staged m" by (simp add: staged_def emit_def)
  show "wf_mirror (emit e m) = wf_mirror m" by (simp add: wf_mirror_def cache_ok_def rd rc st fl)
  show "view (emit e m) = view m" by (rule ext) (simp add: view_def find_staged_eq st rc(1) split: option.split)
  show "find_staged (emit e m) = find_staged m" by (rule ext) (simp add: find_staged_eq st)
qed

lemma lap_guard_staged:
  fixes s1 :: "'z store_scheme"
  assumes "lap_guard live t i s1 = (r, s2)" and "staged_only n s s1"
  shows "staged_only n s s2"
proof -
  have m: "staged_only n s (s1\<lparr>st_mirror := emit e (st_mirror s1)\<rparr>)" for e
    by (rule staged_only_mirror [OF assms(2)]) (use assms(2) in \<open>auto simp: staged_only_def\<close>)
  have "s2 = s1 \<or> (\<exists>e. s2 = s1\<lparr>st_mirror := emit e (st_mirror s1)\<rparr>)"
    using assms(1) by (cases "pos_at t i") (auto simp: lap_guard_def bindE_def liftE_def modE_def raiseE_def retE_def mirror_update split: if_splits)
  then show ?thesis using assms(2) m by auto
qed

lemma stage_at_staged:
  fixes s1 :: "'z store_scheme"
  assumes run: "stage_at (st_tract s) mk i s1 = (r, s2)" and st: "staged_only n s s1" and i: "i < n" "n \<le> t_len (st_tract s)"
    and wf: "tract_wf (st_tract s)" and mk: "\<And>b. mk i = Inr b \<Longrightarrow> length b = BLOCK"
  shows "staged_only n s s2"
proof -
  let ?t = "st_tract s" and ?p = "(t_plow (st_tract s) + i) mod t_len (st_tract s)"
  have pos: "pos_at ?t i = Inr ?p" using pos_at_eq [OF wf] i by simp
  have p: "?p \<in> set (placed_at ?t n)" using i(1) by (auto simp: placed_at_def)
  have "?p < t_len ?t" using wf by (simp add: tract_wf_def)
  then have a: "wadd (t_base ?t) ?p = t_base ?t + ?p" by (rule tract_addr [OF wf])
  have w1: "wf_mirror (st_mirror s1)" using st by (simp add: staged_only_def)
  have step: "staged_only n s (s1\<lparr>st_mirror := stage_one (t_base ?t + ?p) b (st_mirror s1)\<rparr>)" if "length b = BLOCK" for b
  proof (rule staged_only_mirror [OF st])
    note sp = stage_one_spec [OF w1 that, of "t_base ?t + ?p"]
    show "wf_mirror (stage_one (t_base ?t + ?p) b (st_mirror s1))" by (rule sp)
    show "view (stage_one (t_base ?t + ?p) b (st_mirror s1)) l = view (st_mirror s1) l
        \<and> find_staged (stage_one (t_base ?t + ?p) b (st_mirror s1)) l = find_staged (st_mirror s1) l" if "l \<notin> (+) (t_base ?t) ` set (placed_at ?t n)" for l
      using that imageI [OF p, of "(+) (t_base ?t)"] by (auto simp del: mod_simps simp add: sp(2) find_staged_snoc [OF staged_stage_one])
  qed simp_all
  show ?thesis
  proof (cases "mk i")
    case (Inl e)
    then have "s2 = s1" using run by (simp add: stage_at_def bindE_def liftE_def)
    then show ?thesis using st by simp
  next
    case (Inr b)
    have "stage_at ?t mk i s1 = (Inr (), s1\<lparr>st_mirror := stage_one (t_base ?t + ?p) b (st_mirror s1)\<rparr>)"
      unfolding stage_at_def Inr pos liftE_Inr bindE_retE a modE_run mirror_update(3) ..
    from trans [OF run [symmetric] this]
    have s2: "s2 = s1\<lparr>st_mirror := stage_one (t_base ?t + ?p) b (st_mirror s1)\<rparr>" by (rule prod.inject [THEN iffD1, THEN conjunct2])
    show ?thesis unfolding s2 by (rule step [OF mk [OF Inr]])
  qed
qed

lemma mapE_lift_state: "mapE (\<lambda>x. liftE (g x)) xs s = (r, s') \<Longrightarrow> s' = s"
  by (drule mapE_lift) simp

text \<open>An append that stops leaves what it staged; one that succeeds moves the plow past it.\<close>

lemma append_with_staged:
  fixes s :: "'z store_scheme"
  assumes run: "append_with live n mk s = (r, s')" and ok: "store_ok s"
    and mk: "\<And>i b. i < n \<Longrightarrow> mk i = Inr b \<Longrightarrow> length b = BLOCK"
  obtains (stopped) e where "r = Inl e" "s' = s" | (partly) e where "r = Inl e" "staged_only n s s'" "n \<le> clean_blocks (st_tract s)"
    | (finished) s1 where "staged_only n s s1" "s' = s1\<lparr>st_tract := (st_tract s)\<lparr>t_plow := t_plow (st_tract s) + n\<rparr>\<rparr>" "n \<le> clean_blocks (st_tract s)"
proof -
  let ?t = "st_tract s"
  have wf: "wf_mirror (st_mirror s)" "tract_wf ?t" using ok by (auto simp: store_ok_def)
  consider (refused) e where "r = Inl e" "s' = s" | (go) "n \<le> clean_blocks ?t"
      "bindE (forE [0 ..< n] (lap_guard live ?t)) (\<lambda>_. bindE (modE (st_mirror_update (reserve_staged n))) (\<lambda>_.
       bindE (forE [0 ..< n] (stage_at ?t mk)) (\<lambda>_. bindE (mapE (\<lambda>i. liftE (pos_at ?t i)) [0 ..< n]) (\<lambda>placed.
       bindE (modE (st_tract_update (t_plow_update (\<lambda>p. wadd p n)))) (\<lambda>_. retE placed))))) s = (r, s')"
    using run unfolding append_with_def Let_def by (auto split: if_splits)
  then show thesis
  proof cases
    case refused
    then show thesis using stopped by blast
  next
    case go
    have n: "n \<le> t_len ?t" "t_plow ?t + n < U64" using go(1) wf(2) by (auto simp: clean_blocks_eq tract_wf_def)
    have start: "staged_only n s s" using wf(1) by (simp add: staged_only_def)
    from go(2) show thesis
    proof (cases rule: bindE_cases)
      case (err e)
      have "staged_only n s s'" by (rule forE_invariant [where P = "staged_only n s", OF err(1) start]) (auto dest: lap_guard_staged)
      then show thesis using partly err(2) go(1) by blast
    next
      case (ok u s1)
      have k1: "staged_only n s s1" by (rule forE_invariant [where P = "staged_only n s", OF ok(1) start]) (auto dest: lap_guard_staged)
      let ?s2 = "s1\<lparr>st_mirror := reserve_staged n (st_mirror s1)\<rparr>"
      have k2: "staged_only n s ?s2" by (rule staged_only_mirror [OF k1]) (use k1 in \<open>auto simp: staged_only_def find_staged_eq\<close>)
      have keep: "staged_only n s s3" if "forE [0 ..< n] (stage_at ?t mk) ?s2 = (q, s3)" for q s3
        by (rule forE_invariant [where P = "staged_only n s", OF that k2]) (use stage_at_staged [OF _ _ _ n(1) wf(2)] mk in auto)
      from ok(2) have "bindE (forE [0 ..< n] (stage_at ?t mk)) (\<lambda>_. bindE (mapE (\<lambda>i. liftE (pos_at ?t i)) [0 ..< n]) (\<lambda>placed.
         bindE (modE (st_tract_update (t_plow_update (\<lambda>p. wadd p n)))) (\<lambda>_. retE placed))) ?s2 = (r, s')"
        unfolding bindE_modE mirror_update(2) .
      then show thesis
      proof (cases rule: bindE_cases)
        case (err e)
        then show thesis using partly keep [OF err(1)] go(1) by blast
      next
        case (ok v s3)
        have k3: "staged_only n s s3" by (rule keep [OF ok(1)])
        have t3: "st_tract s3 = ?t" using k3 unfolding staged_only_def by (metis store.select_convs(2) store.surjective store.update_convs(1))
        from ok(2) show thesis
        proof (cases rule: bindE_cases)
          case (err e)
          then show thesis using partly k3 go(1) mapE_lift_state [OF err(1)] by blast
        next
          case (ok w s4)
          have "s' = s3\<lparr>st_tract := ?t\<lparr>t_plow := t_plow ?t + n\<rparr>\<rparr>"
            using ok(2) mapE_lift_state [OF ok(1)] t3 n(2) by (auto simp: bindE_def modE_def retE_def)
          then show thesis using finished [OF k3] go(1) by blast
        qed
      qed
    qed
  qed
qed

lemma kept_staged:
  fixes s :: "'z hst_scheme"
  assumes st: "staged_only n s s1" and ok: "store_ok s" and n: "n \<le> clean_blocks (st_tract s)"
  shows "kept s s1" and "kept s (s1\<lparr>st_tract := (st_tract s)\<lparr>t_plow := t_plow (st_tract s) + n\<rparr>\<rparr>)"
proof -
  let ?t = "st_tract s"
  have wf: "tract_wf ?t" using ok by (simp add: store_ok_def)
  have s1: "s1 = s\<lparr>st_mirror := st_mirror s1\<rparr>" using st by (simp add: staged_only_def)
  have t1: "st_tract s1 = ?t" "hst.more s1 = hst.more s" by (subst s1, simp)+
  have less: "p < t_len ?t" if "p \<in> set (placed_at ?t n)" for p using that wf by (auto simp: placed_at_def tract_wf_def)
  have out: "view (st_mirror s1) l = view (st_mirror s) l \<and> find_staged (st_mirror s1) l = find_staged (st_mirror s) l"
    if l: "l \<in> spared ?t" for l
  proof -
    have "p \<notin> occ ?t" if "p \<in> set (placed_at ?t n)" for p using occ_append(2) [OF wf n] that by blast
    then have "l \<notin> (+) (t_base ?t) ` set (placed_at ?t n)" using l less by (fastforce simp: spared_def)
    then show ?thesis using st by (simp add: staged_only_def)
  qed
  have wf': "tract_wf (?t\<lparr>t_plow := t_plow ?t + n\<rparr>)" using wf n by (auto simp: tract_wf_def clean_blocks_eq [OF wf])
  show "kept s s1" using st ok t1 out by (auto simp: kept_def staged_only_def store_ok_def)
  show "kept s (s1\<lparr>st_tract := ?t\<lparr>t_plow := t_plow ?t + n\<rparr>\<rparr>)"
    using st ok t1 out wf' by (auto simp: kept_def staged_only_def store_ok_def)
qed

lemma tame_append_with: "(\<And>i b. i < n \<Longrightarrow> mk i = Inr b \<Longrightarrow> length b = BLOCK) \<Longrightarrow> tame (append_with live n mk)"
  unfolding tame_def
proof (intro allI impI)
  fix s :: "'a hst_scheme" and r s'
  assume mk: "\<And>i b. i < n \<Longrightarrow> mk i = Inr b \<Longrightarrow> length b = BLOCK" and ok: "store_ok s" and run: "append_with live n mk s = (r, s')"
  show "kept s s'"
  proof (rule append_with_staged [OF run ok])
    show "\<And>i b. i < n \<Longrightarrow> mk i = Inr b \<Longrightarrow> length b = BLOCK" by (rule mk)
  qed (use kept_refl [OF ok] kept_staged [OF _ ok] in auto)
qed

lemma tame_append:
  assumes "\<forall>b \<in> set bs. length b = BLOCK"
  shows "tame (tract_append live bs)"
  unfolding tract_append_def by (rule tame_append_with) (use assms in auto)

text \<open>A result that is checked before it is used.\<close>

lemma tame_lift: "(\<And>x. r = Inr x \<Longrightarrow> tame (f x)) \<Longrightarrow> tame (bindE (liftE r) f)"
  by (cases r) (auto simp: tame_def bindE_def liftE_def kept_refl)

section \<open>The operations of the index\<close>

lemma tame_case [tame_intros]:
  "(\<And>e. r = Inl e \<Longrightarrow> tame (f e)) \<Longrightarrow> (\<And>x. r = Inr x \<Longrightarrow> tame (g x)) \<Longrightarrow> tame (case r of Inl e \<Rightarrow> f e | Inr x \<Rightarrow> g x)"
  "(o1 = None \<Longrightarrow> tame h) \<Longrightarrow> (\<And>y. o1 = Some y \<Longrightarrow> tame (k y)) \<Longrightarrow> tame (case o1 of None \<Rightarrow> h | Some y \<Rightarrow> k y)"
  "(b \<Longrightarrow> tame h) \<Longrightarrow> (\<not> b \<Longrightarrow> tame h') \<Longrightarrow> tame (if b then h else h')"
  "(\<And>x y. p = (x, y) \<Longrightarrow> tame (q x y)) \<Longrightarrow> tame (case p of (x, y) \<Rightarrow> q x y)"
  by (simp_all split: sum.split option.split prod.split)

lemma tame_doc [tame_intros]:
  "(\<And>n. d = DocNode n \<Longrightarrow> tame (f1 n)) \<Longrightarrow> (\<And>k v. d = DocLone k v \<Longrightarrow> tame (f2 k v)) \<Longrightarrow>
   (\<And>k sz r. d = DocExtent k sz r \<Longrightarrow> tame (f3 k sz r)) \<Longrightarrow> (\<And>k sz fs. d = DocDirect k sz fs \<Longrightarrow> tame (f4 k sz fs)) \<Longrightarrow>
   (\<And>k i v. d = DocFurrow k i v \<Longrightarrow> tame (f5 k i v)) \<Longrightarrow>
   tame (case d of DocNode n \<Rightarrow> f1 n | DocLone k v \<Rightarrow> f2 k v | DocExtent k sz r \<Rightarrow> f3 k sz r | DocDirect k sz fs \<Rightarrow> f4 k sz fs | DocFurrow k i v \<Rightarrow> f5 k i v)"
  by (simp split: TractDoc.split)

lemma tame_read_furrows [tame_intros]: "tame (read_furrows E key sz fs)"
  unfolding read_furrows_def by (intro tame_intros)

lemma tame_lookup_from [tame_intros]: "tame (lookup_from E key d ch)"
proof (induction E key d ch rule: lookup_from.induct)
  case (1 E key depth idx)
  then show ?case unfolding lookup_from.simps by (intro tame_intros) auto
next
  case (2 E key depth hash lba)
  then show ?case unfolding lookup_from.simps by (intro tame_intros) auto
qed

lemma tame_lookup [tame_intros]: "tame (lookup E key)"
  unfolding lookup_def by (auto simp: tame_def kept_refl split: option.splits intro: tameD [OF tame_lookup_from])

lemma tame_find_leaf_from [tame_intros]: "tame (find_leaf_from E key d ch)"
proof (induction E key d ch rule: find_leaf_from.induct)
  case (1 E key depth idx)
  then show ?case unfolding find_leaf_from.simps by (intro tame_intros) auto
next
  case (2 E key depth hash lba)
  then show ?case unfolding find_leaf_from.simps by (intro tame_intros) auto
qed

lemma tame_find_leaf [tame_intros]: "tame (find_leaf E key)"
  unfolding find_leaf_def by (auto simp: tame_def kept_refl split: option.splits intro: tameD [OF tame_find_leaf_from])

lemma tame_removal [tame_intros]: "tame (remove_positions E ps)" "tame (remove_leaf_blocks E lba hash)"
  unfolding remove_positions_def remove_leaf_blocks_def by (intro tame_intros)+

lemma tame_split [tame_intros]: "tame (split depth a b)"
proof (induction depth a b rule: split.induct)
  case (1 depth a b)
  show ?case by (subst split.simps) (intro tame_intros 1; assumption)
qed

lemma tame_insert_child [tame_intros]: "tame (insert_child E ch depth key leaf)"
proof (induction E ch depth key leaf rule: insert_child.induct)
  case (1 E depth key leaf)
  then show ?case unfolding insert_child.simps by (intro tame_intros)
next
  case (2 E idx depth key leaf)
  then show ?case unfolding insert_child.simps by (intro tame_intros) auto
next
  case (3 E hash lba depth key leaf)
  then show ?case unfolding insert_child.simps Let_def by (intro tame_intros) auto
qed

lemma tame_prune_child [tame_intros]: "tame (prune_child E ch depth route old)"
proof (induction E ch depth route old rule: prune_child.induct)
  case (1 E depth route old)
  then show ?case unfolding prune_child.simps by (intro tame_intros)
next
  case (2 E idx depth route old)
  then show ?case unfolding prune_child.simps by (intro tame_intros) auto
next
  case (3 E hash lba depth route old)
  then show ?case unfolding prune_child.simps by (intro tame_intros) auto
qed

lemma tame_prune [tame_intros]: "tame (prune E route old)"
  unfolding prune_def by (intro tame_intros)

lemma tame_delete: "tame (hamt_delete E key UnlinkOnly)"
  unfolding hamt_delete_def by (intro tame_intros) simp

lemma tame_append_leaf: "length b = BLOCK \<Longrightarrow> tame (append_leaf E live b)"
  unfolding append_leaf_def by (intro tame_intros tame_append) simp

lemma tame_put_value [tame_intros]: "tame (put_value E live key v)"
  unfolding put_value_def Let_def
  by (intro tame_intros tame_lift tame_append_with tame_append_leaf) (auto dest: encoded_length)

lemma tame_put_inner [tame_intros]: "tame (put_inner E live key v)"
  unfolding put_inner_def by (intro tame_intros)

lemma tame_put [tame_intros]: "tame (put E live key v)"
  unfolding tame_def
proof (intro allI impI)
  fix s :: "'a hst_scheme" and r s' assume ok: "store_ok s" and run: "put E live key v s = (r, s')"
  obtain r1 s1 where r1: "put_inner E live key v s = (r1, s1)" by (rule prod.exhaust)
  have k: "kept s s1" by (rule tameD [OF tame_put_inner ok r1])
  have "kept s1 (s1\<lparr>h_added := xs, h_removed := ys\<rparr>)" for xs ys
    using kept_trans [OF kept_fields(1) kept_fields(2)] kept_fields(1) kept_ok [OF k] kept_ok by blast
  then show "kept s s'" using run r1 k kept_trans [OF k] by (auto simp: put_def split: sum.splits)
qed

lemma tame_flush_node [tame_intros]: "tame (flush_node n E live idx)"
proof (induction n arbitrary: idx)
  case (Suc n)
  show ?case unfolding flush_node.simps
    by (intro tame_intros tame_lift tame_append Suc) (auto simp: set_committed_def split: child.split intro!: tame_intros Suc dest: encoded_length)
qed (simp add: tame_intros)

lemma tame_flush [tame_intros]: "tame (hamt_flush E live)"
proof -
  have "tame (bindE (flush_node FLUSH_FUEL E live idx) (\<lambda>(hash, lba). bindE (modE (h_root_update (\<lambda>_. Some (Committed hash lba)))) (\<lambda>_.
       bindE (modE (h_arena_update (\<lambda>_. []))) (\<lambda>_. retE (hash, lba)))))" for idx by (intro tame_intros)
  then show ?thesis unfolding hamt_flush_def using kept_fields(4)
    by (auto simp: tame_def kept_refl split: option.splits child.splits)
qed

end
