(* ===== verification/Vault_Props.thy ===== *)
theory Vault_Props
  imports Store_Frame Ring_Props
begin

text \<open>
  The vault's own state: the index, the ring below the tract, and the head of the spine. A commit
  makes the map of the index durable; everything before it leaves the committed generation alone.
\<close>

section \<open>The invariant\<close>

definition vault_ok :: "vsf_env \<Rightarrow> 'z vault_scheme \<Rightarrow> (hash \<rightharpoonup> u8 list) \<Rightarrow> bool" where
  "vault_ok E v m \<longleftrightarrow> index_map E v m \<and> ring_inv E (ring_of v) \<and> v_head v \<noteq> None \<and> 1 \<le> v_log2 v \<and> v_log2 v \<le> 32
     \<and> v_base v + 2 ^ v_log2 v \<le> t_base (st_tract v) \<and> v_root v = None \<and> v_pending_reap v = None"

lemma ring_of_simps [simp]:
  "r_mirror (ring_of v) = st_mirror v" "r_log2 (ring_of v) = v_log2 v" "r_base (ring_of v) = v_base v" "r_head (ring_of v) = v_head v"
  "ring_n (ring_of v) = 2 ^ v_log2 v"
  by (simp_all add: ring_of_def ring_n_def)

text \<open>The fields that extend the index.\<close>

lemma more_fields:
  fixes v v' :: "'z vault_scheme"
  assumes "hst.more v' = hst.more v"
  shows "v_log2 v' = v_log2 v" "v_base v' = v_base v" "v_head v' = v_head v" "v_live v' = v_live v" "v_root v' = v_root v"
    "v_policy v' = v_policy v" "v_pending_reap v' = v_pending_reap v" "v_settling v' = v_settling v"
  using assms by (cases v; cases v'; simp)+

lemma ring_inv_frame:
  assumes inv: "ring_inv E r" and wf: "wf_mirror (r_mirror r')" and same: "r_log2 r' = r_log2 r" "r_base r' = r_base r" "r_head r' = r_head r"
    and view: "\<And>k. k < ring_n r \<Longrightarrow> view (r_mirror r') (r_base r + k) = view (r_mirror r) (r_base r + k)"
  shows "ring_inv E r'"
proof -
  have n: "ring_n r' = ring_n r" using same by (simp add: ring_n_def)
  have a: "wadd (r_base r) k = r_base r + k" if "k < ring_n r" for k
    using inv that by (intro wadd_eq) (auto simp: ring_inv_def ring_fits_def)
  have cls: "ring_cls E r' k = ring_cls E r k" if "k < ring_n r" for k
    using view [OF that] a [OF that] by (simp add: ring_cls_def same)
  have lap: "lap_shaped (ring_cls E r) (ring_n r) G \<Longrightarrow> lap_shaped (ring_cls E r') (ring_n r) G" for G
    by (erule lap_shaped_cong) (rule cls)
  have slot: "g mod ring_n r < ring_n r" for g by (simp add: ring_n_def)
  show ?thesis using inv wf cls lap slot
    by (auto simp: ring_inv_def ring_ok_def ring_fits_def same n split: option.splits)
qed

lemma vault_ok_kept:
  fixes v v' :: "'z vault_scheme"
  assumes ok: "vault_ok E v m" and k: "kept v v'" and i: "index_map E v' m'"
  shows "vault_ok E v' m'"
proof -
  have mf: "hst.more v' = hst.more v" and t: "t_base (st_tract v') = t_base (st_tract v)" using k by (auto simp: kept_def)
  note f = more_fields [OF mf]
  have below: "v_base v + 2 ^ v_log2 v \<le> t_base (st_tract v)" using ok by (simp add: vault_ok_def)
  have "ring_inv E (ring_of v')"
  proof (rule ring_inv_frame)
    show "ring_inv E (ring_of v)" using ok by (simp add: vault_ok_def)
    show "wf_mirror (r_mirror (ring_of v'))" using kept_ok [OF k] by (simp add: store_ok_def)
    show "view (r_mirror (ring_of v')) (r_base (ring_of v) + j) = view (r_mirror (ring_of v)) (r_base (ring_of v) + j)"
      if "j < ring_n (ring_of v)" for j
    proof -
      have "v_base v + j < t_base (st_tract v)" using that below by simp
      then show ?thesis using kept_outside [OF k] by simp
    qed
  qed (use f in simp_all)
  then show ?thesis using ok i f t by (simp add: vault_ok_def)
qed

section \<open>Reads of the ring\<close>

definition ring_read_only :: "ring \<Rightarrow> ring \<Rightarrow> bool" where
  "ring_read_only r r' \<longleftrightarrow> ring_ok r' \<and> view (r_mirror r') = view (r_mirror r) \<and> rests (r_mirror r) (r_mirror r')
     \<and> r_log2 r' = r_log2 r \<and> r_base r' = r_base r \<and> r_head r' = r_head r"

lemma gen_at_read_only:
  assumes "gen_at E k r = (x, r')" and "ring_ok r"
  shows "ring_read_only r r'"
proof -
  obtain y m' where m': "mirror_read (wadd (r_base r) k) (r_mirror r) = (y, m')" by (rule prod.exhaust)
  have wf: "wf_mirror (r_mirror r)" using assms(2) by (simp add: ring_ok_def)
  have r': "r' = r\<lparr>r_mirror := m'\<rparr>" using assms(1) m' by (auto simp: gen_at_run split: sum.splits)
  show ?thesis using mread.rd_keeps [OF wf m'] mirror_read_rests [OF m']
    unfolding r' by (simp add: ring_read_only_def ring_ok_def)
qed

lemma recent_fences_read_only:
  assumes "recent_fences E k r = (x, r')" and "ring_ok r"
  shows "ring_read_only r r'"
proof -
  have refl: "ring_read_only r r" using assms(2) by (simp add: ring_read_only_def rests_refl)
  have step: "ring_read_only r r2" if "ring_read_only r r1" "gen_at E slot r1 = (y, r2)" for slot r1 y r2
    using that gen_at_read_only [OF that(2)] by (auto simp: ring_read_only_def intro: rests_trans)
  obtain y where y: "recent_entries E k r = (y, r')" using assms(1) by (auto simp: recent_fences_def bindE_def retE_def split: prod.splits sum.splits)
  show ?thesis
  proof (cases "r_head r")
    case None
    then show ?thesis using y refl by (simp add: recent_entries_def)
  next
    case (Some p)
    obtain sl head where p: "p = (sl, head)" by (cases p)
    let ?f = "\<lambda>i. let gen = se_gen head - i; slot = ring_slot (r_log2 r) gen in
             bindE (gen_at E slot) (\<lambda>c. retE (case c of Valid e \<Rightarrow> (if se_gen e = gen then Some e else None) | _ \<Rightarrow> None))"
    have run: "mapE ?f [0 ..< min k (wadd (se_gen head) 1)] r = (y, r')" using y Some p by (simp add: recent_entries_def)
    show ?thesis
    proof (rule mapE_invariant [where P = "ring_read_only r", OF run refl])
      fix i r1 q r2 assume a: "ring_read_only r r1" "?f i r1 = (q, r2)"
      then obtain c where "gen_at E (ring_slot (r_log2 r) (se_gen head - i)) r1 = (c, r2)"
        by (auto simp: Let_def bindE_def retE_def split: prod.splits sum.splits)
      then show "ring_read_only r r2" by (rule step [OF a(1)])
    qed
  qed
qed

section \<open>Writes of the ring\<close>

lemma holds_frame:
  fixes s :: "'y hst_scheme" and s' :: "'z hst_scheme"
  assumes h: "holds E s t" and ok: "store_ok s'" and same: "st_tract s' = st_tract s" "h_root s' = h_root s" "h_arena s' = h_arena s"
    and view: "\<And>p. p \<in> occ (st_tract s) \<Longrightarrow> tview s' p = tview s p"
  shows "holds E s' t"
proof (cases "h_root s")
  case None
  then show ?thesis using h ok same by (simp add: holds_def)
next
  case (Some ch)
  then obtain u J where u: "t = Some u" "tree_at E s 0 ch u J" "store_ok s" using h by (auto simp: holds_def)
  have "repr E (tview s') (t_len (st_tract s)) (occ (st_tract s)) (h_arena s) 0 ch u J"
    by (rule repr_frame [OF u(2)]) (use view repr_footprint [OF u(2)] in auto)
  then show ?thesis using ok same Some u(1) by (auto simp: holds_def)
qed

lemma index_map_frame:
  fixes s :: "'y hst_scheme" and s' :: "'z hst_scheme"
  assumes "index_map E s m" and "wf_mirror (st_mirror s')" and same: "st_tract s' = st_tract s" "h_root s' = h_root s" "h_arena s' = h_arena s"
    and view: "\<And>p. p \<in> occ (st_tract s) \<Longrightarrow> tview s' p = tview s p"
  shows "index_map E s' m"
proof -
  obtain t where t: "vsf_ok E" "holds E s t" "m = (\<lambda>x. lookup_opt x 0 t)" using assms(1) by (auto simp: index_map_def)
  then have "store_ok s" by (simp add: holds_def)
  then have "store_ok s'" using assms(2) same by (simp add: store_ok_def)
  then have "holds E s' t" by (rule holds_frame [OF t(2)]) (use same view in auto)
  then show ?thesis using t unfolding index_map_def by blast
qed

text \<open>A refence reads the ring and sets the fence.\<close>

lemma index_map_tract:
  fixes s :: "'z hst_scheme"
  assumes "index_map E s m"
  shows "index_map E (s\<lparr>st_tract := (st_tract s)\<lparr>t_fence_limit := l\<rparr>\<rparr>) m"
proof -
  obtain t where t: "vsf_ok E" "holds E s t" "m = (\<lambda>x. lookup_opt x 0 t)" using assms by (auto simp: index_map_def)
  let ?s = "s\<lparr>st_tract := (st_tract s)\<lparr>t_fence_limit := l\<rparr>\<rparr>"
  have "tview ?s = tview s" "occ (st_tract ?s) = occ (st_tract s)" by (simp_all add: tview_def [abs_def] occ_def)
  then have "holds E ?s t" using t(2) by (auto simp: holds_def store_ok_def tract_wf_def split: option.splits)
  then show ?thesis using t unfolding index_map_def by blast
qed

lemma fence_update:
  fixes v :: "'z vault_scheme"
  shows "st_tract_update (t_fence_limit_update f) v = v\<lparr>st_tract := (st_tract v)\<lparr>t_fence_limit := f (t_fence_limit (st_tract v))\<rparr>\<rparr>"
  by (cases v) simp

lemma refence_spec:
  fixes v :: "'z vault_scheme"
  assumes run: "refence E v = (r, v')" and ok: "vault_ok E v m"
  shows "vault_ok E v' m \<and> rests (st_mirror v) (st_mirror v') \<and> view (st_mirror v') = view (st_mirror v) \<and> v_log2 v' = v_log2 v
    \<and> v_base v' = v_base v \<and> v_head v' = v_head v
    \<and> (\<exists>l. st_tract v' = (st_tract v)\<lparr>t_fence_limit := l\<rparr>)"
proof -
  obtain q r1 where q: "recent_fences E FENCE_K (ring_of v) = (q, r1)" by (rule prod.exhaust)
  have rok: "ring_inv E (ring_of v)" using ok by (simp add: vault_ok_def)
  then have ro: "ring_read_only (ring_of v) r1" using recent_fences_read_only [OF q] by (simp add: ring_inv_def)
  let ?v1 = "v\<lparr>st_mirror := r_mirror r1, v_log2 := r_log2 r1, v_base := r_base r1, v_head := r_head r1\<rparr>"
  have i: "index_map E ?v1 m"
    by (rule index_map_frame [of E v]) (use ok ro in \<open>auto simp: vault_ok_def ring_read_only_def ring_ok_def tview_def\<close>)
  have "ring_inv E (ring_of ?v1)"
    by (rule ring_inv_frame [OF rok]) (use ro in \<open>auto simp: ring_read_only_def ring_ok_def\<close>)
  then have k: "vault_ok E ?v1 m" using ok ro i by (simp add: vault_ok_def ring_read_only_def)
  have v': "v' = ?v1 \<or> (\<exists>l. v' = ?v1\<lparr>st_tract := (st_tract v)\<lparr>t_fence_limit := l\<rparr>\<rparr>)"
    using run q unfolding refence_def on_ring_def bindE_def modE_def fence_update by (auto split: sum.splits)
  show ?thesis
  proof (cases "v' = ?v1")
    case True
    then show ?thesis using k ro by (auto simp: ring_read_only_def intro!: exI [where x = "t_fence_limit (st_tract v)"])
  next
    case False
    then obtain l where l: "v' = ?v1\<lparr>st_tract := (st_tract v)\<lparr>t_fence_limit := l\<rparr>\<rparr>" using v' by blast
    have "index_map E v' m" using index_map_tract [OF i, of l] l by simp
    then have "vault_ok E v' m" using k by (simp add: vault_ok_def l ring_of_def)
    then show ?thesis using ro by (auto simp: l ring_read_only_def)
  qed
qed

end
