(* ===== verification/Durability.thy ===== *)
theory Durability
  imports Vault_Props
begin

text \<open>
  What survives a crash. A reboot keeps the bytes of the devices and loses everything in memory:
  staged appends, cache, dirty nodes. \<open>durable E v h m\<close> says that the medium under the vault \<open>v\<close>
  would come back with the spine head \<open>h\<close> and the map \<open>m\<close>. Operations of the index leave it alone,
  and an append to the spine, wherever it is cut off, leaves the old head or the new one.
\<close>

section \<open>A reboot\<close>

definition healed :: "filedev \<Rightarrow> filedev" where
  "healed d = d\<lparr>fd_faults := []\<rparr>"

definition rebooted :: "mirror \<Rightarrow> mirror" where
  "rebooted m = \<lparr>m_a = map_option healed (m_a m), m_b = map_option healed (m_b m),
     m_degraded = (m_a m = None \<or> m_b m = None), m_events = [], m_pending = [], m_cache = [], m_uses = 0\<rparr>"

lemma healed_simps [simp]: "fd_file (healed d) = fd_file d" "fd_blocks (healed d) = fd_blocks d" "healthy (healed d)"
  "wf_dev (healed d) = wf_dev d" "dev_content (healed d) = dev_content d"
  by (auto simp: healed_def healthy_def wf_dev_def dev_content_def)

lemma rebooted_simps [simp]: "m_a (rebooted m) = map_option healed (m_a m)" "m_b (rebooted m) = map_option healed (m_b m)"
  "m_pending (rebooted m) = []" "m_cache (rebooted m) = []" "rdev (rebooted m) = map_option healed (rdev m)"
  "rcontent (rebooted m) = rcontent m" "rcount (rebooted m) = rcount m" "find_staged (rebooted m) l = None"
proof -
  show a: "m_a (rebooted m) = map_option healed (m_a m)" "m_b (rebooted m) = map_option healed (m_b m)"
    "m_pending (rebooted m) = []" "m_cache (rebooted m) = []" by (simp_all add: rebooted_def)
  show r: "rdev (rebooted m) = map_option healed (rdev m)" by (simp add: rdev_def a)
  show "rcontent (rebooted m) = rcontent m" "rcount (rebooted m) = rcount m"
    by (auto simp: rcontent_def rcount_def r fun_eq_iff split: option.splits)
  show "find_staged (rebooted m) l = None" by (simp add: find_staged_def a)
qed

lemma rebooted_wf: "wf_mirror m \<Longrightarrow> wf_mirror (rebooted m)"
  by (auto simp: wf_mirror_def cache_ok_def staged_def)

lemma rebooted_view [simp]: "view (rebooted m) = rcontent m"
  by (rule ext) (simp add: view_def)

lemma rebooted_quiet: "wf_mirror m \<Longrightarrow> quiet_mirror (rebooted m)"
  by (auto simp: quiet_mirror_def wf_mirror_def)

section \<open>What the medium holds\<close>

definition head_tract :: "tract \<Rightarrow> SpineEntry \<Rightarrow> tract" where
  "head_tract t h = \<lparr>t_base = t_base t, t_len = se_tract_blocks h, t_plow = se_plow h, t_reap = t_reap t, t_fence_limit = None\<rparr>"

definition disk_ring :: "'z vault_scheme \<Rightarrow> SpineEntry \<Rightarrow> ring" where
  "disk_ring v h = \<lparr>r_mirror = rebooted (st_mirror v), r_log2 = v_log2 v, r_base = v_base v,
     r_head = Some (se_gen h mod 2 ^ v_log2 v, h)\<rparr>"

definition head_index :: "mirror \<Rightarrow> tract \<Rightarrow> SpineEntry \<Rightarrow> hst" where
  "head_index m t h = from_root m (head_tract t h) (se_hamt_hash h) (se_hamt_lba h)"

definition durable :: "vsf_env \<Rightarrow> 'z vault_scheme \<Rightarrow> SpineEntry \<Rightarrow> (hash \<rightharpoonup> u8 list) \<Rightarrow> bool" where
  "durable E v h m \<longleftrightarrow> ring_inv E (disk_ring v h) \<and> se_ring_log2 h = v_log2 v \<and> se_reap h \<noteq> None
     \<and> index_map E (head_index (rebooted (st_mirror v)) (st_tract v) h) m"

lemma head_index_simps [simp]: "st_mirror (head_index m t h) = m" "st_tract (head_index m t h) = head_tract t h"
  by (simp_all add: head_index_def from_root_def)

lemma disk_ring_simps [simp]: "r_mirror (disk_ring v h) = rebooted (st_mirror v)" "r_log2 (disk_ring v h) = v_log2 v"
  "r_base (disk_ring v h) = v_base v" "r_head (disk_ring v h) = Some (se_gen h mod 2 ^ v_log2 v, h)" "ring_n (disk_ring v h) = 2 ^ v_log2 v"
  by (simp_all add: disk_ring_def ring_n_def)

lemma head_tract_simps [simp]: "t_base (head_tract t h) = t_base t" "t_len (head_tract t h) = se_tract_blocks h" "t_reap (head_tract t h) = t_reap t"
    "t_plow (head_tract t h) = se_plow h"
  by (simp_all add: head_tract_def)

text \<open>The map at a head does not depend on the blocks outside the head's own window.\<close>

lemma head_index_frame:
  assumes "index_map E (head_index m t h) x" and "wf_mirror m'" and "t_base t' = t_base t" "t_reap t' = t_reap t"
    and "\<And>p. p \<in> occ (head_tract t h) \<Longrightarrow> view m' (t_base t + p) = view m (t_base t + p)"
  shows "index_map E (head_index m' t' h) x"
proof -
  have t: "head_tract t' h = head_tract t h" using assms(3,4) by (simp add: head_tract_def)
  show ?thesis
    by (rule index_map_frame [OF assms(1)]) (use assms(2,5) t in \<open>auto simp: tview_def head_index_def from_root_def\<close>)
qed

text \<open>A change of the medium outside the ring and the head's window.\<close>

lemma durable_frame:
  fixes v v' :: "'z vault_scheme"
  assumes d: "durable E v h m" and wf: "wf_mirror (st_mirror v')" and same: "v_log2 v' = v_log2 v" "v_base v' = v_base v"
      "t_base (st_tract v') = t_base (st_tract v)" "t_reap (st_tract v') = t_reap (st_tract v)"
    and ring: "\<And>k. k < 2 ^ v_log2 v \<Longrightarrow> rcontent (st_mirror v') (v_base v + k) = rcontent (st_mirror v) (v_base v + k)"
    and win: "\<And>p. p \<in> occ (head_tract (st_tract v) h) \<Longrightarrow>
      rcontent (st_mirror v') (t_base (st_tract v) + p) = rcontent (st_mirror v) (t_base (st_tract v) + p)"
  shows "durable E v' h m"
proof -
  have "ring_inv E (disk_ring v' h)"
    by (rule ring_inv_frame [of E "disk_ring v h"]) (use d rebooted_wf [OF wf] same ring in \<open>auto simp: durable_def\<close>)
  moreover have "index_map E (head_index (rebooted (st_mirror v')) (st_tract v') h) m"
    by (rule head_index_frame [of E "rebooted (st_mirror v)" "st_tract v"])
      (use d rebooted_wf [OF wf] same win in \<open>auto simp: durable_def\<close>)
  ultimately show ?thesis using d same by (simp add: durable_def)
qed

section \<open>The vault between commits\<close>

text \<open>\<open>safe E v h m m0\<close>: the index stands for \<open>m\<close>, the medium for \<open>m0\<close> at the head \<open>h\<close>, and nothing is
  staged over the ring or over the head's window.\<close>

definition safe :: "vsf_env \<Rightarrow> 'z vault_scheme \<Rightarrow> SpineEntry \<Rightarrow> (hash \<rightharpoonup> u8 list) \<Rightarrow> (hash \<rightharpoonup> u8 list) \<Rightarrow> bool" where
  "safe E v h m m0 \<longleftrightarrow> vault_ok E v m \<and> durable E v h m0 \<and> map_option snd (v_head v) = Some h
     \<and> t_len (st_tract v) = se_tract_blocks h \<and> occ (head_tract (st_tract v) h) \<subseteq> occ (st_tract v)
     \<and> (\<forall>l. l \<in> spared (head_tract (st_tract v) h) \<longrightarrow> find_staged (st_mirror v) l = None)"

lemma bytes_rcontent:
  assumes "bytes m' = bytes m"
  shows "rcontent m' = rcontent m" "rcount m' = rcount m"
proof -
  have "map_option (\<lambda>d. (fd_file d, fd_blocks d)) (rdev m') = map_option (\<lambda>d. (fd_file d, fd_blocks d)) (rdev m)"
    using assms by (auto simp: bytes_def rdev_def)
  then show "rcontent m' = rcontent m" "rcount m' = rcount m"
    by (auto simp: rcontent_def rcount_def dev_content_def fun_eq_iff split: option.splits)
qed

lemma spared_head:
  assumes "safe E v h m m0"
  shows "spared (head_tract (st_tract v) h) \<subseteq> spared (st_tract v)"
    "k < 2 ^ v_log2 v \<Longrightarrow> v_base v + k \<in> spared (head_tract (st_tract v) h)"
    "p \<in> occ (head_tract (st_tract v) h) \<Longrightarrow> t_base (st_tract v) + p \<in> spared (head_tract (st_tract v) h)"
  using assms by (auto simp: safe_def vault_ok_def spared_def)

lemma safe_kept:
  fixes v v' :: "'z vault_scheme"
  assumes s: "safe E v h m m0" and k: "kept v v'" and i: "index_map E v' m'"
  shows "safe E v' h m' m0"
proof -
  have b: "rcontent (st_mirror v') = rcontent (st_mirror v)" using k by (intro bytes_rcontent) (simp add: kept_def)
  have wf: "wf_mirror (st_mirror v')" using kept_ok [OF k] by (simp add: store_ok_def)
  have mf: "hst.more v' = hst.more v" and t: "t_base (st_tract v') = t_base (st_tract v)" "t_len (st_tract v') = t_len (st_tract v)"
      "t_reap (st_tract v') = t_reap (st_tract v)"
    using k by (auto simp: kept_def)
  note f = more_fields [OF mf]
  have ht: "head_tract (st_tract v') h = head_tract (st_tract v) h" using t by (simp add: head_tract_def)
  have occ: "occ (st_tract v) \<subseteq> occ (st_tract v')" using k by (intro occ_mono) (auto simp: kept_def)
  have "vault_ok E v' m'" by (rule vault_ok_kept [where m = m, OF _ k i]) (use s in \<open>simp add: safe_def\<close>)
  moreover have "durable E v' h m0" by (rule durable_frame [of E v]) (use s wf f t b in \<open>auto simp: safe_def\<close>)
  moreover have "find_staged (st_mirror v') l = None" if "l \<in> spared (head_tract (st_tract v) h)" for l
    using s k that spared_head(1) [OF s] by (auto simp: safe_def kept_def)
  ultimately show ?thesis using s f t ht occ by (auto simp: safe_def)
qed

lemma safe_tame:
  fixes v :: "'z vault_scheme"
  assumes "tame f" and "f v = (r, v')" and "safe E v h m m0" and "index_map E v' m'"
  shows "safe E v' h m' m0"
proof -
  have "store_ok v" using assms(3) by (auto simp: safe_def vault_ok_def index_map_def holds_def)
  then show ?thesis using safe_kept [OF assms(3) tameD [OF assms(1) _ assms(2)] assms(4)] by simp
qed

lemma safe_refence:
  fixes v :: "'z vault_scheme"
  assumes run: "refence E v = (r, v')" and s: "safe E v h m m0"
  shows "safe E v' h m m0" "torn (st_mirror v') \<subseteq> torn (st_mirror v)" "m_pending (st_mirror v') = m_pending (st_mirror v)"
proof -
  have ok: "vault_ok E v m" using s by (simp add: safe_def)
  note p = refence_spec [OF run ok]
  obtain l where t: "st_tract v' = (st_tract v)\<lparr>t_fence_limit := l\<rparr>" using p by blast
  have b: "rcontent (st_mirror v') = rcontent (st_mirror v)" using p by (intro bytes_rcontent) (simp add: rests_def)
  have wf: "wf_mirror (st_mirror v')" using p by (auto simp: vault_ok_def ring_inv_def ring_ok_def)
  have d: "durable E v' h m0" by (rule durable_frame [of E v]) (use s wf p t b in \<open>auto simp: safe_def\<close>)
  have "find_staged (st_mirror v') = find_staged (st_mirror v)" using p by (intro find_staged_cong) (simp add: rests_def)
  then show "safe E v' h m m0" using s p d t by (auto simp: safe_def head_tract_def occ_def)
  show "torn (st_mirror v') \<subseteq> torn (st_mirror v)" "m_pending (st_mirror v') = m_pending (st_mirror v)" using p by (auto simp: rests_def)
qed

section \<open>One write to the spine\<close>

text \<open>The slot after the head is the only one an append touches: it holds the next entry, or something
  that is no entry at all.\<close>

lemma ring_inv_next:
  assumes inv: "ring_inv E r" and h: "r_head r = Some (s, h)" and wf: "wf_mirror (r_mirror r')"
    and same: "r_log2 r' = r_log2 r" "r_base r' = r_base r" and n: "1 \<le> r_log2 r"
    and view: "\<And>k. k < ring_n r \<Longrightarrow> k \<noteq> Suc (se_gen h) mod ring_n r \<Longrightarrow> view (r_mirror r') (r_base r + k) = view (r_mirror r) (r_base r + k)"
  shows "r_head r' = r_head r \<Longrightarrow> (\<And>f. classify E (view (r_mirror r') (r_base r + Suc (se_gen h) mod ring_n r)) (Suc (se_gen h) mod ring_n r) (Some (r_log2 r)) \<noteq> Valid f) \<Longrightarrow>
      ring_inv E r'"
    and "vsf_ok E \<Longrightarrow> spine_wf e \<Longrightarrow> spine_sane e \<Longrightarrow> se_gen e = Suc (se_gen h) \<Longrightarrow> se_ring_log2 e = r_log2 r \<Longrightarrow>
      r_head r' = Some (se_gen e mod ring_n r, e) \<Longrightarrow>
      view (r_mirror r') (r_base r + Suc (se_gen h) mod ring_n r) = doc_block E SCHEMA (spine_pairs e) \<Longrightarrow> ring_inv E r'"
proof -
  let ?n = "ring_n r" and ?sl = "Suc (se_gen h) mod ring_n r"
  have n2: "1 < ?n" using n one_less_power [of "2 :: nat" "r_log2 r"] by (simp add: ring_n_def)
  have n': "ring_n r' = ?n" using same by (simp add: ring_n_def)
  have sl: "?sl < ?n" "se_gen h mod ?n < ?n" using n2 by simp_all
  have ne: "se_gen h mod ?n \<noteq> ?sl" using n2 by (simp add: mod_Suc)
  have fits: "wadd (r_base r) k = r_base r + k" if "k < ?n" for k
    using inv that by (intro wadd_eq) (auto simp: ring_inv_def ring_fits_def)
  have old: "spine_wf h" "s = se_gen h mod ?n" "ring_cls E r s = Valid h" "lap_shaped (ring_cls E r) ?n (se_gen h)"
    using inv h by (auto simp: ring_inv_def)
  have cls: "ring_cls E r' k = ((ring_cls E r)(?sl := classify E (view (r_mirror r') (r_base r + ?sl)) ?sl (Some (r_log2 r)))) k" if "k < ?n" for k
    using that fits [OF that] view [OF that] fits [OF sl(1)] by (auto simp: ring_cls_def same)
  have base: "ring_ok r'" "ring_fits r'" using wf inv same n' by (auto simp: ring_ok_def ring_inv_def ring_fits_def)
  show "ring_inv E r'" if "r_head r' = r_head r" and cor: "\<And>f. classify E (view (r_mirror r') (r_base r + ?sl)) ?sl (Some (r_log2 r)) \<noteq> Valid f"
  proof -
    have "lap_shaped ((ring_cls E r)(?sl := classify E (view (r_mirror r') (r_base r + ?sl)) ?sl (Some (r_log2 r)))) ?n (se_gen h)"
      using lap_shaped_torn [OF old(4), OF cor] by simp
    then have "lap_shaped (ring_cls E r') ?n (se_gen h)" by (rule lap_shaped_cong) (rule cls)
    then show ?thesis using base that(1) h old cls [OF sl(2)] ne n' by (simp add: ring_inv_def)
  qed
  show "ring_inv E r'" if E: "vsf_ok E" and e: "spine_wf e" "spine_sane e" "se_gen e = Suc (se_gen h)" "se_ring_log2 e = r_log2 r"
    and hd: "r_head r' = Some (se_gen e mod ?n, e)" and b: "view (r_mirror r') (r_base r + ?sl) = doc_block E SCHEMA (spine_pairs e)"
  proof -
    have slot: "ring_slot (r_log2 r) (se_gen e) = ?sl" using e(3) by (simp add: ring_slot_eq ring_n_def)
    have c: "classify E (view (r_mirror r') (r_base r + ?sl)) ?sl (Some (r_log2 r)) = Valid e"
      using classify_encoded [OF E e(1,2)] e(4) slot b by simp
    have "lap_shaped ((ring_cls E r)(se_gen e mod ?n := Valid e)) ?n (se_gen h + 1)"
      by (rule lap_shaped_append [OF old(4)]) (simp add: e(3))
    then have "lap_shaped ((ring_cls E r)(?sl := classify E (view (r_mirror r') (r_base r + ?sl)) ?sl (Some (r_log2 r)))) ?n (se_gen e)"
      using e(3) c by simp
    then have "lap_shaped (ring_cls E r') ?n (se_gen e)" by (rule lap_shaped_cong) (rule cls)
    then show ?thesis using base hd e cls [OF sl(1)] c n' by (simp add: ring_inv_def)
  qed
qed

text \<open>No torn write passes for a spine entry.\<close>

definition unforged :: "vsf_env \<Rightarrow> mirror \<Rightarrow> bool" where
  "unforged E m \<longleftrightarrow> (\<forall>b \<in> torn m. \<forall>slot rl e. classify E b slot (Some rl) \<noteq> Valid e)"

lemma unforged_mono: "unforged E m \<Longrightarrow> torn m' \<subseteq> torn m \<Longrightarrow> unforged E m'"
  by (auto simp: unforged_def)

text \<open>The next entry of a vault, over a window that the vault has not given away.\<close>

definition next_ok :: "vsf_env \<Rightarrow> 'z vault_scheme \<Rightarrow> SpineEntry \<Rightarrow> SpineEntry \<Rightarrow> (hash \<rightharpoonup> u8 list) \<Rightarrow> bool" where
  "next_ok E v h e m \<longleftrightarrow> spine_wf e \<and> spine_sane e \<and> se_gen e = Suc (se_gen h) \<and> se_ring_log2 e = v_log2 v \<and> se_reap e \<noteq> None
     \<and> se_tract_blocks e = t_len (st_tract v) \<and> occ (head_tract (st_tract v) e) \<subseteq> occ (st_tract v)
     \<and> index_map E (head_index (st_mirror v) (st_tract v) e) m"

lemma spine_write_cut:
  fixes v v' :: "'z vault_scheme"
  assumes s: "safe E v h m m0" and E: "vsf_ok E" and e: "next_ok E v h e m1"
    and w: "write_verified (v_base v + Suc (se_gen h) mod 2 ^ v_log2 v) (doc_block E SCHEMA (spine_pairs e)) (st_mirror v) = (r, st_mirror v')"
    and same: "v_log2 v' = v_log2 v" "v_base v' = v_base v" "t_base (st_tract v') = t_base (st_tract v)" "t_reap (st_tract v') = t_reap (st_tract v)"
    and forge: "unforged E (st_mirror v)"
  shows "durable E v' h m0 \<or> durable E v' e m1" and "r = Inr u \<Longrightarrow> durable E v' e m1"
proof -
  let ?n = "2 ^ v_log2 v" and ?b = "doc_block E SCHEMA (spine_pairs e)"
  let ?l = "v_base v + Suc (se_gen h) mod ?n"
  have ok: "vault_ok E v m" and d: "durable E v h m0" using s by (auto simp: safe_def)
  have wf: "wf_mirror (st_mirror v)" using ok by (auto simp: vault_ok_def ring_inv_def ring_ok_def)
  have len: "length ?b = BLOCK" using e spine_doc(2) [OF E] length_doc_block [OF E] by (simp add: next_ok_def)
  note sp = write_verified_spec [OF w wf len] and tw = write_verified_torn [OF w wf len]
  have wf': "wf_mirror (st_mirror v')" using sp by blast
  have log: "1 \<le> v_log2 v" and below: "v_base v + ?n \<le> t_base (st_tract v)" using ok by (auto simp: vault_ok_def)
  have sl: "Suc (se_gen h) mod ?n < ?n" by simp
  have none: "find_staged (st_mirror v) l = None" if "l \<in> spared (head_tract (st_tract v) h)" for l using s that by (auto simp: safe_def)
  have ring: "rcontent (st_mirror v') (v_base v + k) = rcontent (st_mirror v) (v_base v + k)" if "k < ?n" "k \<noteq> Suc (se_gen h) mod ?n" for k
    using tw(2) [of "v_base v + k"] none [OF spared_head(2) [OF s that(1)]] that by simp
  have win: "rcontent (st_mirror v') (t_base (st_tract v) + p) = rcontent (st_mirror v) (t_base (st_tract v) + p)" if "p \<in> occ (head_tract (st_tract v) h)" for p
    using tw(2) [of "t_base (st_tract v) + p"] none [OF spared_head(3) [OF s that]] sl below by simp
  have inv: "ring_inv E (disk_ring v h)" using d by (simp add: durable_def)
  note next1 = ring_inv_next [OF inv, of "se_gen h mod ?n" h]
  have keep: "durable E v' h m0" if "rcontent (st_mirror v') ?l \<in> insert (rcontent (st_mirror v) ?l) (torn (st_mirror v))"
  proof (cases "rcontent (st_mirror v') ?l = rcontent (st_mirror v) ?l")
    case True
    have "rcontent (st_mirror v') (v_base v + k) = rcontent (st_mirror v) (v_base v + k)" if "k < ?n" for k
      using ring [OF that] True by (cases "k = Suc (se_gen h) mod ?n") auto
    then show ?thesis by (intro durable_frame [OF d wf' same]) (use win in auto)
  next
    case False
    then have cor: "classify E (rcontent (st_mirror v') ?l) k (Some rl) \<noteq> Valid f" for k rl f using that forge by (auto simp: unforged_def)
    have "ring_inv E (disk_ring v' h)"
      by (rule next1(1)) (use rebooted_wf [OF wf'] same log ring cor in auto)
    moreover have "index_map E (head_index (rebooted (st_mirror v')) (st_tract v') h) m0"
      by (rule head_index_frame [of E "rebooted (st_mirror v)" "st_tract v"])
        (use d rebooted_wf [OF wf'] same win in \<open>auto simp: durable_def\<close>)
    ultimately show ?thesis using d same by (simp add: durable_def)
  qed
  have new: "durable E v' e m1" if "rcontent (st_mirror v') ?l = ?b" "\<forall>k. k \<noteq> ?l \<longrightarrow> rcontent (st_mirror v') k = view (st_mirror v) k"
  proof -
    have "ring_inv E (disk_ring v' e)"
      by (rule next1(2) [where e = e]) (use rebooted_wf [OF wf'] same log ring that(1) e E in \<open>auto simp: next_ok_def\<close>)
    moreover have "index_map E (head_index (rebooted (st_mirror v')) (st_tract v') e) m1"
    proof (rule head_index_frame [of E "st_mirror v" "st_tract v"])
      show "index_map E (head_index (st_mirror v) (st_tract v) e) m1" using e by (simp add: next_ok_def)
      show "view (rebooted (st_mirror v')) (t_base (st_tract v) + p) = view (st_mirror v) (t_base (st_tract v) + p)" for p
      proof -
        have "t_base (st_tract v) + p \<noteq> ?l" using sl below by linarith
        then show ?thesis using that(2) by simp
      qed
    qed (use rebooted_wf [OF wf'] same in auto)
    ultimately show ?thesis using e same by (auto simp: durable_def next_ok_def)
  qed
  have "find_staged (st_mirror v) ?l = None" by (rule none [OF spared_head(2) [OF s sl]])
  then show "durable E v' h m0 \<or> durable E v' e m1" using tw(3) keep new by blast
  show "durable E v' e m1" if "r = Inr u"
  proof -
    have "rcontent (st_mirror v') = (view (st_mirror v))(?l := ?b)" using sp that by (auto simp: no_pending_view [symmetric])
    then show ?thesis using new by simp
  qed
qed

lemma ring_append_step:
  assumes "ring_append E e r = (q, r')" and "vsf_ok E" and "spine_wf e"
  obtains (refused) x where "q = Inl x" "r' = r"
    | (written) m' where "write_verified (wadd (r_base r) (ring_slot (r_log2 r) (se_gen e))) (doc_block E SCHEMA (spine_pairs e)) (r_mirror r) = (q, m')"
        "r' = r\<lparr>r_mirror := m', r_head := (case q of Inl _ \<Rightarrow> r_head r | Inr _ \<Rightarrow> Some (ring_slot (r_log2 r) (se_gen e), e))\<rparr>"
proof (cases "ring_append_check E r e")
  case (Inl x)
  then have "q = Inl x" "r' = r" using assms(1) by (auto simp: ring_append_def bindE_def liftE_def)
  then show thesis by (rule refused)
next
  case (Inr u)
  let ?slot = "ring_slot (r_log2 r) (se_gen e)" and ?b = "doc_block E SCHEMA (spine_pairs e)"
  obtain p m' where w: "write_verified (wadd (r_base r) ?slot) ?b (r_mirror r) = (p, m')" by (rule prod.exhaust)
  have run: "bindE (on_mirror (write_verified (wadd (r_base r) ?slot) ?b)) (\<lambda>_. modE (r_head_update (\<lambda>_. Some (?slot, e)))) r = (q, r')"
    using assms(1) unfolding ring_append_def Inr Let_def spine_encode_eq [OF assms(2,3)] liftE_Inr bindE_retE .
  show thesis
  proof (cases p)
    case (Inl x)
    then have "q = p" "r' = r\<lparr>r_mirror := m'\<rparr>" using run w by (auto simp: bindE_def on_mirror_def)
    then show thesis using written [of m'] w Inl by (cases r) simp
  next
    case (Inr y)
    then have "q = p" "r' = r\<lparr>r_mirror := m', r_head := Some (?slot, e)\<rparr>" using run w by (auto simp: bindE_def on_mirror_def modE_def)
    then show thesis using written [of m'] w Inr by simp
  qed
qed

lemma append_safe:
  fixes v v' :: "'z vault_scheme"
  assumes run: "on_ring (ring_append E e) v = (r, v')" and s: "safe E v h m m0" and E: "vsf_ok E" and e: "next_ok E v h e m1"
    and forge: "unforged E (st_mirror v)"
  shows "torn (st_mirror v') \<subseteq> torn (st_mirror v)" and "durable E v' h m0 \<or> durable E v' e m1"
    and "r = Inr u \<Longrightarrow> safe E v' e m m1 \<and> m_pending (st_mirror v') = [] \<and> st_tract v' = st_tract v \<and> v_log2 v' = v_log2 v"
proof -
  have d: "durable E v h m0" and ok: "vault_ok E v m" using s by (auto simp: safe_def)
  have wf: "wf_mirror (st_mirror v)" using ok by (auto simp: vault_ok_def ring_inv_def ring_ok_def)
  have swf: "spine_wf e" using e by (simp add: next_ok_def)
  have len: "length (doc_block E SCHEMA (spine_pairs e)) = BLOCK" using spine_doc(2) [OF E swf] length_doc_block [OF E] by simp
  obtain r1 where r1: "ring_append E e (ring_of v) = (r, r1)"
    and v': "v' = v\<lparr>st_mirror := r_mirror r1, v_log2 := r_log2 r1, v_base := r_base r1, v_head := r_head r1\<rparr>"
    using run by (auto simp: on_ring_def split: prod.splits)
  have "torn (st_mirror v') \<subseteq> torn (st_mirror v) \<and> (durable E v' h m0 \<or> durable E v' e m1)
    \<and> (\<forall>u. r = Inr u \<longrightarrow> safe E v' e m m1 \<and> m_pending (st_mirror v') = [] \<and> st_tract v' = st_tract v \<and> v_log2 v' = v_log2 v)"
  proof (cases rule: ring_append_step [OF r1 E swf])
    case (1 x)
    then have "v' = v" by (simp add: v' ring_of_def)
    then show ?thesis using d 1 by simp
  next
    case (2 m')
    have slot: "ring_slot (v_log2 v) (se_gen e) = Suc (se_gen h) mod 2 ^ v_log2 v" using e by (simp add: ring_slot_eq next_ok_def)
    have below: "v_base v + 2 ^ v_log2 v \<le> t_base (st_tract v)" using ok by (auto simp: vault_ok_def)
    have fits: "v_base v + 2 ^ v_log2 v \<le> U64" using ok by (auto simp: vault_ok_def ring_inv_def ring_fits_def)
    have sl: "Suc (se_gen h) mod 2 ^ v_log2 v < 2 ^ v_log2 v" by simp
    have "wadd (v_base v) (Suc (se_gen h) mod 2 ^ v_log2 v) = v_base v + Suc (se_gen h) mod 2 ^ v_log2 v"
      using fits sl by (intro wadd_eq) linarith
    then have w: "write_verified (v_base v + Suc (se_gen h) mod 2 ^ v_log2 v) (doc_block E SCHEMA (spine_pairs e)) (st_mirror v) = (r, st_mirror v')"
      using 2 slot by (simp add: v')
    have same: "v_log2 v' = v_log2 v" "v_base v' = v_base v" "st_tract v' = st_tract v" "h_root v' = h_root v" "h_arena v' = h_arena v"
      using 2 by (simp_all add: v')
    note cut = spine_write_cut [OF s E e w same(1,2) arg_cong [OF same(3), of t_base] arg_cong [OF same(3), of t_reap] forge]
    note sp = write_verified_spec [OF w wf len]
    have good: "safe E v' e m m1 \<and> m_pending (st_mirror v') = []" if r: "r = Inr u" for u
    proof -
      have d': "durable E v' e m1" by (rule cut(2) [OF r])
      have p: "m_pending (st_mirror v') = []" and vw: "view (st_mirror v') = (view (st_mirror v))(v_base v + Suc (se_gen h) mod 2 ^ v_log2 v := doc_block E SCHEMA (spine_pairs e))"
        using sp r by blast+
      have hd: "v_head v' = Some (Suc (se_gen h) mod 2 ^ v_log2 v, e)" using 2 r slot by (simp add: v')
      have g: "se_gen e = Suc (se_gen h)" using e by (simp add: next_ok_def)
      have i: "index_map E v' m"
      proof (rule index_map_frame [of E v])
        show "tview v' p = tview v p" for p
        proof -
          have "t_base (st_tract v) + p \<noteq> v_base v + Suc (se_gen h) mod 2 ^ v_log2 v" using sl below by linarith
          then show ?thesis by (simp add: tview_def same vw)
        qed
      qed (use ok sp same in \<open>auto simp: vault_ok_def\<close>)
      have "ring_inv E (ring_of v')"
        by (rule ring_inv_frame [of E "disk_ring v' e"]) (use d' sp hd g no_pending_view [OF p] same in \<open>auto simp: durable_def\<close>)
      then have "vault_ok E v' m" using ok i same hd 2 by (simp add: vault_ok_def v')
      moreover have "find_staged (st_mirror v') l = None" for l using p by (simp add: find_staged_def)
      ultimately show ?thesis using d' hd e same p by (simp add: safe_def next_ok_def)
    qed
    show ?thesis using write_verified_torn(1) [OF w wf len] cut(1) good same by blast
  qed
  then show "torn (st_mirror v') \<subseteq> torn (st_mirror v)" "durable E v' h m0 \<or> durable E v' e m1"
    "r = Inr u \<Longrightarrow> safe E v' e m m1 \<and> m_pending (st_mirror v') = [] \<and> st_tract v' = st_tract v \<and> v_log2 v' = v_log2 v" by blast+
qed

end
