(* ===== verification/Commit_Props.thy ===== *)
theory Commit_Props
  imports Durability
begin

text \<open>
  A commit is atomic. The flush ladder may write heartbeats first, each of which keeps the old map at
  a new head; the commit's own spine entry replaces it. Wherever the sequence of writes is cut off,
  by an error or by a crash, the medium holds the old map or the new one at some head.
\<close>

section \<open>Entries\<close>

lemma durable_head:
  assumes "durable E v h m"
  shows "spine_wf h" "spine_sane h"
proof -
  have c: "ring_cls E (disk_ring v h) (se_gen h mod 2 ^ v_log2 v) = Valid h" and wf: "spine_wf h"
    using assms by (auto simp: durable_def ring_inv_def)
  show "spine_wf h" by (rule wf)
  show "spine_sane h" using c spine_decode_sane
    by (auto simp: ring_cls_def classify_def Let_def split: if_splits sum.splits)
qed

text \<open>A heartbeat repeats the head's own root and cursors.\<close>

lemma heartbeat_next:
  fixes v :: "'z vault_scheme"
  assumes s: "safe E v h m m0" and E: "vsf_ok E" and g: "Suc (se_gen h) < U64" and now: "- (2 ^ 63) \<le> now" "now < 2 ^ 63"
    and prev: "spine_body_hash E h = Inr prev"
  shows "next_ok E v h (next_entry h prev v (se_hamt_hash h) (se_hamt_lba h) (se_tract_blocks h) (se_plow h) (se_reap h) now) m0"
proof -
  let ?e = "next_entry h prev v (se_hamt_hash h) (se_hamt_lba h) (se_tract_blocks h) (se_plow h) (se_reap h) now"
  have d: "durable E v h m0" using s by (simp add: safe_def)
  note hd = durable_head [OF d]
  have log: "se_ring_log2 h = v_log2 v" and r: "se_reap h \<noteq> None" using d by (auto simp: durable_def)
  have "length prev = 32" using prev spine_body_hash_eq [OF E hd(1)] E by (auto simp: vsf_ok_def)
  then have wf: "spine_wf ?e" "spine_sane ?e" using hd g now log by (auto simp: spine_wf_def spine_sane_def next_entry_def split: option.splits)
  have t: "head_tract (st_tract v) ?e = head_tract (st_tract v) h" by (simp add: head_tract_def next_entry_def)
  have "index_map E (head_index (st_mirror v) (st_tract v) h) m0"
  proof (rule head_index_frame [of E "rebooted (st_mirror v)" "st_tract v"])
    show "view (st_mirror v) (t_base (st_tract v) + p) = view (rebooted (st_mirror v)) (t_base (st_tract v) + p)"
      if "p \<in> occ (head_tract (st_tract v) h)" for p
      using s spared_head(3) [OF s that] by (auto simp: safe_def view_def [of "st_mirror v"])
  qed (use s d in \<open>auto simp: durable_def safe_def vault_ok_def ring_inv_def ring_ok_def\<close>)
  then have "index_map E (head_index (st_mirror v) (st_tract v) ?e) m0" by (simp add: head_index_def t) (simp add: next_entry_def)
  then show ?thesis using wf s r t g by (auto simp: next_ok_def safe_def next_entry_def)
qed

lemma commit_next:
  fixes v :: "'z vault_scheme"
  assumes s: "safe E v h m m0" and E: "vsf_ok E" and g: "Suc (se_gen h) < U64" and now: "- (2 ^ 63) \<le> now" "now < 2 ^ 63"
    and prev: "spine_body_hash E h = Inr prev" and root: "index_map E (from_root (st_mirror v) (st_tract v) hash lba) m" "length hash = 32" "lba < U64"
  shows "next_ok E v h (next_entry h prev v hash lba (t_len (st_tract v)) (t_plow (st_tract v)) (Some (t_reap (st_tract v))) now) m"
proof -
  let ?e = "next_entry h prev v hash lba (t_len (st_tract v)) (t_plow (st_tract v)) (Some (t_reap (st_tract v))) now"
  have d: "durable E v h m0" and ok: "vault_ok E v m" using s by (auto simp: safe_def)
  note hd = durable_head [OF d]
  have log: "se_ring_log2 h = v_log2 v" using d by (simp add: durable_def)
  have "length prev = 32" using prev spine_body_hash_eq [OF E hd(1)] E by (auto simp: vsf_ok_def)
  moreover have tw: "tract_wf (st_tract v)" using ok by (auto simp: vault_ok_def index_map_def holds_def store_ok_def)
  ultimately have wf: "spine_wf ?e" "spine_sane ?e"
    using hd g now root log by (auto simp: spine_wf_def spine_sane_def next_entry_def tract_wf_def)
  have t: "head_tract (st_tract v) ?e = (st_tract v)\<lparr>t_fence_limit := None\<rparr>" by (cases "st_tract v") (simp add: head_tract_def next_entry_def)
  have "index_map E ((from_root (st_mirror v) (st_tract v) hash lba)\<lparr>st_tract := (st_tract v)\<lparr>t_fence_limit := None\<rparr>\<rparr>) m"
    using index_map_tract [OF root(1), of None] by (simp add: from_root_def)
  then have "index_map E (head_index (st_mirror v) (st_tract v) ?e) m" by (simp add: head_index_def from_root_def t) (auto simp: next_entry_def)
  then show ?thesis using wf t g by (auto simp: next_ok_def next_entry_def occ_def)
qed

section \<open>Heartbeats and the flush ladder\<close>

text \<open>\<open>recovers E v m\<close>: a crash now would come back with the map \<open>m\<close>.\<close>

definition recovers :: "vsf_env \<Rightarrow> 'z vault_scheme \<Rightarrow> (hash \<rightharpoonup> u8 list) \<Rightarrow> bool" where
  "recovers E v m \<longleftrightarrow> (\<exists>h. durable E v h m)"

lemma safe_recovers: "safe E v h m m0 \<Longrightarrow> recovers E v m0"
  by (auto simp: safe_def recovers_def)

lemma heartbeat_safe:
  fixes v :: "'z vault_scheme"
  assumes run: "append_heartbeat E now v = (r, v')" and s: "safe E v h m m0" and E: "vsf_ok E" and forge: "unforged E (st_mirror v)"
    and g: "Suc (se_gen h) < U64" and now: "- (2 ^ 63) \<le> now" "now < 2 ^ 63"
  shows "torn (st_mirror v') \<subseteq> torn (st_mirror v)" and "recovers E v' m0"
    and "r = Inr u \<Longrightarrow> \<exists>h'. safe E v' h' m m0 \<and> se_gen h' = Suc (se_gen h)"
proof -
  have d: "durable E v h m0" using s by (simp add: safe_def)
  obtain prev where prev: "spine_body_hash E h = Inr prev" using spine_body_hash_eq [OF E durable_head(1) [OF d]] by blast
  let ?e = "next_entry h prev v (se_hamt_hash h) (se_hamt_lba h) (se_tract_blocks h) (se_plow h) (se_reap h) now"
  have nx: "next_ok E v h ?e m0" by (rule heartbeat_next [OF s E g now prev])
  obtain slot where hd: "v_head v = Some (slot, h)" using s by (auto simp: safe_def)
  have run': "bindE (on_ring (ring_append E ?e)) (\<lambda>_. refence E) v = (r, v')"
    using run prev hd by (simp add: append_heartbeat_def need_head_def bindE_def liftE_def getE_def ok_or_def)
  have "torn (st_mirror v') \<subseteq> torn (st_mirror v) \<and> recovers E v' m0 \<and> (\<forall>u. r = Inr u \<longrightarrow> (\<exists>h'. safe E v' h' m m0 \<and> se_gen h' = Suc (se_gen h)))"
    using run'
  proof (cases rule: bindE_cases)
    case (err e)
    note a = append_safe [OF err(1) s E nx forge]
    then show ?thesis using err(2) by (auto simp: recovers_def)
  next
    case (ok u v1)
    note a = append_safe [OF ok(1) s E nx forge]
    have s1: "safe E v1 ?e m m0" using a(3) by simp
    note rf = safe_refence [OF ok(2) s1]
    show ?thesis using rf a(1) safe_recovers [OF rf(1)] nx by (auto simp: next_ok_def)
  qed
  then show "torn (st_mirror v') \<subseteq> torn (st_mirror v)" "recovers E v' m0" "r = Inr u \<Longrightarrow> \<exists>h'. safe E v' h' m m0 \<and> se_gen h' = Suc (se_gen h)"
    by blast+
qed

lemma safe_live_delta:
  fixes v :: "'z vault_scheme"
  shows "safe E (take_live_delta v) h m m0 = safe E v h m m0" "st_mirror (take_live_delta v) = st_mirror v" "st_tract (take_live_delta v) = st_tract v"
proof -
  let ?v = "take_live_delta v"
  have v: "?v = v\<lparr>h_added := [], h_removed := [], v_live := live_apply (h_added v) (h_removed v) (v_live v)\<rparr>"
    by (simp add: take_live_delta_def take_delta_def)
  show m: "st_mirror ?v = st_mirror v" and t: "st_tract ?v = st_tract v" by (simp_all add: v)
  have "tview ?v = tview v" by (rule ext) (simp add: tview_def m t)
  moreover have "h_root ?v = h_root v" "h_arena ?v = h_arena v" by (simp_all add: v)
  ultimately have i: "index_map E ?v m = index_map E v m"
    by (cases "h_root v") (simp_all add: index_map_def holds_def store_ok_def m t)
  have f: "ring_of ?v = ring_of v" "disk_ring ?v h = disk_ring v h" "v_log2 ?v = v_log2 v" "v_base ?v = v_base v" "v_head ?v = v_head v" "v_root ?v = v_root v"
    "v_pending_reap ?v = v_pending_reap v" by (simp_all add: v ring_of_def disk_ring_def)
  show "safe E ?v h m m0 = safe E v h m m0" by (simp only: safe_def durable_def vault_ok_def m t i f)
qed

lemma flush_safe:
  fixes v :: "'z vault_scheme"
  assumes "hamt_flush E live v = (r, v')" and "safe E v h m m0" and z: "zero_free E"
  shows "safe E v' h m m0" "torn (st_mirror v') \<subseteq> torn (st_mirror v)"
    "r = Inr (hash, lba) \<Longrightarrow> index_map E (from_root (st_mirror v') (st_tract v') hash lba) m \<and> length hash = 32 \<and> lba < U64"
proof -
  have i: "index_map E v m" using assms(2) by (simp add: safe_def vault_ok_def)
  then have ok: "store_ok v" by (auto simp: index_map_def holds_def)
  note f = index_flush [OF i assms(1)]
  show "safe E v' h m m0" by (rule safe_tame [OF tame_flush assms(1,2)]) (use f(1) in blast)
  have "kept v v'" by (rule tameD [OF tame_flush ok assms(1)])
  then show "torn (st_mirror v') \<subseteq> torn (st_mirror v)" by (simp add: kept_def)
  show "r = Inr (hash, lba) \<Longrightarrow> index_map E (from_root (st_mirror v') (st_tract v') hash lba) m \<and> length hash = 32 \<and> lba < U64"
    using f(2,3) f(4) [OF _ z] by blast
qed

text \<open>The ladder writes a heartbeat per fenced try: the head advances by at most the bound.\<close>

lemma flush_ladder_safe:
  fixes v :: "'z vault_scheme"
  assumes E: "vsf_ok E" "zero_free E" and now: "- (2 ^ 63) \<le> now" "now < 2 ^ 63"
  shows "flush_ladder n E now v = (r, v') \<Longrightarrow> safe E v h m m0 \<Longrightarrow> unforged E (st_mirror v) \<Longrightarrow> se_gen h + n < U64 \<Longrightarrow>
    torn (st_mirror v') \<subseteq> torn (st_mirror v) \<and> recovers E v' m0
    \<and> (\<forall>hash lba. r = Inr (hash, lba) \<longrightarrow> (\<exists>h'. safe E v' h' m m0 \<and> se_gen h \<le> se_gen h' \<and> se_gen h' \<le> se_gen h + n)
        \<and> index_map E (from_root (st_mirror v') (st_tract v') hash lba) m \<and> length hash = 32 \<and> lba < U64)"
proof (induction n arbitrary: v h)
  have one: "torn (st_mirror v') \<subseteq> torn (st_mirror v) \<and> recovers E v' m0
      \<and> (\<forall>hash lba. q = Inr (hash, lba) \<longrightarrow> (\<exists>h'. safe E v' h' m m0 \<and> se_gen h \<le> se_gen h' \<and> se_gen h' \<le> se_gen h + n)
        \<and> index_map E (from_root (st_mirror v') (st_tract v') hash lba) m \<and> length hash = 32 \<and> lba < U64)"
    if run: "hamt_flush E (oracle_of v) v = (q, v1)" and v': "v' = (case q of Inl _ \<Rightarrow> v1 | Inr _ \<Rightarrow> take_live_delta v1)" and s: "safe E v h m m0"
    for v v1 :: "'z vault_scheme" and h n q
  proof -
    note f = flush_safe [OF run s E(2)]
    have s': "safe E v' h m m0" using f(1) by (cases q) (simp_all add: v' safe_live_delta)
    have m: "st_mirror v' = st_mirror v1" "st_tract v' = st_tract v1" by (cases q; simp add: v' safe_live_delta)+
    show ?thesis using f(2,3) s' safe_recovers [OF s'] unfolding m by auto
  qed
  case (0 v h)
  obtain q v1 where q: "hamt_flush E (oracle_of v) v = (q, v1)" by (rule prod.exhaust)
  have "v' = (case q of Inl _ \<Rightarrow> v1 | Inr _ \<Rightarrow> take_live_delta v1)" "r = q"
    using 0(1) q by (auto simp: bindE_def modE_def retE_def split: sum.splits)
  then show ?case using one [OF q _ 0(2), where n = 0] by simp
next
  case (Suc n v h)
  obtain q v1 where q: "hamt_flush E (oracle_of v) v = (q, v1)" by (rule prod.exhaust)
  note f = flush_safe [OF q Suc.prems(2) E(2)]
  have forge: "unforged E (st_mirror v1)" by (rule unforged_mono [OF Suc.prems(3) f(2)])
  consider (ok) x where "q = Inr x" "r = Inr x" "v' = take_live_delta v1"
    | (fenced) l where "q = Inl (Fenced l)" "bindE (append_heartbeat E now) (\<lambda>_. flush_ladder n E now) v1 = (r, v')"
    | (err) e where "r = Inl e" "v' = v1"
    using Suc.prems(1) q by (cases q) (auto simp: tryE_def bindE_def modE_def retE_def raiseE_def split: error.splits)
  then show ?case
  proof cases
    case ok
    have s': "safe E v' h m m0" using f(1) ok(3) by (simp add: safe_live_delta)
    have m: "st_mirror v' = st_mirror v1" "st_tract v' = st_tract v1" by (simp_all add: ok(3) safe_live_delta)
    show ?thesis using f(2,3) s' safe_recovers [OF s'] ok(1,2) unfolding m by auto
  next
    case err
    then show ?thesis using f safe_recovers [OF f(1)] by simp
  next
    case fenced
    have g: "Suc (se_gen h) < U64" using Suc.prems(4) by simp
    from fenced(2) show ?thesis
    proof (cases rule: bindE_cases)
      case (err e)
      note hb = heartbeat_safe [OF err(1) f(1) E(1) forge g now]
      show ?thesis using hb(1,2) f(2) err(2) by auto
    next
      case (ok u v2)
      note hb = heartbeat_safe [OF ok(1) f(1) E(1) forge g now]
      obtain h2 where h2: "safe E v2 h2 m m0" "se_gen h2 = Suc (se_gen h)" using hb(3) by blast
      have "unforged E (st_mirror v2)" by (rule unforged_mono [OF forge hb(1)])
      note ih = Suc.IH [OF ok(2) h2(1) this]
      have t: "torn (st_mirror v2) \<subseteq> torn (st_mirror v)" using f(2) hb(1) by (rule order_trans [rotated])
      have "se_gen h2 + n < U64" using h2(2) Suc.prems(4) by simp
      note ih = ih [OF this]
      have step: "\<exists>h'. safe E v' h' m m0 \<and> se_gen h \<le> se_gen h' \<and> se_gen h' \<le> se_gen h + Suc n"
        if "\<exists>h'. safe E v' h' m m0 \<and> se_gen h2 \<le> se_gen h' \<and> se_gen h' \<le> se_gen h2 + n"
        using that h2(2) by (metis add_Suc_right add_Suc_shift Suc_leD)
      show ?thesis using ih t step by blast
    qed
  qed
qed

section \<open>The commit\<close>

lemma commit_safe:
  fixes v :: "'z vault_scheme"
  assumes run: "commit_now E now v = (r, v')" and s: "safe E v h m m0" and E: "vsf_ok E" "zero_free E" and forge: "unforged E (st_mirror v)"
    and g: "se_gen h + FLUSH_TRIES + 1 < U64" and now: "- (2 ^ 63) \<le> now" "now < 2 ^ 63"
  shows "torn (st_mirror v') \<subseteq> torn (st_mirror v) \<and> (recovers E v' m0 \<or> recovers E v' m)
    \<and> (\<forall>u. r = Inr u \<longrightarrow> (\<exists>h'. safe E v' h' m m \<and> se_gen h < se_gen h' \<and> m_pending (st_mirror v') = []))"
  using run unfolding commit_now_def
proof (cases rule: bindE_cases)
  case (err e)
  note f = flush_ladder_safe [OF E now err(1) s forge]
  show ?thesis using f g err(2) by auto
next
  case (ok root v1)
  obtain hash lba where root: "root = (hash, lba)" by (cases root)
  have "se_gen h + FLUSH_TRIES < U64" using g by simp
  note f = flush_ladder_safe [OF E now ok(1) s forge this, unfolded root]
  obtain h1 where s1: "safe E v1 h1 m m0" and h1: "se_gen h \<le> se_gen h1" "se_gen h1 \<le> se_gen h + FLUSH_TRIES" using f by blast
  have rt: "index_map E (from_root (st_mirror v1) (st_tract v1) hash lba) m" "length hash = 32" "lba < U64" using f by blast+
  have forge1: "unforged E (st_mirror v1)" using f by (intro unforged_mono [OF forge]) blast
  have d: "durable E v1 h1 m0" and pr: "v_pending_reap v1 = None" using s1 by (auto simp: safe_def vault_ok_def)
  obtain slot where hd: "v_head v1 = Some (slot, h1)" using s1 by (auto simp: safe_def)
  obtain prev where prev: "spine_body_hash E h1 = Inr prev" using spine_body_hash_eq [OF E(1) durable_head(1) [OF d]] by blast
  let ?e = "next_entry h1 prev v1 hash lba (t_len (st_tract v1)) (t_plow (st_tract v1)) (Some (t_reap (st_tract v1))) now"
  have g1: "Suc (se_gen h1) < U64" using g h1 by simp
  have nx: "next_ok E v1 h1 ?e m" by (rule commit_next [OF s1 E(1) g1 now prev rt])
  have rp: "retire_pending v1 = v1" by (simp add: retire_pending_def pr)
  have "bindE (on_ring (ring_append E ?e)) (\<lambda>_. bindE (refence E) (\<lambda>_. maybe_migrate E now (se_gen ?e))) v1 = (r, v')"
    using ok(2) prev hd unfolding root prod.case bindE_modE rp by (simp add: need_head_def bindE_def liftE_def getE_def ok_or_def)
  then show ?thesis
  proof (cases rule: bindE_cases)
    case (err e)
    note a = append_safe [OF err(1) s1 E(1) nx forge1]
    show ?thesis using a(1,2) f err(2) by (auto simp: recovers_def)
  next
    case (ok u v2)
    note a = append_safe [OF ok(1) s1 E(1) nx forge1]
    have s2: "safe E v2 ?e m m" and p2: "m_pending (st_mirror v2) = []" using a(3) by auto
    have ge: "se_gen h < se_gen ?e" using nx h1 by (simp add: next_ok_def)
    obtain q v3 where q: "refence E v2 = (q, v3)" by (rule prod.exhaust)
    note rf = safe_refence [OF q s2]
    have "v_root v3 = None" using rf(1) by (simp add: safe_def vault_ok_def)
    then have "v' = v3" using ok(2) q by (auto simp: bindE_def maybe_migrate_def split: sum.splits)
    then show ?thesis using rf a(1) f p2 ge safe_recovers [OF rf(1)] by auto
  qed
qed

section \<open>Requests between commits\<close>

text \<open>The vault's reads and the index's writes keep the medium's own map: the contract of a keyed store
  holds with the durable map fixed.\<close>

interpretation vsession: keyed_store "\<lambda>v m. safe E v h m m0" "get E" "vault_hamt_put E" "\<lambda>k. hamt_delete E k UnlinkOnly"
    "\<lambda>k. length k = 32" "\<lambda>v. length v < U64" for E h m0
proof unfold_locales
  have i: "index_map E s m" if "safe E s h m m0" for s m using that by (simp add: safe_def vault_ok_def)
  show "safe E s' h m m0 \<and> (\<forall>x. r = Inr x \<longrightarrow> x = m k)" if s: "safe E s h m m0" and run: "get E k s = (r, s')" for s m k r s'
  proof -
    note g = index_get [OF i [OF s] run [unfolded get_def]]
    show ?thesis using safe_tame [OF tame_lookup run [unfolded get_def] s] g by blast
  qed
  show "case p of Inl e \<Rightarrow> safe E s' h m m0 | Inr u \<Rightarrow> safe E s' h (m(k \<mapsto> v)) m0"
    if s: "safe E s h m m0" and kv: "length k = 32" "length v < U64" and run: "vault_hamt_put E k v s = (p, s')" for s m k v p s'
  proof -
    note g = index_put [OF i [OF s] kv run [unfolded vault_hamt_put_def]]
    show ?thesis using safe_tame [OF tame_put run [unfolded vault_hamt_put_def] s] g by (cases p) auto
  qed
  show "case q of Inl e \<Rightarrow> safe E s' h m m0 | Inr b \<Rightarrow> safe E s' h (m(k := None)) m0 \<and> (b \<longleftrightarrow> m k \<noteq> None)"
    if s: "safe E s h m m0" and run: "hamt_delete E k UnlinkOnly s = (q, s')" for s m k q s'
  proof -
    note g = index_delete [OF i [OF s] run]
    show ?thesis using safe_tame [OF tame_delete run s] g by (cases q) auto
  qed
qed

end
