(* ===== verification/Vault_Open.thy ===== *)
theory Vault_Open
  imports Vault_Model
begin

text \<open>
  Opening a vault (\<open>open_with\<close>, \<open>genesis\<close>, \<open>resume\<close>, the migrating profile, the repairing open of
  \<open>src/vault.rs\<close>). An open consumes a mirror and gives a vault or an error; the second component
  of its result is the mirror as the open leaves it, on the error path too.
\<close>

section \<open>Sequencing\<close>

text \<open>A vault operation run on a freshly built vault.\<close>

definition opened :: "'x result \<times> vault \<Rightarrow> vault result \<times> mirror" where
  "opened = (\<lambda>(r, v). (case r of Inl e \<Rightarrow> Inl e | Inr _ \<Rightarrow> Inr v, st_mirror v))"

definition bindM :: "'a result \<times> mirror \<Rightarrow> ('a \<Rightarrow> mirror \<Rightarrow> vault result \<times> mirror) \<Rightarrow> vault result \<times> mirror" where
  "bindM p f = (case p of (Inl e, m) \<Rightarrow> (Inl e, m) | (Inr x, m) \<Rightarrow> f x m)"

text \<open>\<open>Ring::open_at\<close> as a step of an open.\<close>

definition with_ring :: "vsf_env \<Rightarrow> nat \<Rightarrow> nat \<Rightarrow> mirror \<Rightarrow> (ring \<Rightarrow> vault result \<times> mirror) \<Rightarrow> vault result \<times> mirror" where
  "with_ring E ring_log2 base m f = (case ring_open_at E m ring_log2 base of
     (Inl e, r) \<Rightarrow> (Inl e, r_mirror r) | (Inr ring, _) \<Rightarrow> f ring)"

text \<open>\<open>mirror.devices()\<close> then a read of one raw device, the first present.\<close>

definition on_raw :: "(filedev, 'x) op \<Rightarrow> (mirror, 'x) op" where
  "on_raw f = (\<lambda>m. on_first f (mirror_devices m))"

definition open_root :: "vsf_env \<Rightarrow> (mirror, RootEntry option) op" where
  "open_root E = (\<lambda>m. if m_a m = None \<and> m_b m = None then (Inr None, mirror_devices m) else on_raw (read_root E) m)"

text \<open>Any sealed block on either device.\<close>

definition any_sealed :: "vsf_env \<Rightarrow> (mirror, bool) op" where
  "any_sealed E = (\<lambda>m0. let m = mirror_devices m0 in
     bindE (\<lambda>m. if m_a m \<noteq> None then on_a (any_sealed_block E) m else (Inr False, m)) (\<lambda>fa.
     bindE (\<lambda>m. if m_b m \<noteq> None then on_b (any_sealed_block E) m else (Inr False, m)) (\<lambda>fb.
     retE (fa \<or> fb))) m)"

section \<open>Building a vault\<close>

definition new_vault :: "ring \<Rightarrow> tract \<Rightarrow> RootEntry option \<Rightarrow> DeletePolicy \<Rightarrow> vault" where
  "new_vault ring t root policy = \<lparr>st_mirror = r_mirror ring, st_tract = t, h_root = None, h_arena = [], h_added = [], h_removed = [], h_hits = 0,
     v_log2 = r_log2 ring, v_base = r_base ring, v_head = r_head ring, v_live = live_empty, v_root = root, v_policy = policy,
     v_pending_reap = None, v_settling = None\<rparr>"

definition genesis_entry :: "nat \<Rightarrow> nat \<Rightarrow> int \<Rightarrow> SpineEntry" where
  "genesis_entry ring_log2 tract_blocks now = \<lparr>se_gen = 0, se_prev_hash = replicate 32 0, se_ring_log2 = ring_log2,
     se_tract_blocks = tract_blocks, se_hamt_hash = replicate 32 0, se_hamt_lba = 0, se_plow = 0, se_reap = Some 0,
     se_live = 0, se_eagle_time = now\<rparr>"

definition genesis_tract :: "nat \<Rightarrow> nat \<Rightarrow> tract" where
  "genesis_tract base len = \<lparr>t_base = base, t_len = len, t_plow = 0, t_reap = 0, t_fence_limit = None\<rparr>"

text \<open>The spine's first entry on an opened ring, and the vault over it.\<close>

definition first_entry :: "vsf_env \<Rightarrow> nat \<Rightarrow> nat \<Rightarrow> nat \<Rightarrow> int \<Rightarrow> RootEntry option \<Rightarrow> DeletePolicy \<Rightarrow> ring \<Rightarrow> vault result \<times> mirror" where
  "first_entry E ring_log2 base tract_blocks now root policy ring =
     (case ring_append E (genesis_entry ring_log2 tract_blocks now) ring of
       (Inl e, r) \<Rightarrow> (Inl e, r_mirror r)
     | (Inr _, r) \<Rightarrow> (Inr (new_vault r (genesis_tract base tract_blocks) root policy), r_mirror r))"

definition genesis :: "vsf_env \<Rightarrow> mirror \<Rightarrow> nat \<Rightarrow> int \<Rightarrow> DeletePolicy \<Rightarrow> vault result \<times> mirror" where
  "genesis E m ring_log2 now policy =
     (let n = 2 ^ ring_log2; total = mirror_block_count m in
      if total \<le> n then (Inl (Corrupt ''device too small''), m)
      else bindM (zero_ring_at ring_log2 0 m) (\<lambda>_ m.
        with_ring E ring_log2 0 m (first_entry E ring_log2 n (total - n) now None policy)))"

section \<open>Resuming\<close>

definition resume_unsettled :: "ring \<Rightarrow> nat \<Rightarrow> RootEntry option \<Rightarrow> DeletePolicy \<Rightarrow> vault result \<times> mirror" where
  "resume_unsettled ring tract_base root policy = (case r_head ring of
     None \<Rightarrow> (Inl (Corrupt ''bootstrap found entries but head search found none''), r_mirror ring)
   | Some (_, head) \<Rightarrow>
       (case checked_add tract_base (se_tract_blocks head) of
         None \<Rightarrow> (Inl (Corrupt ''committed geometry overflows the device address''), r_mirror ring)
       | Some need \<Rightarrow>
           if mirror_block_count (r_mirror ring) < need then (Inl (Corrupt ''device truncated''), r_mirror ring)
           else
             (let t = \<lparr>t_base = tract_base, t_len = se_tract_blocks head, t_plow = se_plow head, t_reap = 0, t_fence_limit = None\<rparr>;
                  v = load_root (se_hamt_hash head) (se_hamt_lba head) (new_vault ring t root policy)
              in (Inr (v\<lparr>v_settling := Some \<lparr>sg_todo = walk_start v, sg_visited = visited_new (t_len t),
                    sg_live_blocks = [], sg_referenced = [], sg_stale = []\<rparr>\<rparr>), r_mirror ring))))"

definition resume_common :: "vsf_env \<Rightarrow> (owners \<Rightarrow> owners) \<Rightarrow> nat \<Rightarrow> RootEntry option \<Rightarrow> DeletePolicy \<Rightarrow> ring \<Rightarrow> vault result \<times> mirror" where
  "resume_common E ho tract_base root policy ring =
     bindM (resume_unsettled ring tract_base root policy) (\<lambda>v _. opened (settle E ho v))"

definition resume :: "vsf_env \<Rightarrow> (owners \<Rightarrow> owners) \<Rightarrow> mirror \<Rightarrow> nat \<Rightarrow> DeletePolicy \<Rightarrow> vault result \<times> mirror" where
  "resume E ho m ring_log2 policy = with_ring E ring_log2 0 m (resume_common E ho (2 ^ ring_log2) None policy)"

definition band_end :: "RootEntry \<Rightarrow> nat" where
  "band_end root = wadd ROOT_SLOTS (wmul (re_residences root) (2 ^ re_ring_log2 root))"

text \<open>The spine at the root's residence, or at the previous one when that is empty.\<close>

definition with_residence :: "vsf_env \<Rightarrow> RootEntry \<Rightarrow> mirror \<Rightarrow> (ring \<Rightarrow> vault result \<times> mirror) \<Rightarrow> vault result \<times> mirror" where
  "with_residence E root m f = with_ring E (re_ring_log2 root) (re_at root) m (\<lambda>ring.
     if r_head ring = None \<and> re_was root \<noteq> re_at root
     then with_ring E (re_ring_log2 root) (re_was root) (r_mirror ring) f else f ring)"

definition resume_migrating :: "vsf_env \<Rightarrow> (owners \<Rightarrow> owners) \<Rightarrow> mirror \<Rightarrow> RootEntry \<Rightarrow> DeletePolicy \<Rightarrow> vault result \<times> mirror" where
  "resume_migrating E ho m root policy = with_residence E root m (resume_common E ho (band_end root) (Some root) policy)"

section \<open>The open ladder\<close>

definition open_with :: "vsf_env \<Rightarrow> (owners \<Rightarrow> owners) \<Rightarrow> mirror \<Rightarrow> nat \<Rightarrow> int \<Rightarrow> DeletePolicy \<Rightarrow> bool \<Rightarrow> vault result \<times> mirror" where
  "open_with E ho m0 ring_log2 now policy lazy =
     bindM (open_root E m0) (\<lambda>root m. case root of
       Some root \<Rightarrow> resume_migrating E ho m root policy
     | None \<Rightarrow>
         bindM (bootstrap_n E m) (\<lambda>found m. case found of
           Some r \<Rightarrow>
             if lazy then with_ring E r 0 m (\<lambda>ring. resume_unsettled ring (2 ^ r) None policy)
             else resume E ho m r policy
         | None \<Rightarrow>
             bindM (any_sealed E m) (\<lambda>sealed m.
               if sealed then (Inl (Corrupt ''sealed blocks exist but no spine bootstraps: refusing to format''), m)
               else genesis E m ring_log2 now policy)))"

definition vault_open :: "vsf_env \<Rightarrow> (owners \<Rightarrow> owners) \<Rightarrow> mirror \<Rightarrow> nat \<Rightarrow> int \<Rightarrow> DeletePolicy \<Rightarrow> vault result \<times> mirror" where
  "vault_open E ho m ring_log2 now policy = open_with E ho m ring_log2 now policy False"

definition open_lazy :: "vsf_env \<Rightarrow> (owners \<Rightarrow> owners) \<Rightarrow> mirror \<Rightarrow> nat \<Rightarrow> int \<Rightarrow> DeletePolicy \<Rightarrow> vault result \<times> mirror" where
  "open_lazy E ho m ring_log2 now policy = open_with E ho m ring_log2 now policy True"

definition genesis_migrating :: "vsf_env \<Rightarrow> mirror \<Rightarrow> nat \<Rightarrow> nat \<Rightarrow> nat \<Rightarrow> int \<Rightarrow> DeletePolicy \<Rightarrow> vault result \<times> mirror" where
  "genesis_migrating E m ring_log2 residences residency now policy =
     (let n = 2 ^ ring_log2; tract_base = wadd ROOT_SLOTS (wmul residences n); total = mirror_block_count m in
      if total \<le> tract_base then (Inl (Corrupt ''device too small''), m)
      else
        (let root = \<lparr>re_gen = 0, re_prev_hash = replicate 32 0, re_ring_log2 = ring_log2, re_at = ROOT_SLOTS, re_was = ROOT_SLOTS,
                     re_since = 0, re_residences = residences, re_residency = residency, re_eagle_time = now\<rparr> in
         bindM (bindE (forE [0 ..< ROOT_SLOTS] (\<lambda>slot. write_verified slot ZERO_BLOCK)) (\<lambda>_.
                bindE (zero_ring_at ring_log2 ROOT_SLOTS) (\<lambda>_. append_root E root)) m) (\<lambda>_ m.
         with_ring E ring_log2 ROOT_SLOTS m (first_entry E ring_log2 tract_base (total - tract_base) now (Some root) policy))))"

definition open_migrating :: "vsf_env \<Rightarrow> (owners \<Rightarrow> owners) \<Rightarrow> mirror \<Rightarrow> nat \<Rightarrow> nat \<Rightarrow> nat \<Rightarrow> int \<Rightarrow> DeletePolicy \<Rightarrow> vault result \<times> mirror" where
  "open_migrating E ho m0 ring_log2 residences residency now policy =
     bindM (open_root E m0) (\<lambda>root m. case root of
       Some root \<Rightarrow> resume_migrating E ho m root policy
     | None \<Rightarrow>
         bindM (bootstrap_n E m) (\<lambda>found m.
           if found \<noteq> None then (Inl (Corrupt ''legacy fixed-ring vault: cannot adopt the migrating layout in place''), m)
           else bindM (any_sealed E m) (\<lambda>sealed m.
             if sealed then (Inl (Corrupt ''sealed blocks exist but nothing bootstraps: refusing to format''), m)
             else if residences < 2 \<or> residency = 0
             then (Inl (Corrupt ''migrating layout needs two residences and residency one''), m)
             else genesis_migrating E m ring_log2 residences residency now policy)))"

section \<open>The repairing open\<close>

text \<open>The repair walk over the index of an unsettled vault.\<close>

definition repair_walk :: "vsf_env \<Rightarrow> (vault, walk) op" where
  "repair_walk E = (\<lambda>v. case walk_live_repair E (walk_begin [] v) of
     (Inl e, w) \<Rightarrow> (Inl e, v\<lparr>st_mirror := st_mirror w\<rparr>) | (Inr _, w) \<Rightarrow> (Inr w, v\<lparr>st_mirror := st_mirror w\<rparr>))"

definition repair_resume :: "vsf_env \<Rightarrow> (owners \<Rightarrow> owners) \<Rightarrow> int \<Rightarrow> (vault, RepairReport) op" where
  "repair_resume E ho now =
     bindE (modE (v_settling_update (\<lambda>_. None))) (\<lambda>_.
     bindE (repair_walk E) (\<lambda>w.
     bindE (finish_open E ho (w_out w) [] (w_stale w) (w_dangling w)) (\<lambda>_.
     bindE (commit_now E now) (\<lambda>_.
     retE \<lparr>rr_stale = w_stale w, rr_dangling = w_dangling w\<rparr>))))"

definition repairing :: "vsf_env \<Rightarrow> (owners \<Rightarrow> owners) \<Rightarrow> nat \<Rightarrow> RootEntry option \<Rightarrow> DeletePolicy \<Rightarrow> int \<Rightarrow> ring \<Rightarrow>
    (vault \<times> RepairReport) result \<times> mirror" where
  "repairing E ho tract_base root policy now ring = (case resume_unsettled ring tract_base root policy of
     (Inl e, m) \<Rightarrow> (Inl e, m)
   | (Inr v, _) \<Rightarrow> (case repair_resume E ho now v of
       (Inl e, v') \<Rightarrow> (Inl e, st_mirror v')
     | (Inr rep, v') \<Rightarrow> (Inr (v', rep), st_mirror v')))"

definition open_repairing :: "vsf_env \<Rightarrow> (owners \<Rightarrow> owners) \<Rightarrow> mirror \<Rightarrow> int \<Rightarrow> DeletePolicy \<Rightarrow> (vault \<times> RepairReport) result \<times> mirror" where
  "open_repairing E ho m0 now policy = (case open_root E m0 of
     (Inl e, m) \<Rightarrow> (Inl e, m)
   | (Inr (Some root), m) \<Rightarrow>
       (case ring_open_at E m (re_ring_log2 root) (re_at root) of
         (Inl e, r) \<Rightarrow> (Inl e, r_mirror r)
       | (Inr ring, _) \<Rightarrow>
           if r_head ring = None \<and> re_was root \<noteq> re_at root
           then (case ring_open_at E (r_mirror ring) (re_ring_log2 root) (re_was root) of
               (Inl e, r) \<Rightarrow> (Inl e, r_mirror r)
             | (Inr ring, _) \<Rightarrow> repairing E ho (band_end root) (Some root) policy now ring)
           else repairing E ho (band_end root) (Some root) policy now ring)
   | (Inr None, m) \<Rightarrow>
       (case bootstrap_n E m of
         (Inl e, m) \<Rightarrow> (Inl e, m)
       | (Inr None, m) \<Rightarrow> (Inl (Corrupt ''nothing bootstraps: not a vault (repair needs an existing spine)''), m)
       | (Inr (Some r), m) \<Rightarrow>
           (case ring_open_at E m r 0 of
             (Inl e, rg) \<Rightarrow> (Inl e, r_mirror rg)
           | (Inr ring, _) \<Rightarrow> repairing E ho (2 ^ r) None policy now ring)))"

section \<open>Introspection\<close>

record VaultStats =
  vs_generation :: nat
  vs_tract_blocks :: nat
  vs_plow :: nat
  vs_reap :: nat
  vs_live_entries :: nat
  vs_live_blocks :: nat
  vs_block_bytes :: nat

definition engine_stats :: "'z vault_scheme \<Rightarrow> VaultStats" where
  "engine_stats v = \<lparr>vs_generation = (case v_head v of Some (_, h) \<Rightarrow> se_gen h | None \<Rightarrow> 0),
     vs_tract_blocks = t_len (st_tract v), vs_plow = t_plow (st_tract v), vs_reap = t_reap (st_tract v),
     vs_live_entries = live_len (v_live v), vs_live_blocks = live_len (v_live v), vs_block_bytes = BLOCK\<rparr>"

definition generation :: "'z vault_scheme \<Rightarrow> nat option" where
  "generation v = map_option (\<lambda>(_, h). se_gen h) (v_head v)"

text \<open>The live map against the index: positions held live but not reachable, and reachable but not live.\<close>

definition live_map_divergence :: "vsf_env \<Rightarrow> (owners \<Rightarrow> owners) \<Rightarrow> ('z vault_scheme, nat list \<times> nat list) op" where
  "live_map_divergence E ho = bindE (settle E ho) (\<lambda>_ v. case walk_live_collect E (walk_begin [] v) of
     (Inl e, w) \<Rightarrow> (Inl e, v\<lparr>st_mirror := st_mirror w\<rparr>)
   | (Inr _, w) \<Rightarrow>
       (let index = fold (\<lambda>(l, h). AList.update l h) (w_out w) []; ls = v_live v;
            unrouted = [l. (l, h) \<leftarrow> ls_map ls, map_of index l \<noteq> Some h] @ [l. l \<leftarrow> ls_referenced ls, map_of index l = None];
            missing = [l. (l, h) \<leftarrow> index, map_of (ls_map ls) l \<noteq> Some h \<and> l \<notin> set (ls_referenced ls)]
        in (Inr (sort unrouted, sort missing), v\<lparr>st_mirror := st_mirror w\<rparr>)))"

end
