(* ===== verification/Recovery.thy ===== *)
theory Recovery
  imports Commit_Props Vault_Open
begin

text \<open>
  Coming back. A lookup reads the tract's base and length and neither of its cursors (\<open>blind\<close>), so
  that the unsettled vault of a lazy open, whose reap cursor is not derived yet, already answers
  reads. On a rebooted medium that is durable the open ladder finds the head, and the vault it
  returns answers every key as the committed map does.
\<close>

named_theorems blind_intros \<open>operations that do not read the cursors\<close>

section \<open>Operations that do not look at the cursors\<close>

definition retract :: "tract \<Rightarrow> 'z store_scheme \<Rightarrow> 'z store_scheme" where
  "retract t s = s\<lparr>st_tract := t\<rparr>"

definition blind :: "('z hst_scheme, 'x) op \<Rightarrow> bool" where
  "blind f \<longleftrightarrow> (\<forall>s r s' t. f s = (r, s') \<longrightarrow> t_base t = t_base (st_tract s) \<longrightarrow> t_len t = t_len (st_tract s) \<longrightarrow>
     f (retract t s) = (r, retract t s') \<and> st_tract s' = st_tract s)"

lemma blindD:
  assumes "blind f" and "f s = (r, s')" and "t_base t = t_base (st_tract s)" and "t_len t = t_len (st_tract s)"
  shows "f (retract t s) = (r, retract t s')" and "st_tract s' = st_tract s"
  using assms unfolding blind_def by blast+

lemma blind_pure [blind_intros]: "blind (retE x)" "blind (raiseE e)" "blind (liftE r)"
  by (auto simp: blind_def retE_def raiseE_def liftE_def)

lemma blind_bind [blind_intros]:
  assumes m: "blind m" and f: "\<And>x. blind (f x)"
  shows "blind (bindE m f)"
  unfolding blind_def
proof (intro allI impI)
  fix s r s' and t :: tract assume run: "bindE m f s = (r, s')" and t: "t_base t = t_base (st_tract s)" "t_len t = t_len (st_tract s)"
  from run show "bindE m f (retract t s) = (r, retract t s') \<and> st_tract s' = st_tract s"
  proof (cases rule: bindE_cases)
    case (err e)
    then show ?thesis using blindD [OF m err(1) t] by (simp add: bindE_def)
  next
    case (ok x s1)
    note a = blindD [OF m ok(1) t]
    note b = blindD [OF f ok(2), of t]
    show ?thesis using a b t by (simp add: bindE_def)
  qed
qed

lemma blind_map [blind_intros]: "(\<And>x. x \<in> set xs \<Longrightarrow> blind (f x)) \<Longrightarrow> blind (mapE f xs)"
  by (induction xs) (auto intro!: blind_intros)

lemma blind_case [blind_intros]:
  "(\<And>e. r = Inl e \<Longrightarrow> blind (f e)) \<Longrightarrow> (\<And>x. r = Inr x \<Longrightarrow> blind (g x)) \<Longrightarrow> blind (case r of Inl e \<Rightarrow> f e | Inr x \<Rightarrow> g x)"
  "(o1 = None \<Longrightarrow> blind h) \<Longrightarrow> (\<And>y. o1 = Some y \<Longrightarrow> blind (k y)) \<Longrightarrow> blind (case o1 of None \<Rightarrow> h | Some y \<Rightarrow> k y)"
  "(b \<Longrightarrow> blind h) \<Longrightarrow> (\<not> b \<Longrightarrow> blind h') \<Longrightarrow> blind (if b then h else h')"
  "(\<And>x y. p = (x, y) \<Longrightarrow> blind (q x y)) \<Longrightarrow> blind (case p of (x, y) \<Rightarrow> q x y)"
  by (simp_all split: sum.split option.split prod.split)

lemma blind_doc [blind_intros]:
  "(\<And>n. d = DocNode n \<Longrightarrow> blind (f1 n)) \<Longrightarrow> (\<And>k v. d = DocLone k v \<Longrightarrow> blind (f2 k v)) \<Longrightarrow>
   (\<And>k sz r. d = DocExtent k sz r \<Longrightarrow> blind (f3 k sz r)) \<Longrightarrow> (\<And>k sz fs. d = DocDirect k sz fs \<Longrightarrow> blind (f4 k sz fs)) \<Longrightarrow>
   (\<And>k i v. d = DocFurrow k i v \<Longrightarrow> blind (f5 k i v)) \<Longrightarrow>
   blind (case d of DocNode n \<Rightarrow> f1 n | DocLone k v \<Rightarrow> f2 k v | DocExtent k sz r \<Rightarrow> f3 k sz r | DocDirect k sz fs \<Rightarrow> f4 k sz fs | DocFurrow k i v \<Rightarrow> f5 k i v)"
  by (simp split: TractDoc.split)

lemma blind_reads [blind_intros]: "blind (tract_read_cached lba)" "blind (tract_read_run lba n)" "blind (arena_get idx)"
  by (auto simp: blind_def retract_def tract_read_cached_def tract_read_run_def with_mirror_def arena_get_def split: prod.splits if_splits)

lemma blind_expand [blind_intros]: "blind (\<lambda>s. (expand_runs E runs sz (t_len (st_tract s)), s))"
  by (auto simp: blind_def retract_def)

lemma blind_read_doc [blind_intros]: "blind (read_doc E lba h)"
  unfolding blind_def
proof (intro allI impI)
  fix s :: "'a hst_scheme" and r s' and t :: tract
  assume run: "read_doc E lba h s = (r, s')" and t: "t_base t = t_base (st_tract s)" "t_len t = t_len (st_tract s)"
  have "blind (bindE (tract_read_cached lba) (\<lambda>buf. liftE (doc_of E buf h (t_len (st_tract s)))) :: ('a hst_scheme, _) op)"
    by (intro blind_intros)
  from blindD [OF this run [unfolded read_doc_def] t] t(2)
  show "read_doc E lba h (retract t s) = (r, retract t s') \<and> st_tract s' = st_tract s"
    by (simp add: read_doc_def retract_def)
qed

lemma blind_read_furrows [blind_intros]: "blind (read_furrows E key sz fs)"
  unfolding read_furrows_def by (intro blind_intros)

lemma blind_lookup_from [blind_intros]: "blind (lookup_from E key d ch)"
proof (induction E key d ch rule: lookup_from.induct)
  case (1 E key depth idx)
  then show ?case unfolding lookup_from.simps by (intro blind_intros) auto
next
  case (2 E key depth hash lba)
  then show ?case unfolding lookup_from.simps by (intro blind_intros) auto
qed

lemma blind_lookup: "blind (lookup E key)"
  using blindD [OF blind_lookup_from]
  by (auto simp: blind_def lookup_def retract_def split: option.splits)

section \<open>Reading the root slots and the first slots of the ring\<close>

text \<open>Nothing in the root slots is a root entry: the fixed-ring profile.\<close>

definition rootless :: "vsf_env \<Rightarrow> mirror \<Rightarrow> bool" where
  "rootless E m \<longleftrightarrow> (\<forall>slot < ROOT_SLOTS. \<forall>e. root_decode E (rcontent m slot) \<noteq> Inr e)"

text \<open>The first slots hold a spine entry, and none of another geometry.\<close>

definition boots :: "vsf_env \<Rightarrow> mirror \<Rightarrow> nat \<Rightarrow> bool" where
  "boots E m rl \<longleftrightarrow> (\<exists>k < min (2 ^ 4) (mirror_block_count m). \<exists>e. classify E (rcontent m k) k None = Valid e)
     \<and> (\<forall>k < min (2 ^ 4) (mirror_block_count m). \<forall>e. classify E (rcontent m k) k None = Valid e \<longrightarrow> se_ring_log2 e = rl)"

lemma read_root_none:
  assumes "wf_dev d" and "healthy d" and "\<forall>slot \<in> set slots. slot < fd_blocks d \<and> (\<forall>e. root_decode E (dev_content d slot) \<noteq> Inr e)"
  shows "read_root_slots E slots best d = (Inr best, d)"
  using assms(3)
proof (induction slots)
  case Nil
  then show ?case by (simp add: retE_run)
next
  case (Cons slot slots)
  have rd: "dev_read slot d = (Inr (dev_content d slot), d)" by (rule fdev.rd_quiet) (use assms Cons.prems in auto)
  obtain e where "root_decode E (dev_content d slot) = Inl e" using Cons.prems by (cases "root_decode E (dev_content d slot)") auto
  then show ?case using Cons by (simp add: bindE_def rd)
qed

lemma on_first_rebooted:
  assumes "rdev m = Some d" and "f (healed d) = (r, healed d)"
  shows "on_first f (rebooted m) = (r, rebooted m)"
  using assms by (cases "m_a m") (auto simp: on_first_def on_a_def on_b_def rdev_def rebooted_def)

lemma open_root_none:
  assumes wf: "wf_mirror m" and r: "rootless E (rebooted m)"
  shows "open_root E (rebooted m) = (Inr None, rebooted m)"
proof -
  obtain d where d: "rdev m = Some d" using wf by (auto simp: wf_mirror_def)
  have wd: "wf_dev (healed d)" using rdev_wf wf d by simp
  have c: "rcontent m l = dev_content d l" for l using d by (simp add: rcontent_def)
  have rd: "read_root E (healed d) = (Inr None, healed d)"
    unfolding read_root_def by (rule read_root_none [OF wd]) (use r c in \<open>auto simp: rootless_def\<close>)
  have dv: "mirror_devices (rebooted m) = rebooted m" by (simp add: mirror_devices_def rebooted_def)
  have "\<not> (m_a (rebooted m) = None \<and> m_b (rebooted m) = None)" using d by (auto simp: rdev_def split: if_splits)
  then show ?thesis using on_first_rebooted [where f = "read_root E", OF d rd] by (simp add: open_root_def on_raw_def dv)
qed

lemma mirror_read_rebooted:
  assumes wf: "wf_mirror m"
  shows "mirror_read l (rebooted m) = (r, m') \<Longrightarrow> m' = rebooted m"
    and "l < rcount m \<Longrightarrow> mirror_read l (rebooted m) = (Inr (rcontent m l), rebooted m)"
proof -
  obtain d where d: "rdev m = Some d" using wf by (auto simp: wf_mirror_def)
  obtain q where q: "dev_read l (healed d) = (q, healed d)" using dev_read_still [of "healed d" l] by (metis healed_simps(3) prod.exhaust)
  have run: "mirror_read l (rebooted m) = (q, rebooted m)" using on_first_rebooted [where f = "dev_read l", OF d q] by (simp add: mirror_read_def)
  then show "mirror_read l (rebooted m) = (r, m') \<Longrightarrow> m' = rebooted m" by simp
  show "mirror_read l (rebooted m) = (Inr (rcontent m l), rebooted m)" if "l < rcount m"
    using fdev.rd_quiet [of "healed d" l] rdev_wf wf d q that run by (simp add: rcount_def rcontent_def)
qed

lemma block_count_le: "mirror_block_count (rebooted m) \<le> rcount m"
  by (auto simp: mirror_block_count_def rcount_def rdev_def split: option.splits)

lemma bootstrap_finds:
  assumes wf: "wf_mirror m" and b: "boots E (rebooted m) rl"
  shows "bootstrap_n E (rebooted m) = (Inr (Some rl), rebooted m)"
proof -
  let ?c = "\<lambda>k. classify E (rcontent m k) k None"
  have probe: "probe_slots E slots (rebooted m) = (Inr (Some rl), rebooted m)"
    if "\<forall>k \<in> set slots. k < rcount m \<and> (\<forall>e. ?c k = Valid e \<longrightarrow> se_ring_log2 e = rl)" "\<exists>k \<in> set slots. \<exists>e. ?c k = Valid e" for slots
    using that
  proof (induction slots)
    case (Cons k slots)
    have rd: "mirror_read k (rebooted m) = (Inr (rcontent m k), rebooted m)" by (rule mirror_read_rebooted(2) [OF wf]) (use Cons.prems in simp)
    show ?case using Cons by (cases "?c k") (auto simp: bindE_def rd retE_def)
  qed simp
  show ?thesis unfolding bootstrap_n_def
    by (rule probe) (use b block_count_le [of m] in \<open>auto simp: boots_def dest: less_le_trans\<close>)
qed

text \<open>The search on a rebooted medium changes nothing and finds the durable head.\<close>

lemma gen_at_rebooted:
  assumes "wf_mirror m" and "r_mirror r = rebooted m" and "gen_at E k r = (x, r')"
  shows "r' = r"
proof -
  obtain y m' where y: "mirror_read (wadd (r_base r) k) (rebooted m) = (y, m')" by (rule prod.exhaust)
  then have "m' = rebooted m" by (rule mirror_read_rebooted(1) [OF assms(1)])
  then show ?thesis using assms y by (cases r) (auto simp: gen_at_run split: sum.splits)
qed

lemma head_search_rebooted:
  assumes wf: "wf_mirror m" and r: "r_mirror r = rebooted m" and fit: "r_base r + ring_n r \<le> rcount m" "rcount m < U64"
    and lap: "lap_shaped (ring_cls E r) (ring_n r) (se_gen h)" "ring_cls E r (se_gen h mod ring_n r) = Valid h"
  shows "head_search E r = (Inr (Some (se_gen h mod ring_n r, h)), r)"
proof -
  have ok: "ring_ok r" using rebooted_wf [OF wf] r by (simp add: ring_ok_def)
  have "slot_readable r k" if "k < ring_n r" for k
    using that fit r rebooted_quiet [OF wf] by (simp add: slot_readable_def readable_def)
  then obtain x r' where x: "head_search E r = (Inr x, r')" using head_search_total [OF ok] by blast
  have src: "slot_source (gen_at E) (\<lambda>_. ring_cls E r) (\<lambda>s. s = r) (\<lambda>_ _. False)"
  proof
    show "s' = r \<and> ring_cls E r = ring_cls E r" if "s = r" "gen_at E k s = (q, s')" for s k q s'
      using gen_at_rebooted [OF wf r] that by auto
    show "c = ring_cls E r k" if "s = r" "gen_at E k s = (Inr c, s')" for s k c s'
      using rslots.ga_ok [OF ok] that by auto
  qed simp
  have n: "0 < ring_n r" by (simp add: ring_n_def)
  have "r' = r"
    using slot_source.search_newest [OF src, of 0 "ring_n r - 1" r "Inr x" r' "ring_n r" "se_gen h"] x lap(1) n by (simp add: head_search_def)
  moreover have "x = Some (se_gen h mod ring_n r, h)"
    by (rule lap_shaped_head [OF lap]) (use head_search_newest [OF x ok lap(1)] in simp)
  ultimately show ?thesis using x by simp
qed

section \<open>Reopening\<close>

text \<open>A vault of the fixed-ring profile: the ring from block zero on, then the tract.\<close>

definition fixed_profile :: "'z vault_scheme \<Rightarrow> bool" where
  "fixed_profile v \<longleftrightarrow> v_base v = 0 \<and> t_base (st_tract v) = 2 ^ v_log2 v"

lemma load_root_simps [simp]: "st_mirror (load_root hash lba v) = st_mirror v" "st_tract (load_root hash lba v) = st_tract v"
  "h_arena (load_root hash lba v) = []" "h_root (load_root hash lba v) = (if hash = replicate 32 0 then None else Some (Committed hash lba))"
  by (simp_all add: load_root_def)

lemma resume_reads:
  fixes v :: "'z vault_scheme"
  assumes d: "durable E v h m" and wf: "wf_mirror (st_mirror v)" and cap: "se_tract_blocks h * BLOCK < U64"
    and room: "t_base (st_tract v) + se_tract_blocks h \<le> mirror_block_count (rebooted (st_mirror v))"
  shows "\<exists>v2. resume_unsettled (disk_ring v h) (t_base (st_tract v)) root policy = (Inr v2, rebooted (st_mirror v))
    \<and> (\<forall>k. \<exists>v3. get E k v2 = (Inr (m k), v3))"
proof -
  let ?t = "\<lparr>t_base = t_base (st_tract v), t_len = se_tract_blocks h, t_plow = se_plow h, t_reap = 0, t_fence_limit = None\<rparr> :: tract"
  let ?v1 = "load_root (se_hamt_hash h) (se_hamt_lba h) (new_vault (disk_ring v h) ?t root policy)"
  let ?v2 = "?v1\<lparr>v_settling := Some \<lparr>sg_todo = walk_start ?v1, sg_visited = visited_new (t_len ?t), sg_live_blocks = [], sg_referenced = [], sg_stale = []\<rparr>\<rparr>"
  have i: "index_map E (head_index (rebooted (st_mirror v)) (st_tract v) h) m" using d by (simp add: durable_def)
  have tw: "tract_wf (head_tract (st_tract v) h)" using i by (auto simp: index_map_def holds_def store_ok_def)
  then have lt: "t_base (st_tract v) + se_tract_blocks h < U64" by (simp add: tract_wf_def)
  then have run: "resume_unsettled (disk_ring v h) (t_base (st_tract v)) root policy = (Inr ?v2, rebooted (st_mirror v))"
    using room by (simp add: resume_unsettled_def Let_def not_less checked_add_def)
  let ?w = "retract (head_tract (st_tract v) h) ?v2"
  have mir: "st_mirror ?w = rebooted (st_mirror v)" by (simp add: retract_def new_vault_def)
  have iw: "index_map E ?w m"
    by (rule index_map_frame [OF i]) (use rebooted_wf [OF wf] in \<open>auto simp: retract_def new_vault_def tview_def head_index_def from_root_def\<close>)
  then have "store_ok ?w" by (auto simp: index_map_def holds_def)
  moreover have "readable (rebooted (st_mirror v)) (t_base (st_tract v) + p)" if "p < se_tract_blocks h" for p
    using that room block_count_le [of "st_mirror v"] rebooted_quiet [OF wf] by (simp add: readable_def)
  ultimately have q: "quiet_store ?w" using cap mir by (simp add: quiet_store_def) (simp add: retract_def)
  have "\<exists>v3. get E k ?v2 = (Inr (m k), v3)" for k
  proof -
    obtain s' where s': "lookup E k ?w = (Inr (m k), s')" using lookup_returns [OF iw q] by blast
    have "lookup E k (retract ?t ?w) = (Inr (m k), retract ?t s')"
      by (rule blindD(1) [OF blind_lookup s']) (simp_all add: retract_def)
    moreover have "retract ?t ?w = ?v2" by (simp add: retract_def new_vault_def load_root_def)
    ultimately show ?thesis by (simp add: get_def)
  qed
  then show ?thesis using run by blast
qed

text \<open>The ring of a rebooted medium opens at the durable head.\<close>

lemma reopen_ring:
  fixes v :: "'z vault_scheme"
  assumes d: "durable E v h m" and wf: "wf_mirror (st_mirror v)" and p: "fixed_profile v" and fit: "2 ^ v_log2 v \<le> rcount (st_mirror v)"
  shows "ring_open_at E (rebooted (st_mirror v)) (v_log2 v) 0 = (Inr (disk_ring v h), disk_ring v h)"
proof -
  let ?r = "\<lparr>r_mirror = rebooted (st_mirror v), r_log2 = v_log2 v, r_base = 0, r_head = None\<rparr>"
  have n: "ring_n ?r = 2 ^ v_log2 v" by (simp add: ring_n_def)
  have dr: "ring_inv E (disk_ring v h)" using d by (simp add: durable_def)
  have cls: "ring_cls E ?r = ring_cls E (disk_ring v h)" using p by (simp add: ring_cls_def [abs_def] fixed_profile_def)
  have "rcount (st_mirror v) < U64" using wf by (auto simp: wf_mirror_def rcount_def rdev_def wf_dev_def split: option.splits if_splits)
  then have "head_search E ?r = (Inr (Some (se_gen h mod ring_n ?r, h)), ?r)"
    by (intro head_search_rebooted [OF wf]) (use fit dr cls n in \<open>auto simp: ring_inv_def\<close>)
  moreover have "disk_ring v h = ?r\<lparr>r_head := Some (se_gen h mod ring_n ?r, h)\<rparr>" using p n by (simp add: disk_ring_def fixed_profile_def)
  ultimately show ?thesis by (simp add: ring_open_at_def bindE_def modE_def getE_def)
qed

lemma reopen_reads:
  fixes v :: "'z vault_scheme"
  assumes d: "durable E v h m" and wf: "wf_mirror (st_mirror v)" and p: "fixed_profile v" and cap: "se_tract_blocks h * BLOCK < U64"
    and room: "t_base (st_tract v) + se_tract_blocks h \<le> mirror_block_count (rebooted (st_mirror v))"
    and root: "rootless E (rebooted (st_mirror v))" and boot: "boots E (rebooted (st_mirror v)) (v_log2 v)"
  shows "\<exists>v2. open_lazy E ho (rebooted (st_mirror v)) rl now policy = (Inr v2, rebooted (st_mirror v))
    \<and> (\<forall>k. \<exists>v3. get E k v2 = (Inr (m k), v3))"
proof -
  let ?m = "rebooted (st_mirror v)"
  have fit: "2 ^ v_log2 v \<le> rcount (st_mirror v)" using p room block_count_le [of "st_mirror v"] by (simp add: fixed_profile_def)
  have "ring_open_at E ?m (v_log2 v) 0 = (Inr (disk_ring v h), disk_ring v h)" by (rule reopen_ring [OF d wf p fit])
  then have "open_lazy E ho ?m rl now policy = resume_unsettled (disk_ring v h) (2 ^ v_log2 v) None policy"
    by (simp add: open_lazy_def open_with_def bindM_def with_ring_def open_root_none [OF wf root] bootstrap_finds [OF wf boot])
  then show ?thesis using resume_reads [OF d wf cap room] p by (simp add: fixed_profile_def)
qed

end
