(* ===== verification/Hamt_Reach.thy ===== *)
theory Hamt_Reach
  imports Hamt_Walk Hamt_Put
begin

text \<open>
  The tree walk of an open, against the index it walks. The positions behind a pointer are the block
  it names, the furrows of a leaf and the positions behind the children of a node. A walk that ends
  without an error has collected exactly the positions behind the root.
\<close>

section \<open>The positions behind a pointer\<close>

inductive behind :: "vsf_env \<Rightarrow> (nat \<Rightarrow> block) \<Rightarrow> nat \<Rightarrow> hash \<Rightarrow> nat \<Rightarrow> nat \<Rightarrow> bool" for E V L where
  behind_here: "behind E V L h lba lba"
| behind_child: "doc_of E (V lba) h L = Inr (Some (DocNode n)) \<Longrightarrow> Some (Committed h' l') \<in> set (n_children n) \<Longrightarrow>
    behind E V L h' l' p \<Longrightarrow> behind E V L h lba p"
| behind_direct: "doc_of E (V lba) h L = Inr (Some (DocDirect k sz fs)) \<Longrightarrow> p \<in> set fs \<Longrightarrow> behind E V L h lba p"
| behind_extent: "doc_of E (V lba) h L = Inr (Some (DocExtent k sz runs)) \<Longrightarrow> expand_runs E runs sz L = Inr ps \<Longrightarrow> p \<in> set ps \<Longrightarrow>
    behind E V L h lba p"

inductive_cases behindE: "behind E V L h lba p"

lemma behind_none: "doc_of E (V lba) h L = Inr None \<Longrightarrow> behind E V L h lba p \<longleftrightarrow> p = lba"
  by (auto elim: behindE intro: behind_here)

lemma behind_node:
  "doc_of E (V lba) h L = Inr (Some (DocNode n)) \<Longrightarrow>
    behind E V L h lba p \<longleftrightarrow> p = lba \<or> (\<exists>h' l'. Some (Committed h' l') \<in> set (n_children n) \<and> behind E V L h' l' p)"
  by (auto elim: behindE intro: behind.intros)

lemma behind_leaf:
  "doc_of E (V lba) h L = Inr (Some (DocDirect k sz fs)) \<Longrightarrow> behind E V L h lba p \<longleftrightarrow> p = lba \<or> p \<in> set fs"
  "doc_of E (V lba) h L = Inr (Some (DocExtent k sz runs)) \<Longrightarrow> expand_runs E runs sz L = Inr ps \<Longrightarrow> behind E V L h lba p \<longleftrightarrow> p = lba \<or> p \<in> set ps"
  "doc_of E (V lba) h L = Inr (Some (DocLone k v)) \<Longrightarrow> behind E V L h lba p \<longleftrightarrow> p = lba"
  "doc_of E (V lba) h L = Inr (Some (DocFurrow k i v)) \<Longrightarrow> behind E V L h lba p \<longleftrightarrow> p = lba"
  by (auto elim: behindE intro: behind.intros)

text \<open>A committed tree rests on the positions behind its root only.\<close>

lemma leaf_doc_shrink:
  assumes "leaf_doc E V L Oc doc k v" and "doc_of E (V lba) h L = Inr (Some doc)" and "\<And>p. behind E V L h lba p \<Longrightarrow> p \<in> Oc'"
  shows "leaf_doc E V L Oc' doc k v"
  using assms by (cases doc) (auto simp: leaf_doc_def behind_leaf)

lemma repr_shrink:
  assumes "repr E V L Oc A d ch t J" and "ch = Committed h lba" and "\<And>p. behind E V L h lba p \<Longrightarrow> p \<in> Oc'"
  shows "repr E V L Oc' A d ch t J"
  using assms
proof (induction arbitrary: h lba rule: repr.induct)
  case (repr_gone l g d)
  then show ?case by (auto intro!: repr.repr_gone behind_here)
next
  case (repr_leaf l g doc k v d)
  then have "leaf_doc E V L Oc' doc k v" using leaf_doc_shrink [of E V L Oc doc k v lba h] by simp
  then show ?case using repr_leaf by (auto intro!: repr.repr_leaf behind_here)
next
  case (repr_node l g n d ts)
  have e: "g = h" "l = lba" using repr_node.prems(1) by simp_all
  have sub: "(n_children n ! c = None \<and> ts ! c = None)
      \<or> (\<exists>ch t. n_children n ! c = Some ch \<and> ts ! c = Some t \<and> repr E V L Oc' A (Suc d) ch t {})" if c: "c < 32" for c
  proof (cases "n_children n ! c")
    case (Some ch)
    obtain u where u: "ts ! c = Some u" "repr E V L Oc A (Suc d) ch u {}" using repr_node.IH c Some by auto
    obtain h' l' where ch: "ch = Committed h' l'" using u(2) by (cases ch) (auto elim: repr_dirtyE)
    have "Some ch \<in> set (n_children n)" using Some c repr_node.hyps(5) by (metis nth_mem)
    then have "behind E V L h' l' p \<Longrightarrow> p \<in> Oc'" for p
      using repr_node.prems(2) behind_node [of E V lba h L n] repr_node.hyps(2) e ch by blast
    then have "repr E V L Oc' A (Suc d) ch u {}" using repr_node.IH c Some u(1) ch by auto
    then show ?thesis using Some u(1) by blast
  qed (use repr_node.IH c in auto)
  show ?case using repr_node.hyps repr_node.prems(2) [OF behind_here] sub e by (intro repr.repr_node) auto
qed simp

section \<open>Scattered reads\<close>

lemma dev_read_many_spec:
  assumes "dev_read_many ls d = (r, d')"
  shows "(fd_file d' = fd_file d \<and> fd_blocks d' = fd_blocks d \<and> (wf_dev d' \<longleftrightarrow> wf_dev d)) \<and> (\<forall>bs. r = Inr bs \<longrightarrow> bs = map (dev_content d) ls)"
proof -
  let ?P = "\<lambda>e. fd_file e = fd_file d \<and> fd_blocks e = fd_blocks d \<and> (wf_dev e \<longleftrightarrow> wf_dev d)"
  have keep: "?P e'" if "?P e" "f x e = (q, e')" "f = dev_read \<or> f = read_block_at" for f x e q e'
    using that dev_read_inv [of x e q e'] read_block_at_inv [of x e q e'] by auto
  have val: "b = dev_content d x" if "?P e" "f x e = (Inr b, e')" "f = dev_read \<or> f = read_block_at" for f x e b e'
    using that dev_read_ok [of x e b e'] read_block_at_ok [of x e b e'] by (auto simp: dev_content_def)
  have bd: "e' = e" if "forE ls dev_bounds e = (q, e')" for e q e'
    by (rule forE_invariant [where P = "\<lambda>x. x = e", OF that]) (auto simp: dev_bounds_def split: if_splits)
  from assms show ?thesis unfolding dev_read_many_def
  proof (cases rule: bindE_cases)
    case (err e)
    then show ?thesis using bd by auto
  next
    case (ok u d1)
    obtain f where f: "mapE f ls d = (r, d')" "f = dev_read \<or> f = read_block_at" using ok bd by (auto split: if_splits)
    have p: "?P d" by simp
    have k: "?P e'" if "?P e" "f x e = (q, e')" for x e q e' by (rule keep [OF that f(2)])
    have v: "b = dev_content d x" if "?P e" "f x e = (Inr b, e')" for x e b e' by (rule val [OF that f(2)])
    have "?P d'" by (rule mapE_invariant [where P = ?P, OF f(1) p]) (rule k)
    moreover have "bs = map (dev_content d) ls" if "r = Inr bs" for bs
      by (rule mapE_ok [where P = ?P, OF f(1) [unfolded that] p]) (rule k, assumption+, rule v)
    ultimately show ?thesis by blast
  qed
qed

lemma mirror_read_many_spec:
  assumes run: "mirror_read_many ls m = (r, m')" and wf: "wf_mirror m"
  shows "wf_mirror m' \<and> view m' = view m \<and> (\<forall>bs. r = Inr bs \<longrightarrow> bs = map (view m) ls)"
proof (cases "m_pending m = []")
  case False
  then have "mapE mirror_read ls m = (r, m')" using run by (simp add: mirror_read_many_def)
  then show ?thesis using mread.rd_many_keeps [OF _ wf] mread.rd_many_ok [OF _ wf] by blast
next
  case True
  then have on: "on_first (dev_read_many ls) m = (r, m')" using run by (simp add: mirror_read_many_def)
  obtain d where d: "rdev m = Some d" using wf by (auto simp: wf_mirror_def)
  obtain d' where d': "dev_read_many ls d = (r, d')" using on_first_fields [OF on d] by blast
  have "view m = dev_content d" using no_pending_view [OF True] d by (simp add: fun_eq_iff rcontent_def)
  moreover have "wf_mirror m' \<and> view m' = view m"
    using on_first_keeps [OF on wf] dev_read_many_spec by (metis (no_types, lifting) dev_content_def ext)
  ultimately show ?thesis using dev_read_many_spec [OF d'] by simp
qed

lemma tract_read_many_spec:
  assumes "tract_read_many ls s = (r, s')" and wf: "wf_mirror (st_mirror s)" and fit: "t_base (st_tract s) + t_len (st_tract s) < U64"
  shows "after_reads s s' \<and> (\<forall>bs. r = Inr bs \<longrightarrow> bs = map (tview s) ls \<and> (\<forall>l \<in> set ls. l < t_len (st_tract s)))
    \<and> (s' = s \<or> (\<exists>dev. with_mirror (mirror_read_many dev) s = (r, s')))"
proof -
  from assms(1) show ?thesis unfolding tract_read_many_def
  proof (cases rule: bindE_cases)
    case (err e)
    have "s' = s" by (rule mapE_invariant [where P = "\<lambda>x. x = s", OF err(1)]) (auto split: if_splits)
    then show ?thesis using err(2) wf by (simp add: after_reads_def)
  next
    case (ok dev s1)
    have s1: "s1 = s" by (rule mapE_invariant [where P = "\<lambda>x. x = s", OF ok(1)]) (auto split: if_splits)
    have dev: "dev = map (\<lambda>l. t_base (st_tract s) + l) ls \<and> (\<forall>l \<in> set ls. l < t_len (st_tract s))"
      using ok(1) unfolding s1
    proof (induction ls arbitrary: dev)
      case (Cons l ls)
      then show ?case using wadd_eq [of "t_base (st_tract s)" l] fit
        by (auto simp: bindE_def retE_def split: if_splits prod.splits sum.splits)
    qed (simp add: run_simps)
    have run: "with_mirror (mirror_read_many dev) s = (r, s')" using ok(2) s1 by simp
    note sp = mirror_read_many_spec [OF _ wf]
    have "bs = map (tview s) ls" if "r = Inr bs" for bs
      using with_mirror_reads [OF run] sp that dev by (fastforce simp: tview_def)
    then show ?thesis using with_mirror_reads [OF run] sp dev run by blast
  qed
qed

section \<open>One block of the walk\<close>

definition found :: "'z walk_scheme \<Rightarrow> nat set" where
  "found s = fst ` set (w_out s) \<union> set (w_referenced s) \<union> sp_lba ` set (w_stale s)"

definition item_marks :: "vsf_env \<Rightarrow> (nat \<Rightarrow> block) \<Rightarrow> nat \<Rightarrow> walk_item list \<Rightarrow> nat set" where
  "item_marks E V L items = {p. \<exists>(lba, h, route, depth) \<in> set items. behind E V L h lba p}"

text \<open>What the walk has found, and what lies behind the pointers it still has to follow.\<close>

definition reached :: "vsf_env \<Rightarrow> (nat \<Rightarrow> block) \<Rightarrow> nat \<Rightarrow> 'z walk_scheme \<Rightarrow> nat set" where
  "reached E V L s = found s \<union> item_marks E V L (w_todo s)"

lemma item_marks_simps [simp]: "item_marks E V L [] = {}" "item_marks E V L (xs @ ys) = item_marks E V L xs \<union> item_marks E V L ys"
  "item_marks E V L ((lba, h, route, depth) # xs) = {p. behind E V L h lba p} \<union> item_marks E V L xs"
  by (auto simp: item_marks_def)

lemma committed_children_iff: "(\<exists>slot. (slot, h, l) \<in> set (committed_children n)) \<longleftrightarrow> Some (Committed h l) \<in> set (n_children n)"
proof
  assume "Some (Committed h l) \<in> set (n_children n)"
  then obtain i where "i < length (n_children n)" "n_children n ! i = Some (Committed h l)" by (auto simp: in_set_conv_nth)
  then show "\<exists>slot. (slot, h, l) \<in> set (committed_children n)"
    by (auto simp: committed_children_def in_set_enumerate_eq intro!: exI [where x = i] bexI [where x = "(i, Some (Committed h l))"])
next
  assume "\<exists>slot. (slot, h, l) \<in> set (committed_children n)"
  then obtain i where "i < length (n_children n)" "n_children n ! i = Some (Committed h l)"
    by (auto simp: committed_children_def in_set_enumerate_eq split: option.splits child.splits)
  then show "Some (Committed h l) \<in> set (n_children n)" by (metis nth_mem)
qed

lemma children_marks:
  "item_marks E V L (map (\<lambda>(slot, h, l). (l, h, f slot, d)) (committed_children n)) = {p. \<exists>h l. Some (Committed h l) \<in> set (n_children n) \<and> behind E V L h l p}"
  unfolding committed_children_iff [symmetric] by (force simp: item_marks_def)

lemma mark_run: "mark lba s = (Inr u, s') \<Longrightarrow> \<exists>bits. s' = s\<lparr>w_visited := bits\<rparr>"
  by (auto simp: mark_def split: sum.splits)

lemma reference_run:
  "reference ps s = (Inr u, s') \<Longrightarrow> \<exists>bits. s' = s\<lparr>w_visited := bits, w_referenced := w_referenced s @ ps\<rparr>"
proof (induction ps arbitrary: s)
  case Nil
  then show ?case by (auto simp: reference_def run_simps intro!: exI [where x = "w_visited s"])
next
  case (Cons p ps)
  obtain s1 where s1: "mark p s = (Inr (), s1)" "reference ps (w_referenced_update (\<lambda>rs. rs @ [p]) s1) = (Inr u, s')"
    using Cons.prems by (auto simp: reference_def run_simps elim!: bindE_InrE)
  then show ?case using mark_run [OF s1(1)] Cons.IH [OF s1(2)] by auto
qed

lemma found_update [simp]: "found (s\<lparr>w_visited := b\<rparr>) = found s" "found (w_todo_update f s) = found s"
  "found (s\<lparr>st_mirror := m\<rparr>) = found s" "found (s\<lparr>w_referenced := w_referenced s @ ps\<rparr>) = found s \<union> set ps"
  "found (w_out_update (\<lambda>out. out @ ps') s) = fst ` set ps' \<union> found s" "found (w_stale_update (\<lambda>qs. qs @ [p]) s) = insert (sp_lba p) (found s)"
  by (auto simp: found_def)

text \<open>A block of the walk is a zeroed target, a node whose children are still to be followed, or a leaf
  with the furrows \<open>ps\<close>.\<close>

definition item_of :: "hash \<Rightarrow> nat \<Rightarrow> node \<Rightarrow> walk_item list" where
  "item_of route depth node = map (\<lambda>(slot, h, l). (l, h, route_with_chunk route depth slot, depth + 1)) (committed_children node)"

lemma walk_block_step:
  assumes run: "walk_block E ((lba, h, route, depth), V lba) s = (Inr u, s')"
  obtains (gone) bits where "doc_of E (V lba) h (t_len (st_tract s)) = Inr None"
      "s' = w_stale_update (\<lambda>qs. qs @ [\<lparr>sp_route = route, sp_hash = h, sp_lba = lba\<rparr>]) (s\<lparr>w_visited := bits\<rparr>)"
    | (node) bits n where "doc_of E (V lba) h (t_len (st_tract s)) = Inr (Some (DocNode n))"
      "s' = w_todo_update (\<lambda>todo. todo @ item_of route depth n) (w_out_update (\<lambda>out. out @ [(lba, h)]) (s\<lparr>w_visited := bits\<rparr>))"
    | (leaf) bits doc ps where "doc_of E (V lba) h (t_len (st_tract s)) = Inr (Some doc)" "\<And>n. doc \<noteq> DocNode n"
      "\<And>p. behind E V (t_len (st_tract s)) h lba p \<longleftrightarrow> p = lba \<or> p \<in> set ps"
      "s' = w_referenced_update (\<lambda>rs. rs @ ps) (w_out_update (\<lambda>out. out @ [(lba, h)]) (s\<lparr>w_visited := bits\<rparr>))"
proof -
  let ?K = "\<lambda>doc. case doc of
         DocNode node \<Rightarrow>
           bindE (liftE (node_at_depth node depth)) (\<lambda>_.
           modE (w_todo_update (\<lambda>todo. todo @ map (\<lambda>(slot, h, l).
             (l, h, route_with_chunk route depth slot, depth + 1)) (committed_children node))))
       | DocDirect _ _ furrows \<Rightarrow> reference furrows
       | DocExtent _ sz runs \<Rightarrow>
           bindE (\<lambda>s. (expand_runs E runs sz (t_len (st_tract s)), s)) reference
       | _ \<Rightarrow> retE ()"
  have "bindE (mark lba) (\<lambda>_. bindE (\<lambda>s. (doc_of E (V lba) h (t_len (st_tract s)), s)) (\<lambda>d. case d of
       None \<Rightarrow> push_stale route h lba | Some doc \<Rightarrow> bindE (push_out [(lba, h)]) (\<lambda>_. ?K doc))) s = (Inr u, s')"
    using run by (simp only: walk_block_def prod.case)
  then obtain x s1 where s1: "mark lba s = (Inr x, s1)"
    and "bindE (\<lambda>s. (doc_of E (V lba) h (t_len (st_tract s)), s)) (\<lambda>d. case d of
       None \<Rightarrow> push_stale route h lba | Some doc \<Rightarrow> bindE (push_out [(lba, h)]) (\<lambda>_. ?K doc)) s1 = (Inr u, s')"
    by (rule bindE_InrE)
  from this(2) obtain d where "doc_of E (V lba) h (t_len (st_tract s1)) = Inr d"
    and rest: "(case d of None \<Rightarrow> push_stale route h lba | Some doc \<Rightarrow> bindE (push_out [(lba, h)]) (\<lambda>_. ?K doc)) s1 = (Inr u, s')"
    by (rule bindE_InrE) (erule Pair_inject, hypsubst, blast)
  obtain bits where bits: "s1 = s\<lparr>w_visited := bits\<rparr>" using mark_run [OF s1] by blast
  have d: "doc_of E (V lba) h (t_len (st_tract s)) = Inr d" using \<open>doc_of E (V lba) h (t_len (st_tract s1)) = Inr d\<close> bits by simp
  show thesis
  proof (cases d)
    case None
    then show thesis using d rest bits by (intro gone [of bits]) (simp_all add: push_stale_def run_simps)
  next
    case (Some doc)
    note d = d [unfolded Some]
    let ?s = "w_out_update (\<lambda>out. out @ [(lba, h)]) s1"
    have rest: "?K doc ?s = (Inr u, s')" using rest Some by (simp add: push_out_def bindE_ok [OF modE_run])
    note marks = behind_leaf [where V = V and lba = lba]
    have refs: thesis if ps: "reference ps ?s = (Inr u, s')" and doc: "\<And>n. doc \<noteq> DocNode n"
      and mk: "\<And>p. behind E V (t_len (st_tract s)) h lba p \<longleftrightarrow> p = lba \<or> p \<in> set ps" for ps
    proof -
      obtain b2 where "s' = ?s\<lparr>w_visited := b2, w_referenced := w_referenced ?s @ ps\<rparr>" using reference_run [OF ps] by blast
      then show thesis using bits by (intro leaf [OF d doc mk, of b2]) simp_all
    qed
    show thesis
    proof (cases doc)
      case (DocNode n)
      then have "s' = w_todo_update (\<lambda>todo. todo @ item_of route depth n) ?s"
        using rest by (auto simp: item_of_def run_simps elim!: bindE_InrE)
      then show thesis using bits d DocNode node by blast
    next
      case (DocDirect k sz fs)
      then show thesis using rest marks(1) [OF d [unfolded DocDirect]] by (intro refs [of fs]) auto
    next
      case (DocExtent k sz runs)
      then have "bindE (\<lambda>s. (expand_runs E runs sz (t_len (st_tract s)), s)) reference ?s = (Inr u, s')" using rest by simp
      then obtain ps t where "(expand_runs E runs sz (t_len (st_tract ?s)), ?s) = (Inr ps, t)" "reference ps t = (Inr u, s')" by (rule bindE_InrE)
      then have "expand_runs E runs sz (t_len (st_tract s)) = Inr ps" "reference ps ?s = (Inr u, s')" using bits by auto
      then show thesis using DocExtent marks(2) [OF d [unfolded DocExtent]] by (intro refs [of ps]) auto
    next
      case (DocLone k v)
      then show thesis using rest marks(3) [OF d [unfolded DocLone]] by (intro refs [of "[]"]) (auto simp: reference_def run_simps)
    next
      case (DocFurrow k i v)
      then show thesis using rest marks(4) [OF d [unfolded DocFurrow]] by (intro refs [of "[]"]) (auto simp: reference_def run_simps)
    qed
  qed
qed

lemma walk_block_spec:
  assumes run: "walk_block E ((lba, h, route, depth), V lba) s = (Inr u, s')" and L: "t_len (st_tract s) = L"
  shows "reached E V L s' = reached E V L s \<union> {p. behind E V L h lba p} \<and> st_mirror s' = st_mirror s \<and> st_tract s' = st_tract s"
proof (cases rule: walk_block_step [where V = V, OF run])
  case (1 bits)
  then have "{p. behind E V L h lba p} = {lba}" using behind_none L by fastforce
  then show ?thesis using 1 by (simp add: reached_def)
next
  case (2 bits n)
  then show ?thesis using behind_node [of E V lba h L n] L by (auto simp: reached_def item_of_def children_marks)
next
  case (3 bits doc ps)
  then show ?thesis using L by (auto simp: reached_def found_def)
qed

section \<open>The whole walk\<close>

text \<open>A pointer is intact when no pointer of the tree below it names a zeroed block.\<close>

inductive linked :: "vsf_env \<Rightarrow> (nat \<Rightarrow> block) \<Rightarrow> nat \<Rightarrow> hash \<Rightarrow> nat \<Rightarrow> hash \<Rightarrow> nat \<Rightarrow> bool" for E V L where
  linked_here: "linked E V L h lba h lba"
| linked_child: "doc_of E (V lba) h L = Inr (Some (DocNode n)) \<Longrightarrow> Some (Committed h' l') \<in> set (n_children n) \<Longrightarrow>
    linked E V L h' l' g p \<Longrightarrow> linked E V L h lba g p"

definition intact :: "vsf_env \<Rightarrow> (nat \<Rightarrow> block) \<Rightarrow> nat \<Rightarrow> hash \<Rightarrow> nat \<Rightarrow> bool" where
  "intact E V L h lba \<longleftrightarrow> (\<forall>g p. linked E V L h lba g p \<longrightarrow> doc_of E (V p) g L \<noteq> Inr None)"

definition intact_walk :: "vsf_env \<Rightarrow> (nat \<Rightarrow> block) \<Rightarrow> nat \<Rightarrow> 'z walk_scheme \<Rightarrow> bool" where
  "intact_walk E V L s \<longleftrightarrow> w_stale s = [] \<and> (\<forall>(lba, h, route, depth) \<in> set (w_todo s). intact E V L h lba)"

lemma intact_child:
  "intact E V L h lba \<Longrightarrow> doc_of E (V lba) h L = Inr (Some (DocNode n)) \<Longrightarrow> (l', h', r', d') \<in> set (item_of route depth n) \<Longrightarrow> intact E V L h' l'"
  using committed_children_iff [of h' l' n] by (fastforce simp: intact_def item_of_def intro: linked_child)

lemma walk_block_intact:
  assumes run: "walk_block E ((lba, h, route, depth), V lba) s = (Inr u, s')" and L: "t_len (st_tract s) = L"
    and i: "intact_walk E V L s" "intact E V L h lba"
  shows "intact_walk E V L s'"
proof (cases rule: walk_block_step [where V = V, OF run])
  case (1 bits)
  then show ?thesis using i(2) L linked_here by (auto simp: intact_def)
next
  case (2 bits n)
  then show ?thesis using i L intact_child [OF i(2), of n] by (auto simp: intact_walk_def)
next
  case (3 bits doc ps)
  then show ?thesis using i by (simp add: intact_walk_def)
qed

lemma walk_blocks_spec:
  assumes "forE (zip part (map V (map fst part))) (walk_block E) s = (Inr u, s')" and "t_len (st_tract s) = L"
    and "intact_walk E V L s" and "\<forall>(lba, h, route, depth) \<in> set part. intact E V L h lba"
  shows "reached E V L s' = reached E V L s \<union> item_marks E V L part \<and> intact_walk E V L s'
    \<and> st_mirror s' = st_mirror s \<and> st_tract s' = st_tract s"
  using assms
proof (induction part arbitrary: s)
  case Nil
  then show ?case by (simp add: run_simps)
next
  case (Cons x part)
  obtain lba h route depth where x: "x = (lba, h, route, depth)" by (cases x)
  obtain s1 where s1: "walk_block E ((lba, h, route, depth), V lba) s = (Inr (), s1)"
    and rest: "forE (zip part (map V (map fst part))) (walk_block E) s1 = (Inr u, s')"
    using Cons.prems(1) by (auto simp: x elim!: bindE_InrE)
  note sp = walk_block_spec [where V = V, OF s1 Cons.prems(2)]
  have "intact_walk E V L s1" by (rule walk_block_intact [where V = V, OF s1 Cons.prems(2,3)]) (use Cons.prems(4) x in auto)
  then have "reached E V L s' = reached E V L s1 \<union> item_marks E V L part \<and> intact_walk E V L s'
    \<and> st_mirror s' = st_mirror s1 \<and> st_tract s' = st_tract s1"
    using Cons.prems sp by (intro Cons.IH [OF rest]) auto
  then show ?case using sp x by auto
qed

end
