(* ===== verification/Settle_Props.thy ===== *)
theory Settle_Props
  imports Recovery Hamt_Reach
begin

text \<open>
  The settling of an opened vault (\<open>resume_common\<close>, \<open>settle\<close> and \<open>finish_open\<close> of \<open>src/vault.rs\<close>)
  on a rebooted medium: the walk changes nothing and ends with the positions behind the committed
  root, the reap cursor derived from them leaves every one of them between the cursors, and the
  settled vault satisfies the vault's invariant with the committed map.
\<close>

section \<open>Reads of a rebooted medium\<close>

lemma dev_read_many_still:
  assumes "healthy d" and "dev_read_many ls d = (r, d')"
  shows "d' = d"
proof -
  have bd: "e' = e" if "forE ls dev_bounds e = (q, e')" for e q e'
    by (rule forE_invariant [where P = "\<lambda>x. x = e", OF that]) (auto simp: dev_bounds_def split: if_splits)
  have rb: "read_block_at l d = (q, e') \<Longrightarrow> e' = d" for l q e'
    using assms(1) by (auto simp: read_block_at_def split: if_splits)
  from assms(2) show ?thesis unfolding dev_read_many_def
  proof (cases rule: bindE_cases)
    case (ok u d1)
    then obtain f where "mapE f ls d = (r, d')" "f = dev_read \<or> f = read_block_at" using bd by (auto split: if_splits)
    then show ?thesis by (rule_tac mapE_invariant [where P = "\<lambda>x. x = d"]) (use dev_read_still [OF assms(1)] rb in auto)
  qed (use bd in auto)
qed

lemma tract_read_many_rebooted:
  assumes "tract_read_many ls s = (r, s')" and "st_mirror s = rebooted m" and "wf_mirror m" and "t_base (st_tract s) + t_len (st_tract s) < U64"
  shows "s' = s" and "r = Inr bs \<Longrightarrow> bs = map (tview s) ls"
proof -
  obtain d where d: "rdev m = Some d" using assms(3) by (auto simp: wf_mirror_def)
  have still: "mirror_read_many dev (rebooted m) = (q, m') \<Longrightarrow> m' = rebooted m" for dev q m'
    using on_first_rebooted [where f = "dev_read_many dev", OF d] dev_read_many_still [of "healed d" dev]
    by (cases "dev_read_many dev (healed d)") (auto simp: mirror_read_many_def)
  note sp = tract_read_many_spec [OF assms(1) _ assms(4)] rebooted_wf [OF assms(3)]
  show "s' = s" using sp still assms(2) by (fastforce simp: with_mirror_def split: prod.splits)
  show "r = Inr bs \<Longrightarrow> bs = map (tview s) ls" using sp assms(2) by simp
qed

lemma recent_fences_rebooted:
  assumes "wf_mirror m" and "r_mirror r = rebooted m" and "recent_fences E k r = (x, r')"
  shows "r' = r"
proof -
  obtain y where y: "recent_entries E k r = (y, r')" using assms(3) by (auto simp: recent_fences_def bindE_def retE_def split: prod.splits sum.splits)
  show ?thesis
  proof (cases "r_head r")
    case (Some p)
    obtain sl head where p: "p = (sl, head)" by (cases p)
    let ?f = "\<lambda>i. let gen = se_gen head - i; slot = ring_slot (r_log2 r) gen in
             bindE (gen_at E slot) (\<lambda>c. retE (case c of Valid e \<Rightarrow> (if se_gen e = gen then Some e else None) | _ \<Rightarrow> None))"
    have run: "mapE ?f [0 ..< min k (wadd (se_gen head) 1)] r = (y, r')" using y Some p by (simp add: recent_entries_def)
    show ?thesis
    proof (rule mapE_invariant [where P = "\<lambda>x. x = r", OF run refl])
      fix i r1 q r2 assume a: "r1 = r" "?f i r1 = (q, r2)"
      then obtain c where "gen_at E (ring_slot (r_log2 r) (se_gen head - i)) r = (c, r2)"
        by (auto simp: Let_def bindE_def retE_def split: prod.splits sum.splits)
      then show "r2 = r" by (rule gen_at_rebooted [OF assms(1,2)])
    qed
  qed (use y in \<open>simp add: recent_entries_def\<close>)
qed

section \<open>The walk of the settling\<close>

text \<open>\<open>s\<close> walks a rebooted medium whose blocks are \<open>V\<close>.\<close>

definition walks :: "mirror \<Rightarrow> (nat \<Rightarrow> block) \<Rightarrow> nat \<Rightarrow> 'z store_scheme \<Rightarrow> bool" where
  "walks m V L s \<longleftrightarrow> wf_mirror m \<and> st_mirror s = rebooted m \<and> t_base (st_tract s) + t_len (st_tract s) < U64
     \<and> t_len (st_tract s) = L \<and> V = tview s"

lemma walk_tree_step_spec:
  assumes run: "walk_tree_step E s = (Inr u, s')" and s: "walks m V L s" and i: "intact_walk E V L s"
  shows "reached E V L s' = reached E V L s \<and> intact_walk E V L s' \<and> st_mirror s' = st_mirror s \<and> st_tract s' = st_tract s"
proof -
  let ?k = "length (w_todo s) - WALK_STEP"
  let ?part = "drop ?k (w_todo s)" and ?s = "s\<lparr>w_todo := take ?k (w_todo s)\<rparr>"
  obtain r s1 where rd: "tract_read_many (map fst ?part) ?s = (r, s1)" by (rule prod.exhaust)
  have w: "st_mirror ?s = rebooted m" "wf_mirror m" "t_base (st_tract ?s) + t_len (st_tract ?s) < U64" "tview ?s = V" "t_len (st_tract ?s) = L"
    using s by (simp_all add: walks_def tview_def [abs_def])
  note still = tract_read_many_rebooted [OF rd w(1-3)]
  obtain bs where "r = Inr bs" "forE (zip ?part bs) (walk_block E) s1 = (Inr u, s')"
    using run rd by (cases r) (auto simp: walk_tree_step_def Let_def)
  then have blocks: "forE (zip ?part (map V (map fst ?part))) (walk_block E) ?s = (Inr u, s')" using still w(4) by simp
  have split: "w_todo s = take ?k (w_todo s) @ ?part" by simp
  have todo: "\<forall>(lba, h, route, depth) \<in> set (w_todo s). intact E V L h lba" and st: "w_stale s = []" using i by (simp_all add: intact_walk_def)
  have "intact_walk E V L ?s" "\<forall>(lba, h, route, depth) \<in> set ?part. intact E V L h lba"
    using todo st by (auto simp: intact_walk_def dest!: in_set_takeD in_set_dropD)
  note sp = walk_blocks_spec [where V = V, OF blocks w(5) this]
  have "reached E V L s = reached E V L ?s \<union> item_marks E V L ?part"
    using arg_cong [OF split, of "item_marks E V L"] by (simp only: item_marks_simps) (auto simp: reached_def found_def)
  then show ?thesis using sp by simp
qed

lemma walk_tree_loop_spec:
  assumes "walk_tree_loop n E s = (Inr u, s')" and "walks m V L s" and "intact_walk E V L s"
  shows "w_stale s' = [] \<and> found s' = reached E V L s \<and> st_mirror s' = st_mirror s"
  using assms
proof (induction n arbitrary: s)
  case 0
  then show ?case by (simp add: raiseE_def)
next
  case (Suc n)
  show ?case
  proof (cases "w_todo s = []")
    case True
    then show ?thesis using Suc.prems by (simp add: intact_walk_def reached_def)
  next
    case False
    then have "bindE (walk_tree_step E) (\<lambda>_. walk_tree_loop n E) s = (Inr u, s')" using Suc.prems(1) by simp
    then obtain x s1 where s1: "walk_tree_step E s = (Inr x, s1)" "walk_tree_loop n E s1 = (Inr u, s')" by (rule bindE_InrE)
    note sp = walk_tree_step_spec [OF s1(1) Suc.prems(2,3)]
    have "walks m V L s1" using Suc.prems(2) sp by (simp add: walks_def tview_def [abs_def])
    then show ?thesis using Suc.IH [OF s1(2)] sp by simp
  qed
qed

lemma walk_of_simps [simp]: "walk_of g (v\<lparr>v_settling := x\<rparr>) = walk_of g v" "st_mirror (walk_of g v) = st_mirror v" "st_tract (walk_of g v) = st_tract v"
  "w_todo (walk_of g v) = sg_todo g" "w_stale (walk_of g v) = sg_stale g"
  by (simp_all add: walk_of_def walk_begin_def)

lemma settling_of_walk: "reached E V L (walk_of (settling_of w) v) = reached E V L w" "intact_walk E V L (walk_of (settling_of w) v) = intact_walk E V L w"
  by (simp_all add: reached_def found_def intact_walk_def settling_of_def walk_of_def walk_begin_def)

lemma settle_loop_spec:
  fixes v :: "'z vault_scheme"
  assumes "settle_loop n E ho v = (Inr u, v')" and "v_settling v = Some g" and "walks m V L v" and "intact_walk E V L (walk_of g v)"
  shows "\<exists>g' b. sg_todo g' = [] \<and> sg_stale g' = [] \<and> fst ` set (sg_live_blocks g') \<union> set (sg_referenced g') = reached E V L (walk_of g v)
    \<and> settle_finish E ho g' (v\<lparr>v_settling := None\<rparr>) = (Inr b, v')"
  using assms
proof (induction n arbitrary: v g)
  case 0
  then show ?case by (simp add: raiseE_def)
next
  case (Suc n)
  obtain d v1 where d: "settle_step E ho v = (Inr d, v1)" and rest: "(if d then retE () else settle_loop n E ho) v1 = (Inr u, v')"
    using Suc.prems(1) by (auto elim!: bindE_InrE)
  have fin: ?case if "settle_finish E ho g' (v\<lparr>v_settling := None\<rparr>) = (Inr d, v1)" "sg_todo g' = []"
    "intact_walk E V L (walk_of g' v)" "reached E V L (walk_of g' v) = reached E V L (walk_of g v)" for g'
  proof -
    have "d" using that(1) by (auto simp: settle_finish_def run_simps elim!: bindE_InrE)
    then have "v1 = v'" using rest by (simp add: run_simps)
    moreover have "sg_stale g' = []" using that(3) by (simp add: intact_walk_def)
    moreover have "fst ` set (sg_live_blocks g') \<union> set (sg_referenced g') = reached E V L (walk_of g' v)"
      using that(2) calculation(2) by (simp add: reached_def found_def walk_of_def walk_begin_def)
    ultimately show ?thesis using that by metis
  qed
  show ?case
  proof (cases "sg_todo g = []")
    case True
    then show ?thesis using d Suc.prems(2,4) fin [of g] by (simp add: settle_step_def Let_def)
  next
    case False
    obtain r w where w: "walk_tree_step E (walk_of g v) = (r, w)" by (rule prod.exhaust)
    then obtain x where r: "r = Inr x" using d Suc.prems(2) False by (cases r) (auto simp: settle_step_def Let_def)
    have wk: "walks m V L (walk_of g v)" using Suc.prems(3) by (simp add: walks_def tview_def [abs_def])
    note sp = walk_tree_step_spec [OF w [unfolded r] wk Suc.prems(4)]
    let ?g = "settling_of w"
    have mir: "v\<lparr>v_settling := None, st_mirror := st_mirror w\<rparr> = v\<lparr>v_settling := None\<rparr>" using sp by (cases v) simp
    have inv: "intact_walk E V L (walk_of ?g v)" "reached E V L (walk_of ?g v) = reached E V L (walk_of g v)"
      using sp by (simp_all add: settling_of_walk)
    show ?thesis
    proof (cases "sg_todo ?g = []")
      case True
      then have "settle_finish E ho ?g (v\<lparr>v_settling := None\<rparr>) = (Inr d, v1)"
        using d Suc.prems(2) False w r by (simp add: settle_step_def Let_def mir)
      then show ?thesis using fin [of ?g] True inv by blast
    next
      case more: False
      have "d = False \<and> v1 = v\<lparr>v_settling := Some ?g\<rparr>"
        using d Suc.prems(2) False w r more mir by (auto simp: settle_step_def Let_def) 
      then have "settle_loop n E ho (v\<lparr>v_settling := Some ?g\<rparr>) = (Inr u, v')" using rest by simp
      from Suc.IH [OF this, of ?g] show ?thesis using Suc.prems(3) inv by (simp add: walks_def tview_def [abs_def])
    qed
  qed
qed

section \<open>The live set and the cursors\<close>

lemma live_from_positions: "set (positions (live_from blocks refs)) = fst ` set blocks \<union> set refs"
proof -
  have up: "set (positions (ls\<lparr>ls_map := AList.update l h (ls_map ls)\<rparr>)) = insert l (set (positions ls))" for ls l h
    by (simp add: positions_def dom_update)
  have a: "set (positions (fold (\<lambda>(lba, hp) ls. ls\<lparr>ls_map := AList.update lba hp (ls_map ls)\<rparr>) blocks ls)) = fst ` set blocks \<union> set (positions ls)" for ls
    by (induction blocks arbitrary: ls) (simp_all add: up case_prod_unfold)
  have b: "set (positions (fold mark_referenced refs ls)) = set refs \<union> set (positions ls)" for ls
    by (induction refs arbitrary: ls) (auto simp: positions_def mark_referenced_def map_of_eq_None_iff)
  show ?thesis unfolding live_from_def b a by (auto simp: positions_def live_empty_def)
qed

text \<open>The fence that the recent spine entries give leaves room for a reap window.\<close>

definition roomy :: "vsf_env \<Rightarrow> ring \<Rightarrow> SpineEntry \<Rightarrow> bool" where
  "roomy E r h \<longleftrightarrow> (case recent_fences E FENCE_K r of (Inr fences, _) \<Rightarrow>
      (case fence_from fences of None \<Rightarrow> True
       | Some l \<Rightarrow> wadd (max (se_tract_blocks h div 2 ^ 6) REAP_WINDOW_MIN) 8 \<le> l - se_plow h)
    | (Inl _, _) \<Rightarrow> True)"

lemma refence_rebooted:
  fixes v :: "'z vault_scheme"
  assumes m: "wf_mirror m" "st_mirror v = rebooted m"
  shows "refence E v = (case fst (recent_fences E FENCE_K (ring_of v)) of Inl e \<Rightarrow> (Inl e, v)
    | Inr fences \<Rightarrow> (Inr (), v\<lparr>st_tract := (st_tract v)\<lparr>t_fence_limit := fence_from fences\<rparr>\<rparr>))"
proof -
  obtain q r1 where q: "recent_fences E FENCE_K (ring_of v) = (q, r1)" by (rule prod.exhaust)
  have "r1 = ring_of v" by (rule recent_fences_rebooted [OF m(1) _ q]) (simp add: m(2))
  then show ?thesis using q by (simp add: refence_def on_ring_def bindE_def modE_def fence_update split: sum.split)
qed

text \<open>With nothing to prune and a roomy fence the tail of the open only sets the live set and the cursors.\<close>

lemma finish_open_run:
  fixes v :: "'z vault_scheme"
  assumes m: "wf_mirror m" "st_mirror v = rebooted m"
    and h: "roomy E (ring_of v) h" "t_len (st_tract v) = se_tract_blocks h" "t_plow (st_tract v) = se_plow h"
  shows "finish_open E ho blocks refs [] [] v = (case derive_reap (se_plow h) (se_tract_blocks h) (live_from blocks refs) of Inl e \<Rightarrow> (Inl e, v)
    | Inr reap \<Rightarrow> let v1 = v\<lparr>st_tract := (st_tract v)\<lparr>t_reap := reap\<rparr>, v_live := live_from blocks refs\<rparr> in
      (case fst (recent_fences E FENCE_K (ring_of v)) of Inl e \<Rightarrow> (Inl e, v1)
       | Inr fences \<Rightarrow> (Inr (), v1\<lparr>st_tract := (st_tract v1)\<lparr>t_fence_limit := fence_from fences\<rparr>\<rparr>)))"
proof -
  let ?v = "\<lambda>reap. v\<lparr>st_tract := (st_tract v)\<lparr>t_reap := reap\<rparr>, v_live := live_from blocks refs\<rparr>"
  have ref: "refence E (?v reap) = (case fst (recent_fences E FENCE_K (ring_of v)) of Inl e \<Rightarrow> (Inl e, ?v reap)
    | Inr fences \<Rightarrow> (Inr (), ?v reap\<lparr>st_tract := (st_tract (?v reap))\<lparr>t_fence_limit := fence_from fences\<rparr>\<rparr>))" for reap
    using refence_rebooted [of m "?v reap" E] m by (simp add: ring_of_def)
  have full: "\<not> (case fence_from fences of None \<Rightarrow> False | Some l \<Rightarrow> l - se_plow h < wadd (max (se_tract_blocks h div 2 ^ 6) REAP_WINDOW_MIN) 8)"
    if "fst (recent_fences E FENCE_K (ring_of v)) = Inr fences" for fences
    using h(1) that by (cases "recent_fences E FENCE_K (ring_of v)") (auto simp: roomy_def split: option.splits)
  show ?thesis using full unfolding finish_open_def Let_def
    by (auto simp: bindE_def retE_def modE_def getE_def reap_window_def ref h(2,3) split: sum.split option.splits)
qed

lemma derive_reap_window:
  assumes "0 < len" and "\<forall>p \<in> set (positions ls). p < len" and "plow + 2 * len < U64"
    and "len \<le> plow \<or> (\<forall>p \<in> set (positions ls). p < plow)" and "derive_reap plow len ls = Inr reap"
  shows "reap \<le> plow" "plow \<le> reap + len" "set (positions ls) \<subseteq> (\<lambda>i. i mod len) ` {reap ..< plow}"
proof -
  have r: "reap \<le> plow \<and> plow \<le> reap + len \<and> (\<forall>i. plow \<le> i \<longrightarrow> i < reap + len \<longrightarrow> \<not> is_referenced (live_oracle ls) (i mod len))"
    using derive_reap_spec [OF assms(1-4)] assms(5) by auto
  then show "reap \<le> plow" "plow \<le> reap + len" by blast+
  show "set (positions ls) \<subseteq> (\<lambda>i. i mod len) ` {reap ..< plow}"
  proof
    fix p assume p: "p \<in> set (positions ls)"
    let ?i = "plow + ahead plow len p"
    have i: "?i mod len = p" "ahead plow len p < len" using ahead_hits [OF assms(1), of p plow] assms(1,2) p by (simp_all add: ahead_def)
    then have low: "reap + len \<le> ?i" using r p by (metis le_add1 not_less positions_referenced)
    then have "(?i - len) mod len = p" using i(1) le_mod_geq [of len ?i] by simp
    then show "p \<in> (\<lambda>i. i mod len) ` {reap ..< plow}" using i(2) low by (intro image_eqI [where x = "?i - len"]) auto
  qed
qed

section \<open>The index over the new cursors\<close>

lemma holds_reseat:
  fixes s :: "'y hst_scheme" and s' :: "'z hst_scheme"
  assumes hd: "holds E s t" and ok: "store_ok s'"
    and same: "h_root s' = h_root s" "h_arena s' = h_arena s" "tview s' = tview s" "t_len (st_tract s') = t_len (st_tract s)"
    and root: "h_root s = None \<or> h_root s = Some (Committed h lba)"
    and occ: "\<And>p. h_root s = Some (Committed h lba) \<Longrightarrow> behind E (tview s) (t_len (st_tract s)) h lba p \<Longrightarrow> p \<in> occ (st_tract s')"
  shows "holds E s' t"
proof (cases "h_root s")
  case None
  then show ?thesis using hd ok same by (simp add: holds_def)
next
  case (Some ch)
  then have ch: "ch = Committed h lba" using root by simp
  obtain u J where u: "t = Some u" "tree_at E s 0 ch u J" using hd Some by (auto simp: holds_def)
  have "repr E (tview s') (t_len (st_tract s')) (occ (st_tract s')) (h_arena s') 0 ch u J"
    unfolding same by (rule repr_shrink [OF u(2) ch]) (use occ Some ch in auto)
  then show ?thesis using ok same Some u(1) by (auto simp: holds_def)
qed

lemma behind_occ:
  assumes "repr E V L Oc A d ch t J" and "ch = Committed h lba" and "behind E V L h lba p"
  shows "p \<in> Oc"
  using assms
proof (induction arbitrary: h lba rule: repr.induct)
  case (repr_gone l g d)
  then show ?case by (auto simp: behind_none)
next
  case (repr_leaf l g doc k v d)
  then show ?case by (cases doc) (auto simp: leaf_doc_def behind_leaf)
next
  case (repr_node l g n d ts)
  have e: "g = h" "l = lba" using repr_node.prems(1) by simp_all
  consider "p = lba" | h' l' where "Some (Committed h' l') \<in> set (n_children n)" "behind E V L h' l' p"
    using repr_node.prems(2) behind_node [of E V lba h L n] repr_node.hyps(2) e by blast
  then show ?case
  proof cases
    case 2
    then obtain c where "c < 32" "n_children n ! c = Some (Committed h' l')" using repr_node.hyps(5) by (metis in_set_conv_nth)
    then show ?thesis using repr_node.IH 2(2) by force
  qed (use repr_node.hyps e in simp)
qed simp

section \<open>The settled vault\<close>

definition committed_view :: "'z vault_scheme \<Rightarrow> nat \<Rightarrow> block" where
  "committed_view v p = rcontent (st_mirror v) (t_base (st_tract v) + p)"

text \<open>The positions that the head reaches, and that no pointer among them names a zeroed block.\<close>

definition committed_positions :: "vsf_env \<Rightarrow> 'z vault_scheme \<Rightarrow> SpineEntry \<Rightarrow> nat set" where
  "committed_positions E v h = (if se_hamt_hash h = replicate 32 0 then {}
     else {p. behind E (committed_view v) (se_tract_blocks h) (se_hamt_hash h) (se_hamt_lba h) p})"

definition committed_intact :: "vsf_env \<Rightarrow> 'z vault_scheme \<Rightarrow> SpineEntry \<Rightarrow> bool" where
  "committed_intact E v h \<longleftrightarrow> se_hamt_hash h = replicate 32 0
     \<or> intact E (committed_view v) (se_tract_blocks h) (se_hamt_hash h) (se_hamt_lba h)"

lemma rebooted_twice [simp]: "rebooted (rebooted m) = rebooted m"
  by (cases "m_a m"; cases "m_b m") (simp_all add: rebooted_def healed_def)

text \<open>What the walk finds on the vault that an open builds, and where the derived cursor lies.\<close>

lemma committed_in_window:
  fixes v :: "'z vault_scheme"
  assumes i: "index_map E (head_index (rebooted (st_mirror v)) (st_tract v) h) m"
  shows "committed_positions E v h \<subseteq> occ (head_tract (st_tract v) h)"
proof (cases "se_hamt_hash h = replicate 32 0")
  case False
  obtain t where "holds E (head_index (rebooted (st_mirror v)) (st_tract v) h) t" using i by (auto simp: index_map_def)
  moreover have "tview (head_index (rebooted (st_mirror v)) (st_tract v) h) = committed_view v"
    by (simp add: tview_def committed_view_def fun_eq_iff)
  moreover have "h_root (head_index (rebooted (st_mirror v)) (st_tract v) h) = Some (Committed (se_hamt_hash h) (se_hamt_lba h))"
    using False by (simp add: head_index_def from_root_def)
  ultimately show ?thesis using False behind_occ by (fastforce simp: holds_def committed_positions_def)
qed (simp add: committed_positions_def)

lemma settled_vault:
  fixes v :: "'z vault_scheme" and v2 :: vault
  assumes d: "durable E v h m" and wf: "wf_mirror (st_mirror v)" and plow: "se_plow h + 2 * se_tract_blocks h < U64"
    and reap: "derive_reap (se_plow h) (se_tract_blocks h) live = Inr reap" and live: "set (positions live) = committed_positions E v h"
    and log: "1 \<le> v_log2 v" "v_log2 v \<le> 32" and below: "v_base v + 2 ^ v_log2 v \<le> t_base (st_tract v)"
    and v2: "ring_of v2 = disk_ring v h" "st_mirror v2 = rebooted (st_mirror v)" "h_arena v2 = []" "v_root v2 = None" "v_pending_reap v2 = None"
      "h_root v2 = (if se_hamt_hash h = replicate 32 0 then None else Some (Committed (se_hamt_hash h) (se_hamt_lba h)))"
      "st_tract v2 = (head_tract (st_tract v) h)\<lparr>t_reap := reap, t_fence_limit := l\<rparr>"
  shows "safe E v2 h m m" and "committed_positions E v h \<subseteq> occ (st_tract v2)"
proof -
  let ?s = "head_index (rebooted (st_mirror v)) (st_tract v) h" and ?len = "se_tract_blocks h"
  have i: "index_map E ?s m" using d by (simp add: durable_def)
  then obtain t where t: "vsf_ok E" "holds E ?s t" "m = (\<lambda>x. lookup_opt x 0 t)" by (auto simp: index_map_def)
  have tw: "tract_wf (head_tract (st_tract v) h)" and small: "?len < 2 ^ 63" using t(2) by (auto simp: holds_def store_ok_def)
  have len: "0 < ?len" and fit: "t_base (st_tract v) + ?len < U64" using tw by (auto simp: tract_wf_def)
  have win: "set (positions live) \<subseteq> occ (head_tract (st_tract v) h)" using committed_in_window [OF i] live by simp
  have "\<forall>p \<in> set (positions live). p < ?len" using win len by (auto simp: occ_def)
  moreover have "?len \<le> se_plow h \<or> (\<forall>p \<in> set (positions live). p < se_plow h)"
  proof -
    have "p < se_plow h" if "se_plow h < ?len" "p \<in> set (positions live)" for p using win that by (auto simp: occ_def)
    then show ?thesis by (cases "?len \<le> se_plow h") auto
  qed
  ultimately have cur: "reap \<le> se_plow h" "se_plow h \<le> reap + ?len" "set (positions live) \<subseteq> (\<lambda>i. i mod ?len) ` {reap ..< se_plow h}"
    using derive_reap_window [OF len _ plow _ reap] by blast+
  have tw2: "tract_wf (st_tract v2)" using cur len fit plow by (simp add: v2(7) tract_wf_def)
  have ok: "store_ok s'" if "st_mirror s' = rebooted (st_mirror v)" "tract_wf (st_tract s')" "t_len (st_tract s') = ?len" for s' :: "'b hst_scheme"
    using that rebooted_wf [OF wf] small by (simp add: store_ok_def)
  have seat: "index_map E s' m" if s': "st_mirror s' = rebooted (st_mirror v)" "t_reap (st_tract s') = reap" "t_plow (st_tract s') = se_plow h"
      "t_len (st_tract s') = ?len" "t_base (st_tract s') = t_base (st_tract v)" "h_arena s' = []" "h_root s' = h_root v2" for s' :: "'b hst_scheme"
  proof -
    have "tract_wf (st_tract s')" using tw2 s' by (simp add: tract_wf_def v2(7))
    moreover have "tview s' = committed_view v" "tview ?s = committed_view v" using s' by (simp_all add: tview_def committed_view_def fun_eq_iff)
    moreover have "p \<in> occ (st_tract s')" if "h_root ?s = Some (Committed (se_hamt_hash h) (se_hamt_lba h))"
        "behind E (committed_view v) ?len (se_hamt_hash h) (se_hamt_lba h) p" for p
    proof -
      have "p \<in> committed_positions E v h" using that by (simp add: committed_positions_def head_index_def from_root_def split: if_splits)
      then show ?thesis using cur(3) live s' by (auto simp: occ_def)
    qed
    ultimately have "holds E s' t"
      using s' by (intro holds_reseat [OF t(2) ok]) (auto simp: v2(6) head_index_def from_root_def)
    then show ?thesis using t unfolding index_map_def by blast
  qed
  have ring: "ring_inv E (ring_of v2)" "v_log2 v2 = v_log2 v" "v_base v2 = v_base v" "v_head v2 = Some (se_gen h mod 2 ^ v_log2 v, h)"
    using d v2(1) by (simp_all add: durable_def ring_of_def disk_ring_def)
  have dr: "disk_ring v2 h = disk_ring v h" using ring v2(2) by (simp add: disk_ring_def)
  have "index_map E v2 m" by (rule seat) (use v2 in simp_all)
  moreover have "index_map E (head_index (rebooted (st_mirror v2)) (st_tract v2) h) m"
    by (rule seat) (use v2 in \<open>simp_all add: head_index_def from_root_def\<close>)
  moreover have "find_staged (st_mirror v2) k = None" for k by (simp add: v2(2))
  ultimately show "safe E v2 h m m" using ring log below d v2
    by (simp add: safe_def vault_ok_def durable_def head_tract_def occ_def v2(1) dr)
  show "committed_positions E v h \<subseteq> occ (st_tract v2)" using cur(3) live by (simp add: v2(7) occ_def)
qed

lemma resume_common_safe:
  fixes v :: "'z vault_scheme"
  assumes run: "resume_common E ho (t_base (st_tract v)) None policy (disk_ring v h) = (Inr v2, m2)"
    and d: "durable E v h m" and wf: "wf_mirror (st_mirror v)" and plow: "se_plow h + 2 * se_tract_blocks h < U64"
    and log: "1 \<le> v_log2 v" "v_log2 v \<le> 32" and below: "v_base v + 2 ^ v_log2 v \<le> t_base (st_tract v)"
    and whole: "committed_intact E v h" and room: "roomy E (disk_ring v h) h"
  shows "safe E v2 h m m \<and> settled v2 \<and> st_mirror v2 = rebooted (st_mirror v) \<and> m2 = rebooted (st_mirror v) \<and> v_base v2 = v_base v
    \<and> v_log2 v2 = v_log2 v \<and> t_base (st_tract v2) = t_base (st_tract v) \<and> set (positions (v_live v2)) = committed_positions E v h
    \<and> committed_positions E v h \<subseteq> occ (st_tract v2)"
proof -
  let ?t = "\<lparr>t_base = t_base (st_tract v), t_len = se_tract_blocks h, t_plow = se_plow h, t_reap = 0, t_fence_limit = None\<rparr> :: tract"
  let ?v1 = "load_root (se_hamt_hash h) (se_hamt_lba h) (new_vault (disk_ring v h) ?t None policy)"
  let ?g = "\<lparr>sg_todo = walk_start ?v1, sg_visited = visited_new (t_len ?t), sg_live_blocks = [], sg_referenced = [], sg_stale = []\<rparr>"
  let ?v2 = "?v1\<lparr>v_settling := Some ?g\<rparr>"
  have i: "index_map E (head_index (rebooted (st_mirror v)) (st_tract v) h) m" using d by (simp add: durable_def)
  then have "tract_wf (head_tract (st_tract v) h)" by (auto simp: index_map_def holds_def store_ok_def)
  then have fit: "t_base (st_tract v) + se_tract_blocks h < U64" by (simp add: tract_wf_def)
  then have "\<not> mirror_block_count (rebooted (st_mirror v)) < t_base (st_tract v) + se_tract_blocks h" and un: "resume_unsettled (disk_ring v h) (t_base (st_tract v)) None policy = (Inr ?v2, rebooted (st_mirror v))"
    using run by (auto simp: resume_common_def bindM_def resume_unsettled_def Let_def checked_add_def split: if_splits)
  obtain u where settle: "settle_loop (tree_fuel ?v2) E ho ?v2 = (Inr u, v2)" and m2: "m2 = st_mirror v2"
    using run un by (auto simp: resume_common_def bindM_def opened_def settle_def split: prod.splits sum.splits)
  let ?V = "committed_view v" and ?L = "se_tract_blocks h"
  have view: "tview ?v2 = ?V" by (simp add: tview_def committed_view_def fun_eq_iff new_vault_def)
  have w: "walks (st_mirror v) ?V ?L ?v2" using wf fit view by (simp add: walks_def new_vault_def)
  have start: "walk_start ?v1 = (if se_hamt_hash h = replicate 32 0 then [] else [(se_hamt_lba h, se_hamt_hash h, replicate 32 0, 0)])"
    by (simp add: walk_start_def)
  have "intact_walk E ?V ?L (walk_of ?g ?v2)" using whole by (auto simp: intact_walk_def start committed_intact_def)
  from settle_loop_spec [OF settle _ w this] obtain g' b where g': "sg_stale g' = []"
      "fst ` set (sg_live_blocks g') \<union> set (sg_referenced g') = reached E ?V ?L (walk_of ?g ?v2)"
      "settle_finish E ho g' (?v2\<lparr>v_settling := None\<rparr>) = (Inr b, v2)" by auto
  have marks: "reached E ?V ?L (walk_of ?g ?v2) = committed_positions E v h"
    by (simp add: reached_def start committed_positions_def found_def walk_of_def walk_begin_def)
  let ?live = "live_from (sg_live_blocks g') (sg_referenced g')" and ?v3 = "?v2\<lparr>v_settling := None\<rparr>"
  have live: "set (positions ?live) = committed_positions E v h" using g'(2) marks by (simp add: live_from_positions)
  obtain u2 where "finish_open E ho (sg_live_blocks g') (sg_referenced g') [] [] ?v3 = (Inr u2, v2)"
    using g'(1,3) by (auto simp: settle_finish_def run_simps elim!: bindE_InrE)
  moreover have v3: "ring_of ?v3 = disk_ring v h" "st_mirror ?v3 = rebooted (st_mirror v)" "st_tract ?v3 = ?t"
    by (simp_all add: ring_of_def disk_ring_def new_vault_def load_root_def)
  have eq: "finish_open E ho (sg_live_blocks g') (sg_referenced g') [] [] ?v3 = (case derive_reap (se_plow h) (se_tract_blocks h) ?live of Inl e \<Rightarrow> (Inl e, ?v3)
    | Inr reap \<Rightarrow> let v1 = ?v3\<lparr>st_tract := (st_tract ?v3)\<lparr>t_reap := reap\<rparr>, v_live := ?live\<rparr> in
      (case fst (recent_fences E FENCE_K (ring_of ?v3)) of Inl e \<Rightarrow> (Inl e, v1)
       | Inr fences \<Rightarrow> (Inr (), v1\<lparr>st_tract := (st_tract v1)\<lparr>t_fence_limit := fence_from fences\<rparr>\<rparr>)))"
    by (rule finish_open_run [OF wf]) (simp_all only: v3 room, simp_all)
  ultimately obtain reap l where reap: "derive_reap (se_plow h) (se_tract_blocks h) ?live = Inr reap"
    and "v2 = ?v3\<lparr>st_tract := (st_tract ?v3)\<lparr>t_reap := reap\<rparr>, v_live := ?live, st_tract := (st_tract ?v3)\<lparr>t_reap := reap, t_fence_limit := l\<rparr>\<rparr>"
    by (simp only: eq Let_def split: sum.splits) auto
  then have v2: "v2 = ?v3\<lparr>st_tract := ?t\<lparr>t_reap := reap, t_fence_limit := l\<rparr>, v_live := ?live\<rparr>" by (simp only: v3) simp
  have "safe E v2 h m m" "committed_positions E v h \<subseteq> occ (st_tract v2)"
    by (rule settled_vault [OF d wf plow reap live log below, of _ l];
      simp add: v2 ring_of_def disk_ring_def new_vault_def load_root_def head_tract_def)+
  then show ?thesis using m2 live by (simp add: v2 settled_def new_vault_def load_root_def)
qed

lemma reopen_safe:
  fixes v :: "'z vault_scheme"
  assumes run: "vault_open E ho (rebooted (st_mirror v)) rl now policy = (Inr v2, m2)"
    and d: "durable E v h m" and wf: "wf_mirror (st_mirror v)" and p: "fixed_profile v" and plow: "se_plow h + 2 * se_tract_blocks h < U64"
    and log: "1 \<le> v_log2 v" "v_log2 v \<le> 32" and fit: "2 ^ v_log2 v \<le> rcount (st_mirror v)"
    and root: "rootless E (rebooted (st_mirror v))" and boot: "boots E (rebooted (st_mirror v)) (v_log2 v)"
    and whole: "committed_intact E v h" and room: "roomy E (disk_ring v h) h"
  shows "safe E v2 h m m \<and> settled v2 \<and> st_mirror v2 = rebooted (st_mirror v) \<and> m2 = rebooted (st_mirror v) \<and> fixed_profile v2
    \<and> set (positions (v_live v2)) = committed_positions E v h \<and> committed_positions E v h \<subseteq> occ (st_tract v2)"
proof -
  let ?m = "rebooted (st_mirror v)"
  have "ring_open_at E ?m (v_log2 v) 0 = (Inr (disk_ring v h), disk_ring v h)" by (rule reopen_ring [OF d wf p fit])
  then have "resume_common E ho (t_base (st_tract v)) None policy (disk_ring v h) = (Inr v2, m2)"
    using run p by (simp add: vault_open_def open_with_def resume_def bindM_def with_ring_def fixed_profile_def
      open_root_none [OF wf root] bootstrap_finds [OF wf boot])
  from resume_common_safe [OF this d wf plow log _ whole room] show ?thesis using p by (simp add: fixed_profile_def)
qed

end
