(* ===== verification/Settle_Total.thy ===== *)
theory Settle_Total
  imports Settle_Props Hamt_Total
begin

text \<open>
  The tree walk and the settling of an open return. Every block the walk takes off its list marks a
  position that was not marked before, so that the loops of \<open>walk_tree_collect\<close> and \<open>settle\<close> end within
  the bits of the visited set, which is what \<open>tree_fuel\<close> gives them. On a rebooted medium with a
  committed index the walk has only one way to fail: a position that the tree reaches twice.
\<close>

unbundle bit_operations_syntax

section \<open>The visited set\<close>

definition marked :: "64 word list \<Rightarrow> nat set" where
  "marked bits = {p. p div 64 < length bits \<and> bit (bits ! (p div 64)) (p mod 64)}"

abbreviation TWICE :: error where
  "TWICE \<equiv> Corrupt ''tract lba reached twice''"

lemma mask_hit: "w AND push_bit i (1 :: 64 word) \<noteq> 0 \<longleftrightarrow> bit w i" if "i < 64"
proof -
  have "w AND push_bit i 1 \<noteq> 0 \<longleftrightarrow> (\<exists>n < 64. bit w n \<and> n = i)"
    by (subst bit_eq_iff) (auto simp: bit_simps)
  then show ?thesis using that by auto
qed

lemma mask_set: "bit (w OR push_bit i (1 :: 64 word)) n \<longleftrightarrow> bit w n \<or> n = i" if "i < 64"
  using that by (auto simp: bit_simps)

lemma reach_spec:
  assumes "p < 64 * length bits"
  shows "if p \<in> marked bits then reach p bits = Inl TWICE
    else \<exists>bits'. reach p bits = Inr bits' \<and> length bits' = length bits \<and> marked bits' = insert p (marked bits)"
proof -
  let ?w = "p div 64" and ?i = "p mod 64"
  let ?b = "bits[?w := bits ! ?w OR push_bit ?i 1]"
  have w: "drop_bit 6 p = ?w" "p AND (2 ^ 6 - 1) = ?i"
    using take_bit_eq_mask [of 6 p] by (simp_all add: drop_bit_eq_div mask_eq_exp_minus_1 take_bit_eq_mod)
  have i: "?i < 64" "?w < length bits" using assms by (simp_all add: less_mult_imp_div_less mult.commute)
  have r: "reach p bits = (if p \<in> marked bits then Inl TWICE else Inr ?b)"
    using i mask_hit [OF i(1), of "bits ! ?w"] using w(2) by (simp add: reach_def Let_def w(1) marked_def)
  have "marked ?b = insert p (marked bits)"
  proof (rule set_eqI)
    fix q
    have "q = p \<longleftrightarrow> q div 64 = ?w \<and> q mod 64 = ?i" by (metis div_mult_mod_eq)
    then show "q \<in> marked ?b \<longleftrightarrow> q \<in> insert p (marked bits)"
      using i mask_set [OF i(1), of "bits ! ?w" "q mod 64"] by (auto simp: marked_def nth_list_update)
  qed
  then show ?thesis using r by simp
qed

lemma marked_bound: "marked bits \<subseteq> {..< 64 * length bits}"
  by (auto simp: marked_def)

lemma marked_new: "marked (visited_new L) = {}" "64 * length (visited_new L) \<le> L + 63" "L \<le> 64 * length (visited_new L)"
proof -
  show "marked (visited_new L) = {}" by (auto simp: marked_def visited_new_def)
  define q r where "q = L div 64" and "r = L mod 64"
  have L: "L = 64 * q + r" "r < 64" by (simp_all add: q_def r_def)
  have "length (visited_new L) = q + (if r = 0 then 0 else 1)" by (simp add: visited_new_def div_ceil_def q_def r_def)
  then show "64 * length (visited_new L) \<le> L + 63" "L \<le> 64 * length (visited_new L)" using L by (auto split: if_splits)
qed

text \<open>How many positions may still be marked.\<close>

definition spare :: "'z walk_scheme \<Rightarrow> nat" where
  "spare s = card ({..< 64 * length (w_visited s)} - marked (w_visited s))"

section \<open>Marking\<close>

text \<open>\<open>s'\<close> is \<open>s\<close> with the positions \<open>ps\<close> marked.\<close>

definition marks :: "nat list \<Rightarrow> 'z walk_scheme \<Rightarrow> 'z walk_scheme \<Rightarrow> bool" where
  "marks ps s s' \<longleftrightarrow> marked (w_visited s') = set ps \<union> marked (w_visited s) \<and> length (w_visited s') = length (w_visited s)
     \<and> st_mirror s' = st_mirror s \<and> st_tract s' = st_tract s"

definition fresh :: "nat list \<Rightarrow> 'z walk_scheme \<Rightarrow> bool" where
  "fresh ps s \<longleftrightarrow> distinct ps \<and> set ps \<inter> marked (w_visited s) = {}"

lemma mark_total:
  assumes "p < 64 * length (w_visited s)"
  obtains (new) s' where "mark p s = (Inr (), s')" "fresh [p] s" "marks [p] s s'" "\<exists>bits. s' = s\<lparr>w_visited := bits\<rparr>"
    | (twice) "mark p s = (Inl TWICE, s)" "\<not> fresh [p] s"
proof (cases "p \<in> marked (w_visited s)")
  case True
  then show thesis using reach_spec [OF assms] twice by (simp add: mark_def fresh_def)
next
  case False
  then obtain bits where bits: "reach p (w_visited s) = Inr bits" "length bits = length (w_visited s)" "marked bits = insert p (marked (w_visited s))"
    using reach_spec [OF assms] by auto
  let ?s = "s\<lparr>w_visited := bits\<rparr>"
  have "mark p s = (Inr (), ?s)" "fresh [p] s" "marks [p] s ?s" using bits False by (simp_all add: mark_def fresh_def marks_def)
  then show thesis by (rule new) blast
qed

lemma fresh_append: "marks ps s s' \<Longrightarrow> fresh ps s \<Longrightarrow> fresh (ps @ qs) s \<longleftrightarrow> fresh qs s'"
  by (auto simp: fresh_def marks_def)

lemma marks_trans: "marks ps s s1 \<Longrightarrow> marks qs s1 s' \<Longrightarrow> marks (ps @ qs) s s'"
  by (auto simp: marks_def)

lemma marks_same: "marks ps s s1 \<Longrightarrow> w_visited s' = w_visited s1 \<Longrightarrow> st_mirror s' = st_mirror s1 \<Longrightarrow> st_tract s' = st_tract s1 \<Longrightarrow> marks ps s s'"
  by (simp add: marks_def)

lemma fresh_same: "w_visited s' = w_visited s \<Longrightarrow> fresh ps s' = fresh ps s"
  by (simp add: fresh_def)

lemma reference_total:
  assumes "\<forall>p \<in> set ps. p < 64 * length (w_visited s)"
  shows "if fresh ps s then \<exists>s'. reference ps s = (Inr (), s') \<and> marks ps s s' \<and> w_todo s' = w_todo s
    else \<exists>s'. reference ps s = (Inl TWICE, s') \<and> st_mirror s' = st_mirror s"
  using assms
proof (induction ps arbitrary: s)
  case Nil
  then show ?case by (simp add: reference_def run_simps fresh_def marks_def)
next
  case (Cons p ps)
  have p: "p < 64 * length (w_visited s)" using Cons.prems by simp
  show ?case
  proof (cases rule: mark_total [OF p, case_names new twice])
    case (new s1)
    let ?s = "w_referenced_update (\<lambda>rs. rs @ [p]) s1"
    have run: "reference (p # ps) s = reference ps ?s" using new(1) by (simp add: reference_def bindE_def modE_def)
    have m: "marks [p] s ?s" using new(3) by (rule marks_same) simp_all
    have fr: "fresh (p # ps) s = fresh ps ?s" using fresh_append [OF m new(2), of ps] by simp
    have todo: "w_todo ?s = w_todo s" "st_mirror ?s = st_mirror s" using new(4) by auto
    have "\<forall>p \<in> set ps. p < 64 * length (w_visited ?s)" using Cons.prems m by (simp add: marks_def)
    note ih = Cons.IH [OF this]
    show ?thesis using ih unfolding run fr by (auto simp: todo dest: marks_trans [OF m] split: if_splits)
  next
    case twice
    then have "\<not> fresh (p # ps) s" by (auto simp: fresh_def)
    then show ?thesis using twice(1) by (simp add: reference_def bindE_def)
  qed
qed

section \<open>What the walk marks, in order\<close>

definition furrows_of :: "vsf_env \<Rightarrow> nat \<Rightarrow> TractDoc \<Rightarrow> nat list" where
  "furrows_of E L doc = (case doc of
     DocDirect _ _ fs \<Rightarrow> fs
   | DocExtent _ sz runs \<Rightarrow> (case expand_runs E runs sz L of Inr ps \<Rightarrow> ps | Inl _ \<Rightarrow> [])
   | _ \<Rightarrow> [])"

text \<open>The positions behind a pointer, each as often as it is reached; \<open>n\<close> bounds the depth.\<close>

primrec listing :: "nat \<Rightarrow> vsf_env \<Rightarrow> (nat \<Rightarrow> block) \<Rightarrow> nat \<Rightarrow> hash \<Rightarrow> nat \<Rightarrow> nat list" where
  "listing 0 E V L h lba = []"
| "listing (Suc n) E V L h lba = lba # (case doc_of E (V lba) h L of
     Inr (Some doc) \<Rightarrow> (case doc of
         DocNode node \<Rightarrow> concat (map (\<lambda>(slot, h', l'). listing n E V L h' l') (committed_children node))
       | _ \<Rightarrow> furrows_of E L doc)
   | _ \<Rightarrow> [])"

definition item_list :: "vsf_env \<Rightarrow> (nat \<Rightarrow> block) \<Rightarrow> nat \<Rightarrow> walk_item \<Rightarrow> nat list" where
  "item_list E V L = (\<lambda>(lba, h, route, depth). listing (WALK_FUEL - depth) E V L h lba)"

definition items_list :: "vsf_env \<Rightarrow> (nat \<Rightarrow> block) \<Rightarrow> nat \<Rightarrow> walk_item list \<Rightarrow> nat list" where
  "items_list E V L items = concat (map (item_list E V L) items)"

definition items_ok :: "vsf_env \<Rightarrow> (nat \<Rightarrow> block) \<Rightarrow> nat \<Rightarrow> nat set \<Rightarrow> walk_item list \<Rightarrow> bool" where
  "items_ok E V L Oc items \<longleftrightarrow> (\<forall>(lba, h, route, depth) \<in> set items. depth \<le> MAX_DEPTH \<and> (\<exists>t. repr E V L Oc [] depth (Committed h lba) t {}))"

lemma items_simps [simp]:
  "items_list E V L [] = []" "items_list E V L (x # xs) = item_list E V L x @ items_list E V L xs"
  "items_list E V L (xs @ ys) = items_list E V L xs @ items_list E V L ys"
  "items_ok E V L Oc []" "items_ok E V L Oc (xs @ ys) \<longleftrightarrow> items_ok E V L Oc xs \<and> items_ok E V L Oc ys"
  by (simp_all add: items_list_def items_ok_def ball_Un)

lemma items_ok_Cons: "items_ok E V L Oc (x # xs) \<longleftrightarrow> items_ok E V L Oc [x] \<and> items_ok E V L Oc xs"
  by (simp add: items_ok_def)

lemma committed_children_nth:
  "(slot, h, l) \<in> set (committed_children n) \<Longrightarrow> slot < length (n_children n) \<and> n_children n ! slot = Some (Committed h l)"
  by (auto simp: committed_children_def in_set_enumerate_eq split: option.splits child.splits)

lemma item_of_ok:
  assumes n: "n_depth n = depth" "length (n_children n) = 32" and doc: "doc_of E (V lba) h L = Inr (Some (DocNode n))"
    and ts: "\<forall>c < 32. (n_children n ! c = None \<and> ts ! c = None) \<or> (\<exists>ch t. n_children n ! c = Some ch \<and> ts ! c = Some t \<and> repr E V L Oc [] (Suc depth) ch t {})"
  shows "items_ok E V L Oc (item_of route depth n)" and "item_list E V L (lba, h, route, depth) = [lba] @ items_list E V L (item_of route depth n)"
proof -
  have d: "depth < MAX_DEPTH" using doc_of_node_depth [OF doc] n(1) by simp
  have sub: "\<exists>t. repr E V L Oc [] (Suc depth) (Committed h' l') t {}" if "(slot, h', l') \<in> set (committed_children n)" for slot h' l'
    using committed_children_nth [OF that] ts n(2) by force
  show "items_ok E V L Oc (item_of route depth n)" using sub d by (fastforce simp: items_ok_def item_of_def)
  have "WALK_FUEL - depth = Suc (WALK_FUEL - Suc depth)" using d by (simp add: WALK_FUEL_def)
  then show "item_list E V L (lba, h, route, depth) = [lba] @ items_list E V L (item_of route depth n)"
    using doc by (simp add: item_list_def items_list_def item_of_def case_prod_unfold comp_def)
qed

lemma item_list_leaf:
  assumes "doc_of E (V lba) h L = Inr d" and "depth \<le> MAX_DEPTH" and "\<And>n. d \<noteq> Some (DocNode n)"
  shows "item_list E V L (lba, h, route, depth) = lba # (case d of Some doc \<Rightarrow> furrows_of E L doc | None \<Rightarrow> [])"
proof -
  have "WALK_FUEL - depth = Suc (MAX_DEPTH - depth)" using assms(2) by (simp add: WALK_FUEL_def)
  then show ?thesis using assms(1,3) by (auto simp: item_list_def split: option.splits TractDoc.splits)
qed

text \<open>One block of the walk, which has been read: its own positions are marked and its children are put
  on the list, or one of its positions was marked before.\<close>

lemma walk_block_total:
  assumes ok: "items_ok E V L Oc [(lba, h, route, depth)]" and Oc: "Oc \<subseteq> {..< 64 * length (w_visited s)}" and L: "t_len (st_tract s) = L"
  obtains own new where "item_list E V L (lba, h, route, depth) = own @ items_list E V L new" "items_ok E V L Oc new" "lba \<in> set own" "set own \<subseteq> Oc"
    "if fresh own s then \<exists>s'. walk_block E ((lba, h, route, depth), V lba) s = (Inr (), s') \<and> marks own s s' \<and> w_todo s' = w_todo s @ new
     else \<exists>s'. walk_block E ((lba, h, route, depth), V lba) s = (Inl TWICE, s') \<and> st_mirror s' = st_mirror s"
proof -
  obtain t where d: "depth \<le> MAX_DEPTH" and t: "repr E V L Oc [] depth (Committed h lba) t {}" using ok by (auto simp: items_ok_def)
  have lba: "lba \<in> Oc" using t by (auto elim: repr_committedE)
  then have p: "lba < 64 * length (w_visited s)" using Oc by auto
  have twice: "(if fresh (lba # ps) s then X else \<exists>s'. walk_block E ((lba, h, route, depth), V lba) s = (Inl TWICE, s') \<and> st_mirror s' = st_mirror s)"
    if "mark lba s = (Inl TWICE, s)" "\<not> fresh [lba] s" for ps X
  proof -
    have "\<not> fresh (lba # ps) s" using that(2) by (auto simp: fresh_def)
    then show ?thesis using that(1) by (simp add: walk_block_def bindE_def)
  qed
  consider (gone) "doc_of E (V lba) h L = Inr None"
    | (leaf) doc k v where "doc_of E (V lba) h L = Inr (Some doc)" "leaf_doc E V L Oc doc k v"
    | (node) n ts where "n_depth n = depth" "length (n_children n) = 32" "doc_of E (V lba) h L = Inr (Some (DocNode n))"
        "\<forall>c < 32. (n_children n ! c = None \<and> ts ! c = None) \<or> (\<exists>ch t. n_children n ! c = Some ch \<and> ts ! c = Some t \<and> repr E V L Oc [] (Suc depth) ch t {})"
    using t by (rule repr_committedE) blast+
  then show thesis
  proof cases
    case gone
    have il: "item_list E V L (lba, h, route, depth) = [lba]" using item_list_leaf [where V = V and lba = lba, OF gone d] by simp
    have "if fresh [lba] s then \<exists>s'. walk_block E ((lba, h, route, depth), V lba) s = (Inr (), s') \<and> marks [lba] s s' \<and> w_todo s' = w_todo s @ []
     else \<exists>s'. walk_block E ((lba, h, route, depth), V lba) s = (Inl TWICE, s') \<and> st_mirror s' = st_mirror s"
    proof (cases rule: mark_total [OF p, case_names new twice])
      case (new s1)
      then have "t_len (st_tract s1) = L" "w_todo s1 = w_todo s" using L by auto
      then show ?thesis using new(1-3) gone by (auto simp: walk_block_def bindE_def push_stale_def modE_def marks_def)
    qed (rule twice)
    then show thesis using that [of "[lba]" "[]"] il lba by simp
  next
    case (leaf doc k v)
    let ?ps = "furrows_of E L doc"
    have nn: "doc \<noteq> DocNode n" for n using leaf(2) by (auto simp: leaf_doc_def)
    have il: "item_list E V L (lba, h, route, depth) = lba # ?ps" using item_list_leaf [where V = V and lba = lba, OF leaf(1) d] nn by simp
    have ps: "set ?ps \<subseteq> Oc" using leaf(2) by (cases doc) (auto simp: leaf_doc_def furrows_of_def)
    have "if fresh (lba # ?ps) s then \<exists>s'. walk_block E ((lba, h, route, depth), V lba) s = (Inr (), s') \<and> marks (lba # ?ps) s s' \<and> w_todo s' = w_todo s @ []
     else \<exists>s'. walk_block E ((lba, h, route, depth), V lba) s = (Inl TWICE, s') \<and> st_mirror s' = st_mirror s"
    proof (cases rule: mark_total [OF p, case_names new twice])
      case (new s1)
      let ?s = "w_out_update (\<lambda>out. out @ [(lba, h)]) s1"
      have s1: "t_len (st_tract s1) = L" "w_todo ?s = w_todo s" "st_mirror ?s = st_mirror s" using new(4) L by auto
      have m: "marks [lba] s ?s" using new(3) by (rule marks_same) simp_all
      have run: "walk_block E ((lba, h, route, depth), V lba) s = reference ?ps ?s"
        using new(1) leaf s1(1) by (cases doc) (auto simp: walk_block_def bindE_def push_out_def modE_def furrows_of_def leaf_doc_def reference_def run_simps)
      have fr: "fresh (lba # ?ps) s = fresh ?ps ?s" using fresh_append [OF m new(2), of ?ps] by simp
      have "\<forall>p \<in> set ?ps. p < 64 * length (w_visited ?s)" using ps Oc m by (auto simp: marks_def)
      then show ?thesis using reference_total [of ?ps ?s] marks_trans [OF m] unfolding run fr by (auto simp: s1(2,3) split: if_splits)
    qed (rule twice)
    then show thesis using that [of "lba # ?ps" "[]"] il lba ps by simp
  next
    case (node n ts)
    note io = item_of_ok [where V = V and lba = lba, OF node, of route]
    have "if fresh [lba] s then \<exists>s'. walk_block E ((lba, h, route, depth), V lba) s = (Inr (), s') \<and> marks [lba] s s' \<and> w_todo s' = w_todo s @ item_of route depth n
     else \<exists>s'. walk_block E ((lba, h, route, depth), V lba) s = (Inl TWICE, s') \<and> st_mirror s' = st_mirror s"
    proof (cases rule: mark_total [OF p, case_names new twice])
      case (new s1)
      then have "t_len (st_tract s1) = L" "w_todo s1 = w_todo s" using L by auto
      then show ?thesis using new(1-3) node(1,3)
        by (auto simp: walk_block_def bindE_def push_out_def modE_def liftE_def node_at_depth_def marks_def item_of_def)
    qed (rule twice)
    then show thesis using that [of "[lba]" "item_of route depth n"] io lba by simp
  qed
qed

section \<open>One step of the walk\<close>

lemma fresh_perm: "set xs = set ys \<Longrightarrow> distinct xs = distinct ys \<Longrightarrow> fresh xs s = fresh ys s"
  by (simp add: fresh_def)

lemma spare_less:
  assumes m: "marks own s s'" and own: "fresh own s" "p \<in> set own" "p < 64 * length (w_visited s)"
  shows "spare s' < spare s"
proof -
  let ?R = "{..< 64 * length (w_visited s)}" and ?M = "marked (w_visited s)"
  have "?R - (set own \<union> ?M) \<subset> ?R - ?M" using own by (auto simp: fresh_def)
  then have "card (?R - (set own \<union> ?M)) < card (?R - ?M)" by (intro psubset_card_mono) auto
  then show ?thesis using m by (simp add: spare_def marks_def)
qed

lemma walk_blocks_total:
  assumes "items_ok E V L Oc part" and "items_ok E V L Oc (w_todo s)" and "Oc \<subseteq> {..< 64 * length (w_visited s)}" and "t_len (st_tract s) = L"
  shows "\<exists>r s'. forE (zip part (map V (map fst part))) (walk_block E) s = (r, s') \<and> st_mirror s' = st_mirror s \<and> (case r of
      Inl e \<Rightarrow> e = TWICE \<and> \<not> fresh (items_list E V L (w_todo s @ part)) s
    | Inr u \<Rightarrow> fresh (items_list E V L (w_todo s')) s' = fresh (items_list E V L (w_todo s @ part)) s \<and> items_ok E V L Oc (w_todo s')
        \<and> st_tract s' = st_tract s \<and> length (w_visited s') = length (w_visited s) \<and> spare s' + length part \<le> spare s)"
  using assms
proof (induction part arbitrary: s)
  case Nil
  then show ?case by (simp add: run_simps)
next
  case (Cons x part)
  obtain lba h route depth where x: "x = (lba, h, route, depth)" by (cases x)
  have ok: "items_ok E V L Oc [(lba, h, route, depth)]" "items_ok E V L Oc part" using Cons.prems(1) x by (metis items_ok_Cons)+
  obtain own new where il: "item_list E V L x = own @ items_list E V L new" and new: "items_ok E V L Oc new" and own: "lba \<in> set own" "set own \<subseteq> Oc"
    and run: "if fresh own s then \<exists>s'. walk_block E (x, V lba) s = (Inr (), s') \<and> marks own s s' \<and> w_todo s' = w_todo s @ new
     else \<exists>s'. walk_block E (x, V lba) s = (Inl TWICE, s') \<and> st_mirror s' = st_mirror s"
    unfolding x by (rule walk_block_total [OF ok(1) Cons.prems(3,4)])
  let ?all = "items_list E V L (w_todo s @ x # part)"
  have all: "fresh ?all s = fresh (own @ items_list E V L ((w_todo s @ new) @ part)) s" by (rule fresh_perm) (auto simp: il)
  have step: "forE (zip (x # part) (map V (map fst (x # part)))) (walk_block E) s
      = bindE (walk_block E (x, V lba)) (\<lambda>_. forE (zip part (map V (map fst part))) (walk_block E)) s" by (simp add: x)
  show ?case
  proof (cases "fresh own s")
    case False
    then obtain s' where "walk_block E (x, V lba) s = (Inl TWICE, s')" "st_mirror s' = st_mirror s" using run by auto
    moreover have "\<not> fresh ?all s" using False all by (auto simp: fresh_def)
    ultimately show ?thesis unfolding step by (simp add: bindE_def)
  next
    case True
    then obtain s1 where s1: "walk_block E (x, V lba) s = (Inr (), s1)" "marks own s s1" "w_todo s1 = w_todo s @ new" using run by auto
    have fr: "fresh ?all s = fresh (items_list E V L (w_todo s1 @ part)) s1" unfolding all s1(3) by (rule fresh_append [OF s1(2) True])
    have same: "st_mirror s1 = st_mirror s" "st_tract s1 = st_tract s" "length (w_visited s1) = length (w_visited s)" using s1(2) by (simp_all add: marks_def)
    have less: "spare s1 < spare s" using own Cons.prems(3) by (intro spare_less [OF s1(2) True]) auto
    have "items_ok E V L Oc (w_todo s1)" using Cons.prems(2) new s1(3) by simp
    from Cons.IH [OF ok(2) this] show ?thesis using Cons.prems(3,4) same less unfolding step fr by (fastforce simp: bindE_def s1(1) split: sum.splits)
  qed
qed

lemma dev_read_many_total:
  assumes "wf_dev d" and "healthy d" and "\<forall>l \<in> set ls. l < fd_blocks d"
  shows "dev_read_many ls d = (Inr (map (dev_content d) ls), d)"
proof -
  have b: "forE ls dev_bounds d = (Inr (), d)" using assms(3) by (induction ls) (simp_all add: run_simps bindE_def dev_bounds_def)
  have "mapE dev_read ls d = (Inr (map (dev_content d) ls), d)" by (rule mapE_pure) (use assms dev_read_healthy in auto)
  moreover have "mapE read_block_at ls d = (Inr (map (dev_content d) ls), d)"
    by (rule mapE_pure) (use assms in \<open>auto simp: dev_content_def wf_dev_def\<close>)
  ultimately show ?thesis by (simp add: dev_read_many_def bindE_def b)
qed

lemma tract_read_many_total:
  assumes s: "st_mirror s = rebooted m" "wf_mirror m" "t_base (st_tract s) + t_len (st_tract s) \<le> rcount m" and ls: "\<forall>l \<in> set ls. l < t_len (st_tract s)"
  shows "tract_read_many ls s = (Inr (map (tview s) ls), s)"
proof -
  let ?b = "t_base (st_tract s)"
  obtain d where d: "rdev m = Some d" using s(2) by (auto simp: wf_mirror_def)
  have w: "wf_dev d" using rdev_wf [OF s(2) d] .
  have c: "rcount m = fd_blocks d" "rcontent m = dev_content d" "fd_blocks d < U64" using d w by (simp_all add: rcount_def rcontent_def fun_eq_iff wf_dev_def)
  have at: "wadd ?b l = ?b + l" if "l \<in> set ls" for l
  proof (rule wadd_eq)
    have "l < t_len (st_tract s)" using ls that by blast
    then show "?b + l < U64" using s(3) c by linarith
  qed
  have dev: "mapE (\<lambda>lba s. if lba \<ge> t_len (st_tract s) then (Inl (Bounds lba), s) else (Inr (wadd (t_base (st_tract s)) lba), s)) ls s
      = (Inr (map (\<lambda>l. ?b + l) ls), s)"
    by (rule mapE_pure) (use ls at in \<open>simp add: not_le [symmetric]\<close>)
  have "dev_read_many (map (\<lambda>l. ?b + l) ls) (healed d) = (Inr (map (dev_content (healed d)) (map (\<lambda>l. ?b + l) ls)), healed d)"
    by (rule dev_read_many_total) (use w ls s(3) c in auto)
  note rd = on_first_rebooted [where f = "dev_read_many (map (\<lambda>l. ?b + l) ls)", OF d this]
  have "mirror_read_many (map (\<lambda>l. ?b + l) ls) (rebooted m) = (Inr (map (tview s) ls), rebooted m)"
    using rd c s(1) by (simp add: mirror_read_many_def tview_def comp_def)
  moreover have "s\<lparr>st_mirror := rebooted m\<rparr> = s" using s(1) by (cases s) simp
  ultimately show ?thesis using dev s(1) by (simp add: tract_read_many_def bindE_def with_mirror_def)
qed

text \<open>A walk of a rebooted medium, with its list of pointers into a committed index.\<close>

definition sound_walk :: "vsf_env \<Rightarrow> mirror \<Rightarrow> (nat \<Rightarrow> block) \<Rightarrow> nat \<Rightarrow> nat set \<Rightarrow> 'z walk_scheme \<Rightarrow> bool" where
  "sound_walk E m V L Oc s \<longleftrightarrow> walks m V L s \<and> t_base (st_tract s) + L \<le> rcount m \<and> items_ok E V L Oc (w_todo s)
     \<and> Oc \<subseteq> {..< L} \<and> L \<le> 64 * length (w_visited s)"

lemma sound_walk_same:
  "w_visited s' = w_visited s \<Longrightarrow> w_todo s' = w_todo s \<Longrightarrow> st_mirror s' = st_mirror s \<Longrightarrow> st_tract s' = st_tract s \<Longrightarrow>
   sound_walk E m V L Oc s' = sound_walk E m V L Oc s"
  by (simp add: sound_walk_def walks_def tview_def [abs_def])

lemma walk_tree_step_total:
  assumes s: "sound_walk E m V L Oc s" and more: "w_todo s \<noteq> []"
  shows "\<exists>r s'. walk_tree_step E s = (r, s') \<and> st_mirror s' = st_mirror s \<and> (case r of
      Inl e \<Rightarrow> e = TWICE \<and> \<not> fresh (items_list E V L (w_todo s)) s
    | Inr u \<Rightarrow> sound_walk E m V L Oc s' \<and> fresh (items_list E V L (w_todo s')) s' = fresh (items_list E V L (w_todo s)) s \<and> spare s' < spare s)"
proof -
  let ?k = "length (w_todo s) - WALK_STEP"
  let ?part = "drop ?k (w_todo s)" and ?s = "s\<lparr>w_todo := take ?k (w_todo s)\<rparr>"
  have w: "walks m V L s" "items_ok E V L Oc (w_todo s)" "Oc \<subseteq> {..< L}" "L \<le> 64 * length (w_visited s)" "t_base (st_tract s) + L \<le> rcount m"
    using s by (simp_all add: sound_walk_def)
  have V: "tview ?s = V" "st_mirror ?s = rebooted m" "wf_mirror m" "t_len (st_tract ?s) = L" using w(1) by (simp_all add: walks_def tview_def [abs_def])
  have split: "take ?k (w_todo s) @ ?part = w_todo s" by simp
  then have ok: "items_ok E V L Oc ?part" "items_ok E V L Oc (w_todo ?s)" using w(2) by (metis items_simps(5), simp) (metis items_simps(5) split)
  have "l < L" if "(l, rest) \<in> set ?part" for l rest
    using ok(1) that w(3) by (cases rest) (fastforce simp: items_ok_def elim: repr_committedE)
  then have "fst x < L" if "x \<in> set ?part" for x using that by (cases x) simp
  then have lt: "\<forall>l \<in> set (map fst ?part). l < t_len (st_tract ?s)" unfolding V(4) by simp
  have "t_base (st_tract ?s) + t_len (st_tract ?s) \<le> rcount m" using w(5) V(4) by simp
  from tract_read_many_total [OF V(2,3) this lt] have rd: "tract_read_many (map fst ?part) ?s = (Inr (map V (map fst ?part)), ?s)"
    by (simp only: V(1))
  have run: "walk_tree_step E s = forE (zip ?part (map V (map fst ?part))) (walk_block E) ?s"
    by (simp only: walk_tree_step_def Let_def rd prod.case sum.case)
  have "0 < length ?part" using more by (cases "w_todo s") (simp_all add: WALK_STEP_def)
  moreover have "Oc \<subseteq> {..< 64 * length (w_visited ?s)}" using w(3,4) by auto
  note bl = walk_blocks_total [OF ok this V(4)]
  have same: "items_list E V L (w_todo ?s @ ?part) = items_list E V L (w_todo s)" "fresh xs ?s = fresh xs s" "spare ?s = spare s"
    "st_tract ?s = st_tract s" "st_mirror ?s = st_mirror s" "w_visited ?s = w_visited s" for xs
    using split by (simp_all add: fresh_def spare_def)
  obtain r s' where r: "forE (zip ?part (map V (map fst ?part))) (walk_block E) ?s = (r, s')" "st_mirror s' = st_mirror s"
    "case r of Inl e \<Rightarrow> e = TWICE \<and> \<not> fresh (items_list E V L (w_todo s)) s
    | Inr u \<Rightarrow> fresh (items_list E V L (w_todo s')) s' = fresh (items_list E V L (w_todo s)) s \<and> items_ok E V L Oc (w_todo s')
        \<and> st_tract s' = st_tract s \<and> length (w_visited s') = length (w_visited s) \<and> spare s' + length ?part \<le> spare s"
    using bl unfolding same by blast
  have "sound_walk E m V L Oc s'" if "st_tract s' = st_tract s" "items_ok E V L Oc (w_todo s')" "length (w_visited s') = length (w_visited s)"
    using that w r(2) by (simp add: sound_walk_def walks_def tview_def [abs_def])
  then show ?thesis using run r \<open>0 < length ?part\<close> by (cases r) auto
qed

section \<open>The loops end\<close>

text \<open>Enough fuel: one turn more than there are positions to mark.\<close>

lemma walk_tree_loop_total:
  assumes "sound_walk E m V L Oc s" and "spare s < n"
  shows "\<exists>r s'. walk_tree_loop n E s = (r, s') \<and> st_mirror s' = st_mirror s
    \<and> r = (if fresh (items_list E V L (w_todo s)) s then Inr () else Inl TWICE)"
  using assms
proof (induction n arbitrary: s)
  case 0
  then show ?case by simp
next
  case (Suc n)
  show ?case
  proof (cases "w_todo s = []")
    case True
    then show ?thesis by (simp add: fresh_def)
  next
    case False
    obtain r s1 where st: "walk_tree_step E s = (r, s1)" "st_mirror s1 = st_mirror s" "case r of
      Inl e \<Rightarrow> e = TWICE \<and> \<not> fresh (items_list E V L (w_todo s)) s
    | Inr u \<Rightarrow> sound_walk E m V L Oc s1 \<and> fresh (items_list E V L (w_todo s1)) s1 = fresh (items_list E V L (w_todo s)) s \<and> spare s1 < spare s"
      using walk_tree_step_total [OF Suc.prems(1) False] by blast
    show ?thesis
    proof (cases r)
      case (Inl e)
      then show ?thesis using st False by (simp add: bindE_def)
    next
      case (Inr u)
      then have "sound_walk E m V L Oc s1" "spare s1 < n" using st(3) Suc.prems(2) by auto
      from Suc.IH [OF this] show ?thesis using st False Inr by (auto simp: bindE_def)
    qed
  qed
qed

text \<open>The fuel that the walk and the settling are given is enough.\<close>

lemma spare_new: "w_visited s = visited_new (t_len (st_tract s)) \<Longrightarrow> spare s < tree_fuel s"
  using marked_new [of "t_len (st_tract s)"] by (simp add: spare_def tree_fuel_def)

lemma settle_loop_total:
  fixes v :: "'z vault_scheme"
  assumes "v_settling v = Some g" and "sound_walk E m V L Oc (walk_of g v)" and "intact_walk E V L (walk_of g v)" and "spare (walk_of g v) < n"
    and fin: "\<And>g'. sg_stale g' = [] \<Longrightarrow> \<exists>v'. settle_finish E ho g' (v\<lparr>v_settling := None\<rparr>) = (Inr True, v')"
  shows "if fresh (items_list E V L (sg_todo g)) (walk_of g v) then \<exists>v'. settle_loop n E ho v = (Inr (), v')
    else \<exists>v'. settle_loop n E ho v = (Inl TWICE, v') \<and> st_mirror v' = st_mirror v"
  using assms
proof (induction n arbitrary: v g)
  case 0
  then show ?case by simp
next
  case (Suc n)
  have stop: "\<exists>v'. settle_loop (Suc n) E ho v = (Inr (), v')" if "settle_step E ho v = settle_finish E ho g' (v\<lparr>v_settling := None\<rparr>)" "sg_stale g' = []" for g'
    using Suc.prems(5) [OF that(2)] that(1) by (auto simp: bindE_def retE_def)
  show ?case
  proof (cases "sg_todo g = []")
    case True
    then have "settle_step E ho v = settle_finish E ho g (v\<lparr>v_settling := None\<rparr>)" using Suc.prems(1) by (simp add: settle_step_def Let_def)
    moreover have "sg_stale g = []" using Suc.prems(3) by (simp add: intact_walk_def)
    ultimately show ?thesis using stop True by (simp add: fresh_def)
  next
    case False
    let ?s = "walk_of g v"
    obtain r w where st: "walk_tree_step E ?s = (r, w)" "st_mirror w = st_mirror ?s" "case r of
      Inl e \<Rightarrow> e = TWICE \<and> \<not> fresh (items_list E V L (w_todo ?s)) ?s
    | Inr u \<Rightarrow> sound_walk E m V L Oc w \<and> fresh (items_list E V L (w_todo w)) w = fresh (items_list E V L (w_todo ?s)) ?s \<and> spare w < spare ?s"
      using walk_tree_step_total [OF Suc.prems(2)] False by auto
    have mir: "v\<lparr>v_settling := None, st_mirror := st_mirror w\<rparr> = v\<lparr>v_settling := None\<rparr>" using st(2) by (cases v) simp
    show ?thesis
    proof (cases r)
      case (Inl e)
      then show ?thesis using st False Suc.prems(1) by (simp add: settle_step_def Let_def bindE_def)
    next
      case (Inr u)
      let ?g = "settling_of w" and ?v = "v\<lparr>v_settling := Some (settling_of w)\<rparr>"
      have w: "sound_walk E m V L Oc w" "fresh (items_list E V L (w_todo w)) w = fresh (items_list E V L (sg_todo g)) ?s" "spare w < n"
        using st(3) Inr Suc.prems(4) by auto
      have "walks m V L ?s" using Suc.prems(2) by (simp add: sound_walk_def)
      note sp = walk_tree_step_spec [OF st(1) [unfolded Inr] this Suc.prems(3)]
      have wo: "w_visited (walk_of ?g ?v) = w_visited w" "w_todo (walk_of ?g ?v) = w_todo w" "st_mirror (walk_of ?g ?v) = st_mirror w"
        "st_tract (walk_of ?g ?v) = st_tract w" "sg_todo ?g = w_todo w"
        using sp by (simp_all add: walk_of_def walk_begin_def settling_of_def)
      have "sound_walk E m V L Oc (walk_of ?g ?v)" using w(1) sound_walk_same [OF wo(1-4)] by blast
      moreover have "intact_walk E V L (walk_of ?g ?v)" using sp by (simp add: settling_of_walk)
      moreover have "spare (walk_of ?g ?v) < n" using w(3) wo(1) by (simp only: spare_def)
      moreover have "fresh xs (walk_of ?g ?v) = fresh xs w" for xs using wo(1) by (simp only: fresh_def)
      ultimately have inv: "sound_walk E m V L Oc (walk_of ?g ?v)" "intact_walk E V L (walk_of ?g ?v)" "spare (walk_of ?g ?v) < n"
        "fresh xs (walk_of ?g ?v) = fresh xs w" for xs by blast+
      show ?thesis
      proof (cases "w_todo w = []")
        case True
        then have "settle_step E ho v = settle_finish E ho ?g (v\<lparr>v_settling := None\<rparr>)"
          using st(1) Inr False Suc.prems(1) wo(5) mir by (simp add: settle_step_def Let_def)
        moreover have "sg_stale ?g = []" using inv(2) by (simp add: intact_walk_def settling_of_def)
        moreover have "fresh (items_list E V L (sg_todo g)) ?s" using w(2) True by (simp add: fresh_def)
        ultimately show ?thesis using stop by simp
      next
        case more: False
        then have step: "settle_step E ho v = (Inr False, ?v)" using st(1) Inr False Suc.prems(1) wo(5) mir by (simp add: settle_step_def Let_def)
        have run: "settle_loop (Suc n) E ho v = settle_loop n E ho ?v" by (simp add: bindE_def step)
        have "v_settling ?v = Some ?g" "?v\<lparr>v_settling := None\<rparr> = v\<lparr>v_settling := None\<rparr>" by simp_all
        with Suc.IH [OF this(1) inv(1,2,3)] Suc.prems(5) have "if fresh (items_list E V L (w_todo w)) w then \<exists>v'. settle_loop n E ho ?v = (Inr (), v')
          else \<exists>v'. settle_loop n E ho ?v = (Inl TWICE, v') \<and> st_mirror v' = st_mirror ?v" unfolding inv(4) wo(5) by simp
        then show ?thesis unfolding run w(2) by (cases "fresh (items_list E V L (sg_todo g)) ?s") simp_all
      qed
    qed
  qed
qed

section \<open>The open returns\<close>

lemma recent_fences_total:
  fixes v :: "'z vault_scheme"
  assumes wf: "wf_mirror (st_mirror v)" and fit: "v_base v + 2 ^ v_log2 v \<le> rcount (st_mirror v)"
  shows "\<exists>fs. recent_fences E k (disk_ring v h) = (Inr fs, disk_ring v h) \<and> length fs = min k (wadd (se_gen h) 1)"
proof -
  let ?r = "disk_ring v h"
  have c: "rcount (st_mirror v) < U64" using wf by (auto simp: wf_mirror_def rcount_def rdev_def wf_dev_def split: option.splits if_splits)
  define g where "g i = (case classify E (rcontent (st_mirror v) (v_base v + ring_slot (v_log2 v) (se_gen h - i))) (ring_slot (v_log2 v) (se_gen h - i)) (Some (v_log2 v)) of
      Valid e \<Rightarrow> (if se_gen e = se_gen h - i then Some e else None) | _ \<Rightarrow> None)" for i
  have at: "gen_at E (ring_slot (v_log2 v) x) ?r = (Inr (classify E (rcontent (st_mirror v) (v_base v + ring_slot (v_log2 v) x)) (ring_slot (v_log2 v) x) (Some (v_log2 v))), ?r)" for x
  proof -
    have lt: "ring_slot (v_log2 v) x < 2 ^ v_log2 v" by (simp add: ring_slot_eq)
    then have w: "wadd (v_base v) (ring_slot (v_log2 v) x) = v_base v + ring_slot (v_log2 v) x" using fit c by (intro wadd_eq) linarith
    have "v_base v + ring_slot (v_log2 v) x < rcount (st_mirror v)" using lt fit by linarith
    from mirror_read_rebooted(2) [OF wf this] show ?thesis by (simp add: gen_at_run w disk_ring_def)
  qed
  have "recent_entries E k ?r = (Inr (map g [0 ..< min k (wadd (se_gen h) 1)]), ?r)"
    unfolding recent_entries_def by (simp add: Let_def) (rule mapE_pure, simp add: bindE_def retE_def at g_def)
  then show ?thesis by (simp add: recent_fences_def bindE_def retE_def)
qed

text \<open>A ring that has not reached \<open>FENCE_K\<close> generations has no fence.\<close>

lemma roomy_young:
  fixes v :: "'z vault_scheme"
  assumes wf: "wf_mirror (st_mirror v)" and fit: "v_base v + 2 ^ v_log2 v \<le> rcount (st_mirror v)" and young: "se_gen h + 1 < FENCE_K"
  shows "roomy E (disk_ring v h) h"
proof -
  have "wadd (se_gen h) 1 = se_gen h + 1" using young by (intro wadd_eq) (simp add: FENCE_K_def)
  then obtain fs where fs: "recent_fences E FENCE_K (disk_ring v h) = (Inr fs, disk_ring v h)" "length fs < FENCE_K"
    using recent_fences_total [OF wf fit, of E FENCE_K h] young by auto
  then have "fence_from fs = None" by (simp add: fence_from_def)
  then show ?thesis by (simp add: roomy_def fs(1))
qed

text \<open>The positions that the walk of the committed root marks, in order.\<close>

definition committed_walk :: "vsf_env \<Rightarrow> 'z vault_scheme \<Rightarrow> SpineEntry \<Rightarrow> nat list" where
  "committed_walk E v h = (if se_hamt_hash h = replicate 32 0 then []
     else listing WALK_FUEL E (committed_view v) (se_tract_blocks h) (se_hamt_hash h) (se_hamt_lba h))"

lemma durable_items:
  fixes v :: "'z vault_scheme"
  assumes d: "durable E v h m" and h: "se_hamt_hash h \<noteq> replicate 32 0"
  shows "items_ok E (committed_view v) (se_tract_blocks h) (occ (head_tract (st_tract v) h)) [(se_hamt_lba h, se_hamt_hash h, route, 0)]"
proof -
  let ?s = "head_index (rebooted (st_mirror v)) (st_tract v) h"
  obtain t where t: "holds E ?s t" using d by (auto simp: durable_def index_map_def)
  have "tview ?s = committed_view v" by (simp add: tview_def committed_view_def fun_eq_iff)
  moreover have "h_root ?s = Some (Committed (se_hamt_hash h) (se_hamt_lba h))" "h_arena ?s = []" using h by (simp_all add: head_index_def from_root_def)
  ultimately obtain u J where u: "repr E (committed_view v) (se_tract_blocks h) (occ (head_tract (st_tract v) h)) [] 0 (Committed (se_hamt_hash h) (se_hamt_lba h)) u J"
    using t by (auto simp: holds_def head_tract_def)
  then have "J = {}" by (auto elim: repr_committedE)
  then show ?thesis using u by (auto simp: items_ok_def)
qed

lemma resume_common_total:
  fixes v :: "'z vault_scheme"
  assumes d: "durable E v h m" and wf: "wf_mirror (st_mirror v)" and ring: "v_base v + 2 ^ v_log2 v \<le> rcount (st_mirror v)"
    and fits: "t_base (st_tract v) + se_tract_blocks h \<le> mirror_block_count (rebooted (st_mirror v))"
    and whole: "committed_intact E v h" and room: "roomy E (disk_ring v h) h"
  shows "if distinct (committed_walk E v h) then \<exists>v2. resume_common E ho (t_base (st_tract v)) None policy (disk_ring v h) = (Inr v2, st_mirror v2)
    else resume_common E ho (t_base (st_tract v)) None policy (disk_ring v h) = (Inl TWICE, rebooted (st_mirror v))"
proof -
  let ?t = "\<lparr>t_base = t_base (st_tract v), t_len = se_tract_blocks h, t_plow = se_plow h, t_reap = 0, t_fence_limit = None\<rparr> :: tract"
  let ?v1 = "load_root (se_hamt_hash h) (se_hamt_lba h) (new_vault (disk_ring v h) ?t None policy)"
  let ?g = "\<lparr>sg_todo = walk_start ?v1, sg_visited = visited_new (t_len ?t), sg_live_blocks = [], sg_referenced = [], sg_stale = []\<rparr>"
  let ?v2 = "?v1\<lparr>v_settling := Some ?g\<rparr>" and ?v3 = "?v1\<lparr>v_settling := None\<rparr>"
  let ?V = "committed_view v" and ?L = "se_tract_blocks h" and ?Oc = "occ (head_tract (st_tract v) h)"
  have tw: "tract_wf (head_tract (st_tract v) h)" using d by (auto simp: durable_def index_map_def holds_def store_ok_def)
  then have lt: "t_base (st_tract v) + ?L < U64" "0 < ?L" by (simp_all add: tract_wf_def)
  have un: "resume_unsettled (disk_ring v h) (t_base (st_tract v)) None policy = (Inr ?v2, rebooted (st_mirror v))"
    using fits lt by (simp add: resume_unsettled_def Let_def not_less checked_add_def)
  have start: "walk_start ?v1 = (if se_hamt_hash h = replicate 32 0 then [] else [(se_hamt_lba h, se_hamt_hash h, replicate 32 0, 0)])"
    by (simp add: walk_start_def)
  have "tview ?v2 = ?V" by (simp add: tview_def committed_view_def fun_eq_iff new_vault_def)
  then have w: "walks (st_mirror v) ?V ?L (walk_of ?g ?v2)" using wf lt by (simp add: walks_def new_vault_def tview_def [abs_def])
  have "?Oc \<subseteq> {..< ?L}" using lt(2) by (auto simp: occ_def head_tract_def)
  moreover have "items_ok E ?V ?L ?Oc (walk_start ?v1)" using durable_items [OF d] by (simp add: start)
  moreover have vis: "w_visited (walk_of ?g ?v2) = visited_new ?L" by (simp add: walk_of_def walk_begin_def)
  ultimately have sw: "sound_walk E (st_mirror v) ?V ?L ?Oc (walk_of ?g ?v2)"
    using w fits block_count_le [of "st_mirror v"] marked_new(3) [of ?L] by (simp add: sound_walk_def new_vault_def)
  have iw: "intact_walk E ?V ?L (walk_of ?g ?v2)" using whole by (auto simp: intact_walk_def start committed_intact_def)
  have sp: "spare (walk_of ?g ?v2) < tree_fuel ?v2" using spare_new [of "walk_of ?g ?v2"] vis by (simp add: tree_fuel_def new_vault_def)
  have fr: "fresh (items_list E ?V ?L (sg_todo ?g)) (walk_of ?g ?v2) = distinct (committed_walk E v h)"
    unfolding fresh_def vis marked_new(1) by (simp add: start committed_walk_def item_list_def)
  obtain fs where fs: "recent_fences E FENCE_K (disk_ring v h) = (Inr fs, disk_ring v h)" using recent_fences_total [OF wf ring] by blast
  have v3: "ring_of ?v3 = disk_ring v h" "st_mirror ?v3 = rebooted (st_mirror v)" "t_len (st_tract ?v3) = ?L" "t_plow (st_tract ?v3) = se_plow h"
    by (simp_all add: ring_of_def disk_ring_def new_vault_def load_root_def)
  have room3: "roomy E (ring_of ?v3) h" unfolding v3(1) by (rule room)
  have fin: "\<exists>v'. settle_finish E ho g' (?v2\<lparr>v_settling := None\<rparr>) = (Inr True, v')" if "sg_stale g' = []" for g'
  proof -
    obtain reap where reap: "derive_reap (se_plow h) ?L (live_from (sg_live_blocks g') (sg_referenced g')) = Inr reap" using lt(2) by (simp add: derive_reap_def)
    have "\<exists>v'. finish_open E ho (sg_live_blocks g') (sg_referenced g') [] [] ?v3 = (Inr (), v')"
      unfolding finish_open_run [where v = ?v3 and m = "st_mirror v" and h = h, OF wf v3(2) room3 v3(3,4)] v3(1)
      by (simp add: reap fs Let_def)
    then show ?thesis using that by (auto simp: settle_finish_def bindE_def retE_def)
  qed
  have st: "v_settling ?v2 = Some ?g" "st_mirror ?v2 = rebooted (st_mirror v)" by (simp_all add: new_vault_def)
  note tot = settle_loop_total [OF st(1) sw iw sp fin, unfolded fr st(2)]
  show ?thesis
  proof (cases "distinct (committed_walk E v h)")
    case True
    then obtain v' where "settle_loop (tree_fuel ?v2) E ho ?v2 = (Inr (), v')" using tot by auto
    then show ?thesis using True un by (simp add: resume_common_def bindM_def opened_def settle_def)
  next
    case False
    then obtain v' where "settle_loop (tree_fuel ?v2) E ho ?v2 = (Inl TWICE, v')" "st_mirror v' = rebooted (st_mirror v)" using tot by auto
    then show ?thesis using False un by (simp add: resume_common_def bindM_def opened_def settle_def)
  qed
qed

lemma reopen_total:
  fixes v :: "'z vault_scheme"
  assumes d: "durable E v h m" and wf: "wf_mirror (st_mirror v)" and p: "fixed_profile v"
    and fits: "t_base (st_tract v) + se_tract_blocks h \<le> mirror_block_count (rebooted (st_mirror v))"
    and root: "rootless E (rebooted (st_mirror v))" and boot: "boots E (rebooted (st_mirror v)) (v_log2 v)"
    and whole: "committed_intact E v h" and room: "roomy E (disk_ring v h) h"
  shows "if distinct (committed_walk E v h) then \<exists>v2. vault_open E ho (rebooted (st_mirror v)) rl now policy = (Inr v2, st_mirror v2)
    else vault_open E ho (rebooted (st_mirror v)) rl now policy = (Inl TWICE, rebooted (st_mirror v))"
proof -
  have fit: "2 ^ v_log2 v \<le> rcount (st_mirror v)" using p fits block_count_le [of "st_mirror v"] by (simp add: fixed_profile_def)
  have run: "vault_open E ho (rebooted (st_mirror v)) rl now policy = resume_common E ho (t_base (st_tract v)) None policy (disk_ring v h)"
    using p by (simp add: vault_open_def open_with_def resume_def bindM_def with_ring_def fixed_profile_def
      open_root_none [OF wf root] bootstrap_finds [OF wf boot] reopen_ring [OF d wf p fit])
  show ?thesis unfolding run by (rule resume_common_total [OF d wf _ fits whole room]) (use fit p in \<open>simp add: fixed_profile_def\<close>)
qed

end
