(* ===== verification/Genesis_Props.thy ===== *)
theory Genesis_Props
  imports Recovery Fresh_Vault
begin

text \<open>
  Genesis establishes the invariant that commits keep: on any device large enough, a vault that
  \<open>genesis\<close> returns is empty, and so is what its medium would come back with.
\<close>

section \<open>The search on an empty ring\<close>

context slot_source
begin

lemma bisect_empty:
  assumes "oks s" and "\<forall>k. lo \<le> k \<longrightarrow> k \<le> hi \<longrightarrow> cls s k = Empty" and "bisect_by ga lo hi ls None s = (r, s')"
  shows "oks s' \<and> (\<forall>x. r = Inr x \<longrightarrow> x = None)"
  using assms
proof (induction "hi - lo" arbitrary: hi s rule: less_induct)
  case less
  show ?case
  proof (cases "lo \<ge> hi")
    case True
    then show ?thesis using less.prems by (auto simp: bisect_by.simps [of ga lo hi] retE_def)
  next
    case False
    define mid where "mid = (lo + hi + 1) div 2"
    have mid: "lo < mid" "mid \<le> hi" using False by (auto simp: mid_def)
    let ?f = "\<lambda>c. if c = ClsCorrupt then bindE (search_by ga lo (mid - 1)) (\<lambda>left. bindE (search_by ga mid hi) (\<lambda>right. retE (max_by_gen left right)))
        else if gen_gt (entry_of c) None then bisect_by ga mid hi mid (entry_of c) else bisect_by ga lo (mid - 1) ls None"
    have run: "bindE (ga mid) ?f s = (r, s')" using less.prems(3) False
      unfolding bisect_by.simps [of ga lo hi] Let_def mid_def [symmetric] by simp
    have c: "cls s mid = Empty" using less.prems(2) mid by simp
    show ?thesis
    proof (cases rule: ga_bind [OF run less.prems(1)])
      case (1 e)
      then show ?thesis by simp
    next
      case (2 s1)
      have "bisect_by ga lo (mid - 1) ls None s1 = (r, s')" using 2(3) c by (simp add: entry_of_def gen_gt_def)
      then show ?thesis by (rule less.hyps [rotated -1]) (use mid 2 less.prems(2) in auto)
    qed
  qed
qed

lemma search_empty:
  assumes "oks s" and "\<forall>k. lo \<le> k \<longrightarrow> k \<le> hi \<longrightarrow> cls s k = Empty" and "search_by ga lo hi s = (r, s')"
  shows "oks s' \<and> (\<forall>x. r = Inr x \<longrightarrow> x = None)"
proof (cases "lo > hi")
  case True
  then show ?thesis using assms by (auto simp: search_by.simps [of ga lo hi] retE_def)
next
  case False
  then have run: "bindE (ga lo) (\<lambda>c. if c = ClsCorrupt then search_by ga (lo + 1) hi else bisect_by ga lo hi lo (entry_of c)) s = (r, s')"
    using assms(3) by (simp add: search_by.simps [of ga lo hi])
  have c: "cls s lo = Empty" using assms(2) False by simp
  show ?thesis
  proof (cases rule: ga_bind [OF run assms(1)])
    case (1 e)
    then show ?thesis by simp
  next
    case (2 s1)
    then show ?thesis using bisect_empty [of s1 lo hi lo r s'] c assms(2) by (simp add: entry_of_def)
  qed
qed

end

lemma head_search_empty:
  assumes ok: "ring_ok r" and e: "\<forall>k < ring_n r. ring_cls E r k = Empty" and run: "head_search E r = (Inr x, r')"
  shows "x = None \<and> ring_read_only r r'"
proof -
  have "slot_source (gen_at E) (\<lambda>_. ring_cls E r) (ring_read_only r) (\<lambda>_ _. False)"
  proof
    show "ring_read_only r s' \<and> ring_cls E r = ring_cls E r" if "ring_read_only r s" "gen_at E k s = (q, s')" for s k q s'
      using gen_at_read_only [OF that(2)] that(1) by (auto simp: ring_read_only_def intro: rests_trans)
    show "c = ring_cls E r k" if "ring_read_only r s" "gen_at E k s = (Inr c, s')" for s k c s'
      using rslots.ga_ok [of s E k c s'] that by (simp add: ring_read_only_def ring_cls_def)
  qed simp
  note se = slot_source.search_empty [OF this, of r 0 "ring_n r - 1" "Inr x" r']
  have "0 < ring_n r" by (simp add: ring_n_def)
  then have "\<forall>k. 0 \<le> k \<longrightarrow> k \<le> ring_n r - 1 \<longrightarrow> ring_cls E r k = Empty" using e by auto
  moreover have "ring_read_only r r" using ok by (simp add: ring_read_only_def rests_refl)
  ultimately show ?thesis using se run by (simp add: head_search_def)
qed

section \<open>Zeroing the ring\<close>

lemma zero_ring_spec:
  assumes run: "zero_ring_at rl base m = (Inr u, m')" and wf: "wf_mirror m" and fit: "base + 2 ^ rl \<le> U64"
  shows "wf_mirror m' \<and> rcount m' = rcount m \<and> (\<forall>k < 2 ^ rl. view m' (base + k) = ZERO_BLOCK)
    \<and> (\<forall>l. base + 2 ^ rl \<le> l \<longrightarrow> view m' l = view m l)"
proof -
  have "wf_mirror m2 \<and> rcount m2 = rcount m1 \<and> (\<forall>k \<in> set ks. view m2 (base + k) = ZERO_BLOCK)
      \<and> (\<forall>k. (\<forall>j \<in> set ks. k \<noteq> base + j) \<longrightarrow> view m2 k = view m1 k)"
    if "forE ks (\<lambda>slot. write_verified (wadd base slot) ZERO_BLOCK) m1 = (Inr u, m2)" "wf_mirror m1" "\<forall>k \<in> set ks. k < 2 ^ rl" "distinct ks" for ks m1 m2 u
    using that
  proof (induction ks arbitrary: m1)
    case Nil
    then show ?case by (simp add: retE_def)
  next
    case (Cons k ks)
    have a: "wadd base k = base + k" using Cons.prems(3) fit by (intro wadd_eq) auto
    obtain m3 where w: "write_verified (base + k) ZERO_BLOCK m1 = (Inr (), m3)"
      and rest: "forE ks (\<lambda>slot. write_verified (wadd base slot) ZERO_BLOCK) m3 = (Inr u, m2)"
      using Cons.prems(1) a by (auto simp: bindE_def split: prod.splits sum.splits)
    note sp = write_verified_spec [OF w Cons.prems(2)]
    have ih: "wf_mirror m2 \<and> rcount m2 = rcount m3 \<and> (\<forall>k \<in> set ks. view m2 (base + k) = ZERO_BLOCK)
      \<and> (\<forall>k. (\<forall>j \<in> set ks. k \<noteq> base + j) \<longrightarrow> view m2 k = view m3 k)"
      by (rule Cons.IH [OF rest]) (use sp Cons.prems in auto)
    have "\<forall>j \<in> set ks. base + k \<noteq> base + j" using Cons.prems(4) by auto
    then have "view m2 (base + k) = view m3 (base + k)" using ih by blast
    then show ?case using ih sp by auto
  qed
  from this [OF run [unfolded zero_ring_at_def] wf] show ?thesis by auto
qed

section \<open>Genesis\<close>

lemma genesis_entry_ok:
  assumes "1 \<le> rl" "rl \<le> 32" "0 < n" "n < U64" "- (2 ^ 63) \<le> now" "now < 2 ^ 63"
  shows "spine_wf (genesis_entry rl n now)" "spine_sane (genesis_entry rl n now)"
  using assms by (auto simp: spine_wf_def spine_sane_def genesis_entry_def)

lemma genesis_safe:
  assumes run: "genesis E m rl now policy = (Inr v, m')" and E: "vsf_ok E" and wf: "wf_mirror m"
    and rl: "1 \<le> rl" "rl \<le> 32" and cnt: "mirror_block_count m < 2 ^ 63" and now: "- (2 ^ 63) \<le> now" "now < 2 ^ 63"
  shows "safe E v (genesis_entry rl (mirror_block_count m - 2 ^ rl) now) Map.empty Map.empty" and "fixed_profile v"
    and "m_pending (st_mirror v) = []" and "v_log2 v = rl"
proof -
  let ?n = "2 ^ rl" and ?total = "mirror_block_count m" and ?e = "genesis_entry rl (mirror_block_count m - 2 ^ rl) now"
  have big: "?n < ?total" using run by (auto simp: genesis_def Let_def split: if_splits)
  have fit: "0 + ?n \<le> U64" using big cnt by simp
  obtain u m1 where z: "zero_ring_at rl 0 m = (Inr u, m1)" using run big by (auto simp: genesis_def Let_def bindM_def split: prod.splits sum.splits)
  note zs = zero_ring_spec [OF z wf fit]
  let ?r0 = "\<lparr>r_mirror = m1, r_log2 = rl, r_base = 0, r_head = None\<rparr>"
  have r0: "ring_ok ?r0" "ring_n ?r0 = ?n" "ring_fits ?r0" using zs fit by (simp_all add: ring_ok_def ring_n_def ring_fits_def)
  have small: "wadd 0 k = k" if "k < ?n" for k using that fit by (simp add: wadd_def)
  have empty: "ring_cls E ?r0 k = Empty" if "k < ring_n ?r0" for k
    using that zs r0(2) small by (simp add: ring_cls_def classify_def)
  obtain x r1 where hs: "head_search E ?r0 = (Inr x, r1)" and rest: "first_entry E rl ?n (?total - ?n) now None policy (r1\<lparr>r_head := x\<rparr>) = (Inr v, m')"
    using run big z by (auto simp: genesis_def Let_def bindM_def with_ring_def ring_open_at_def bindE_def modE_def getE_def split: prod.splits sum.splits)
  have x: "x = None" and ro: "ring_read_only ?r0 r1" using head_search_empty [OF r0(1) _ hs] empty by auto
  let ?r1 = "r1\<lparr>r_head := x\<rparr>"
  have inv: "ring_inv E ?r1" using ro r0 x empty by (auto simp: ring_inv_def ring_read_only_def ring_ok_def ring_fits_def ring_n_def ring_cls_def)
  note ge = genesis_entry_ok [of rl "?total - ?n" now]
  have ge: "spine_wf ?e" "spine_sane ?e" using ge rl big cnt now by auto
  obtain r2 where ap: "ring_append E ?e ?r1 = (Inr (), r2)" and v: "v = new_vault r2 (genesis_tract ?n (?total - ?n)) None policy"
    using rest by (auto simp: first_entry_def split: prod.splits sum.splits)
  have ai: "ring_inv E r2 \<and> r_head r2 = Some (se_gen ?e mod ring_n ?r1, ?e)" by (rule ring_append_inv [OF ap E ge inv]) (simp add: x)
  have g0: "se_gen ?e = 0" by (simp add: genesis_entry_def)
  obtain m2 where w: "write_verified (wadd (r_base ?r1) (ring_slot (r_log2 ?r1) (se_gen ?e))) (doc_block E SCHEMA (spine_pairs ?e)) (r_mirror ?r1) = (Inr (), m2)"
    and r2: "r2 = ?r1\<lparr>r_mirror := m2, r_head := Some (ring_slot (r_log2 ?r1) (se_gen ?e), ?e)\<rparr>" by (rule ring_append_cases [OF ap E ge(1)])
  have w1: "wf_mirror (r_mirror ?r1)" using ro by (simp add: ring_read_only_def ring_ok_def)
  have len: "length (doc_block E SCHEMA (spine_pairs ?e)) = BLOCK" using spine_doc(2) [OF E ge(1)] length_doc_block [OF E] by simp
  note sp = write_verified_spec [OF w w1 len]
  have p: "m_pending m2 = []" "wf_mirror m2" using sp by blast+
  have f: "r_log2 r2 = rl" "r_base r2 = 0" "r_mirror r2 = m2" using ro r2 by (simp_all add: ring_read_only_def)
  have vf: "st_mirror v = m2" "v_log2 v = rl" "v_base v = 0" "st_tract v = genesis_tract ?n (?total - ?n)" "h_root v = None" "v_root v = None" "v_pending_reap v = None"
    using f by (simp_all add: v new_vault_def)
  show "m_pending (st_mirror v) = []" "v_log2 v = rl" using p vf by simp_all
  show "fixed_profile v" using vf by (simp add: fixed_profile_def genesis_tract_def)
  have "ring_of v = r2" by (cases r2) (simp add: v new_vault_def ring_of_def)
  moreover have "v_head v = r_head r2" by (simp add: v new_vault_def)
  ultimately have rinv: "ring_inv E (ring_of v)" "v_head v = Some (0, ?e)" using ai g0 by simp_all
  have tw: "tract_wf (genesis_tract ?n (?total - ?n))" "?total - ?n < 2 ^ 63" using big cnt by (auto simp: tract_wf_def genesis_tract_def)
  have i: "index_map E v Map.empty" using E p tw vf by (auto simp: index_map_def holds_def store_ok_def genesis_tract_def intro!: exI [where x = None])
  have ok: "vault_ok E v Map.empty" using i rinv rl vf by (simp add: vault_ok_def genesis_tract_def)
  have dr: "ring_inv E (disk_ring v ?e)"
    by (rule ring_inv_frame [OF rinv(1)]) (use rebooted_wf [OF p(2)] vf rinv g0 no_pending_view [OF p(1)] in auto)
  have ht: "head_tract (st_tract v) ?e = genesis_tract ?n (?total - ?n)" using vf by (simp add: head_tract_def genesis_entry_def genesis_tract_def)
  have "index_map E (head_index (rebooted (st_mirror v)) (st_tract v) ?e) Map.empty"
    unfolding head_index_def ht using E rebooted_wf [OF p(2)] tw vf
    by (auto simp: index_map_def holds_def store_ok_def from_root_def genesis_entry_def genesis_tract_def intro!: exI [where x = None])
  then have d: "durable E v ?e Map.empty" using dr vf by (simp add: durable_def genesis_entry_def)
  have "find_staged (st_mirror v) l = None" for l using p vf by (simp add: find_staged_def)
  then show "safe E v ?e Map.empty Map.empty" using ok d rinv ht vf by (simp add: safe_def) (simp add: genesis_entry_def genesis_tract_def)
qed

section \<open>On a healthy device genesis succeeds\<close>

text \<open>A mirror of one healthy device with nothing staged.\<close>

definition prime :: "mirror \<Rightarrow> bool" where
  "prime m \<longleftrightarrow> wf_mirror m \<and> (\<exists>a. m_a m = Some a \<and> healthy a) \<and> m_b m = None \<and> m_pending m = []"

lemma prime_facts:
  assumes "prime m"
  shows "wf_mirror m" "quiet_mirror m" "m_pending m = []" "mirror_block_count m = rcount m" "l < rcount m \<Longrightarrow> readable m l"
  using assms by (auto simp: prime_def quiet_mirror_def rdev_def mirror_block_count_def rcount_def readable_def)

lemma prime_read:
  assumes "prime m" and "mirror_read l m = (r, m')"
  shows "m' = m"
proof -
  obtain a where a: "m_a m = Some a" "healthy a" "m_pending m = []" using assms(1) by (auto simp: prime_def)
  then have "on_a (dev_read l) m = (r, m')" using assms(2) by (simp add: mirror_read_def find_staged_def on_first_def)
  then show ?thesis using a dev_read_still [OF a(2)] by (cases m) (auto simp: on_a_def split: prod.splits)
qed

lemma prime_write:
  assumes p: "prime m" and l: "l < rcount m" and b: "length b = BLOCK"
  shows "\<exists>m'. write_verified l b m = (Inr (), m') \<and> prime m' \<and> rcount m' = rcount m"
proof -
  obtain a where a: "m_a m = Some a" "healthy a" "m_b m = None" "m_pending m = []" "wf_dev a" using p by (auto simp: prime_def wf_mirror_def)
  obtain a' where a': "dev_write_one l b a = (Inr (), a')" "healthy a'"
    using fdev.write_one_quiet [OF a(5,2) _ b, of l] a(1) l unfolding dev_write_one_def by (auto simp: rcount_def rdev_def)
  let ?m = "(forget l m)\<lparr>m_a := Some a'\<rparr>"
  have "write_verified l b m = (Inr (), ?m)"
    using a a' by (simp add: write_verified_def drain_def run_simps bindE_def primary_then_secondary_def on_a_def secondary_def)
  moreover from this have "wf_mirror ?m \<and> rcount ?m = rcount m" using write_verified_spec [OF _ prime_facts(1) [OF p] b] by blast
  moreover have "m_b ?m = None" "m_pending ?m = []" using a by simp_all
  ultimately show ?thesis using a'(2) by (intro exI [where x = ?m]) (simp add: prime_def)
qed

lemma prime_zero_ring:
  assumes "prime m" and "base + 2 ^ rl \<le> rcount m" and "rcount m < U64"
  shows "\<exists>m'. zero_ring_at rl base m = (Inr (), m') \<and> prime m' \<and> rcount m' = rcount m"
proof -
  have "\<exists>m'. forE ks (\<lambda>slot. write_verified (wadd base slot) ZERO_BLOCK) m1 = (Inr (), m') \<and> prime m' \<and> rcount m' = rcount m1"
    if "prime m1" "rcount m1 = rcount m" "\<forall>k \<in> set ks. k < 2 ^ rl" for ks m1
    using that
  proof (induction ks arbitrary: m1)
    case Nil
    then show ?case by (simp add: retE_def)
  next
    case (Cons k ks)
    have k: "base + k < rcount m1" "wadd base k = base + k" using Cons.prems assms(2,3) by (auto intro!: wadd_eq)
    obtain m2 where m2: "write_verified (base + k) ZERO_BLOCK m1 = (Inr (), m2)" "prime m2" "rcount m2 = rcount m1"
      using prime_write [OF Cons.prems(1) k(1) length_ZERO_BLOCK] by blast
    then obtain m3 where "forE ks (\<lambda>slot. write_verified (wadd base slot) ZERO_BLOCK) m2 = (Inr (), m3)" "prime m3" "rcount m3 = rcount m2"
      using Cons.IH [of m2] Cons.prems by auto
    then show ?case using m2 k(2) by (simp add: bindE_def)
  qed
  from this [OF assms(1)] show ?thesis unfolding zero_ring_at_def by simp
qed

lemma genesis_runs:
  assumes p: "prime m" and rl: "1 \<le> rl" "rl \<le> 32" "2 ^ rl < rcount m" and cnt: "rcount m < 2 ^ 63" and E: "vsf_ok E"
    and now: "- (2 ^ 63) \<le> now" "now < 2 ^ 63"
  shows "\<exists>v. genesis E m rl now policy = (Inr v, st_mirror v) \<and> prime (st_mirror v) \<and> rcount (st_mirror v) = rcount m
    \<and> rcontent (st_mirror v) 0 = doc_block E SCHEMA (spine_pairs (genesis_entry rl (rcount m - 2 ^ rl) now))
    \<and> (\<forall>l. 0 < l \<longrightarrow> l < 2 ^ rl \<longrightarrow> rcontent (st_mirror v) l = ZERO_BLOCK)
    \<and> (\<forall>l \<ge> 2 ^ rl. rcontent (st_mirror v) l = rcontent m l)"
proof -
  let ?n = "2 ^ rl" and ?e = "genesis_entry rl (rcount m - 2 ^ rl) now"
  obtain m1 where z: "zero_ring_at rl 0 m = (Inr (), m1)" and p1: "prime m1" "rcount m1 = rcount m"
    using prime_zero_ring [OF p, of 0 rl] rl cnt by auto
  have zs: "\<forall>k < ?n. view m1 k = ZERO_BLOCK" "\<forall>l. ?n \<le> l \<longrightarrow> view m1 l = view m l"
    using zero_ring_spec [OF z prime_facts(1) [OF p]] rl cnt by auto
  let ?r0 = "\<lparr>r_mirror = m1, r_log2 = rl, r_base = 0, r_head = None\<rparr>"
  have ok: "ring_ok ?r0" "ring_n ?r0 = ?n" using p1 by (simp_all add: ring_ok_def ring_n_def prime_def)
  have small: "wadd 0 k = k" if "k < ?n" for k using that rl cnt by (simp add: wadd_def)
  have empty: "ring_cls E ?r0 k = Empty" if "k < ring_n ?r0" for k
    using that zs ok(2) small by (simp add: ring_cls_def classify_def)
  have "\<forall>k < ring_n ?r0. slot_readable ?r0 k" using prime_facts(5) [OF p1(1)] p1(2) rl ok(2) small by (auto simp: slot_readable_def)
  then obtain x r1 where hs: "head_search E ?r0 = (Inr x, r1)" using head_search_total [OF ok(1)] by blast
  have x: "x = None" using head_search_empty [OF ok(1) _ hs] empty by auto
  have r1: "r1 = ?r0"
  proof -
    have "slot_source (gen_at E) (\<lambda>_. ring_cls E ?r0) (\<lambda>s. s = ?r0) (\<lambda>_ _. False)"
      by unfold_locales (use prime_read [OF p1(1)] rslots.ga_ok [OF ok(1)] in \<open>auto simp: gen_at_run split: prod.splits sum.splits\<close>)
    note se = slot_source.search_empty [OF this, of ?r0 0 "ring_n ?r0 - 1" "Inr x" r1]
    have "0 < ring_n ?r0" by (simp add: ring_n_def)
    then have "\<forall>k. 0 \<le> k \<longrightarrow> k \<le> ring_n ?r0 - 1 \<longrightarrow> ring_cls E ?r0 k = Empty" using empty by auto
    then show ?thesis using se hs by (simp add: head_search_def)
  qed
  have ge: "spine_wf ?e" "spine_sane ?e" using genesis_entry_ok [of rl "rcount m - ?n" now] rl cnt now by auto
  let ?b = "doc_block E SCHEMA (spine_pairs ?e)"
  have len: "length ?b = BLOCK" using spine_doc(2) [OF E ge(1)] length_doc_block [OF E] by simp
  have "0 < rcount m1" using rl p1(2) by simp
  then obtain m2 where w: "write_verified 0 ?b m1 = (Inr (), m2)" "prime m2" "rcount m2 = rcount m1" using prime_write [OF p1(1) _ len] by blast
  have "ring_append_check E ?r0 ?e = Inr ()" by (simp add: ring_append_check_def genesis_entry_def)
  moreover have g0: "se_gen ?e = 0" by (simp add: genesis_entry_def)
  ultimately have ap: "ring_append E ?e ?r0 = (Inr (), ?r0\<lparr>r_mirror := m2, r_head := Some (ring_slot rl 0, ?e)\<rparr>)"
    using w(1) by (simp add: ring_append_def Let_def spine_encode_eq [OF E ge(1)] bindE_def liftE_def on_mirror_def modE_def g0 ring_slot_def)
  let ?v = "new_vault (?r0\<lparr>r_mirror := m2, r_head := Some (ring_slot rl 0, ?e)\<rparr>) (genesis_tract ?n (rcount m - ?n)) None policy"
  have "genesis E m rl now policy = (Inr ?v, m2)"
    using rl z hs ap prime_facts(4) [OF p] x
    by (simp add: genesis_def Let_def bindM_def with_ring_def ring_open_at_def bindE_def modE_def getE_def r1 first_entry_def)
  moreover have "st_mirror ?v = m2" by (simp add: new_vault_def)
  moreover have "rcontent m2 = (view m1)(0 := ?b)"
    using write_verified_spec [OF w(1) prime_facts(1) [OF p1(1)] len] no_pending_view [of m2] prime_facts(3) [OF w(2)] by auto
  moreover have "view m = rcontent m" by (rule no_pending_view [OF prime_facts(3) [OF p]])
  ultimately show ?thesis using w p1(2) zs by (intro exI [where x = ?v]) auto
qed

section \<open>A concrete vault\<close>

definition solo :: "nat \<Rightarrow> mirror" where
  "solo n = \<lparr>m_a = Some (fresh_dev n), m_b = None, m_degraded = True, m_events = [], m_pending = [], m_cache = [], m_uses = 0\<rparr>"

lemma solo_prime: "n < U64 \<Longrightarrow> prime (solo n)" "rcount (solo n) = n" "l < n \<Longrightarrow> rcontent (solo n) l = ZERO_BLOCK"
  by (auto simp: prime_def solo_def wf_mirror_def rdev_def cache_ok_def staged_def rcount_def rcontent_def dev_content_def)

lemma zero_undecodable: "root_decode E ZERO_BLOCK \<noteq> Inr e" "classify E ZERO_BLOCK k rl = Empty"
proof -
  have "take 4 ZERO_BLOCK = replicate 4 0" by (simp add: ZERO_BLOCK_def BLOCK_def)
  also have "\<dots> = [0, 0, 0, 0]" by (simp add: numeral_eq_Suc)
  also have "\<dots> \<noteq> MAGIC" by (simp add: MAGIC_def)
  finally have "take 4 ZERO_BLOCK \<noteq> MAGIC" .
  then show "root_decode E ZERO_BLOCK \<noteq> Inr e" by (simp add: root_decode_def decode_header_def bindR_def)
  show "classify E ZERO_BLOCK k rl = Empty" by (simp add: classify_def)
qed

lemma classify_unknown: "classify E b slot (Some rl) = Valid e \<Longrightarrow> classify E b slot None = Valid e"
  by (auto simp: classify_def Let_def split: if_splits sum.splits)

lemma spine_not_root:
  assumes "vsf_ok E" and "spine_wf e"
  shows "root_decode E (doc_block E SCHEMA (spine_pairs e)) \<noteq> Inr r"
proof -
  have "body_start E - 1 + 1 = body_start E" using body_start_ge [of E] by simp
  then have "\<exists>err. decode_header E SCHEMA_ROOT (doc_block E SCHEMA (spine_pairs e)) = Inl err"
    using doc_block_header [OF assms(1), of SCHEMA "spine_pairs e"] doc_block_schema [OF assms(1) spine_doc(1) [OF assms]]
    by (simp add: decode_header_def) (simp add: SCHEMA_def SCHEMA_ROOT_def)
  then show ?thesis by (auto simp: root_decode_def bindR_def)
qed

text \<open>A vault of four ring slots and twelve tract blocks, newly made.\<close>

lemma new_solo:
  obtains v where "genesis ref_env (solo 16) 2 0 UnlinkOnly = (Inr v, st_mirror v)"
    "safe ref_env v (genesis_entry 2 12 0) Map.empty Map.empty" "fixed_profile v" "v_log2 v = 2" "prime (st_mirror v)" "torn (st_mirror v) = {}"
    "mirror_block_count (rebooted (st_mirror v)) = 16" "rootless ref_env (rebooted (st_mirror v))" "boots ref_env (rebooted (st_mirror v)) 2"
proof -
  let ?e = "genesis_entry 2 12 0"
  have p: "prime (solo 16)" "rcount (solo 16) = 16" using solo_prime [of 16] by simp_all
  have ge: "spine_wf ?e" "spine_sane ?e" using genesis_entry_ok [of 2 12 0] by simp_all
  obtain v where v: "genesis ref_env (solo 16) 2 0 UnlinkOnly = (Inr v, st_mirror v)" "prime (st_mirror v)" "rcount (st_mirror v) = 16"
    "rcontent (st_mirror v) 0 = doc_block ref_env SCHEMA (spine_pairs ?e)" "\<forall>l. 0 < l \<longrightarrow> l < 4 \<longrightarrow> rcontent (st_mirror v) l = ZERO_BLOCK"
    "\<forall>l \<ge> 4. rcontent (st_mirror v) l = rcontent (solo 16) l"
    using genesis_runs [OF p(1), of 2 ref_env 0 UnlinkOnly] p(2) ref_env_ok by auto
  have zero: "rcontent (st_mirror v) l = ZERO_BLOCK" if "0 < l" "l < 16" for l
    using v(5,6) solo_prime(3) [of l 16] that by (cases "l < 4") auto
  have safe: "safe ref_env v ?e Map.empty Map.empty" and fp: "fixed_profile v" and log: "v_log2 v = 2"
    using genesis_safe [OF v(1) ref_env_ok] p prime_facts(1,4) [OF p(1)] by simp_all
  have tn: "torn (st_mirror v) = {}" using v(2) by (auto simp: prime_def torn_def rdev_def torn_of_def healthy_def)
  have cnt: "mirror_block_count (rebooted (st_mirror v)) = 16" using v(2,3) by (auto simp: prime_def mirror_block_count_def rcount_def rdev_def)
  have "root_decode ref_env (rcontent (st_mirror v) l) \<noteq> Inr x" if "l < ROOT_SLOTS" for l x
    using spine_not_root [OF ref_env_ok ge(1)] zero_undecodable(1) v(4) zero [of l] that by (cases "l = 0") (auto simp: ROOT_SLOTS_def)
  then have root: "rootless ref_env (rebooted (st_mirror v))" by (simp add: rootless_def)
  have c0: "classify ref_env (rcontent (st_mirror v) 0) 0 None = Valid ?e"
    using classify_encoded [OF ref_env_ok ge] v(4) by (intro classify_unknown [of _ _ _ 2]) (simp add: genesis_entry_def ring_slot_def)
  have "classify ref_env (rcontent (st_mirror v) l) l None = Valid x \<Longrightarrow> se_ring_log2 x = 2" if "l < 16" for l x
    using c0 zero [of l] zero_undecodable(2) [of ref_env l None] that by (cases "l = 0") (auto simp: genesis_entry_def)
  then have boot: "boots ref_env (rebooted (st_mirror v)) 2" using c0 cnt by (auto simp: boots_def intro!: exI [where x = 0])
  show thesis by (rule that [OF v(1) safe fp log v(2) tn cnt root boot])
qed

end
