(* ===== verification/Replicate.thy ===== *)
theory Replicate
  imports Vault_Model
begin

text \<open>
  Mirror resync (\<open>verified_replicate\<close> of \<open>src/vault.rs\<close>): the device whose spine holds the newer
  generation wins, and the loser is brought up to it block by block, each differing block written,
  flushed, read back and compared.
\<close>

section \<open>Layout of one device\<close>

record DeviceLayout =
  dl_spine_base :: nat
  dl_tract_base :: nat
  dl_has_root :: bool

primrec best_gen_slots :: "vsf_env \<Rightarrow> nat \<Rightarrow> nat \<Rightarrow> nat list \<Rightarrow> nat option \<Rightarrow> nat \<Rightarrow> (filedev, nat option \<times> nat) op" where
  "best_gen_slots E ring_log2 base [] best slot_of_best = retE (best, slot_of_best)"
| "best_gen_slots E ring_log2 base (slot # slots) best slot_of_best =
     bindE (dev_read (wadd base slot)) (\<lambda>buf. case classify E buf slot (Some ring_log2) of
       Valid e \<Rightarrow>
         (if (case best of None \<Rightarrow> True | Some g \<Rightarrow> se_gen e > g)
          then best_gen_slots E ring_log2 base slots (Some (se_gen e)) slot
          else best_gen_slots E ring_log2 base slots best slot_of_best)
     | _ \<Rightarrow> best_gen_slots E ring_log2 base slots best slot_of_best)"

definition best_gen :: "vsf_env \<Rightarrow> nat \<Rightarrow> nat \<Rightarrow> nat \<Rightarrow> (filedev, nat option \<times> nat) op" where
  "best_gen E n ring_log2 base = (\<lambda>d. best_gen_slots E ring_log2 base [0 ..< min (fd_blocks d - base) n] None 0 d)"

text \<open>The order of \<open>Option<u64>\<close>: \<open>None\<close> is least.\<close>

definition gen_ge :: "nat option \<Rightarrow> nat option \<Rightarrow> bool" where
  "gen_ge a b = (case (a, b) of (_, None) \<Rightarrow> True | (None, Some _) \<Rightarrow> False | (Some x, Some y) \<Rightarrow> x \<ge> y)"

definition resolve_layout :: "vsf_env \<Rightarrow> nat \<Rightarrow> (filedev, DeviceLayout \<times> nat option \<times> nat) op" where
  "resolve_layout E ring_log2 = (let n = 2 ^ ring_log2 in
     bindE (read_root E) (\<lambda>root. case root of
       Some root \<Rightarrow>
         bindE (best_gen E n ring_log2 (re_at root)) (\<lambda>(gen_at, slot_at).
         bindE (best_gen E n ring_log2 (re_was root)) (\<lambda>(gen_was, slot_was).
         let (gen, slot, base) = (if gen_ge gen_at gen_was then (gen_at, slot_at, re_at root) else (gen_was, slot_was, re_was root)) in
         retE (\<lparr>dl_spine_base = base, dl_tract_base = wadd ROOT_SLOTS (wmul (re_residences root) (2 ^ re_ring_log2 root)), dl_has_root = True\<rparr>,
           gen, slot)))
     | None \<Rightarrow>
         bindE (best_gen E n ring_log2 0) (\<lambda>(gen, slot).
         retE (\<lparr>dl_spine_base = 0, dl_tract_base = n, dl_has_root = False\<rparr>, gen, slot))))"

section \<open>Verified writes on one device\<close>

definition write_verified_one :: "nat \<Rightarrow> block \<Rightarrow> (filedev, unit) op" where
  "write_verified_one lba buf =
     bindE (dev_write lba buf) (\<lambda>_. bindE dev_flush (\<lambda>_. bindE (dev_read lba) (\<lambda>check.
     if check = buf then retE ()
     else bindE (dev_write lba buf) (\<lambda>_. bindE dev_flush (\<lambda>_. bindE (dev_read lba) (\<lambda>check.
       if check = buf then retE () else raiseE (Verify lba)))))))"

definition write_verified_batch_solo :: "(nat \<times> block) list \<Rightarrow> (filedev, nat) op" where
  "write_verified_batch_solo blocks =
     (if blocks = [] then retE 0
      else bindE (forE blocks (\<lambda>(lba, b). dev_write lba b)) (\<lambda>_.
        bindE dev_flush (\<lambda>_.
        bindE (forE blocks (\<lambda>(lba, b). bindE (dev_read lba) (\<lambda>check.
          if check \<noteq> b then write_verified_one lba b else retE ()))) (\<lambda>_.
        retE (length blocks)))))"

section \<open>Converging the loser\<close>

record pair =
  p_src :: filedev
  p_dst :: filedev

definition on_src :: "(filedev, 'x) op \<Rightarrow> (pair, 'x) op" where
  "on_src f = (\<lambda>p. case f (p_src p) of (x, d) \<Rightarrow> (x, p\<lparr>p_src := d\<rparr>))"

definition on_dst :: "(filedev, 'x) op \<Rightarrow> (pair, 'x) op" where
  "on_dst f = (\<lambda>p. case f (p_dst p) of (x, d) \<Rightarrow> (x, p\<lparr>p_dst := d\<rparr>))"

record Replicated =
  spine_copied :: nat
  tract_copied :: nat

text \<open>One position: copied when the bytes differ; the number of blocks copied.\<close>

definition converge_block :: "nat \<Rightarrow> (pair, nat) op" where
  "converge_block addr =
     bindE (on_src (dev_read addr)) (\<lambda>sbuf. bindE (on_dst (dev_read addr)) (\<lambda>dbuf.
     if sbuf \<noteq> dbuf then bindE (on_dst (write_verified_one addr sbuf)) (\<lambda>_. retE 1) else retE 0))"

definition converge_blocks :: "nat list \<Rightarrow> (pair, nat) op" where
  "converge_blocks addrs = bindE (mapE converge_block addrs) (\<lambda>ns. retE (sum_list ns))"

text \<open>The winner's committed live positions, in order, by the tree walk over a mirror of it alone;
  \<open>None\<close> when it has no head.\<close>

definition winner_live :: "vsf_env \<Rightarrow> nat \<Rightarrow> DeviceLayout \<Rightarrow> (filedev, (nat list) option) op" where
  "winner_live E ring_log2 layout = (\<lambda>d. case mirror_from_parts (Some d) None of
     Inl e \<Rightarrow> (Inl e, d)
   | Inr solo \<Rightarrow>
       (let dev = (\<lambda>m. case m_a m of Some d' \<Rightarrow> d' | None \<Rightarrow> d) in
        case ring_open_at E solo ring_log2 (dl_spine_base layout) of
          (Inl e, r) \<Rightarrow> (Inl e, dev (r_mirror r))
        | (Inr ring, _) \<Rightarrow> (case r_head ring of
            None \<Rightarrow> (Inr None, dev (r_mirror ring))
          | Some (_, head) \<Rightarrow> (case checked_add (dl_tract_base layout) (se_tract_blocks head) of
              None \<Rightarrow> (Inl (Corrupt ''committed geometry overflows the device address''), dev (r_mirror ring))
            | Some need \<Rightarrow>
                if mirror_block_count (r_mirror ring) < need then (Inl (Corrupt ''winner truncated''), dev (r_mirror ring))
                else
                  (let t = \<lparr>t_base = dl_tract_base layout, t_len = se_tract_blocks head, t_plow = se_plow head,
                         t_reap = (case se_reap head of Some r \<Rightarrow> r | None \<Rightarrow> se_plow head), t_fence_limit = None\<rparr> in
                   case walk_tree_collect E (walk_begin [] (from_root (r_mirror ring) t (se_hamt_hash head) (se_hamt_lba head))) of
                     (Inl e, w) \<Rightarrow> (Inl e, dev (st_mirror w))
                   | (Inr _, w) \<Rightarrow> (Inr (Some (remdups_adj (sort (map fst (w_out w) @ w_referenced w)))), dev (st_mirror w)))))))"

definition STEP :: nat where
  "STEP = 2 ^ 8"

text \<open>The runs of consecutive positions, each at most \<open>STEP\<close> long, as \<open>(start, length)\<close>.\<close>

definition run_cut :: "nat list \<Rightarrow> nat \<Rightarrow> nat \<times> (nat \<times> nat) list \<Rightarrow> nat \<times> (nat \<times> nat) list" where
  "run_cut live i = (\<lambda>(start, out).
     if i < length live \<and> live ! i = wadd (live ! (i - 1)) 1 \<and> i - start < STEP then (start, out)
     else (i, out @ [(live ! start, i - start)]))"

definition live_runs :: "nat list \<Rightarrow> (nat \<times> nat) list" where
  "live_runs live = snd (fold (run_cut live) [1 ..< length live + 1] (0, []))"

text \<open>The blocks of a run to copy: those that differ and verify on the winner.\<close>

definition to_fix :: "vsf_env \<Rightarrow> nat \<Rightarrow> block list \<Rightarrow> block list \<Rightarrow> (nat \<times> block) list" where
  "to_fix E at sbufs dbufs = concat (map (\<lambda>(k, s, d). if s \<noteq> d \<and> sealed_hp E s \<noteq> None then [(wadd at k, s)] else [])
     (enumerate 0 (zip sbufs dbufs)))"

primrec fix_runs :: "vsf_env \<Rightarrow> nat \<Rightarrow> (nat \<times> nat) list \<Rightarrow> (nat \<times> block) list \<Rightarrow> nat \<Rightarrow> (pair, nat) op" where
  "fix_runs E tract_base [] fx copied = bindE (on_dst (write_verified_batch_solo fx)) (\<lambda>k. retE (copied + k))"
| "fix_runs E tract_base (r # rs) fx copied =
     (let at = wadd tract_base (fst r) in
      bindE (on_src (dev_read_run at (snd r))) (\<lambda>sbufs. bindE (on_dst (dev_read_run at (snd r))) (\<lambda>dbufs.
      let fx' = fx @ to_fix E at sbufs dbufs in
      if length fx' \<ge> STEP
      then bindE (on_dst (write_verified_batch_solo fx')) (\<lambda>k. fix_runs E tract_base rs [] (copied + k))
      else fix_runs E tract_base rs fx' copied)))"

definition replicate_into :: "vsf_env \<Rightarrow> nat \<Rightarrow> (pair, Replicated) op" where
  "replicate_into E ring_log2 = (\<lambda>p.
     bindE (if fd_blocks (p_dst p) < fd_blocks (p_src p) then on_dst (dev_grow (fd_blocks (p_src p))) else retE ()) (\<lambda>_.
     bindE (on_src (resolve_layout E ring_log2)) (\<lambda>(layout, _, _).
     bindE (if dl_has_root layout then converge_blocks [0 ..< ROOT_SLOTS] else retE 0) (\<lambda>roots.
     bindE (converge_blocks (map (wadd (dl_spine_base layout)) [0 ..< 2 ^ ring_log2])) (\<lambda>spines.
     bindE (on_src (winner_live E ring_log2 layout)) (\<lambda>live. case live of
       None \<Rightarrow> retE \<lparr>spine_copied = roots + spines, tract_copied = 0\<rparr>
     | Some live \<Rightarrow> bindE (fix_runs E (dl_tract_base layout) (live_runs live) [] 0) (\<lambda>copied.
         retE \<lparr>spine_copied = roots + spines, tract_copied = copied\<rparr>)))))) p)"

definition swap_pair :: "pair \<Rightarrow> pair" where
  "swap_pair p = \<lparr>p_src = p_dst p, p_dst = p_src p\<rparr>"

text \<open>Device \<open>a\<close> is \<open>p_src\<close>, device \<open>b\<close> is \<open>p_dst\<close>.\<close>

definition verified_replicate :: "vsf_env \<Rightarrow> nat \<Rightarrow> (pair, Replicated) op" where
  "verified_replicate E ring_log2 =
     bindE (on_src (resolve_layout E ring_log2)) (\<lambda>(la, gen_a, slot_a).
     bindE (on_dst (resolve_layout E ring_log2)) (\<lambda>(lb, gen_b, slot_b) p.
     bindE (if gen_a \<noteq> None \<and> gen_a = gen_b \<and> slot_a = slot_b \<and> dl_spine_base la = dl_spine_base lb \<and> fd_blocks (p_src p) = fd_blocks (p_dst p)
       then bindE (on_src (dev_read (wadd (dl_spine_base la) slot_a))) (\<lambda>ha. bindE (on_dst (dev_read (wadd (dl_spine_base lb) slot_b))) (\<lambda>hb.
         retE (ha = hb)))
       else retE False) (\<lambda>converged p.
     if converged then (Inr \<lparr>spine_copied = 0, tract_copied = 0\<rparr>, p)
     else if gen_ge gen_a gen_b then replicate_into E ring_log2 p
     else (case replicate_into E ring_log2 (swap_pair p) of (r, q) \<Rightarrow> (r, swap_pair q))) p))"

end
