(* ===== verification/Replicate_Props.thy ===== *)
theory Replicate_Props
  imports Replicate Settle_Total
begin

text \<open>
  Replication against the committed state. The positions on which the two devices agree only grow: by
  the slots of the ring, then by every sealed block that the winner's root reaches. What the winner
  would come back with after a crash, the loser then comes back with too.
\<close>

section \<open>Verified writes on the loser\<close>

lemma write_verified_one_spec:
  assumes run: "write_verified_one l b d = (Inr u, d')" and wf: "wf_dev d" and b: "length b = BLOCK"
  shows "wf_dev d' \<and> fd_blocks d' = fd_blocks d \<and> dev_content d' = (dev_content d)(l := b)"
proof -
  have try1: "wf_dev e3 \<and> fd_blocks e3 = fd_blocks e \<and> (\<forall>k. k \<noteq> l \<longrightarrow> dev_content e3 k = dev_content e k) \<and> c = dev_content e3 l"
    if "wf_dev e" "dev_write l b e = (Inr x, e1)" "dev_flush e1 = (Inr y, e2)" "dev_read l e2 = (Inr c, e3)" for e e1 e2 e3 x y c
    using fdev.wr_inv [OF that(1) b that(2)] fdev.wr_frame [OF that(2)] fdev.fl_inv [OF _ that(3)] fdev.rd_inv [OF _ that(4)] fdev.rd_ok [OF _ that(4)]
    by auto
  have "\<exists>e x e1 y e2 e3. wf_dev e \<and> fd_blocks e = fd_blocks d \<and> (\<forall>k. k \<noteq> l \<longrightarrow> dev_content e k = dev_content d k)
      \<and> dev_write l b e = (Inr x, e1) \<and> dev_flush e1 = (Inr y, e2) \<and> dev_read l e2 = (Inr b, e3) \<and> e3 = d'"
  proof -
    obtain x e1 y e2 c e3 where a: "dev_write l b d = (Inr x, e1)" "dev_flush e1 = (Inr y, e2)" "dev_read l e2 = (Inr c, e3)"
      and rest: "(if c = b then retE () else bindE (dev_write l b) (\<lambda>_. bindE dev_flush (\<lambda>_. bindE (dev_read l) (\<lambda>check.
       if check = b then retE () else raiseE (Verify l))))) e3 = (Inr u, d')"
      using run unfolding write_verified_one_def by (elim bindE_InrE) blast
    show ?thesis
    proof (cases "c = b")
      case True
      then show ?thesis using a rest wf by (auto simp: run_simps)
    next
      case False
      then obtain x1 f1 y1 f2 c1 f3 where f: "dev_write l b e3 = (Inr x1, f1)" "dev_flush f1 = (Inr y1, f2)" "dev_read l f2 = (Inr c1, f3)"
        and "(if c1 = b then retE () else raiseE (Verify l)) f3 = (Inr u, d')"
        using rest by (simp only: if_False) (elim bindE_InrE, blast)
      then have "c1 = b" "f3 = d'" by (auto simp: run_simps raiseE_def split: if_splits)
      then show ?thesis using f try1 [OF wf a] by blast
    qed
  qed
  then obtain e x e1 y e2 where e: "wf_dev e" "fd_blocks e = fd_blocks d" "\<And>k. k \<noteq> l \<Longrightarrow> dev_content e k = dev_content d k"
      "dev_write l b e = (Inr x, e1)" "dev_flush e1 = (Inr y, e2)" "dev_read l e2 = (Inr b, d')" by blast
  note t = try1 [OF e(1,4,5,6)]
  have "dev_content d' = (dev_content d)(l := b)"
  proof
    fix k
    show "dev_content d' k = ((dev_content d)(l := b)) k" using t e(3) [of k] by (cases "k = l") simp_all
  qed
  then show ?thesis using t e(2) by simp
qed

lemma batch_solo_spec:
  assumes run: "write_verified_batch_solo blocks d = (Inr n, d')" and wf: "wf_dev d"
    and g: "\<forall>(l, b) \<in> set blocks. b = g l \<and> length b = BLOCK"
  shows "wf_dev d' \<and> fd_blocks d' = fd_blocks d \<and> (\<forall>l. dev_content d l = g l \<or> l \<in> fst ` set blocks \<longrightarrow> dev_content d' l = g l)"
proof (cases "blocks = []")
  case True
  then show ?thesis using run wf by (simp add: write_verified_batch_solo_def run_simps)
next
  case False
  obtain u1 d1 u2 d2 u3 where w: "forE blocks (\<lambda>(lba, b). dev_write lba b) d = (Inr u1, d1)" and f: "dev_flush d1 = (Inr u2, d2)"
    and c: "forE blocks (\<lambda>(lba, b). bindE (dev_read lba) (\<lambda>check. if check \<noteq> b then write_verified_one lba b else retE ())) d2 = (Inr u3, d')"
    using run False unfolding write_verified_batch_solo_def by (simp only: if_False) (elim bindE_InrE, auto simp: run_simps)
  let ?P = "\<lambda>e. wf_dev e \<and> fd_blocks e = fd_blocks d \<and> (\<forall>l. dev_content d l = g l \<longrightarrow> l \<notin> fst ` set blocks \<longrightarrow> dev_content e l = g l)"
  have "?P d1"
  proof (rule forE_invariant [where P = ?P, OF w])
    fix x e r e' assume x: "x \<in> set blocks" and e: "?P e" and run: "(case x of (lba, b) \<Rightarrow> dev_write lba b) e = (r, e')"
    obtain l b where lb: "x = (l, b)" by (cases x)
    then have w: "dev_write l b e = (r, e')" and b: "length b = BLOCK" using run x g by auto
    have "k \<noteq> l" if "k \<notin> fst ` set blocks" for k using that x lb by force
    then show "?P e'" using e fdev.wr_inv [OF _ b w] fdev.wr_frame [OF w] by metis
  qed (use wf in auto)
  then have "?P d2" using fdev.fl_inv [OF _ f] by auto
  moreover have "wf_dev e \<Longrightarrow> \<forall>(l, b) \<in> set bs. b = g l \<and> length b = BLOCK \<Longrightarrow>
      forE bs (\<lambda>(lba, b). bindE (dev_read lba) (\<lambda>check. if check \<noteq> b then write_verified_one lba b else retE ())) e = (Inr u, e') \<Longrightarrow>
      wf_dev e' \<and> fd_blocks e' = fd_blocks e \<and> (\<forall>l. dev_content e l = g l \<or> l \<in> fst ` set bs \<longrightarrow> dev_content e' l = g l)" for bs u e e'
  proof (induction bs arbitrary: e)
    case Nil
    then show ?case by (simp add: run_simps)
  next
    case (Cons x bs)
    obtain l b where x: "x = (l, b)" by (cases x)
    have gl: "b = g l" "length b = BLOCK" using Cons.prems(2) x by auto
    obtain e1 where e1: "bindE (dev_read l) (\<lambda>check. if check \<noteq> b then write_verified_one l b else retE ()) e = (Inr (), e1)"
      and rest: "forE bs (\<lambda>(lba, b). bindE (dev_read lba) (\<lambda>check. if check \<noteq> b then write_verified_one lba b else retE ())) e1 = (Inr u, e')"
      using Cons.prems(3) unfolding x forE.simps prod.case by (rule bindE_InrE) simp
    obtain c e0 where c: "dev_read l e = (Inr c, e0)" "(if c \<noteq> b then write_verified_one l b else retE ()) e0 = (Inr (), e1)"
      using e1 by (rule bindE_InrE)
    have r: "wf_dev e0" "fd_blocks e0 = fd_blocks e" "dev_content e0 = dev_content e" "c = dev_content e l"
      using fdev.rd_inv [OF Cons.prems(1) c(1)] fdev.rd_ok [OF Cons.prems(1) c(1)] by auto
    have e1: "wf_dev e1 \<and> fd_blocks e1 = fd_blocks e \<and> (\<forall>k. dev_content e k = g k \<or> k = l \<longrightarrow> dev_content e1 k = g k)"
    proof (cases "c = b")
      case True
      then show ?thesis using c(2) r gl by (auto simp: run_simps)
    next
      case False
      then show ?thesis using write_verified_one_spec [OF _ r(1) gl(2)] c(2) r gl by auto
    qed
    have "wf_dev e' \<and> fd_blocks e' = fd_blocks e1 \<and> (\<forall>k. dev_content e1 k = g k \<or> k \<in> fst ` set bs \<longrightarrow> dev_content e' k = g k)"
      by (rule Cons.IH [OF _ _ rest]) (use e1 Cons.prems(2) in auto)
    then show ?case using e1 x by auto
  qed
  from this [OF _ g c] have "wf_dev d2 \<Longrightarrow> wf_dev d' \<and> fd_blocks d' = fd_blocks d2 \<and> (\<forall>l. dev_content d2 l = g l \<or> l \<in> fst ` set blocks \<longrightarrow> dev_content d' l = g l)" .
  ultimately show ?thesis by metis
qed

section \<open>Agreement grows\<close>

text \<open>A sound winner \<open>s\<close>, which reads leave as it is, and any loser.\<close>

definition paired :: "filedev \<Rightarrow> pair \<Rightarrow> bool" where
  "paired s p \<longleftrightarrow> p_src p = s \<and> wf_dev s \<and> healthy s \<and> wf_dev (p_dst p)"

definition same :: "pair \<Rightarrow> nat set" where
  "same p = {l. dev_content (p_dst p) l = dev_content (p_src p) l}"

lemma content_block: "wf_dev d \<Longrightarrow> l < fd_blocks d \<Longrightarrow> length (dev_content d l) = BLOCK"
  by (auto simp: wf_dev_def dev_content_def)

lemma on_src_read:
  assumes "on_src (dev_read a) p = (Inr b, p')" and "paired s p"
  shows "p' = p \<and> b = dev_content s a \<and> a < fd_blocks s"
proof -
  obtain d where d: "dev_read a s = (Inr b, d)" "p' = p\<lparr>p_src := d\<rparr>" using assms by (auto simp: on_src_def paired_def split: prod.splits)
  then show ?thesis using dev_read_still [OF _ d(1)] dev_read_ok [OF d(1)] assms(2) by (auto simp: paired_def)
qed

lemma on_dst_reads:
  assumes "on_dst f p = (Inr x, p')" and "paired s p" and "\<And>d'. f (p_dst p) = (Inr x, d') \<Longrightarrow> wf_dev d' \<and> dev_content d' = dev_content (p_dst p)"
  shows "paired s p' \<and> same p' = same p"
  using assms by (auto simp: on_dst_def paired_def same_def split: prod.splits)

lemma converge_block_spec:
  assumes run: "converge_block a p = (Inr n, p')" and p: "paired s p"
  shows "paired s p' \<and> insert a (same p) \<subseteq> same p'"
proof -
  obtain sb p1 db p2 where r: "on_src (dev_read a) p = (Inr sb, p1)" "on_dst (dev_read a) p1 = (Inr db, p2)"
    and rest: "(if sb \<noteq> db then bindE (on_dst (write_verified_one a sb)) (\<lambda>_. retE 1) else retE 0) p2 = (Inr n, p')"
    using run unfolding converge_block_def by (elim bindE_InrE) blast
  have s: "p1 = p" "sb = dev_content s a" "a < fd_blocks s" using on_src_read [OF r(1) p] by auto
  have w: "wf_dev (p_dst p)" "wf_dev s" "p_src p = s" using p by (auto simp: paired_def)
  obtain d where d: "dev_read a (p_dst p) = (Inr db, d)" "p2 = p\<lparr>p_dst := d\<rparr>" using r(2) s(1) by (auto simp: on_dst_def split: prod.splits)
  have p2: "paired s p2" "same p2 = same p" "db = dev_content (p_dst p2) a"
    using fdev.rd_inv [OF w(1) d(1)] dev_read_ok [OF d(1)] d(2) p by (auto simp: paired_def same_def)
  show ?thesis
  proof (cases "sb = db")
    case True
    then have "a \<in> same p2" using p2(3) s(2) p2(1) by (simp add: same_def paired_def)
    then show ?thesis using True rest p2 by (auto simp: run_simps)
  next
    case False
    then obtain u e where e: "write_verified_one a sb (p_dst p2) = (Inr u, e)" "p' = p2\<lparr>p_dst := e\<rparr>"
      using rest by (auto simp: on_dst_def run_simps elim!: bindE_InrE split: prod.splits)
    have "length sb = BLOCK" using content_block [OF w(2) s(3)] s(2) by simp
    then show ?thesis using write_verified_one_spec [OF e(1)] e(2) p2 s by (auto simp: paired_def same_def)
  qed
qed

lemma converge_blocks_spec:
  assumes "converge_blocks as p = (Inr n, p')" and "paired s p"
  shows "paired s p' \<and> set as \<union> same p \<subseteq> same p'"
proof -
  have "paired s p' \<and> set as \<union> same p \<subseteq> same p'" if "mapE converge_block as p = (Inr ns, p')" "paired s p" for ns p
    using that
  proof (induction as arbitrary: p ns)
    case Nil
    then show ?case by (simp add: run_simps)
  next
    case (Cons a as)
    obtain k p1 ns' where "converge_block a p = (Inr k, p1)" "mapE converge_block as p1 = (Inr ns', p')"
      using Cons.prems(1) by (auto simp: retE_run elim!: bindE_InrE)
    then show ?case using converge_block_spec [of a p k p1 s] Cons.IH [of p1 ns'] Cons.prems(2) by auto
  qed
  moreover obtain ns where "mapE converge_block as p = (Inr ns, p')"
    using assms(1) by (auto simp: converge_blocks_def run_simps elim!: bindE_InrE)
  ultimately show ?thesis using assms(2) by blast
qed

section \<open>The runs of the live positions\<close>

definition covered :: "(nat \<times> nat) list \<Rightarrow> nat set" where
  "covered rs = (\<Union>(st, n) \<in> set rs. {st ..< st + n})"

lemma covered_simps [simp]: "covered [] = {}" "covered (r # rs) = {fst r ..< fst r + snd r} \<union> covered rs" "covered (rs @ qs) = covered rs \<union> covered qs"
  by (auto simp: covered_def)

lemma stretch_set:
  assumes "st \<le> m" and "m < length live" and "\<forall>j. st \<le> j \<longrightarrow> j \<le> m \<longrightarrow> live ! j = a + (j - st)"
  shows "set (take (Suc m) live) = set (take st live) \<union> {a ..< a + (Suc m - st)}"
proof -
  have "take (Suc m) live = take st live @ map ((!) live) [st ..< Suc m]"
    using assms(1,2) by (intro nth_equalityI) (auto simp: nth_append simp del: upt_Suc)
  moreover have "(!) live ` {st ..< Suc m} = {a ..< a + (Suc m - st)}"
  proof (intro equalityI subsetI)
    fix x assume "x \<in> {a ..< a + (Suc m - st)}"
    then show "x \<in> (!) live ` {st ..< Suc m}" using assms(1,3) by (intro image_eqI [where x = "st + (x - a)"]) auto
  qed (use assms(3) in auto)
  ultimately show ?thesis by (simp del: upt_Suc)
qed

lemma run_cut_prefix:
  assumes "\<forall>x \<in> set live. x + 1 < U64" and "m < length live" and "fold (run_cut live) [1 ..< Suc m] (0, []) = (st, out)"
  shows "st \<le> m \<and> covered out = set (take st live) \<and> (\<forall>j. st \<le> j \<longrightarrow> j \<le> m \<longrightarrow> live ! j = live ! st + (j - st))"
  using assms(2,3)
proof (induction m arbitrary: st out)
  case (Suc m)
  obtain st' out' where o: "fold (run_cut live) [1 ..< Suc m] (0, []) = (st', out')" by (rule prod.exhaust)
  have now: "run_cut live (Suc m) (st', out') = (st, out)" using Suc.prems(2) o by simp
  have ih: "st' \<le> m" "covered out' = set (take st' live)" "\<forall>j. st' \<le> j \<longrightarrow> j \<le> m \<longrightarrow> live ! j = live ! st' + (j - st')"
    using Suc.IH [OF Suc_lessD [OF Suc.prems(1)] o] by blast+
  show ?case
  proof (cases "live ! Suc m = wadd (live ! m) 1 \<and> Suc m - st' < STEP")
    case True
    then have e: "st = st'" "out = out'" using now Suc.prems(1) by (simp_all add: run_cut_def)
    have "wadd (live ! m) 1 = live ! m + 1" using assms(1) Suc.prems(1) by (intro wadd_eq) simp
    moreover have "live ! m = live ! st' + (m - st')" using ih(1,3) by blast
    ultimately have "live ! Suc m = live ! st' + (Suc m - st')" using True ih(1) by simp
    then have "\<forall>j. st' \<le> j \<longrightarrow> j \<le> Suc m \<longrightarrow> live ! j = live ! st' + (j - st')" using ih(3) le_SucE by blast
    then show ?thesis unfolding e using ih(1,2) le_SucI by blast
  next
    case False
    then have e: "st = Suc m" "out = out' @ [(live ! st', Suc m - st')]" using now Suc.prems(1) by (auto simp: run_cut_def split: if_splits)
    have "set (take (Suc m) live) = set (take st' live) \<union> {live ! st' ..< live ! st' + (Suc m - st')}"
      by (rule stretch_set [OF ih(1) Suc_lessD [OF Suc.prems(1)] ih(3)])
    then show ?thesis using ih(2) by (auto simp: e)
  qed
qed simp

lemma live_runs_cover:
  assumes "\<forall>x \<in> set live. x + 1 < U64"
  shows "covered (live_runs live) = set live"
proof (cases live)
  case (Cons x xs)
  let ?m = "length xs"
  have lt: "?m < length live" using Cons by simp
  obtain st out where o: "fold (run_cut live) [1 ..< Suc ?m] (0, []) = (st, out)" by (rule prod.exhaust)
  have p: "st \<le> ?m" "covered out = set (take st live)" "\<forall>j. st \<le> j \<longrightarrow> j \<le> ?m \<longrightarrow> live ! j = live ! st + (j - st)"
    using run_cut_prefix [OF assms _ o] lt by blast+
  have "live_runs live = out @ [(live ! st, Suc ?m - st)]" using o Cons by (simp add: live_runs_def run_cut_def)
  moreover have "set (take (Suc ?m) live) = set (take st live) \<union> {live ! st ..< live ! st + (Suc ?m - st)}"
    by (rule stretch_set [OF p(1) lt p(3)])
  ultimately show ?thesis using p(2) Cons by simp
qed (simp add: live_runs_def)

lemma run_starts: "r \<in> set (live_runs live) \<Longrightarrow> fst r \<in> set live"
proof -
  have "set (map fst (snd (fold (run_cut live) is (st, out)))) \<subseteq> set live"
    if "\<forall>i \<in> set is. i \<le> length live" "st \<le> length live" "set (map fst out) \<subseteq> set live" "sorted_wrt (<) (st # is)" for "is" st out
    using that
  proof (induction "is" arbitrary: st out)
    case (Cons i "is")
    have "live ! st \<in> set live" using Cons.prems(1,4) by (intro nth_mem) auto
    then show ?case using Cons.IH [of st out] Cons.IH [of i "out @ [(live ! st, i - st)]"] Cons.prems by (auto simp: run_cut_def)
  qed simp
  from this [of "[1 ..< length live + 1]" 0 "[]"] show "r \<in> set (live_runs live) \<Longrightarrow> fst r \<in> set live"
    by (auto simp: live_runs_def sorted_wrt_less_idx simp del: upt_Suc)
qed

section \<open>The sealed blocks of the runs\<close>

lemma to_fix_set:
  assumes "at + n \<le> U64"
  shows "set (to_fix E at (map g [at ..< at + n]) (map f [at ..< at + n]))
    = {(l, g l) | l. at \<le> l \<and> l < at + n \<and> g l \<noteq> f l \<and> sealed_hp E (g l) \<noteq> None}"
proof -
  have z: "set (enumerate 0 (zip (map g [at ..< at + n]) (map f [at ..< at + n]))) = {(k, g (at + k), f (at + k)) | k. k < n}"
    by (auto simp: in_set_enumerate_eq)
  have "wadd at k = at + k" if "k < n" for k using assms that by (intro wadd_eq) simp
  then have "set (to_fix E at (map g [at ..< at + n]) (map f [at ..< at + n]))
      = {(at + k, g (at + k)) | k. k < n \<and> g (at + k) \<noteq> f (at + k) \<and> sealed_hp E (g (at + k)) \<noteq> None}"
    unfolding to_fix_def set_concat set_map z by (auto split: if_splits)
  also have "\<dots> = {(l, g l) | l. at \<le> l \<and> l < at + n \<and> g l \<noteq> f l \<and> sealed_hp E (g l) \<noteq> None}"
    by (auto simp: less_diff_conv2) (metis add.commute less_diff_conv2 nat_add_left_cancel_less le_add_diff_inverse2)
  finally show ?thesis .
qed

definition sealed_in :: "vsf_env \<Rightarrow> filedev \<Rightarrow> nat \<Rightarrow> nat set \<Rightarrow> nat set" where
  "sealed_in E s base ps = {base + p | p. p \<in> ps \<and> sealed_hp E (dev_content s (base + p)) \<noteq> None}"

lemma on_dst_batch:
  assumes "on_dst (write_verified_batch_solo fx) p = (Inr k, p')" and "paired s p" and "\<forall>(l, b) \<in> set fx. b = dev_content s l \<and> length b = BLOCK"
  shows "paired s p' \<and> same p \<union> fst ` set fx \<subseteq> same p'"
proof -
  obtain d where d: "write_verified_batch_solo fx (p_dst p) = (Inr k, d)" "p' = p\<lparr>p_dst := d\<rparr>" using assms(1) by (auto simp: on_dst_def split: prod.splits)
  have w: "wf_dev (p_dst p)" "p_src p = s" using assms(2) by (auto simp: paired_def)
  note b = batch_solo_spec [OF d(1) w(1) assms(3)]
  show ?thesis using b d(2) assms(2) w(2) by (auto simp: paired_def same_def)
qed

lemma fix_runs_spec:
  assumes "fix_runs E base rs fx c p = (Inr k, p')" and "paired s p" and "\<forall>(l, b) \<in> set fx. b = dev_content s l \<and> length b = BLOCK"
    and "\<forall>r \<in> set rs. base + fst r < U64"
  shows "paired s p' \<and> same p \<union> fst ` set fx \<union> sealed_in E s base (covered rs) \<subseteq> same p'"
  using assms
proof (induction rs arbitrary: fx c p)
  case Nil
  then obtain k1 where "on_dst (write_verified_batch_solo fx) p = (Inr k1, p')" by (auto simp: run_simps elim!: bindE_InrE)
  then show ?case using on_dst_batch [OF _ Nil.prems(2,3)] by (auto simp: sealed_in_def)
next
  case (Cons r rs)
  obtain st n where r: "r = (st, n)" by (cases r)
  have at: "wadd base st = base + st" using Cons.prems(4) r by (intro wadd_eq) simp
  obtain sb p1 db p2 where a: "on_src (dev_read_run (base + st) n) p = (Inr sb, p1)" "on_dst (dev_read_run (base + st) n) p1 = (Inr db, p2)"
    and rest: "(if length (fx @ to_fix E (base + st) sb db) \<ge> STEP
      then bindE (on_dst (write_verified_batch_solo (fx @ to_fix E (base + st) sb db))) (\<lambda>k. fix_runs E base rs [] (c + k))
      else fix_runs E base rs (fx @ to_fix E (base + st) sb db) c) p2 = (Inr k, p')"
    using Cons.prems(1) unfolding r fix_runs.simps fst_conv snd_conv at Let_def by (elim bindE_InrE) blast
  let ?fx = "fx @ to_fix E (base + st) sb db"
  have w: "wf_dev s" "healthy s" "p_src p = s" "wf_dev (p_dst p)" using Cons.prems(2) by (auto simp: paired_def)
  obtain d where d: "dev_read_run (base + st) n s = (Inr sb, d)" "p1 = p\<lparr>p_src := d\<rparr>" using a(1) w(3) by (auto simp: on_src_def split: prod.splits)
  have fit: "n = 0 \<or> base + st + n \<le> fd_blocks s"
    using d(1) w(1) by (auto simp: dev_read_run_def dev_bounds_run_eq bindE_def split: if_splits)
  then have p1: "p1 = p" "sb = map (dev_content s) [base + st ..< base + st + n]"
    using fdev_runs.rrun_quiet [OF w(1,2)] d w(3) by (auto simp: dev_read_run_def retE_def)
  obtain e where e: "dev_read_run (base + st) n (p_dst p) = (Inr db, e)" "p2 = p\<lparr>p_dst := e\<rparr>" using a(2) p1(1) by (auto simp: on_dst_def split: prod.splits)
  have p2: "paired s p2" "same p2 = same p" "db = map (dev_content (p_dst p)) [base + st ..< base + st + n]"
    using fdev_runs.rrun_inv [OF w(4) e(1)] fdev_runs.rrun_ok [OF w(4) e(1)] e(2) Cons.prems(2) by (auto simp: paired_def same_def)
  have "base + st + n \<le> U64" using fit w(1) Cons.prems(4) r by (auto simp: wf_dev_def)
  note tf = to_fix_set [OF this, of E "dev_content s" "dev_content (p_dst p)", folded p1(2) p2(3)]
  have "length (dev_content s l) = BLOCK" if "base + st \<le> l" "l < base + st + n" for l using content_block [OF w(1)] fit that by simp
  then have good: "\<forall>(l, b) \<in> set ?fx. b = dev_content s l \<and> length b = BLOCK" using Cons.prems(3) tf by auto
  have seal: "sealed_in E s base (covered (r # rs)) \<subseteq> same p2 \<union> fst ` set ?fx \<union> sealed_in E s base (covered rs)"
  proof
    fix l assume "l \<in> sealed_in E s base (covered (r # rs))"
    then consider "l \<in> sealed_in E s base (covered rs)" | "base + st \<le> l" "l < base + st + n" "sealed_hp E (dev_content s l) \<noteq> None"
      using r by (auto simp: sealed_in_def)
    then show "l \<in> same p2 \<union> fst ` set ?fx \<union> sealed_in E s base (covered rs)"
    proof cases
      case 2
      show ?thesis
      proof (cases "dev_content s l = dev_content (p_dst p) l")
        case True
        then have "l \<in> same p" using w(3) by (simp add: same_def)
        then show ?thesis using p2(2) by simp
      next
        case False
        then have "(l, dev_content s l) \<in> set (to_fix E (base + st) sb db)" using 2 unfolding tf by blast
        then show ?thesis by (metis UnI1 UnI2 fst_conv image_eqI set_append)
      qed
    qed simp
  qed
  have sub: "fst ` set fx \<subseteq> fst ` set ?fx" by auto
  have all: ?case if "paired s p'" and in_same: "same p2 \<subseteq> same p'" "fst ` set ?fx \<subseteq> same p'" "sealed_in E s base (covered rs) \<subseteq> same p'"
  proof -
    have "sealed_in E s base (covered (r # rs)) \<subseteq> same p'" by (rule subset_trans [OF seal Un_least [OF Un_least]]) (rule in_same)+
    moreover have "fst ` set fx \<subseteq> same p'" by (rule subset_trans [OF sub in_same(2)])
    ultimately show ?thesis using that(1) in_same(1) p2(2) by simp
  qed
  have left: "\<forall>r \<in> set rs. base + fst r < U64" using Cons.prems(4) by simp
  show ?case
  proof (cases "length ?fx \<ge> STEP")
    case True
    then have "bindE (on_dst (write_verified_batch_solo ?fx)) (\<lambda>k. fix_runs E base rs [] (c + k)) p2 = (Inr k, p')" using rest by simp
    then obtain k1 p3 where b: "on_dst (write_verified_batch_solo ?fx) p2 = (Inr k1, p3)" "fix_runs E base rs [] (c + k1) p3 = (Inr k, p')"
      by (rule bindE_InrE)
    note o = on_dst_batch [OF b(1) p2(1) good]
    have "paired s p' \<and> same p3 \<union> sealed_in E s base (covered rs) \<subseteq> same p'"
      using Cons.IH [OF b(2)] o left by simp
    then have "paired s p'" "same p2 \<subseteq> same p'" "fst ` set ?fx \<subseteq> same p'" "sealed_in E s base (covered rs) \<subseteq> same p'" using o by auto
    then show ?thesis by (rule all)
  next
    case False
    then have "fix_runs E base rs ?fx c p2 = (Inr k, p')" using rest by simp
    from Cons.IH [OF this p2(1) good left]
    have "paired s p'" "same p2 \<subseteq> same p'" "fst ` set ?fx \<subseteq> same p'" "sealed_in E s base (covered rs) \<subseteq> same p'" by simp_all
    then show ?thesis by (rule all)
  qed
qed

section \<open>The winner\<close>

text \<open>A mirror over one device.\<close>

definition alone :: "filedev \<Rightarrow> mirror" where
  "alone d = \<lparr>m_a = Some d, m_b = None, m_degraded = True, m_events = [], m_pending = [], m_cache = [], m_uses = 0\<rparr>"

lemma alone_simps [simp]: "rdev (alone d) = Some d" "rcontent (alone d) = dev_content d" "rcount (alone d) = fd_blocks d"
  "mirror_block_count (alone d) = fd_blocks d" "rebooted (alone d) = alone (healed d)" "m_a (alone d) = Some d" "m_b (alone d) = None"
  "mirror_from_parts (Some d) None = Inr (alone d)"
  by (simp_all add: alone_def rdev_def rcontent_def [abs_def] rcount_def mirror_block_count_def rebooted_def mirror_from_parts_def)

lemma view_alone: "view (alone d) = dev_content d"
  using no_pending_view [of "alone d"] by (simp add: alone_def fun_eq_iff rcontent_def rdev_def)

lemma alone_wf: "wf_dev d \<Longrightarrow> wf_mirror (alone d)"
  by (simp add: wf_mirror_def cache_ok_def staged_def) (simp add: alone_def)

lemma healed_healthy: "healthy d \<Longrightarrow> healed d = d"
  by (simp add: healthy_def healed_def)

lemma best_gen_still:
  assumes "healthy d" and "best_gen_slots E rl base slots best slot d = (r, d')"
  shows "d' = d"
  using assms(2)
proof (induction slots arbitrary: best slot)
  case Nil
  then show ?case by (simp add: retE_run)
next
  case (Cons k slots)
  obtain q e where q: "dev_read (wadd base k) d = (q, e)" by (rule prod.exhaust)
  have "e = d" by (rule dev_read_still [OF assms(1) q])
  then show ?case using Cons q by (auto simp: bindE_def split: sum.splits Classified.splits if_splits)
qed

lemma resolve_layout_fixed:
  assumes d: "wf_dev d" "healthy d" and root: "rootless E (alone d)" and run: "resolve_layout E rl d = (Inr (layout, gen, slot), d')"
  shows "d' = d \<and> layout = \<lparr>dl_spine_base = 0, dl_tract_base = 2 ^ rl, dl_has_root = False\<rparr>"
proof -
  have "read_root E d = (Inr None, d)"
    unfolding read_root_def by (rule read_root_none [OF d]) (use root in \<open>auto simp: rootless_def\<close>)
  then show ?thesis using run best_gen_still [OF d(2), of E rl 0]
    by (auto simp: resolve_layout_def Let_def bindE_def retE_def best_gen_def split: prod.splits sum.splits)
qed

lemma winner_live_spec:
  fixes v :: "'z vault_scheme"
  assumes dur: "durable E v h m" and mir: "st_mirror v = alone d" "wf_dev d" "healthy d" and p: "fixed_profile v"
    and fit: "2 ^ v_log2 v \<le> fd_blocks d" and whole: "committed_intact E v h"
    and run: "winner_live E (v_log2 v) \<lparr>dl_spine_base = 0, dl_tract_base = 2 ^ v_log2 v, dl_has_root = False\<rparr> d = (Inr r, d')"
  shows "d' = d \<and> (\<exists>live. r = Some live \<and> set live = committed_positions E v h)"
proof -
  have hd: "healed d = d" by (rule healed_healthy [OF mir(3)])
  have wf: "wf_mirror (st_mirror v)" using alone_wf [OF mir(2)] mir(1) by simp
  have base: "t_base (st_tract v) = 2 ^ v_log2 v" using p by (simp add: fixed_profile_def)
  have open1: "ring_open_at E (alone d) (v_log2 v) 0 = (Inr (disk_ring v h), disk_ring v h)"
    using reopen_ring [OF dur wf p] fit mir(1) hd by simp
  have tw: "tract_wf (head_tract (st_tract v) h)" using dur by (auto simp: durable_def index_map_def holds_def store_ok_def)
  then have small: "2 ^ v_log2 v + se_tract_blocks h < U64" using base by (simp add: tract_wf_def)
  let ?t = "\<lparr>t_base = 2 ^ v_log2 v, t_len = se_tract_blocks h, t_plow = se_plow h, t_reap = (case se_reap h of Some r \<Rightarrow> r | None \<Rightarrow> se_plow h), t_fence_limit = None\<rparr> :: tract"
  let ?s = "from_root (alone d) ?t (se_hamt_hash h) (se_hamt_lba h)"
  obtain q w where w: "walk_tree_collect E (walk_begin [] ?s) = (q, w)" by (rule prod.exhaust)
  have rm: "r_mirror (disk_ring v h) = alone d" using mir(1) hd by simp
  have "r = Some (remdups_adj (sort (map fst (w_out w) @ w_referenced w)))" "d' = (case m_a (st_mirror w) of Some d' \<Rightarrow> d' | None \<Rightarrow> d)" and q: "\<exists>x. q = Inr x"
    using run w open1 rm small by (auto simp: winner_live_def Let_def checked_add_def split: if_splits sum.splits)
  let ?V = "committed_view v" and ?L = "se_tract_blocks h"
  let ?w = "(walk_begin [] ?s)\<lparr>w_todo := walk_start ?s, w_visited := visited_new ?L\<rparr>"
  have start: "walk_start ?s = (if se_hamt_hash h = replicate 32 0 then [] else [(se_hamt_lba h, se_hamt_hash h, replicate 32 0, 0)])"
    by (simp add: walk_start_def from_root_def)
  have view: "view (alone d) = dev_content d" using rebooted_view [of "alone d"] hd by simp
  have wk: "walks (alone d) ?V ?L ?w"
    using alone_wf [OF mir(2)] small hd view mir(1) base
    by (simp add: walks_def walk_begin_def from_root_def tview_def [abs_def] committed_view_def [abs_def])
  have loop: "\<exists>n x. walk_tree_loop n E ?w = (Inr x, w)"
    using w q by (auto simp: walk_tree_collect_def walk_begin_def from_root_def walk_start_def)
  have "intact_walk E ?V ?L ?w" using whole by (auto simp: intact_walk_def start committed_intact_def walk_begin_def)
  then have e: "w_stale w = []" "found w = reached E ?V ?L ?w" "st_mirror w = st_mirror ?w" using walk_tree_loop_spec [OF _ wk] loop by blast+
  have "reached E ?V ?L ?w = committed_positions E v h"
    by (simp add: reached_def start committed_positions_def found_def walk_begin_def)
  then have "set (map fst (w_out w) @ w_referenced w) = committed_positions E v h" using e by (simp add: found_def)
  moreover have "st_mirror ?w = alone d" by (simp add: walk_begin_def from_root_def)
  ultimately show ?thesis using e(3) \<open>r = _\<close> \<open>d' = _\<close> by auto
qed

section \<open>What the loser comes back with\<close>

text \<open>Every block that an intact committed tree reaches is sealed.\<close>

lemma behind_sealed:
  assumes "repr E V L Oc A d ch t J" and "ch = Committed h lba" and "intact E V L h lba" and "behind E V L h lba p"
  shows "sealed_hp E (V p) \<noteq> None"
  using assms
proof (induction arbitrary: h lba rule: repr.induct)
  case (repr_gone l g d)
  then show ?case using linked_here by (auto simp: intact_def)
next
  case (repr_leaf l g doc k v d)
  have here: "sealed_hp E (V lba) \<noteq> None" using repr_leaf by (auto simp: doc_of_def split: if_splits option.splits)
  have furrow: "sealed_hp E (V p) \<noteq> None" if "furrows_are E V k ps v" "p \<in> set ps" for ps
    using that by (auto simp: furrows_are_def furrow_payload_def in_set_conv_nth split: if_splits)
  show ?case using repr_leaf here furrow by (cases doc) (auto simp: leaf_doc_def behind_leaf)
next
  case (repr_node l g n d ts)
  have e: "g = h" "l = lba" using repr_node.prems(1) by simp_all
  have doc: "doc_of E (V lba) h L = Inr (Some (DocNode n))" using repr_node.hyps(2) e by simp
  consider "p = lba" | h' l' where "Some (Committed h' l') \<in> set (n_children n)" "behind E V L h' l' p"
    using repr_node.prems(3) behind_node [of E V lba h L n] doc by blast
  then show ?case
  proof cases
    case 1
    then show ?thesis using doc by (auto simp: doc_of_def split: if_splits option.splits)
  next
    case 2
    then obtain c where c: "c < 32" "n_children n ! c = Some (Committed h' l')" using repr_node.hyps(5) by (metis in_set_conv_nth)
    have "intact E V L h' l'" using repr_node.prems(2) linked_child [where V = V and lba = lba, OF doc 2(1)] by (simp add: intact_def)
    then show ?thesis using repr_node.IH c 2(2) by force
  qed
qed simp

lemma committed_sealed:
  fixes v :: "'z vault_scheme"
  assumes d: "durable E v h m" and i: "committed_intact E v h" and p: "p \<in> committed_positions E v h"
  shows "sealed_hp E (committed_view v p) \<noteq> None"
proof -
  have h: "se_hamt_hash h \<noteq> replicate 32 0" and b: "behind E (committed_view v) (se_tract_blocks h) (se_hamt_hash h) (se_hamt_lba h) p"
    using p by (auto simp: committed_positions_def split: if_splits)
  let ?s = "head_index (rebooted (st_mirror v)) (st_tract v) h"
  obtain t where t: "holds E ?s t" using d by (auto simp: durable_def index_map_def)
  have "tview ?s = committed_view v" by (simp add: tview_def committed_view_def fun_eq_iff)
  moreover have "h_root ?s = Some (Committed (se_hamt_hash h) (se_hamt_lba h))" using h by (simp add: head_index_def from_root_def)
  moreover have "intact E (committed_view v) (se_tract_blocks h) (se_hamt_hash h) (se_hamt_lba h)" using i h by (simp add: committed_intact_def)
  ultimately show ?thesis using t behind_sealed [OF _ refl _ b] by (fastforce simp: holds_def)
qed

text \<open>A medium with the same ring and the same reachable blocks comes back with the same map.\<close>

lemma durable_copy:
  fixes v v' :: "'z vault_scheme"
  assumes d: "durable E v h m" and wf: "wf_mirror (st_mirror v')" and same: "v_log2 v' = v_log2 v" "v_base v' = v_base v" "st_tract v' = st_tract v"
    and ring: "\<And>k. k < 2 ^ v_log2 v \<Longrightarrow> rcontent (st_mirror v') (v_base v + k) = rcontent (st_mirror v) (v_base v + k)"
    and live: "\<And>p. p \<in> committed_positions E v h \<Longrightarrow> committed_view v' p = committed_view v p"
  shows "durable E v' h m"
proof -
  let ?s = "head_index (rebooted (st_mirror v)) (st_tract v) h" and ?s' = "head_index (rebooted (st_mirror v')) (st_tract v') h"
  have ri: "ring_inv E (disk_ring v' h)"
    by (rule ring_inv_frame [of E "disk_ring v h"]) (use d rebooted_wf [OF wf] same ring in \<open>auto simp: durable_def\<close>)
  obtain t where t: "vsf_ok E" "holds E ?s t" "m = (\<lambda>x. lookup_opt x 0 t)" using d by (auto simp: durable_def index_map_def)
  have win: "committed_positions E v h \<subseteq> occ (head_tract (st_tract v) h)" by (rule committed_in_window [where m = m]) (use d in \<open>simp add: durable_def\<close>)
  have view: "tview ?s = committed_view v" "tview ?s' = committed_view v'" by (simp_all add: tview_def committed_view_def fun_eq_iff)
  have ok: "store_ok ?s'" using t(2) rebooted_wf [OF wf] same by (auto simp: holds_def store_ok_def)
  have "holds E ?s' t"
  proof (cases "se_hamt_hash h = replicate 32 0")
    case True
    then show ?thesis using t(2) ok by (simp add: holds_def) (simp add: head_index_def from_root_def)
  next
    case False
    then have root: "h_root ?s = Some (Committed (se_hamt_hash h) (se_hamt_lba h))" "h_root ?s' = h_root ?s" "h_arena ?s = []" "h_arena ?s' = []"
      by (simp_all add: head_index_def from_root_def)
    then obtain u J where u: "t = Some u" "repr E (committed_view v) (se_tract_blocks h) (occ (head_tract (st_tract v) h)) [] 0 (Committed (se_hamt_hash h) (se_hamt_lba h)) u J"
      using t(2) view by (auto simp: holds_def)
    have J: "J = {}" using u(2) by (auto elim: repr_committedE)
    have "repr E (committed_view v) (se_tract_blocks h) (committed_positions E v h) [] 0 (Committed (se_hamt_hash h) (se_hamt_lba h)) u J"
      by (rule repr_shrink [OF u(2) refl]) (use False in \<open>simp add: committed_positions_def\<close>)
    then have "repr E (committed_view v') (se_tract_blocks h) (occ (head_tract (st_tract v) h)) [] 0 (Committed (se_hamt_hash h) (se_hamt_lba h)) u J"
      by (rule repr_frame) (use live win J in auto)
    then show ?thesis using ok u(1) root view same by (auto simp: holds_def)
  qed
  then show ?thesis using ri t d same unfolding durable_def index_map_def by auto
qed

lemma replicate_steps:
  assumes run: "replicate_into E rl p = (Inr rep, p')" and p: "paired d p" and root: "rootless E (alone d)"
  obtains p1 n p2 lv p3 k where "paired d p1" "converge_blocks (map (wadd 0) [0 ..< 2 ^ rl]) p1 = (Inr n, p2)"
    "on_src (winner_live E rl \<lparr>dl_spine_base = 0, dl_tract_base = 2 ^ rl, dl_has_root = False\<rparr>) p2 = (Inr lv, p3)"
    "case lv of None \<Rightarrow> p' = p3 | Some live \<Rightarrow> fix_runs E (2 ^ rl) (live_runs live) [] 0 p3 = (Inr k, p')"
proof -
  have w: "wf_dev d" "healthy d" "p_src p = d" "wf_dev (p_dst p)" using p by (auto simp: paired_def)
  obtain u p1 l g s p2 where g: "(if fd_blocks (p_dst p) < fd_blocks (p_src p) then on_dst (dev_grow (fd_blocks (p_src p))) else retE ()) p = (Inr u, p1)"
    and res: "on_src (resolve_layout E rl) p1 = (Inr (l, g, s), p2)"
    and rest: "bindE (if dl_has_root l then converge_blocks [0 ..< ROOT_SLOTS] else retE 0) (\<lambda>roots.
     bindE (converge_blocks (map (wadd (dl_spine_base l)) [0 ..< 2 ^ rl])) (\<lambda>spines.
     bindE (on_src (winner_live E rl l)) (\<lambda>live. case live of
       None \<Rightarrow> retE \<lparr>spine_copied = roots + spines, tract_copied = 0\<rparr>
     | Some live \<Rightarrow> bindE (fix_runs E (dl_tract_base l) (live_runs live) [] 0) (\<lambda>copied.
         retE \<lparr>spine_copied = roots + spines, tract_copied = copied\<rparr>)))) p2 = (Inr rep, p')"
    using run unfolding replicate_into_def by (elim bindE_InrE) (auto elim: that)
  have p1: "paired d p1"
    using g p w dev_grow_spec [of "fd_blocks d" "p_dst p"] by (auto simp: paired_def on_dst_def run_simps wf_dev_def [of d] split: if_splits prod.splits)
  obtain e where e: "resolve_layout E rl d = (Inr (l, g, s), e)" "p2 = p1\<lparr>p_src := e\<rparr>" using res p1 by (auto simp: on_src_def paired_def split: prod.splits)
  have l: "p2 = p1" "l = \<lparr>dl_spine_base = 0, dl_tract_base = 2 ^ rl, dl_has_root = False\<rparr>"
    using resolve_layout_fixed [OF w(1,2) root e(1)] e(2) p1 by (auto simp: paired_def)
  have "bindE (converge_blocks (map (wadd 0) [0 ..< 2 ^ rl])) (\<lambda>spines.
     bindE (on_src (winner_live E rl l)) (\<lambda>live. case live of
       None \<Rightarrow> retE \<lparr>spine_copied = spines, tract_copied = 0\<rparr>
     | Some live \<Rightarrow> bindE (fix_runs E (2 ^ rl) (live_runs live) [] 0) (\<lambda>copied.
         retE \<lparr>spine_copied = spines, tract_copied = copied\<rparr>))) p1 = (Inr rep, p')"
    using rest unfolding l by (simp add: bindE_retE cong: option.case_cong)
  then obtain n p3 lv p4 where c: "converge_blocks (map (wadd 0) [0 ..< 2 ^ rl]) p1 = (Inr n, p3)" "on_src (winner_live E rl l) p3 = (Inr lv, p4)"
    and f: "(case lv of None \<Rightarrow> retE \<lparr>spine_copied = n, tract_copied = 0\<rparr>
     | Some live \<Rightarrow> bindE (fix_runs E (2 ^ rl) (live_runs live) [] 0) (\<lambda>copied.
         retE \<lparr>spine_copied = n, tract_copied = copied\<rparr>)) p4 = (Inr rep, p')"
    by (elim bindE_InrE) blast
  have "\<exists>k. case lv of None \<Rightarrow> p' = p4 | Some live \<Rightarrow> fix_runs E (2 ^ rl) (live_runs live) [] 0 p4 = (Inr k, p')"
    using f by (cases lv) (auto simp: run_simps elim!: bindE_InrE)
  then show thesis using that [OF p1 c(1) c(2) [unfolded l]] by blast
qed

lemma replicate_durable:
  fixes v :: "'z vault_scheme"
  assumes run: "replicate_into E (v_log2 v) p = (Inr rep, p')" and p: "paired d p"
    and dur: "durable E v h m" and mir: "st_mirror v = alone d" and prof: "fixed_profile v" and whole: "committed_intact E v h"
    and fit: "t_base (st_tract v) + se_tract_blocks h \<le> fd_blocks d" and root: "rootless E (alone d)"
  shows "p_src p' = d \<and> durable E (v\<lparr>st_mirror := alone (p_dst p')\<rparr>) h m"
proof -
  have w: "wf_dev d" "healthy d" using p by (auto simp: paired_def)
  have base: "t_base (st_tract v) = 2 ^ v_log2 v" "v_base v = 0" using prof by (simp_all add: fixed_profile_def)
  have tw: "tract_wf (head_tract (st_tract v) h)" using dur by (auto simp: durable_def index_map_def holds_def store_ok_def)
  then have small: "2 ^ v_log2 v + se_tract_blocks h < U64" "0 < se_tract_blocks h" using base by (simp_all add: tract_wf_def)
  obtain p1 n p2 lv p3 k where s: "paired d p1" "converge_blocks (map (wadd 0) [0 ..< 2 ^ v_log2 v]) p1 = (Inr n, p2)"
    "on_src (winner_live E (v_log2 v) \<lparr>dl_spine_base = 0, dl_tract_base = 2 ^ v_log2 v, dl_has_root = False\<rparr>) p2 = (Inr lv, p3)"
    "case lv of None \<Rightarrow> p' = p3 | Some live \<Rightarrow> fix_runs E (2 ^ v_log2 v) (live_runs live) [] 0 p3 = (Inr k, p')"
    by (rule replicate_steps [OF run p root])
  have "wadd 0 k = k" if "k < 2 ^ v_log2 v" for k using that small(1) wadd_eq [of 0 k] by simp
  then have ring: "paired d p2" "{..< 2 ^ v_log2 v} \<subseteq> same p2" using converge_blocks_spec [OF s(2,1)] by auto
  obtain e where e: "winner_live E (v_log2 v) \<lparr>dl_spine_base = 0, dl_tract_base = 2 ^ v_log2 v, dl_has_root = False\<rparr> d = (Inr lv, e)" "p3 = p2\<lparr>p_src := e\<rparr>"
    using s(3) ring(1) by (auto simp: on_src_def paired_def split: prod.splits)
  obtain live where live: "e = d" "lv = Some live" "set live = committed_positions E v h"
    using winner_live_spec [OF dur mir w prof _ whole e(1)] fit base by auto
  have p3: "p3 = p2" using e(2) live(1) ring(1) by (simp add: paired_def)
  have "committed_positions E v h \<subseteq> occ (head_tract (st_tract v) h)" by (rule committed_in_window [where m = m]) (use dur in \<open>simp add: durable_def\<close>)
  then have lt: "x < se_tract_blocks h" if "x \<in> set live" for x using that small(2) live(3) by (auto simp: occ_def)
  have cov: "covered (live_runs live) = set live" by (rule live_runs_cover) (use lt small(1) in force)
  have starts: "\<forall>r \<in> set (live_runs live). 2 ^ v_log2 v + fst r < U64" 
  proof
    fix r assume "r \<in> set (live_runs live)"
    then have "fst r < se_tract_blocks h" by (rule lt [OF run_starts])
    then show "2 ^ v_log2 v + fst r < U64" using small(1) by linarith
  qed
  have "paired d p' \<and> same p2 \<union> sealed_in E d (2 ^ v_log2 v) (set live) \<subseteq> same p'"
    using fix_runs_spec [of E "2 ^ v_log2 v" "live_runs live" "[]" 0 p2 k p' d] s(4) live(2) p3 ring(1) starts cov by simp
  then have fin: "p_src p' = d" "wf_dev (p_dst p')" "{..< 2 ^ v_log2 v} \<subseteq> same p'" "sealed_in E d (2 ^ v_log2 v) (set live) \<subseteq> same p'"
    using ring(2) by (auto simp: paired_def)
  have view: "committed_view v x = dev_content d (2 ^ v_log2 v + x)" for x by (simp add: committed_view_def mir base)
  have "durable E (v\<lparr>st_mirror := alone (p_dst p')\<rparr>) h m"
  proof (rule durable_copy [OF dur])
    fix x assume x: "x \<in> committed_positions E v h"
    have "sealed_hp E (committed_view v x) \<noteq> None" by (rule committed_sealed [OF dur whole x])
    then have "2 ^ v_log2 v + x \<in> same p'" using x live(3) fin(4) view by (auto simp: sealed_in_def)
    then show "committed_view (v\<lparr>st_mirror := alone (p_dst p')\<rparr>) x = committed_view v x"
      using fin(1) view by (simp add: same_def committed_view_def base)
  qed (use fin alone_wf mir base in \<open>auto simp: same_def\<close>)
  then show ?thesis using fin(1) by simp
qed

section \<open>Choosing the winner\<close>

text \<open>The generation that a scan of a residence reports is that of a valid entry, and no valid entry has a
  higher one.\<close>

definition holds_gen :: "vsf_env \<Rightarrow> nat \<Rightarrow> nat \<Rightarrow> filedev \<Rightarrow> nat set \<Rightarrow> nat \<Rightarrow> bool" where
  "holds_gen E rl base d slots g \<longleftrightarrow> (\<exists>k \<in> slots. \<exists>e. classify E (dev_content d (wadd base k)) k (Some rl) = Valid e \<and> se_gen e = g)"

lemma best_gen_slots_spec:
  assumes "best_gen_slots E rl base slots best slot d = (Inr (b, s), d')" and "wf_dev d"
  shows "wf_dev d' \<and> dev_content d' = dev_content d \<and> fd_blocks d' = fd_blocks d
    \<and> (\<forall>g. b = Some g \<longrightarrow> best = Some g \<or> holds_gen E rl base d (set slots) g)
    \<and> (\<forall>g. best = Some g \<or> holds_gen E rl base d (set slots) g \<longrightarrow> (\<exists>g' \<ge> g. b = Some g'))"
  using assms
proof (induction slots arbitrary: best slot d)
  case Nil
  then show ?case by (auto simp: retE_run holds_gen_def)
next
  case (Cons k slots)
  obtain buf d1 where rd: "dev_read (wadd base k) d = (Inr buf, d1)"
    and rest: "(case classify E buf k (Some rl) of
       Valid e \<Rightarrow>
         (if (case best of None \<Rightarrow> True | Some g \<Rightarrow> se_gen e > g)
          then best_gen_slots E rl base slots (Some (se_gen e)) k
          else best_gen_slots E rl base slots best slot)
     | _ \<Rightarrow> best_gen_slots E rl base slots best slot) d1 = (Inr (b, s), d')"
    using Cons.prems(1) unfolding best_gen_slots.simps by (rule bindE_InrE)
  have r: "wf_dev d1" "fd_blocks d1 = fd_blocks d" "dev_content d1 = dev_content d" "buf = dev_content d (wadd base k)"
    using fdev.rd_inv [OF Cons.prems(2) rd] fdev.rd_ok [OF Cons.prems(2) rd] by auto
  have hg: "holds_gen E rl base d1 X g = holds_gen E rl base d X g" for X g by (simp add: holds_gen_def r(3))
  have ins: "holds_gen E rl base d (set (k # slots)) g \<longleftrightarrow> (\<exists>e. classify E buf k (Some rl) = Valid e \<and> se_gen e = g) \<or> holds_gen E rl base d (set slots) g" for g
    by (auto simp: holds_gen_def r(4))
  show ?case
  proof (cases "\<exists>e. classify E buf k (Some rl) = Valid e \<and> (case best of None \<Rightarrow> True | Some g \<Rightarrow> se_gen e > g)")
    case True
    then obtain e where e: "classify E buf k (Some rl) = Valid e" "case best of None \<Rightarrow> True | Some g \<Rightarrow> se_gen e > g" by blast
    then have "best_gen_slots E rl base slots (Some (se_gen e)) k d1 = (Inr (b, s), d')" using rest by simp
    note ih = Cons.IH [OF this r(1), unfolded hg]
    obtain g1 where g1: "g1 \<ge> se_gen e" "b = Some g1" using ih by blast
    show ?thesis unfolding ins using ih r e g1 by (auto split: option.splits intro: order_trans)
  next
    case False
    then have "best_gen_slots E rl base slots best slot d1 = (Inr (b, s), d')" using rest by (auto split: Classified.splits)
    note ih = Cons.IH [OF this r(1), unfolded hg]
    have "\<exists>g. best = Some g \<and> se_gen e \<le> g" if "classify E buf k (Some rl) = Valid e" for e using False that by (cases best) auto
    then show ?thesis unfolding ins using ih r by (fastforce intro: order_trans)
  qed
qed

lemma read_root_absent:
  assumes "read_root_slots E slots best d = (Inr x, d')" and "wf_dev d" and "\<forall>slot \<in> set slots. \<forall>e. root_decode E (dev_content d slot) \<noteq> Inr e"
  shows "x = best \<and> wf_dev d' \<and> dev_content d' = dev_content d \<and> fd_blocks d' = fd_blocks d"
  using assms
proof (induction slots arbitrary: d)
  case Nil
  then show ?case by (auto simp: retE_run)
next
  case (Cons k slots)
  obtain buf d1 where rd: "dev_read k d = (Inr buf, d1)" and rest: "read_root_slots E slots (case root_decode E buf of
       Inr e \<Rightarrow> (if re_gen e AND (ROOT_SLOTS - 1) = k \<and> (case best of Some b \<Rightarrow> re_gen e > re_gen b | None \<Rightarrow> True) then Some e else best)
     | Inl _ \<Rightarrow> best) d1 = (Inr x, d')"
    using Cons.prems(1) unfolding read_root_slots.simps by (rule bindE_InrE)
  have r: "wf_dev d1" "fd_blocks d1 = fd_blocks d" "dev_content d1 = dev_content d" "buf = dev_content d k"
    using fdev.rd_inv [OF Cons.prems(2) rd] fdev.rd_ok [OF Cons.prems(2) rd] by auto
  obtain err where "root_decode E buf = Inl err" using Cons.prems(3) r(4) by (cases "root_decode E buf") auto
  then show ?case using Cons.IH [of d1] rest r Cons.prems(3) by simp
qed

lemma resolve_layout_spec:
  assumes run: "resolve_layout E rl d = (Inr (layout, gen, slot), d')" and wf: "wf_dev d" and root: "rootless E (alone d)"
  shows "wf_dev d' \<and> dev_content d' = dev_content d \<and> fd_blocks d' = fd_blocks d
    \<and> (\<forall>g. gen = Some g \<longrightarrow> holds_gen E rl 0 d {..< min (fd_blocks d) (2 ^ rl)} g)
    \<and> (\<forall>g. holds_gen E rl 0 d {..< min (fd_blocks d) (2 ^ rl)} g \<longrightarrow> (\<exists>g' \<ge> g. gen = Some g'))"
proof -
  obtain x d1 where x: "read_root E d = (Inr x, d1)"
    using run by (auto simp: resolve_layout_def Let_def elim!: bindE_InrE)
  have r: "x = None" "wf_dev d1" "dev_content d1 = dev_content d" "fd_blocks d1 = fd_blocks d"
    using read_root_absent [OF x [unfolded read_root_def] wf] root by (auto simp: rootless_def)
  have "best_gen_slots E rl 0 [0 ..< min (fd_blocks d1) (2 ^ rl)] None 0 d1 = (Inr (gen, slot), d')"
    using run x r(1) by (auto simp: resolve_layout_def Let_def bindE_def retE_def best_gen_def split: prod.splits sum.splits)
  from best_gen_slots_spec [OF this r(2)] show ?thesis using r by (simp add: holds_gen_def atLeast_upt lessThan_atLeast0)
qed

text \<open>The winner reports a generation no older than its head's, and the loser only older ones.\<close>

lemma winner_gen:
  fixes v :: "'z vault_scheme"
  assumes dur: "durable E v h m" and mir: "st_mirror v = alone d" and prof: "fixed_profile v" and w: "wf_dev d" "healthy d"
    and fit: "t_base (st_tract v) + se_tract_blocks h \<le> fd_blocks d" and root: "rootless E (alone d)"
    and run: "resolve_layout E (v_log2 v) d = (Inr (la, ga, sa), e)"
  shows "e = d \<and> (\<exists>g \<ge> se_gen h. ga = Some g)"
proof -
  let ?rl = "v_log2 v"
  have base: "t_base (st_tract v) = 2 ^ ?rl" "v_base v = 0" using prof by (simp_all add: fixed_profile_def)
  have "ring_cls E (disk_ring v h) (se_gen h mod 2 ^ ?rl) = Valid h" using dur by (simp add: durable_def ring_inv_def)
  then have "classify E (dev_content d (wadd 0 (se_gen h mod 2 ^ ?rl))) (se_gen h mod 2 ^ ?rl) (Some ?rl) = Valid h"
    using mir base healed_healthy [OF w(2)] by (simp add: ring_cls_def view_alone)
  moreover have "se_gen h mod 2 ^ ?rl \<in> {..< min (fd_blocks d) (2 ^ ?rl)}" using fit base
    by (simp add: order.strict_trans2 [OF mod_less_divisor])
  ultimately have "holds_gen E ?rl 0 d {..< min (fd_blocks d) (2 ^ ?rl)} (se_gen h)" unfolding holds_gen_def by blast
  then show ?thesis using resolve_layout_spec [OF run w(1) root] resolve_layout_fixed [OF w root run] by blast
qed

lemma loser_gen:
  assumes run: "resolve_layout E rl d = (Inr (lb, gb, sb), f)" and w: "wf_dev d" and root: "rootless E (alone d)"
    and older: "\<And>g. holds_gen E rl 0 d {..< 2 ^ rl} g \<Longrightarrow> g < gen" and g: "gb = Some g"
  shows "g < gen"
proof -
  have "holds_gen E rl 0 d {..< 2 ^ rl} g" using resolve_layout_spec [OF run w root] g by (auto simp: holds_gen_def)
  then show ?thesis by (rule older)
qed

text \<open>A run that reports success, step by step.\<close>

lemma verified_replicate_steps:
  assumes run: "verified_replicate E rl p = (Inr rep, p')"
  obtains la ga sa e lb gb sb f where "resolve_layout E rl (p_src p) = (Inr (la, ga, sa), e)" "resolve_layout E rl (p_dst p) = (Inr (lb, gb, sb), f)"
    "ga \<noteq> gb \<longrightarrow> (if gen_ge ga gb then replicate_into E rl \<lparr>p_src = e, p_dst = f\<rparr>
       else (case replicate_into E rl \<lparr>p_src = f, p_dst = e\<rparr> of (r, q) \<Rightarrow> (r, swap_pair q))) = (Inr rep, p')"
proof -
  obtain la ga sa p1 lb gb sb p2 where a: "on_src (resolve_layout E rl) p = (Inr (la, ga, sa), p1)" and b: "on_dst (resolve_layout E rl) p1 = (Inr (lb, gb, sb), p2)"
    and rest: "bindE (if ga \<noteq> None \<and> ga = gb \<and> sa = sb \<and> dl_spine_base la = dl_spine_base lb \<and> fd_blocks (p_src p2) = fd_blocks (p_dst p2)
       then bindE (on_src (dev_read (wadd (dl_spine_base la) sa))) (\<lambda>ha. bindE (on_dst (dev_read (wadd (dl_spine_base lb) sb))) (\<lambda>hb. retE (ha = hb)))
       else retE False) (\<lambda>converged p.
     if converged then (Inr \<lparr>spine_copied = 0, tract_copied = 0\<rparr>, p)
     else if gen_ge ga gb then replicate_into E rl p
     else (case replicate_into E rl (swap_pair p) of (r, q) \<Rightarrow> (r, swap_pair q))) p2 = (Inr rep, p')"
    using run unfolding verified_replicate_def
    by (elim bindE_InrE) (simp only: split_paired_all prod.case, erule bindE_InrE, simp only: split_paired_all prod.case)
  obtain e where e: "resolve_layout E rl (p_src p) = (Inr (la, ga, sa), e)" "p1 = p\<lparr>p_src := e\<rparr>" using a by (auto simp: on_src_def split: prod.splits)
  obtain f where f: "resolve_layout E rl (p_dst p) = (Inr (lb, gb, sb), f)" "p2 = \<lparr>p_src = e, p_dst = f\<rparr>"
    using b e(2) by (cases p) (auto simp: on_dst_def split: prod.splits)
  have swap: "swap_pair p2 = \<lparr>p_src = f, p_dst = e\<rparr>" by (simp add: swap_pair_def f(2))
  show thesis by (rule that [OF e(1) f(1)]) (use rest swap f(2) in \<open>auto simp: bindE_retE\<close>)
qed

text \<open>The two devices as the arguments of the resync, the winner first or second.\<close>

definition arranged :: "bool \<Rightarrow> filedev \<Rightarrow> filedev \<Rightarrow> pair" where
  "arranged winner_first w l = (if winner_first then \<lparr>p_src = w, p_dst = l\<rparr> else \<lparr>p_src = l, p_dst = w\<rparr>)"

lemma verified_replicate_newer:
  fixes v :: "'z vault_scheme"
  assumes run: "verified_replicate E (v_log2 v) (arranged fst_wins d l) = (Inr rep, p')" and w: "wf_dev d" "healthy d" "wf_dev l"
    and dur: "durable E v h m" and mir: "st_mirror v = alone d" and prof: "fixed_profile v" and whole: "committed_intact E v h"
    and fit: "t_base (st_tract v) + se_tract_blocks h \<le> fd_blocks d" and root: "rootless E (alone d)" "rootless E (alone l)"
    and older: "\<And>g. holds_gen E (v_log2 v) 0 l {..< 2 ^ v_log2 v} g \<Longrightarrow> g < se_gen h"
  shows "\<exists>l'. p' = arranged fst_wins d l' \<and> durable E (v\<lparr>st_mirror := alone l'\<rparr>) h m"
proof -
  let ?rl = "v_log2 v"
  obtain la ga sa e lb gb sb f where a: "resolve_layout E ?rl (p_src (arranged fst_wins d l)) = (Inr (la, ga, sa), e)"
    and b: "resolve_layout E ?rl (p_dst (arranged fst_wins d l)) = (Inr (lb, gb, sb), f)"
    and rest: "ga \<noteq> gb \<longrightarrow> (if gen_ge ga gb then replicate_into E ?rl \<lparr>p_src = e, p_dst = f\<rparr>
       else (case replicate_into E ?rl \<lparr>p_src = f, p_dst = e\<rparr> of (r, q) \<Rightarrow> (r, swap_pair q))) = (Inr rep, p')"
    by (rule verified_replicate_steps [OF run])
  note win = winner_gen [OF dur mir prof w(1,2) fit root(1)]
  have lose: "g < se_gen h" if "resolve_layout E ?rl l = (Inr (x, y, z), u)" "y = Some g" for x y z u g
    by (rule loser_gen [OF that(1) w(3) root(2) _ that(2)]) (rule older)
  note copy = replicate_durable [OF _ _ dur mir prof whole fit root(1)]
  show ?thesis
  proof (cases fst_wins)
    case True
    then have a': "resolve_layout E ?rl d = (Inr (la, ga, sa), e)" and b': "resolve_layout E ?rl l = (Inr (lb, gb, sb), f)"
      using a b by (simp_all add: arranged_def)
    obtain g where g: "e = d" "ga = Some g" "se_gen h \<le> g" using win [OF a'] by blast
    have "g' < g" if "gb = Some g'" for g' using lose [OF b' that] g(3) by simp
    then have "ga \<noteq> gb" "gen_ge ga gb" using g(2) by (auto simp: gen_ge_def split: option.splits)
    then have r: "replicate_into E ?rl \<lparr>p_src = d, p_dst = f\<rparr> = (Inr rep, p')" using rest g(1) by simp
    have "paired d \<lparr>p_src = d, p_dst = f\<rparr>" using w resolve_layout_spec [OF b' w(3) root(2)] by (simp add: paired_def)
    then show ?thesis using copy [OF r] True by (cases p') (auto simp: arranged_def)
  next
    case False
    then have a': "resolve_layout E ?rl l = (Inr (la, ga, sa), e)" and b': "resolve_layout E ?rl d = (Inr (lb, gb, sb), f)"
      using a b by (simp_all add: arranged_def)
    obtain g where g: "f = d" "gb = Some g" "se_gen h \<le> g" using win [OF b'] by blast
    have "g' < g" if "ga = Some g'" for g' using lose [OF a' that] g(3) by simp
    then have "ga \<noteq> gb" "\<not> gen_ge ga gb" using g(2) by (fastforce simp: gen_ge_def split: option.splits)+
    then obtain q where r: "replicate_into E ?rl \<lparr>p_src = d, p_dst = e\<rparr> = (Inr rep, q)" "p' = swap_pair q" using rest g(1) by (auto split: prod.splits)
    have "paired d \<lparr>p_src = d, p_dst = e\<rparr>" using w resolve_layout_spec [OF a' w(3) root(2)] by (simp add: paired_def)
    then show ?thesis using copy [OF r(1)] r(2) False by (cases q) (auto simp: arranged_def swap_pair_def)
  qed
qed

section \<open>Sound devices\<close>

text \<open>On two sound devices of the same size no step fails.\<close>

definition sound_pair :: "nat \<Rightarrow> pair \<Rightarrow> bool" where
  "sound_pair n p \<longleftrightarrow> wf_dev (p_src p) \<and> healthy (p_src p) \<and> fd_blocks (p_src p) = n
     \<and> wf_dev (p_dst p) \<and> healthy (p_dst p) \<and> fd_blocks (p_dst p) = n"

lemma write_verified_one_sound:
  assumes "wf_dev d" and "healthy d" and "l < fd_blocks d" and "length b = BLOCK"
  shows "\<exists>d'. write_verified_one l b d = (Inr (), d') \<and> wf_dev d' \<and> healthy d' \<and> fd_blocks d' = fd_blocks d"
proof -
  let ?d = "d\<lparr>fd_file := (fd_file d)[l := b]\<rparr>"
  have w: "dev_write l b d = (Inr (), ?d)" by (rule dev_write_healthy [OF assms(2,3)])
  have ok: "wf_dev ?d" "healthy ?d" "fd_blocks ?d = fd_blocks d" using fdev.wr_inv [OF assms(1,4) w] assms(2) by auto
  have "dev_content ?d l = b" using assms(1,3) by (simp add: dev_content_def wf_dev_def)
  then have "dev_read l ?d = (Inr b, ?d)" using dev_read_healthy [OF ok(1,2)] assms(3) by simp
  then have "write_verified_one l b d = (Inr (), ?d)" using w dev_flush_healthy [OF ok(2)] by (simp add: write_verified_one_def bindE_def retE_def)
  then show ?thesis using ok by blast
qed

lemma converge_block_sound:
  assumes "sound_pair n p" and "a < n"
  shows "\<exists>k p'. converge_block a p = (Inr k, p') \<and> sound_pair n p'"
proof -
  have s: "dev_read a (p_src p) = (Inr (dev_content (p_src p) a), p_src p)" "dev_read a (p_dst p) = (Inr (dev_content (p_dst p) a), p_dst p)"
    "length (dev_content (p_src p) a) = BLOCK"
    using assms by (auto simp: sound_pair_def dev_read_healthy content_block)
  obtain d where d: "write_verified_one a (dev_content (p_src p) a) (p_dst p) = (Inr (), d)" "wf_dev d" "healthy d" "fd_blocks d = n"
    using write_verified_one_sound [of "p_dst p" a "dev_content (p_src p) a"] assms s(3) by (auto simp: sound_pair_def)
  show ?thesis using assms d by (auto simp: converge_block_def on_src_def on_dst_def bindE_def retE_def s(1,2) sound_pair_def)
qed

lemma converge_blocks_sound:
  assumes "sound_pair n p" and "\<forall>a \<in> set as. a < n"
  shows "\<exists>k p'. converge_blocks as p = (Inr k, p') \<and> sound_pair n p'"
proof -
  have "\<exists>ks p'. mapE converge_block as p = (Inr ks, p') \<and> sound_pair n p'"
    using assms
  proof (induction as arbitrary: p)
    case (Cons a as)
    obtain k p1 where p1: "converge_block a p = (Inr k, p1)" "sound_pair n p1" using converge_block_sound [OF Cons.prems(1), of a] Cons.prems(2) by auto
    then obtain ks p2 where "mapE converge_block as p1 = (Inr ks, p2)" "sound_pair n p2" using Cons.IH [of p1] Cons.prems(2) by auto
    then show ?case using p1(1) by (auto simp: bindE_def retE_def)
  qed (simp add: retE_def)
  then show ?thesis by (auto simp: converge_blocks_def bindE_def retE_def)
qed

lemma best_gen_slots_sound:
  assumes "wf_dev d" and "healthy d" and "\<forall>k \<in> set slots. wadd base k < fd_blocks d"
  shows "\<exists>x. best_gen_slots E rl base slots best slot d = (Inr x, d)"
  using assms(3)
proof (induction slots arbitrary: best slot)
  case (Cons k slots)
  then have "dev_read (wadd base k) d = (Inr (dev_content d (wadd base k)), d)" using assms(1,2) by (simp add: dev_read_healthy)
  then show ?case using Cons by (auto simp: bindE_def split: Classified.splits)
qed (simp add: retE_def)

lemma resolve_layout_sound:
  assumes "wf_dev d" and "healthy d" and "rootless E (alone d)"
  shows "\<exists>layout gen slot. resolve_layout E rl d = (Inr (layout, gen, slot), d)"
proof -
  have "read_root E d = (Inr None, d)"
    unfolding read_root_def by (rule read_root_none [OF assms(1,2)]) (use assms(3) in \<open>auto simp: rootless_def\<close>)
  moreover have "fd_blocks d < U64" using assms(1) by (simp add: wf_dev_def)
  then have "\<exists>x. best_gen_slots E rl 0 [0 ..< min (fd_blocks d - 0) (2 ^ rl)] None 0 d = (Inr x, d)"
    by (intro best_gen_slots_sound [OF assms(1,2)]) (auto simp: wadd_def)
  ultimately show ?thesis by (auto simp: resolve_layout_def Let_def bindE_def retE_def best_gen_def)
qed

lemma batch_solo_sound:
  assumes d: "wf_dev d" "healthy d" and b: "\<forall>(l, b) \<in> set blocks. l < fd_blocks d \<and> length b = BLOCK"
  shows "\<exists>k d'. write_verified_batch_solo blocks d = (Inr k, d') \<and> wf_dev d' \<and> healthy d' \<and> fd_blocks d' = fd_blocks d"
proof (cases "blocks = []")
  case True
  then show ?thesis using d by (simp add: write_verified_batch_solo_def retE_def)
next
  case False
  let ?P = "\<lambda>e. wf_dev e \<and> healthy e \<and> fd_blocks e = fd_blocks d"
  have w: "\<exists>e'. (\<lambda>(lba, b). dev_write lba b) x e = (Inr (), e') \<and> ?P e'" if in_x: "x \<in> set blocks" and e: "?P e" for x e
  proof -
    obtain l c where x: "x = (l, c)" "l < fd_blocks d" "length c = BLOCK" using in_x b by (cases x) auto
    have run: "dev_write l c e = (Inr (), e\<lparr>fd_file := (fd_file e)[l := c]\<rparr>)" using dev_write_healthy e x(2) by simp
    then show ?thesis using fdev.wr_inv [OF _ x(3) run] e x(1) by simp
  qed
  obtain d1 where d1: "forE blocks (\<lambda>(lba, b). dev_write lba b) d = (Inr (), d1)" "?P d1"
    using forE_progress [of ?P d blocks "\<lambda>(lba, b). dev_write lba b"] d w by auto
  let ?f = "\<lambda>(lba, b). bindE (dev_read lba) (\<lambda>check. if check \<noteq> b then write_verified_one lba b else retE ())"
  have c: "\<exists>e'. ?f x e = (Inr (), e') \<and> ?P e'" if in_x: "x \<in> set blocks" and e: "?P e" for x e
  proof -
    obtain l c where x: "x = (l, c)" "l < fd_blocks d" "length c = BLOCK" using in_x b by (cases x) auto
    then show ?thesis using e dev_read_healthy [of e l] write_verified_one_sound [of e l c] by (auto simp: bindE_def retE_def)
  qed
  obtain d2 where d2: "forE blocks ?f d1 = (Inr (), d2)" "?P d2" using forE_progress [of ?P d1 blocks ?f] d1(2) c by blast
  show ?thesis using False d1 d2 dev_flush_healthy [of d1] by (simp add: write_verified_batch_solo_def bindE_def retE_def)
qed

lemma to_fix_ok:
  assumes "length sbufs \<le> k" and "at + k \<le> n" and "n < U64" and "\<forall>b \<in> set sbufs. length b = BLOCK"
  shows "\<forall>(l, b) \<in> set (to_fix E at sbufs dbufs). l < n \<and> length b = BLOCK"
proof -
  have "wadd at i = at + i \<and> at + i < n" if "i < length sbufs" for i
    using that assms(1-3) wadd_eq [of at i] by simp
  then show ?thesis using assms(4) by (auto simp: to_fix_def in_set_enumerate_eq set_zip split: if_splits)
qed

lemma fix_runs_sound:
  assumes "sound_pair n p" and "\<forall>r \<in> set rs. base + fst r + snd r \<le> n" and "\<forall>(l, b) \<in> set fx. l < n \<and> length b = BLOCK"
  shows "\<exists>k p'. fix_runs E base rs fx c p = (Inr k, p') \<and> sound_pair n p'"
  using assms
proof (induction rs arbitrary: fx c p)
  case Nil
  then obtain k d' where "write_verified_batch_solo fx (p_dst p) = (Inr k, d')" "wf_dev d'" "healthy d'" "fd_blocks d' = n"
    using batch_solo_sound [of "p_dst p" fx] by (auto simp: sound_pair_def)
  then show ?case using Nil.prems(1) by (auto simp: on_dst_def bindE_def retE_def sound_pair_def)
next
  case (Cons r rs)
  let ?at = "base + fst r" and ?s = "map (dev_content (p_src p)) [base + fst r ..< base + fst r + snd r]"
    and ?d = "map (dev_content (p_dst p)) [base + fst r ..< base + fst r + snd r]"
  have d: "wf_dev (p_src p)" "healthy (p_src p)" "fd_blocks (p_src p) = n" "wf_dev (p_dst p)" "healthy (p_dst p)" "fd_blocks (p_dst p) = n" "n < U64"
    using Cons.prems(1) by (auto simp: sound_pair_def wf_dev_def)
  have le: "?at + snd r \<le> n" using Cons.prems(2) by simp
  have w: "wadd base (fst r) = ?at" using le d(7) by (intro wadd_eq) linarith
  have rd: "dev_read_run ?at (snd r) (p_src p) = (Inr ?s, p_src p)" "dev_read_run ?at (snd r) (p_dst p) = (Inr ?d, p_dst p)"
    using dev_read_run_healthy [of "p_src p" ?at "snd r"] dev_read_run_healthy [of "p_dst p" ?at "snd r"] d le by auto
  let ?fx = "fx @ to_fix E ?at ?s ?d"
  have "\<forall>b \<in> set ?s. length b = BLOCK" using d le by (auto simp: content_block)
  then have fx: "\<forall>(l, b) \<in> set ?fx. l < n \<and> length b = BLOCK"
    using Cons.prems(3) to_fix_ok [of ?s "snd r" ?at n E ?d] le d(7) by auto
  have rs: "\<forall>r \<in> set rs. base + fst r + snd r \<le> n" using Cons.prems(2) by simp
  show ?case
  proof (cases "length ?fx \<ge> STEP")
    case True
    obtain k d' where b: "write_verified_batch_solo ?fx (p_dst p) = (Inr k, d')" "wf_dev d'" "healthy d'" "fd_blocks d' = n"
      using batch_solo_sound [of "p_dst p" ?fx] fx d by auto
    have "sound_pair n (p\<lparr>p_dst := d'\<rparr>)" using Cons.prems(1) b by (simp add: sound_pair_def)
    from Cons.IH [OF this rs, of "[]" "c + k"] show ?thesis using True b(1) rd by (simp add: Let_def w bindE_def on_src_def on_dst_def del: map_map)
  next
    case False
    from Cons.IH [OF Cons.prems(1) rs fx, of c] show ?thesis using False rd by (simp add: Let_def w bindE_def on_src_def on_dst_def)
  qed
qed

text \<open>The live set of a sound winner whose tree reaches no position twice.\<close>

lemma winner_live_returns:
  fixes v :: "'z vault_scheme"
  assumes dur: "durable E v h m" and mir: "st_mirror v = alone d" "wf_dev d" "healthy d" and p: "fixed_profile v"
    and fit: "t_base (st_tract v) + se_tract_blocks h \<le> fd_blocks d" and whole: "committed_intact E v h" and once: "distinct (committed_walk E v h)"
  shows "\<exists>live. winner_live E (v_log2 v) \<lparr>dl_spine_base = 0, dl_tract_base = 2 ^ v_log2 v, dl_has_root = False\<rparr> d = (Inr (Some live), d)
    \<and> set live = committed_positions E v h"
proof -
  have hd: "healed d = d" by (rule healed_healthy [OF mir(3)])
  have wf: "wf_mirror (st_mirror v)" using alone_wf [OF mir(2)] mir(1) by simp
  have base: "t_base (st_tract v) = 2 ^ v_log2 v" using p by (simp add: fixed_profile_def)
  have open1: "ring_open_at E (alone d) (v_log2 v) 0 = (Inr (disk_ring v h), disk_ring v h)"
    using reopen_ring [OF dur wf p] fit base mir(1) hd by simp
  have tw: "tract_wf (head_tract (st_tract v) h)" using dur by (auto simp: durable_def index_map_def holds_def store_ok_def)
  then have small: "2 ^ v_log2 v + se_tract_blocks h < U64" "0 < se_tract_blocks h" using base by (simp_all add: tract_wf_def)
  let ?t = "\<lparr>t_base = 2 ^ v_log2 v, t_len = se_tract_blocks h, t_plow = se_plow h, t_reap = (case se_reap h of Some r \<Rightarrow> r | None \<Rightarrow> se_plow h), t_fence_limit = None\<rparr> :: tract"
  let ?s = "from_root (alone d) ?t (se_hamt_hash h) (se_hamt_lba h)"
  let ?V = "committed_view v" and ?L = "se_tract_blocks h" and ?Oc = "occ (head_tract (st_tract v) h)"
  let ?w = "(walk_begin [] ?s)\<lparr>w_todo := walk_start ?s, w_visited := visited_new ?L\<rparr>"
  have start: "walk_start ?s = (if se_hamt_hash h = replicate 32 0 then [] else [(se_hamt_lba h, se_hamt_hash h, replicate 32 0, 0)])"
    by (simp add: walk_start_def from_root_def)
  have view: "view (alone d) = dev_content d" using rebooted_view [of "alone d"] hd by simp
  have wk: "walks (alone d) ?V ?L ?w"
    using alone_wf [OF mir(2)] small hd view mir(1) base
    by (simp add: walks_def walk_begin_def from_root_def tview_def [abs_def] committed_view_def [abs_def])
  have "?Oc \<subseteq> {..< ?L}" using small(2) by (auto simp: occ_def head_tract_def)
  moreover have "items_ok E ?V ?L ?Oc (walk_start ?s)" using durable_items [OF dur] by (simp add: start)
  moreover have "t_base (st_tract ?w) = 2 ^ v_log2 v" by (simp add: walk_begin_def from_root_def)
  ultimately have sw: "sound_walk E (alone d) ?V ?L ?Oc ?w" using wk fit base marked_new(3) [of ?L] by (simp add: sound_walk_def)
  have "spare ?w < tree_fuel ?w" by (rule spare_new) (simp add: walk_begin_def from_root_def)
  moreover have "fresh (items_list E ?V ?L (w_todo ?w)) ?w"
    using once marked_new(1) [of ?L] by (simp add: fresh_def start committed_walk_def item_list_def split: if_splits)
  ultimately obtain w where w: "walk_tree_loop (tree_fuel ?w) E ?w = (Inr (), w)" "st_mirror w = st_mirror ?w"
    using walk_tree_loop_total [OF sw, of "tree_fuel ?w"] by auto
  have "walk_tree_collect E (walk_begin [] ?s) = (Inr (), w)"
    using w(1) by (simp add: walk_tree_collect_def walk_begin_def from_root_def tree_fuel_def walk_start_def)
  then have "\<exists>live d'. winner_live E (v_log2 v) \<lparr>dl_spine_base = 0, dl_tract_base = 2 ^ v_log2 v, dl_has_root = False\<rparr> d = (Inr (Some live), d')"
    using open1 mir(1) hd small fit base by (simp add: winner_live_def Let_def checked_add_def)
  then show ?thesis using winner_live_spec [OF dur mir p _ whole] fit base by fastforce
qed

lemma replicate_into_returns:
  fixes v :: "'z vault_scheme"
  assumes p: "sound_pair n p" "p_src p = d" and dur: "durable E v h m" and mir: "st_mirror v = alone d" and prof: "fixed_profile v"
    and fit: "t_base (st_tract v) + se_tract_blocks h \<le> n" and whole: "committed_intact E v h" and once: "distinct (committed_walk E v h)"
    and root: "rootless E (alone d)"
  shows "\<exists>rep p'. replicate_into E (v_log2 v) p = (Inr rep, p')"
proof -
  let ?rl = "v_log2 v" and ?l = "\<lparr>dl_spine_base = 0, dl_tract_base = 2 ^ v_log2 v, dl_has_root = False\<rparr>"
  have w: "wf_dev d" "healthy d" "fd_blocks d = n" "fd_blocks (p_dst p) = n" "n < U64" using p by (auto simp: sound_pair_def wf_dev_def)
  have base: "t_base (st_tract v) = 2 ^ ?rl" using prof by (simp add: fixed_profile_def)
  obtain la ga sa where a: "resolve_layout E ?rl d = (Inr (la, ga, sa), d)" using resolve_layout_sound [OF w(1,2) root] by blast
  have la: "la = ?l" using resolve_layout_fixed [OF w(1,2) root a] by simp
  have "\<forall>x \<in> set (map (wadd 0) [0 ..< 2 ^ ?rl]). x < n" using fit base w(5) by (auto simp: wadd_def)
  then obtain k p1 where p1: "converge_blocks (map (wadd 0) [0 ..< 2 ^ ?rl]) p = (Inr k, p1)" "sound_pair n p1"
    using converge_blocks_sound [OF p(1)] by blast
  have "paired d p" using p by (simp add: paired_def sound_pair_def)
  then have src: "p_src p1 = d" using converge_blocks_spec [OF p1(1)] by (auto simp: paired_def)
  obtain live where live: "winner_live E ?rl ?l d = (Inr (Some live), d)" "set live = committed_positions E v h"
    using winner_live_returns [OF dur mir w(1,2) prof _ whole once] fit w(3) by auto
  have win: "on_src (winner_live E ?rl ?l) p1 = (Inr (Some live), p1)" using src live(1) by (simp add: on_src_def)
  have tw: "tract_wf (head_tract (st_tract v) h)" using dur by (auto simp: durable_def index_map_def holds_def store_ok_def)
  have "committed_positions E v h \<subseteq> occ (head_tract (st_tract v) h)" by (rule committed_in_window [where m = m]) (use dur in \<open>simp add: durable_def\<close>)
  then have lt: "x < se_tract_blocks h" if "x \<in> set live" for x using that tw live(2) by (auto simp: occ_def tract_wf_def)
  have cov: "covered (live_runs live) = set live" by (rule live_runs_cover) (use lt fit w(5) in force)
  have "2 ^ ?rl + fst r + snd r \<le> n" if r: "r \<in> set (live_runs live)" for r
  proof (cases "snd r = 0")
    case True
    then show ?thesis using lt [OF run_starts [OF r]] fit base by simp
  next
    case False
    then have "fst r + (snd r - 1) \<in> {fst r ..< fst r + snd r}" by simp
    then have "fst r + (snd r - 1) \<in> covered (live_runs live)" unfolding covered_def case_prod_unfold using r by blast
    then show ?thesis using lt [of "fst r + (snd r - 1)"] cov fit base False by simp
  qed
  then have "\<forall>r \<in> set (live_runs live). 2 ^ ?rl + fst r + snd r \<le> n" by blast
  from fix_runs_sound [OF p1(2) this, of "[]" E 0] obtain c p2 where fx: "fix_runs E (2 ^ ?rl) (live_runs live) [] 0 p1 = (Inr c, p2)" by auto
  have ra: "on_src (resolve_layout E ?rl) p = (Inr (?l, ga, sa), p)" using a la p(2) by (simp add: on_src_def)
  show ?thesis using w p(2) fx by (simp add: replicate_into_def bindE_def retE_def ra p1(1) win)
qed

lemma verified_replicate_returns:
  fixes v :: "'z vault_scheme"
  assumes w: "wf_dev d" "healthy d" "fd_blocks d = n" and l: "wf_dev l" "healthy l" "fd_blocks l = n"
    and dur: "durable E v h m" and mir: "st_mirror v = alone d" and prof: "fixed_profile v"
    and fit: "t_base (st_tract v) + se_tract_blocks h \<le> n" and whole: "committed_intact E v h" and once: "distinct (committed_walk E v h)"
    and root: "rootless E (alone d)" "rootless E (alone l)"
    and older: "\<And>g. holds_gen E (v_log2 v) 0 l {..< 2 ^ v_log2 v} g \<Longrightarrow> g < se_gen h"
  shows "\<exists>rep p'. verified_replicate E (v_log2 v) (arranged fst_wins d l) = (Inr rep, p')"
proof -
  let ?rl = "v_log2 v" and ?p = "\<lparr>p_src = d, p_dst = l\<rparr>"
  have "sound_pair n ?p" using w l by (simp add: sound_pair_def)
  then obtain rep p' where into: "replicate_into E ?rl ?p = (Inr rep, p')"
    using replicate_into_returns [of n ?p d E v h m] dur mir prof fit whole once root by auto
  obtain la ga sa where a: "resolve_layout E ?rl d = (Inr (la, ga, sa), d)" using resolve_layout_sound [OF w(1,2) root(1)] by blast
  obtain lb gb sb where b: "resolve_layout E ?rl l = (Inr (lb, gb, sb), l)" using resolve_layout_sound [OF l(1,2) root(2)] by blast
  obtain g where g: "ga = Some g" "se_gen h \<le> g" using winner_gen [OF dur mir prof w(1,2) _ root(1) a] fit w(3) by auto
  have "g' < g" if "gb = Some g'" for g'
    using loser_gen [OF b l(1) root(2) _ that, of "se_gen h"] older g(2) by (meson less_le_trans)
  then have "ga \<noteq> gb" "gen_ge ga gb" "\<not> gen_ge gb ga" using g(1) by (fastforce simp: gen_ge_def split: option.splits)+
  moreover have "swap_pair \<lparr>p_src = l, p_dst = d\<rparr> = ?p" by (simp add: swap_pair_def)
  ultimately show ?thesis using into a b
    by (cases fst_wins) (simp_all add: arranged_def verified_replicate_def on_src_def on_dst_def bindE_def retE_def)
qed

end
