(* ===== verification/Planted_Vault.thy ===== *)
theory Planted_Vault
  imports Settle_Total Genesis_Props Replicate_Props
begin

text \<open>
  A small vault with one key: what a device of sixteen blocks holds after genesis, a put and a commit,
  written out block by block. It is the concrete input of the witnesses that need a committed map
  which is not empty.
\<close>

definition planted_leaf :: block where
  "planted_leaf = doc_block ref_env SCHEMA_LONE (lone_fields (replicate 32 7) [1, 2, 3])"

definition planted_entry :: SpineEntry where
  "planted_entry = (genesis_entry 2 12 0)\<lparr>se_gen := 1, se_prev_hash := replicate 32 1, se_hamt_hash := replicate 32 1, se_plow := 1, se_live := 1\<rparr>"

definition planted_dev :: filedev where
  "planted_dev = \<lparr>fd_file = (replicate 16 ZERO_BLOCK)[0 := doc_block ref_env SCHEMA (spine_pairs (genesis_entry 2 12 0)),
       1 := doc_block ref_env SCHEMA (spine_pairs planted_entry), 4 := planted_leaf], fd_blocks = 16, fd_faults = []\<rparr>"

abbreviation planted_map :: "hash \<rightharpoonup> u8 list" where
  "planted_map \<equiv> [replicate 32 7 \<mapsto> [1, 2, 3]]"

definition planted :: vault where
  "planted = load_root (replicate 32 1) 0 (new_vault \<lparr>r_mirror = alone planted_dev, r_log2 = 2, r_base = 0, r_head = Some (1, planted_entry)\<rparr>
     \<lparr>t_base = 4, t_len = 12, t_plow = 1, t_reap = 0, t_fence_limit = None\<rparr> None UnlinkOnly)"

section \<open>The blocks\<close>

lemma planted_entries: "spine_wf planted_entry" "spine_sane planted_entry" "spine_wf (genesis_entry 2 12 0)" "spine_sane (genesis_entry 2 12 0)"
  using genesis_entry_ok [of 2 12 0] by (simp_all add: planted_entry_def genesis_entry_def spine_wf_def spine_sane_def)

lemma planted_leaf_doc:
  "length planted_leaf = BLOCK" "doc_of ref_env planted_leaf (replicate 32 1) L = Inr (Some (DocLone (replicate 32 7) [1, 2, 3]))"
proof -
  have cap: "length [1, 2, 3 :: u8] \<le> lone_capacity ref_env" by (simp add: lone_capacity_def body_start_def ref_env_def ref_flatten_def BLOCK_def)
  have key: "length (replicate 32 7 :: hash) = 32" by simp
  show "length planted_leaf = BLOCK" unfolding planted_leaf_def by (rule length_doc_block [OF ref_env_ok lone_doc(2) [OF ref_env_ok key cap]])
  have "blake3 ref_env b = replicate 32 1" for b by (simp add: ref_env_def)
  then show "doc_of ref_env planted_leaf (replicate 32 1) L = Inr (Some (DocLone (replicate 32 7) [1, 2, 3]))"
    using encode_lone_ok(2) [OF ref_env_ok key cap] doc_block_not_zero [OF ref_env_ok] sealed_hp_doc_block [OF ref_env_ok]
    by (simp add: doc_of_def planted_leaf_def points_past_def)
qed

lemma planted_content:
  "dev_content planted_dev 0 = doc_block ref_env SCHEMA (spine_pairs (genesis_entry 2 12 0))"
  "dev_content planted_dev (Suc 0) = doc_block ref_env SCHEMA (spine_pairs planted_entry)"
  "dev_content planted_dev 4 = planted_leaf"
  "l < 16 \<Longrightarrow> l \<notin> {0, 1, 4} \<Longrightarrow> dev_content planted_dev l = ZERO_BLOCK"
  by (auto simp: dev_content_def planted_dev_def nth_list_update)

lemma planted_dev_ok: "wf_dev planted_dev" "healthy planted_dev" "fd_blocks planted_dev = 16"
proof -
  have "length (doc_block ref_env SCHEMA (spine_pairs e)) = BLOCK" if "spine_wf e" for e
    using spine_doc(2) [OF ref_env_ok that] length_doc_block [OF ref_env_ok] by simp
  then show "wf_dev planted_dev" using planted_entries planted_leaf_doc(1)
    by (auto simp: wf_dev_def planted_dev_def dest!: set_update_subset_insert [THEN subsetD])
qed (simp_all add: planted_dev_def healthy_def)

lemma planted_cls:
  "classify ref_env (dev_content planted_dev 0) 0 (Some 2) = Valid (genesis_entry 2 12 0)"
  "classify ref_env (dev_content planted_dev 1) 1 (Some 2) = Valid planted_entry"
proof -
  have "ring_slot 2 0 = 0" "ring_slot 2 1 = 1" by (simp_all add: ring_slot_eq)
  moreover have "se_ring_log2 (genesis_entry 2 12 0) = 2" "se_gen (genesis_entry 2 12 0) = 0" "se_ring_log2 planted_entry = 2" "se_gen planted_entry = 1"
    by (simp_all add: planted_entry_def genesis_entry_def)
  ultimately show "classify ref_env (dev_content planted_dev 0) 0 (Some 2) = Valid (genesis_entry 2 12 0)"
    "classify ref_env (dev_content planted_dev 1) 1 (Some 2) = Valid planted_entry"
    using classify_encoded [OF ref_env_ok planted_entries(3,4)] classify_encoded [OF ref_env_ok planted_entries(1,2)] by (simp_all add: planted_content)
qed

section \<open>The vault\<close>

lemma planted_simps [simp]:
  "st_mirror planted = alone planted_dev" "v_log2 planted = 2" "v_base planted = 0" "t_base (st_tract planted) = 4" "t_len (st_tract planted) = 12"
  "t_plow (st_tract planted) = 1" "t_reap (st_tract planted) = 0" "v_head planted = Some (1, planted_entry)" "h_arena planted = []"
  "h_root planted = Some (Committed (replicate 32 1) 0)" "v_root planted = None" "v_pending_reap planted = None"
  by (simp_all add: planted_def new_vault_def load_root_def replicate_eq_replicate)

lemma planted_entry_simps [simp]: "se_gen planted_entry = 1" "se_tract_blocks planted_entry = 12" "se_plow planted_entry = 1" "se_ring_log2 planted_entry = 2"
  "se_hamt_hash planted_entry = replicate 32 1" "se_hamt_lba planted_entry = 0" "se_reap planted_entry = Some 0"
  by (simp_all add: planted_entry_def genesis_entry_def)

lemma planted_healed [simp]: "healed planted_dev = planted_dev"
  using planted_dev_ok(2) by (rule healed_healthy)

lemma planted_ring:
  assumes "r_mirror r = alone planted_dev" "r_log2 r = 2" "r_base r = 0" "r_head r = Some (1, planted_entry)"
  shows "ring_inv ref_env r"
proof -
  have n: "ring_n r = 4" using assms by (simp add: ring_n_def)
  have c: "ring_cls ref_env r k = classify ref_env (dev_content planted_dev k) k (Some 2)" if "k < 4" for k
    using assms that by (simp add: ring_cls_def view_alone wadd_def)
  have "ring_cls ref_env r 0 = Valid (genesis_entry 2 12 0)" "ring_cls ref_env r 1 = Valid planted_entry" using c [of 0] c [of 1] planted_cls by simp_all
  moreover have "ring_cls ref_env r k = Empty" if "k = 2 \<or> k = 3" for k using that c [of k] planted_content(4) [of k] by auto
  moreover have "k = 0 \<or> k = 1 \<or> k = 2 \<or> k = 3" if "k < 4" for k :: nat using that by auto
  ultimately have "lap_shaped (ring_cls ref_env r) 4 1" by (fastforce simp: lap_shaped_def genesis_entry_def)
  then show ?thesis using assms n \<open>ring_cls ref_env r 1 = Valid planted_entry\<close> planted_entries(1) alone_wf [OF planted_dev_ok(1)]
    by (simp add: ring_inv_def ring_ok_def ring_fits_def)
qed

lemma planted_index:
  fixes s :: "'z hst_scheme"
  assumes s: "st_mirror s = alone planted_dev" "t_base (st_tract s) = 4" "t_len (st_tract s) = 12" "t_plow (st_tract s) = 1" "t_reap (st_tract s) = 0"
    and r: "h_root s = Some (Committed (replicate 32 1) 0)" "h_arena s = []"
  shows "index_map ref_env s planted_map"
proof -
  have ok: "store_ok s" using s alone_wf [OF planted_dev_ok(1)] by (simp add: store_ok_def tract_wf_def)
  have v: "tview s 0 = planted_leaf" using s by (simp add: tview_def view_alone planted_content(3))
  have occ: "0 \<in> occ (st_tract s)" using s by (simp add: occ_def)
  have "repr ref_env (tview s) 12 (occ (st_tract s)) [] 0 (Committed (replicate 32 1) 0) (TLeaf (replicate 32 7) [1, 2, 3]) {}"
    by (rule repr_leaf [OF occ, where doc = "DocLone (replicate 32 7) [1, 2, 3]"]) (simp_all add: v planted_leaf_doc(2) leaf_doc_def)
  then have "holds ref_env s (Some (TLeaf (replicate 32 7) [1, 2, 3]))" using ok s(3) r by (auto simp: holds_def)
  moreover have "planted_map = (\<lambda>x. lookup_opt x 0 (Some (TLeaf (replicate 32 7) [1, 2, 3])))" by (auto simp: fun_eq_iff)
  ultimately show ?thesis using ref_env_ok unfolding index_map_def by blast
qed

lemma planted_durable: "durable ref_env planted planted_entry planted_map"
proof -
  have "index_map ref_env (head_index (rebooted (st_mirror planted)) (st_tract planted) planted_entry) planted_map"
    by (rule planted_index) (simp_all add: head_index_def from_root_def head_tract_def replicate_eq_replicate)
  moreover have "ring_inv ref_env (disk_ring planted planted_entry)" by (rule planted_ring) simp_all
  ultimately show ?thesis by (simp add: durable_def)
qed

lemma planted_safe: "safe ref_env planted planted_entry planted_map planted_map"
proof -
  have "index_map ref_env planted planted_map" by (rule planted_index) simp_all
  moreover have "ring_inv ref_env (ring_of planted)" by (rule planted_ring) simp_all
  moreover have "find_staged (alone planted_dev) l = None" for l by (simp add: find_staged_def alone_def)
  ultimately show ?thesis using planted_durable by (simp add: safe_def vault_ok_def head_tract_def occ_def)
qed

lemma planted_profile: "fixed_profile planted" "wf_mirror (st_mirror planted)" "2 ^ v_log2 planted \<le> rcount (st_mirror planted)"
  using alone_wf [OF planted_dev_ok(1)] planted_dev_ok(3) by (simp_all add: fixed_profile_def)

lemma planted_rootless: "rootless ref_env (alone planted_dev)"
proof -
  have "root_decode ref_env (dev_content planted_dev slot) \<noteq> Inr e" if lt: "slot < 4" for slot e
  proof -
    consider "slot = 0" | "slot = 1" | "slot < 16" "slot \<notin> {0, 1, 4}" using lt by fastforce
    then show ?thesis
      using spine_not_root [OF ref_env_ok planted_entries(1)] spine_not_root [OF ref_env_ok planted_entries(3)] zero_undecodable(1) planted_content(4) [of slot]
      by cases (simp_all add: planted_content)
  qed
  then show ?thesis by (auto simp: rootless_def ROOT_SLOTS_def)
qed

lemma planted_leaf_not_spine: "classify ref_env planted_leaf k rl \<noteq> Valid e"
proof -
  let ?f = "lone_fields (replicate 32 7) [1, 2, 3]"
  have "length [1, 2, 3 :: u8] \<le> lone_capacity ref_env" by (simp add: lone_capacity_def body_start_def ref_env_def ref_flatten_def BLOCK_def)
  note doc = lone_doc(1) [OF ref_env_ok _ this, of "replicate 32 7"]
  have "body_start ref_env - 1 + 1 = body_start ref_env" using body_start_ge [of ref_env] by simp
  then have "\<exists>err. decode_header ref_env SCHEMA planted_leaf = Inl err"
    using doc_block_header [OF ref_env_ok, of SCHEMA_LONE ?f] doc_block_schema [OF ref_env_ok doc]
    by (simp add: decode_header_def planted_leaf_def) (simp add: SCHEMA_def SCHEMA_LONE_def)
  then show ?thesis by (auto simp: classify_def spine_decode_def bindR_def Let_def split: if_splits sum.splits)
qed

lemma planted_boots: "boots ref_env (alone planted_dev) 2"
proof -
  have e: "se_ring_log2 e = 2" if k: "k < 16" and v: "classify ref_env (dev_content planted_dev k) k None = Valid e" for k e
  proof -
    consider "k = 0" | "k = 1" | "k = 4" | "k \<notin> {0, 1, 4}" by auto
    then show ?thesis
    proof cases
      case 3
      then show ?thesis using v planted_leaf_not_spine by (simp add: planted_content)
    qed (use v classify_unknown [OF planted_cls(1)] classify_unknown [OF planted_cls(2)] planted_content(4) [OF k] in \<open>auto simp: genesis_entry_def\<close>)
  qed
  moreover have "\<exists>k < 16. \<exists>e. classify ref_env (dev_content planted_dev k) k None = Valid e"
    using classify_unknown [OF planted_cls(1)] by (intro exI [where x = 0]) auto
  ultimately show ?thesis using planted_dev_ok(3) by (auto simp: boots_def)
qed

section \<open>Its tree\<close>

lemma planted_tree: "committed_intact ref_env planted planted_entry" "committed_walk ref_env planted planted_entry = [0]"
  "roomy ref_env (disk_ring planted planted_entry) planted_entry"
proof -
  have d: "doc_of ref_env (committed_view planted 0) (replicate 32 1) 12 = Inr (Some (DocLone (replicate 32 7) [1, 2, 3]))"
    by (simp add: committed_view_def planted_content(3) planted_leaf_doc(2))
  have "p = 0 \<and> g = replicate 32 1" if "linked ref_env (committed_view planted) 12 h l g p" "h = replicate 32 1" "l = 0" for g p h l
    using that d by (induction rule: linked.induct) auto
  then have "doc_of ref_env (committed_view planted p) g 12 \<noteq> Inr None" if "linked ref_env (committed_view planted) 12 (replicate 32 1) 0 g p" for g p
    using that d by fastforce
  then show "committed_intact ref_env planted planted_entry" by (simp add: committed_intact_def intact_def)
  show "committed_walk ref_env planted planted_entry = [0]"
    using d by (simp add: committed_walk_def WALK_FUEL_def furrows_of_def replicate_eq_replicate)
  show "roomy ref_env (disk_ring planted planted_entry) planted_entry"
    by (rule roomy_young) (use planted_profile planted_dev_ok(3) in \<open>simp_all add: FENCE_K_def\<close>)
qed

section \<open>Requests on it\<close>

lemma planted_quiet: "quiet_store planted"
proof -
  have "store_ok planted" using planted_index [of planted] by (auto simp: index_map_def holds_def)
  moreover have "quiet_mirror (alone planted_dev)" using planted_dev_ok(2) by (simp add: quiet_mirror_def)
  ultimately show ?thesis using planted_dev_ok(3) by (simp add: quiet_store_def readable_def BLOCK_def)
qed

lemma planted_doc: "doc_of ref_env (tview planted 0) (replicate 32 1) (t_len (st_tract planted)) = Inr (Some (DocLone (replicate 32 7) [1, 2, 3]))"
  by (simp add: tview_def view_alone planted_content(3) planted_leaf_doc(2))

text \<open>The delete of a key whose lone leaf is the root.\<close>

lemma delete_lone_root:
  fixes s :: "'z hst_scheme"
  assumes q: "quiet_store s" and lba: "lba < t_len (st_tract s)" and r: "h_root s = Some (Committed h lba)"
    and d: "doc_of E (tview s lba) h (t_len (st_tract s)) = Inr (Some (DocLone key v))"
  shows "\<exists>s'. hamt_delete E key UnlinkOnly s = (Inr True, s') \<and> h_root s' = None"
proof -
  let ?V = "tview s" and ?L = "t_len (st_tract s)" and ?A = "h_arena s"
  have w: "whole s ?V ?L ?A" using q by (simp add: whole_def sees_def quiet_store_def)
  obtain s1 where s1: "whole s1 ?V ?L ?A" "read_doc E lba h s = (Inr (Some (DocLone key v)), s1)" by (rule read_doc_whole [OF w lba d])
  have r1: "h_root s1 = Some (Committed h lba)" using read_doc_spec [OF s1(2) quiet_ok [OF q]] r by (auto simp: after_reads_def dest: arg_cong [where f = h_root])
  let ?s = "h_removed_update (\<lambda>a. a @ [(lba, h)]) s1"
  have "tview ?s = tview s1" by (simp add: tview_def fun_eq_iff)
  then have w2: "whole ?s ?V ?L ?A" using s1(1) unfolding whole_def sees_def quiet_store_def store_ok_def by simp metis
  obtain s2 where s2: "whole s2 ?V ?L ?A" "read_doc E lba h ?s = (Inr (Some (DocLone key v)), s2)" by (rule read_doc_whole [OF w2 lba d])
  have r2: "h_root s2 = Some (Committed h lba)"
    using read_doc_spec [OF s2(2)] w2 r1 by (auto simp: after_reads_def whole_def quiet_store_def dest: arg_cong [where f = h_root])
  have "find_leaf E key s = (Inr (Some (lba, h)), s1)" using s1(2) r by (simp add: find_leaf_def bindE_def retE_def)
  moreover have "remove_leaf_blocks E lba h s1 = (Inr (), s2)" using s2(2) by (simp add: remove_leaf_blocks_def bindE_def push_removed_def modE_def retE_def)
  ultimately show ?thesis using r2 by (simp add: hamt_delete_def bindE_def retE_def prune_def getE_def modE_def)
qed

lemma planted_delete:
  obtains s' where "hamt_delete ref_env (replicate 32 7) UnlinkOnly planted = (Inr True, s')" "h_root s' = None"
  using delete_lone_root [OF planted_quiet _ _ planted_doc] by auto

end
