(* ===== verification/Reap_Props.thy ===== *)
theory Reap_Props
  imports Keyed_Store Hamt_Reap
begin

text \<open>
  Relocation keeps the map. A repoint that swaps one pointer for another that stands for the same
  subtree leaves the tree as it was, whatever path it takes and wherever it stops; a moved block is
  such a swap, and so is an extent leaf rebuilt over moved furrows.
\<close>

section \<open>Repointing\<close>

declare repoint.simps [simp del]

text \<open>Wherever the pointer \<open>old\<close> stands for a subtree, so does \<open>new\<close>.\<close>

definition stands_in :: "vsf_env \<Rightarrow> (nat \<Rightarrow> block) \<Rightarrow> nat \<Rightarrow> nat set \<Rightarrow> hash \<times> nat \<Rightarrow> hash \<times> nat \<Rightarrow> bool" where
  "stands_in E V L Oc old new \<longleftrightarrow> (\<forall>A d t J. repr E V L Oc A d (Committed (fst old) (snd old)) t J \<longrightarrow>
     repr E V L Oc A d (Committed (fst new) (snd new)) t J)"

lemma stands_in_block:
  assumes "l \<in> Oc \<Longrightarrow> V l' = V l" and "l' \<in> Oc"
  shows "stands_in E V L Oc (h, l) (h, l')"
  unfolding stands_in_def fst_conv snd_conv
proof (intro allI impI)
  fix A d t J assume "repr E V L Oc A d (Committed h l) t J"
  then show "repr E V L Oc A d (Committed h l') t J"
  proof (cases rule: repr.cases)
    case (repr_node n ts)
    then show ?thesis using assms by (auto intro!: repr.repr_node [of l' Oc E V h L n])
  qed (use assms in \<open>auto intro: repr_gone repr_leaf\<close>)
qed

lemma pruned_same:
  fixes s :: "'z hst_scheme"
  assumes "repr E V L Oc A d ch t {}" and "tview s = V" "t_len (st_tract s) = L" and "edits {} s s'"
  shows "pruned E Oc key d (Some t) {} s (Inr (Some ch)) s'"
proof -
  have "repr E V L Oc (h_arena s') d ch t {}" using repr_frame [OF assms(1), of V Oc "h_arena s'"] by simp
  then show ?thesis using assms by (auto simp: pruned_def)
qed

lemma pruned_error: "edits {} s s' \<Longrightarrow> pruned E Oc key d t J s (Inl e) s'"
  by (simp add: pruned_def)

lemma repoint_none:
  assumes "repoint E None d key td old new s = (q, s1)" and "store_ok s"
  shows "pruned E Oc key d' None {} s q s1"
  using assms by (auto simp: repoint.simps retE_run pruned_def edits_refl)

lemma repoint_hit:
  fixes s :: "'z hst_scheme"
  assumes run: "repoint E (Some (Committed h lba)) d key td old new s = (r, s')" and hit: "h = fst old \<and> lba = snd old"
    and rep: "repr E V L Oc A d (Committed h lba) t {}" and st: "stands_in E V L Oc old new" and so: "sees_on s V L A J"
  shows "pruned E Oc key d (Some t) {} s r s'"
proof -
  have s': "r = Inr (Some (Committed (fst new) (snd new)))" "s' = h_hits_update Suc s"
    using run hit by (auto simp: repoint.simps bindE_def modE_def retE_def)
  have "edits {} s s'" using so s' by (auto simp: edits_def sees_on_def store_ok_def tview_def fun_eq_iff)
  then show ?thesis using pruned_same [of E V L Oc A d _ t s s' key] st rep hit so s'(1) by (auto simp: stands_in_def sees_on_def)
qed

text \<open>A pointer that is not hit, to a block that is not a node or is too deep.\<close>

lemma repoint_past:
  fixes s :: "'z hst_scheme"
  assumes run: "repoint E (Some (Committed h lba)) d key td old new s = (r, s')" and miss: "\<not> (h = fst old \<and> lba = snd old)"
    and rep: "repr E V L Oc A d (Committed h lba) t {}" and so: "sees_on s V L A J"
    and doc: "doc_of E (V lba) h L = Inr doc" and past: "(\<forall>n. doc \<noteq> Some (DocNode n)) \<or> (td \<noteq> U8_MAX \<and> d > td + 1)"
  shows "pruned E Oc key d (Some t) {} s r s'"
proof -
  have ok: "store_ok s" and vw: "tview s = V" "t_len (st_tract s) = L" using so by (auto simp: sees_on_def)
  show ?thesis
  proof (cases "td \<noteq> U8_MAX \<and> d > td + 1")
    case True
    then have "r = Inr (Some (Committed h lba)) \<and> s' = s" using run miss by (auto simp: repoint.simps retE_def)
    then show ?thesis using pruned_same [OF rep vw edits_refl [OF ok]] by simp
  next
    case False
    show ?thesis using run unfolding repoint.simps if_not_P [OF miss] if_not_P [OF False]
    proof (cases rule: read_doc_bind [OF _ sees_on_sees [OF so] doc, consumes 1, case_names err ok])
      case (err e)
      then show ?thesis using edits_reads [OF _ ok] by (simp add: pruned_error)
    next
      case (ok s1)
      have "r = Inr (Some (Committed h lba)) \<and> s' = s1"
        using ok(3) past False by (auto simp: retE_run split: option.splits TractDoc.splits)
      then show ?thesis using pruned_same [OF rep vw edits_reads [OF ok(2) \<open>store_ok s\<close>]] by simp
    qed
  qed
qed

text \<open>Below a node that is in the arena: the slot on the key's path is the only one that changes.\<close>

lemma repoint_below:
  fixes s :: "'z hst_scheme"
  assumes run: "bindE (repoint E (n_children n ! ck key d) (Suc d) key td old new) (\<lambda>new_sub.
      bindE (modE (arena_set idx (ck key d) new_sub)) (\<lambda>_. retE (Some (Dirty idx)))) s = (r, s')"
    and so: "sees_on s V L A (I (ck key d))" and sl: "slots_ok E V L Oc (h_arena s) (Suc d) (n_children n) ts I"
    and idx: "idx < length (h_arena s)" "h_arena s ! idx = n" "n_depth n = d" "length (n_route n) = 32" "\<forall>c < 32. idx \<notin> I c" "d < MAX_DEPTH"
    and IH: "\<And>ch u q s1. n_children n ! ck key d = Some ch \<Longrightarrow> ts ! ck key d = Some u \<Longrightarrow>
      repoint E (Some ch) (Suc d) key td old new s = (q, s1) \<Longrightarrow> pruned E Oc key (Suc d) (Some u) (I (ck key d)) s q s1"
  shows "pruned E Oc key d (Some (TNode ts)) (insert idx (\<Union>c \<in> {..<32}. I c)) s r s'"
proof -
  let ?c = "ck key d"
  have c32: "?c < 32" by (rule chunk_less)
  have vw: "tview s = V" "t_len (st_tract s) = L" and ok: "store_ok s" using so by (auto simp: sees_on_def)
  have slot: "(n_children n ! ?c = None \<and> ts ! ?c = None \<and> I ?c = {}) \<or> (\<exists>ch u. n_children n ! ?c = Some ch \<and> ts ! ?c = Some u)"
    using sl c32 unfolding slots_ok_def by blast
  have below: "pruned E Oc key (Suc d) (ts ! ?c) (I ?c) s q s1"
    if "repoint E (n_children n ! ?c) (Suc d) key td old new s = (q, s1)" for q s1
  proof (cases "n_children n ! ?c")
    case None
    then show ?thesis using slot repoint_none [OF that [unfolded None] ok] by simp
  next
    case (Some ch)
    then show ?thesis using slot IH that by auto
  qed
  have "pruned E Oc key d (Some (TNode (ts[?c := ts ! ?c]))) (insert idx (\<Union>c \<in> {..<32}. I c)) s r s'"
    by (rule prune_slot [OF run sl idx refl vw below])
  then show ?thesis by simp
qed

lemma repoint_spec:
  assumes "repr E V L Oc A d ch t J" and st: "stands_in E V L Oc old new"
  shows "\<forall>(s :: 'z hst_scheme) r s'. sees_on s V L A J \<longrightarrow> repoint E (Some ch) d key td old new s = (r, s') \<longrightarrow>
     pruned E Oc key d (Some t) J s r s'"
  using assms(1)
proof (induction rule: repr.induct)
  case (repr_gone lba h d)
  have rep: "repr E V L Oc A d (Committed h lba) TGone {}" using repr_gone by (auto intro: repr.repr_gone)
  show ?case using repoint_hit [OF _ _ rep st] repoint_past [OF _ _ rep _ repr_gone(2)] by blast
next
  case (repr_leaf lba h doc k w d)
  have rep: "repr E V L Oc A d (Committed h lba) (TLeaf k w) {}" using repr_leaf by (auto intro: repr.repr_leaf)
  have "\<forall>n. Some doc \<noteq> Some (DocNode n)" using repr_leaf(3) leaf_doc_not_node by fastforce
  then show ?case using repoint_hit [OF _ _ rep st] repoint_past [OF _ _ rep _ repr_leaf(2)] by blast
next
  case (repr_node lba h n d ts)
  have rep: "repr E V L Oc A d (Committed h lba) (TNode ts) {}"
    using repr_node by (intro repr.repr_node [of lba Oc E V h L n d ts A]) auto
  show ?case
  proof (intro allI impI)
    fix s :: "'z hst_scheme" and r s'
    assume so: "sees_on s V L A {}" and run: "repoint E (Some (Committed h lba)) d key td old new s = (r, s')"
    let ?c = "ck key d"
    have c32: "?c < 32" by (rule chunk_less)
    have s: "sees s V L (h_arena s)" and ok0: "store_ok s" using so by (auto simp: sees_on_def sees_def)
    consider (hit) "h = fst old \<and> lba = snd old" | (deep) "\<not> (h = fst old \<and> lba = snd old)" "td \<noteq> U8_MAX \<and> d > td + 1"
      | (on) "\<not> (h = fst old \<and> lba = snd old)" "\<not> (td \<noteq> U8_MAX \<and> d > td + 1)" by blast
    then show "pruned E Oc key d (Some (TNode ts)) {} s r s'"
    proof cases
      case hit
      then show ?thesis using repoint_hit [OF run _ rep st so] by blast
    next
      case deep
      then show ?thesis using repoint_past [OF run _ rep so repr_node(2)] by blast
    next
      case on
      show ?thesis using run unfolding repoint.simps if_not_P [OF on(1)] if_not_P [OF on(2)]
      proof (cases rule: read_doc_bind [OF _ s repr_node(2), consumes 1, case_names err ok])
        case (err e)
        then show ?thesis using edits_reads [OF _ ok0] by (simp add: pruned_error)
      next
        case (ok s1)
        have e1: "edits {} s s1" and ok1: "store_ok s1" using edits_reads [OF ok(2)] ok0 edits_ok by blast+
        let ?s2 = "h_removed_update (\<lambda>a. a @ [(lba, h)]) (s1\<lparr>h_arena := h_arena s1 @ [n]\<rparr>)" and ?idx = "length (h_arena s1)"
        have e02: "edits {} s ?s2" using ok1 by (intro edits_trans_same [OF e1]) (simp add: edits_def nth_append)
        have so2: "sees_on ?s2 V L A' {}" for A' using edits_ok [OF e02] e02 so by (auto simp: sees_on_def edits_def)
        show ?thesis
        proof (cases rule: chunk_cases [of key d])
          case (deep e)
          then have "r = Inl e \<and> s' = ?s2" using ok(3) repr_node(3)
            by (simp add: node_at_depth_def bindE_def liftE_def arena_push_def push_removed_def modE_def raiseE_def)
          then show ?thesis using e02 by (simp add: pruned_error)
        next
          case ck: ok
          have run3: "bindE (repoint E (n_children n ! ck key d) (Suc d) key td old new) (\<lambda>new_sub.
              bindE (modE (arena_set ?idx (ck key d) new_sub)) (\<lambda>_. retE (Some (Dirty ?idx)))) ?s2 = (r, s')"
            using ok(3) repr_node(3) ck child_at_ok [OF repr_node(5)]
            by (simp add: node_at_depth_def bindE_def liftE_def arena_push_def push_removed_def modE_def)
          have slA: "slots_ok E V L Oc A (Suc d) (n_children n) ts (\<lambda>_. {})"
            using repr_node.IH repr_node.hyps by (intro repr_slots) auto
          have sl: "slots_ok E V L Oc (h_arena ?s2) (Suc d) (n_children n) ts (\<lambda>_. {})" by (rule slots_frame [OF slA]) simp
          have "pruned E Oc key d (Some (TNode ts)) (insert ?idx (\<Union>c \<in> {..<32 :: nat}. {})) ?s2 r s'"
            by (rule repoint_below [OF run3 so2 sl]) (use repr_node(3,4) ck(1) repr_node.IH [rule_format, OF chunk_less [of key d]] so2 in \<open>auto simp: MAX_DEPTH_def\<close>)
          then have "pruned E Oc key d (Some (TNode ts)) {?idx} ?s2 r s'" by simp
          then show ?thesis by (rule pruned_shift [OF e02]) (use e1 in \<open>auto simp: edits_def\<close>)
        qed
      qed
    qed
  qed
next
  case (repr_dirty idx n d ts I J)
  show ?case
  proof (intro allI impI)
    fix s :: "'z hst_scheme" and r s'
    assume ss: "sees_on s V L A J" and run: "repoint E (Some (Dirty idx)) d key td old new s = (r, s')"
    let ?c = "ck key d"
    have c32: "?c < 32" by (rule chunk_less)
    have vw: "tview s = V" "t_len (st_tract s) = L" using ss by (auto simp: sees_on_def)
    have J: "J = insert idx (\<Union>c \<in> {..<32}. I c)" by (rule repr_dirty.hyps)
    have sub: "I c \<subseteq> J" if "c < 32" for c using J that by blast
    have at: "idx < length (h_arena s)" "h_arena s ! idx = n" using ss J repr_dirty.hyps by (auto simp: sees_on_def)
    have d: "d < 52" using repr_dirty.hyps by (simp add: MAX_DEPTH_def)
    have run1: "bindE (repoint E (n_children n ! ?c) (Suc d) key td old new) (\<lambda>new_sub.
        bindE (modE (arena_set idx ?c new_sub)) (\<lambda>_. retE (Some (Dirty idx)))) s = (r, s')"
      using run chunk_ok [OF d] at child_at_ok [OF repr_dirty(5)] arena_get_run [OF at(1)] by (simp add: repoint.simps bindE_def liftE_def)
    have slA: "slots_ok E V L Oc A (Suc d) (n_children n) ts I"
      using repr_dirty.IH repr_dirty.hyps by (intro repr_slots) auto
    have sl: "slots_ok E V L Oc (h_arena s) (Suc d) (n_children n) ts I"
      using ss sub by (intro slots_frame [OF slA]) (auto simp: sees_on_def)
    have soc: "sees_on s V L A (I ?c)" by (rule sees_on_sub [OF ss sub [OF c32]])
    show "pruned E Oc key d (Some (TNode ts)) J s r s'" unfolding J
      by (rule repoint_below [OF run1 soc sl at]) (use repr_dirty.hyps repr_dirty.IH [rule_format, OF c32] soc in auto)
  qed
qed

lemma repoint_root_spec:
  fixes s :: "'z hst_scheme"
  assumes run: "repoint_root E key td old new miss s = (r, s')" and h: "holds E s t"
    and st: "stands_in E (tview s) (t_len (st_tract s)) (occ (st_tract s)) old new"
  shows "holds E s' t"
proof -
  have ok: "store_ok s" using h by (simp add: holds_def)
  from run have run1: "bindE (repoint E (h_root s) 0 key td old new) (\<lambda>new_root.
      bindE (modE (h_root_update (\<lambda>_. new_root))) (\<lambda>_.
      bindE (getE h_hits) (\<lambda>after. if after = h_hits s then raiseE miss else retE ()))) s = (r, s')"
    by (simp add: repoint_root_def bindE_def getE_def)
  obtain J where pr: "\<And>q s1. repoint E (h_root s) 0 key td old new s = (q, s1) \<Longrightarrow> pruned E (occ (st_tract s)) key 0 t J s q s1"
  proof (cases "h_root s")
    case None
    then have "t = None" using h by (simp add: holds_def)
    then show thesis using that [of "{}"] None repoint_none [OF _ ok] by metis
  next
    case (Some ch)
    then obtain u J where u: "t = Some u" "repr E (tview s) (t_len (st_tract s)) (occ (st_tract s)) (h_arena s) 0 ch u J"
      using h by (auto simp: holds_def)
    have "sees_on s (tview s) (t_len (st_tract s)) (h_arena s) J" using ok repr_footprint [OF u(2)] by (auto simp: sees_on_def)
    then show thesis using that [of J] repoint_spec [OF u(2) st] Some u(1) by metis
  qed
  from run1 show ?thesis
  proof (cases rule: bindE_cases)
    case (err e)
    then show ?thesis using pr [OF err(1)] holds_edits [OF _ h] by (simp add: pruned_def)
  next
    case (ok new_root s1)
    have "s' = h_root_update (\<lambda>_. new_root) s1" using ok(2) by (auto simp: bindE_def modE_def getE_def retE_def raiseE_def split: if_splits)
    then show ?thesis using pr [OF ok(1)] by (auto simp: pruned_def holds_def edits_def store_ok_def tview_def)
  qed
qed

section \<open>Moving a block\<close>

lemma read_length:
  assumes "mirror_read l m = (Inr b, m')" and wf: "wf_mirror m"
  shows "length b = BLOCK"
proof (cases "find_staged m l")
  case None
  then have on: "on_first (dev_read l) m = (Inr b, m')" using assms(1) by (simp add: mirror_read_def)
  obtain d where d: "rdev m = Some d" using wf by (auto simp: wf_mirror_def)
  then obtain d' where "dev_read l d = (Inr b, d')" using on_first_fields [OF on] by blast
  then have "b = fd_file d ! l" "l < fd_blocks d" using dev_read_ok by (auto simp: dev_content_def)
  moreover have "wf_dev d" using wf d by (auto simp: wf_mirror_def rdev_def split: if_splits)
  ultimately show ?thesis by (auto simp: wf_dev_def)
next
  case (Some c)
  then have "c = b" "(l, b) \<in> set (staged m)" using assms(1) map_of_SomeD [of "rev (staged m)" l c] by (auto simp: mirror_read_def find_staged_eq)
  then show ?thesis using wf by (auto simp: wf_mirror_def)
qed

lemma tract_read_length: "tract_read p s = (Inr b, s') \<Longrightarrow> store_ok s \<Longrightarrow> length b = BLOCK"
  using read_length by (auto simp: tract_read_def with_mirror_def store_ok_def split: if_splits prod.splits)

lemma holds_log:
  fixes s :: "'z hst_scheme"
  shows "holds E (h_added_update f s) t = holds E s t" "holds E (h_removed_update f s) t = holds E s t"
  by (cases "h_root s"; simp add: holds_def)+

text \<open>The index repair after a move: the two places hold the same block.\<close>

lemma repair_relocs_spec:
  fixes s :: "'z hst_scheme"
  assumes run: "repair_relocs E [\<lparr>rl_hp = hp, rl_from = pos, rl_to = to\<rparr>] s = (r, s')" and h: "holds E s t"
    and same: "pos \<in> occ (st_tract s) \<Longrightarrow> tview s to = tview s pos" and to: "to \<in> occ (st_tract s)"
  shows "holds E s' t"
proof -
  have ok: "store_ok s" using h by (simp add: holds_def)
  let ?rl = "\<lparr>rl_hp = hp, rl_from = pos, rl_to = to\<rparr>"
  have go: "holds E s2 t" if "repoint_root E key td (hp, pos) (hp, to) miss s1 = (q, s2)" "after_reads s s1" for key td miss q s1 s2
  proof (rule repoint_root_spec [OF that(1) holds_reads [OF that(2) h]])
    show "stands_in E (tview s1) (t_len (st_tract s1)) (occ (st_tract s1)) (hp, pos) (hp, to)"
      unfolding after_reads_fields [OF that(2)] by (rule stands_in_block [OF same to])
  qed
  have "holds E s2 t" if "repair_reloc E ?rl s = (q, s2)" for q s2
    using that unfolding repair_reloc_def
  proof (cases rule: bindE_cases)
    case (err e)
    then show ?thesis using tract_read_spec [OF _ ok] holds_reads [OF _ h] by blast
  next
    case (ok b s1)
    have ar: "after_reads s s1" using tract_read_spec [OF ok(1) \<open>store_ok s\<close>] by blast
    then show ?thesis using ok(2) go [OF _ ar] holds_reads [OF ar h]
      by (auto simp: bindE_def liftE_def raiseE_def Let_def split: if_splits sum.splits TractDoc.splits)
  qed
  then show ?thesis using run by (auto simp: repair_relocs_def bindE_def retE_def split: prod.splits sum.splits)
qed

lemma move_sealed_spec:
  fixes s1 :: "'z hst_scheme"
  assumes run: "bindE (tract_append live [c]) (\<lambda>ps. bindE (repair_relocs E [\<lparr>rl_hp = hp, rl_from = pos, rl_to = hd ps\<rparr>]) (\<lambda>_.
      bindE (push_added [(hd ps, hp)]) (\<lambda>_. push_removed [(pos, hp)]))) s1 = (r, s')"
    and h1: "holds E s1 t" and c: "c = tview s1 pos" "length c = BLOCK"
  shows "holds E s' t"
proof -
  have ok1: "store_ok s1" using h1 by (simp add: holds_def)
  from run show ?thesis
  proof (cases rule: bindE_cases)
    case (err e)
    then show ?thesis using tract_append_cases [OF err(1) ok1] c(2) holds_grows [OF _ h1] by fastforce
  next
    case ap: (ok ps s2)
    obtain q where q: "ps = [q]" "appended [q] ((!) [c]) s1 s2"
      by (rule tract_append_cases [OF ap(1) ok1]) (use c(2) in \<open>auto simp: length_Suc_conv\<close>)
    have g: "grows s1 s2" "q \<in> occ (st_tract s2)" "tview s2 q = c" using q(2) by (auto simp: appended_def)
    have h2: "holds E s2 t" by (rule holds_grows [OF g(1) h1])
    have same: "tview s2 q = tview s2 pos" if "pos \<in> occ (st_tract s2)"
      using that q(2) c(1) by (auto simp: appended_def grows_def)
    note fix1 = repair_relocs_spec [OF _ h2 same g(2)]
    have "bindE (repair_relocs E [\<lparr>rl_hp = hp, rl_from = pos, rl_to = q\<rparr>]) (\<lambda>_.
        bindE (push_added [(q, hp)]) (\<lambda>_. push_removed [(pos, hp)])) s2 = (r, s')" using ap(2) q(1) by simp
    then show ?thesis
      by (cases rule: bindE_cases) (auto simp: push_added_def push_removed_def bindE_def holds_log modE_def dest: fix1)
  qed
qed

lemma move_block_spec:
  fixes s :: "'z hst_scheme"
  assumes run0: "move_block E oracle b s = (r, s')" and h: "holds E s t"
  shows "holds E s' t"
proof -
  obtain pos hp where b: "b = (pos, hp)" by (cases b)
  have ok0: "store_ok s" using h by (simp add: holds_def)
  show ?thesis
  proof (cases "(pos, hp) \<in> set (h_removed s)")
    case True
    then show ?thesis using run0 h b by (simp add: move_block_def bindE_def getE_def retE_def)
  next
    case False
    then have "bindE (tract_read pos) (\<lambda>c. if sealed_hp E c \<noteq> Some hp then retE ()
       else bindE (tract_append oracle [c]) (\<lambda>ps. bindE (repair_relocs E [\<lparr>rl_hp = hp, rl_from = pos, rl_to = hd ps\<rparr>]) (\<lambda>_.
         bindE (push_added [(hd ps, hp)]) (\<lambda>_. push_removed [(pos, hp)])))) s = (r, s')"
      using run0 b by (simp add: move_block_def bindE_def getE_def)
    then show ?thesis
    proof (cases rule: bindE_cases)
      case (err e)
      then show ?thesis using tract_read_spec [OF _ ok0] holds_reads [OF _ h] by blast
    next
      case (ok c s1)
      have ar: "after_reads s s1" "c = tview s1 pos" and len: "length c = BLOCK"
        using tract_read_spec [OF ok(1) ok0] after_reads_fields [of s s1] tract_read_length [OF ok(1) ok0] by auto
      have h1: "holds E s1 t" by (rule holds_reads [OF ar(1) h])
      show ?thesis using ok(2) h1 move_sealed_spec [OF _ h1 ar(2) len] by (auto simp: retE_run split: if_splits)
    qed
  qed
qed

section \<open>On the map\<close>

lemma index_map_holds: "index_map E s m \<longleftrightarrow> vsf_ok E \<and> (\<exists>t. holds E s t \<and> (\<forall>x. lookup_opt x 0 t = m x))"
  by (auto simp: index_map_def fun_eq_iff)

lemma move_blocks_map:
  fixes s :: "'z hst_scheme"
  assumes "forE blocks (move_block E live) s = (r, s')" and "index_map E s m"
  shows "index_map E s' m"
  using assms(1)
proof (rule forE_invariant [where P = "\<lambda>s. index_map E s m"])
  fix x r and s s' :: "'z hst_scheme"
  assume "index_map E s m" "move_block E live x s = (r, s')"
  then show "index_map E s' m" unfolding index_map_def by (blast intro: move_block_spec)
qed (rule assms)

end
