(* ===== verification/Reap_Window.thy ===== *)
theory Reap_Window
  imports Reap_Props "HOL-Library.Multiset"
begin

text \<open>
  A whole window of the reap. The furrows that survive the scan are grouped by their key and spliced
  into the extent the key is found under, so the map is kept only if that extent is the one that names
  them. It is when the liveness oracle, less the blocks the session has retired, holds furrows of the
  index alone; and it stays so while the groups are moved one after another, because moving the
  furrows of one key leaves the extents of the others where they are.
\<close>

section \<open>The extent of a key\<close>

text \<open>The extent of \<open>key\<close> at the end of its path: its position, its hash and the furrows it names.\<close>

inductive extent_at :: "vsf_env \<Rightarrow> (nat \<Rightarrow> block) \<Rightarrow> nat \<Rightarrow> node list \<Rightarrow> hash \<Rightarrow> nat \<Rightarrow> child \<Rightarrow> nat \<times> hash \<times> nat list \<Rightarrow> bool"
  for E V L A key where
  here: "doc_of E (V lba) h L = Inr (Some (DocExtent key sz runs)) \<Longrightarrow> expand_runs E runs sz L = Inr ps \<Longrightarrow>
    extent_at E V L A key d (Committed h lba) (lba, h, ps)"
| node: "doc_of E (V lba) h L = Inr (Some (DocNode n)) \<Longrightarrow> n_children n ! ck key d = Some ch \<Longrightarrow>
    extent_at E V L A key (Suc d) ch p \<Longrightarrow> extent_at E V L A key d (Committed h lba) p"
| dirty: "A ! idx = n \<Longrightarrow> n_children n ! ck key d = Some ch \<Longrightarrow>
    extent_at E V L A key (Suc d) ch p \<Longrightarrow> extent_at E V L A key d (Dirty idx) p"

inductive_cases extent_at_committedE: "extent_at E V L A key d (Committed h lba) p"
inductive_cases extent_at_dirtyE: "extent_at E V L A key d (Dirty idx) p"

text \<open>It reads the subtree's own blocks and nodes, and is a leaf of it.\<close>

lemma extent_at_frame:
  assumes "repr E V L Oc A d ch t J" and "extent_at E V L A key d ch p"
    and "\<forall>q \<in> Oc. V' q = V q" and "\<forall>i \<in> J. A' ! i = A ! i"
  shows "extent_at E V' L A' key d ch p"
  using assms(1,2,4)
proof (induction rule: repr.induct)
  case (repr_gone lba h d)
  then show ?case by (auto elim: extent_at_committedE)
next
  case (repr_leaf lba h doc k v d)
  then show ?case using assms(3) leaf_doc_not_node [OF repr_leaf(3)]
    by (auto elim!: extent_at_committedE intro: extent_at.here)
next
  case (repr_node lba h n d ts)
  from repr_node.prems(1) obtain ch where ch: "n_children n ! ck key d = Some ch" "extent_at E V L A key (Suc d) ch p"
    by (rule extent_at_committedE) (use repr_node.hyps in auto)
  then have "extent_at E V' L A' key (Suc d) ch p" using repr_node.IH [rule_format, OF chunk_less [of key d]] by auto
  then show ?case using repr_node(1,2) assms(3) ch(1) by (intro extent_at.node) auto
next
  case (repr_dirty idx n d ts I J)
  have c32: "ck key d < 32" by (rule chunk_less)
  have J: "J = insert idx (\<Union>c \<in> {..<32}. I c)" by (rule repr_dirty.hyps)
  then have sub: "\<forall>i \<in> I (ck key d). A' ! i = A ! i" "A' ! idx = n" using repr_dirty.prems(2) repr_dirty.hyps c32 by blast+
  from repr_dirty.prems(1) obtain ch where ch: "n_children n ! ck key d = Some ch" "extent_at E V L A key (Suc d) ch p"
    by (rule extent_at_dirtyE) (use repr_dirty.hyps in auto)
  then have "extent_at E V' L A' key (Suc d) ch p" using repr_dirty.IH [rule_format, OF c32] sub(1) by auto
  then show ?case using ch(1) sub(2) by (intro extent_at.dirty)
qed

lemma extent_at_leaf:
  assumes "extent_at E V L A key d ch p" and "repr E V L Oc A d ch t J"
  shows "\<exists>sz runs v. fst p \<in> Oc \<and> doc_of E (V (fst p)) (fst (snd p)) L = Inr (Some (DocExtent key sz runs))
     \<and> expand_runs E runs sz L = Inr (snd (snd p)) \<and> leaf_doc E V L Oc (DocExtent key sz runs) key v"
  using assms
proof (induction arbitrary: t J rule: extent_at.induct)
  case (here lba h sz runs ps d)
  from here.prems show ?case
  proof (cases rule: repr.cases)
    case (repr_leaf doc k v)
    then have "doc = DocExtent key sz runs" "k = key" using here.hyps by (auto simp: leaf_doc_def)
    then show ?thesis using repr_leaf here.hyps by auto
  qed (use here.hyps in auto)
next
  case (node lba h n d ch p)
  from node.prems obtain u where "repr E V L Oc A (Suc d) ch u {}"
  proof (cases rule: repr.cases)
    case (repr_node n' ts)
    have "n' = n" using repr_node node.hyps by simp
    then show ?thesis using that node.hyps(2) repr_node(9) [rule_format, OF chunk_less [of key d]] by auto
  qed (use node.hyps in \<open>auto dest: leaf_doc_not_node\<close>)
  then show ?case by (rule node.IH)
next
  case (dirty idx n d ch p)
  from dirty.prems obtain u K where "repr E V L Oc A (Suc d) ch u K"
  proof (cases rule: repr.cases)
    case (repr_dirty n' ts I)
    have "n' = n" using repr_dirty(3) dirty.hyps(1) by simp
    then show ?thesis using that dirty.hyps(2) repr_dirty(8) [rule_format, OF chunk_less [of key d]] by auto
  qed
  then show ?case by (rule dirty.IH)
qed

text \<open>\<open>find_leaf\<close> finds it.\<close>

lemma find_leaf_extent:
  fixes s :: "'z hst_scheme"
  assumes "extent_at E V L A key d ch p" and "sees s V L A" and "find_leaf_from E key d ch s = (Inr q, s')"
  shows "q = Some (fst p, fst (snd p))"
  using assms
proof (induction arbitrary: s rule: extent_at.induct)
  case (here lba h sz runs ps d)
  show ?case using here.prems(2) unfolding find_leaf_from.simps
    by (cases rule: read_doc_bind [OF _ here.prems(1) here.hyps(1), consumes 1]) (auto simp: retE_run)
next
  case (node lba h n d ch p)
  show ?case using node.prems(2) unfolding find_leaf_from.simps
  proof (cases rule: read_doc_bind [OF _ node.prems(1) node.hyps(1), consumes 1, case_names err ok])
    case (ok s1)
    then have "find_leaf_from E key (Suc d) ch s1 = (Inr q, s')"
      by (cases rule: chunk_cases [of key d]) (auto simp: node.hyps(2) bindE_def liftE_def raiseE_def child_at_def split: sum.splits if_splits)
    then show ?thesis by (rule node.IH [OF ok(1)])
  qed simp
next
  case (dirty idx n d ch p)
  have "find_leaf_from E key (Suc d) ch s = (Inr q, s')" using dirty.prems dirty.hyps(1)
    by (cases rule: chunk_cases [of key d]) (auto simp: dirty.hyps(2) find_leaf_from.simps bindE_def liftE_def raiseE_def arena_get_def child_at_def sees_def split: sum.splits if_splits)
  then show ?case by (rule dirty.IH [OF dirty.prems(1)])
qed

section \<open>Repointing another key\<close>

text \<open>A pointer to a leaf of another key is not on the way.\<close>

definition leaf_of :: "vsf_env \<Rightarrow> (nat \<Rightarrow> block) \<Rightarrow> nat \<Rightarrow> hash \<Rightarrow> hash \<times> nat \<Rightarrow> bool" where
  "leaf_of E V L key old \<longleftrightarrow> (\<exists>sz runs. doc_of E (V (snd old)) (fst old) L = Inr (Some (DocExtent key sz runs)))"

lemma repoint_slot_extent:
  fixes s s1 :: "'z hst_scheme"
  assumes sl: "slots_ok E V L Oc (h_arena s) (Suc d) (n_children n) ts I"
    and idx: "idx < length (h_arena s)" "h_arena s ! idx = n" "\<forall>c < 32. idx \<notin> I c"
    and pr: "pruned E Oc key (Suc d) (ts ! c) (I c) s (Inr new) s1" and vw: "tview s = V" "t_len (st_tract s) = L" and c: "c < 32"
    and ch: "n_children n ! ck k d = Some ch" "extent_at E V L (h_arena s) k (Suc d) ch p"
    and IH: "c = ck k d \<Longrightarrow> \<exists>ch'. new = Some ch' \<and> extent_at E V L (h_arena s1) k (Suc d) ch' p"
  shows "extent_at E V L (h_arena (arena_set idx c new s1)) k d (Dirty idx) p"
proof -
  let ?A = "h_arena s" and ?A1 = "h_arena s1" and ?A2 = "h_arena (arena_set idx c new s1)" and ?b = "ck k d"
  have b: "?b < 32" by (rule chunk_less)
  obtain K where ed: "edits (I c) s s1" and K: "K \<subseteq> I c \<union> {length ?A ..< length ?A1}"
    "(new = None \<and> K = {}) \<or> (\<exists>h u. new = Some h \<and> repr E V L Oc ?A1 (Suc d) h u K)"
    using pr unfolding pruned_def vw by blast
  have len: "length ?A \<le> length ?A1" and same: "\<And>i. i < length ?A \<Longrightarrow> i \<notin> I c \<Longrightarrow> ?A1 ! i = ?A ! i" using ed by (auto simp: edits_def)
  have at: "?A1 ! idx = n" "idx < length ?A1" using same idx c len by auto
  have A2: "?A2 = ?A1[idx := n\<lparr>n_children := (n_children n)[c := new]\<rparr>]" using at by (simp add: arena_set_def)
  have n2: "?A2 ! idx = n\<lparr>n_children := (n_children n)[c := new]\<rparr>" using A2 at by simp
  have l32: "length (n_children n) = 32" using sl by (simp add: slots_ok_def)
  show ?thesis
  proof (cases "c = ?b")
    case True
    then obtain ch' where ch': "new = Some ch'" "extent_at E V L ?A1 k (Suc d) ch' p" using IH by blast
    obtain u where u: "repr E V L Oc ?A1 (Suc d) ch' u K" using K(2) ch'(1) by auto
    have "idx \<notin> K" using K(1) idx c by auto
    then have "extent_at E V L ?A2 k (Suc d) ch' p" unfolding A2 by (intro extent_at_frame [OF u ch'(2)]) (auto intro!: nth_list_update_neq)
    then show ?thesis using n2 ch'(1) True b l32 by (intro extent_at.dirty [OF n2]) simp_all
  next
    case False
    have dis: "I ?b \<inter> I c = {}" using sl False b c by (auto simp: slots_ok_def)
    obtain u where u: "repr E V L Oc ?A (Suc d) ch u (I ?b)" using sl ch(1) b unfolding slots_ok_def by fastforce
    have "?A2 ! i = ?A ! i" if "i \<in> I ?b" for i
      using that dis same [of i] repr_footprint [OF u] idx(3) b A2 by (cases "i = idx") auto
    then have "extent_at E V L ?A2 k (Suc d) ch p" by (intro extent_at_frame [OF u ch(2)]) auto
    then show ?thesis using n2 ch(1) False by (intro extent_at.dirty [OF n2]) simp_all
  qed
qed

lemma repoint_below_extent:
  fixes s :: "'z hst_scheme"
  assumes run: "bindE (repoint E (n_children n ! ck key d) (Suc d) key td old new) (\<lambda>new_sub.
      bindE (modE (arena_set idx (ck key d) new_sub)) (\<lambda>_. retE (Some (Dirty idx)))) s = (Inr c, s')"
    and s: "sees s V L (h_arena s)" and sl: "slots_ok E V L Oc (h_arena s) (Suc d) (n_children n) ts I"
    and idx: "idx < length (h_arena s)" "h_arena s ! idx = n" "\<forall>c < 32. idx \<notin> I c" and st: "stands_in E V L Oc old new"
    and ch: "n_children n ! ck k d = Some ch" "extent_at E V L (h_arena s) k (Suc d) ch p"
    and IH: "\<And>x s1. repoint E (Some ch) (Suc d) key td old new s = (Inr x, s1) \<Longrightarrow> \<exists>ch'. x = Some ch' \<and> extent_at E V L (h_arena s1) k (Suc d) ch' p"
  shows "\<exists>ch'. c = Some ch' \<and> extent_at E V L (h_arena s') k d ch' p"
proof -
  let ?c = "ck key d"
  have vw: "tview s = V" "t_len (st_tract s) = L" "store_ok s" using s by (auto simp: sees_def)
  from run obtain x s1 where x: "repoint E (n_children n ! ?c) (Suc d) key td old new s = (Inr x, s1)"
    and c: "c = Some (Dirty idx)" "s' = arena_set idx ?c x s1"
    by (elim bindE_InrE) (auto simp: bindE_def modE_def retE_def)
  have slot: "(n_children n ! ?c = None \<and> ts ! ?c = None \<and> I ?c = {})
      \<or> (\<exists>ch t. n_children n ! ?c = Some ch \<and> ts ! ?c = Some t \<and> repr E V L Oc (h_arena s) (Suc d) ch t (I ?c))"
    using sl chunk_less [of key d] unfolding slots_ok_def by blast
  have so: "sees_on s V L (h_arena s) (I ?c)" using slots_footprint [OF sl chunk_less] vw by (auto simp: sees_on_def)
  have pr: "pruned E Oc key (Suc d) (ts ! ?c) (I ?c) s (Inr x) s1"
  proof (cases "n_children n ! ?c")
    case None
    then show ?thesis using repoint_none [of E "Suc d" key td old new s "Inr x" s1] x vw(3) slot by auto
  next
    case (Some y)
    then obtain w where "ts ! ?c = Some w" "repr E V L Oc (h_arena s) (Suc d) y w (I ?c)" using slot by auto
    then show ?thesis using repoint_spec [OF _ st] so x Some by metis
  qed
  have "extent_at E V L (h_arena (arena_set idx ?c x s1)) k d (Dirty idx) p"
    by (rule repoint_slot_extent [OF sl idx pr vw(1,2) chunk_less ch]) (use IH x ch(1) in auto)
  then show ?thesis using c by simp
qed

lemma repoint_extent:
  assumes "extent_at E V L A k d ch p" and k: "k \<noteq> key" and old: "leaf_of E V L key old" and st: "stands_in E V L Oc old new"
  shows "\<forall>t J (s :: 'z hst_scheme) c s'. repr E V L Oc A d ch t J \<longrightarrow> sees_on s V L A J \<longrightarrow>
     repoint E (Some ch) d key td old new s = (Inr c, s') \<longrightarrow> (\<exists>ch'. c = Some ch' \<and> extent_at E V L (h_arena s') k d ch' p)"
  using assms(1)
proof (induction rule: extent_at.induct)
  case (here lba h sz runs ps d)
  have at: "extent_at E V L B k d (Committed h lba) (lba, h, ps)" for B using here by (rule extent_at.here)
  have miss: "\<not> (h = fst old \<and> lba = snd old)" using here old k by (auto simp: leaf_of_def)
  show ?case
  proof (intro allI impI)
    fix t J c and s s' :: "'z hst_scheme"
    assume so: "sees_on s V L A J" and run: "repoint E (Some (Committed h lba)) d key td old new s = (Inr c, s')"
    have "c = Some (Committed h lba)"
    proof (cases "td \<noteq> U8_MAX \<and> d > td + 1")
      case True
      then show ?thesis using run miss by (auto simp: repoint.simps retE_def)
    next
      case False
      show ?thesis using run unfolding repoint.simps if_not_P [OF miss] if_not_P [OF False]
        by (cases rule: read_doc_bind [OF _ sees_on_sees [OF so] here(1), consumes 1]) (auto simp: retE_run)
    qed
    then show "\<exists>ch'. c = Some ch' \<and> extent_at E V L (h_arena s') k d ch' (lba, h, ps)" using at by blast
  qed
next
  case (node lba h n d ch p)
  have miss: "\<not> (h = fst old \<and> lba = snd old)" using node.hyps old by (auto simp: leaf_of_def)
  show ?case
  proof (intro allI impI)
    fix t J c and s s' :: "'z hst_scheme"
    assume rep: "repr E V L Oc A d (Committed h lba) t J" and so: "sees_on s V L A J"
      and run: "repoint E (Some (Committed h lba)) d key td old new s = (Inr c, s')"
    obtain ts where ts: "J = {}" "n_depth n = d" "length (n_children n) = 32" "length ts = 32"
      "\<forall>c < 32. (n_children n ! c = None \<and> ts ! c = None)
        \<or> (\<exists>ch t. n_children n ! c = Some ch \<and> ts ! c = Some t \<and> repr E V L Oc A (Suc d) ch t {})"
      using rep by (cases rule: repr.cases) (use node.hyps(1) in \<open>auto dest: leaf_doc_not_node\<close>)
    have slA: "slots_ok E V L Oc A (Suc d) (n_children n) ts (\<lambda>_. {})" using ts by (intro repr_slots) auto
    obtain u where u: "repr E V L Oc A (Suc d) ch u {}" using ts(5) [rule_format, OF chunk_less [of k d]] node.hyps(2) by auto
    have ext: "extent_at E V L B k (Suc d) ch p" for B by (rule extent_at_frame [OF u node.hyps(3)]) auto
    show "\<exists>ch'. c = Some ch' \<and> extent_at E V L (h_arena s') k d ch' p"
    proof (cases "td \<noteq> U8_MAX \<and> d > td + 1")
      case True
      then show ?thesis using run miss extent_at.node [OF node.hyps(1,2) ext] by (auto simp: repoint.simps retE_def)
    next
      case False
      show ?thesis using run unfolding repoint.simps if_not_P [OF miss] if_not_P [OF False]
      proof (cases rule: read_doc_bind [OF _ sees_on_sees [OF so] node.hyps(1), consumes 1, case_names err ok])
        case (ok s1)
        let ?s2 = "h_removed_update (\<lambda>a. a @ [(lba, h)]) (s1\<lparr>h_arena := h_arena s1 @ [n]\<rparr>)" and ?i = "length (h_arena s1)" and ?c = "ck key d"
        have "store_ok s1" using ok(1) by (simp add: sees_def)
        then have so2: "sees_on ?s2 V L A' {}" for A' using ok(1) by (auto simp: sees_on_def sees_def store_ok_def tview_def fun_eq_iff)
        show ?thesis
        proof (cases rule: chunk_cases [of key d])
          case (deep e)
          then show ?thesis using ok(3) ts(2) by (simp add: node_at_depth_def bindE_def liftE_def arena_push_def push_removed_def modE_def raiseE_def)
        next
          case ck: ok
          have run2: "bindE (repoint E (n_children n ! ?c) (Suc d) key td old new) (\<lambda>new_sub.
              bindE (modE (arena_set ?i ?c new_sub)) (\<lambda>_. retE (Some (Dirty ?i)))) ?s2 = (Inr c, s')"
            using ok(3) ts(2) ck child_at_ok [OF ts(3)]
            by (simp add: node_at_depth_def bindE_def liftE_def arena_push_def push_removed_def modE_def)
          have sl: "slots_ok E V L Oc (h_arena ?s2) (Suc d) (n_children n) ts (\<lambda>_. {})" by (rule slots_frame [OF slA]) simp
          show ?thesis
            by (rule repoint_below_extent [OF run2 sees_on_sees [OF so2] sl _ _ _ st node.hyps(2) ext])
              (use node.IH [rule_format, OF u so2] in auto)
        qed
      qed simp
    qed
  qed
next
  case (dirty idx n d ch p)
  show ?case
  proof (intro allI impI)
    fix t J c and s s' :: "'z hst_scheme"
    assume rep: "repr E V L Oc A d (Dirty idx) t J" and so: "sees_on s V L A J"
      and run: "repoint E (Some (Dirty idx)) d key td old new s = (Inr c, s')"
    let ?c = "ck key d"
    obtain ts I where ts: "idx < length A" "length (n_children n) = 32" "length ts = 32"
      "\<forall>c < 32. (n_children n ! c = None \<and> ts ! c = None \<and> I c = {})
        \<or> (\<exists>ch t. n_children n ! c = Some ch \<and> ts ! c = Some t \<and> repr E V L Oc A (Suc d) ch t (I c))"
      "\<forall>c < 32. idx \<notin> I c" "\<forall>b < 32. \<forall>c < 32. b \<noteq> c \<longrightarrow> I b \<inter> I c = {}" "J = insert idx (\<Union>c \<in> {..<32}. I c)" "d < MAX_DEPTH"
      using rep by (cases rule: repr.cases) (use dirty.hyps(1) in simp)
    have sub: "I c \<subseteq> J" if "c < 32" for c using ts(7) that by blast
    have at: "idx < length (h_arena s)" "h_arena s ! idx = n" using so ts(7) dirty.hyps(1) by (auto simp: sees_on_def)
    have slA: "slots_ok E V L Oc A (Suc d) (n_children n) ts I" using ts by (simp add: slots_ok_def)
    have sl: "slots_ok E V L Oc (h_arena s) (Suc d) (n_children n) ts I" using so sub by (intro slots_frame [OF slA]) (auto simp: sees_on_def)
    have d: "d < 52" using ts(8) by (simp add: MAX_DEPTH_def)
    have run1: "bindE (repoint E (n_children n ! ?c) (Suc d) key td old new) (\<lambda>new_sub.
        bindE (modE (arena_set idx ?c new_sub)) (\<lambda>_. retE (Some (Dirty idx)))) s = (Inr c, s')"
      using run chunk_ok [OF d] at child_at_ok [OF ts(2)] arena_get_run [OF at(1)] by (simp add: repoint.simps bindE_def liftE_def)
    obtain u where u: "repr E V L Oc A (Suc d) ch u (I (ck k d))" using ts(4) [rule_format, OF chunk_less [of k d]] dirty.hyps(2) by auto
    have soc: "sees_on s V L A (I (ck k d))" by (rule sees_on_sub [OF so sub [OF chunk_less]])
    have ext: "extent_at E V L (h_arena s) k (Suc d) ch p"
      by (rule extent_at_frame [OF u dirty.hyps(3)]) (use soc in \<open>auto simp: sees_on_def\<close>)
    show "\<exists>ch'. c = Some ch' \<and> extent_at E V L (h_arena s') k d ch' p"
      by (rule repoint_below_extent [OF run1 sees_on_sees [OF so] sl at ts(5) st dirty.hyps(2) ext])
        (rule dirty.IH [rule_format, OF u soc])
  qed
qed

section \<open>The tree and the extents in it\<close>

definition extent_of :: "vsf_env \<Rightarrow> 'z hst_scheme \<Rightarrow> hash \<Rightarrow> nat \<times> hash \<times> nat list \<Rightarrow> bool" where
  "extent_of E s key p \<longleftrightarrow> (\<exists>ch. h_root s = Some ch \<and> extent_at E (tview s) (t_len (st_tract s)) (h_arena s) key 0 ch p)"

text \<open>The tree the store holds, and the places of some extents in it.\<close>

definition holds_ext :: "vsf_env \<Rightarrow> (hash \<times> nat \<times> hash \<times> nat list) set \<Rightarrow> 'z hst_scheme \<Rightarrow> tree option \<Rightarrow> bool" where
  "holds_ext E X s t \<longleftrightarrow> holds E s t \<and> (\<forall>(k, p) \<in> X. extent_of E s k p)"

lemma holds_ext_holds: "holds_ext E X s t \<Longrightarrow> holds E s t"
  by (simp add: holds_ext_def)

lemma extent_of_frame:
  fixes s :: "'z hst_scheme"
  assumes x: "extent_of E s k p" and h: "holds E s t" and r: "h_root s' = h_root s" and L: "t_len (st_tract s') = t_len (st_tract s)"
    and V: "\<forall>q \<in> occ (st_tract s). tview s' q = tview s q" and A: "\<forall>i < length (h_arena s). h_arena s' ! i = h_arena s ! i"
  shows "extent_of E s' k p"
proof -
  obtain ch where ch: "h_root s = Some ch" "extent_at E (tview s) (t_len (st_tract s)) (h_arena s) k 0 ch p" using x by (auto simp: extent_of_def)
  then obtain u J where u: "repr E (tview s) (t_len (st_tract s)) (occ (st_tract s)) (h_arena s) 0 ch u J" using h by (auto simp: holds_def)
  have "extent_at E (tview s') (t_len (st_tract s)) (h_arena s') k 0 ch p"
    using repr_footprint [OF u] A by (intro extent_at_frame [OF u ch(2) V]) auto
  then show ?thesis using ch(1) r L by (simp add: extent_of_def)
qed

lemma holds_ext_grows:
  fixes s :: "'z hst_scheme"
  assumes "grows s s'" and "holds_ext E X s t"
  shows "holds_ext E X s' t"
proof -
  have "extent_of E s' k p" if "extent_of E s k p" for k p
    by (rule extent_of_frame [OF that holds_ext_holds [OF assms(2)]]) (use assms(1) in \<open>auto simp: grows_def\<close>)
  then show ?thesis using assms holds_grows [of s s' E t] by (auto simp: holds_ext_def)
qed

lemma holds_ext_reads:
  fixes s :: "'z hst_scheme"
  assumes "after_reads s s'" and "holds_ext E X s t"
  shows "holds_ext E X s' t"
  using holds_ext_grows [OF grows_reads [OF assms(1)] assms(2)] assms(2) by (simp add: holds_ext_def holds_def)

lemma holds_ext_log:
  fixes s :: "'z hst_scheme"
  shows "holds_ext E X (h_added_update f s) t = holds_ext E X s t" "holds_ext E X (h_removed_update f s) t = holds_ext E X s t"
proof -
  have "extent_of E (h_added_update f s) k p = extent_of E s k p" "extent_of E (h_removed_update f s) k p = extent_of E s k p" for k p
    by (simp_all add: extent_of_def)
  then show "holds_ext E X (h_added_update f s) t = holds_ext E X s t" "holds_ext E X (h_removed_update f s) t = holds_ext E X s t"
    by (simp_all add: holds_ext_def holds_log)
qed

text \<open>A repoint to the leaf of one key keeps the extents of all others, whatever it returns.\<close>

lemma repoint_root_ext:
  fixes s :: "'z hst_scheme"
  assumes run: "repoint_root E key td old new miss s = (r, s')" and h: "holds_ext E X s t"
    and st: "stands_in E (tview s) (t_len (st_tract s)) (occ (st_tract s)) old new"
    and old: "leaf_of E (tview s) (t_len (st_tract s)) key old" and X: "key \<notin> fst ` X"
  shows "holds_ext E X s' t"
proof -
  have h0: "holds E s t" and ok0: "store_ok s" using h by (auto simp: holds_ext_def holds_def)
  from run have run1: "bindE (repoint E (h_root s) 0 key td old new) (\<lambda>new_root.
      bindE (modE (h_root_update (\<lambda>_. new_root))) (\<lambda>_.
      bindE (getE h_hits) (\<lambda>after. if after = h_hits s then raiseE miss else retE ()))) s = (r, s')"
    by (simp add: repoint_root_def bindE_def getE_def)
  have "extent_of E s' k p" if kp: "(k, p) \<in> X" for k p
  proof -
    have x: "extent_of E s k p" and ne: "k \<noteq> key" using h kp X by (auto simp: holds_ext_def image_iff)
    obtain ch where ch: "h_root s = Some ch" "extent_at E (tview s) (t_len (st_tract s)) (h_arena s) k 0 ch p" using x by (auto simp: extent_of_def)
    then obtain u J where u: "repr E (tview s) (t_len (st_tract s)) (occ (st_tract s)) (h_arena s) 0 ch u J" using h0 by (auto simp: holds_def)
    have so: "sees_on s (tview s) (t_len (st_tract s)) (h_arena s) J" using ok0 repr_footprint [OF u] by (auto simp: sees_on_def)
    from run1 show ?thesis
    proof (cases rule: bindE_cases)
      case (err e)
      then have "edits {} s s'" using repoint_spec [OF u st, rule_format, OF so] ch(1) by (metis pruned_def)
      then show ?thesis by (intro extent_of_frame [OF x h0]) (auto simp: edits_def)
    next
      case (ok new_root s1)
      have s': "s' = h_root_update (\<lambda>_. new_root) s1" using ok(2) by (auto simp: bindE_def modE_def getE_def retE_def raiseE_def split: if_splits)
      have "edits J s s1" using repoint_spec [OF u st, rule_format, OF so] ok(1) ch(1) by (metis pruned_def)
      moreover obtain ch' where "new_root = Some ch'" "extent_at E (tview s) (t_len (st_tract s)) (h_arena s1) k 0 ch' p"
        using repoint_extent [OF ch(2) ne old st, rule_format, OF u so] ok(1) ch(1) by metis
      ultimately show ?thesis using s' by (simp add: extent_of_def edits_def tview_def)
    qed
  qed
  then show ?thesis using repoint_root_spec [OF run h0 st] by (auto simp: holds_ext_def)
qed

section \<open>Moving the furrows of an extent\<close>

lemma read_group:
  fixes s :: "'z hst_scheme"
  assumes "mapE (\<lambda>(pos, _). tract_read pos) g s = (r, s')" and "store_ok s"
  shows "after_reads s s' \<and> (\<forall>bs. r = Inr bs \<longrightarrow> bs = map (tview s \<circ> fst) g \<and> (\<forall>b \<in> set bs. length b = BLOCK))"
  using assms
proof (induction g arbitrary: s r s')
  case Nil
  then show ?case by (auto simp: retE_run after_reads_refl)
next
  case (Cons x g)
  have "bindE (tract_read (fst x)) (\<lambda>b. bindE (mapE (\<lambda>(pos, _). tract_read pos) g) (\<lambda>bs. retE (b # bs))) s = (r, s')"
    using Cons.prems(1) by (cases x) simp
  then show ?case
  proof (cases rule: bindE_cases)
    case (err e)
    then show ?thesis using tract_read_spec [OF err(1) Cons.prems(2)] by simp
  next
    case (ok b s1)
    note rd = tract_read_spec [OF ok(1) Cons.prems(2)]
    have ok1: "store_ok s1" and vw: "tview s1 = tview s" using rd after_reads_ok [OF Cons.prems(2)] after_reads_fields [of s s1] by blast+
    from ok(2) show ?thesis
    proof (cases rule: bindE_cases)
      case (err e)
      then show ?thesis using Cons.IH [OF err(1) ok1] rd after_reads_trans by auto
    next
      case rest: (ok bs s2)
      then show ?thesis using Cons.IH [OF rest(1) ok1] rd after_reads_trans tract_read_length [OF ok(1) Cons.prems(2)] vw
        by (auto simp: retE_run)
    qed
  qed
qed

lemma patch_positions_spec:
  assumes "patch_positions ys ps = Inr ps'"
  shows "length ps' = length ps \<and> (\<forall>j < length ps. ps' ! j = ps ! j \<or> (j, ps' ! j) \<in> set ys)"
  using assms
proof (induction ys ps rule: patch_positions.induct)
  case (2 i q ys ps)
  then have "i < length ps" and IH: "length ps' = length ps" "\<forall>j < length ps. ps' ! j = ps[i := q] ! j \<or> (j, ps' ! j) \<in> set ys"
    by (auto split: if_splits)
  then show ?case by (auto simp: nth_list_update split: if_splits)
qed simp

text \<open>Furrows moved block by block carry the same value.\<close>

lemma furrows_moved:
  assumes "furrows_are E V key ps v" and "length ps' = length ps" and "\<forall>j < length ps. V (ps' ! j) = V (ps ! j)"
  shows "furrows_are E V key ps' v"
  using assms unfolding furrows_are_def by auto

text \<open>A leaf rebuilt over positions that hold the same blocks takes the place of the old one.\<close>

lemma stands_in_leaf:
  assumes old: "doc_of E (V l) h L = Inr (Some (DocExtent key sz runs))" "expand_runs E runs sz L = Inr ps"
    and new: "doc_of E (V l') h' L = Inr (Some (DocExtent key sz runs'))" "expand_runs E runs' sz L = Inr ps'" "l' \<in> Oc"
    and same: "length ps' = length ps" "\<forall>j < length ps. V (ps' ! j) = V (ps ! j)" "set ps' \<subseteq> Oc"
  shows "stands_in E V L Oc (h, l) (h', l')"
  unfolding stands_in_def fst_conv snd_conv
proof (intro allI impI)
  fix A d t J assume "repr E V L Oc A d (Committed h l) t J"
  then obtain v where v: "t = TLeaf key v" "J = {}" "length key = 32" "furrows_are E V key ps v" "length v = sz"
    by (cases rule: repr.cases) (use old in \<open>auto simp: leaf_doc_def\<close>)
  have "leaf_doc E V L Oc (DocExtent key sz runs') key v"
    using furrows_moved [OF v(4) same(1,2)] v new(2) same(3) by (simp add: leaf_doc_def)
  then show "repr E V L Oc A d (Committed h' l') t J" unfolding v(1,2) using new by (intro repr_leaf)
qed

lemma bindE_of: "f s = Inr x \<Longrightarrow> bindE (\<lambda>s. (f s, s)) k s = k x s"
  by (simp add: bindE_def)

lemma swap_leaf_spec:
  fixes s :: "'z hst_scheme"
  assumes run: "bindE (liftE (encode_extent E key sz (compress_runs ps'))) (\<lambda>new_leaf.
      bindE (tract_append oracle [new_leaf]) (\<lambda>nl.
      bindE (liftE (hp_of E new_leaf)) (\<lambda>nh.
      bindE (replace_leaf E key (lh, ll) (nh, hd nl)) (\<lambda>_. rest new_leaf nl nh)))) s = (r, s')"
    and h: "holds_ext E X s t" and E: "vsf_ok E" and key: "length key = 32" "key \<notin> fst ` X" and small: "sz < U64"
    and old: "doc_of E (tview s ll) lh (t_len (st_tract s)) = Inr (Some (DocExtent key sz runs))" "ll \<in> occ (st_tract s)"
      "expand_runs E runs sz (t_len (st_tract s)) = Inr ps" "set ps \<subseteq> occ (st_tract s)"
    and same: "length ps' = length ps" "\<forall>j < length ps. tview s (ps' ! j) = tview s (ps ! j)"
      "set ps' \<subseteq> occ (st_tract s)" "\<forall>p \<in> set ps'. p < t_len (st_tract s)"
    and rest: "\<And>b nl nh s1 q s2. holds_ext E X s1 t \<Longrightarrow> rest b nl nh s1 = (q, s2) \<Longrightarrow> holds_ext E X s2 t"
  shows "holds_ext E X s' t"
proof (cases "length (compress_runs ps') \<le> max_runs E")
  case False
  then show ?thesis using run h by (auto simp: encode_extent_def bindE_def liftE_def)
next
  case True
  let ?L = "t_len (st_tract s)" and ?runs = "compress_runs ps'"
  let ?b = "doc_block E SCHEMA_EXTENT (extent_fields key sz ?runs)" and ?h = "blake3 E (doc_body E SCHEMA_EXTENT (extent_fields key sz ?runs))"
  have ok: "store_ok s" using h by (simp add: holds_ext_def holds_def)
  then have L: "?L < 2 ^ 63" by (simp add: store_ok_def)
  have w: "\<forall>(a, c) \<in> set ?runs. a < U64 \<and> c < U64" using compress_runs_within [OF same(4)] L by fastforce
  note e = encode_extent_ok [OF E key(1) small True w] and l = length_doc_block [OF E extent_doc(2) [OF E key(1) small True w]]
  have x: "expand_runs E ?runs sz ?L = Inr ps'" using expand_runs_ok [OF old(3) L] same L by (intro expand_compress) auto
  have hp: "hp_of E ?b = Inr ?h" using sealed_hp_doc_block [OF E] by (simp add: hp_of_def)
  from run have "bindE (tract_append oracle [?b]) (\<lambda>nl. bindE (replace_leaf E key (lh, ll) (?h, hd nl)) (\<lambda>_. rest ?b nl ?h)) s = (r, s')"
    by (simp add: e(1) hp liftE_Inr bindE_retE)
  then show ?thesis
  proof (cases rule: bindE_cases)
    case (err e)
    then show ?thesis using tract_append_cases [OF err(1) ok] l holds_ext_grows [OF _ h] by fastforce
  next
    case ap: (ok nl s1)
    obtain q where q: "nl = [q]" "appended [q] ((!) [?b]) s s1"
      by (rule tract_append_cases [OF ap(1) ok]) (use l in \<open>auto simp: length_Suc_conv\<close>)
    have g: "grows s s1" "q \<in> occ (st_tract s1)" "tview s1 q = ?b" using q(2) by (auto simp: appended_def)
    have len1: "t_len (st_tract s1) = ?L" and vw: "\<And>p. p \<in> occ (st_tract s) \<Longrightarrow> tview s1 p = tview s p"
      and sub: "occ (st_tract s) \<subseteq> occ (st_tract s1)" using g(1) by (auto simp: grows_def)
    have n1: "doc_of E (tview s1 q) ?h ?L = Inr (Some (DocExtent key sz ?runs))"
      unfolding g(3) by (rule doc_of_block [OF E e(2)]) (simp add: points_past_def)
    have o1: "doc_of E (tview s1 ll) lh ?L = Inr (Some (DocExtent key sz runs))" using old(1,2) vw by simp
    have sm: "\<forall>j < length ps. tview s1 (ps' ! j) = tview s1 (ps ! j)" using same(1-3) old(4) vw by (auto simp: subset_iff)
    have "stands_in E (tview s1) ?L (occ (st_tract s1)) (lh, ll) (?h, q)"
      using same(3) sub by (intro stands_in_leaf [where V = "tview s1" and ps = ps and ps' = ps', OF o1 old(3) n1 x g(2) same(1) sm]) blast
    then have st: "stands_in E (tview s1) (t_len (st_tract s1)) (occ (st_tract s1)) (lh, ll) (?h, q)" by (simp add: len1)
    have go: "holds_ext E X s2 t" if "replace_leaf E key (lh, ll) (?h, q) s1 = (y, s2)" for y s2
      using repoint_root_ext [OF that [unfolded replace_leaf_def] holds_ext_grows [OF g(1) h] st _ key(2)] o1 len1 by (simp add: leaf_of_def)
    from ap(2) show ?thesis unfolding q(1) list.sel(1)
      by (cases rule: bindE_cases) (auto intro: rest go)
  qed
qed

text \<open>The group holds furrows the extent names, each with its index.\<close>

definition group_of :: "nat list \<Rightarrow> (nat \<times> nat) list \<Rightarrow> bool" where
  "group_of ps g \<longleftrightarrow> (\<forall>(pos, i) \<in> set g. i < length ps \<and> ps ! i = pos)"

lemma patched_moved:
  assumes patch: "patch_positions (zip (map snd g) qs) ps = Inr ps'" and grp: "group_of ps g"
    and at: "\<forall>k < length qs. k < length g \<longrightarrow> V (qs ! k) = V (fst (g ! k))"
    and ps: "set ps \<subseteq> Oc" "set qs \<subseteq> Oc" "\<forall>p \<in> set ps. p < L" "\<forall>p \<in> set qs. p < L"
  shows "length ps' = length ps \<and> (\<forall>j < length ps. V (ps' ! j) = V (ps ! j)) \<and> set ps' \<subseteq> Oc \<and> (\<forall>p \<in> set ps'. p < L)"
proof -
  note pp = patch_positions_spec [OF patch]
  have moved: "ps' ! j \<in> Oc \<and> ps' ! j < L \<and> V (ps' ! j) = V (ps ! j)" if j: "j < length ps" for j
  proof (cases "ps' ! j = ps ! j")
    case True
    then show ?thesis using ps nth_mem [OF j] by auto
  next
    case False
    then have "(j, ps' ! j) \<in> set (zip (map snd g) qs)" using pp j by blast
    then obtain k where k: "k < length g" "k < length qs" "snd (g ! k) = j" "qs ! k = ps' ! j"
      by (auto simp: in_set_zip)
    have "fst (g ! k) = ps ! j" using grp k(3) nth_mem [OF k(1)] by (auto simp: group_of_def)
    then show ?thesis using at k ps nth_mem [OF k(2)] by auto
  qed
  then show ?thesis using pp by (auto simp: in_set_conv_nth)
qed

lemma move_extent_spec:
  fixes s :: "'z hst_scheme"
  assumes run: "move_extent E oracle key (ll, lh) sz runs group0 s = (r, s')" and h: "holds_ext E X s t"
    and E: "vsf_ok E" and key: "length key = 32" "key \<notin> fst ` X" and small: "sz < U64"
    and old: "doc_of E (tview s ll) lh (t_len (st_tract s)) = Inr (Some (DocExtent key sz runs))" "ll \<in> occ (st_tract s)"
      "expand_runs E runs sz (t_len (st_tract s)) = Inr ps" "set ps \<subseteq> occ (st_tract s)"
    and grp: "group_of ps group0"
  shows "holds_ext E X s' t"
proof -
  let ?g = "sort_key snd group0" and ?L = "t_len (st_tract s)"
  have ok: "store_ok s" using h by (simp add: holds_ext_def holds_def)
  have L: "?L < 2 ^ 63" using ok by (simp add: store_ok_def)
  define rest where "rest = (\<lambda>placed payload (b :: block) nl nh. bindE (mapE (\<lambda>b. liftE (hp_of E b)) payload) (\<lambda>hs.
      bindE (push_added (zip placed hs)) (\<lambda>_. bindE (push_removed (zip (map fst ?g) hs)) (\<lambda>_.
      bindE (push_added [(hd nl, nh)]) (\<lambda>_. push_removed [(ll, lh)]))) :: ('z hst_scheme, unit) op))"
  have keep: "holds_ext E X s2 t" if "holds_ext E X s1 t" "rest placed payload b nl nh s1 = (q, s2)" for placed payload b nl nh s1 q s2
    using that(2) unfolding rest_def
    by (cases rule: bindE_cases) (use that(1) in \<open>auto simp: push_added_def push_removed_def bindE_def modE_def holds_ext_log dest!: mapE_lift\<close>)
  have run1: "bindE (mapE (\<lambda>(pos, _). tract_read pos) ?g) (\<lambda>payload. bindE (tract_append oracle payload) (\<lambda>placed.
      bindE (\<lambda>s. (expand_runs E runs sz (t_len (st_tract s)), s)) (\<lambda>positions.
      bindE (liftE (patch_positions (zip (map snd ?g) placed) positions)) (\<lambda>positions'.
      bindE (liftE (encode_extent E key sz (compress_runs positions'))) (\<lambda>new_leaf.
      bindE (tract_append oracle [new_leaf]) (\<lambda>nl.
      bindE (liftE (hp_of E new_leaf)) (\<lambda>nh.
      bindE (replace_leaf E key (lh, ll) (nh, hd nl)) (\<lambda>_. rest placed payload new_leaf nl nh)))))))) s = (r, s')"
    using run by (simp add: move_extent_def rest_def Let_def)
  then show ?thesis
  proof (cases rule: bindE_cases)
    case (err e)
    then show ?thesis using read_group [OF err(1) ok] holds_ext_reads [OF _ h] by blast
  next
    case rd: (ok payload s1)
    have ar: "after_reads s s1" and pay: "payload = map (tview s \<circ> fst) ?g" "\<forall>b \<in> set payload. length b = BLOCK"
      using read_group [OF rd(1) ok] by blast+
    note f1 = after_reads_fields [OF ar]
    have h1: "holds_ext E X s1 t" by (rule holds_ext_reads [OF ar h])
    have ok1: "store_ok s1" by (rule after_reads_ok [OF ok ar])
    from rd(2) show ?thesis
    proof (cases rule: bindE_cases)
      case (err e)
      then show ?thesis using tract_append_cases [OF err(1) ok1 pay(2)] holds_ext_grows [OF _ h1] by blast
    next
      case ap: (ok placed s2)
      obtain a: "appended placed ((!) payload) s1 s2" and len: "length placed = length payload"
        by (rule tract_append_cases [OF ap(1) ok1 pay(2)]) auto
      have g: "grows s1 s2" and pl: "set placed \<subseteq> occ (st_tract s2)" "set placed \<subseteq> {..<?L}"
        "\<forall>k < length placed. tview s2 (placed ! k) = payload ! k" using a f1(1) by (auto simp: appended_def)
      have len2: "t_len (st_tract s2) = ?L" and vw: "\<And>p. p \<in> occ (st_tract s) \<Longrightarrow> tview s2 p = tview s p"
        and sub: "occ (st_tract s) \<subseteq> occ (st_tract s2)" using g f1 by (auto simp: grows_def)
      have h2: "holds_ext E X s2 t" by (rule holds_ext_grows [OF g h1])
      show ?thesis
      proof (cases "patch_positions (zip (map snd ?g) placed) ps")
        case (Inl e)
        then show ?thesis using ap(2) len2 old(3) h2 by (simp add: bindE_def liftE_def)
      next
        case (Inr ps')
        have "group_of ps ?g" using grp by (simp add: group_of_def)
        moreover have "tview s2 (placed ! k) = tview s2 (fst (?g ! k))" if k: "k < length placed" "k < length ?g" for k
        proof -
          have "?g ! k \<in> set group0" using nth_mem [OF k(2)] by simp
          then have "fst (?g ! k) \<in> occ (st_tract s)" using grp old(4) nth_mem [of _ ps] by (fastforce simp: group_of_def)
          then show ?thesis using pl(3) pay(1) k vw by simp
        qed
        ultimately have sm: "length ps' = length ps \<and> (\<forall>j < length ps. tview s2 (ps' ! j) = tview s2 (ps ! j)) \<and> set ps' \<subseteq> occ (st_tract s2)
          \<and> (\<forall>p \<in> set ps'. p < t_len (st_tract s2))"
          using expand_runs_ok [OF old(3) L] old(4) sub pl(1,2) len2 by (intro patched_moved [OF Inr]) auto
        have o2: "doc_of E (tview s2 ll) lh (t_len (st_tract s2)) = Inr (Some (DocExtent key sz runs))" "ll \<in> occ (st_tract s2)"
          "expand_runs E runs sz (t_len (st_tract s2)) = Inr ps" "set ps \<subseteq> occ (st_tract s2)" using old vw sub len2 by auto
        have "bindE (liftE (encode_extent E key sz (compress_runs ps'))) (\<lambda>new_leaf.
            bindE (tract_append oracle [new_leaf]) (\<lambda>nl. bindE (liftE (hp_of E new_leaf)) (\<lambda>nh.
            bindE (replace_leaf E key (lh, ll) (nh, hd nl)) (\<lambda>_. rest placed payload new_leaf nl nh)))) s2 = (r, s')"
          using ap(2) Inr o2(3) by (simp add: bindE_of [where f = "\<lambda>s. expand_runs E runs sz (t_len (st_tract s))" and s = s2, OF o2(3)] liftE_Inr bindE_retE)
        then show ?thesis by (rule swap_leaf_spec [OF _ h2 E key small o2]) (use sm keep in blast)+
      qed
    qed
  qed
qed

text \<open>The furrows of a group are those of the extent its key is found under.\<close>

definition owned :: "vsf_env \<Rightarrow> 'z hst_scheme \<Rightarrow> hash \<Rightarrow> (nat \<times> nat) list \<Rightarrow> bool" where
  "owned E s key g \<longleftrightarrow> (\<forall>lba h sz runs ps. fst (find_leaf E key s) = Inr (Some (lba, h)) \<longrightarrow>
     doc_of E (tview s lba) h (t_len (st_tract s)) = Inr (Some (DocExtent key sz runs)) \<longrightarrow>
     expand_runs E runs sz (t_len (st_tract s)) = Inr ps \<longrightarrow> group_of ps g)"

text \<open>A sharded leaf of the legacy format is read and put again.\<close>

lemma rewrite_direct_spec:
  fixes s :: "'z hst_scheme"
  assumes run: "bindE (read_furrows E key sz fs) (put E live key) s = (r, s')" and h: "holds E s t" and E: "vsf_ok E"
    and key: "length key = 32" and small: "length v < U64" and v: "lookup_opt key 0 t = Some v"
    and fs: "furrows_are E (tview s) key fs v" "\<forall>f \<in> set fs. f + 1 < U64"
  shows "\<exists>t'. holds E s' t' \<and> (\<forall>x. lookup_opt x 0 t' = lookup_opt x 0 t)"
proof -
  have ok: "store_ok s" using h by (simp add: holds_def)
  note rf = read_furrows_spec [OF _ ok fs(2)]
  from run show ?thesis
  proof (cases rule: bindE_cases)
    case (err e)
    then show ?thesis using rf [OF err(1)] holds_reads [OF _ h] by blast
  next
    case (ok w s1)
    have w: "after_reads s s1" "w = v" using rf [OF ok(1)] furrows_are_unique [OF _ fs(1), of w] by auto
    have h1: "holds E s1 t" by (rule holds_reads [OF w(1) h])
    note ps = put_spec [OF ok(2) [unfolded w(2)] h1 E key small]
    show ?thesis
    proof (cases r)
      case (Inl e)
      then show ?thesis using ps by blast
    next
      case (Inr u)
      then obtain t' where "holds E s' (Some t')" "\<forall>x. tree_lookup x 0 t' = (if x = key then Some v else lookup_opt x 0 t)"
        using ps by blast
      then show ?thesis using v by (intro exI [of _ "Some t'"]) simp
    qed
  qed
qed

lemma move_owner_spec:
  fixes s :: "'z hst_scheme"
  assumes run: "move_owner E live (key, g) s = (r, s')" and h: "holds E s t" and E: "vsf_ok E"
    and small: "\<And>v. lookup_opt key 0 t = Some v \<Longrightarrow> length v < U64" and own: "owned E s key g"
  shows "\<exists>t'. holds E s' t' \<and> (\<forall>x. lookup_opt x 0 t' = lookup_opt x 0 t)"
proof -
  have ok0: "store_ok s" using h by (simp add: holds_def)
  from run have "bindE (find_leaf E key) (\<lambda>found. case found of
       None \<Rightarrow> retE ()
     | Some (ll, lh) \<Rightarrow>
         bindE (read_doc E ll lh) (\<lambda>d. case d of
           Some (DocExtent k sz runs) \<Rightarrow> if k = key then move_extent E live key (ll, lh) sz runs g else retE ()
         | Some (DocDirect k sz furrows) \<Rightarrow> if k = key then bindE (read_furrows E key sz furrows) (put E live key) else retE ()
         | _ \<Rightarrow> retE ())) s = (r, s')" by (simp add: move_owner_def)
  then show ?thesis
  proof (cases rule: bindE_cases)
    case (err e)
    then show ?thesis using find_leaf_spec [OF err(1) h] holds_reads [OF _ h] by blast
  next
    case fl: (ok found s1)
    note sp = find_leaf_spec [OF fl(1) h]
    have ar: "after_reads s s1" using sp by blast
    have h1: "holds E s1 t" by (rule holds_reads [OF ar h])
    note f1 = after_reads_fields [OF ar]
    have ok1: "store_ok s1" by (rule after_reads_ok [OF ok0 ar])
    show ?thesis
    proof (cases found)
      case None
      then show ?thesis using fl(2) h1 by (auto simp: retE_run)
    next
      case (Some x)
      obtain ll lh where x: "x = (ll, lh)" by (cases x)
      then obtain v where v: "leaf_ptr E (tview s) (t_len (st_tract s)) (occ (st_tract s)) (Committed lh ll) key v" "lookup_opt key 0 t = Some v"
        using sp Some by blast
      then obtain doc where doc: "ll \<in> occ (st_tract s)" "doc_of E (tview s ll) lh (t_len (st_tract s)) = Inr (Some doc)"
        "leaf_doc E (tview s) (t_len (st_tract s)) (occ (st_tract s)) doc key v" by (auto simp: leaf_ptr_def)
      have key: "length key = 32" and small: "length v < U64" using doc(3) small v(2) by (auto simp: leaf_doc_def)
      have run2: "bindE (read_doc E ll lh) (\<lambda>d. case d of
           Some (DocExtent k sz runs) \<Rightarrow> if k = key then move_extent E live key (ll, lh) sz runs g else retE ()
         | Some (DocDirect k sz furrows) \<Rightarrow> if k = key then bindE (read_furrows E key sz furrows) (put E live key) else retE ()
         | _ \<Rightarrow> retE ()) s1 = (r, s')" using fl(2) Some x by simp
      have se: "sees s1 (tview s) (t_len (st_tract s)) (h_arena s1)" using ok1 f1 by (simp add: sees_def)
      show ?thesis
      proof (cases rule: read_doc_bind [OF run2 se doc(2), case_names err ok])
        case (err e)
        then show ?thesis using holds_reads [OF _ h1] by blast
      next
        case (ok s2)
        have h2: "holds E s2 t" by (rule holds_reads [OF ok(2) h1])
        note f2 = after_reads_fields [OF ok(2)]
        show ?thesis
        proof (cases doc)
          case (DocExtent k sz runs)
          then obtain ps where ps: "k = key" "expand_runs E runs sz (t_len (st_tract s)) = Inr ps" "set ps \<subseteq> occ (st_tract s)" "length v = sz"
            using doc(3) by (auto simp: leaf_doc_def)
          have "group_of ps g" using own fl(1) Some x doc(2) DocExtent ps(1,2) by (auto simp: owned_def)
          moreover have "move_extent E live key (ll, lh) sz runs g s2 = (r, s')" using ok(3) DocExtent ps(1) by simp
          ultimately have "holds_ext E {} s' t"
            using move_extent_spec [of E live key ll lh sz runs g s2 r s' "{}" t ps] h2 E key small ps doc DocExtent f1 f2 by (simp add: holds_ext_def)
          then show ?thesis using holds_ext_holds by blast
        next
          case (DocDirect k sz fs)
          then have d: "k = key" "furrows_are E (tview s) key fs v" "length v = sz" using doc(3) by (auto simp: leaf_doc_def)
          have "\<forall>f \<in> set fs. f + 1 < U64" using doc_of_direct_bound [of E "tview s ll" lh _ k sz fs] doc(2) DocDirect ok0 by (fastforce simp: store_ok_def)
          moreover have "bindE (read_furrows E key sz fs) (put E live key) s2 = (r, s')" using ok(3) DocDirect d(1) by simp
          ultimately show ?thesis using rewrite_direct_spec [OF _ h2 E key small v(2)] d f1 f2 by simp
        qed (use ok(3) h2 in \<open>auto simp: retE_run\<close>)
      qed
    qed
  qed
qed

lemma move_owner_map:
  fixes s :: "'z hst_scheme"
  assumes "move_owner E live x s = (r, s')" and "index_map E s m" and "\<forall>key v. m key = Some v \<longrightarrow> length v < U64" and "owned E s (fst x) (snd x)"
  shows "index_map E s' m"
proof -
  obtain t where t: "vsf_ok E" "holds E s t" "\<forall>x. lookup_opt x 0 t = m x" using assms(2) by (auto simp: index_map_holds)
  obtain t' where "holds E s' t'" "\<forall>x. lookup_opt x 0 t' = lookup_opt x 0 t"
    using move_owner_spec [of E live "fst x" "snd x" s r s' t] assms t by auto
  then show ?thesis using t by (auto simp: index_map_holds)
qed


section \<open>A window\<close>

text \<open>A live furrow that the session has not retired is named by an extent of the index.\<close>

definition live_owned :: "vsf_env \<Rightarrow> liveness \<Rightarrow> 'z hst_scheme \<Rightarrow> bool" where
  "live_owned E live s \<longleftrightarrow> (\<forall>pos hp key i c. pos < t_len (st_tract s) \<longrightarrow> sealed_hp E (tview s pos) = Some hp \<longrightarrow> is_live live pos hp \<longrightarrow>
     (pos, hp) \<notin> set (h_removed s) \<longrightarrow> decode_doc E (tview s pos) = Inr (DocFurrow key i c) \<longrightarrow>
     (\<exists>k lba h ps. extent_of E s k (lba, h, ps) \<and> pos \<in> set ps))"

lemma extent_of_leaf:
  assumes "extent_of E s key (lba, h, ps)" and "holds E s t"
  obtains sz runs v where "lba \<in> occ (st_tract s)" "doc_of E (tview s lba) h (t_len (st_tract s)) = Inr (Some (DocExtent key sz runs))"
    "expand_runs E runs sz (t_len (st_tract s)) = Inr ps" "set ps \<subseteq> occ (st_tract s)" "furrows_are E (tview s) key ps v" "length v = sz" "length key = 32"
proof -
  obtain ch where ch: "h_root s = Some ch" "extent_at E (tview s) (t_len (st_tract s)) (h_arena s) key 0 ch (lba, h, ps)" using assms(1) by (auto simp: extent_of_def)
  then obtain u J where "repr E (tview s) (t_len (st_tract s)) (occ (st_tract s)) (h_arena s) 0 ch u J" using assms(2) by (auto simp: holds_def)
  then show thesis using that extent_at_leaf [OF ch(2)] by (fastforce simp: leaf_doc_def)
qed

text \<open>A furrow says which one it is.\<close>

lemma furrows_are_index:
  assumes "furrows_are E V k ps v" and "pos \<in> set ps" and "decode_doc E (V pos) = Inr (DocFurrow key i c)"
  shows "k = key \<and> i < length ps \<and> ps ! i = pos"
proof -
  obtain j where j: "j < length ps" "ps ! j = pos" using assms(2) by (auto simp: in_set_conv_nth)
  then obtain q where "furrow_payload E k j (V pos) = Inr q" using assms(1) by (auto simp: furrows_are_def)
  then have "k = key" "i = j" using assms(3) by (auto simp: furrow_payload_def bindR_def split: if_splits)
  then show ?thesis using j by simp
qed

lemma live_owned_named:
  assumes "live_owned E live s" and h: "holds E s t" and "pos < t_len (st_tract s)" "sealed_hp E (tview s pos) = Some hp" "is_live live pos hp"
    "(pos, hp) \<notin> set (h_removed s)" and d: "decode_doc E (tview s pos) = Inr (DocFurrow key i c)"
  obtains lba h ps where "extent_of E s key (lba, h, ps)" "i < length ps" "ps ! i = pos"
proof -
  obtain k lba hh ps where x: "extent_of E s k (lba, hh, ps)" "pos \<in> set ps" using assms unfolding live_owned_def by blast
  obtain v where "furrows_are E (tview s) k ps v" by (rule extent_of_leaf [OF x(1) h])
  then show thesis using that x furrows_are_index [of E "tview s" k ps v pos key i c] d by metis
qed

lemma extent_at_unique:
  assumes "extent_at E V L A key d ch p" and "extent_at E V L A key d ch q"
  shows "q = p"
  using assms
proof (induction rule: extent_at.induct)
  case (here lba h sz runs ps d)
  from here.prems show ?case by (rule extent_at_committedE) (use here.hyps in auto)
next
  case (node lba h n d ch p)
  from node.prems show ?case by (rule extent_at_committedE) (use node.hyps node.IH in auto)
next
  case (dirty idx n d ch p)
  from dirty.prems show ?case by (rule extent_at_dirtyE) (use dirty.hyps dirty.IH in auto)
qed

lemma extent_of_unique: "extent_of E s key p \<Longrightarrow> extent_of E s key q \<Longrightarrow> q = p"
  unfolding extent_of_def by (auto dest: extent_at_unique)

text \<open>One owner: its extent is rebuilt over the moved furrows, the other extents stay.\<close>

lemma move_owner_ext:
  fixes s :: "'z hst_scheme"
  assumes run: "move_owner E live (key, g) s = (r, s')" and h: "holds_ext E X s t" and E: "vsf_ok E" and X: "key \<notin> fst ` X"
    and small: "\<forall>key v. lookup_opt key 0 t = Some v \<longrightarrow> length v < U64" and ext: "extent_of E s key (lba, hh, ps)" and grp: "group_of ps g"
  shows "holds_ext E X s' t"
proof -
  have h0: "holds E s t" using h by (rule holds_ext_holds)
  obtain sz runs v where d: "lba \<in> occ (st_tract s)" "doc_of E (tview s lba) hh (t_len (st_tract s)) = Inr (Some (DocExtent key sz runs))"
    "expand_runs E runs sz (t_len (st_tract s)) = Inr ps" "set ps \<subseteq> occ (st_tract s)" "furrows_are E (tview s) key ps v" "length v = sz" "length key = 32"
    by (rule extent_of_leaf [OF ext h0])
  from run have "bindE (find_leaf E key) (\<lambda>found. case found of
       None \<Rightarrow> retE ()
     | Some (ll, lh) \<Rightarrow>
         bindE (read_doc E ll lh) (\<lambda>d. case d of
           Some (DocExtent k sz runs) \<Rightarrow> if k = key then move_extent E live key (ll, lh) sz runs g else retE ()
         | Some (DocDirect k sz furrows) \<Rightarrow> if k = key then bindE (read_furrows E key sz furrows) (put E live key) else retE ()
         | _ \<Rightarrow> retE ())) s = (r, s')" by (simp add: move_owner_def)
  then show ?thesis
  proof (cases rule: bindE_cases)
    case (err e)
    then show ?thesis using find_leaf_spec [OF err(1) h0] holds_ext_reads [OF _ h] by blast
  next
    case fl: (ok found s1)
    have ar: "after_reads s s1" using find_leaf_spec [OF fl(1) h0] by blast
    note f1 = after_reads_fields [OF ar]
    have h1: "holds_ext E X s1 t" by (rule holds_ext_reads [OF ar h])
    have ok1: "store_ok s1" using h1 by (simp add: holds_ext_def holds_def)
    obtain ch where ch: "h_root s = Some ch" "extent_at E (tview s) (t_len (st_tract s)) (h_arena s) key 0 ch (lba, hh, ps)" using ext by (auto simp: extent_of_def)
    have "sees s (tview s) (t_len (st_tract s)) (h_arena s)" using h0 by (simp add: sees_def holds_def)
    then have found: "found = Some (lba, hh)" using find_leaf_extent [OF ch(2)] fl(1) ch(1) by (fastforce simp: find_leaf_def)
    have se: "sees s1 (tview s) (t_len (st_tract s)) (h_arena s1)" using ok1 f1 by (simp add: sees_def)
    have "bindE (read_doc E lba hh) (\<lambda>d. case d of
           Some (DocExtent k sz runs) \<Rightarrow> if k = key then move_extent E live key (lba, hh) sz runs g else retE ()
         | Some (DocDirect k sz furrows) \<Rightarrow> if k = key then bindE (read_furrows E key sz furrows) (put E live key) else retE ()
         | _ \<Rightarrow> retE ()) s1 = (r, s')" using fl(2) found by simp
    then show ?thesis
    proof (cases rule: read_doc_bind [OF _ se d(2), consumes 1, case_names err ok])
      case (err e)
      then show ?thesis using holds_ext_reads [OF _ h1] by blast
    next
      case (ok s2)
      obtain x where "leaf_ptr E (tview s) (t_len (st_tract s)) (occ (st_tract s)) (Committed hh lba) key x" "lookup_opt key 0 t = Some x"
        using find_leaf_spec [OF fl(1) h0] found by blast
      then have "sz < U64" using small d(2) by (auto simp: leaf_ptr_def leaf_doc_def)
      moreover have "move_extent E live key (lba, hh) sz runs g s2 = (r, s')" using ok(3) by simp
      ultimately show ?thesis
        using move_extent_spec [of E live key lba hh sz runs g s2 r s' X t ps] holds_ext_reads [OF ok(2) h1] E X d grp f1 after_reads_fields [OF ok(2)] by simp
    qed
  qed
qed

text \<open>All of them, one after another.\<close>

definition each_owned :: "vsf_env \<Rightarrow> owners \<Rightarrow> 'z hst_scheme \<Rightarrow> bool" where
  "each_owned E os s \<longleftrightarrow> distinct (map fst os)
     \<and> (\<forall>(key, g) \<in> set os. \<exists>lba h ps. extent_of E s key (lba, h, ps) \<and> group_of ps g)"

lemma move_owners_map:
  fixes s :: "'z hst_scheme"
  assumes "forE os (move_owner E live) s = (r, s')" and "holds E s t" and "vsf_ok E"
    and small: "\<forall>key v. lookup_opt key 0 t = Some v \<longrightarrow> length v < U64" and "each_owned E os s"
  shows "holds E s' t"
  using assms(1,2,5)
proof (induction os arbitrary: s)
  case Nil
  then show ?case by (simp add: retE_run)
next
  case (Cons o1 os)
  obtain key g where o1: "o1 = (key, g)" by (cases o1)
  obtain lba h ps where x: "extent_of E s key (lba, h, ps)" "group_of ps g" using Cons.prems(3) o1 by (auto simp: each_owned_def)
  define X where "X = {(k, p). k \<in> fst ` set os \<and> extent_of E s k p}"
  have hx: "holds_ext E X s t" using Cons.prems(2) by (auto simp: holds_ext_def X_def)
  have "key \<notin> fst ` set os" using Cons.prems(3) o1 by (simp add: each_owned_def)
  then have kX: "key \<notin> fst ` X" by (force simp: X_def)
  note mo = move_owner_ext [OF _ hx assms(3) kX small x]
  from Cons.prems(1) have "bindE (move_owner E live (key, g)) (\<lambda>_. forE os (move_owner E live)) s = (r, s')" by (simp add: o1)
  then show ?case
  proof (cases rule: bindE_cases)
    case (err e)
    then show ?thesis using mo holds_ext_holds by blast
  next
    case (ok u s1)
    have hx1: "holds_ext E X s1 t" by (rule mo [OF ok(1)])
    have "\<exists>lba h ps. extent_of E s1 k (lba, h, ps) \<and> group_of ps g'" if "(k, g') \<in> set os" for k g'
    proof -
      have "\<exists>lba h ps. extent_of E s k (lba, h, ps) \<and> group_of ps g'"
        using Cons.prems(3) that unfolding each_owned_def list.set(2) by blast
      then obtain lba h ps where y: "extent_of E s k (lba, h, ps)" "group_of ps g'" by blast
      have "k \<in> fst ` set os" using that by force
      then have "(k, lba, h, ps) \<in> X" using y(1) by (simp add: X_def)
      then show ?thesis using hx1 y(2) by (fastforce simp: holds_ext_def)
    qed
    then have "each_owned E os s1" using Cons.prems(3) by (auto simp: each_owned_def)
    then show ?thesis by (rule Cons.IH [OF ok(2) holds_ext_holds [OF hx1]])
  qed
qed

section \<open>The scan\<close>

definition scanned :: "vsf_env \<Rightarrow> liveness \<Rightarrow> (nat \<times> hash) list \<Rightarrow> 'z hst_scheme \<Rightarrow> (nat \<times> hash \<times> TractDoc) option \<Rightarrow> bool" where
  "scanned E live retired s x \<longleftrightarrow> (\<forall>pos hp doc. x = Some (pos, hp, doc) \<longrightarrow> pos < t_len (st_tract s) \<and> sealed_hp E (tview s pos) = Some hp
     \<and> is_live live pos hp \<and> (pos, hp) \<notin> set retired \<and> decode_doc E (tview s pos) = Inr doc)"

lemma reap_scan_spec:
  fixes s :: "'z hst_scheme"
  assumes "reap_scan E live retired i s = (r, s')" and ok0: "store_ok s"
  shows "after_reads s s' \<and> (\<forall>x. r = Inr x \<longrightarrow> scanned E live retired s x)"
proof (cases "t_len (st_tract s) = 0")
  case True
  then show ?thesis using assms after_reads_refl by (auto simp: reap_scan_def)
next
  case False
  let ?pos = "i mod t_len (st_tract s)"
  from False have "bindE (tract_read ?pos) (\<lambda>buf. case sealed_hp E buf of
         None \<Rightarrow> retE None
       | Some hp \<Rightarrow>
           if \<not> is_live live ?pos hp \<or> (?pos, hp) \<in> set retired then retE None
           else bindE (liftE (decode_doc E buf)) (\<lambda>doc. retE (Some (?pos, hp, doc)))) s = (r, s')"
    using assms(1) by (simp add: reap_scan_def Let_def)
  then show ?thesis
  proof (cases rule: bindE_cases)
    case (err e)
    then show ?thesis using tract_read_spec [OF err(1) ok0] by simp
  next
    case (ok b s1)
    have b: "after_reads s s1" "b = tview s ?pos" using tract_read_spec [OF ok(1) ok0] by auto
    have "s' = s1" using ok(2) by (auto simp: retE_def bindE_def liftE_def split: option.splits if_splits sum.splits)
    moreover have "scanned E live retired s x" if "r = Inr x" for x
      using ok(2) that False b(2) by (auto simp: scanned_def retE_def bindE_def liftE_def split: option.splits if_splits sum.splits)
    ultimately show ?thesis using b(1) by blast
  qed
qed

lemma scan_spec:
  fixes s :: "'z hst_scheme"
  assumes "mapE (reap_scan E live retired) is s = (r, s')" and "store_ok s"
  shows "after_reads s s' \<and> (\<forall>xs. r = Inr xs \<longrightarrow> (\<forall>x \<in> set xs. scanned E live retired s x))"
  using assms
proof (induction "is" arbitrary: s r s')
  case Nil
  then show ?case by (auto simp: retE_run after_reads_refl)
next
  case (Cons i "is")
  have "bindE (reap_scan E live retired i) (\<lambda>y. bindE (mapE (reap_scan E live retired) is) (\<lambda>ys. retE (y # ys))) s = (r, s')"
    using Cons.prems(1) by simp
  then show ?case
  proof (cases rule: bindE_cases)
    case (err e)
    then show ?thesis using reap_scan_spec [OF err(1) Cons.prems(2)] by simp
  next
    case (ok y s1)
    note rd = reap_scan_spec [OF ok(1) Cons.prems(2)]
    then have ok1: "store_ok s1" and f: "\<And>x. scanned E live retired s1 x = scanned E live retired s x"
      using after_reads_ok [OF Cons.prems(2)] after_reads_fields [of s s1] by (auto simp: scanned_def)
    from ok(2) show ?thesis
    proof (cases rule: bindE_cases)
      case (err e)
      then show ?thesis using Cons.IH [OF err(1) ok1] rd after_reads_trans by auto
    next
      case rest: (ok ys s2)
      then show ?thesis using Cons.IH [OF rest(1) ok1] rd after_reads_trans f by (auto simp: retE_run)
    qed
  qed
qed

text \<open>The groups: one for each key, with the furrows that name it.\<close>

definition grouped :: "(hash \<times> nat \<times> nat) set \<Rightarrow> owners \<Rightarrow> bool" where
  "grouped S os \<longleftrightarrow> distinct (map fst os) \<and> (\<forall>(key, g) \<in> set os. g \<noteq> [] \<and> (\<forall>x \<in> set g. (key, x) \<in> S))"

lemma owner_push_fst: "set (map fst (owner_push key x os)) = insert key (set (map fst os))"
  by (induction key x os rule: owner_push.induct) auto

lemma owner_push_grouped: "grouped S os \<Longrightarrow> (key, x) \<in> S \<Longrightarrow> grouped S (owner_push key x os)"
proof (induction key x os rule: owner_push.induct)
  case (1 key x)
  then show ?case by (simp add: grouped_def)
next
  case (2 key x k g os)
  then have "grouped S os" by (auto simp: grouped_def)
  then show ?case using 2 owner_push_fst [of key x os] by (auto simp: grouped_def)
qed

lemma furrow_owners_grouped:
  assumes "\<And>pos hp key i c. Some (pos, hp, DocFurrow key i c) \<in> set xs \<Longrightarrow> (key, pos, i) \<in> S"
  shows "grouped S (furrow_owners xs)"
proof -
  have "grouped S (fold (\<lambda>x os. case x of Some (pos, _, DocFurrow key index _) \<Rightarrow> owner_push key (pos, index) os | _ \<Rightarrow> os) xs os)"
    if "grouped S os" for os
    using that assms
  proof (induction xs arbitrary: os)
    case (Cons x xs)
    have "grouped S (case x of Some (pos, _, DocFurrow key index _) \<Rightarrow> owner_push key (pos, index) os | _ \<Rightarrow> os)"
    proof (cases "\<exists>pos hp key i c. x = Some (pos, hp, DocFurrow key i c)")
      case True
      then obtain pos hp key i c where x: "x = Some (pos, hp, DocFurrow key i c)" by blast
      then have "(key, pos, i) \<in> S" using Cons.prems(2) [of pos hp key i c] by simp
      then show ?thesis using x Cons.prems(1) by (simp add: owner_push_grouped)
    qed (use Cons.prems(1) in \<open>auto split: option.splits TractDoc.splits\<close>)
    then show ?case unfolding fold_simps by (rule Cons.IH) (rule Cons.prems(2), rule list.set_intros(2))
  qed simp
  moreover have "grouped S []" by (simp add: grouped_def)
  ultimately show ?thesis unfolding furrow_owners_def .
qed

text \<open>What the scan groups is owned, in whatever order the groups are taken.\<close>

lemma scanned_owned:
  fixes s :: "'z hst_scheme"
  assumes h: "holds E s t" and lo: "live_owned E live s" and xs: "\<forall>x \<in> set xs. scanned E live (h_removed s) s x"
    and ho: "\<And>os. mset (ho os) = mset os"
  shows "each_owned E (ho (furrow_owners xs)) s"
proof -
  let ?S = "{(key, pos, i). \<exists>lba h ps. extent_of E s key (lba, h, ps) \<and> i < length ps \<and> ps ! i = pos}"
  have "(key, pos, i) \<in> ?S" if "Some (pos, hp, DocFurrow key i c) \<in> set xs" for pos hp key i c
  proof -
    have "scanned E live (h_removed s) s (Some (pos, hp, DocFurrow key i c))" using xs that by blast
    then have f: "pos < t_len (st_tract s)" "sealed_hp E (tview s pos) = Some hp" "is_live live pos hp" "(pos, hp) \<notin> set (h_removed s)"
      "decode_doc E (tview s pos) = Inr (DocFurrow key i c)" by (auto simp: scanned_def)
    show ?thesis by (rule live_owned_named [OF lo h f]) blast
  qed
  then have g: "grouped ?S (furrow_owners xs)" by (rule furrow_owners_grouped)
  have "distinct (map fst (ho (furrow_owners xs)))"
    using g mset_eq_imp_distinct_iff [of "map fst (ho (furrow_owners xs))" "map fst (furrow_owners xs)"] by (simp add: ho grouped_def)
  moreover have "\<exists>lba h ps. extent_of E s key (lba, h, ps) \<and> group_of ps g'" if "(key, g') \<in> set (ho (furrow_owners xs))" for key g'
  proof -
    have in_g: "g' \<noteq> []" "\<forall>x \<in> set g'. (key, x) \<in> ?S"
      using g that mset_eq_setD [OF ho [of "furrow_owners xs"]] by (auto simp: grouped_def)
    obtain x0 where "x0 \<in> set g'" using in_g(1) by (cases g') auto
    then obtain lba h ps where e: "extent_of E s key (lba, h, ps)" using in_g(2) by (cases x0) auto
    have "group_of ps g'" unfolding group_of_def
    proof (clarify)
      fix pos i assume "(pos, i) \<in> set g'"
      then obtain lba' h' ps' where "extent_of E s key (lba', h', ps')" "i < length ps'" "ps' ! i = pos" using in_g(2) by auto
      then show "i < length ps \<and> ps ! i = pos" using extent_of_unique [OF e] by blast
    qed
    then show ?thesis using e by blast
  qed
  ultimately show ?thesis by (auto simp: each_owned_def)
qed

lemma each_owned_reads:
  fixes s :: "'z hst_scheme"
  assumes "after_reads s s'" and "holds E s t" and "each_owned E os s"
  shows "each_owned E os s'"
proof -
  have "grows s s'" using grows_reads [OF assms(1)] assms(2) by (simp add: holds_def)
  then have "extent_of E s' k p" if "extent_of E s k p" for k p
    using holds_ext_grows [of s s' E "{(k, p)}" t] assms(2) that by (simp add: holds_ext_def)
  then show ?thesis using assms(3) by (fastforce simp: each_owned_def)
qed

section \<open>The window\<close>

lemma reap_window_map:
  fixes s :: "'z hst_scheme"
  assumes run: "hamt_reap_window E ho live w s = (r, s')" and i: "index_map E s m"
    and small: "\<forall>key v. m key = Some v \<longrightarrow> length v < U64" and own: "live_owned E live s" and ho: "\<And>os. mset (ho os) = mset os"
  shows "\<exists>s1. index_map E s1 m \<and> (s' = s1 \<or> r = Inr () \<and>
     s' = st_tract_update (t_reap_update (\<lambda>_. wadd (t_reap (st_tract s)) (min w (wsub (t_plow (st_tract s)) (t_reap (st_tract s)))))) s1)"
proof -
  let ?st = "t_reap (st_tract s)"
  let ?w = "min w (wsub (t_plow (st_tract s)) ?st)"
  let ?bs = "\<lambda>xs. survivors (\<lambda>d. case d of DocLone _ _ \<Rightarrow> True | _ \<Rightarrow> False) xs
      @ survivors (\<lambda>d. case d of DocDirect _ _ _ \<Rightarrow> True | DocExtent _ _ _ \<Rightarrow> True | _ \<Rightarrow> False) xs
      @ survivors (\<lambda>d. case d of DocNode _ \<Rightarrow> True | _ \<Rightarrow> False) xs"
  obtain t where t: "vsf_ok E" "holds E s t" "\<And>x. lookup_opt x 0 t = m x" using i by (auto simp: index_map_holds)
  have im: "index_map E z m" if "holds E z t" for z :: "'z hst_scheme" using t that by (auto simp: index_map_holds)
  have ok0: "store_ok s" using t(2) by (simp add: holds_def)
  show ?thesis
  proof (cases "?w = 0")
    case True
    then show ?thesis using run i by (auto simp: hamt_reap_window_def Let_def)
  next
    case False
    have "bindE (mapE (reap_scan E live (h_removed s)) [?st ..< wadd ?st ?w]) (\<lambda>xs.
        bindE (forE (ho (furrow_owners xs)) (move_owner E live)) (\<lambda>_.
        bindE (forE (?bs xs) (move_block E live)) (\<lambda>_. modE (st_tract_update (t_reap_update (\<lambda>_. wadd ?st ?w)))))) s = (r, s')"
      using run unfolding hamt_reap_window_def Let_def if_not_P [OF False] .
    then show ?thesis
    proof (cases rule: bindE_cases)
      case (err e)
      then show ?thesis using im holds_reads [OF _ t(2)] scan_spec [OF err(1) ok0] by blast
    next
      case sc: (ok xs s1)
      note sp = scan_spec [OF sc(1) ok0]
      have h1: "holds E s1 t" using holds_reads [OF _ t(2)] sp by blast
      have "each_owned E (ho (furrow_owners xs)) s" by (rule scanned_owned [OF t(2) own _ ho]) (use sp in blast)
      then have own1: "each_owned E (ho (furrow_owners xs)) s1" using each_owned_reads [OF _ t(2)] sp by blast
      have "\<forall>key v. lookup_opt key 0 t = Some v \<longrightarrow> length v < U64" using small t(3) by metis
      note mo = move_owners_map [OF _ h1 t(1) this own1]
      from sc(2) show ?thesis
      proof (cases rule: bindE_cases)
        case (err e)
        then show ?thesis using im mo by blast
      next
        case ow: (ok u s2)
        have i2: "index_map E s2 m" using im mo [OF ow(1)] by blast
        from ow(2) show ?thesis
        proof (cases rule: bindE_cases)
          case (err e)
          then show ?thesis using move_blocks_map [OF err(1) i2] by blast
        next
          case (ok v s3)
          then show ?thesis using move_blocks_map [OF ok(1) i2] by (auto simp: modE_def)
        qed
      qed
    qed
  qed
qed

end
