(* ===== verification/Sharded_Index.thy ===== *)
theory Sharded_Index
  imports Reap_Window Planted_Vault
begin

text \<open>
  A small index with one value kept in a furrow, just after an overwrite: the furrow of the old value
  is retired by the session but still live for the oracle, and lies in the window before the furrow of
  the new value. It is the concrete input for the reap of a window.
\<close>

definition sharded_furrow :: "u8 list \<Rightarrow> block" where
  "sharded_furrow v = doc_block ref_env SCHEMA_FURROW (furrow_fields (replicate 32 7) 0 v)"

definition sharded_extent :: block where
  "sharded_extent = doc_block ref_env SCHEMA_EXTENT (extent_fields (replicate 32 7) 3 [(1, 1)])"

definition sharded_dev :: filedev where
  "sharded_dev = \<lparr>fd_file = (replicate 16 ZERO_BLOCK)[4 := sharded_furrow [9], 5 := sharded_furrow [1, 2, 3], 6 := sharded_extent],
     fd_blocks = 16, fd_faults = []\<rparr>"

definition sharded :: hst where
  "sharded = \<lparr>st_mirror = alone sharded_dev, st_tract = \<lparr>t_base = 4, t_len = 12, t_plow = 3, t_reap = 0, t_fence_limit = None\<rparr>,
     h_root = Some (Committed (replicate 32 1) 2), h_arena = [], h_added = [], h_removed = [(0, replicate 32 1)], h_hits = 0\<rparr>"

definition sharded_live :: liveness where
  "sharded_live = \<lparr>is_live = (\<lambda>lba _. lba < 3), is_referenced = (\<lambda>lba. lba < 3)\<rparr>"

section \<open>The blocks\<close>

lemma ref_seal: "sealed_hp ref_env (doc_block ref_env schema fs) = Some (replicate 32 1)"
  using sealed_hp_doc_block [OF ref_env_ok, of schema fs] by (simp add: ref_env_def)

lemma ref_capacity: "furrow_capacity ref_env = 3930" "3 \<le> max_runs ref_env"
  by (simp_all add: furrow_capacity_def max_runs_def body_start_def ref_env_def ref_flatten_def BLOCK_def)

lemma sharded_furrow_doc:
  assumes "length v \<le> 3"
  shows "length (sharded_furrow v) = BLOCK" "decode_doc ref_env (sharded_furrow v) = Inr (DocFurrow (replicate 32 7) 0 v)"
    "sealed_hp ref_env (sharded_furrow v) = Some (replicate 32 1)"
proof -
  have k: "length (replicate 32 7 :: hash) = 32" "(0 :: nat) < U64" "length v \<le> furrow_capacity ref_env" using assms ref_capacity by simp_all
  show "length (sharded_furrow v) = BLOCK" unfolding sharded_furrow_def by (rule length_doc_block [OF ref_env_ok furrow_doc(2) [OF ref_env_ok k]])
  show "decode_doc ref_env (sharded_furrow v) = Inr (DocFurrow (replicate 32 7) 0 v)"
    unfolding sharded_furrow_def by (rule encode_furrow_ok(2) [OF ref_env_ok k])
  show "sealed_hp ref_env (sharded_furrow v) = Some (replicate 32 1)" unfolding sharded_furrow_def by (rule ref_seal)
qed

lemma extent_docs:
  assumes "p < 12"
  shows "length (doc_block ref_env SCHEMA_EXTENT (extent_fields (replicate 32 7) 3 [(p, 1)])) = BLOCK"
    "encode_extent ref_env (replicate 32 7) 3 [(p, 1)] = Inr (doc_block ref_env SCHEMA_EXTENT (extent_fields (replicate 32 7) 3 [(p, 1)]))"
    "doc_of ref_env (doc_block ref_env SCHEMA_EXTENT (extent_fields (replicate 32 7) 3 [(p, 1)])) (replicate 32 1) L = Inr (Some (DocExtent (replicate 32 7) 3 [(p, 1)]))"
    "expand_runs ref_env [(p, 1)] 3 12 = Inr [p]"
proof -
  let ?b = "doc_block ref_env SCHEMA_EXTENT (extent_fields (replicate 32 7) 3 [(p, 1)])"
  have k: "length (replicate 32 7 :: hash) = 32" "(3 :: nat) < U64" "length [(p, 1 :: nat)] \<le> max_runs ref_env"
    "\<forall>(s, c) \<in> set [(p, 1)]. s < U64 \<and> c < U64" using assms ref_capacity by simp_all
  show "length ?b = BLOCK" by (rule length_doc_block [OF ref_env_ok extent_doc(2) [OF ref_env_ok k]])
  show "encode_extent ref_env (replicate 32 7) 3 [(p, 1)] = Inr ?b" by (rule encode_extent_ok(1) [OF ref_env_ok k])
  show "doc_of ref_env ?b (replicate 32 1) L = Inr (Some (DocExtent (replicate 32 7) 3 [(p, 1)]))"
    using encode_extent_ok(2) [OF ref_env_ok k] doc_block_not_zero [OF ref_env_ok] ref_seal by (simp add: doc_of_def points_past_def)
  show "expand_runs ref_env [(p, 1)] 3 12 = Inr [p]"
    using expand_compress [of "[p]" 12 3 ref_env] assms by (simp add: compress_runs_def compress_step_def div_ceil_def ref_capacity)
qed

lemma sharded_simps [simp]:
  "st_mirror sharded = alone sharded_dev" "t_base (st_tract sharded) = 4" "t_len (st_tract sharded) = 12" "t_plow (st_tract sharded) = 3"
  "t_reap (st_tract sharded) = 0" "h_root sharded = Some (Committed (replicate 32 1) 2)" "h_arena sharded = []" "h_removed sharded = [(0, replicate 32 1)]"
  "t_fence_limit (st_tract sharded) = None" "h_hits sharded = 0"
  by (simp_all add: sharded_def)

lemma sharded_dev_ok: "wf_dev sharded_dev" "healthy sharded_dev" "fd_blocks sharded_dev = 16"
  using sharded_furrow_doc(1) [of "[9]"] sharded_furrow_doc(1) [of "[1, 2, 3]"] extent_docs(1) [of 1]
  by (auto simp: wf_dev_def sharded_dev_def healthy_def sharded_extent_def dest!: set_update_subset_insert [THEN subsetD])

lemma sharded_view: "tview sharded 0 = sharded_furrow [9]" "tview sharded (Suc 0) = sharded_furrow [1, 2, 3]" "tview sharded 2 = sharded_extent"
  "3 \<le> p \<Longrightarrow> p < 12 \<Longrightarrow> tview sharded p = ZERO_BLOCK"
  by (auto simp: tview_def view_alone dev_content_def sharded_dev_def nth_list_update)

lemma sharded_quiet: "quiet_store sharded"
proof -
  have "store_ok sharded" using alone_wf [OF sharded_dev_ok(1)] by (simp add: store_ok_def tract_wf_def)
  moreover have "quiet_mirror (alone sharded_dev)" using sharded_dev_ok(2) by (simp add: quiet_mirror_def)
  ultimately show ?thesis using sharded_dev_ok(3) by (simp add: quiet_store_def readable_def BLOCK_def)
qed

lemma sharded_doc: "doc_of ref_env (tview sharded 2) (replicate 32 1) 12 = Inr (Some (DocExtent (replicate 32 7) 3 [(1, 1)]))"
  using extent_docs(3) [of 1 12] by (simp add: sharded_view sharded_extent_def)

lemma sharded_index: "index_map ref_env sharded planted_map"
proof -
  have occ: "occ (st_tract sharded) = {0, 1, 2}" by (auto simp: occ_def)
  have "furrow_payload ref_env (replicate 32 7) 0 (tview sharded (Suc 0)) = Inr [1, 2, 3]"
    using sharded_furrow_doc(2,3) [of "[1, 2, 3]"] by (simp add: furrow_payload_def sharded_view)
  then have "furrows_are ref_env (tview sharded) (replicate 32 7) [Suc 0] [1, 2, 3]"
    unfolding furrows_are_def by (intro exI [of _ "[[1, 2, 3]]"]) simp
  then have "leaf_doc ref_env (tview sharded) 12 {0, 1, 2} (DocExtent (replicate 32 7) 3 [(1, 1)]) (replicate 32 7) [1, 2, 3]"
    using extent_docs(4) [of 1] by (simp add: leaf_doc_def)
  then have "repr ref_env (tview sharded) 12 {0, 1, 2} [] 0 (Committed (replicate 32 1) 2) (TLeaf (replicate 32 7) [1, 2, 3]) {}"
    by (intro repr_leaf [where V = "tview sharded" and lba = 2, OF _ sharded_doc]) simp_all
  then have "holds ref_env sharded (Some (TLeaf (replicate 32 7) [1, 2, 3]))" using quiet_ok [OF sharded_quiet] by (auto simp: holds_def occ)
  moreover have "planted_map = (\<lambda>x. lookup_opt x 0 (Some (TLeaf (replicate 32 7) [1, 2, 3])))" by (auto simp: fun_eq_iff)
  ultimately show ?thesis using ref_env_ok unfolding index_map_def by blast
qed

lemma sharded_owned: "live_owned ref_env sharded_live sharded"
  unfolding live_owned_def
proof (intro allI impI)
  fix pos hp key i c
  assume "pos < t_len (st_tract sharded)" and s: "sealed_hp ref_env (tview sharded pos) = Some hp" and l: "is_live sharded_live pos hp"
    and r: "(pos, hp) \<notin> set (h_removed sharded)" and d: "decode_doc ref_env (tview sharded pos) = Inr (DocFurrow key i c)"
  have "pos \<noteq> 0" using s r sharded_furrow_doc(3) [of "[9]"] sharded_view(1) by (cases "pos = 0") auto
  moreover have "pos \<noteq> 2" using d encode_extent_ok(2) [OF ref_env_ok, of "replicate 32 7" 3 "[(1, 1)]"] ref_capacity by (auto simp: sharded_view sharded_extent_def)
  ultimately have "pos = Suc 0" using l by (simp add: sharded_live_def)
  moreover have "extent_of ref_env sharded (replicate 32 7) (2, replicate 32 1, [1])"
    using extent_at.here [of ref_env "tview sharded" 2 "replicate 32 1" 12 "replicate 32 7" 3 "[(1, 1)]" "[1]" "[]" 0] sharded_doc extent_docs(4) [of 1]
    by (simp add: extent_of_def)
  ultimately show "\<exists>k lba h ps. extent_of ref_env sharded k (lba, h, ps) \<and> pos \<in> set ps" by force
qed

section \<open>The window\<close>

lemma tract_read_quiet:
  fixes s :: "'z store_scheme"
  assumes q: "quiet_store s" and p: "p < t_len (st_tract s)"
  shows "tract_read p s = (Inr (tview s p), s)"
proof -
  have wf: "wf_mirror (st_mirror s)" "tract_wf (st_tract s)" using quiet_ok [OF q] by (auto simp: store_ok_def)
  have "mirror_read (t_base (st_tract s) + p) (st_mirror s) = (Inr (view (st_mirror s) (t_base (st_tract s) + p)), st_mirror s)"
    using mirror_read_quiet [OF wf(1)] q p by (auto simp: quiet_store_def readable_def)
  then show ?thesis using p tract_addr [OF wf(2) p] by (simp add: tract_read_def with_mirror_def tview_def)
qed

text \<open>The current furrow moves to the plow and its extent after it.\<close>

lemma sharded_moved:
  obtains s' where "move_owner ref_env sharded_live (replicate 32 7, [(Suc 0, 0)]) sharded = (Inr (), s')"
    "st_tract s' = (st_tract sharded)\<lparr>t_plow := 5\<rparr>" "h_root s' = Some (Committed (replicate 32 1) 4)"
proof -
  let ?V = "tview sharded" and ?key = "replicate 32 7 :: hash" and ?h = "replicate 32 1 :: hash"
  have w: "whole sharded ?V 12 []" using sharded_quiet by (simp add: whole_def sees_def quiet_store_def)
  obtain s1 where s1: "whole s1 ?V 12 []" "read_doc ref_env 2 ?h sharded = (Inr (Some (DocExtent ?key 3 [(1, 1)])), s1)"
    by (rule read_doc_whole [OF w _ sharded_doc]) simp
  obtain s2 where s2: "whole s2 ?V 12 []" "read_doc ref_env 2 ?h s1 = (Inr (Some (DocExtent ?key 3 [(1, 1)])), s2)"
    by (rule read_doc_whole [OF s1(1) _ sharded_doc]) simp
  have "after_reads sharded s1" "after_reads s1 s2"
    using read_doc_spec [OF s1(2)] read_doc_spec [OF s2(2)] s1(1) quiet_ok [OF sharded_quiet] by (auto simp: whole_def quiet_store_def)
  then have "after_reads sharded s2" by (rule after_reads_trans)
  note f2 = after_reads_fields [OF this]
  have hits: "h_hits s2 = 0" using \<open>after_reads sharded s2\<close> by (auto simp: after_reads_def dest: arg_cong [where f = h_hits])
  have q2: "quiet_store s2" using s2(1) by (simp add: whole_def)
  have rd: "tract_read (Suc 0) s2 = (Inr (sharded_furrow [1, 2, 3]), s2)" using tract_read_quiet [OF q2, of "Suc 0"] f2 by (simp add: sharded_view)
  have al: "append_allowed sharded_live (st_tract s2) 1" using f2 by (simp add: append_allowed_def placed_at_def sharded_live_def)
  have len: "length (sharded_furrow [1, 2, 3]) = BLOCK" by (rule sharded_furrow_doc) simp
  obtain s3 where s3: "tract_append sharded_live [sharded_furrow [1, 2, 3]] s2 = (Inr [3], s3)" "store_ok s3"
    "st_tract s3 = (st_tract sharded)\<lparr>t_plow := 4\<rparr>" "h_root s3 = Some (Committed ?h 2)" "h_hits s3 = 0"
    by (rule append_one [OF quiet_ok [OF q2] al len]) (use f2 hits in simp)
  let ?b = "doc_block ref_env SCHEMA_EXTENT (extent_fields ?key 3 [(3, 1)])"
  note x = extent_docs [of 3, simplified]
  have al3: "append_allowed sharded_live (st_tract s3) 1" using s3(3) by (simp add: append_allowed_def placed_at_def sharded_live_def)
  obtain s4 where s4: "tract_append sharded_live [?b] s3 = (Inr [4], s4)" "store_ok s4"
    "st_tract s4 = (st_tract sharded)\<lparr>t_plow := 5\<rparr>" "h_root s4 = Some (Committed ?h 2)" "h_hits s4 = 0"
    by (rule append_one [OF s3(2) al3 x(1)]) (use s3 in simp)
  have rep: "replace_leaf ref_env ?key (?h, 2) (?h, 4) s4 = (Inr (), (h_hits_update Suc s4)\<lparr>h_root := Some (Committed ?h 4)\<rparr>)"
    using s4(4,5) by (simp add: replace_leaf_def repoint_root_def repoint.simps bindE_def getE_def modE_def retE_def)
  have hp: "hp_of ref_env ?b = Inr ?h" "hp_of ref_env (sharded_furrow [1, 2, 3]) = Inr ?h" using ref_seal sharded_furrow_doc(3) [of "[1, 2, 3]"] by (simp_all add: hp_of_def)
  have ex: "expand_runs ref_env [(Suc 0, Suc 0)] 3 12 = Inr [Suc 0]" using extent_docs(4) [of 1] by simp
  have me: "\<exists>s'. move_extent ref_env sharded_live ?key (2, ?h) 3 [(1, 1)] [(Suc 0, 0)] s2 = (Inr (), s')
      \<and> st_tract s' = st_tract s4 \<and> h_root s' = Some (Committed ?h 4)"
    using rd s3(1,3) x(2) s4(1) hp rep ex
    by (simp add: move_extent_def Let_def bindE_def liftE_def retE_def push_added_def push_removed_def modE_def compress_runs_def compress_step_def)
  have "find_leaf ref_env ?key sharded = (Inr (Some (2, ?h)), s1)" using s1(2) by (simp add: find_leaf_def bindE_def retE_def)
  then show thesis using that me s2(2) s4(3) by (auto simp: move_owner_def bindE_def)
qed

lemma sharded_reaped:
  obtains s' where "hamt_reap_window ref_env id sharded_live 2 sharded = (Inr (), s')" "t_reap (st_tract s') = 2" "h_root s' = Some (Committed (replicate 32 1) 4)"
proof -
  have rd: "tract_read p sharded = (Inr (tview sharded p), sharded)" if "p < 12" for p using tract_read_quiet [OF sharded_quiet] that by simp
  have sc0: "reap_scan ref_env sharded_live [(0, replicate 32 1)] 0 sharded = (Inr None, sharded)"
    using rd [of 0] sharded_furrow_doc(3) [of "[9]"] by (simp add: reap_scan_def Let_def bindE_def retE_def sharded_view)
  have sc1: "reap_scan ref_env sharded_live [(0, replicate 32 1)] (Suc 0) sharded
      = (Inr (Some (Suc 0, replicate 32 1, DocFurrow (replicate 32 7) 0 [1, 2, 3])), sharded)"
    using rd [of 1] sharded_furrow_doc(2,3) [of "[1, 2, 3]"]
    by (simp add: reap_scan_def Let_def bindE_def retE_def liftE_def sharded_view sharded_live_def)
  obtain s1 where s1: "move_owner ref_env sharded_live (replicate 32 7, [(Suc 0, 0)]) sharded = (Inr (), s1)"
    "st_tract s1 = (st_tract sharded)\<lparr>t_plow := 5\<rparr>" "h_root s1 = Some (Committed (replicate 32 1) 4)" by (rule sharded_moved)
  have "hamt_reap_window ref_env id sharded_live 2 sharded = (Inr (), st_tract_update (t_reap_update (\<lambda>_. 2)) s1)"
    using sc0 sc1 s1(1)
    by (simp add: hamt_reap_window_def Let_def bindE_def retE_def modE_def wsub_def wadd_def upt_rec furrow_owners_def survivors_def)
  then show thesis using that s1(3) by simp
qed

end
