(* ===== verification/Index_Claims.thy ===== *)
theory Index_Claims
  imports Hamt_Total Fresh_Vault Key_Walk Planted_Vault Sharded_Index
begin

text \<open>
  The claims about the index of \<open>hamt.rs\<close>, with their witnesses on a freshly created store and the
  reference codec.
\<close>

section \<open>A fresh index\<close>

definition fresh_index :: "nat \<Rightarrow> nat \<Rightarrow> nat \<Rightarrow> hst" where
  "fresh_index n base len = hamt_empty (fresh_mirror n) (fresh_tract base len)"

lemma fresh_index_simps [simp]:
  "st_mirror (fresh_index n b l) = fresh_mirror n" "st_tract (fresh_index n b l) = fresh_tract b l"
  "h_root (fresh_index n b l) = None" "h_arena (fresh_index n b l) = []"
  "h_added (fresh_index n b l) = []" "h_removed (fresh_index n b l) = []"
  by (simp_all add: fresh_index_def hamt_empty_def)

lemma fresh_index_ok: "0 < l \<Longrightarrow> b + l \<le> n \<Longrightarrow> n < 2 ^ 50 \<Longrightarrow> quiet_store (fresh_index n b l)"
  by (auto simp: quiet_store_def store_ok_def tract_wf_def readable_def fresh_tract_def BLOCK_def)

lemma fresh_index_map: "vsf_ok E \<Longrightarrow> 0 < l \<Longrightarrow> b + l \<le> n \<Longrightarrow> n < 2 ^ 50 \<Longrightarrow> index_map E (fresh_index n b l) Map.empty"
  using quiet_ok [OF fresh_index_ok, of l b n] by (auto simp: index_map_def holds_def)

text \<open>The first key into an empty index, a value that fits its leaf: nothing can refuse it.\<close>

lemma put_first:
  fixes s :: "'z hst_scheme"
  assumes E: "vsf_ok E" "length key = 32" "length v \<le> lone_capacity E" and q: "quiet_store s" and r: "h_root s = None"
    and c: "t_base (st_tract s) + t_len (st_tract s) \<le> rcount (st_mirror s)"
    and al: "append_allowed live (st_tract s) 1"
  shows "\<exists>s'. put E live key v s = (Inr (), s') \<and> quiet_store s' \<and> st_tract s' = (st_tract s)\<lparr>t_plow := t_plow (st_tract s) + 1\<rparr>"
proof -
  let ?b = "doc_block E SCHEMA_LONE (lone_fields key v)" and ?t = "st_tract s"
  have wf: "tract_wf ?t" "wf_mirror (st_mirror s)" using quiet_ok [OF q] by (auto simp: store_ok_def)
  have run: "append_with live 1 (\<lambda>i. Inr ([?b] ! i)) s = (Inr (placed_at ?t 1),
      s\<lparr>st_mirror := staged_upto ?t (\<lambda>i. ?b) 1 (reserve_staged 1 (st_mirror s)), st_tract := ?t\<lparr>t_plow := t_plow ?t + 1\<rparr>\<rparr>)"
    by (rule append_allowed_run [OF wf(1) al]) simp
  have hp: "\<exists>h. hp_of E ?b = Inr h" using sealed_hp_doc_block [OF E(1)] by (simp add: hp_of_def)
  obtain s' where s': "put E live key v s = (Inr (), s')" "st_tract s' = ?t\<lparr>t_plow := t_plow ?t + 1\<rparr>"
    "st_mirror s' = staged_upto ?t (\<lambda>i. ?b) 1 (reserve_staged 1 (st_mirror s))"
    using run hp r encode_lone_ok(1) [OF E] E(3)
    by (auto simp: put_def put_inner_def put_value_def append_leaf_def tract_append_def bindE_def liftE_def getE_def modE_def retE_def push_added_def insert_child.simps(1))
  have len: "length ?b = BLOCK" by (rule length_doc_block [OF E(1) lone_doc(2) [OF E]])
  have wf1: "wf_mirror (reserve_staged 1 (st_mirror s))" using wf(2) by simp
  note up = staged_upto_spec [OF wf1, of 1 "\<lambda>i. ?b" ?t, OF len, simplified]
  have w: "wf_mirror (st_mirror s')" "rcount (st_mirror s') = rcount (st_mirror s)" "quiet_mirror (st_mirror s')"
    using up q wf(1) unfolding s'(3) by (auto simp: quiet_store_def readable_def tract_wf_def)
  have "tract_wf (st_tract s')" using wf(1) al by (auto simp: s'(2) tract_wf_def append_allowed_def)
  then have "quiet_store s'" using w q c by (auto simp: quiet_store_def store_ok_def readable_def s'(2))
  then show ?thesis using s' by blast
qed

lemma fresh_put:
  assumes "length key = 32" and "length v \<le> 3930"
  shows "\<exists>s'. put ref_env NoLive key v (fresh_index 16 4 8) = (Inr (), s') \<and> quiet_store s' \<and> index_map ref_env s' [key \<mapsto> v]"
proof -
  have cap: "lone_capacity ref_env = 3930" by (simp add: lone_capacity_def body_start_def ref_env_def ref_flatten_def BLOCK_def)
  have "append_allowed NoLive (fresh_tract 4 8) 1" by (simp add: append_allowed_def NoLive_def)
  then obtain s' where s': "put ref_env NoLive key v (fresh_index 16 4 8) = (Inr (), s')" "quiet_store s'"
    using put_first [OF ref_env_ok assms(1), of v "fresh_index 16 4 8" NoLive] assms(2) fresh_index_ok [of 8 4 16] by (auto simp: cap)
  have "index_map ref_env s' [key \<mapsto> v]"
    using index_put [OF fresh_index_map [OF ref_env_ok] assms(1) _ s'(1)] assms(2) by simp
  with s' show ?thesis by blast
qed

section \<open>Reads\<close>

text \<open>C7. A lookup refines the map the index stands for: it changes nothing, and an answer it gives is
  the map's; on a store without pending faults it does give one.\<close>

theorem lookup_refines:
  fixes s :: "'z hst_scheme"
  assumes "index_map E s m"
  shows "(\<forall>r s'. lookup E key s = (r, s') \<longrightarrow> index_map E s' m \<and> (\<forall>x. r = Inr x \<longrightarrow> x = m key))
    \<and> (quiet_store s \<longrightarrow> (\<exists>s'. lookup E key s = (Inr (m key), s') \<and> quiet_store s'))"
  using index_get [OF assms] lookup_returns [OF assms] by blast

theorem lookup_refines_witness:
  "\<exists>s1 s2. put ref_env NoLive (replicate 32 7) [1, 2, 3] (fresh_index 16 4 8) = (Inr (), s1)
     \<and> lookup ref_env (replicate 32 7) s1 = (Inr (Some [1, 2, 3]), s2)"
proof -
  obtain s1 where s1: "put ref_env NoLive (replicate 32 7) [1, 2, 3] (fresh_index 16 4 8) = (Inr (), s1)" "quiet_store s1"
    "index_map ref_env s1 [replicate 32 7 \<mapsto> [1, 2, 3]]" using fresh_put [of "replicate 32 7" "[1, 2, 3]"] by auto
  then obtain s2 where "lookup ref_env (replicate 32 7) s1 = (Inr (Some [1, 2, 3]), s2)"
    using lookup_refines [OF s1(3), of "replicate 32 7"] by auto
  with s1(1) show ?thesis by blast
qed

section \<open>Writes\<close>

text \<open>C5. A put that succeeds updates the map at its key and nowhere else, whether the value fits the
  leaf or is spread over furrows; one that fails leaves the map and the liveness delta as they were.\<close>

theorem put_updates:
  fixes s :: "'z hst_scheme"
  assumes "index_map E s m" and "length key = 32" and "length v < U64" and "put E live key v s = (r, s')"
  shows "case r of Inr u \<Rightarrow> index_map E s' (m(key \<mapsto> v))
    | Inl e \<Rightarrow> index_map E s' m \<and> h_added s' = h_added s \<and> h_removed s' = h_removed s"
proof (cases r)
  case (Inl e)
  obtain t where t: "vsf_ok E" "holds E s t" using assms(1) by (auto simp: index_map_def)
  have "h_added s' = h_added s \<and> h_removed s' = h_removed s" using put_spec [OF assms(4) t(2,1) assms(2,3)] Inl by blast
  then show ?thesis using index_put [OF assms] Inl by simp
next
  case (Inr u)
  then show ?thesis using index_put [OF assms] by simp
qed

theorem put_updates_witness:
  "\<exists>s1. put ref_env NoLive (replicate 32 7) [1, 2, 3] (fresh_index 16 4 8) = (Inr (), s1)
     \<and> index_map ref_env s1 [replicate 32 7 \<mapsto> [1, 2, 3]]"
proof -
  obtain s1 where "put ref_env NoLive (replicate 32 7) [1, 2, 3] (fresh_index 16 4 8) = (Inr (), s1)"
    using fresh_put [of "replicate 32 7" "[1, 2, 3]"] by auto
  then show ?thesis using put_updates [OF fresh_index_map [OF ref_env_ok], of 8 4 16 "replicate 32 7" "[1, 2, 3]" NoLive] by auto
qed

text \<open>C6. An unlinking delete (the policy \<open>UnlinkOnly\<close>, which keeps the blocks) removes its key from the map
  and nothing else, and reports whether the key was there; a failing one leaves the map alone.\<close>

theorem delete_removes:
  fixes s :: "'z hst_scheme"
  assumes "index_map E s m" and "hamt_delete E key UnlinkOnly s = (r, s')"
  shows "case r of Inr existed \<Rightarrow> index_map E s' (m(key := None)) \<and> (existed \<longleftrightarrow> m key \<noteq> None) | Inl e \<Rightarrow> index_map E s' m"
  using index_delete [OF assms] by (simp split: sum.splits)

text \<open>A key that is there, and one that is not.\<close>

theorem delete_removes_witness:
  "(\<exists>s'. index_map ref_env planted planted_map \<and> hamt_delete ref_env (replicate 32 7) UnlinkOnly planted = (Inr True, s') \<and> index_map ref_env s' Map.empty)
   \<and> (\<exists>s'. hamt_delete ref_env (replicate 32 9) UnlinkOnly (fresh_index 16 4 8) = (Inr False, s') \<and> index_map ref_env s' Map.empty)"
proof
  have i: "index_map ref_env planted planted_map" by (rule planted_index) simp_all
  obtain s' where run: "hamt_delete ref_env (replicate 32 7) UnlinkOnly planted = (Inr True, s')" by (rule planted_delete)
  have "planted_map(replicate 32 7 := None) = Map.empty" by simp
  then have "index_map ref_env s' Map.empty" using delete_removes [OF i run] by simp
  then show "\<exists>s'. index_map ref_env planted planted_map \<and> hamt_delete ref_env (replicate 32 7) UnlinkOnly planted = (Inr True, s') \<and> index_map ref_env s' Map.empty"
    using i run by blast
  have run: "hamt_delete ref_env (replicate 32 9) UnlinkOnly (fresh_index 16 4 8) = (Inr False, fresh_index 16 4 8)"
    by (simp add: hamt_delete_def find_leaf_def bindE_def retE_def)
  show "\<exists>s'. hamt_delete ref_env (replicate 32 9) UnlinkOnly (fresh_index 16 4 8) = (Inr False, s') \<and> index_map ref_env s' Map.empty"
    using delete_removes [OF fresh_index_map [OF ref_env_ok] run] run by simp
qed

section \<open>Sessions\<close>

text \<open>C4. A session of gets, puts and deletes on the index answers as the same session on the map
  would, up to requests that fail, and the index stands for the map the carried-out requests give.\<close>

theorem index_session:
  fixes s :: "'z hst_scheme"
  assumes "index_map E s m" and "\<forall>q \<in> set qs. request_ok (\<lambda>k. length k = 32) (\<lambda>v. length v < U64) q"
    and "serve_all (lookup E) (put E live) (\<lambda>k. hamt_delete E k UnlinkOnly) qs s = (as, s')"
  shows "all_allowed qs m as \<and> index_map E s' (map_session qs as m)"
  by (rule index.session [OF assms])

theorem index_session_witness:
  "\<exists>s'. serve_all (lookup ref_env) (put ref_env NoLive) (\<lambda>k. hamt_delete ref_env k UnlinkOnly)
      [Put (replicate 32 7) [1, 2], Get (replicate 32 7)] (fresh_index 16 4 8) = ([Stored, Got (Some [1, 2])], s')
    \<and> index_map ref_env s' [replicate 32 7 \<mapsto> [1, 2]]"
proof -
  let ?qs = "[Put (replicate 32 7) [1, 2], Get (replicate 32 7)] :: (hash, u8 list) request list"
  obtain s1 where s1: "put ref_env NoLive (replicate 32 7) [1, 2] (fresh_index 16 4 8) = (Inr (), s1)" "quiet_store s1"
    "index_map ref_env s1 [replicate 32 7 \<mapsto> [1, 2]]" using fresh_put [of "replicate 32 7" "[1, 2]"] by auto
  then obtain s2 where s2: "lookup ref_env (replicate 32 7) s1 = (Inr (Some [1, 2]), s2)" using lookup_returns [OF s1(3,2), of "replicate 32 7"] by auto
  have run: "serve_all (lookup ref_env) (put ref_env NoLive) (\<lambda>k. hamt_delete ref_env k UnlinkOnly) ?qs (fresh_index 16 4 8) = ([Stored, Got (Some [1, 2])], s2)"
    using s1(1) s2 by (simp add: serve_def reply_of_def)
  have "\<forall>q \<in> set ?qs. request_ok (\<lambda>k. length k = 32) (\<lambda>v. length v < U64) q" by (auto simp: request_ok_def)
  then have "index_map ref_env s2 [replicate 32 7 \<mapsto> [1, 2]]" using index_session [OF fresh_index_map [OF ref_env_ok] _ run] by simp
  with run show ?thesis by blast
qed

section \<open>Flush\<close>

text \<open>C9. A flush keeps the map. One that succeeds leaves the whole index on the medium: reopened from
  the root it returns, with nothing in memory, the index stands for the same map. One that fails
  part-way keeps the map as well, so that the commit can be retried.\<close>

theorem flush_persists:
  fixes s :: hst
  assumes "index_map E s m" and "hamt_flush E live s = (r, s')"
  shows "index_map E s' m \<and> h_removed s' = h_removed s
    \<and> (\<forall>hash lba. r = Inr (hash, lba) \<longrightarrow> hash \<noteq> replicate 32 0 \<or> m = Map.empty \<longrightarrow>
        index_map E (from_root (st_mirror s') (st_tract s') hash lba) m)"
  using index_flush(1,2) [OF assms] by blast

theorem flush_persists_witness:
  "\<exists>s1 r s2. put ref_env NoLive (replicate 32 7) [1, 2, 3] (fresh_index 16 4 8) = (Inr (), s1)
     \<and> hamt_flush ref_env NoLive s1 = (r, s2) \<and> index_map ref_env s2 [replicate 32 7 \<mapsto> [1, 2, 3]]"
proof -
  obtain s1 where s1: "put ref_env NoLive (replicate 32 7) [1, 2, 3] (fresh_index 16 4 8) = (Inr (), s1)"
    "index_map ref_env s1 [replicate 32 7 \<mapsto> [1, 2, 3]]" using fresh_put [of "replicate 32 7" "[1, 2, 3]"] by auto
  obtain r s2 where "hamt_flush ref_env NoLive s1 = (r, s2)" by (rule prod.exhaust)
  then show ?thesis using s1 flush_persists [OF s1(2), of NoLive] by blast
qed



section \<open>Enumeration\<close>

text \<open>C28. The key walk of a committed index changes nothing a client sees, and when it succeeds it has
  collected every key of the map, so a migration that copies what it lists loses no entry. Its depth
  is bounded by the key: any fuel above the bound gives the same result.\<close>

theorem walk_keys_complete:
  fixes s :: walk
  assumes "index_map E s m" and "\<forall>i. h_root s \<noteq> Some (Dirty i)" and "walk_keys E s = (r, s')"
  shows "index_map E s' m \<and> (r = Inr () \<longrightarrow> (\<exists>ks. w_keys s' = w_keys s @ ks \<and> dom m \<subseteq> set ks))
    \<and> (\<forall>hash lba n. h_root s = Some (Committed hash lba) \<longrightarrow> MAX_DEPTH < n \<longrightarrow> walk_keys_child n E lba hash 0 s = (r, s'))"
proof (intro conjI)
  obtain t where t: "vsf_ok E" "holds E s t" "m = (\<lambda>x. lookup_opt x 0 t)" using assms(1) by (auto simp: index_map_def)
  note sp = walk_keys_spec [OF assms(3) t(2)]
  show "index_map E s' m" using sp assms(2) t by (auto simp: index_map_def)
  have "dom m \<subseteq> set (case t of None \<Rightarrow> [] | Some u \<Rightarrow> tree_keys u)"
  proof (cases t)
    case (Some u)
    then have "full u" using t(2) repr_full by (auto simp: holds_def split: option.splits)
    then show ?thesis using tree_lookup_keys [of u _ 0] Some t(3) by auto
  qed (simp add: t(3))
  then show "r = Inr () \<longrightarrow> (\<exists>ks. w_keys s' = w_keys s @ ks \<and> dom m \<subseteq> set ks)" using sp assms(2) by blast
  show "\<forall>hash lba n. h_root s = Some (Committed hash lba) \<longrightarrow> MAX_DEPTH < n \<longrightarrow> walk_keys_child n E lba hash 0 s = (r, s')"
  proof (intro allI impI)
    fix hash lba n assume root: "h_root s = Some (Committed hash lba)" and n: "MAX_DEPTH < n"
    have "walk_keys_child n E lba hash 0 s = walk_keys_child WALK_FUEL E lba hash 0 s"
      using n by (intro walk_keys_fuel) (auto simp: WALK_FUEL_def)
    then show "walk_keys_child n E lba hash 0 s = (r, s')" using assms(3) root by (simp add: walk_keys_def)
  qed
qed

lemma index_map_walk: "index_map E (walk_begin todo s) m = index_map E s m"
proof -
  have f: "tview (walk_begin todo s) = tview s" "store_ok (walk_begin todo s) = store_ok s" "st_tract (walk_begin todo s) = st_tract s"
    "h_root (walk_begin todo s) = h_root s" "h_arena (walk_begin todo s) = h_arena s"
    by (simp_all add: walk_begin_def tview_def fun_eq_iff store_ok_def)
  have "holds E (walk_begin todo s) t = holds E s t" for t unfolding holds_def f by (rule refl)
  then show ?thesis by (simp add: index_map_def)
qed

lemma put_root:
  fixes s :: "'z hst_scheme"
  assumes "put E live key v s = (Inr (), s')" and "store_ok s" "vsf_ok E" "length key = 32" "length v < U64" "h_root s = None"
  shows "\<exists>hash lba. h_root s' = Some (Committed hash lba)"
proof -
  have "put_inner E live key v s = (Inr (), s')" using assms(1) by (auto simp: put_def split: prod.splits sum.splits)
  then show ?thesis unfolding put_inner_def
  proof (cases rule: bindE_cases)
    case (ok x s1)
    obtain lba hash where x: "x = (lba, hash)" by (cases x)
    have "h_root s1 = None" using put_value_spec [OF ok(1) assms(2-5)] assms(6) by (simp add: put_ok_def grows_def)
    then show ?thesis using ok(2) x by (auto simp: bindE_def getE_def modE_def retE_def insert_child.simps(1))
  qed simp
qed

theorem walk_keys_complete_witness:
  "\<exists>s1 r s2. put ref_env NoLive (replicate 32 7) [1, 2, 3] (fresh_index 16 4 8) = (Inr (), s1)
     \<and> walk_keys ref_env (walk_begin [] s1) = (r, s2) \<and> index_map ref_env s2 [replicate 32 7 \<mapsto> [1, 2, 3]]
     \<and> (r = Inr () \<longrightarrow> replicate 32 7 \<in> set (w_keys s2))"
proof -
  let ?m = "[replicate 32 7 \<mapsto> [1, 2, 3 :: u8]] :: hash \<rightharpoonup> u8 list"
  obtain s1 where s1: "put ref_env NoLive (replicate 32 7) [1, 2, 3] (fresh_index 16 4 8) = (Inr (), s1)" "index_map ref_env s1 ?m"
    using fresh_put [of "replicate 32 7" "[1, 2, 3]"] by auto
  have i: "index_map ref_env (walk_begin [] s1) ?m" using s1(2) by (simp add: index_map_walk)
  have "\<exists>hash lba. h_root s1 = Some (Committed hash lba)"
    using put_root [OF s1(1) quiet_ok [OF fresh_index_ok] ref_env_ok] by simp
  then have c: "\<forall>i. h_root (walk_begin [] s1) \<noteq> Some (Dirty i)" by (auto simp: walk_begin_def)
  obtain r s2 where run: "walk_keys ref_env (walk_begin [] s1) = (r, s2)" by (cases "walk_keys ref_env (walk_begin [] s1)")
  note wk = walk_keys_complete [OF i c run]
  have "replicate 32 7 \<in> set (w_keys s2)" if "r = Inr ()"
  proof -
    obtain ks where "w_keys s2 = w_keys (walk_begin [] s1) @ ks" "dom ?m \<subseteq> set ks" using wk \<open>r = Inr ()\<close> by blast
    then show ?thesis by auto
  qed
  then show ?thesis using s1(1) run wk by blast
qed

section \<open>Relocation\<close>

text \<open>C8. Relocation keeps the map. Moving any blocks to the plow, in any order and whatever the
  liveness oracle says, leaves every key with its value, and so does a move that fails on the way: a
  moved block is repointed to a copy of itself or not at all. A key whose leaf is not an extent (a
  sharded leaf of the legacy format is rewritten) keeps its value whatever furrows are grouped under
  it. A whole reap window keeps the map up to the step of the reap cursor that ends it, and one that
  fails has not moved the cursor, in whatever order the groups of furrows are taken, given that a
  furrow the oracle calls live and the session has not retired is named by an extent of the index: a
  furrow that the session has retired may be live for the oracle and may carry the key and the index
  of a current one.\<close>

theorem relocation_keeps:
  fixes s :: "'z hst_scheme"
  assumes "index_map E s m" and "\<forall>key v. m key = Some v \<longrightarrow> length v < U64"
  shows "(\<forall>blocks r s'. forE blocks (move_block E live) s = (r, s') \<longrightarrow> index_map E s' m)
    \<and> (\<forall>key g r s'. (\<forall>lba h sz runs. fst (find_leaf E key s) = Inr (Some (lba, h)) \<longrightarrow>
           doc_of E (tview s lba) h (t_len (st_tract s)) \<noteq> Inr (Some (DocExtent key sz runs))) \<longrightarrow>
         move_owner E live (key, g) s = (r, s') \<longrightarrow> index_map E s' m)
    \<and> (live_owned E live s \<longrightarrow> (\<forall>ho w r s'. (\<forall>os. mset (ho os) = mset os) \<longrightarrow> hamt_reap_window E ho live w s = (r, s') \<longrightarrow>
         (\<exists>s1. index_map E s1 m \<and> (s' = s1 \<or> r = Inr () \<and> s' = st_tract_update (t_reap_update
            (\<lambda>_. wadd (t_reap (st_tract s)) (min w (wsub (t_plow (st_tract s)) (t_reap (st_tract s)))))) s1))))"
proof (intro conjI allI impI)
  fix key g r s'
  assume "\<forall>lba h sz runs. fst (find_leaf E key s) = Inr (Some (lba, h)) \<longrightarrow>
    doc_of E (tview s lba) h (t_len (st_tract s)) \<noteq> Inr (Some (DocExtent key sz runs))"
    and run: "move_owner E live (key, g) s = (r, s')"
  then have "owned E s (fst (key, g)) (snd (key, g))" by (simp add: owned_def)
  then show "index_map E s' m" by (rule move_owner_map [OF run assms])
qed (use move_blocks_map [OF _ assms(1)] reap_window_map [OF _ assms] in blast)+

theorem relocation_keeps_witness:
  "\<exists>s' s1. hamt_reap_window ref_env id sharded_live 2 sharded = (Inr (), s') \<and> h_root s' \<noteq> h_root sharded \<and> index_map ref_env s1 planted_map
     \<and> (s' = s1 \<or> s' = st_tract_update (t_reap_update (\<lambda>_. 2)) s1)"
proof -
  obtain s' where s': "hamt_reap_window ref_env id sharded_live 2 sharded = (Inr (), s')" "t_reap (st_tract s') = 2"
    "h_root s' = Some (Committed (replicate 32 1) 4)" by (rule sharded_reaped)
  have small: "\<forall>key v. planted_map key = Some v \<longrightarrow> length v < U64" by (auto split: if_splits)
  have mv: "wadd (t_reap (st_tract sharded)) (min 2 (wsub (t_plow (st_tract sharded)) (t_reap (st_tract sharded)))) = 2" by (simp add: wadd_def wsub_def)
  note win = relocation_keeps [OF sharded_index small, of sharded_live, THEN conjunct2, THEN conjunct2, rule_format, OF sharded_owned, where ho = id and w = 2, unfolded mv]
  obtain s1 where s1: "index_map ref_env s1 planted_map" "s' = s1 \<or> s' = st_tract_update (t_reap_update (\<lambda>_. 2)) s1"
    using win [OF _ s'(1)] by auto
  have "h_root s' \<noteq> h_root sharded" using s'(3) by simp
  then show ?thesis using s'(1) s1 by blast
qed

end
