(* ===== verification/Open_Props.thy ===== *)
theory Open_Props
  imports Genesis_Props
begin

text \<open>
  The open ladder's last rung: a device on which nothing bootstraps is formatted only when no block
  on either device is sealed. The scan reads every block, and an unreadable one is an error, not an
  empty device.
\<close>

definition sealed_somewhere :: "vsf_env \<Rightarrow> mirror \<Rightarrow> bool" where
  "sealed_somewhere E m \<longleftrightarrow> (\<exists>d l. (m_a m = Some d \<or> m_b m = Some d) \<and> l < fd_blocks d \<and> block_is_sealed E (fd_file d ! l))"

lemma sealed_bytes:
  assumes "bytes m' = bytes m" and "sealed_somewhere E m"
  shows "sealed_somewhere E m'"
proof -
  obtain d l where d: "m_a m = Some d \<or> m_b m = Some d" "l < fd_blocks d" "block_is_sealed E (fd_file d ! l)"
    using assms(2) by (auto simp: sealed_somewhere_def)
  have "(\<exists>d'. m_a m' = Some d' \<and> fd_file d' = fd_file d \<and> fd_blocks d' = fd_blocks d) \<or> (\<exists>d'. m_b m' = Some d' \<and> fd_file d' = fd_file d \<and> fd_blocks d' = fd_blocks d)"
    using assms(1) d(1) by (auto simp: bytes_def)
  then show ?thesis using d(2,3) unfolding sealed_somewhere_def by metis
qed

section \<open>The scan\<close>

lemma dev_read_content: "dev_read l d = (Inr b, d') \<Longrightarrow> b = fd_file d ! l"
  by (auto simp: dev_read_def dev_bounds_def bindE_def split: if_splits dest: read_block_at_ok)

lemma scan_sealed_spec:
  "scan_sealed E ls d = (r, d') \<Longrightarrow> fd_file d' = fd_file d \<and> fd_blocks d' = fd_blocks d
     \<and> (\<forall>b. r = Inr b \<longrightarrow> b \<longleftrightarrow> (\<exists>l \<in> set ls. block_is_sealed E (fd_file d ! l)))"
proof (induction ls arbitrary: d)
  case Nil
  then show ?case by (auto simp: retE_def)
next
  case (Cons l ls)
  from Cons.prems have "bindE (dev_read l) (\<lambda>buf. if block_is_sealed E buf then retE True else scan_sealed E ls) d = (r, d')" by simp
  then show ?case
  proof (cases rule: bindE_cases)
    case (err e)
    then show ?thesis using dev_read_inv [OF err(1)] by simp
  next
    case (ok b d1)
    have b: "b = fd_file d ! l" by (rule dev_read_content [OF ok(1)])
    have d1: "fd_file d1 = fd_file d" "fd_blocks d1 = fd_blocks d" using dev_read_inv [OF ok(1)] by auto
    show ?thesis
    proof (cases "block_is_sealed E b")
      case True
      then show ?thesis using ok(2) b d1 by (auto simp: retE_def)
    next
      case False
      then show ?thesis using Cons.IH [of d1] ok(2) b d1 by auto
    qed
  qed
qed

definition sealed_dev :: "vsf_env \<Rightarrow> filedev option \<Rightarrow> bool" where
  "sealed_dev E od \<longleftrightarrow> (\<exists>d l. od = Some d \<and> l < fd_blocks d \<and> block_is_sealed E (fd_file d ! l))"

lemma sealed_devs: "sealed_somewhere E m \<longleftrightarrow> sealed_dev E (m_a m) \<or> sealed_dev E (m_b m)"
  by (auto simp: sealed_somewhere_def sealed_dev_def)

lemma any_sealed_block_spec:
  assumes "any_sealed_block E d = (q, d')"
  shows "fd_file d' = fd_file d \<and> fd_blocks d' = fd_blocks d \<and> (\<forall>b. q = Inr b \<longrightarrow> b = sealed_dev E (Some d))"
  using scan_sealed_spec [OF assms [unfolded any_sealed_block_def]] by (simp add: sealed_dev_def Bex_def)

lemma scan_device:
  "(if m_a m \<noteq> None then on_a (any_sealed_block E) m else (Inr False, m)) = (q, m1) \<Longrightarrow>
     bytes m1 = bytes m \<and> m_b m1 = m_b m \<and> (\<forall>b. q = Inr b \<longrightarrow> b = sealed_dev E (m_a m))"
  "(if m_b m \<noteq> None then on_b (any_sealed_block E) m else (Inr False, m)) = (q, m1) \<Longrightarrow>
     bytes m1 = bytes m \<and> (\<forall>b. q = Inr b \<longrightarrow> b = sealed_dev E (m_b m))"
  using any_sealed_block_spec [of E]
  by (cases "m_a m"; cases "m_b m"; force simp: on_a_def on_b_def bytes_def sealed_dev_def split: prod.splits)+

lemma any_sealed_spec:
  assumes "any_sealed E m = (r, m')"
  shows "bytes m' = bytes m \<and> (\<forall>b. r = Inr b \<longrightarrow> b = sealed_somewhere E m)"
proof -
  let ?m = "mirror_devices m"
  have m: "m_a ?m = m_a m" "m_b ?m = m_b m" "bytes ?m = bytes m" by (simp_all add: mirror_devices_def bytes_def)
  have "bindE (\<lambda>m. if m_a m \<noteq> None then on_a (any_sealed_block E) m else (Inr False, m)) (\<lambda>fa.
      bindE (\<lambda>m. if m_b m \<noteq> None then on_b (any_sealed_block E) m else (Inr False, m)) (\<lambda>fb. retE (fa \<or> fb))) ?m = (r, m')"
    using assms by (simp add: any_sealed_def)
  then show ?thesis
  proof (cases rule: bindE_cases)
    case (err e)
    then show ?thesis using scan_device(1) [OF err(1)] m by simp
  next
    case (ok fa m1)
    note fa = scan_device(1) [OF ok(1)]
    from ok(2) show ?thesis
    proof (cases rule: bindE_cases)
      case (err e)
      then show ?thesis using scan_device(2) [OF err(1)] fa m by simp
    next
      case (ok fb m2)
      then show ?thesis using scan_device(2) [OF ok(1)] fa m by (auto simp: retE_def sealed_devs)
    qed
  qed
qed

section \<open>The rungs before it only read\<close>

lemma read_root_slots_file: "read_root_slots E slots best d = (r, d') \<Longrightarrow> fd_file d' = fd_file d \<and> fd_blocks d' = fd_blocks d"
proof (induction slots arbitrary: best d)
  case Nil
  then show ?case by (auto simp: retE_def)
next
  case (Cons slot slots)
  from Cons.prems show ?case unfolding read_root_slots.simps
  proof (cases rule: bindE_cases)
    case (err e)
    then show ?thesis using dev_read_inv [OF err(1)] by simp
  next
    case (ok b d1)
    then show ?thesis using Cons.IH [OF ok(2)] dev_read_inv [OF ok(1)] by simp
  qed
qed

lemma open_root_bytes:
  assumes "open_root E m = (r, m')"
  shows "bytes m' = bytes m"
proof -
  have "bytes (mirror_devices m) = bytes m" by (simp add: mirror_devices_def bytes_def)
  moreover have "bytes m' = bytes (mirror_devices m)" using assms
    by (auto simp: open_root_def on_raw_def read_root_def on_first_def on_a_def on_b_def bytes_def split: if_splits option.splits prod.splits
        dest!: read_root_slots_file)
  ultimately show ?thesis by simp
qed

lemma probe_slots_bytes: "probe_slots E slots m = (r, m') \<Longrightarrow> bytes m' = bytes m"
proof (induction slots arbitrary: m)
  case Nil
  then show ?case by (auto simp: retE_def)
next
  case (Cons slot slots)
  from Cons.prems show ?case unfolding probe_slots.simps
  proof (cases rule: bindE_cases)
    case (err e)
    then show ?thesis using mirror_read_rests [OF err(1)] by (simp add: rests_def)
  next
    case (ok b m1)
    then show ?thesis using Cons.IH [of m1] mirror_read_rests [OF ok(1)]
      by (auto simp: rests_def retE_def split: Classified.splits)
  qed
qed

lemma open_with_refuses:
  assumes s: "sealed_somewhere E m" and a: "open_root E m = (Inr None, m1)" and b: "bootstrap_n E m1 = (Inr None, m2)"
  shows "\<exists>e m'. open_with E ho m rl now policy lazy = (Inl e, m') \<and> bytes m' = bytes m"
proof -
  have b2: "bytes m2 = bytes m" using open_root_bytes [OF a] probe_slots_bytes b unfolding bootstrap_n_def by metis
  obtain r m3 where r: "any_sealed E m2 = (r, m3)" by (rule prod.exhaust)
  note sp = any_sealed_spec [OF r]
  show ?thesis
  proof (cases r)
    case (Inl e)
    then show ?thesis using sp b2 r by (simp add: open_with_def bindM_def a b)
  next
    case (Inr x)
    then have "x" using sp sealed_bytes [OF b2 s] by simp
    then show ?thesis using sp b2 r Inr by (simp add: open_with_def bindM_def a b)
  qed
qed

lemma bootstrap_none:
  assumes wf: "wf_mirror m" and b: "\<forall>k < min (2 ^ 4) (rcount m). \<forall>e. classify E (rcontent m k) k None \<noteq> Valid e"
  shows "bootstrap_n E (rebooted m) = (Inr None, rebooted m)"
proof -
  have probe: "probe_slots E slots (rebooted m) = (Inr None, rebooted m)"
    if "\<forall>k \<in> set slots. k < rcount m \<and> (\<forall>e. classify E (rcontent m k) k None \<noteq> Valid e)" for slots
    using that
  proof (induction slots)
    case (Cons k slots)
    have rd: "mirror_read k (rebooted m) = (Inr (rcontent m k), rebooted m)" by (rule mirror_read_rebooted(2) [OF wf]) (use Cons.prems in simp)
    show ?case using Cons by (cases "classify E (rcontent m k) k None") (auto simp: bindE_def rd)
  qed (simp add: retE_def)
  show ?thesis unfolding bootstrap_n_def
    by (rule probe) (use b block_count_le [of m] in \<open>auto dest: less_le_trans\<close>)
qed

end
