(* ===== verification/Growth_Props.thy ===== *)
theory Growth_Props
  imports Vault_Props
begin

text \<open>
  Growth keeps the map: growing the devices leaves every block they had, a longer tract accepts every
  pointer the shorter one did, and the realigned cursors span exactly the old blocks, so that the
  clean space is exactly the new ones.
\<close>

section \<open>The devices\<close>

text \<open>\<open>m'\<close> is \<open>m\<close> over devices at least as long.\<close>

definition longer :: "mirror \<Rightarrow> mirror \<Rightarrow> bool" where
  "longer m m' \<longleftrightarrow> wf_mirror m' \<and> rcount m \<le> rcount m' \<and> (\<forall>l < rcount m. view m' l = view m l)"

text \<open>However it ends, growth with nothing staged leaves every block the devices had.\<close>

lemma grow_devices_spec:
  assumes run: "primary_then_secondary (dev_grow n) m = (r, m')" and wf: "wf_mirror m" and p: "m_pending m = []" and n: "n < U64"
  shows "longer m m' \<and> m_pending m' = [] \<and> (\<forall>u. r = Inr u \<longrightarrow> n \<le> rcount m')"
proof -
  obtain d where d: "rdev m = Some d" using wf by (auto simp: wf_mirror_def)
  have st: "staged m = []" using p by (simp add: staged_def)
  have wd: "wf_dev d" using wf d by (auto simp: wf_mirror_def rdev_def split: if_splits)
  obtain q d' where q: "dev_grow n d = (q, d')" by (cases "dev_grow n d")
  note g = dev_grow_spec [OF q wd n, folded dev_content_def]
  have m': "(r = Inr () \<longrightarrow> q = Inr ()) \<and> rdev m' = Some d' \<and> m_cache m' = m_cache m \<and> m_pending m' = []
    \<and> (\<forall>a. m_a m' = Some a \<longrightarrow> wf_dev a) \<and> (\<forall>b. m_b m' = Some b \<longrightarrow> wf_dev b)"
  proof (cases "m_a m")
    case None
    then have "m_b m = Some d" using d by (simp add: rdev_def)
    then have "q = r" "m' = m\<lparr>m_b := Some d'\<rparr>"
      using run None q by (auto simp: primary_then_secondary_def on_b_def)
    then show ?thesis using None p g by (auto simp: rdev_def)
  next
    case (Some a)
    then have a: "a = d" using d by (simp add: rdev_def)
    have b: "wf_dev b'" if "m_b m = Some b" "dev_grow n b = (x, b')" for b b' x
      using that wf dev_grow_spec [OF that(2) _ n] by (auto simp: wf_mirror_def)
    have mb: "\<forall>b. m_b m = Some b \<longrightarrow> wf_dev b" using wf by (simp add: wf_mirror_def)
    have "(r = Inr () \<longrightarrow> q = Inr ()) \<and> m_a m' = Some d' \<and> m_cache m' = m_cache m \<and> m_pending m' = [] \<and> (\<forall>b. m_b m' = Some b \<longrightarrow> wf_dev b)"
      using run Some a q p b mb
      by (auto simp: primary_then_secondary_def on_a_def bindE_def secondary_def drop_secondary_def split: option.splits prod.splits sum.splits)
    then show ?thesis using g by (auto simp: rdev_def)
  qed
  have rc: "rcount m = fd_blocks d" "rcount m' = fd_blocks d'" "rcontent m = dev_content d" "rcontent m' = dev_content d'"
    using d m' by (simp_all add: rcount_def rcontent_def fun_eq_iff)
  have st': "staged m' = []" using m' by (simp add: staged_def)
  have "wf_mirror m'" using wf g m' rc st st' d by (auto simp: wf_mirror_def cache_ok_def)
  moreover have "view m' l = view m l" if "l < rcount m" for l
    using that g rc st st' by (simp add: view_def find_staged_eq)
  ultimately show ?thesis using g rc m' by (auto simp: longer_def)
qed

lemma longer_refl: "wf_mirror m \<Longrightarrow> longer m m"
  by (simp add: longer_def)

text \<open>The drain before it can fail, and then what was staged is lost; everything else is as it was.\<close>

lemma mirror_grow_spec:
  assumes run: "mirror_grow n m = (r, m')" and wf: "wf_mirror m" and n: "n < U64"
  shows "(\<forall>l < rcount m. find_staged m l = None \<longrightarrow> view m' l = view m l) \<and> rcount m \<le> rcount m'
    \<and> (m_pending m = [] \<longrightarrow> longer m m') \<and> (\<forall>u. r = Inr u \<longrightarrow> longer m m' \<and> n \<le> rcount m')"
proof -
  from run have "bindE drain (\<lambda>_. primary_then_secondary (dev_grow n)) m = (r, m')" by (simp add: mirror_grow_def)
  then show ?thesis
  proof (cases rule: bindE_cases)
    case (err e)
    note dr = drain_spec [OF err(1) wf]
    have "m_pending m \<noteq> []" using err(1) by (auto simp: drain_def)
    then show ?thesis using dr err by auto
  next
    case (ok u m1)
    note dr = drain_spec [OF ok(1) wf]
    have "longer m1 m' \<and> (\<forall>u. r = Inr u \<longrightarrow> n \<le> rcount m')" using grow_devices_spec [OF ok(2) _ _ n] dr by blast
    then show ?thesis using dr by (auto simp: longer_def)
  qed
qed

section \<open>A longer tract\<close>

lemma expand_runs_longer: "expand_runs E runs sz L = Inr ps \<Longrightarrow> L \<le> L' \<Longrightarrow> L' < 2 ^ 63 \<Longrightarrow> expand_runs E runs sz L' = Inr ps"
proof -
  assume x: "expand_runs E runs sz L = Inr ps" and L: "L \<le> L'" "L' < 2 ^ 63"
  have "check_runs runs L = Inr (length ps)" "length ps = div_ceil sz (furrow_capacity E)"
    using x expand_runs_ok [OF x] L by (auto simp: expand_runs_def bindR_eq_Inr split: if_splits)
  then have "length ps = sum_list (map snd runs)" "length ps \<le> L" "\<forall>(s, c) \<in> set runs. s < L \<and> s + c \<le> L"
    using check_runs_from_ok [of 0 runs L "length ps"] L by (auto simp: check_runs_def)
  then have "check_runs runs L' = Inr (length ps)"
    using check_runs_from_accepts [of runs L' 0] L by (fastforce simp: check_runs_def)
  then show ?thesis using x \<open>check_runs runs L = Inr (length ps)\<close> by (simp add: expand_runs_def split: if_splits)
qed

lemma points_past_longer: "points_past doc L' \<Longrightarrow> L \<le> L' \<Longrightarrow> points_past doc L"
proof (cases doc)
  case (DocNode n)
  assume p: "points_past doc L'" and L: "L \<le> L'"
  then obtain c where c: "c \<in> set (n_children n)" "case c of Some (Committed _ lba) \<Rightarrow> lba \<ge> L' | _ \<Rightarrow> False"
    using DocNode by (auto simp: points_past_def list_ex_iff)
  then have "case c of Some (Committed _ lba) \<Rightarrow> lba \<ge> L | _ \<Rightarrow> False" using L by (auto split: option.splits child.splits)
  then show ?thesis using DocNode c(1) by (auto simp: points_past_def list_ex_iff)
qed (auto simp: points_past_def list_ex_iff intro: order.trans)

lemma doc_of_longer: "doc_of E b h L = Inr x \<Longrightarrow> L \<le> L' \<Longrightarrow> doc_of E b h L' = Inr x"
  using points_past_longer by (auto simp: doc_of_def bindR_eq_Inr split: if_splits option.splits)

lemma leaf_doc_longer:
  assumes "leaf_doc E V L Oc doc key v" and "L \<le> L'" and "L' < 2 ^ 63"
  shows "leaf_doc E V L' Oc doc key v"
proof (cases doc)
  case (DocExtent k sz runs)
  then show ?thesis using assms(1) expand_runs_longer [OF _ assms(2,3)] by (fastforce simp: leaf_doc_def)
next
  case (DocDirect k sz ps)
  then show ?thesis using assms(1,2) by (simp add: leaf_doc_def)
qed (use assms(1) in \<open>simp_all add: leaf_doc_def\<close>)

lemma repr_longer:
  assumes "repr E V L Oc A d ch t J" and "L \<le> L'" and "L' < 2 ^ 63"
  shows "repr E V L' Oc A d ch t J"
  using assms(1)
proof (induction rule: repr.induct)
  case (repr_gone lba h d)
  then show ?case using doc_of_longer [OF _ assms(2)] by (auto intro: repr.repr_gone)
next
  case (repr_leaf lba h doc k v d)
  then show ?case using doc_of_longer [OF _ assms(2)] leaf_doc_longer [OF _ assms(2,3)] by (auto intro!: repr.repr_leaf)
next
  case (repr_node lba h n d ts)
  then show ?case using doc_of_longer [OF _ assms(2)] by (intro repr.repr_node [of lba Oc E V h L' n d ts]) auto
next
  case (repr_dirty idx n d ts I J)
  then show ?case by (intro repr.repr_dirty [of idx A n d ts I E V L' Oc J]) auto
qed

section \<open>The cursors\<close>

lemma realign_cursors:
  assumes "old < new" and "plow + 2 * new < U64"
  defines "delta \<equiv> wsub (wadd old new) (plow mod new) mod new"
  shows "wadd plow delta = plow + delta" "delta < new" "(plow + delta) mod new = old" "wsub (plow + delta) old = plow + delta - old" "old \<le> plow + delta"
proof -
  have new: "0 < new" using assms(1) by simp
  have m: "plow mod new < new" using new by simp
  have w: "wsub (wadd old new) (plow mod new) = old + new - plow mod new"
  proof -
    have "wadd old new = old + new" using assms(1,2) by (intro wadd_eq) linarith
    moreover have "plow mod new \<le> old + new" "old + new < U64" using m assms(1,2) by linarith+
    ultimately show ?thesis using wsub_eq by simp
  qed
  show d: "delta < new" using new by (simp add: delta_def)
  show "wadd plow delta = plow + delta" using d assms(2) by (intro wadd_eq) simp
  have "(plow + delta) mod new = (plow + (old + new - plow mod new)) mod new" by (simp add: delta_def w mod_add_right_eq)
  also have "plow + (old + new - plow mod new) = old + new * (plow div new + 1)"
  proof -
    have "new * (plow div new) + plow mod new = plow" "new * (plow div new + 1) = new * (plow div new) + new" by simp_all
    then show ?thesis using m by linarith
  qed
  also have "(old + new * (plow div new + 1)) mod new = old" using assms(1) by (simp only: mod_mult_self2 mod_less)
  finally show md: "(plow + delta) mod new = old" .
  then show "old \<le> plow + delta" using mod_less_eq_dividend [of "plow + delta" new] by simp
  then show "wsub (plow + delta) old = plow + delta - old" using d assms(2) by (intro wsub_eq) auto
qed

text \<open>The realigned tract: its occupied positions are the old blocks, its clean space the new ones.\<close>

definition roomy_for :: "nat \<Rightarrow> tract \<Rightarrow> bool" where
  "roomy_for new t \<longleftrightarrow> t_len t < new \<and> new < 2 ^ 63 \<and> t_plow t + 3 * new < U64 \<and> t_base t + new < U64"

lemma realign_tract:
  fixes v :: "'z vault_scheme"
  assumes wf: "tract_wf (st_tract v)" and room: "roomy_for new (st_tract v)"
  defines "t \<equiv> st_tract (realign (t_len (st_tract v)) new v)"
  shows "tract_wf t" "t_len t = new" "t_base t = t_base (st_tract v)" "occ t = {..<t_len (st_tract v)}" "clean_blocks t = new - t_len (st_tract v)"
proof -
  let ?old = "t_len (st_tract v)" and ?plow = "t_plow (st_tract v)"
  let ?delta = "wsub (wadd ?old new) (?plow mod new) mod new"
  have lt: "?old < new" and room2: "?plow + 2 * new < U64" using room by (auto simp: roomy_for_def)
  define delta where "delta = ?delta"
  note c = realign_cursors [OF lt room2, folded delta_def]
  have t: "t_plow t = ?plow + delta" "t_reap t = ?plow + delta - ?old" "t_len t = new" "t_base t = t_base (st_tract v)"
    using c by (simp_all add: t_def realign_def Let_def delta_def)
  show "t_len t = new" "t_base t = t_base (st_tract v)" by (rule t(3), rule t(4))
  show twf: "tract_wf t" unfolding tract_wf_def t using c(2,5) lt room by (auto simp: roomy_for_def)
  show "clean_blocks t = new - ?old" unfolding clean_blocks_eq [OF twf] using t c(5) by simp
  obtain q where q: "?plow + delta = new * q + ?old" using c(3) by (metis mult_div_mod_eq)
  have "occ t = (\<lambda>m. m mod new) ` {new * q ..< new * q + ?old}" using t q by (simp add: occ_def)
  also have "{new * q ..< new * q + ?old} = (\<lambda>i. new * q + i) ` {..<?old}" by (simp add: image_add_atLeastLessThan lessThan_atLeast0 add.commute)
  also have "(\<lambda>m. m mod new) ` (\<lambda>i. new * q + i) ` {..<?old} = (\<lambda>i. i) ` {..<?old}" unfolding image_image using lt by (intro image_cong) auto
  finally show "occ t = {..<?old}" by simp
qed

section \<open>Growing an index\<close>

lemma realign_index:
  fixes v :: "'z vault_scheme"
  assumes i: "index_map E v m" and fit: "t_base (st_tract v) + t_len (st_tract v) \<le> rcount (st_mirror v)"
    and room: "roomy_for new (st_tract v)" and m': "longer (st_mirror v) m'"
  shows "index_map E (realign (t_len (st_tract v)) new (v\<lparr>st_mirror := m'\<rparr>)) m"
proof -
  let ?old = "t_len (st_tract v)" and ?v = "v\<lparr>st_mirror := m'\<rparr>"
  let ?w = "realign ?old new ?v"
  obtain t where t: "vsf_ok E" "holds E v t" "m = (\<lambda>x. lookup_opt x 0 t)" using i by (auto simp: index_map_def)
  have wf: "tract_wf (st_tract v)" using t(2) by (simp add: holds_def store_ok_def)
  then have "tract_wf (st_tract ?v)" "roomy_for new (st_tract ?v)" using room by simp_all
  note ra = realign_tract [OF this, simplified]
  have new: "?old < new" "new < 2 ^ 63" using room by (auto simp: roomy_for_def)
  have fields: "st_mirror ?w = m'" "h_root ?w = h_root v" "h_arena ?w = h_arena v" by (simp_all add: realign_def Let_def)
  have ok: "store_ok ?w" using ra new m' fields by (simp add: store_ok_def longer_def)
  have sub: "occ (st_tract v) \<subseteq> {..<?old}" using wf by (auto simp: occ_def tract_wf_def)
  have vw: "\<forall>p \<in> occ (st_tract v). tview ?w p = tview v p"
    using sub fit m' ra(3) fields(1) by (fastforce simp: tview_def longer_def)
  have "repr E (tview ?w) (t_len (st_tract ?w)) (occ (st_tract ?w)) (h_arena ?w) 0 ch u J"
    if "repr E (tview v) ?old (occ (st_tract v)) (h_arena v) 0 ch u J" for ch u J
  proof -
    have "repr E (tview ?w) ?old (occ (st_tract ?w)) (h_arena v) 0 ch u J"
      by (rule repr_frame [OF that vw]) (use sub ra(4) repr_footprint [OF that] in auto)
    then show ?thesis using repr_longer new ra(2) fields(3) by (metis less_imp_le_nat)
  qed
  then have "holds E ?w t" using t(2) ok unfolding holds_def fields(2) by (cases "h_root v") (simp_all, blast)
  then show ?thesis using t by (auto simp: index_map_def)
qed

lemma longer_index:
  fixes v :: "'z hst_scheme"
  assumes i: "index_map E v m" and fit: "t_base (st_tract v) + t_len (st_tract v) \<le> rcount (st_mirror v)" and m': "longer (st_mirror v) m'"
  shows "index_map E (v\<lparr>st_mirror := m'\<rparr>) m"
proof -
  let ?w = "v\<lparr>st_mirror := m'\<rparr>"
  obtain t where t: "vsf_ok E" "holds E v t" "m = (\<lambda>x. lookup_opt x 0 t)" using i by (auto simp: index_map_def)
  have ok: "store_ok ?w" using t(2) m' by (simp add: holds_def store_ok_def longer_def)
  have "\<forall>p \<in> occ (st_tract v). p < t_len (st_tract v)" using t(2) by (auto simp: occ_def holds_def store_ok_def tract_wf_def)
  then have vw: "\<forall>p \<in> occ (st_tract v). tview ?w p = tview v p" using fit m' by (fastforce simp: tview_def longer_def)
  have "repr E (tview ?w) (t_len (st_tract v)) (occ (st_tract v)) (h_arena v) 0 ch u J"
    if "repr E (tview v) (t_len (st_tract v)) (occ (st_tract v)) (h_arena v) 0 ch u J" for ch u J
    by (rule repr_frame [OF that vw]) (use repr_footprint [OF that] in auto)
  then have "holds E ?w t" using t(2) ok unfolding holds_def by (cases "h_root v") (simp_all, blast)
  then show ?thesis using t by (auto simp: index_map_def)
qed

lemma grow_preserving_spec:
  fixes v :: "'z vault_scheme"
  assumes run: "grow_preserving_now E new now v = (r, v')" and i: "index_map E v m"
    and fit: "t_base (st_tract v) + t_len (st_tract v) \<le> rcount (st_mirror v)" and room: "roomy_for new (st_tract v)"
  obtains (device) e m' where "mirror_grow (t_base (st_tract v) + new) (st_mirror v) = (Inl e, m')" "r = Inl e" "v' = v\<lparr>st_mirror := m'\<rparr>"
        "\<forall>l < rcount (st_mirror v). find_staged (st_mirror v) l = None \<longrightarrow> view m' l = view (st_mirror v) l"
        "m_pending (st_mirror v) = [] \<longrightarrow> index_map E v' m"
    | (grown) v2 where "index_map E v2 m" "t_len (st_tract v2) = new" "t_base (st_tract v2) = t_base (st_tract v)"
        "t_base (st_tract v) + new \<le> rcount (st_mirror v2)" "occ (st_tract v2) = {..<t_len (st_tract v)}"
        "clean_blocks (st_tract v2) = new - t_len (st_tract v)" "commit_now E now v2 = (r, v')"
        "\<exists>m2. mirror_grow (t_base (st_tract v) + new) (st_mirror v) = (Inr (), m2)"
proof -
  let ?w = "v_pending_reap_update (\<lambda>_. None) v" and ?n = "t_base (st_tract v) + new"
  have n: "wadd (t_base (st_tract v)) new = ?n" "?n < U64" "\<not> new \<le> t_len (st_tract v)" using room by (auto simp: roomy_for_def)
  obtain q m' where g: "mirror_grow ?n (st_mirror v) = (q, m')" by (cases "mirror_grow ?n (st_mirror v)")
  have run1: "(case q of Inl e \<Rightarrow> (Inl e, v\<lparr>st_mirror := m'\<rparr>) | Inr u \<Rightarrow> commit_now E now (realign (t_len (st_tract v)) new (?w\<lparr>st_mirror := m'\<rparr>))) = (r, v')"
    using run n(3) g unfolding grow_preserving_now_def Let_def if_not_P [OF n(3)] n(1)
    by (cases v) (auto simp: bindE_def with_mirror_def modE_def split: sum.splits)
  show thesis
  proof (cases q)
    case (Inl e)
    have wf: "wf_mirror (st_mirror v)" using i by (auto simp: index_map_def holds_def store_ok_def)
    note gs = mirror_grow_spec [OF g wf n(2)]
    then have "m_pending (st_mirror v) = [] \<longrightarrow> index_map E (v\<lparr>st_mirror := m'\<rparr>) m" using longer_index [OF i fit] by blast
    then show ?thesis using device [of e m'] g gs run1 Inl by simp
  next
    case (Inr u)
    have t: "vsf_ok E \<and> (\<exists>t. holds E v t \<and> m = (\<lambda>x. lookup_opt x 0 t))" using i by (simp add: index_map_def)
    have "tview ?w = tview v" by (simp add: tview_def fun_eq_iff)
    then have "holds E ?w t = holds E v t" for t by (cases "h_root v") (simp_all add: holds_def store_ok_def)
    then have iw: "index_map E ?w m" using t by (simp add: index_map_def)
    have wf: "wf_mirror (st_mirror v)" "tract_wf (st_tract v)" using t by (auto simp: holds_def store_ok_def)
    have lg: "longer (st_mirror v) m' \<and> ?n \<le> rcount m'" using mirror_grow_spec [OF g wf(1) n(2)] Inr by blast
    let ?v2 = "realign (t_len (st_tract ?w)) new (?w\<lparr>st_mirror := m'\<rparr>)"
    have "tract_wf (st_tract (?w\<lparr>st_mirror := m'\<rparr>))" "roomy_for new (st_tract (?w\<lparr>st_mirror := m'\<rparr>))" using wf(2) room by simp_all
    note ra = realign_tract [OF this, simplified]
    have "index_map E ?v2 m" using realign_index [OF iw _ _ , of new m'] fit room lg by simp
    then show ?thesis using grown [of ?v2] ra lg run1 Inr g by (simp add: realign_def Let_def)
  qed
qed

end
