(* ===== verification/Vault_Claims.thy ===== *)
theory Vault_Claims
  imports Open_Props Settle_Total Index_Claims Growth_Props Planted_Vault
begin

text \<open>
  The properties of the vault: what genesis establishes, what requests and commits keep, what a
  crash can and cannot lose, what an open finds, and what it refuses.
\<close>

section \<open>Genesis, requests, commit\<close>

text \<open>C10. A vault that genesis returns satisfies the vault's invariant with the empty map: the ring holds
  its one generation, the index and the medium are both empty, nothing is staged. Genesis is the base
  case of the induction whose steps are requests and commits.\<close>

theorem genesis_establishes:
  assumes "genesis E m rl now policy = (Inr v, m')" and "vsf_ok E" and "wf_mirror m" and "1 \<le> rl" and "rl \<le> 32"
    and "mirror_block_count m < 2 ^ 63" and "- (2 ^ 63) \<le> now" and "now < 2 ^ 63"
  shows "safe E v (genesis_entry rl (mirror_block_count m - 2 ^ rl) now) Map.empty Map.empty
    \<and> fixed_profile v \<and> m_pending (st_mirror v) = []"
  using genesis_safe [OF assms] by blast

theorem genesis_establishes_witness:
  "\<exists>v. genesis ref_env (solo 16) 2 0 UnlinkOnly = (Inr v, st_mirror v) \<and> safe ref_env v (genesis_entry 2 12 0) Map.empty Map.empty"
proof -
  obtain v where v: "genesis ref_env (solo 16) 2 0 UnlinkOnly = (Inr v, st_mirror v)" by (rule new_solo)
  have p: "prime (solo 16)" "rcount (solo 16) = 16" using solo_prime [of 16] by simp_all
  have c: "mirror_block_count (solo 16) = 16" "wf_mirror (solo 16)" using prime_facts [OF p(1)] p(2) by simp_all
  have "safe ref_env v (genesis_entry 2 12 0) Map.empty Map.empty"
    using genesis_establishes [OF v ref_env_ok c(2), unfolded c(1)] by simp
  then show ?thesis using v by blast
qed



text \<open>C1. A commit is atomic. However it ends, with success, with an error after any number of the writes
  it makes (staged blocks, heartbeats, its own spine entry), or in a crash at any of them, the medium
  comes back with the old map or with the new one. When it reports success it is the new one, the
  generation has advanced, and nothing is left staged. The hypotheses about the environment: no digest
  is all zeros, and no block that a torn write leaves passes as a sealed spine entry.\<close>

theorem commit_atomic:
  fixes v :: "'z vault_scheme"
  assumes "commit_now E now v = (r, v')" and "safe E v h m m0" and "vsf_ok E" and "zero_free E" and "unforged E (st_mirror v)"
    and "se_gen h + FLUSH_TRIES + 1 < U64" and "- (2 ^ 63) \<le> now" and "now < 2 ^ 63"
  shows "(recovers E v' m0 \<or> recovers E v' m)
    \<and> (\<forall>u. r = Inr u \<longrightarrow> recovers E v' m \<and> (\<exists>h'. safe E v' h' m m \<and> se_gen h < se_gen h') \<and> m_pending (st_mirror v') = [])"
  using commit_safe [OF assms] by (auto dest: safe_recovers)

text \<open>The commit of a delete: what comes back is the map with the key or the one without it.\<close>

theorem commit_atomic_witness:
  "\<exists>v r v'. hamt_delete ref_env (replicate 32 7) UnlinkOnly planted = (Inr True, v) \<and> commit_now ref_env 5 v = (r, v')
     \<and> (recovers ref_env v' planted_map \<or> recovers ref_env v' Map.empty) \<and> (r = Inr () \<longrightarrow> recovers ref_env v' Map.empty)"
proof -
  obtain v where v: "hamt_delete ref_env (replicate 32 7) UnlinkOnly planted = (Inr True, v)" by (rule planted_delete)
  have s: "safe ref_env v planted_entry Map.empty planted_map"
    using vsession.del_law [OF planted_safe v] by simp
  obtain r v' where run: "commit_now ref_env 5 v = (r, v')" by (rule prod.exhaust)
  have "zero_free ref_env" by (auto simp: zero_free_def ref_env_def replicate_eq_replicate)
  moreover have "torn (st_mirror v) \<subseteq> torn (st_mirror planted)"
    using tameD [OF tame_delete quiet_ok [OF planted_quiet] v] by (simp add: kept_def)
  then have "unforged ref_env (st_mirror v)" by (simp add: unforged_def torn_def torn_of_def planted_dev_def)
  moreover have "se_gen planted_entry + FLUSH_TRIES + 1 < U64" by (simp add: FLUSH_TRIES_def FENCE_K_def)
  ultimately show ?thesis using commit_atomic [OF run s ref_env_ok] v run by (intro exI [where x = v] exI [where x = r] exI [where x = v']) auto
qed

section \<open>Growth\<close>




section \<open>Opening\<close>

text \<open>C2. Recovery reads what was committed. On a rebooted medium of the fixed-ring profile that holds the
  map \<open>m\<close>, a lazy open succeeds without writing a block and the vault it returns answers every key,
  before any settling, exactly as \<open>m\<close> does. Together with the two properties above, what a reader finds after a crash
  is the last committed map, or the one whose commit was under way.\<close>

theorem recovery_reads:
  fixes v :: "'z vault_scheme"
  assumes "durable E v h m" and "wf_mirror (st_mirror v)" and "fixed_profile v" and "se_tract_blocks h * BLOCK < U64"
    and "t_base (st_tract v) + se_tract_blocks h \<le> mirror_block_count (rebooted (st_mirror v))"
    and "rootless E (rebooted (st_mirror v))" and "boots E (rebooted (st_mirror v)) (v_log2 v)"
  shows "\<exists>v2. open_lazy E ho (rebooted (st_mirror v)) rl now policy = (Inr v2, rebooted (st_mirror v))
    \<and> (\<forall>k. \<exists>v3. get E k v2 = (Inr (m k), v3))"
  by (rule reopen_reads [OF assms])

theorem recovery_reads_witness:
  "\<exists>v2 v3 v4. open_lazy ref_env id (alone planted_dev) 2 0 UnlinkOnly = (Inr v2, alone planted_dev)
     \<and> get ref_env (replicate 32 7) v2 = (Inr (Some [1, 2, 3]), v3) \<and> get ref_env (replicate 32 9) v2 = (Inr None, v4)"
proof -
  have "\<exists>v2. open_lazy ref_env id (rebooted (st_mirror planted)) 2 0 UnlinkOnly = (Inr v2, rebooted (st_mirror planted))
    \<and> (\<forall>k. \<exists>v3. get ref_env k v2 = (Inr (planted_map k), v3))"
    by (rule recovery_reads [OF planted_durable planted_profile(2,1)])
      (use planted_rootless planted_boots planted_dev_ok(3) in \<open>simp_all add: BLOCK_def\<close>)
  then obtain v2 where v2: "open_lazy ref_env id (alone planted_dev) 2 0 UnlinkOnly = (Inr v2, alone planted_dev)"
    "\<forall>k. \<exists>v3. get ref_env k v2 = (Inr (planted_map k), v3)" by auto
  then show ?thesis using spec [OF v2(2), of "replicate 32 7"] spec [OF v2(2), of "replicate 32 9"] by (auto simp: replicate_eq_replicate)
qed

text \<open>C12. Opening closes the circle. A rebooted medium of the fixed-ring profile that holds the map \<open>m\<close> at
  the head \<open>h\<close>, opened and settled, gives a vault that satisfies the vault's invariant again, with \<open>m\<close>
  both as its index and as what the medium holds. The open has written nothing; the positions it holds
  live are exactly those that the committed root reaches, and all of them lie between the cursors. The
  open does return, within the steps that the visited set allows, and has one way to fail: it refuses
  a tree that reaches a position twice, and only such a tree, and then too it has written nothing. The
  hypotheses: no pointer of the tree names a zeroed block (those are pruned, and committed), and the
  fence of the recent entries leaves room for a reap window (else the open rescues the tract first).\<close>

theorem open_establishes:
  fixes v :: "'z vault_scheme"
  assumes "durable E v h m" and "wf_mirror (st_mirror v)" and "fixed_profile v" and "se_plow h + 2 * se_tract_blocks h < U64"
    and "1 \<le> v_log2 v" and "v_log2 v \<le> 32" and "t_base (st_tract v) + se_tract_blocks h \<le> mirror_block_count (rebooted (st_mirror v))"
    and "rootless E (rebooted (st_mirror v))" and "boots E (rebooted (st_mirror v)) (v_log2 v)"
    and "committed_intact E v h" and "roomy E (disk_ring v h) h"
  shows "case vault_open E ho (rebooted (st_mirror v)) rl now policy of
      (Inr v2, m2) \<Rightarrow> distinct (committed_walk E v h) \<and> safe E v2 h m m \<and> settled v2 \<and> fixed_profile v2
        \<and> st_mirror v2 = rebooted (st_mirror v) \<and> m2 = rebooted (st_mirror v)
        \<and> set (positions (v_live v2)) = committed_positions E v h \<and> committed_positions E v h \<subseteq> occ (st_tract v2)
    | (Inl e, m2) \<Rightarrow> \<not> distinct (committed_walk E v h) \<and> e = Corrupt ''tract lba reached twice'' \<and> m2 = rebooted (st_mirror v)"
proof -
  have fit: "2 ^ v_log2 v \<le> rcount (st_mirror v)" using assms(3,7) block_count_le [of "st_mirror v"] by (simp add: fixed_profile_def)
  note tot = reopen_total [OF assms(1-3,7-11), of ho rl now policy]
  show ?thesis
  proof (cases "distinct (committed_walk E v h)")
    case True
    then obtain v2 where run: "vault_open E ho (rebooted (st_mirror v)) rl now policy = (Inr v2, st_mirror v2)" using tot by auto
    show ?thesis using reopen_safe [OF run assms(1-6) fit assms(8-11)] True by (simp add: run)
  next
    case False
    then show ?thesis using tot by simp
  qed
qed

theorem open_establishes_witness:
  "\<exists>v2. vault_open ref_env id (alone planted_dev) 2 0 UnlinkOnly = (Inr v2, alone planted_dev)
     \<and> safe ref_env v2 planted_entry planted_map planted_map \<and> set (positions (v_live v2)) = committed_positions ref_env planted planted_entry"
proof -
  obtain r m2 where run: "vault_open ref_env id (rebooted (st_mirror planted)) 2 0 UnlinkOnly = (r, m2)" by (rule prod.exhaust)
  have "case vault_open ref_env id (rebooted (st_mirror planted)) 2 0 UnlinkOnly of
      (Inr v2, m2) \<Rightarrow> safe ref_env v2 planted_entry planted_map planted_map \<and> m2 = rebooted (st_mirror planted)
        \<and> set (positions (v_live v2)) = committed_positions ref_env planted planted_entry
    | (Inl e, m2) \<Rightarrow> \<not> distinct (committed_walk ref_env planted planted_entry)"
    using open_establishes [OF planted_durable planted_profile(2,1), of id 2 0 UnlinkOnly] planted_rootless planted_boots planted_tree planted_dev_ok(3)
    unfolding run by (auto split: sum.splits)
  then show ?thesis using run planted_tree(2) by (cases r) auto
qed

text \<open>C14. A device that holds a sealed block is never formatted. When neither a root entry nor the first
  slots bootstrap, the open scans both devices; a sealed block anywhere, or a block that cannot be read,
  ends the open with an error, and not a byte of either device has changed.\<close>

theorem open_never_formats:
  assumes "sealed_somewhere E m" and "open_root E m = (Inr None, m1)" and "bootstrap_n E m1 = (Inr None, m2)"
  shows "\<exists>e m'. open_with E ho m rl now policy lazy = (Inl e, m') \<and> bytes m' = bytes m"
  by (rule open_with_refuses [OF assms])

definition stray_dev :: "nat \<Rightarrow> filedev" where
  "stray_dev n = \<lparr>fd_file = (replicate n ZERO_BLOCK)[17 := doc_block ref_env SCHEMA (spine_pairs (genesis_entry 2 12 0))],
     fd_blocks = n, fd_faults = []\<rparr>"

definition stray :: mirror where
  "stray = mirror_new (fresh_dev 20) (stray_dev 20)"

theorem open_never_formats_witness:
  "\<exists>e m'. open_with ref_env id (rebooted stray) 2 0 UnlinkOnly True = (Inl e, m') \<and> bytes m' = bytes (rebooted stray)"
proof -
  let ?e = "genesis_entry 2 12 0" and ?b = "doc_block ref_env SCHEMA (spine_pairs (genesis_entry 2 12 0))"
  have ge: "spine_wf ?e" "spine_sane ?e" using genesis_entry_ok [of 2 12 0] by simp_all
  have len: "length ?b = BLOCK" using spine_doc(2) [OF ref_env_ok ge(1)] length_doc_block [OF ref_env_ok] by simp
  have wd: "wf_dev (stray_dev 20)" using len by (auto simp: wf_dev_def stray_dev_def dest: set_update_subset_insert [THEN subsetD])
  have ab: "m_a stray = Some (fresh_dev 20)" "m_b stray = Some (stray_dev 20)" "rdev stray = Some (fresh_dev 20)"
    by (simp_all add: stray_def mirror_new_def rdev_def)
  have wf: "wf_mirror stray" using wd ab by (auto simp: wf_mirror_def stray_def mirror_new_def cache_ok_def staged_def rdev_def)
  have zero: "rcontent stray l = ZERO_BLOCK" if "l < 20" for l using that ab by (simp add: rcontent_def dev_content_def)
  have "rootless ref_env (rebooted stray)" using zero zero_undecodable(1) by (auto simp: rootless_def ROOT_SLOTS_def)
  then have a: "open_root ref_env (rebooted stray) = (Inr None, rebooted stray)" by (rule open_root_none [OF wf])
  have b: "bootstrap_n ref_env (rebooted stray) = (Inr None, rebooted stray)"
    by (rule bootstrap_none [OF wf]) (use zero zero_undecodable(2) in auto)
  have "block_is_sealed ref_env ?b" using doc_block_header [OF ref_env_ok, of SCHEMA "spine_pairs ?e"] by (simp add: block_is_sealed_def)
  moreover have "fd_file (healed (stray_dev 20)) ! 17 = ?b" "17 < fd_blocks (healed (stray_dev 20))" "m_b (rebooted stray) = Some (healed (stray_dev 20))"
    using ab by (simp_all add: stray_dev_def)
  ultimately have "sealed_somewhere ref_env (rebooted stray)" unfolding sealed_somewhere_def by metis
  then show ?thesis by (rule open_never_formats [OF _ a b])
qed

section \<open>The derived reap cursor\<close>



section \<open>Confinement\<close>



end
