(* ===== verification/Inspect_Model.thy ===== *)
theory Inspect_Model
  imports Hamt_Doc Ring_Model
begin

text \<open>
  The inspector of \<open>src/inspect.rs\<close> and the two command-line tools over it. It reads one device
  block by block, without the mirror and without the engine's decoders: the ring slots, the hash
  chain, the tree behind the committed root, the sealed blocks that nothing reaches, and a list of
  checks. What the walk collects through \<open>&mut\<close> parameters is in the record \<open>insp\<close>. Notes and the
  errors of the decoder are strings in the source; as with \<open>Corrupt\<close>, the constant part of the
  message is kept. The text that \<open>render\<close> prints and the details of a check are not modelled.
\<close>

unbundle bit_operations_syntax

section \<open>Options, decoded shapes, the report\<close>

record InspectOptions =
  io_orphan_scan :: bool
  io_verbose_ring :: bool
  io_show_ring :: bool
  io_show_tree :: bool

definition default_options :: InspectOptions where
  "default_options = \<lparr>io_orphan_scan = False, io_verbose_ring = False, io_show_ring = True, io_show_tree = True\<rparr>"

datatype TractBlock =
    BNode nat hash "(nat \<times> hash \<times> nat) list"
  | BLone hash nat
  | BDirect hash nat "nat list"
  | BExtent hash nat "(nat \<times> nat) list"
  | BStale
  | BFurrow hash nat nat

record TreeNode =
  tn_indent :: nat
  tn_lba :: nat
  tn_doc :: TractBlock
  tn_seal_ok :: bool
  tn_self_addr_ok :: bool
  tn_note :: "string option"

record Check =
  ck_name :: string
  ck_pass :: bool

datatype SlotKind = SlotOk SpineEntry | SlotEmpty | SlotCorrupt

record InspectReport =
  ir_file_blocks :: nat
  ir_ring_log2 :: nat
  ir_ring_n :: nat
  ir_tract_base :: nat
  ir_tract_blocks_field :: "nat option"
  ir_slots :: "(nat \<times> SlotKind) list"
  ir_head :: "(nat \<times> SpineEntry) option"
  ir_chain :: "(nat \<times> bool) list"
  ir_tree :: "TreeNode list"
  ir_reachable_nodes :: nat
  ir_reachable_leaves :: nat
  ir_reachable_furrows :: nat
  ir_reachable_blocks :: nat
  ir_orphans :: "(nat list) option"
  ir_checks :: "Check list"

section \<open>The inspector's own decoder\<close>

type_synonym 'a verdict = "string + 'a"

definition bindV :: "'a verdict \<Rightarrow> ('a \<Rightarrow> 'b verdict) \<Rightarrow> 'b verdict" where
  "bindV r f = (case r of Inl e \<Rightarrow> Inl e | Inr x \<Rightarrow> f x)"

definition need :: "string \<Rightarrow> 'a option \<Rightarrow> 'a verdict" where
  "need e x = (case x of None \<Rightarrow> Inl e | Some y \<Rightarrow> Inr y)"

definition audit_furrow_capacity :: "vsf_env \<Rightarrow> nat" where
  "audit_furrow_capacity E = (let body_start = 4 + length (vsf_flatten E (V_hp (replicate 32 0))) + 1 in BLOCK - body_start - 2 ^ 7)"

fun count_runs_from :: "nat \<Rightarrow> (nat \<times> nat) list \<Rightarrow> nat \<Rightarrow> nat verdict" where
  "count_runs_from tot [] tract_len = Inr tot"
| "count_runs_from tot ((s, c) # runs) tract_len =
     (if s \<ge> tract_len \<or> c > wsub tract_len s then Inl ''extent run reaches past the tract''
      else if wadd tot c > tract_len then Inl ''extent runs total too many blocks''
      else count_runs_from (wadd tot c) runs tract_len)"

definition count_runs :: "(nat \<times> nat) list \<Rightarrow> nat \<Rightarrow> nat verdict" where
  "count_runs runs tract_len = count_runs_from 0 runs tract_len"

record audit_acc =
  aa_key :: "hash option"
  aa_value_len :: "nat option"
  aa_size :: "nat option"
  aa_index :: "nat option"
  aa_depth :: "nat option"
  aa_route :: "hash option"
  aa_map :: "nat option"
  aa_hashes :: "hash list"
  aa_lbas :: "nat list"
  aa_furrows :: "nat list"
  aa_run_starts :: "nat list"
  aa_run_counts :: "nat list"

definition audit_acc0 :: audit_acc where
  "audit_acc0 = \<lparr>aa_key = None, aa_value_len = None, aa_size = None, aa_index = None, aa_depth = None,
     aa_route = None, aa_map = None, aa_hashes = [], aa_lbas = [], aa_furrows = [],
     aa_run_starts = [], aa_run_counts = []\<rparr>"

text \<open>\<open>h.try_into().ok()\<close> and \<open>as_u64(u).or(old)\<close>.\<close>

definition as_32 :: "u8 list \<Rightarrow> hash option" where
  "as_32 h = (if length h = 32 then Some h else None)"

definition u64_or :: "VsfType \<Rightarrow> nat option \<Rightarrow> nat option" where
  "u64_or v old = (case as_u64 v of Some x \<Rightarrow> Some x | None \<Rightarrow> old)"

definition push_opt :: "'a option \<Rightarrow> 'a list \<Rightarrow> 'a list" where
  "push_opt x xs = (case x of Some y \<Rightarrow> xs @ [y] | None \<Rightarrow> xs)"

definition audit_step :: "string \<Rightarrow> VsfType \<Rightarrow> audit_acc \<Rightarrow> audit_acc" where
  "audit_step name v a =
     (if name = ''key'' then (case v of V_hp h \<Rightarrow> a\<lparr>aa_key := as_32 h\<rparr> | _ \<Rightarrow> a)
      else if name = ''v'' then (case v of V_v _ bytes \<Rightarrow> a\<lparr>aa_value_len := Some (length bytes)\<rparr> | _ \<Rightarrow> a)
      else if name = ''size'' then a\<lparr>aa_size := u64_or v (aa_size a)\<rparr>
      else if name = ''i'' then a\<lparr>aa_index := u64_or v (aa_index a)\<rparr>
      else if name = ''depth'' then a\<lparr>aa_depth := u64_or v (aa_depth a)\<rparr>
      else if name = ''route'' then (case v of V_hp h \<Rightarrow> a\<lparr>aa_route := as_32 h\<rparr> | _ \<Rightarrow> a)
      else if name = ''map'' then a\<lparr>aa_map := u64_or v (aa_map a)\<rparr>
      else if name = ''ch'' then (case v of V_hp h \<Rightarrow> a\<lparr>aa_hashes := push_opt (as_32 h) (aa_hashes a)\<rparr> | _ \<Rightarrow> a)
      else if name = ''at'' then a\<lparr>aa_lbas := push_opt (as_u64 v) (aa_lbas a)\<rparr>
      else if name = ''f'' then a\<lparr>aa_furrows := push_opt (as_u64 v) (aa_furrows a)\<rparr>
      else if name = ''s'' then a\<lparr>aa_run_starts := push_opt (as_u64 v) (aa_run_starts a)\<rparr>
      else if name = ''c'' then a\<lparr>aa_run_counts := push_opt (as_u64 v) (aa_run_counts a)\<rparr>
      else a)"

text \<open>The loop over the named pairs; the fuel is one turn per byte, as for the engine's loop.\<close>

primrec audit_loop :: "nat \<Rightarrow> vsf_env \<Rightarrow> block \<Rightarrow> nat \<Rightarrow> audit_acc \<Rightarrow> audit_acc verdict" where
  "audit_loop 0 E block ptr acc = Inl ''out of fuel''"
| "audit_loop (Suc n) E block ptr acc =
     (if \<not> byte_at block ptr 0x64 then Inr acc
      else case vsf_parse E block ptr of
        None \<Rightarrow> Inl ''name''
      | Some (V_d name, ptr1) \<Rightarrow>
          (case vsf_parse E block ptr1 of
             None \<Rightarrow> Inl ''value''
           | Some (v, ptr2) \<Rightarrow> audit_loop n E block ptr2 (audit_step name v acc))
      | Some _ \<Rightarrow> Inl ''bad field name'')"

text \<open>The present slots in order, each with the next hash and position.\<close>

fun take_children :: "32 word \<Rightarrow> nat list \<Rightarrow> hash list \<Rightarrow> nat list \<Rightarrow> (nat \<times> hash \<times> nat) list" where
  "take_children p [] hs ls = []"
| "take_children p (i # is) hs ls =
     (if bit p i then (i, hd hs, hd ls) # take_children p is (tl hs) (tl ls) else take_children p is hs ls)"

definition audit_doc :: "string \<Rightarrow> audit_acc \<Rightarrow> TractBlock verdict" where
  "audit_doc schema a =
     (if schema = SCHEMA_LONE then
        bindV (need ''lone: missing key'' (aa_key a)) (\<lambda>key.
        bindV (need ''lone: missing value'' (aa_value_len a)) (\<lambda>n. Inr (BLone key n)))
      else if schema = SCHEMA_DIRECT then
        bindV (need ''direct: missing key'' (aa_key a)) (\<lambda>key.
        bindV (need ''direct: missing size'' (aa_size a)) (\<lambda>sz. Inr (BDirect key sz (aa_furrows a))))
      else if schema = SCHEMA_EXTENT then
        (if length (aa_run_starts a) \<noteq> length (aa_run_counts a) then Inl ''extent: run starts != run counts''
         else
          bindV (need ''extent: missing key'' (aa_key a)) (\<lambda>key.
          bindV (need ''extent: missing size'' (aa_size a)) (\<lambda>sz.
          Inr (BExtent key sz (zip (aa_run_starts a) (aa_run_counts a))))))
      else if schema = SCHEMA_FURROW then
        bindV (need ''furrow: missing key'' (aa_key a)) (\<lambda>key.
        bindV (need ''furrow: missing index'' (aa_index a)) (\<lambda>index.
        bindV (need ''furrow: missing payload'' (aa_value_len a)) (\<lambda>n. Inr (BFurrow key index n))))
      else if schema = SCHEMA_NODE then
        bindV (need ''node: missing map'' (aa_map a)) (\<lambda>m.
        let presence = of_nat m :: 32 word in
        if count_ones presence \<noteq> length (aa_hashes a) \<or> length (aa_hashes a) \<noteq> length (aa_lbas a)
        then Inl ''node: presence popcount != children / lbas''
        else
          bindV (need ''node: missing depth'' (aa_depth a)) (\<lambda>depth.
          bindV (need ''node: missing route'' (aa_route a)) (\<lambda>route.
          Inr (BNode (depth mod 256) route (take_children presence [0 ..< 32] (aa_hashes a) (aa_lbas a))))))
      else Inl ''unknown tract schema'')"

definition decode_tract :: "vsf_env \<Rightarrow> block \<Rightarrow> (hash \<times> TractBlock) verdict" where
  "decode_tract E block =
     (if take 4 block \<noteq> MAGIC then Inl ''no magic''
      else case vsf_parse E block 4 of
        None \<Rightarrow> Inl ''hp''
      | Some (V_hp stored, ptr) \<Rightarrow>
          (if \<not> byte_at block ptr 0x3E then Inl ''expected > after hp''
           else if blake3 E (drop (ptr + 1) block) \<noteq> stored then Inl ''seal mismatch (hp != BLAKE3(body))''
           else if length stored \<noteq> 32 then Inl ''hp length != 32''
           else case vsf_parse E block (ptr + 1) of
             None \<Rightarrow> Inl ''schema''
           | Some (V_d schema, ptr2) \<Rightarrow>
               bindV (audit_loop (length block + 1) E block ptr2 audit_acc0) (\<lambda>a.
               bindV (audit_doc schema a) (\<lambda>doc. Inr (stored, doc)))
           | Some _ \<Rightarrow> Inl ''expected schema id'')
      | Some _ \<Rightarrow> Inl ''expected hp after magic'')"

section \<open>The routing of a key, copied\<close>

definition audit_chunk :: "hash \<Rightarrow> nat \<Rightarrow> nat result" where
  "audit_chunk key depth =
     (let bit = depth * 5; byte = bit div 8; off = bit mod 8 in
      if byte \<ge> 32 then Inl (Panic ''index out of bounds'')
      else
        (let hi = push_bit 8 (ucast (key ! byte)) :: 16 word;
             lo = (if byte + 1 < 32 then ucast (key ! (byte + 1)) else 0)
         in Inr (unat (drop_bit (11 - off) (hi OR lo) AND 0x1F))))"

definition key_with_chunk :: "hash \<Rightarrow> nat \<Rightarrow> nat \<Rightarrow> hash" where
  "key_with_chunk base depth slot =
     (let bit = depth * 5; byte = bit div 8 in
      if byte \<ge> 32 then base
      else
        (let off = bit mod 8;
             window = push_bit 8 (ucast (base ! byte)) OR (if byte + 1 < 32 then ucast (base ! (byte + 1)) else 0) :: 16 word;
             shift = 11 - off;
             mask = push_bit shift 0x1F;
             new = (window AND NOT mask) OR push_bit shift (of_nat slot);
             base = base[byte := ucast (drop_bit 8 new)]
         in if byte + 1 < 32 then base[byte + 1 := ucast (new AND 0xFF)] else base))"

text \<open>\<open>(0..depth).all(|d| chunk(key, d) == chunk(&path_route, d))\<close>, at depths below the key's end.\<close>

definition routes_here :: "hash \<Rightarrow> hash \<Rightarrow> nat \<Rightarrow> bool" where
  "routes_here key path depth = list_all (\<lambda>d. audit_chunk key d = audit_chunk path d) [0 ..< depth]"

end
