(* ===== verification/Inspect_Walk.thy ===== *)
theory Inspect_Walk
  imports Inspect_Model
begin

text \<open>
  The inspector's walks over one device and its report (\<open>inspect\<close>, \<open>walk_chain\<close>, \<open>walk_tree\<close>,
  \<open>walk_furrow\<close>, \<open>scan_orphans\<close>, \<open>build_checks\<close> of \<open>src/inspect.rs\<close>). The tree walk ends because it
  descends below depth 52 nowhere; the chain walk ends at generation zero.
\<close>

unbundle bit_operations_syntax

record insp =
  ip_dev :: filedev
  ip_out :: "TreeNode list"
  ip_reachable :: "nat list"
  ip_nodes :: nat
  ip_leaves :: nat
  ip_furrows :: nat

definition on_dev :: "(filedev, 'a) op \<Rightarrow> (insp, 'a) op" where
  "on_dev f = (\<lambda>s. case f (ip_dev s) of (r, d) \<Rightarrow> (r, s\<lparr>ip_dev := d\<rparr>))"

definition push_node :: "nat \<Rightarrow> nat \<Rightarrow> TractBlock \<Rightarrow> bool \<Rightarrow> bool \<Rightarrow> string option \<Rightarrow> (insp, unit) op" where
  "push_node indent lba doc seal_ok self_addr_ok note = modE (ip_out_update (\<lambda>out. out @
     [\<lparr>tn_indent = indent, tn_lba = lba, tn_doc = doc, tn_seal_ok = seal_ok, tn_self_addr_ok = self_addr_ok, tn_note = note\<rparr>]))"

definition push_bad :: "nat \<Rightarrow> nat \<Rightarrow> string \<Rightarrow> (insp, unit) op" where
  "push_bad indent lba note = push_node indent lba (BLone (replicate 32 0) 0) False False (Some note)"

text \<open>\<open>tract_base >= block_count || lba >= block_count - tract_base\<close>.\<close>

definition out_of_range :: "nat \<Rightarrow> nat \<Rightarrow> filedev \<Rightarrow> bool" where
  "out_of_range base lba d \<longleftrightarrow> base \<ge> fd_blocks d \<or> lba \<ge> fd_blocks d - base"

section \<open>Furrows\<close>

definition walk_furrow :: "vsf_env \<Rightarrow> nat \<Rightarrow> nat \<Rightarrow> hash \<Rightarrow> nat \<Rightarrow> nat \<Rightarrow> (insp, unit) op" where
  "walk_furrow E base lba owner expected_index indent = (\<lambda>s.
     if out_of_range base lba (ip_dev s) then (Inr (), s)
     else
       bindE (modE (ip_reachable_update (List.insert lba))) (\<lambda>_.
       bindE (on_dev (dev_read (base + lba))) (\<lambda>buf.
       bindE (modE (ip_furrows_update Suc)) (\<lambda>_.
       case decode_tract E buf of
         Inl reason \<Rightarrow> push_node indent lba (BFurrow owner expected_index 0) False False (Some reason)
       | Inr (_, doc) \<Rightarrow>
           (let ok = (case doc of BFurrow key index _ \<Rightarrow> key = owner \<and> index = expected_index | _ \<Rightarrow> False)
            in push_node indent lba doc True ok (if ok then None else Some ''furrow owner/index mismatch''))))) s)"

text \<open>The furrow positions of a leaf, and what is wrong with its runs.\<close>

definition leaf_furrows :: "vsf_env \<Rightarrow> nat \<Rightarrow> TractBlock \<Rightarrow> nat list \<times> string option" where
  "leaf_furrows E tract_len doc = (case doc of
     BDirect _ _ furrows \<Rightarrow> (furrows, None)
   | BExtent _ sz runs \<Rightarrow>
       (let expect = div_ceil sz (audit_furrow_capacity E) in
        case count_runs runs tract_len of
          Inl rn \<Rightarrow> ([], Some rn)
        | Inr tot \<Rightarrow>
            if tot \<noteq> expect then ([], Some ''extent run total != furrow count'')
            else (concat (map (\<lambda>(s, c). [s ..< s + c]) runs), None))
   | _ \<Rightarrow> ([], None))"

definition join_notes :: "string option \<Rightarrow> string option \<Rightarrow> string option" where
  "join_notes a b = (case (a, b) of
     (Some x, Some y) \<Rightarrow> Some (x @ ''; '' @ y)
   | (Some x, None) \<Rightarrow> Some x
   | (None, b) \<Rightarrow> b)"

definition walk_leaf :: "vsf_env \<Rightarrow> nat \<Rightarrow> nat \<Rightarrow> hash \<Rightarrow> TractBlock \<Rightarrow> bool \<Rightarrow> string option \<Rightarrow> nat \<Rightarrow> nat \<Rightarrow> hash \<Rightarrow> (insp, unit) op" where
  "walk_leaf E base lba key doc seal_ok note indent depth path =
     bindE (modE (ip_leaves_update Suc)) (\<lambda>_.
     bindE (getE (\<lambda>s. leaf_furrows E (fd_blocks (ip_dev s) - base) doc)) (\<lambda>(furrow_lbas, run_note).
     bindE (push_node indent lba doc seal_ok (routes_here key path depth \<and> run_note = None) (join_notes note run_note)) (\<lambda>_.
     forE (enumerate 0 furrow_lbas) (\<lambda>(i, flba). walk_furrow E base flba key i (indent + 1)))))"

section \<open>The tree\<close>

lemma forE_fcong [fundef_cong]:
  "xs = ys \<Longrightarrow> (\<And>x. x \<in> set ys \<Longrightarrow> f x = g x) \<Longrightarrow> forE xs f = forE ys g"
  by (induction xs arbitrary: ys) auto

function walk_tree :: "vsf_env \<Rightarrow> nat \<Rightarrow> nat \<Rightarrow> hash \<Rightarrow> nat \<Rightarrow> nat \<Rightarrow> hash \<Rightarrow> (insp, unit) op" where
  "walk_tree E base lba expected indent depth path =
     bindE (getE (\<lambda>s. out_of_range base lba (ip_dev s))) (\<lambda>far.
     if far then push_bad indent lba ''lba out of device range''
     else
       bindE (on_dev (dev_read (base + lba))) (\<lambda>buf.
       if buf = ZERO_BLOCK then push_node indent lba BStale True True (Some ''stale pointer'')
       else
         bindE (getE (\<lambda>s. lba \<in> set (ip_reachable s))) (\<lambda>seen.
         if seen then push_bad indent lba ''cycle: already reached''
         else
           bindE (modE (ip_reachable_update (List.insert lba))) (\<lambda>_.
           case decode_tract E buf of
             Inl reason \<Rightarrow> push_bad indent lba reason
           | Inr (seal, doc) \<Rightarrow>
               (let seal_ok = (seal = expected); note = (if seal_ok then None else Some ''block hash != pointer hash'') in
                case doc of
                  BNode d route children \<Rightarrow>
                    bindE (modE (ip_nodes_update Suc)) (\<lambda>_.
                    bindE (push_node indent lba doc seal_ok (d = depth) note) (\<lambda>_.
                    forE (filter (\<lambda>_. depth < 52 \<and> seal_ok) children) (\<lambda>(slot, h, child_lba).
                      walk_tree E base child_lba h (indent + 1) (depth + 1) (key_with_chunk path depth slot))))
                | BLone key _ \<Rightarrow> walk_leaf E base lba key doc seal_ok note indent depth path
                | BDirect key _ _ \<Rightarrow> walk_leaf E base lba key doc seal_ok note indent depth path
                | BExtent key _ _ \<Rightarrow> walk_leaf E base lba key doc seal_ok note indent depth path
                | BStale \<Rightarrow> raiseE (Panic ''Stale is synthesized above, never decoded'')
                | BFurrow _ _ _ \<Rightarrow> push_node indent lba doc seal_ok False (Some ''furrow block in index position''))))))"
  by pat_completeness auto
termination
  by (relation "measure (\<lambda>(_, _, _, _, _, depth, _). 52 - depth)") auto

declare walk_tree.simps [simp del]

section \<open>The ring\<close>

primrec discover_slots :: "vsf_env \<Rightarrow> nat list \<Rightarrow> (filedev, nat option) op" where
  "discover_slots E [] = retE None"
| "discover_slots E (slot # slots) = bindE (dev_read slot) (\<lambda>buf. case classify E buf slot None of
     Valid e \<Rightarrow> retE (Some (se_ring_log2 e))
   | _ \<Rightarrow> discover_slots E slots)"

definition discover_ring_log2 :: "vsf_env \<Rightarrow> (filedev, nat option) op" where
  "discover_ring_log2 E = (\<lambda>d. discover_slots E [0 ..< min (2 ^ 4) (fd_blocks d)] d)"

primrec walk_chain_from :: "vsf_env \<Rightarrow> nat \<Rightarrow> nat \<Rightarrow> hash \<Rightarrow> (filedev, (nat \<times> bool) list) op" where
  "walk_chain_from E ring_log2 0 child_prev = retE [(0, child_prev = replicate 32 0)]"
| "walk_chain_from E ring_log2 (Suc parent_gen) child_prev =
     (let slot = ring_slot ring_log2 parent_gen in
      bindE (tryE (dev_read slot)) (\<lambda>r. case r of
        Inl _ \<Rightarrow> retE [(Suc parent_gen, False)]
      | Inr buf \<Rightarrow> (case classify E buf slot (Some ring_log2) of
          Valid parent \<Rightarrow>
            (if se_gen parent = parent_gen then
               bindE (liftE (spine_body_hash E parent)) (\<lambda>h.
               bindE (walk_chain_from E ring_log2 parent_gen (se_prev_hash parent)) (\<lambda>links.
               retE ((Suc parent_gen, child_prev = h) # links)))
             else retE [(Suc parent_gen, False)])
        | _ \<Rightarrow> retE [(Suc parent_gen, False)])))"

definition walk_chain :: "vsf_env \<Rightarrow> nat \<Rightarrow> (nat \<times> SpineEntry) option \<Rightarrow> (filedev, (nat \<times> bool) list) op" where
  "walk_chain E ring_log2 head = (case head of
     None \<Rightarrow> retE []
   | Some (_, e) \<Rightarrow> walk_chain_from E ring_log2 (se_gen e) (se_prev_hash e))"

definition slot_kind :: "Classified \<Rightarrow> SlotKind" where
  "slot_kind c = (case c of Valid e \<Rightarrow> SlotOk e | Empty \<Rightarrow> SlotEmpty | ClsCorrupt \<Rightarrow> SlotCorrupt)"

definition classify_slots :: "vsf_env \<Rightarrow> nat \<Rightarrow> nat \<Rightarrow> (filedev, (nat \<times> SlotKind) list) op" where
  "classify_slots E ring_log2 n = mapE (\<lambda>slot. bindE (dev_read slot) (\<lambda>buf.
     retE (slot, slot_kind (classify E buf slot (Some ring_log2))))) [0 ..< n]"

text \<open>\<open>filter_map\<close> to the valid entries, then \<open>max_by_key\<close>, which keeps the last of equal maxima.\<close>

definition newest_slot :: "(nat \<times> SlotKind) list \<Rightarrow> (nat \<times> SpineEntry) option" where
  "newest_slot slots = fold (\<lambda>(s, k) best. case k of
     SlotOk e \<Rightarrow> (case best of
         Some (_, b) \<Rightarrow> (if se_gen b \<le> se_gen e then Some (s, e) else best)
       | None \<Rightarrow> Some (s, e))
   | _ \<Rightarrow> best) slots None"

section \<open>Orphans and checks\<close>

definition scan_orphans :: "vsf_env \<Rightarrow> nat \<Rightarrow> nat option \<Rightarrow> nat list \<Rightarrow> (filedev, nat list) op" where
  "scan_orphans E base tract_blocks reachable = (\<lambda>d.
     let scan_end = (case Option.bind tract_blocks (checked_add base) of
           Some e \<Rightarrow> min e (fd_blocks d) | None \<Rightarrow> fd_blocks d)
     in bindE (mapE (\<lambda>abs. bindE (dev_read abs) (\<lambda>buf.
          retE (if block_is_sealed E buf \<and> abs - base \<notin> set reachable then [abs - base] else []))) [base ..< scan_end])
        (\<lambda>found. retE (concat found)) d)"

definition check :: "string \<Rightarrow> bool \<Rightarrow> Check" where
  "check name pass = \<lparr>ck_name = name, ck_pass = pass\<rparr>"

definition build_checks :: "(nat \<times> SlotKind) list \<Rightarrow> nat \<Rightarrow> (nat \<times> SpineEntry) option \<Rightarrow> (nat \<times> bool) list \<Rightarrow>
    TreeNode list \<Rightarrow> nat \<Rightarrow> Check list" where
  "build_checks slots ring_log2 head chain tree reachable_blocks =
     (let n = 2 ^ ring_log2 in
      [check ''spine slots seal + congruent'' (filter (\<lambda>(_, k). k = SlotCorrupt) slots = []),
       check ''head found'' (head \<noteq> None),
       check ''hash chain intact'' (filter (\<lambda>(g, ok). \<not> ok \<and> g < n) chain = [])]
      @ (case head of None \<Rightarrow> []
         | Some (_, h) \<Rightarrow>
             if se_hamt_hash h = replicate 32 0 then [check ''merkle root'' True]
             else [check ''merkle root resolves'' (case tree of [] \<Rightarrow> False | t # _ \<Rightarrow> tn_seal_ok t)])
      @ [check ''HAMT blocks seal + self-address'' (filter (\<lambda>t. \<not> tn_seal_ok t \<or> \<not> tn_self_addr_ok t) tree = [])]
      @ (case head of None \<Rightarrow> []
         | Some (_, h) \<Rightarrow> [check ''live count matches commit'' (reachable_blocks = se_live h)]))"

definition all_checks_pass :: "InspectReport \<Rightarrow> bool" where
  "all_checks_pass rep = list_all ck_pass (ir_checks rep)"

section \<open>The report\<close>

definition insp_begin :: "filedev \<Rightarrow> insp" where
  "insp_begin d = \<lparr>ip_dev = d, ip_out = [], ip_reachable = [], ip_nodes = 0, ip_leaves = 0, ip_furrows = 0\<rparr>"

text \<open>The walk from the committed root, when it is asked for and there is one.\<close>

definition inspect_tree :: "vsf_env \<Rightarrow> bool \<Rightarrow> nat \<Rightarrow> (nat \<times> SpineEntry) option \<Rightarrow> (filedev, insp) op" where
  "inspect_tree E show_tree base head = (\<lambda>d.
     case (if show_tree then head else None) of
       Some (_, h) \<Rightarrow>
         if se_hamt_hash h \<noteq> replicate 32 0
         then (case walk_tree E base (se_hamt_lba h) (se_hamt_hash h) 0 0 (replicate 32 0) (insp_begin d) of
             (Inl e, s) \<Rightarrow> (Inl e, ip_dev s) | (Inr _, s) \<Rightarrow> (Inr s, ip_dev s))
         else (Inr (insp_begin d), d)
     | None \<Rightarrow> (Inr (insp_begin d), d))"

definition inspect :: "vsf_env \<Rightarrow> InspectOptions \<Rightarrow> (filedev, InspectReport) op" where
  "inspect E opts =
     bindE (getE fd_blocks) (\<lambda>file_blocks.
     bindE (discover_ring_log2 E) (\<lambda>found.
     let ring_log2 = (case found of Some r \<Rightarrow> r | None \<Rightarrow> HOST_RING_LOG2); ring_n = 2 ^ ring_log2; base = ring_n in
     bindE (classify_slots E ring_log2 (min ring_n file_blocks)) (\<lambda>slots.
     let head = newest_slot slots; field = map_option (se_tract_blocks \<circ> snd) head in
     bindE (walk_chain E ring_log2 head) (\<lambda>chain.
     bindE (inspect_tree E (io_show_tree opts) base head) (\<lambda>s.
     bindE (if io_orphan_scan opts
            then bindE (scan_orphans E base field (ip_reachable s)) (\<lambda>lbas. retE (Some lbas)) else retE None) (\<lambda>orphans.
     retE \<lparr>ir_file_blocks = file_blocks, ir_ring_log2 = ring_log2, ir_ring_n = ring_n, ir_tract_base = base,
       ir_tract_blocks_field = field, ir_slots = slots, ir_head = head, ir_chain = chain, ir_tree = ip_out s,
       ir_reachable_nodes = ip_nodes s, ir_reachable_leaves = ip_leaves s, ir_reachable_furrows = ip_furrows s,
       ir_reachable_blocks = length (ip_reachable s), ir_orphans = orphans,
       ir_checks = build_checks slots ring_log2 head chain (ip_out s) (length (ip_reachable s))\<rparr>))))))"

end
