(* ===== verification/Inspect_Decode.thy ===== *)
theory Inspect_Decode
  imports Inspect_Walk Hamt_Walk
begin

text \<open>
  The inspector against the engine, block by block: its decoder accepts what the engine's decoder
  accepts and reads the same from it, and its copies of the routing and run arithmetic compute the
  engine's functions.
\<close>

section \<open>The two decoders\<close>

definition tract_block_of :: "TractDoc \<Rightarrow> TractBlock" where
  "tract_block_of doc = (case doc of
     DocNode node \<Rightarrow> BNode (n_depth node) (n_route node) (committed_children node)
   | DocLone key value \<Rightarrow> BLone key (length value)
   | DocDirect key sz furrows \<Rightarrow> BDirect key sz furrows
   | DocExtent key sz runs \<Rightarrow> BExtent key sz runs
   | DocFurrow key index payload \<Rightarrow> BFurrow key index (length payload))"

text \<open>The fields that the two loops have collected, side by side.\<close>

definition acc_agree :: "doc_acc \<Rightarrow> audit_acc \<Rightarrow> bool" where
  "acc_agree a b \<longleftrightarrow> b = \<lparr>aa_key = da_key a, aa_value_len = map_option length (da_value a), aa_size = da_size a,
     aa_index = da_index a, aa_depth = da_depth a, aa_route = da_route a, aa_map = da_map a, aa_hashes = da_hashes a,
     aa_lbas = da_lbas a, aa_furrows = da_furrows a, aa_run_starts = da_run_starts a, aa_run_counts = da_run_counts a\<rparr>"

lemma acc_agree_0: "acc_agree doc_acc0 audit_acc0"
  by (simp add: acc_agree_def doc_acc0_def audit_acc0_def)

lemma doc_step_hash:
  "doc_step ''key'' v a = (case v of V_hp h \<Rightarrow> (if length h = 32 then Inr (a\<lparr>da_key := Some h\<rparr>) else Inl (Corrupt ''key len'')) | _ \<Rightarrow> Inr a)"
  "doc_step ''v'' v a = (case v of V_v _ bs \<Rightarrow> Inr (a\<lparr>da_value := Some bs\<rparr>) | _ \<Rightarrow> Inr a)"
  "doc_step ''route'' v a = (case v of V_hp h \<Rightarrow> (if length h = 32 then Inr (a\<lparr>da_route := Some h\<rparr>) else Inl (Corrupt ''route len'')) | _ \<Rightarrow> Inr a)"
  "doc_step ''ch'' v a = (case v of V_hp h \<Rightarrow> (if length h = 32 then Inr (a\<lparr>da_hashes := da_hashes a @ [h]\<rparr>) else Inl (Corrupt ''ch len'')) | _ \<Rightarrow> Inr a)"
  by (simp_all add: doc_step_def)

lemma audit_step_hash:
  "audit_step ''key'' v b = (case v of V_hp h \<Rightarrow> b\<lparr>aa_key := as_32 h\<rparr> | _ \<Rightarrow> b)"
  "audit_step ''v'' v b = (case v of V_v _ bs \<Rightarrow> b\<lparr>aa_value_len := Some (length bs)\<rparr> | _ \<Rightarrow> b)"
  "audit_step ''route'' v b = (case v of V_hp h \<Rightarrow> b\<lparr>aa_route := as_32 h\<rparr> | _ \<Rightarrow> b)"
  "audit_step ''ch'' v b = (case v of V_hp h \<Rightarrow> b\<lparr>aa_hashes := push_opt (as_32 h) (aa_hashes b)\<rparr> | _ \<Rightarrow> b)"
  by (simp_all add: audit_step_def)

lemma acc_agree_hash:
  assumes "doc_step name v a = Inr a'" and "acc_agree a b" and "name \<in> {''key'', ''v'', ''route'', ''ch''}"
  shows "acc_agree a' (audit_step name v b)"
proof -
  consider "name = ''key''" | "name = ''v''" | "name = ''route''" | "name = ''ch''" using assms(3) by blast
  then show ?thesis
  proof cases
    case 1
    then show ?thesis using assms(1,2) by (cases v) (auto simp: doc_step_hash audit_step_hash acc_agree_def as_32_def split: if_splits)
  next
    case 2
    then show ?thesis using assms(1,2) by (cases v) (auto simp: doc_step_hash audit_step_hash acc_agree_def)
  next
    case 3
    then show ?thesis using assms(1,2) by (cases v) (auto simp: doc_step_hash audit_step_hash acc_agree_def as_32_def split: if_splits)
  next
    case 4
    then show ?thesis using assms(1,2) by (cases v) (auto simp: doc_step_hash audit_step_hash acc_agree_def as_32_def push_opt_def split: if_splits)
  qed
qed

lemma acc_agree_int:
  assumes "doc_step name v a = Inr a'" and "acc_agree a b" and "name \<notin> {''key'', ''v'', ''route'', ''ch''}"
  shows "acc_agree a' (audit_step name v b)"
proof (cases "as_u64 v")
  case None
  then show ?thesis using assms by (simp add: doc_step_def audit_step_def acc_agree_def u64_or_def push_opt_def)
next
  case (Some u)
  have "a' = (if name = ''size'' then a\<lparr>da_size := Some u\<rparr>
          else if name = ''i'' then a\<lparr>da_index := Some u\<rparr>
          else if name = ''depth'' then a\<lparr>da_depth := Some u\<rparr>
          else if name = ''map'' then a\<lparr>da_map := Some u\<rparr>
          else if name = ''at'' then a\<lparr>da_lbas := da_lbas a @ [u]\<rparr>
          else if name = ''f'' then a\<lparr>da_furrows := da_furrows a @ [u]\<rparr>
          else if name = ''s'' then a\<lparr>da_run_starts := da_run_starts a @ [u]\<rparr>
          else if name = ''c'' then a\<lparr>da_run_counts := da_run_counts a @ [u]\<rparr>
          else a)" using assms(1,3) Some by (simp add: doc_step_def)
  then show ?thesis using assms(2,3) Some
    by (auto simp: audit_step_def acc_agree_def u64_or_def push_opt_def)
qed

lemma audit_step_agrees: "doc_step name v a = Inr a' \<Longrightarrow> acc_agree a b \<Longrightarrow> acc_agree a' (audit_step name v b)"
  using acc_agree_hash acc_agree_int by blast

lemma audit_loop_agrees:
  assumes "field_loop E doc_step n block ptr a = Inr a'" and "acc_agree a b"
  shows "\<exists>b'. audit_loop n E block ptr b = Inr b' \<and> acc_agree a' b'"
  using assms
proof (induction n arbitrary: ptr a b)
  case (Suc n)
  show ?case
  proof (cases "byte_at block ptr 0x64")
    case True
    then obtain name ptr1 v ptr2 a1 where p: "vsf_parse E block ptr = Some (V_d name, ptr1)" "vsf_parse E block ptr1 = Some (v, ptr2)"
      and s: "doc_step name v a = Inr a1" and l: "field_loop E doc_step n block ptr2 a1 = Inr a'"
      using Suc.prems(1) by (auto simp: bindR_eq_Inr split: option.splits VsfType.splits)
    show ?thesis using Suc.IH [OF l audit_step_agrees [OF s Suc.prems(2)]] True p by simp
  qed (use Suc.prems in auto)
qed simp

lemma take_children_placed:
  "take_children p is hs ls = concat (map (\<lambda>(slot, c). case c of Some (Committed h l) \<Rightarrow> [(slot, h, l)] | _ \<Rightarrow> [])
     (zip is (place_children p is hs ls)))"
  by (induction p "is" hs ls rule: take_children.induct) auto

lemma length_place_children [simp]: "length (place_children p is hs ls) = length is"
  by (induction p "is" hs ls rule: place_children.induct) auto

lemma take_children_committed:
  "n_children node = place_children p [0 ..< 32] hs ls \<Longrightarrow> committed_children node = take_children p [0 ..< 32] hs ls"
  by (simp add: committed_children_def take_children_placed enumerate_eq_zip)

lemma schemas_distinct:
  "distinct [SCHEMA_NODE, SCHEMA_LONE, SCHEMA_EXTENT, SCHEMA_DIRECT, SCHEMA_FURROW]"
  by (simp add: SCHEMA_NODE_def SCHEMA_LONE_def SCHEMA_EXTENT_def SCHEMA_DIRECT_def SCHEMA_FURROW_def)

lemma bindV_Inr [simp]: "bindV (Inr x) f = f x"
  by (simp add: bindV_def)

lemma bindV_eq_Inr: "bindV r f = Inr y \<longleftrightarrow> (\<exists>x. r = Inr x \<and> f x = Inr y)"
  by (cases r) (auto simp: bindV_def)

lemma need_Some [simp]: "need e (Some x) = Inr x"
  by (simp add: need_def)

lemma audit_doc_agrees:
  assumes "doc_of_acc schema a = Inr d" and "acc_agree a b"
  shows "audit_doc schema b = Inr (tract_block_of d)"
proof -
  consider (node) "schema = SCHEMA_NODE" | (lone) "schema = SCHEMA_LONE" | (ext) "schema = SCHEMA_EXTENT"
    | (direct) "schema = SCHEMA_DIRECT" | (furrow) "schema = SCHEMA_FURROW"
    using assms(1) by (auto simp: doc_of_acc_def split: if_splits)
  then show ?thesis
  proof cases
    case node
    then show ?thesis using assms schemas_distinct
      by (auto simp: doc_of_acc_def audit_doc_def acc_agree_def tract_block_of_def bindR_eq_Inr Let_def MAX_DEPTH_def
          take_children_committed split: if_splits)
  qed (use assms schemas_distinct in \<open>auto simp: doc_of_acc_def audit_doc_def acc_agree_def tract_block_of_def bindR_eq_Inr split: if_splits\<close>)
qed

lemma sealed_hp_Some:
  "sealed_hp E b = Some seal \<longleftrightarrow> take 4 b = MAGIC \<and> (\<exists>ptr. vsf_parse E b 4 = Some (V_hp seal, ptr)
     \<and> byte_at b ptr 0x3E \<and> blake3 E (drop (ptr + 1) b) = seal \<and> length seal = 32)"
  by (auto simp: sealed_hp_def split: option.splits VsfType.splits if_splits)

lemma decode_doc_Inr:
  assumes "vsf_parse E b 4 = Some (V_hp seal, ptr)"
  shows "decode_doc E b = Inr d \<longleftrightarrow> (\<exists>schema ptr2 a. vsf_parse E b (ptr + 1) = Some (V_d schema, ptr2)
     \<and> field_loop E doc_step (length b + 1) b ptr2 doc_acc0 = Inr a \<and> doc_of_acc schema a = Inr d)"
proof (cases "vsf_parse E b (ptr + 1)")
  case (Some r)
  obtain v ptr2 where r: "r = (v, ptr2)" by (rule prod.exhaust)
  show ?thesis using assms Some r by (cases v) (simp_all add: decode_doc_def decode_fields_def bindR_eq_Inr)
qed (use assms in \<open>simp add: decode_doc_def\<close>)

lemma decode_tract_agrees:
  assumes "sealed_hp E b = Some seal" and "decode_doc E b = Inr d"
  shows "decode_tract E b = Inr (seal, tract_block_of d)"
proof -
  obtain ptr where p: "take 4 b = MAGIC" "vsf_parse E b 4 = Some (V_hp seal, ptr)" "byte_at b ptr 0x3E"
    "blake3 E (drop (ptr + 1) b) = seal" "length seal = 32" using assms(1) by (auto simp: sealed_hp_Some)
  obtain schema ptr2 a where q: "vsf_parse E b (ptr + 1) = Some (V_d schema, ptr2)"
    "field_loop E doc_step (length b + 1) b ptr2 doc_acc0 = Inr a" "doc_of_acc schema a = Inr d"
    using assms(2) decode_doc_Inr [OF p(2)] by blast
  obtain a' where a': "audit_loop (length b + 1) E b ptr2 audit_acc0 = Inr a'" "acc_agree a a'"
    using audit_loop_agrees [OF q(2) acc_agree_0] by blast
  show ?thesis using p q(1) a'(1) audit_doc_agrees [OF q(3) a'(2)] by (simp add: decode_tract_def)
qed

lemma decode_tract_sealed: "decode_tract E b = Inr (seal, t) \<Longrightarrow> sealed_hp E b = Some seal"
  by (auto simp: decode_tract_def sealed_hp_Some bindV_eq_Inr split: option.splits VsfType.splits if_splits)

section \<open>The copied arithmetic\<close>

lemma audit_chunk_eq: "audit_chunk key depth = chunk key depth"
  by (simp add: audit_chunk_def chunk_def chunk_word_def key_window_def Let_def)

lemma key_with_chunk_eq: "depth < 52 \<Longrightarrow> key_with_chunk base depth slot = route_with_chunk base depth slot"
  by (simp add: key_with_chunk_def route_with_chunk_def key_window_def Let_def)

lemma audit_capacity_eq: "audit_furrow_capacity E = furrow_capacity E"
  by (simp add: audit_furrow_capacity_def furrow_capacity_def body_start_def)

lemma count_runs_from_eq: "count_runs_from t runs len = Inr n \<longleftrightarrow> check_runs_from t runs len = Inr n"
  by (induction t runs len rule: count_runs_from.induct) auto

lemma count_runs_eq: "count_runs runs len = Inr n \<longleftrightarrow> check_runs runs len = Inr n"
  by (simp add: count_runs_def check_runs_def count_runs_from_eq)

lemma leaf_furrows_extent: "leaf_furrows E len (BExtent key sz runs) = (ps, None) \<longleftrightarrow> expand_runs E runs sz len = Inr ps"
proof (cases "count_runs runs len")
  case (Inl e)
  then obtain e' where "check_runs runs len = Inl e'" using count_runs_eq by (metis sum.exhaust Inl_Inr_False)
  then show ?thesis using Inl by (simp add: leaf_furrows_def expand_runs_def)
next
  case (Inr n)
  then have "check_runs runs len = Inr n" by (simp add: count_runs_eq)
  then show ?thesis using Inr by (auto simp: leaf_furrows_def expand_runs_def audit_capacity_eq)
qed

end
