(* ===== verification/Inspect_Props.thy ===== *)
theory Inspect_Props
  imports Inspect_Decode Ring_Props
begin

text \<open>
  The walks of the inspector: they only read, they visit each block once, and the exhaustive head is
  the newest entry of the ring.
\<close>

section \<open>Operations that only read a device\<close>

definition same_dev :: "filedev \<Rightarrow> filedev \<Rightarrow> bool" where
  "same_dev d d' \<longleftrightarrow> fd_file d' = fd_file d \<and> fd_blocks d' = fd_blocks d \<and> (healthy d \<longrightarrow> d' = d)"

lemma same_dev_refl [simp]: "same_dev d d"
  by (simp add: same_dev_def)

lemma same_dev_trans: "same_dev a b \<Longrightarrow> same_dev b c \<Longrightarrow> same_dev a c"
  by (auto simp: same_dev_def)

lemma same_dev_content: "same_dev d d' \<Longrightarrow> dev_content d' = dev_content d"
  by (simp add: same_dev_def dev_content_def fun_eq_iff)

definition reading :: "(filedev, 'a) op \<Rightarrow> bool" where
  "reading m \<longleftrightarrow> (\<forall>d r d'. m d = (r, d') \<longrightarrow> same_dev d d')"

lemma readingD: "reading m \<Longrightarrow> m d = (r, d') \<Longrightarrow> same_dev d d'"
  by (simp add: reading_def)

lemma reading_pure: "reading (retE x)" "reading (raiseE e)" "reading (liftE q)" "reading (getE g)"
  by (simp_all add: reading_def run_simps)

lemma reading_dev: "reading (dev_read l)"
  using dev_read_inv dev_read_still by (fastforce simp: reading_def same_dev_def)

lemma reading_bind:
  assumes "reading m" and "\<And>x. reading (f x)"
  shows "reading (bindE m f)"
  unfolding reading_def
proof (intro allI impI)
  fix d r d' assume "bindE m f d = (r, d')"
  then show "same_dev d d'"
    by (cases rule: bindE_cases) (use assms in \<open>auto dest: readingD intro: same_dev_trans\<close>)
qed

lemma reading_try: "reading m \<Longrightarrow> reading (tryE m)"
  by (auto simp: reading_def tryE_def split: prod.splits)

lemma reading_map: "(\<And>x. x \<in> set xs \<Longrightarrow> reading (f x)) \<Longrightarrow> reading (mapE f xs)"
  by (induction xs) (auto intro!: reading_bind reading_pure)

lemma reading_if: "reading m \<Longrightarrow> reading n \<Longrightarrow> reading (if c then m else n)"
  by simp

lemma reading_cls: "(\<And>e. reading (f e)) \<Longrightarrow> reading m \<Longrightarrow> reading n \<Longrightarrow> reading (case c of Valid e \<Rightarrow> f e | Empty \<Rightarrow> m | ClsCorrupt \<Rightarrow> n)"
  by (cases c) simp_all

lemma reading_opt: "reading m \<Longrightarrow> (\<And>x. reading (f x)) \<Longrightarrow> reading (case c of None \<Rightarrow> m | Some x \<Rightarrow> f x)"
  by (cases c) simp_all

lemma reading_sum: "(\<And>e. reading (f e)) \<Longrightarrow> (\<And>x. reading (g x)) \<Longrightarrow> reading (case c of Inl e \<Rightarrow> f e | Inr x \<Rightarrow> g x)"
  by (cases c) simp_all

lemma reading_state: "(\<And>d. reading (m d)) \<Longrightarrow> reading (\<lambda>d. m d d)"
  by (simp add: reading_def)

lemmas reading_intros = reading_pure reading_dev reading_bind reading_try reading_map reading_if reading_cls reading_opt reading_sum

lemma reading_discover_slots: "reading (discover_slots E slots)"
  by (induction slots) (auto intro!: reading_intros)

lemma reading_discover: "reading (discover_ring_log2 E)"
  unfolding discover_ring_log2_def by (rule reading_state) (rule reading_discover_slots)

lemma reading_classify_slots: "reading (classify_slots E r n)"
  unfolding classify_slots_def by (intro reading_intros)

lemma reading_chain_from: "reading (walk_chain_from E r g prev)"
proof (induction g arbitrary: prev)
  case (Suc g)
  show ?case unfolding walk_chain_from.simps Let_def by (intro reading_intros Suc.IH)
qed (simp add: reading_pure)

lemma reading_chain: "reading (walk_chain E r head)"
  by (auto simp: walk_chain_def reading_chain_from reading_pure split: option.splits)

lemma reading_orphans: "reading (scan_orphans E base tb R)"
  unfolding scan_orphans_def Let_def by (rule reading_state) (intro reading_intros)

section \<open>The tree walk reads, and counts each block once\<close>

text \<open>From \<open>s\<close> to \<open>s'\<close> only reads; the reached positions stay distinct and in the tract; nodes and leaves
  grow by at most what the reached positions do, and \<open>j\<close> more.\<close>

definition audits :: "nat \<Rightarrow> nat \<Rightarrow> insp \<Rightarrow> insp \<Rightarrow> bool" where
  "audits j base s s' \<longleftrightarrow> same_dev (ip_dev s) (ip_dev s')
     \<and> (distinct (ip_reachable s) \<longrightarrow> distinct (ip_reachable s'))
     \<and> (set (ip_reachable s) \<subseteq> {..< fd_blocks (ip_dev s) - base} \<longrightarrow> set (ip_reachable s') \<subseteq> {..< fd_blocks (ip_dev s) - base})
     \<and> ip_nodes s' + ip_leaves s' + length (ip_reachable s) \<le> ip_nodes s + ip_leaves s + length (ip_reachable s') + j"

lemma audits_refl [simp]: "audits j base s s"
  by (simp add: audits_def)

lemma audits_trans: "audits i base a b \<Longrightarrow> audits j base b c \<Longrightarrow> audits (i + j) base a c"
  by (auto simp: audits_def same_dev_def)

definition auditing :: "nat \<Rightarrow> nat \<Rightarrow> (insp, 'a) op \<Rightarrow> bool" where
  "auditing j base m \<longleftrightarrow> (\<forall>s r s'. m s = (r, s') \<longrightarrow> audits j base s s')"

lemma auditingD: "auditing j base m \<Longrightarrow> m s = (r, s') \<Longrightarrow> audits j base s s'"
  by (simp add: auditing_def)

lemma auditing_pure: "auditing 0 base (retE x)" "auditing 0 base (raiseE e)" "auditing 0 base (getE g)"
  by (simp_all add: auditing_def run_simps)

lemma audits_mono: "audits i base s s' \<Longrightarrow> i \<le> j \<Longrightarrow> audits j base s s'"
  by (auto simp: audits_def)

lemma auditing_mono: "auditing i base m \<Longrightarrow> i \<le> j \<Longrightarrow> auditing j base m"
  by (auto simp: auditing_def intro: audits_mono)

lemma auditing_bind:
  assumes "auditing i base m" and "\<And>x. auditing j base (f x)" and "i + j \<le> k"
  shows "auditing k base (bindE m f)"
  unfolding auditing_def
proof (intro allI impI)
  fix s r s' assume "bindE m f s = (r, s')"
  then show "audits k base s s'"
  proof (cases rule: bindE_cases)
    case (err e)
    then show ?thesis using audits_mono [OF auditingD [OF assms(1) err(1)]] assms(3) by simp
  next
    case (ok x t)
    show ?thesis using audits_trans [OF auditingD [OF assms(1) ok(1)] auditingD [OF assms(2) ok(2)]] assms(3) by (rule audits_mono)
  qed
qed

lemma auditing_for: "(\<And>x. x \<in> set xs \<Longrightarrow> auditing 0 base (f x)) \<Longrightarrow> auditing 0 base (forE xs f)"
proof (induction xs)
  case (Cons x xs)
  show ?case unfolding forE.simps by (rule auditing_bind [where i = 0 and j = 0]) (use Cons in auto)
qed (simp add: auditing_pure)

lemma auditing_dev: "auditing 0 base (on_dev (dev_read l))"
  using readingD [OF reading_dev] by (fastforce simp: auditing_def audits_def on_dev_def split: prod.splits)

lemma auditing_push: "auditing 0 base (push_node indent lba doc a b note)" "auditing 0 base (push_bad indent lba msg)"
  by (simp_all add: auditing_def audits_def push_node_def push_bad_def run_simps)

lemma auditing_count: "auditing 1 base (modE (ip_nodes_update Suc))" "auditing 1 base (modE (ip_leaves_update Suc))"
    "auditing 0 base (modE (ip_furrows_update Suc))"
  by (simp_all add: auditing_def audits_def run_simps)

lemma audits_reach: "\<not> out_of_range base lba (ip_dev s) \<Longrightarrow> audits 0 base s (ip_reachable_update (List.insert lba) s)"
  by (auto simp: audits_def out_of_range_def List.insert_def)

lemma auditing_furrow: "auditing 0 base (walk_furrow E base lba owner i indent)"
  unfolding auditing_def
proof (intro allI impI)
  fix s r s' assume run: "walk_furrow E base lba owner i indent s = (r, s')"
  let ?s = "ip_reachable_update (List.insert lba) s"
  let ?rest = "bindE (on_dev (dev_read (base + lba))) (\<lambda>buf. bindE (modE (ip_furrows_update Suc)) (\<lambda>_.
     case decode_tract E buf of
       Inl reason \<Rightarrow> push_node indent lba (BFurrow owner i 0) False False (Some reason)
     | Inr (_, doc) \<Rightarrow>
         (let ok = (case doc of BFurrow key index _ \<Rightarrow> key = owner \<and> index = i | _ \<Rightarrow> False)
          in push_node indent lba doc True ok (if ok then None else Some ''furrow owner/index mismatch''))))"
  show "audits 0 base s s'"
  proof (cases "out_of_range base lba (ip_dev s)")
    case False
    then have r: "?rest ?s = (r, s')" using run by (simp add: walk_furrow_def bindE_ok [OF modE_run])
    have rest: "auditing 0 base ?rest"
      by (intro auditing_bind [where i = 0 and j = 0] auditing_dev auditing_count)
        (auto simp: Let_def auditing_push split: sum.split prod.split)
    show ?thesis using audits_trans [OF audits_reach [OF False] auditingD [OF rest r]] by simp
  qed (use run in \<open>simp add: walk_furrow_def\<close>)
qed

lemma auditing_leaf: "auditing 1 base (walk_leaf E base lba key doc sok note indent depth path)"
  unfolding walk_leaf_def
  by (rule auditing_bind [where i = 1 and j = 0, OF auditing_count(2)])
    (auto intro!: auditing_bind [where i = 0 and j = 0 and k = 0] auditing_pure auditing_push auditing_for auditing_furrow
      split: prod.split)

text \<open>What the walk does with the block it read, with \<open>f\<close> for the descent into a child.\<close>

definition tree_found :: "(nat \<Rightarrow> hash \<Rightarrow> nat \<Rightarrow> (insp, unit) op) \<Rightarrow> vsf_env \<Rightarrow> nat \<Rightarrow> nat \<Rightarrow> hash \<Rightarrow> nat \<Rightarrow> nat \<Rightarrow> hash \<Rightarrow> block \<Rightarrow> (insp, unit) op" where
  "tree_found f E base lba expected indent depth path buf = (case decode_tract E buf of
     Inl reason \<Rightarrow> push_bad indent lba reason
   | Inr (seal, doc) \<Rightarrow>
       (let seal_ok = (seal = expected); note = (if seal_ok then None else Some ''block hash != pointer hash'') in
        case doc of
          BNode d route children \<Rightarrow>
            bindE (modE (ip_nodes_update Suc)) (\<lambda>_.
            bindE (push_node indent lba doc seal_ok (d = depth) note) (\<lambda>_.
            forE (filter (\<lambda>_. depth < 52 \<and> seal_ok) children) (\<lambda>(slot, h, child_lba). f slot h child_lba)))
        | BLone key _ \<Rightarrow> walk_leaf E base lba key doc seal_ok note indent depth path
        | BDirect key _ _ \<Rightarrow> walk_leaf E base lba key doc seal_ok note indent depth path
        | BExtent key _ _ \<Rightarrow> walk_leaf E base lba key doc seal_ok note indent depth path
        | BStale \<Rightarrow> raiseE (Panic ''Stale is synthesized above, never decoded'')
        | BFurrow _ _ _ \<Rightarrow> push_node indent lba doc seal_ok False (Some ''furrow block in index position'')))"

lemma walk_tree_eq:
  "walk_tree E base lba expected indent depth path =
     bindE (getE (\<lambda>s. out_of_range base lba (ip_dev s))) (\<lambda>far.
     if far then push_bad indent lba ''lba out of device range''
     else
       bindE (on_dev (dev_read (base + lba))) (\<lambda>buf.
       if buf = ZERO_BLOCK then push_node indent lba BStale True True (Some ''stale pointer'')
       else
         bindE (getE (\<lambda>s. lba \<in> set (ip_reachable s))) (\<lambda>seen.
         if seen then push_bad indent lba ''cycle: already reached''
         else
           bindE (modE (ip_reachable_update (List.insert lba))) (\<lambda>_.
           tree_found (\<lambda>slot h child. walk_tree E base child h (indent + 1) (depth + 1) (key_with_chunk path depth slot))
             E base lba expected indent depth path buf))))"
  unfolding walk_tree.simps [of E base lba] tree_found_def by (rule refl)

lemma auditing_node:
  assumes "\<And>slot h l. depth < 52 \<Longrightarrow> auditing 0 base (f slot h l)"
  shows "auditing 1 base (bindE (modE (ip_nodes_update Suc)) (\<lambda>_. bindE (push_node indent lba doc c x nt) (\<lambda>_.
     forE (filter (\<lambda>_. depth < (52 :: nat) \<and> c) children) (\<lambda>(slot, h, l). f slot h l))))"
proof -
  have sub: "auditing 0 base (forE (filter (\<lambda>_. depth < 52 \<and> c) children) (\<lambda>(slot, h, l). f slot h l))"
    by (rule auditing_for) (use assms in \<open>auto split: prod.split\<close>)
  show ?thesis
    by (rule auditing_bind [where i = 1 and j = 0, OF auditing_count(1) auditing_bind [OF auditing_push(1) sub]]) simp_all
qed

lemma auditing_found:
  assumes "\<And>slot h l. depth < 52 \<Longrightarrow> auditing 0 base (f slot h l)"
  shows "auditing 1 base (tree_found f E base lba expected indent depth path buf)"
proof (cases "decode_tract E buf")
  case (Inr p)
  obtain seal doc where p: "p = (seal, doc)" by (rule prod.exhaust)
  note run = tree_found_def Inr p sum.case prod.case Let_def
  show ?thesis
  proof (cases doc)
    case (BNode d route children)
    show ?thesis unfolding run BNode TractBlock.case by (rule auditing_node) (rule assms)
  qed (simp_all add: run auditing_leaf [simplified] auditing_mono [OF auditing_push(1)] auditing_mono [OF auditing_pure(2)])
qed (simp add: tree_found_def auditing_mono [OF auditing_push(2)])

text \<open>A position that is reached for the first time pays for the block that is counted there.\<close>

lemma audits_visit:
  assumes "lba \<notin> set (ip_reachable s)" and "\<not> out_of_range base lba (ip_dev s)" and "audits 1 base (ip_reachable_update (List.insert lba) s) s'"
  shows "audits 0 base s s'"
  using assms by (simp add: audits_def out_of_range_def List.insert_def)

lemma auditing_tree: "auditing 0 base (walk_tree E base lba expected indent depth path)"
proof (induction "52 - depth" arbitrary: lba expected indent depth path rule: less_induct)
  case less
  show ?case unfolding auditing_def
  proof (intro allI impI)
    fix s r s' assume run: "walk_tree E base lba expected indent depth path s = (r, s')"
    let ?k = "tree_found (\<lambda>slot h child. walk_tree E base child h (indent + 1) (depth + 1) (key_with_chunk path depth slot))
       E base lba expected indent depth path"
    have k: "auditing 1 base (?k buf)" for buf by (rule auditing_found) (rule less, simp)
    obtain q t where t: "on_dev (dev_read (base + lba)) s = (q, t)" by (rule prod.exhaust)
    have st: "audits 0 base s t" by (rule auditingD [OF auditing_dev t])
    then have far: "out_of_range base lba (ip_dev t) = out_of_range base lba (ip_dev s)"
      by (simp add: audits_def same_dev_def out_of_range_def)
    consider (far) "out_of_range base lba (ip_dev s)" | (err) e where "\<not> out_of_range base lba (ip_dev s)" "q = Inl e"
      | (zero) "\<not> out_of_range base lba (ip_dev s)" "q = Inr ZERO_BLOCK"
      | (seen) buf where "\<not> out_of_range base lba (ip_dev s)" "q = Inr buf" "buf \<noteq> ZERO_BLOCK" "lba \<in> set (ip_reachable t)"
      | (new) buf where "\<not> out_of_range base lba (ip_dev s)" "q = Inr buf" "buf \<noteq> ZERO_BLOCK" "lba \<notin> set (ip_reachable t)"
      by (metis sum.exhaust)
    then show "audits 0 base s s'"
    proof cases
      case far
      then have "push_bad indent lba ''lba out of device range'' s = (r, s')" using run by (simp add: walk_tree_eq bindE_ok [OF getE_run])
      then show ?thesis by (rule auditingD [OF auditing_push(2)])
    next
      case err
      then show ?thesis using run t st by (simp add: walk_tree_eq bindE_ok [OF getE_run] bindE_err)
    next
      case zero
      then have "push_node indent lba BStale True True (Some ''stale pointer'') t = (r, s')"
        using run t by (simp add: walk_tree_eq bindE_ok [OF getE_run] bindE_ok)
      then show ?thesis using audits_trans [OF st auditingD [OF auditing_push(1)]] by simp
    next
      case seen
      then have "push_bad indent lba ''cycle: already reached'' t = (r, s')"
        using run t by (simp add: walk_tree_eq bindE_ok [OF getE_run] bindE_ok)
      then show ?thesis using audits_trans [OF st auditingD [OF auditing_push(2)]] by simp
    next
      case new
      then have "?k buf (ip_reachable_update (List.insert lba) t) = (r, s')"
        using run t by (simp add: walk_tree_eq bindE_ok [OF getE_run] bindE_ok [OF modE_run] bindE_ok)
      then have "audits 0 base t s'" using audits_visit [OF new(4)] far new(1) auditingD [OF k] by simp
      then show ?thesis using audits_trans [OF st] by simp
    qed
  qed
qed

section \<open>The whole inspection\<close>

lemma reading_tree: "reading (inspect_tree E b base head)"
  unfolding reading_def
proof (intro allI impI)
  fix d r d' assume run: "inspect_tree E b base head d = (r, d')"
  show "same_dev d d'"
  proof (cases "if b then head else None")
    case (Some p)
    obtain k h where p: "p = (k, h)" by (rule prod.exhaust)
    obtain q t where t: "walk_tree E base (se_hamt_lba h) (se_hamt_hash h) 0 0 (replicate 32 0) (insp_begin d) = (q, t)" by (rule prod.exhaust)
    have "same_dev d (ip_dev t)" using auditingD [OF auditing_tree t] by (simp add: audits_def insp_begin_def)
    then show ?thesis using run Some p t by (auto simp: inspect_tree_def split: if_splits sum.splits)
  qed (use run in \<open>simp add: inspect_tree_def\<close>)
qed

lemma reading_inspect: "reading (inspect E opts)"
  unfolding inspect_def Let_def
  by (intro reading_bind reading_pure reading_discover reading_classify_slots reading_chain reading_tree reading_if reading_orphans)

text \<open>The stages of an inspection that returned.\<close>

lemma inspect_parts:
  assumes "inspect E opts d = (Inr rep, d')"
  obtains found d1 slots d2 chain d3 t d4 where "discover_ring_log2 E d = (Inr found, d1)"
    "ir_ring_log2 rep = (case found of Some r \<Rightarrow> r | None \<Rightarrow> HOST_RING_LOG2)"
    "classify_slots E (ir_ring_log2 rep) (min (2 ^ ir_ring_log2 rep) (fd_blocks d)) d1 = (Inr slots, d2)"
    "walk_chain E (ir_ring_log2 rep) (newest_slot slots) d2 = (Inr chain, d3)"
    "inspect_tree E (io_show_tree opts) (2 ^ ir_ring_log2 rep) (newest_slot slots) d3 = (Inr t, d4)"
    "ir_head rep = newest_slot slots" "ir_tract_base rep = 2 ^ ir_ring_log2 rep" "ir_tree rep = ip_out t"
    "ir_reachable_nodes rep = ip_nodes t" "ir_reachable_leaves rep = ip_leaves t" "ir_reachable_blocks rep = length (ip_reachable t)"
    "ir_checks rep = build_checks slots (ir_ring_log2 rep) (newest_slot slots) chain (ip_out t) (length (ip_reachable t))"
  using assms unfolding inspect_def Let_def
  by (elim bindE_InrE) (auto simp: run_simps elim!: bindE_InrE)

lemma inspect_tree_counts:
  assumes "inspect_tree E b base head d = (Inr t, d')"
  shows "distinct (ip_reachable t) \<and> set (ip_reachable t) \<subseteq> {..< fd_blocks d - base} \<and> ip_nodes t + ip_leaves t \<le> length (ip_reachable t)"
proof (cases "if b then head else None")
  case (Some p)
  obtain k h where p: "p = (k, h)" by (rule prod.exhaust)
  obtain q u where u: "walk_tree E base (se_hamt_lba h) (se_hamt_hash h) 0 0 (replicate 32 0) (insp_begin d) = (q, u)" by (rule prod.exhaust)
  show ?thesis using assms Some p u auditingD [OF auditing_tree u]
    by (auto simp: inspect_tree_def audits_def insp_begin_def split: if_splits sum.splits)
qed (use assms in \<open>auto simp: inspect_tree_def insp_begin_def\<close>)

section \<open>The head\<close>

lemma classify_slots_run:
  assumes "classify_slots E r n d = (Inr slots, d')"
  shows "slots = map (\<lambda>k. (k, slot_kind (classify E (dev_content d k) k (Some r)))) [0 ..< n]"
proof (rule mapE_ok [where P = "same_dev d", OF assms [unfolded classify_slots_def] same_dev_refl])
  fix k t q t' assume t: "same_dev d t"
  let ?m = "bindE (dev_read k) (\<lambda>buf. retE (k, slot_kind (classify E buf k (Some r))))"
  have "reading ?m" by (intro reading_intros)
  then show "?m t = (q, t') \<Longrightarrow> same_dev d t'" using t by (auto dest: readingD intro: same_dev_trans)
  show "?m t = (Inr y, t') \<Longrightarrow> y = (k, slot_kind (classify E (dev_content d k) k (Some r)))" for y
    using same_dev_content [OF t] by (auto elim!: bindE_InrE simp: run_simps dest!: dev_read_ok)
qed

lemma newest_slot_snoc:
  "newest_slot (xs @ [(s, k)]) = (case k of
     SlotOk e \<Rightarrow> (case newest_slot xs of Some (_, b) \<Rightarrow> (if se_gen b \<le> se_gen e then Some (s, e) else newest_slot xs) | None \<Rightarrow> Some (s, e))
   | _ \<Rightarrow> newest_slot xs)"
  by (simp add: newest_slot_def split: SlotKind.split option.split)

lemma newest_slot_newest:
  "newest_in cls 0 n (newest_slot (map (\<lambda>k. (k, slot_kind (cls k))) [0 ..< Suc n]))"
proof (induction n)
  case 0
  show ?case by (cases "cls 0") (auto simp: newest_slot_def slot_kind_def newest_in_def)
next
  case (Suc n)
  let ?x = "newest_slot (map (\<lambda>k. (k, slot_kind (cls k))) [0 ..< Suc n])"
  have s: "newest_slot (map (\<lambda>k. (k, slot_kind (cls k))) [0 ..< Suc (Suc n)]) = (case cls (Suc n) of
     Valid e \<Rightarrow> (case ?x of Some (_, b) \<Rightarrow> (if se_gen b \<le> se_gen e then Some (Suc n, e) else ?x) | None \<Rightarrow> Some (Suc n, e))
   | _ \<Rightarrow> ?x)" unfolding upt_Suc_append [OF le0, of "Suc n"] map_append list.map newest_slot_snoc
    by (simp add: slot_kind_def split: Classified.split)
  show ?case using Suc unfolding s
    by (auto simp: newest_in_def le_Suc_eq split: Classified.split option.split prod.split) (fastforce+)?
qed

lemma inspect_head:
  assumes "inspect E opts d = (Inr rep, d')" and "ir_ring_log2 rep = rl" and "2 ^ rl \<le> fd_blocks d"
  shows "newest_in (\<lambda>k. classify E (dev_content d k) k (Some rl)) 0 (2 ^ rl - 1) (ir_head rep)"
proof -
  obtain found d1 slots d2 where f: "discover_ring_log2 E d = (Inr found, d1)"
    and c: "classify_slots E rl (min (2 ^ rl) (fd_blocks d)) d1 = (Inr slots, d2)" and h: "ir_head rep = newest_slot slots"
    using inspect_parts [OF assms(1)] assms(2) by metis
  have dc: "dev_content d1 = dev_content d" by (rule same_dev_content [OF readingD [OF reading_discover f]])
  have n: "min (2 ^ rl) (fd_blocks d) = Suc (2 ^ rl - 1)" using assms(3) by simp
  show ?thesis unfolding h classify_slots_run [OF c] n dc by (rule newest_slot_newest)
qed

end
