(* ===== verification/Inspect_Total.thy ===== *)
theory Inspect_Total
  imports Inspect_Props
begin

text \<open>
  An inspection of a readable device returns, whatever its blocks hold: the walk of a corrupt or cyclic
  index ends, and every decoded spine entry can be encoded again for the chain. The chain walk of a
  full ring ends at the lap horizon.
\<close>

section \<open>The inspection returns\<close>

text \<open>Times come off a block as 64-bit integers.\<close>

definition clock_typed :: "vsf_env \<Rightarrow> bool" where
  "clock_typed E \<longleftrightarrow> (\<forall>b p t q. vsf_parse E b p = Some (V_e6 t, q) \<longrightarrow> - (2 ^ 63) \<le> t \<and> t < 2 ^ 63)"

definition spine_acc_typed :: "spine_acc \<Rightarrow> bool" where
  "spine_acc_typed a \<longleftrightarrow> pred_option (\<lambda>x. x < U64) (sa_gen a) \<and> pred_option (\<lambda>h. length h = 32) (sa_prev a)
     \<and> pred_option (\<lambda>x. x < 256) (sa_ring a) \<and> pred_option (\<lambda>x. x < U64) (sa_tract a) \<and> pred_option (\<lambda>h. length h = 32) (sa_hamt a)
     \<and> pred_option (\<lambda>x. x < U64) (sa_hamtat a) \<and> pred_option (\<lambda>x. x < U64) (sa_plow a) \<and> pred_option (\<lambda>x. x < U64) (sa_live a)
     \<and> pred_option (\<lambda>t. - (2 ^ 63) \<le> t \<and> t < 2 ^ 63) (sa_time a) \<and> pred_option (\<lambda>x. x < U64) (sa_reap a)"

lemma as_u64_typed: "pred_option (\<lambda>x. x < U64) (as_u64 v)" "pred_option (\<lambda>x. x < 256) (map_option (\<lambda>x. x mod 256) (as_u64 v))"
  using as_u64_less [of v] by (cases "as_u64 v"; simp)+

lemma spine_step_result:
  assumes "spine_step n v b = Inr c"
  shows "c \<in> {b, b\<lparr>sa_gen := as_u64 v\<rparr>, b\<lparr>sa_ring := map_option (\<lambda>x. x mod 256) (as_u64 v)\<rparr>, b\<lparr>sa_tract := as_u64 v\<rparr>,
      b\<lparr>sa_hamtat := as_u64 v\<rparr>, b\<lparr>sa_plow := as_u64 v\<rparr>, b\<lparr>sa_reap := as_u64 v\<rparr>, b\<lparr>sa_live := as_u64 v\<rparr>}
    \<or> (\<exists>h. length h = 32 \<and> c \<in> {b\<lparr>sa_prev := Some h\<rparr>, b\<lparr>sa_hamt := Some h\<rparr>}) \<or> (\<exists>t. v = V_e6 t \<and> c = b\<lparr>sa_time := Some t\<rparr>)"
  using assms by (simp add: spine_step_def to32_def bindR_eq_Inr split: if_splits VsfType.splits; blast?)

lemma spine_step_typed:
  assumes "clock_typed E" and "spine_acc_typed b" and "vsf_parse E block p = Some (v, q)" and "spine_step n v b = Inr c"
  shows "spine_acc_typed c"
proof -
  have "- (2 ^ 63) \<le> t \<and> t < 2 ^ 63" if "v = V_e6 t" for t using assms(1,3) that unfolding clock_typed_def by blast
  then show ?thesis using spine_step_result [OF assms(4)] assms(2) as_u64_typed [of v]
    unfolding spine_acc_typed_def by (elim disjE exE conjE insertE emptyE) simp_all
qed

lemma spine_decode_wf:
  assumes "clock_typed E" and "spine_decode E block = Inr e"
  shows "spine_wf e"
proof -
  obtain ptr a f where a: "field_loop E spine_step (length block + 1) block ptr spine_acc0 = Inr a"
    and f: "spine_of_acc a = Inr f" "spine_check f = Inr e" using assms(2) by (auto simp: spine_decode_def decode_fields_def bindR_eq_Inr)
  have e: "spine_of_acc a = Inr e" using f by (simp add: spine_check_def split: if_splits)
  have "spine_acc_typed a"
    by (rule field_loop_invariant [where P = spine_acc_typed, OF a _ spine_step_typed [OF assms(1)]])
      (simp add: spine_acc_typed_def spine_acc0_def)
  then show ?thesis using e by (cases "sa_reap a") (auto simp: spine_of_acc_def bindR_eq_Inr spine_acc_typed_def spine_wf_def)
qed

definition returning :: "(insp, 'a) op \<Rightarrow> bool" where
  "returning m \<longleftrightarrow> (\<forall>s. wf_dev (ip_dev s) \<longrightarrow> healthy (ip_dev s) \<longrightarrow> (\<exists>x s'. m s = (Inr x, s') \<and> ip_dev s' = ip_dev s))"

lemma returningE:
  assumes "returning m" and "wf_dev (ip_dev s)" and "healthy (ip_dev s)"
  obtains x s' where "m s = (Inr x, s')" "ip_dev s' = ip_dev s"
  using assms by (auto simp: returning_def)

lemma returning_pure: "returning (retE x)" "returning (getE g)" "returning (push_node indent lba doc a b nt)" "returning (push_bad indent lba msg)"
    "returning (modE (ip_nodes_update Suc))" "returning (modE (ip_leaves_update Suc))" "returning (modE (ip_furrows_update Suc))"
    "returning (modE (ip_reachable_update f))"
  by (simp_all add: returning_def run_simps push_node_def push_bad_def)

lemma returning_bind:
  assumes "returning m" and "\<And>x. returning (f x)"
  shows "returning (bindE m f)"
  unfolding returning_def
proof (intro allI impI)
  fix s :: insp assume s: "wf_dev (ip_dev s)" "healthy (ip_dev s)"
  obtain x t where t: "m s = (Inr x, t)" "ip_dev t = ip_dev s" by (rule returningE [OF assms(1) s])
  then obtain y u where "f x t = (Inr y, u)" "ip_dev u = ip_dev s" using returningE [OF assms(2), of t] s by metis
  then show "\<exists>x s'. bindE m f s = (Inr x, s') \<and> ip_dev s' = ip_dev s" using t by (auto simp: bindE_ok)
qed

lemma returning_for: "(\<And>x. x \<in> set xs \<Longrightarrow> returning (f x)) \<Longrightarrow> returning (forE xs f)"
  by (induction xs) (auto intro!: returning_bind returning_pure)

lemma dev_read_in_range:
  assumes "wf_dev (ip_dev s)" and "healthy (ip_dev s)" and "\<not> out_of_range base lba (ip_dev s)"
  shows "on_dev (dev_read (base + lba)) s = (Inr (dev_content (ip_dev s) (base + lba)), s)"
proof -
  have "base + lba < fd_blocks (ip_dev s)" using assms(3) by (auto simp: out_of_range_def)
  then show ?thesis using dev_read_healthy [OF assms(1,2)] by (simp add: on_dev_def)
qed

lemma returning_furrow: "returning (walk_furrow E base lba owner i indent)"
  unfolding returning_def
proof (intro allI impI)
  fix s :: insp assume s: "wf_dev (ip_dev s)" "healthy (ip_dev s)"
  let ?s = "ip_furrows_update Suc (ip_reachable_update (List.insert lba) s)"
  show "\<exists>x s'. walk_furrow E base lba owner i indent s = (Inr x, s') \<and> ip_dev s' = ip_dev s"
  proof (cases "out_of_range base lba (ip_dev s)")
    case False
    have rd: "on_dev (dev_read (base + lba)) (ip_reachable_update (List.insert lba) s) = (Inr (dev_content (ip_dev s) (base + lba)), ip_reachable_update (List.insert lba) s)"
      using dev_read_in_range [of "ip_reachable_update (List.insert lba) s"] s False by simp
    show ?thesis using False
      by (auto simp: walk_furrow_def bindE_ok [OF modE_run] bindE_ok [where m = "on_dev (dev_read (base + lba))", OF rd] push_node_def run_simps Let_def split: sum.split)
  qed (simp add: walk_furrow_def)
qed

lemma returning_leaf: "returning (walk_leaf E base lba key doc sok nt indent depth path)"
  unfolding walk_leaf_def
  by (intro returning_bind returning_pure) (auto intro!: returning_bind returning_pure returning_for returning_furrow split: prod.split)

lemma decode_tract_not_stale: "decode_tract E buf \<noteq> Inr (seal, BStale)"
proof -
  have "audit_doc schema a \<noteq> Inr BStale" for schema a
    by (auto simp: audit_doc_def bindV_eq_Inr Let_def split: if_splits)
  then show ?thesis by (auto simp: decode_tract_def bindV_eq_Inr split: option.splits VsfType.splits if_splits)
qed

lemma returning_found:
  assumes "\<And>slot h l. depth < 52 \<Longrightarrow> returning (f slot h l)"
  shows "returning (tree_found f E base lba expected indent depth path buf)"
proof (cases "decode_tract E buf")
  case (Inr p)
  obtain seal doc where p: "p = (seal, doc)" by (rule prod.exhaust)
  note run = tree_found_def Inr p sum.case prod.case Let_def
  show ?thesis
  proof (cases doc)
    case (BNode d route children)
    show ?thesis unfolding run BNode TractBlock.case
      by (intro returning_bind returning_pure returning_for) (use assms in \<open>auto split: prod.split\<close>)
  next
    case BStale
    then show ?thesis using Inr p decode_tract_not_stale by blast
  qed (simp_all add: run returning_leaf returning_pure)
qed (simp add: tree_found_def returning_pure)

lemma returning_visit:
  assumes "returning k"
  shows "returning (if buf = ZERO_BLOCK then push_node indent lba BStale True True (Some ''stale pointer'')
       else bindE (getE (\<lambda>s. lba \<in> set (ip_reachable s))) (\<lambda>seen. if seen then push_bad indent lba ''cycle: already reached''
         else bindE (modE (ip_reachable_update (List.insert lba))) (\<lambda>_. k)))"
  by (auto intro!: returning_bind returning_pure assms)

lemma returning_tree: "returning (walk_tree E base lba expected indent depth path)"
proof (induction "52 - depth" arbitrary: lba expected indent depth path rule: less_induct)
  case less
  let ?k = "tree_found (\<lambda>slot h child. walk_tree E base child h (indent + 1) (depth + 1) (key_with_chunk path depth slot))
     E base lba expected indent depth path"
  have k: "returning (?k buf)" for buf by (rule returning_found) (rule less, simp)
  let ?m = "\<lambda>buf. if buf = ZERO_BLOCK then push_node indent lba BStale True True (Some ''stale pointer'')
       else bindE (getE (\<lambda>s. lba \<in> set (ip_reachable s))) (\<lambda>seen. if seen then push_bad indent lba ''cycle: already reached''
         else bindE (modE (ip_reachable_update (List.insert lba))) (\<lambda>_. ?k buf))"
  have m: "returning (?m buf)" for buf by (rule returning_visit) (rule k)
  show ?case unfolding returning_def
  proof (intro allI impI)
    fix s :: insp assume s: "wf_dev (ip_dev s)" "healthy (ip_dev s)"
    show "\<exists>x s'. walk_tree E base lba expected indent depth path s = (Inr x, s') \<and> ip_dev s' = ip_dev s"
    proof (cases "out_of_range base lba (ip_dev s)")
      case True
      then show ?thesis by (simp add: walk_tree_eq bindE_ok [OF getE_run] push_bad_def push_node_def run_simps)
    next
      case False
      then have "walk_tree E base lba expected indent depth path s = ?m (dev_content (ip_dev s) (base + lba)) s"
        by (subst walk_tree_eq) (simp only: bindE_ok [OF getE_run] bindE_ok [where m = "on_dev (dev_read (base + lba))", OF dev_read_in_range [OF s False]] if_False)
      then show ?thesis using returningE [OF m s] by metis
    qed
  qed
qed

text \<open>An operation that succeeds on \<open>d\<close> and leaves it.\<close>

definition answers :: "filedev \<Rightarrow> (filedev, 'a) op \<Rightarrow> bool" where
  "answers d m \<longleftrightarrow> (\<exists>x. m d = (Inr x, d))"

lemma answers_pure: "answers d (retE x)" "answers d (getE g)"
  by (simp_all add: answers_def run_simps)

lemma answers_bind: "answers d m \<Longrightarrow> (\<And>x. m d = (Inr x, d) \<Longrightarrow> answers d (f x)) \<Longrightarrow> answers d (bindE m f)"
  by (auto simp: answers_def bindE_ok)

lemma answers_map: "(\<And>x. x \<in> set xs \<Longrightarrow> answers d (f x)) \<Longrightarrow> answers d (mapE f xs)"
  by (induction xs) (auto intro!: answers_bind answers_pure)

lemma answers_read: "wf_dev d \<Longrightarrow> healthy d \<Longrightarrow> l < fd_blocks d \<Longrightarrow> answers d (dev_read l)"
  by (simp add: answers_def dev_read_healthy)

lemma answers_state: "answers d (m d) \<Longrightarrow> answers d (\<lambda>d. m d d)"
  by (simp add: answers_def)

lemma answers_if: "answers d m \<Longrightarrow> answers d n \<Longrightarrow> answers d (if c then m else n)"
  by simp

lemma answers_read_then: "wf_dev d \<Longrightarrow> healthy d \<Longrightarrow> l < fd_blocks d \<Longrightarrow> answers d (f (dev_content d l)) \<Longrightarrow> answers d (bindE (dev_read l) f)"
  by (simp add: answers_def dev_read_healthy bindE_ok)

lemma answers_discover:
  assumes "wf_dev d" and "healthy d"
  shows "answers d (discover_ring_log2 E)"
proof -
  have "answers d (discover_slots E slots)" if "\<forall>k \<in> set slots. k < fd_blocks d" for slots
    using that
  proof (induction slots)
    case (Cons k slots)
    have "answers d (case classify E (dev_content d k) k None of Valid e \<Rightarrow> retE (Some (se_ring_log2 e)) | _ \<Rightarrow> discover_slots E slots)"
      using Cons by (cases "classify E (dev_content d k) k None") (simp_all add: answers_pure)
    then show ?case unfolding discover_slots.simps using Cons.prems by (intro answers_read_then assms) simp_all
  qed (simp add: answers_pure)
  then show ?thesis unfolding discover_ring_log2_def by (intro answers_state [where m = "\<lambda>d. discover_slots E [0 ..< min (2 ^ 4) (fd_blocks d)]"]) simp
qed

lemma answers_slots:
  assumes "wf_dev d" and "healthy d" and "n \<le> fd_blocks d"
  shows "answers d (classify_slots E r n)"
  unfolding classify_slots_def by (intro answers_map answers_read_then answers_pure assms(1,2)) (use assms(3) in simp)

lemma answers_chain_from:
  assumes "vsf_ok E" and "clock_typed E" and "healthy d"
  shows "answers d (walk_chain_from E r g prev)"
proof (induction g arbitrary: prev)
  case (Suc g)
  let ?slot = "ring_slot r g"
  obtain q d1 where "dev_read ?slot d = (q, d1)" by (rule prod.exhaust)
  with dev_read_still [OF assms(3) this] have q: "tryE (dev_read ?slot) d = (Inr q, d)" by (simp add: tryE_def)
  show ?case
  proof (cases q)
    case (Inr buf)
    show ?thesis
    proof (cases "classify E buf ?slot (Some r)")
      case (Valid e)
      then have "spine_wf e" using classify_valid spine_decode_wf [OF assms(2)] by blast
      then have "spine_body_hash E e = Inr (blake3 E (doc_body E SCHEMA (spine_pairs e)))" by (rule spine_body_hash_eq [OF assms(1)])
      then show ?thesis using Suc [of "se_prev_hash e"] Inr Valid
        by (auto simp: answers_def Let_def bindE_ok [where m = "tryE (dev_read ?slot)", OF q] run_simps)
    qed (use Inr in \<open>simp_all add: answers_def Let_def bindE_ok [where m = "tryE (dev_read ?slot)", OF q] run_simps\<close>)
  qed (simp add: answers_def Let_def bindE_ok [where m = "tryE (dev_read ?slot)", OF q] run_simps)
qed (simp add: answers_pure)

lemma answers_chain: "vsf_ok E \<Longrightarrow> clock_typed E \<Longrightarrow> healthy d \<Longrightarrow> answers d (walk_chain E r head)"
  by (auto simp: walk_chain_def answers_pure answers_chain_from split: option.split)

lemma answers_tree:
  assumes "wf_dev d" and "healthy d"
  shows "answers d (inspect_tree E b base head)"
proof (cases "if b then head else None")
  case (Some p)
  obtain k h where p: "p = (k, h)" by (rule prod.exhaust)
  have i: "ip_dev (insp_begin d) = d" by (simp add: insp_begin_def)
  obtain x t where "walk_tree E base (se_hamt_lba h) (se_hamt_hash h) 0 0 (replicate 32 0) (insp_begin d) = (Inr x, t)" "ip_dev t = d"
    using returningE [OF returning_tree, of "insp_begin d"] assms i by metis
  then show ?thesis using Some p by (auto simp: answers_def inspect_tree_def)
qed (simp add: answers_def inspect_tree_def)

lemma answers_orphans:
  assumes "wf_dev d" and "healthy d"
  shows "answers d (scan_orphans E base tb R)"
  unfolding scan_orphans_def Let_def
  by (rule answers_state, intro answers_bind answers_map answers_read_then answers_pure assms) (auto split: option.splits)

lemma answers_inspect:
  assumes "vsf_ok E" and "clock_typed E" and "wf_dev d" and "healthy d"
  shows "answers d (inspect E opts)"
  unfolding inspect_def Let_def
  by (intro answers_bind answers_pure answers_discover answers_slots answers_chain answers_tree answers_if answers_orphans assms)
    (simp add: run_simps)

section \<open>The chain at the lap horizon\<close>

text \<open>On a full ring past its first lap, the chain walk ends at the oldest entry: its parent's slot
  holds the head.\<close>

lemma chain_horizon:
  assumes "vsf_ok E" and "wf_dev d" and "healthy d" and "2 ^ r \<le> fd_blocks d" and "2 ^ r \<le> G"
    and full: "\<And>k. k < 2 ^ r \<Longrightarrow> \<exists>e. classify E (dev_content d k) k (Some r) = Valid e \<and> spine_wf e \<and> se_gen e \<le> G \<and> G < se_gen e + 2 ^ r"
    and "g \<le> G" and "G < g + 2 ^ r"
  shows "\<exists>links. walk_chain_from E r g prev d = (Inr links, d) \<and> (G + 1 - 2 ^ r, False) \<in> set links"
  using assms(7,8)
proof (induction g arbitrary: prev)
  case 0
  then show ?case using assms(5) by simp
next
  case (Suc p)
  let ?n = "2 ^ r :: nat" and ?k = "ring_slot r p"
  have k: "?k = p mod ?n" "?k < ?n" by (simp_all add: ring_slot_eq)
  obtain e where e: "classify E (dev_content d ?k) ?k (Some r) = Valid e" "spine_wf e" "se_gen e \<le> G" "G < se_gen e + ?n"
    using full [OF k(2)] by blast
  have m: "se_gen e mod ?n = p mod ?n" using classify_valid [OF e(1)] k(1) by simp
  have rd: "tryE (dev_read ?k) d = (Inr (Inr (dev_content d ?k)), d)"
    using dev_read_healthy [OF assms(2,3), of ?k] k(2) assms(4) by (simp add: tryE_def)
  have bh: "spine_body_hash E e = Inr (blake3 E (doc_body E SCHEMA (spine_pairs e)))" by (rule spine_body_hash_eq [OF assms(1) e(2)])
  show ?case
  proof (cases "G < p + ?n")
    case True
    have "se_gen e = p" by (rule mod_window_inj [OF m, of "G + 1 - ?n"]) (use True e(3,4) Suc.prems in auto)
    moreover obtain links where "walk_chain_from E r p (se_prev_hash e) d = (Inr links, d)" "(G + 1 - ?n, False) \<in> set links"
      using Suc.IH [of "se_prev_hash e"] True Suc.prems(1) by auto
    ultimately show ?thesis using e(1) bh by (auto simp: Let_def bindE_ok [where m = "tryE (dev_read ?k)", OF rd] run_simps)
  next
    case False
    then have "p + ?n = G" "se_gen e \<noteq> p" using Suc.prems e(4) by auto
    then show ?thesis using e(1) by (auto simp: Let_def bindE_ok [where m = "tryE (dev_read ?k)", OF rd] run_simps)
  qed
qed

end
