(* ===== verification/Inspect_Tools.thy ===== *)
theory Inspect_Tools
  imports Inspect_Walk Vault_Open
begin

text \<open>
  The command-line tools \<open>src/bin/vaultinfo.rs\<close> and \<open>src/bin/vaultfix.rs\<close>: how they read their
  arguments, what they do with the files, and the exit code. Opening a file is the operating system's
  part: the argument \<open>open_file\<close> gives the device behind a path or the error of \<open>FileDev::open\<close>.
  What they print is not modelled.
\<close>

section \<open>vaultinfo\<close>

fun read_args :: "string list \<Rightarrow> InspectOptions \<times> string list \<Rightarrow> (InspectOptions \<times> string list) option" where
  "read_args [] acc = Some acc"
| "read_args (arg # argv) (opts, files) =
     (if arg = ''--scan'' then read_args argv (opts\<lparr>io_orphan_scan := True\<rparr>, files)
      else if arg = ''-v'' \<or> arg = ''--verbose'' then read_args argv (opts\<lparr>io_verbose_ring := True\<rparr>, files)
      else if arg = ''--ring-only'' then read_args argv (opts\<lparr>io_show_tree := False\<rparr>, files)
      else if arg = ''--tree-only'' then read_args argv (opts\<lparr>io_show_ring := False\<rparr>, files)
      else if take 1 arg = ''-'' then None
      else read_args argv (opts, files @ [arg]))"

type_synonym head_id = "(nat \<times> hash) option"

text \<open>Each file on its own: whether all checks passed, and its head; an open or inspect error stops.\<close>

fun inspect_files :: "vsf_env \<Rightarrow> (string \<Rightarrow> filedev result) \<Rightarrow> InspectOptions \<Rightarrow> string list \<Rightarrow> (bool \<times> head_id list) result" where
  "inspect_files E open_file opts [] = Inr (True, [])"
| "inspect_files E open_file opts (path # paths) =
     bindR (open_file path) (\<lambda>d.
     bindR (fst (inspect E opts d)) (\<lambda>rep.
     bindR (inspect_files E open_file opts paths) (\<lambda>(all_pass, heads).
     Inr (all_checks_pass rep \<and> all_pass, map_option (\<lambda>(_, e). (se_gen e, se_hamt_hash e)) (ir_head rep) # heads))))"

text \<open>Whether a mirror pair's comparison leaves the verdict standing.\<close>

definition convergence_ok :: "head_id list \<Rightarrow> bool" where
  "convergence_ok heads = (case heads of
     [Some (ga, ha), Some (gb, hb)] \<Rightarrow> \<not> (ga = gb \<and> ha \<noteq> hb)
   | [_, _] \<Rightarrow> False
   | _ \<Rightarrow> True)"

definition vaultinfo :: "vsf_env \<Rightarrow> (string \<Rightarrow> filedev result) \<Rightarrow> string list \<Rightarrow> nat" where
  "vaultinfo E open_file argv =
     (if list_ex (\<lambda>a. a = ''-h'' \<or> a = ''--help'') argv \<or> argv = [] then (if argv = [] then 1 else 0)
      else case read_args argv (default_options, []) of
        None \<Rightarrow> 1
      | Some (opts, files) \<Rightarrow>
          if files = [] then 1
          else if length files > 2 then 1
          else case inspect_files E open_file opts files of
            Inl _ \<Rightarrow> 1
          | Inr (all_pass, heads) \<Rightarrow> if all_pass \<and> convergence_ok heads then 0 else 2)"

section \<open>vaultfix\<close>

text \<open>The mirror over the given files.\<close>

definition fix_mirror :: "(string \<Rightarrow> filedev result) \<Rightarrow> string list \<Rightarrow> mirror result" where
  "fix_mirror open_file files = (case files of
     [f] \<Rightarrow> bindR (open_file f) (\<lambda>a. mirror_from_parts (Some a) None)
   | f # g # _ \<Rightarrow> bindR (open_file f) (\<lambda>a. bindR (open_file g) (\<lambda>b. Inr (mirror_new a b)))
   | [] \<Rightarrow> Inl (Panic ''index out of bounds''))"

definition vaultfix :: "vsf_env \<Rightarrow> (owners \<Rightarrow> owners) \<Rightarrow> (string \<Rightarrow> filedev result) \<Rightarrow> int \<Rightarrow> string list \<Rightarrow>
    nat \<times> mirror option \<times> RepairReport option" where
  "vaultfix E ho open_file now files =
     (if files = [] \<or> length files > 2 \<or> list_ex (\<lambda>f. take 1 f = ''-'') files then (1, None, None)
      else case fix_mirror open_file files of
        Inl _ \<Rightarrow> (1, None, None)
      | Inr m \<Rightarrow> (case open_repairing E ho m now UnlinkOnly of
          (Inl _, m') \<Rightarrow> (1, Some m', None)
        | (Inr (_, rep), m') \<Rightarrow> (0, Some m', Some rep)))"

end
