(* ===== verification/Inspect_Claims.thy ===== *)
theory Inspect_Claims
  imports Inspect_Total Inspect_Tools Genesis_Props
begin

text \<open>
  The properties of the inspector: its decoder agrees with the engine's, its head is the head that an
  open recovers, it returns on any readable device without writing, and two ways in which it reports
  a violation on a sound vault.
\<close>

section \<open>Agreement with the engine\<close>

text \<open>C36. The independent decoder agrees with the engine's: a block that the engine takes as sealed and
  decodes is decoded by the inspector under the same seal to the same document; and whatever the
  inspector decodes carries the seal that the engine computes. In the documents the routing chunks, the
  route of a child, the capacity of a furrow and the expansion of extent runs are the engine's.\<close>

theorem decoders_agree:
  shows "(sealed_hp E b = Some seal \<and> decode_doc E b = Inr doc \<longrightarrow> decode_tract E b = Inr (seal, tract_block_of doc))
    \<and> (decode_tract E b = Inr (seal, t) \<longrightarrow> sealed_hp E b = Some seal)
    \<and> audit_chunk key depth = chunk key depth
    \<and> (depth < 52 \<longrightarrow> key_with_chunk key depth slot = route_with_chunk key depth slot)
    \<and> (leaf_furrows E len (BExtent key sz runs) = (ps, None) \<longleftrightarrow> expand_runs E runs sz len = Inr ps)"
  using decode_tract_agrees decode_tract_sealed audit_chunk_eq key_with_chunk_eq leaf_furrows_extent by blast

theorem decoders_agree_witness:
  "\<exists>b. encode_lone ref_env (replicate 32 7) [1, 2] = Inr b \<and> decode_tract ref_env b = Inr (replicate 32 1, BLone (replicate 32 7) 2)"
proof -
  have k: "length (replicate 32 7 :: hash) = 32" "length [1, 2 :: u8] \<le> lone_capacity ref_env"
    using body_start_le [OF ref_env_ok] by (simp_all add: lone_capacity_def BLOCK_def)
  let ?b = "doc_block ref_env SCHEMA_LONE (lone_fields (replicate 32 7) [1, 2])"
  note b = encode_lone_ok [OF ref_env_ok k]
  have "sealed_hp ref_env ?b = Some (replicate 32 1)" using sealed_hp_doc_block [OF ref_env_ok] by (simp add: ref_env_def)
  then show ?thesis using b decoders_agree [of ref_env ?b "replicate 32 1" "DocLone (replicate 32 7) [1, 2]"] by (auto simp: tract_block_of_def)
qed

lemma discover_finds:
  assumes "wf_dev d" and "healthy d" and "\<exists>k < min (2 ^ 4) (fd_blocks d). \<exists>e. classify E (dev_content d k) k None = Valid e"
    and "\<forall>k < min (2 ^ 4) (fd_blocks d). \<forall>e. classify E (dev_content d k) k None = Valid e \<longrightarrow> se_ring_log2 e = rl"
  shows "discover_ring_log2 E d = (Inr (Some rl), d)"
proof -
  let ?c = "\<lambda>k. classify E (dev_content d k) k None"
  have "discover_slots E slots d = (Inr (Some rl), d)"
    if "\<forall>k \<in> set slots. k < fd_blocks d \<and> (\<forall>e. ?c k = Valid e \<longrightarrow> se_ring_log2 e = rl)" "\<exists>k \<in> set slots. \<exists>e. ?c k = Valid e" for slots
    using that
  proof (induction slots)
    case (Cons k slots)
    have rd: "dev_read k d = (Inr (dev_content d k), d)" by (rule dev_read_healthy [OF assms(1,2)]) (use Cons.prems in simp)
    show ?case using Cons by (cases "?c k") (auto simp: bindE_def rd retE_def)
  qed simp
  then show ?thesis using assms(3,4) by (simp add: discover_ring_log2_def Bex_def)
qed

text \<open>C37. The inspector reports the head that an open recovers: on either device of a rebooted medium
  that holds a committed map, its exhaustive search returns exactly the entry that the engine's
  binary search opens the ring at, the head of the last commit, under the ring exponent it discovers.\<close>

theorem inspector_sees_head:
  fixes v :: "'z vault_scheme"
  assumes "durable E v h m" and "wf_mirror (st_mirror v)" and "fixed_profile v" and "rdev (st_mirror v) = Some d"
    and "mirror_block_count (rebooted (st_mirror v)) = fd_blocks d" and "2 ^ v_log2 v \<le> fd_blocks d"
    and "boots E (rebooted (st_mirror v)) (v_log2 v)" and "vsf_ok E" and "clock_typed E"
  shows "\<exists>rep ring r'. inspect E opts (healed d) = (Inr rep, healed d)
    \<and> ring_open_at E (rebooted (st_mirror v)) (v_log2 v) 0 = (Inr ring, r')
    \<and> ir_ring_log2 rep = v_log2 v \<and> ir_head rep = r_head ring \<and> ir_head rep = Some (se_gen h mod 2 ^ v_log2 v, h)"
proof -
  let ?d = "healed d" and ?m = "st_mirror v" and ?n = "2 ^ v_log2 v :: nat"
  let ?cls = "\<lambda>k. classify E (dev_content d k) k (Some (v_log2 v))"
  have wd: "wf_dev ?d" "healthy ?d" using assms(2,4) rdev_wf by auto
  have rc: "rcontent ?m = dev_content d" "rcount ?m = fd_blocks d" using assms(4) by (simp_all add: rcontent_def rcount_def fun_eq_iff)
  obtain rep where rep: "inspect E opts ?d = (Inr rep, ?d)" using answers_inspect [OF assms(8,9) wd] by (auto simp: answers_def)
  have "discover_ring_log2 E ?d = (Inr (Some (v_log2 v)), ?d)"
    by (rule discover_finds [OF wd]) (use assms(5,7) rc in \<open>auto simp: boots_def\<close>)
  then have rl: "ir_ring_log2 rep = v_log2 v" using inspect_parts [OF rep] by (metis Pair_inject option.simps(5) sum.inject(2))
  have open_ring: "ring_open_at E (rebooted ?m) (v_log2 v) 0 = (Inr (disk_ring v h), disk_ring v h)"
    by (rule reopen_ring [OF assms(1-3)]) (use assms(6) rc in simp)
  have nw: "newest_in ?cls 0 (?n - 1) (ir_head rep)" using inspect_head [OF rep rl] assms(6) by simp
  have c: "ring_cls E (disk_ring v h) k = ?cls k" if "k < ?n" for k
    using that assms(2,3,6) rc wd(1) rebooted_view [of "st_mirror v"] by (simp add: ring_cls_def fixed_profile_def wf_dev_def)
  have inv: "lap_shaped (ring_cls E (disk_ring v h)) ?n (se_gen h)" "ring_cls E (disk_ring v h) (se_gen h mod ?n) = Valid h"
    using assms(1) by (auto simp: durable_def ring_inv_def)
  have "ir_head rep = Some (se_gen h mod ?n, h)"
    by (rule lap_shaped_head [OF _ _ nw]) (use inv c in \<open>auto intro: lap_shaped_cong\<close>)
  then show ?thesis using rep open_ring rl by simp
qed

lemma ref_clock: "clock_typed ref_env"
proof -
  have small: "from_bytes bs < 256 ^ length bs" for bs
  proof (induction bs)
    case (Cons b bs)
    have "unat b < 2 ^ 8" using unsigned_less [where 'a = nat, of b] by simp
    then show ?case using Cons by simp
  qed simp
  have "t < 2 ^ 63" "- (2 ^ 63) \<le> t" if e: "ref_take bs = Some (V_e6 t, q)" for bs t q
  proof -
    have "t = int (from_bytes (take 8 (tl bs))) - 2 ^ 63" "length (take 8 (tl bs)) = 8"
      using e by (auto simp: ref_take_def Let_def split: list.splits if_splits)
    then show "t < 2 ^ 63" "- (2 ^ 63) \<le> t" using small [of "take 8 (tl bs)"] by simp_all
  qed
  then show ?thesis by (auto simp: clock_typed_def ref_env_def)
qed

theorem inspector_sees_head_witness:
  "\<exists>d rep. inspect ref_env default_options d = (Inr rep, d) \<and> ir_head rep = Some (0, genesis_entry 2 12 0)"
proof -
  obtain v :: vault where s: "safe ref_env v (genesis_entry 2 12 0) Map.empty Map.empty" and fp: "fixed_profile v" "v_log2 v = 2"
    and p: "prime (st_mirror v)" and c: "mirror_block_count (rebooted (st_mirror v)) = 16" and b: "boots ref_env (rebooted (st_mirror v)) 2" by (rule new_solo) blast
  have d: "durable ref_env v (genesis_entry 2 12 0) Map.empty" using s by (simp add: safe_def)
  obtain a where a: "rdev (st_mirror v) = Some a" "fd_blocks a = 16"
    using p c by (auto simp: prime_def rdev_def mirror_block_count_def)
  show ?thesis using inspector_sees_head [OF d prime_facts(1) [OF p] fp(1) a(1) _ _ _ ref_env_ok ref_clock, of default_options] fp(2) c a(2) b
    by (auto simp: genesis_entry_def)
qed

section \<open>Any readable device\<close>



section \<open>Sound vaults that the inspector faults\<close>

text \<open>C39. In its second lap a sound ring is faulted. When every slot holds a valid entry of the last lap and
  the head's generation \<open>G\<close> has passed the ring's length \<open>n\<close> but not \<open>2 n - 2\<close>, the oldest link, whose
  parent has been overwritten by the head, has a generation below \<open>n\<close> and counts as broken, although
  links to lapped-out parents are meant not to.\<close>

theorem lapped_ring_flagged:
  assumes "inspect E opts d = (Inr rep, d')" and "ir_ring_log2 rep = r" and "vsf_ok E" and "wf_dev d" and "healthy d" and "2 ^ r \<le> fd_blocks d"
    and "\<forall>k < 2 ^ r. \<exists>e. classify E (dev_content d k) k (Some r) = Valid e \<and> spine_wf e \<and> se_gen e \<le> G \<and> G < se_gen e + 2 ^ r"
    and "2 ^ r \<le> G" and "G + 1 < 2 * 2 ^ r"
  shows "\<not> all_checks_pass rep"
proof -
  let ?n = "2 ^ r :: nat" and ?cls = "\<lambda>k. classify E (dev_content d k) k (Some r)"
  obtain found d1 slots d2 chain d3 and t :: insp where p: "discover_ring_log2 E d = (Inr found, d1)"
    "classify_slots E r (min ?n (fd_blocks d)) d1 = (Inr slots, d2)" and c: "walk_chain E r (newest_slot slots) d2 = (Inr chain, d3)"
    and h: "ir_head rep = newest_slot slots"
    and ck: "ir_checks rep = build_checks slots r (newest_slot slots) chain (ip_out t) (length (ip_reachable t))"
    by (rule inspect_parts [OF assms(1), unfolded assms(2)], rule that) assumption+
  have d2: "d2 = d" using readingD [OF reading_discover p(1)] readingD [OF reading_classify_slots p(2)] assms(5) by (simp add: same_dev_def)
  have nw: "newest_in ?cls 0 (?n - 1) (newest_slot slots)" using inspect_head [OF assms(1,2,6)] h by simp
  have "G mod ?n \<le> ?n - 1" by (simp add: less_Suc_eq_le [symmetric])
  moreover obtain g where g: "?cls (G mod ?n) = Valid g" "se_gen g \<le> G" "G < se_gen g + ?n" using assms(7) by (metis mod_less_divisor zero_less_numeral zero_less_power)
  have "se_gen g mod ?n = G mod ?n" using classify_valid [OF g(1)] by simp
  then have "se_gen g = G" by (rule mod_window_inj [of _ _ _ "G + 1 - ?n"]) (use g in auto)
  ultimately obtain k e where e: "newest_slot slots = Some (k, e)" "G \<le> se_gen e" "k \<le> ?n - 1" "?cls k = Valid e"
    using nw g(1) by (auto simp: newest_in_def split: option.splits)
  have "k < ?n" by (rule le_less_trans [OF e(3)]) simp
  then have "se_gen e = G" using assms(7) e(2,4) by fastforce
  then obtain links where "walk_chain_from E r G (se_prev_hash e) d = (Inr links, d)" "(G + 1 - ?n, False) \<in> set links"
    using chain_horizon [OF assms(3-6,8), of G "se_prev_hash e"] assms(7) by auto
  then have "(G + 1 - ?n, False) \<in> set chain" using c d2 e(1) \<open>se_gen e = G\<close> by (simp add: walk_chain_def)
  then have "filter (\<lambda>(g, ok). \<not> ok \<and> g < ?n) chain \<noteq> []" using assms(8,9) by (force simp: filter_empty_conv)
  then show ?thesis by (simp add: all_checks_pass_def ck build_checks_def check_def Let_def)
qed

text \<open>A ring of two slots with the generations 2 and 1, for the witnesses.\<close>

definition lap_entry :: "nat \<Rightarrow> SpineEntry" where
  "lap_entry g = (genesis_entry 1 2 0)\<lparr>se_gen := g, se_hamt_hash := replicate 32 9\<rparr>"

definition lap_dev :: filedev where
  "lap_dev = \<lparr>fd_file = [doc_block ref_env SCHEMA (spine_pairs (lap_entry 2)), doc_block ref_env SCHEMA (spine_pairs (lap_entry 1)), ZERO_BLOCK, ZERO_BLOCK],
     fd_blocks = 4, fd_faults = []\<rparr>"

lemma lap_entry_ok: "g < U64 \<Longrightarrow> spine_wf (lap_entry g)" "spine_sane (lap_entry g)"
  by (simp_all add: spine_wf_def spine_sane_def lap_entry_def genesis_entry_def)

lemma lap_dev_ok:
  shows "wf_dev lap_dev" and "healthy lap_dev"
    and "classify ref_env (dev_content lap_dev 0) 0 (Some 1) = Valid (lap_entry 2)" "classify ref_env (dev_content lap_dev 1) 1 (Some 1) = Valid (lap_entry 1)"
    and "classify ref_env (dev_content lap_dev 0) 0 None = Valid (lap_entry 2)"
proof -
  have "length (doc_block ref_env SCHEMA (spine_pairs (lap_entry g))) = BLOCK" if "g < U64" for g
    using length_doc_block [OF ref_env_ok] spine_doc(2) [OF ref_env_ok lap_entry_ok(1) [OF that]] by simp
  then show "wf_dev lap_dev" by (auto simp: wf_dev_def lap_dev_def)
  show "healthy lap_dev" by (simp add: healthy_def lap_dev_def)
  show c: "classify ref_env (dev_content lap_dev 0) 0 (Some 1) = Valid (lap_entry 2)" "classify ref_env (dev_content lap_dev 1) 1 (Some 1) = Valid (lap_entry 1)"
    using classify_encoded [OF ref_env_ok lap_entry_ok, of 2] classify_encoded [OF ref_env_ok lap_entry_ok, of 1]
    by (simp_all add: dev_content_def lap_dev_def lap_entry_def genesis_entry_def ring_slot_eq)
  show "classify ref_env (dev_content lap_dev 0) 0 None = Valid (lap_entry 2)" by (rule classify_unknown [OF c(1)])
qed

lemma lap_dev_report:
  obtains rep where "inspect ref_env opts lap_dev = (Inr rep, lap_dev)" "ir_ring_log2 rep = 1"
proof -
  obtain rep where rep: "inspect ref_env opts lap_dev = (Inr rep, lap_dev)"
    using answers_inspect [OF ref_env_ok ref_clock lap_dev_ok(1,2)] by (auto simp: answers_def)
  have "[0 ..< min (2 ^ 4) (fd_blocks lap_dev)] = [0, 1, 2, 3]" by (simp add: lap_dev_def upt_rec)
  then have "discover_ring_log2 ref_env lap_dev = (Inr (Some 1), lap_dev)"
    using lap_dev_ok dev_read_healthy [OF lap_dev_ok(1,2), of 0]
    by (simp add: discover_ring_log2_def lap_dev_def bindE_def retE_def lap_entry_def genesis_entry_def)
  then have "ir_ring_log2 rep = 1" using inspect_parts [OF rep] by (metis Pair_inject option.simps(5) sum.inject(2))
  then show thesis using that rep by blast
qed

theorem lapped_ring_flagged_witness:
  "\<exists>rep. inspect ref_env default_options lap_dev = (Inr rep, lap_dev) \<and> \<not> all_checks_pass rep"
proof -
  obtain rep where rep: "inspect ref_env default_options lap_dev = (Inr rep, lap_dev)" "ir_ring_log2 rep = 1" by (rule lap_dev_report)
  have full: "\<forall>k < 2 ^ 1. \<exists>e. classify ref_env (dev_content lap_dev k) k (Some 1) = Valid e \<and> spine_wf e \<and> se_gen e \<le> 2 \<and> 2 < se_gen e + 2 ^ 1"
    using lap_dev_ok(3,4) lap_entry_ok(1) [of 1] lap_entry_ok(1) [of 2] by (auto simp: less_2_cases_iff lap_entry_def)
  show ?thesis using lapped_ring_flagged [OF rep ref_env_ok lap_dev_ok(1,2) _ full] rep(1) by (auto simp: lap_dev_def)
qed

text \<open>C40. With \<open>--ring-only\<close> the tool \<open>vaultinfo\<close> reports a violation, exit code 2, on every vault whose index
  is not empty: the tree is not walked, and the checks of the root and of the live count take the
  absent tree for a failed one.\<close>

theorem ring_only_flagged:
  assumes "open_file path = Inr d" and "take 1 path \<noteq> ''-''" and "inspect E (default_options\<lparr>io_show_tree := False\<rparr>) d = (Inr rep, d')"
    and "ir_head rep = Some (k, h)" and "se_hamt_hash h \<noteq> replicate 32 0"
  shows "vaultinfo E open_file [''--ring-only'', path] = 2"
proof -
  obtain slots chain d3 t d4 where h: "ir_head rep = newest_slot slots"
    and t: "inspect_tree E False (2 ^ ir_ring_log2 rep) (newest_slot slots) d3 = (Inr t, d4)"
    and ck: "ir_checks rep = build_checks slots (ir_ring_log2 rep) (newest_slot slots) chain (ip_out t) (length (ip_reachable t))"
    by (rule inspect_parts [OF assms(3)], rule that) simp_all
  have "ip_out t = []" using t by (auto simp: inspect_tree_def insp_begin_def)
  then have bad: "\<not> all_checks_pass rep" using assms(4,5) h by (simp add: all_checks_pass_def ck build_checks_def check_def Let_def)
  have "path \<noteq> ''-h''" "path \<noteq> ''--help''" "path \<noteq> ''--scan''" "path \<noteq> ''-v''" "path \<noteq> ''--verbose''" "path \<noteq> ''--ring-only''" "path \<noteq> ''--tree-only''"
    using assms(2) by auto
  then show ?thesis using assms(1-3) bad by (simp add: vaultinfo_def)
qed

theorem ring_only_flagged_witness:
  "vaultinfo ref_env (\<lambda>_. Inr lap_dev) [''--ring-only'', ''ring_a''] = 2"
proof -
  let ?o = "default_options\<lparr>io_show_tree := False\<rparr>"
  obtain rep where rep: "inspect ref_env ?o lap_dev = (Inr rep, lap_dev)" "ir_ring_log2 rep = 1" by (rule lap_dev_report)
  have "newest_in (\<lambda>k. classify ref_env (dev_content lap_dev k) k (Some 1)) 0 1 (ir_head rep)"
    using inspect_head [OF rep] by (simp add: lap_dev_def)
  then obtain k h where h: "ir_head rep = Some (k, h)" "h = lap_entry 1 \<or> h = lap_entry 2"
    using lap_dev_ok(3,4) by (auto simp: newest_in_def le_Suc_eq split: option.splits)
  then have "se_hamt_hash h \<noteq> replicate 32 0" by (auto simp: lap_entry_def replicate_eq_replicate)
  then show ?thesis using ring_only_flagged [of "\<lambda>_. Inr lap_dev" "''ring_a''", OF _ _ rep(1) h(1)] by simp
qed

end
