(* ===== verification/Replicate_Claims.thy ===== *)
theory Replicate_Claims
  imports Planted_Vault
begin

text \<open>
  The property of the mirror resync, with its witness: a vault with a key, replicated onto a blank device
  given as the second argument and as the first.
\<close>

text \<open>C15. Replication gives the loser what the winner has committed, whichever argument is the winner. The
  winner, a sound device of the fixed-ring profile, holds the map \<open>m\<close> at the head \<open>h\<close>; the loser is any
  device, with any faults, whose valid spine entries are all older. When the resync reports success the
  winner is as it was, and the loser, alone, would come back from a crash with the head \<open>h\<close> and the
  map \<open>m\<close>. Between sound devices of one size it does report success, if no position of the tree is
  reached twice. The hypothesis on the tree: no pointer of it names a zeroed block.\<close>

theorem replicate_recovers:
  fixes v :: "'z vault_scheme"
  assumes "wf_dev w" and "healthy w" and "wf_dev l" and "st_mirror v = alone w"
    and "durable E v h m" and "fixed_profile v" and "committed_intact E v h"
    and "t_base (st_tract v) + se_tract_blocks h \<le> fd_blocks w"
    and "rootless E (alone w)" and "rootless E (alone l)"
    and "\<And>g. holds_gen E (v_log2 v) 0 l {..< 2 ^ v_log2 v} g \<Longrightarrow> g < se_gen h"
  shows "(\<forall>rep p'. verified_replicate E (v_log2 v) (arranged winner_first w l) = (Inr rep, p') \<longrightarrow>
      (\<exists>l'. p' = arranged winner_first w l' \<and> durable E (v\<lparr>st_mirror := alone l'\<rparr>) h m))
    \<and> (healthy l \<and> fd_blocks l = fd_blocks w \<and> distinct (committed_walk E v h) \<longrightarrow>
      (\<exists>rep p'. verified_replicate E (v_log2 v) (arranged winner_first w l) = (Inr rep, p')))"
  using verified_replicate_newer [OF _ assms(1-3,5,4,6-11)]
    verified_replicate_returns [OF assms(1,2) refl assms(3) _ _ assms(5,4,6,8,7) _ assms(9-11)] by blast

theorem replicate_recovers_witness:
  "(\<exists>rep l'. verified_replicate ref_env 2 \<lparr>p_src = planted_dev, p_dst = fresh_dev 16\<rparr> = (Inr rep, \<lparr>p_src = planted_dev, p_dst = l'\<rparr>)
     \<and> durable ref_env (planted\<lparr>st_mirror := alone l'\<rparr>) planted_entry planted_map)
   \<and> (\<exists>rep l'. verified_replicate ref_env 2 \<lparr>p_src = fresh_dev 16, p_dst = planted_dev\<rparr> = (Inr rep, \<lparr>p_src = l', p_dst = planted_dev\<rparr>)
     \<and> durable ref_env (planted\<lparr>st_mirror := alone l'\<rparr>) planted_entry planted_map)"
proof -
  have zero: "dev_content (fresh_dev 16) l = ZERO_BLOCK" if "l < 16" for l using that by (simp add: dev_content_def)
  have root: "rootless ref_env (alone (fresh_dev 16))" using zero zero_undecodable(1) by (auto simp: rootless_def ROOT_SLOTS_def)
  have none: "\<not> holds_gen ref_env (v_log2 planted) 0 (fresh_dev 16) {..< 2 ^ v_log2 planted} g" for g
    using zero zero_undecodable(2) by (auto simp: holds_gen_def wadd_def)
  have loser: "wf_dev (fresh_dev 16)" "healthy (fresh_dev 16)" "fd_blocks (fresh_dev 16) = 16" by (simp_all add: wf_dev_def fresh_dev_def healthy_def)
  have fit: "t_base (st_tract planted) + se_tract_blocks planted_entry \<le> fd_blocks planted_dev" using planted_dev_ok(3) by simp
  have both: "\<exists>rep l'. verified_replicate ref_env 2 (arranged b planted_dev (fresh_dev 16)) = (Inr rep, arranged b planted_dev l')
     \<and> durable ref_env (planted\<lparr>st_mirror := alone l'\<rparr>) planted_entry planted_map" for b
    using replicate_recovers [OF planted_dev_ok(1,2) loser(1) planted_simps(1) planted_durable planted_profile(1) planted_tree(1) fit planted_rootless root, of b]
      none loser planted_dev_ok(3) planted_tree(2) by fastforce
  show ?thesis using both [of True] both [of False] by (simp add: arranged_def)
qed

end
