(* ===== verification/Spec2Isabelle.thy ===== *)
theory Spec2Isabelle
  imports Store_Claims Ring_Claims Codec_Claims Index_Claims Vault_Claims Inspect_Claims Replicate_Claims
begin

text \<open>
  A verification library for manifestus, a crash-proof keyed object store over one or two mirrored
  devices of 4 KB blocks (crate \<open>manifestus\<close>, sources under \<open>src/src\<close>).

  \<^bold>\<open>The program.\<close> A device (\<open>block.rs\<close>, \<open>host.rs\<close>) reads, writes and flushes blocks. The mirror
  (\<open>mirror.rs\<close>) keeps two devices equal with verified writes, stages appends in memory, drains them in
  batches and caches reads. The low blocks hold the spine ring (\<open>ring.rs\<close>): one sealed entry per
  generation, found again by a binary search. The blocks after it are the tract (\<open>tract.rs\<close>), an
  append-only log that wraps around behind two cursors, the plow and the reap. The index
  (\<open>hamt.rs\<close>) is a copy-on-write hash trie in the tract. The vault (\<open>vault.rs\<close>) puts them together:
  open, get, put, delete, commit, growth, reclamation, and the convergence of a diverged mirror. The
  inspector (\<open>inspect.rs\<close>) decodes a device on its own for the tools \<open>vaultinfo\<close> and \<open>vaultfix\<close>.

  \<^bold>\<open>Conventions.\<close> A method that mutates \<open>self\<close> and returns a \<open>Result\<close> is an operation \<open>('s, 'a) op\<close> on
  a record: it returns the error or the value, and the state in both cases. Panics are the error
  \<open>Panic\<close>. A \<open>u64\<close> is a natural number below \<open>2 ^ 64\<close>; arithmetic on values that come off a block is
  the wrapping \<open>wadd\<close>, \<open>wsub\<close>, \<open>wmul\<close>. The crates \<open>vsf\<close> and \<open>blake3\<close> are the parameter record
  \<open>vsf_env\<close>; \<open>vsf_ok\<close> states what the engine relies on, \<open>Ref_Codec\<close> has a codec that satisfies it. The
  order of a hash map's iteration is the parameter \<open>ho\<close>. A device carries a script of faults, one per
  block transfer: an error, or a torn write that leaves any bytes.

  \<^bold>\<open>The models.\<close>
  \<^item> \<open>Prelude\<close>: errors, operations, machine integers, loops. \<open>Block_Dev\<close>: the device and its contract,
    the locale \<open>block_device\<close>. \<open>Host_Files\<close>: the host's files, adoption of a device file and its lock.
    \<open>Verified_Write\<close>: \<open>write_one\<close>, \<open>write_each\<close> over any such device.
  \<^item> \<open>Mirror_Model\<close>, \<open>Tract_Model\<close>, \<open>Ring_Model\<close> follow \<open>mirror.rs\<close>, \<open>tract.rs\<close>, \<open>ring.rs\<close>;
    \<open>Sealed_Block\<close> and \<open>Spine\<close> the sealed blocks and the entries of the spine and root rings.
  \<^item> \<open>Hamt_Doc\<close> the documents of the trie, \<open>Hamt_Model\<close> lookup, put, delete and flush, \<open>Hamt_Walk\<close> the
    walks, \<open>Hamt_Reap\<close> the reaper and the relocation repair.
  \<^item> \<open>Live_Set\<close>, \<open>Vault_Model\<close>, \<open>Vault_Open\<close>, \<open>Replicate\<close> the vault: live set, requests, commit,
    growth and rescue, the opens, mirror convergence.
  \<^item> \<open>Inspect_Model\<close>, \<open>Inspect_Walk\<close>, \<open>Inspect_Tools\<close> the inspector and the tools.

  \<^bold>\<open>What is shown.\<close>
  \<^item> Store (\<open>Mirror_Props\<close>, \<open>Mirror_Writes\<close>, \<open>Torn_Writes\<close>, \<open>Store_Frame\<close>, \<open>Store_Claims\<close>): a write that
    reports success is on the medium, whatever faults the device had; creating a device never
    truncates its file and locks it; a batch is the same writes one
    by one; draining is invisible; the failure of either device has the documented effect; appends
    stay in the clean space between the cursors.
  \<^item> Codecs (\<open>Key_Props\<close>, \<open>Doc_Props\<close>, \<open>Codec_Claims\<close>, \<open>Ring_Claims\<close>): round trips, and that every
    entry that decodes obeys the geometry.
  \<^item> Ring (\<open>Ring_Props\<close>): the head search returns, and finds the newest entry of a ring with one torn
    slot anywhere; an append keeps the invariant.
  \<^item> Index (\<open>Hamt_Tree\<close> to \<open>Hamt_Total\<close>, \<open>Keyed_Store\<close>, \<open>Index_Claims\<close>): a tree is the abstract state of
    the trie, a map that of the tree; lookup, put, delete and flush refine the map's operations, with
    every failure. The locale \<open>keyed_store\<close> gives whole sessions. Relocation (\<open>Reap_Props\<close>) swaps
    pointers that stand for the same subtree and keeps the map; the key walk (\<open>Key_Walk\<close>) lists every
    key of the map.
  \<^item> Vault (\<open>Vault_Props\<close> to \<open>Open_Props\<close>, \<open>Vault_Claims\<close>): \<open>durable\<close> says what a medium comes back with
    after a crash. Genesis establishes it, requests keep it, a commit moves it atomically from the old
    map to the new one, a lazy open reads what it says, and a device with a sealed block is not
    formatted. A full open (\<open>Hamt_Reach\<close>, \<open>Settle_Props\<close>) walks exactly what the root reaches and
    establishes the invariant again. Growth (\<open>Growth_Props\<close>) hands its commit the same map over the
    longer tract. A resync (\<open>Replicate_Props\<close>, \<open>Replicate_Claims\<close>) makes the older
    device come back with what the newer one has committed.
  \<^item> Inspector (\<open>Inspect_Decode\<close>, \<open>Inspect_Props\<close>, \<open>Inspect_Total\<close>, \<open>Inspect_Claims\<close>): its decoder and
    its head agree with the engine's, it returns on any readable device; two of its checks fault
    sound vaults.

  \<^bold>\<open>Fuel.\<close> The loops over the fields of a block have one turn per byte (\<open>field_loop_fuel\<close>); the recursion
  of the flush has the depth of a key (\<open>flush_node_fuel\<close>); the depth-first walks have one level more
  than a node can have (\<open>walk_keys_fuel\<close>); the tree walk and the settling loop one step per position of the tract. The
  ladders of a put, a rescue and a commit have the retry bounds of the source.

  \<^bold>\<open>Not modelled.\<close> The bounce buffers of direct I/O and the Windows and macOS variants of the system
  calls, the threads that read and write the two devices at once (the model runs them in order), the
  sink behind an event, the text of errors, of the report and of the tools, and the test modules.
  The step of the reap cursor after a window, the repairing open, the growth that drops uncommitted
  work and ring migration are modelled, and have no theorems of their own.
\<close>

end
